(* ===== verification/Utf8.thy ===== *)
theory Utf8
  imports Prelude
begin

text \<open>
  UTF-8 as Rust's \<^verbatim>\<open>std::str::from_utf8\<close> validates it (the well-formed byte sequences of the Unicode
  standard: no overlong forms, no surrogates, nothing above U+10FFFF), \<^verbatim>\<open>String::from_utf8(..).unwrap_or_default()\<close>,
  and the operations on \<^verbatim>\<open>char\<close>s the code uses: \<^verbatim>\<open>str::trim\<close> with the Unicode \<^verbatim>\<open>White_Space\<close> property.
\<close>

definition utf8_cont :: "char \<Rightarrow> bool" where
  "utf8_cont c \<longleftrightarrow> 128 \<le> byte c \<and> byte c \<le> 191"

text \<open>The length of the encoded character a string starts with, when it is well formed.\<close>

definition utf8_ok2 :: "char \<Rightarrow> char \<Rightarrow> bool" where
  "utf8_ok2 a b \<longleftrightarrow> 194 \<le> byte a \<and> byte a \<le> 223 \<and> utf8_cont b"

definition utf8_ok3 :: "char \<Rightarrow> char \<Rightarrow> char \<Rightarrow> bool" where
  "utf8_ok3 a b c \<longleftrightarrow> 224 \<le> byte a \<and> byte a \<le> 239 \<and> utf8_cont b \<and> utf8_cont c \<and>
     (byte a = 224 \<longrightarrow> 160 \<le> byte b) \<and> (byte a = 237 \<longrightarrow> byte b \<le> 159)"

definition utf8_ok4 :: "char \<Rightarrow> char \<Rightarrow> char \<Rightarrow> char \<Rightarrow> bool" where
  "utf8_ok4 a b c d \<longleftrightarrow> 240 \<le> byte a \<and> byte a \<le> 244 \<and> utf8_cont b \<and> utf8_cont c \<and> utf8_cont d \<and>
     (byte a = 240 \<longrightarrow> 144 \<le> byte b) \<and> (byte a = 244 \<longrightarrow> byte b \<le> 143)"

fun utf8_valid :: "string \<Rightarrow> bool" where
  "utf8_valid [] \<longleftrightarrow> True"
| "utf8_valid (a # s) \<longleftrightarrow>
     (if byte a < 128 then utf8_valid s
      else (case s of
              [] \<Rightarrow> False
            | b # s2 \<Rightarrow>
                if utf8_ok2 a b then utf8_valid s2
                else (case s2 of
                        [] \<Rightarrow> False
                      | c # s3 \<Rightarrow>
                          if utf8_ok3 a b c then utf8_valid s3
                          else (case s3 of
                                  [] \<Rightarrow> False
                                | d # s4 \<Rightarrow> utf8_ok4 a b c d \<and> utf8_valid s4))))"

declare utf8_valid.simps(2) [simp del]

definition from_utf8_or_default :: "string \<Rightarrow> string" where
  "from_utf8_or_default s = (if utf8_valid s then s else [])"

lemma from_utf8_or_default_valid [simp]: "utf8_valid s \<Longrightarrow> from_utf8_or_default s = s"
  by (simp add: from_utf8_or_default_def)

lemma utf8_valid_from_utf8_or_default [simp]: "utf8_valid (from_utf8_or_default s)"
  by (simp add: from_utf8_or_default_def)

text \<open>A well-formed multi-byte character, as one predicate on its byte list.\<close>

definition utf8_multi :: "string \<Rightarrow> bool" where
  "utf8_multi e \<longleftrightarrow>
     (case e of
        [a, b] \<Rightarrow> utf8_ok2 a b
      | [a, b, c] \<Rightarrow> utf8_ok3 a b c
      | [a, b, c, d] \<Rightarrow> utf8_ok4 a b c d
      | _ \<Rightarrow> False)"

lemma utf8_ok_disjoint:
  "utf8_ok3 a b c \<Longrightarrow> \<not> utf8_ok2 a b"
  "utf8_ok4 a b c d \<Longrightarrow> \<not> utf8_ok2 a b \<and> \<not> utf8_ok3 a b c"
  by (auto simp: utf8_ok2_def utf8_ok3_def utf8_ok4_def)

lemma utf8_ok_lead:
  "utf8_ok2 a b \<Longrightarrow> \<not> byte a < 128"
  "utf8_ok3 a b c \<Longrightarrow> \<not> byte a < 128"
  "utf8_ok4 a b c d \<Longrightarrow> \<not> byte a < 128"
  by (auto simp: utf8_ok2_def utf8_ok3_def utf8_ok4_def)

lemma utf8_multi_cases:
  assumes "utf8_multi e"
  obtains a b where "e = [a, b]" "utf8_ok2 a b"
  | a b c where "e = [a, b, c]" "utf8_ok3 a b c"
  | a b c d where "e = [a, b, c, d]" "utf8_ok4 a b c d"
  using assms by (auto simp: utf8_multi_def split: list.splits)

lemma utf8_multi_bytes: "utf8_multi e \<Longrightarrow> c \<in> set e \<Longrightarrow> 128 \<le> byte c"
  by (erule utf8_multi_cases)
    (auto simp: utf8_ok2_def utf8_ok3_def utf8_ok4_def utf8_cont_def)

lemma utf8_multi_not_Nil: "utf8_multi e \<Longrightarrow> e \<noteq> []"
  by (auto simp: utf8_multi_def)

lemma utf8_valid_ascii [simp]: "byte a < 128 \<Longrightarrow> utf8_valid (a # s) = utf8_valid s"
  by (simp add: utf8_valid.simps(2))

lemma utf8_valid_multi [simp]: "utf8_multi e \<Longrightarrow> utf8_valid (e @ s) = utf8_valid s"
  by (erule utf8_multi_cases)
    (auto simp: utf8_valid.simps(2) utf8_ok_disjoint utf8_ok_lead dest: utf8_ok_lead)

lemma utf8_valid_induct [consumes 1, case_names Nil Ascii Multi]:
  assumes "utf8_valid s"
    and "P []"
    and "\<And>c s. byte c < 128 \<Longrightarrow> utf8_valid s \<Longrightarrow> P s \<Longrightarrow> P (c # s)"
    and "\<And>e s. utf8_multi e \<Longrightarrow> utf8_valid s \<Longrightarrow> P s \<Longrightarrow> P (e @ s)"
  shows "P s"
  using assms(1)
proof (induction s rule: length_induct)
  case (1 s)
  show ?case
  proof (cases "\<exists>c s'. s = c # s' \<and> byte c < 128")
    case True
    with 1 assms(3) show ?thesis by auto
  next
    case ascii: False
    show ?thesis
    proof (cases s)
      case Nil
      with assms(2) show ?thesis by simp
    next
      case (Cons a s1)
      with ascii 1(2) have "\<exists>e s'. s = e @ s' \<and> utf8_multi e \<and> utf8_valid s'"
      proof -
        from ascii Cons have a: "\<not> byte a < 128" by simp
        with 1(2) Cons obtain b s2 where b: "s1 = b # s2"
          by (cases s1) (auto simp: utf8_valid.simps(2))
        consider (two) "utf8_ok2 a b" | (more) "\<not> utf8_ok2 a b" by blast
        then show ?thesis
        proof cases
          case two
          with 1(2) Cons a b have "s = [a, b] @ s2 \<and> utf8_multi [a, b] \<and> utf8_valid s2"
            by (auto simp: utf8_valid.simps(2) utf8_multi_def)
          then show ?thesis by blast
        next
          case more
          with 1(2) Cons a b obtain c s3 where c: "s2 = c # s3"
            by (cases s2) (auto simp: utf8_valid.simps(2))
          show ?thesis
          proof (cases "utf8_ok3 a b c")
            case True
            with 1(2) Cons a b c more
            have "s = [a, b, c] @ s3 \<and> utf8_multi [a, b, c] \<and> utf8_valid s3"
              by (auto simp: utf8_valid.simps(2) utf8_multi_def)
            then show ?thesis by blast
          next
            case False
            with 1(2) Cons a b c more obtain d s4 where d: "s3 = d # s4"
              by (cases s3) (auto simp: utf8_valid.simps(2))
            with 1(2) Cons a b c more False
            have "s = [a, b, c, d] @ s4 \<and> utf8_multi [a, b, c, d] \<and> utf8_valid s4"
              by (auto simp: utf8_valid.simps(2) utf8_multi_def)
            then show ?thesis by blast
          qed
        qed
      qed
      then obtain e s' where e: "s = e @ s'" "utf8_multi e" "utf8_valid s'" by blast
      then have "length s' < length s" by (cases e) (auto dest: utf8_multi_not_Nil)
      with 1(1) e assms(4) show ?thesis by blast
    qed
  qed
qed

lemma utf8_valid_append: "utf8_valid s \<Longrightarrow> utf8_valid t \<Longrightarrow> utf8_valid (s @ t)"
  by (induction s rule: utf8_valid_induct) simp_all

lemma utf8_valid_all_ascii: "(\<And>c. c \<in> set s \<Longrightarrow> byte c < 128) \<Longrightarrow> utf8_valid s"
  by (induction s) simp_all

text \<open>A separator below 128 cuts a valid string into valid parts: it is never inside a character.\<close>

lemma utf8_valid_cut:
  assumes "utf8_valid s" and "s = a @ x # b" and "byte x < 128"
  shows "utf8_valid a \<and> utf8_valid b"
  using assms
proof (induction s arbitrary: a rule: utf8_valid_induct)
  case (Ascii c s)
  show ?case
  proof (cases a)
    case Nil
    with Ascii show ?thesis by simp
  next
    case (Cons c' a')
    with Ascii.prems have "s = a' @ x # b" and "c' = c" by auto
    with Ascii.IH Ascii.prems(2) Ascii.hyps(1) Cons show ?thesis by simp
  qed
next
  case (Multi e s)
  have "\<exists>a'. a = e @ a'"
  proof (rule ccontr)
    assume no: "\<nexists>a'. a = e @ a'"
    from Multi.prems(1) obtain us where us: "e = a @ us \<and> us @ s = x # b \<or> a = e @ us"
      by (auto simp: append_eq_append_conv2)
    with no have "e = a @ us" and "us @ s = x # b" by auto
    with no have "x \<in> set e" by (cases us) auto
    with Multi.hyps(1) Multi.prems(2) show False by (auto dest: utf8_multi_bytes)
  qed
  then obtain a' where a': "a = e @ a'" by blast
  with Multi.prems have "s = a' @ x # b" by simp
  with Multi.IH Multi.prems(2) Multi.hyps(1) a' show ?case by simp
qed simp

section \<open>Trimming\<close>

text \<open>The encodings of the characters with the \<^verbatim>\<open>White_Space\<close> property (\<^verbatim>\<open>char::is_whitespace\<close>).\<close>

definition ws_encodings :: "string list" where
  "ws_encodings = map (map char_of)
     [[9::nat], [10], [11], [12], [13], [32], [194, 133], [194, 160], [225, 154, 128],
      [226, 128, 128], [226, 128, 129], [226, 128, 130], [226, 128, 131], [226, 128, 132],
      [226, 128, 133], [226, 128, 134], [226, 128, 135], [226, 128, 136], [226, 128, 137],
      [226, 128, 138], [226, 128, 168], [226, 128, 169], [226, 128, 175], [226, 129, 159],
      [227, 128, 128]]"

fun first_prefix :: "string list \<Rightarrow> string \<Rightarrow> string option" where
  "first_prefix [] s = None"
| "first_prefix (e # es) s =
     (case strip_prefix e s of Some r \<Rightarrow> Some r | None \<Rightarrow> first_prefix es s)"

lemma first_prefix_Some: "first_prefix es s = Some r \<Longrightarrow> \<exists>e \<in> set es. s = e @ r"
  by (induction es) (auto simp: strip_prefix_Some split: option.splits)

lemma first_prefix_shorter:
  "first_prefix es s = Some r \<Longrightarrow> [] \<notin> set es \<Longrightarrow> length r < length s"
  by (drule first_prefix_Some) (metis append_self_conv2 length_append less_add_same_cancel2 length_greater_0_conv)

lemma ws_encodings_not_Nil [simp]: "[] \<notin> set ws_encodings" "[] \<notin> set (map rev ws_encodings)"
  by (simp_all add: ws_encodings_def)

function trim_by :: "string list \<Rightarrow> string \<Rightarrow> string" where
  "trim_by es s =
     (if [] \<in> set es then s
      else (case first_prefix es s of None \<Rightarrow> s | Some r \<Rightarrow> trim_by es r))"
  by pat_completeness auto
termination
  by (relation "measure (\<lambda>(es, s). length s)") (auto dest: first_prefix_shorter)

declare trim_by.simps [simp del]

definition trim_start :: "string \<Rightarrow> string" where
  "trim_start s = trim_by ws_encodings s"

definition trim_end :: "string \<Rightarrow> string" where
  "trim_end s = rev (trim_by (map rev ws_encodings) (rev s))"

definition trim :: "string \<Rightarrow> string" where
  "trim s = trim_end (trim_start s)"

lemma trim_by_suffix: "\<exists>p. s = p @ trim_by es s"
proof (induction es s rule: trim_by.induct)
  case (1 es s)
  show ?case
  proof (cases "[] \<in> set es \<or> first_prefix es s = None")
    case True
    then show ?thesis by (subst trim_by.simps) auto
  next
    case False
    then obtain r where r: "first_prefix es s = Some r" by auto
    with False "1.IH" obtain p where p: "r = p @ trim_by es r" by blast
    from first_prefix_Some [OF r] obtain e where "s = e @ r" by blast
    moreover from False r have "trim_by es s = trim_by es r"
      by (simp add: trim_by.simps [of es s])
    ultimately have "s = (e @ p) @ trim_by es s" using p by simp
    then show ?thesis by blast
  qed
qed

lemma trim_by_idem: "trim_by es (trim_by es s) = trim_by es s"
proof (induction es s rule: trim_by.induct)
  case (1 es s)
  then show ?case
    by (cases "[] \<in> set es"; cases "first_prefix es s")
      (simp_all add: trim_by.simps [of es s])
qed

lemma set_trim_subset: "set (trim s) \<subseteq> set s"
proof -
  obtain p where p: "s = p @ trim_start s"
    using trim_by_suffix [of s] by (auto simp: trim_start_def)
  obtain q where q: "rev (trim_start s) = q @ rev (trim s)"
    using trim_by_suffix [of "rev (trim_start s)" "map rev ws_encodings"]
    by (auto simp: trim_def trim_end_def)
  have "set (trim s) \<subseteq> set (trim_start s)"
    using arg_cong [OF q, of set] by auto
  moreover have "set (trim_start s) \<subseteq> set s"
    using arg_cong [OF p, of set] by auto
  ultimately show ?thesis by blast
qed

section \<open>Trimming ASCII\<close>

definition ascii_ws :: "char \<Rightarrow> bool" where
  "ascii_ws c \<longleftrightarrow> (9 \<le> byte c \<and> byte c \<le> 13) \<or> byte c = 32"

definition all_ascii :: "string \<Rightarrow> bool" where
  "all_ascii s \<longleftrightarrow> list_all (\<lambda>c. byte c < 128) s"

lemma first_prefix_ascii:
  assumes "byte c < 128" and "\<And>e. e \<in> set es \<Longrightarrow> (\<exists>x. e = [x]) \<or> (\<exists>x xs. e = x # xs \<and> 128 \<le> byte x)"
  shows "first_prefix es (c # r) = (if [c] \<in> set es then Some r else None)"
  using assms(2)
proof (induction es)
  case (Cons e es)
  from Cons.prems [of e] assms(1) have "strip_prefix e (c # r) = (if e = [c] then Some r else None)"
    by (auto simp: not_less [symmetric] split: if_splits)
  with Cons show ?case by auto
qed simp

lemma ws_encodings_shape:
  assumes "e \<in> set ws_encodings \<or> e \<in> set (map rev ws_encodings)"
  shows "(\<exists>x. e = [x]) \<or> (\<exists>x xs. e = x # xs \<and> 128 \<le> byte x)"
proof -
  have "list_all (\<lambda>e. case e of [] \<Rightarrow> False | x # xs \<Rightarrow> xs = [] \<or> 128 \<le> byte x) (ws_encodings @ map rev ws_encodings)"
    by (simp add: ws_encodings_def)
  then have "case e of [] \<Rightarrow> False | x # xs \<Rightarrow> xs = [] \<or> 128 \<le> byte x"
    using assms unfolding list_all_iff set_append by blast
  then show ?thesis by (cases e) auto
qed

lemma ws_encodings_single: "[c] \<in> set ws_encodings \<longleftrightarrow> ascii_ws c"
proof -
  have "filter (\<lambda>e. length e = 1) ws_encodings = map (\<lambda>n. [char_of n]) [9, 10, 11, 12, 13, 32 :: nat]"
    by (simp add: ws_encodings_def)
  then have "[c] \<in> set ws_encodings \<longleftrightarrow> [c] \<in> set (map (\<lambda>n. [char_of n]) [9, 10, 11, 12, 13, 32 :: nat])"
    by (metis (mono_tags, lifting) One_nat_def length_Cons list.size(3) mem_Collect_eq set_filter)
  also have "\<dots> \<longleftrightarrow> byte c \<in> {9, 10, 11, 12, 13, 32}"
  proof -
    have "c = char_of n \<longleftrightarrow> byte c = n" if "n < 256" for n :: nat using that by auto
    from this [of 9] this [of 10] this [of 11] this [of 12] this [of 13] this [of 32] show ?thesis by simp
  qed
  also have "\<dots> \<longleftrightarrow> ascii_ws c" unfolding ascii_ws_def by auto
  finally show ?thesis .
qed

lemma rev_ws_single: "[c] \<in> set (map rev ws_encodings) \<longleftrightarrow> [c] \<in> set ws_encodings"
  by (force simp: rev_swap)

lemma trim_by_ascii:
  assumes "all_ascii s" and "es = ws_encodings \<or> es = map rev ws_encodings"
  shows "trim_by es s = dropWhile ascii_ws s"
  using assms(1)
proof (induction s)
  case Nil
  have "[] \<notin> set es" using assms(2) ws_encodings_not_Nil by metis
  then have "first_prefix es [] = None"
    using first_prefix_shorter [of es "[]"] by (cases "first_prefix es []") auto
  then show ?case by (subst trim_by.simps) simp
next
  case (Cons c s)
  then have c: "byte c < 128" "all_ascii s" by (simp_all add: all_ascii_def)
  have mem: "[c] \<in> set es \<longleftrightarrow> ascii_ws c"
    using assms(2) ws_encodings_single [of c] rev_ws_single [of c] by auto
  have "first_prefix es (c # s) = (if ascii_ws c then Some s else None)"
    unfolding mem [symmetric]
    by (rule first_prefix_ascii [OF c(1) ws_encodings_shape]) (use assms(2) in blast)
  moreover have "[] \<notin> set es" using assms(2) by auto
  ultimately show ?case using Cons.IH [OF c(2)] by (subst trim_by.simps) simp
qed

lemma all_ascii_rev [simp]: "all_ascii (rev s) = all_ascii s"
  by (simp add: all_ascii_def)

lemma all_ascii_dropWhile: "all_ascii s \<Longrightarrow> all_ascii (dropWhile P s)"
  using set_dropWhileD by (fastforce simp: all_ascii_def list_all_iff)

lemma trim_ascii: "all_ascii s \<Longrightarrow> trim s = rev (dropWhile ascii_ws (rev (dropWhile ascii_ws s)))"
  by (simp add: trim_def trim_end_def trim_start_def trim_by_ascii all_ascii_dropWhile)

lemma all_ascii_trim: "all_ascii s \<Longrightarrow> all_ascii (trim s)"
  by (simp add: trim_ascii all_ascii_dropWhile)

lemma dropWhile_rev_dropWhile:
  "dropWhile P (rev (dropWhile P (rev (dropWhile P s)))) = rev (dropWhile P (rev (dropWhile P s)))"
proof (cases "dropWhile P s")
  case (Cons c r)
  then have c: "\<not> P c" using hd_dropWhile [of P s] by simp
  then have "dropWhile P (rev (dropWhile P s)) = dropWhile P (rev r) @ [c] \<or>
      dropWhile P (rev (dropWhile P s)) = [c]"
    by (simp add: Cons dropWhile_append)
  with c show ?thesis by auto
next
  case Nil
  show ?thesis unfolding Nil by simp
qed

lemma trim_trim_ascii [simp]: "all_ascii s \<Longrightarrow> trim (trim s) = trim s"
  by (simp add: trim_ascii all_ascii_dropWhile dropWhile_rev_dropWhile)

lemma trim_space_ascii: "all_ascii s \<Longrightarrow> trim (CHR '' '' # s) = trim s"
  by (simp add: trim_ascii all_ascii_def ascii_ws_def)

lemma trim_plain: "all_ascii s \<Longrightarrow> s = [] \<or> \<not> ascii_ws (hd s) \<and> \<not> ascii_ws (last s) \<Longrightarrow> trim s = s"
proof -
  have drop: "dropWhile ascii_ws t = t" if "t = [] \<or> \<not> ascii_ws (hd t)" for t
    using that by (cases t) auto
  assume "all_ascii s" and s: "s = [] \<or> \<not> ascii_ws (hd s) \<and> \<not> ascii_ws (last s)"
  moreover have "dropWhile ascii_ws (rev s) = rev s" using s by (intro drop) (auto simp: hd_rev)
  ultimately show ?thesis using drop [of s] by (auto simp: trim_ascii)
qed


end
