(* ===== verification/Url.thy ===== *)
theory Url
  imports Utf8
begin

text \<open>
  URL text handling of \<^verbatim>\<open>crates/brust-core/src/routing/routes.rs\<close> and
  \<^verbatim>\<open>crates/brust-core/src/static_rules.rs\<close>: the one path normalisation every surface shares
  (router, L1 keys, invalidation, the floor), the percent decoders of path parameters, query strings
  and static paths, and the fallback table of catch-all routes. A \<^verbatim>\<open>while i < b.len()\<close> loop over the
  bytes is a recursion on the suffix still to be read.
\<close>

section \<open>Escapes\<close>

text \<open>
  A percent escape at the head of a byte string: \<^verbatim>\<open>b[i] == b'%' && i + 2 < b.len()\<close> with two hex digits.
\<close>

definition escape_at :: "string \<Rightarrow> (char \<times> char \<times> string) option" where
  "escape_at s =
     (case s of
        c # h # l # r \<Rightarrow>
          if c = CHR ''%'' \<and> is_ascii_hexdigit h \<and> is_ascii_hexdigit l then Some (h, l, r) else None
      | _ \<Rightarrow> None)"

definition hex_byte :: "char \<Rightarrow> char \<Rightarrow> char" where
  "hex_byte h l =
     char_of ((case to_digit16 h of Some a \<Rightarrow> a | None \<Rightarrow> 0) * 16 +
              (case to_digit16 l of Some b \<Rightarrow> b | None \<Rightarrow> 0))"

lemma escape_at_Some:
  "escape_at s = Some (h, l, r) \<longleftrightarrow>
     s = CHR ''%'' # h # l # r \<and> is_ascii_hexdigit h \<and> is_ascii_hexdigit l"
  by (auto simp: escape_at_def split: list.splits if_splits)

lemma escape_at_escape [simp]:
  "is_ascii_hexdigit h \<Longrightarrow> is_ascii_hexdigit l \<Longrightarrow> escape_at (CHR ''%'' # h # l # r) = Some (h, l, r)"
  by (simp add: escape_at_Some)

lemma escape_at_other [simp]: "c \<noteq> CHR ''%'' \<Longrightarrow> escape_at (c # s) = None"
  by (auto simp: escape_at_def split: list.splits)

lemma escape_at_Nil [simp]: "escape_at [] = None"
  by (simp add: escape_at_def)

lemma escape_at_shorter [termination_simp]:
  "escape_at (c # s) = Some (h, l, r) \<Longrightarrow> length r < Suc (length s)"
  "escape_at s = Some (h, l, r) \<Longrightarrow> length r < length s"
  by (auto simp: escape_at_Some)

lemma escape_induct [case_names Nil Escape Plain]:
  assumes "P []"
    and "\<And>h l r. is_ascii_hexdigit h \<Longrightarrow> is_ascii_hexdigit l \<Longrightarrow> P r \<Longrightarrow> P (CHR ''%'' # h # l # r)"
    and "\<And>c r. escape_at (c # r) = None \<Longrightarrow> P r \<Longrightarrow> P (c # r)"
  shows "P s"
proof (induction s rule: length_induct)
  case (1 s)
  show ?case
  proof (cases s)
    case (Cons c r)
    show ?thesis
    proof (cases "escape_at s")
      case None
      with assms(3) Cons 1 show ?thesis by auto
    next
      case (Some x)
      then obtain h l q where "s = CHR ''%'' # h # l # q" "is_ascii_hexdigit h" "is_ascii_hexdigit l"
        by (cases x) (auto simp: escape_at_Some)
      with assms(2) 1 show ?thesis by auto
    qed
  qed (simp add: assms(1))
qed

section \<open>Path normalisation\<close>

definition needs_encode :: "char \<Rightarrow> bool" where
  "needs_encode b \<longleftrightarrow>
     128 \<le> byte b \<or> byte b \<le> 32 \<or> byte b = 127 \<or> b \<in> {CHR 0x22, CHR ''<'', CHR ''>'', CHR 0x60}"

definition HEX :: "nat \<Rightarrow> char" where
  "HEX n = ''0123456789ABCDEF'' ! n"

definition pct_encode_byte :: "char \<Rightarrow> string" where
  "pct_encode_byte c = [CHR ''%'', HEX (byte c div 16), HEX (byte c mod 16)]"

text \<open>The first scan of \<^verbatim>\<open>normalize\<close>: is there anything to rewrite? \<open>depth\<close> counts open braces.\<close>

fun normalize_dirty :: "bool \<Rightarrow> nat \<Rightarrow> string \<Rightarrow> bool" where
  "normalize_dirty braces depth [] = False"
| "normalize_dirty braces depth (c # s) =
     (if braces \<and> c = CHR ''{'' then normalize_dirty braces (depth + 1) s
      else if braces \<and> c = CHR ''}'' then normalize_dirty braces (depth - 1) s
      else if depth = 0 then
        needs_encode c \<or>
        (case escape_at (c # s) of
           Some (h, l, _) \<Rightarrow> is_ascii_lowercase h \<or> is_ascii_lowercase l
         | None \<Rightarrow> False) \<or>
        normalize_dirty braces depth s
      else normalize_dirty braces depth s)"

text \<open>The second scan: the rewritten bytes.\<close>

fun normalize_encode :: "bool \<Rightarrow> nat \<Rightarrow> string \<Rightarrow> string" where
  "normalize_encode braces depth [] = []"
| "normalize_encode braces depth (c # s) =
     (if braces \<and> c = CHR ''{'' then c # normalize_encode braces (depth + 1) s
      else if braces \<and> c = CHR ''}'' then c # normalize_encode braces (depth - 1) s
      else if 0 < depth then c # normalize_encode braces depth s
      else (case escape_at (c # s) of
              Some (h, l, r) \<Rightarrow>
                CHR ''%'' # ascii_upper h # ascii_upper l # normalize_encode braces depth r
            | None \<Rightarrow>
                (if needs_encode c then pct_encode_byte c else [c]) @ normalize_encode braces depth s))"

definition normalize :: "string \<Rightarrow> bool \<Rightarrow> string" where
  "normalize s braces =
     (if \<not> normalize_dirty braces 0 s then s
      else from_utf8_or_default (normalize_encode braces 0 s))"

definition normalize_request_path :: "string \<Rightarrow> string" where
  "normalize_request_path path = normalize path False"

definition normalize_route_pattern :: "string \<Rightarrow> string" where
  "normalize_route_pattern pattern = normalize pattern True"

section \<open>Percent decoders\<close>

text \<open>
  The third-party \<^verbatim>\<open>percent_encoding::percent_decode_str\<close> by its documented behaviour: an escape of two
  hex digits becomes its byte, every other byte (a stray \<open>%\<close> included) is kept.
\<close>

locale percent_decoder =
  fixes pd :: "string \<Rightarrow> string"
  assumes pd_Nil [simp]: "pd [] = []"
    and pd_escape [simp]:
      "is_ascii_hexdigit h \<Longrightarrow> is_ascii_hexdigit l \<Longrightarrow> pd (CHR ''%'' # h # l # r) = hex_byte h l # pd r"
    and pd_plain [simp]: "escape_at (c # r) = None \<Longrightarrow> pd (c # r) = c # pd r"

text \<open>
  The pre-validation scan of \<^verbatim>\<open>decode_path_param\<close>: \<^const>\<open>None\<close> for a malformed \<open>%\<close> (the whole value ships
  raw), otherwise whether a \<open>%\<close> was seen.
\<close>

fun path_param_scan :: "bool \<Rightarrow> string \<Rightarrow> bool option" where
  "path_param_scan has_pct [] = Some has_pct"
| "path_param_scan has_pct (c # s) =
     (if c = CHR ''%'' then
        (case escape_at (c # s) of None \<Rightarrow> None | Some (_, _, r) \<Rightarrow> path_param_scan True r)
      else path_param_scan has_pct s)"

definition decode_path_param :: "(string \<Rightarrow> string) \<Rightarrow> string \<Rightarrow> string" where
  "decode_path_param percent_decode raw =
     (case path_param_scan False raw of
        None \<Rightarrow> raw
      | Some False \<Rightarrow> raw
      | Some True \<Rightarrow>
          let decoded = percent_decode raw in if utf8_valid decoded then decoded else raw)"

text \<open>\<^verbatim>\<open>url_decode\<close> (query strings): \<open>+\<close> is a space, an escape its byte, anything else itself.\<close>

fun url_decode_loop :: "string \<Rightarrow> string" where
  "url_decode_loop [] = []"
| "url_decode_loop (c # s) =
     (if c = CHR ''+'' then CHR '' '' # url_decode_loop s
      else (case escape_at (c # s) of
              Some (h, l, r) \<Rightarrow> hex_byte h l # url_decode_loop r
            | None \<Rightarrow> c # url_decode_loop s))"

definition url_decode :: "string \<Rightarrow> string" where
  "url_decode s =
     (if CHR ''+'' \<notin> set s \<and> CHR ''%'' \<notin> set s then s
      else from_utf8_or_default (url_decode_loop s))"

definition decode_search :: "string \<Rightarrow> (string \<times> string) list" where
  "decode_search query =
     map (\<lambda>pair. case split_once_char (CHR ''='') pair of
                   Some (k, v) \<Rightarrow> (url_decode k, url_decode v)
                 | None \<Rightarrow> (url_decode pair, []))
       (filter (\<lambda>pair. pair \<noteq> []) (split_char (CHR ''&'') query))"

text \<open>\<^verbatim>\<open>static_rules::percent_decode_path\<close>: the same loop with a literal \<open>+\<close>.\<close>

fun percent_decode_path_loop :: "string \<Rightarrow> string" where
  "percent_decode_path_loop [] = []"
| "percent_decode_path_loop (c # s) =
     (case escape_at (c # s) of
        Some (h, l, r) \<Rightarrow> hex_byte h l # percent_decode_path_loop r
      | None \<Rightarrow> c # percent_decode_path_loop s)"

definition percent_decode_path :: "string \<Rightarrow> string" where
  "percent_decode_path s = from_utf8_or_default (percent_decode_path_loop s)"

definition asset_lookup_key :: "string \<Rightarrow> string" where
  "asset_lookup_key path_no_query =
     (if CHR ''%'' \<in> set path_no_query then percent_decode_path path_no_query else path_no_query)"

section \<open>The fallback table of catch-all routes\<close>

text \<open>\<^verbatim>\<open>Iterator::max_by_key\<close>: the last of the elements with the greatest key.\<close>

fun max_by_key :: "('a \<Rightarrow> nat) \<Rightarrow> 'a list \<Rightarrow> 'a option" where
  "max_by_key f [] = None"
| "max_by_key f (x # xs) =
     (case max_by_key f xs of
        None \<Rightarrow> Some x
      | Some y \<Rightarrow> if f y < f x then Some x else Some y)"

definition prefix_matches :: "string \<Rightarrow> string \<Rightarrow> bool" where
  "prefix_matches p path \<longleftrightarrow>
     p = [] \<or> path = p \<or>
     (length p < length path \<and> starts_with path p \<and> path ! length p = CHR ''/'')"

definition select_not_found :: "(string \<times> nat) list \<Rightarrow> string \<Rightarrow> nat option" where
  "select_not_found table path =
     map_option snd (max_by_key (\<lambda>(p, _). length p) (filter (\<lambda>(p, _). prefix_matches p path) table))"

section \<open>Facts about the hex alphabet\<close>

lemma HEX_unfold: "n < 16 \<Longrightarrow> HEX n = (if n < 10 then char_of (n + 48) else char_of (n + 55))"
proof -
  have "\<forall>n < 16. HEX n = (if n < 10 then char_of (n + 48) else char_of (n + 55))"
    by code_simp
  then show "n < 16 \<Longrightarrow> HEX n = (if n < 10 then char_of (n + 48) else char_of (n + 55))"
    by blast
qed

lemma HEX_hexdigit [simp]: "n < 16 \<Longrightarrow> is_ascii_hexdigit (HEX n)"
  by (simp add: HEX_unfold byte_simps)

lemma HEX_upper [simp]: "n < 16 \<Longrightarrow> ascii_upper (HEX n) = HEX n"
  by (simp add: HEX_unfold ascii_upper_def byte_simps)

lemma to_digit16_HEX [simp]: "n < 16 \<Longrightarrow> to_digit16 (HEX n) = Some n"
  by (simp add: HEX_unfold to_digit16_def byte_simps)

lemma byte_div16 [simp]: "byte c div 16 < 16"
  using byte_less_256 [of c] by linarith

lemma hex_byte_HEX [simp]: "hex_byte (HEX (byte c div 16)) (HEX (byte c mod 16)) = c"
  by (simp add: hex_byte_def)

lemma hex_byte_upper [simp]: "hex_byte (ascii_upper h) (ascii_upper l) = hex_byte h l"
  by (simp add: hex_byte_def)

lemma hexdigit_plain:
  assumes "is_ascii_hexdigit c"
  shows "\<not> needs_encode c" "c \<noteq> CHR ''%''" "c \<noteq> CHR ''{''" "c \<noteq> CHR ''}''" "byte c < 128"
  using assms by (auto simp: needs_encode_def byte_simps)

lemma pct_not_hex [simp]: "\<not> is_ascii_hexdigit (CHR ''%'')" "\<not> needs_encode (CHR ''%'')"
  by (simp_all add: byte_simps needs_encode_def)

lemma HEX_plain [simp]: "n < 16 \<Longrightarrow> \<not> needs_encode (HEX n)" "n < 16 \<Longrightarrow> byte (HEX n) < 128"
  by (simp_all add: hexdigit_plain)

section \<open>The rewriting scan on request paths\<close>

abbreviation enc :: "string \<Rightarrow> string" where
  "enc \<equiv> normalize_encode False 0"

lemma enc_Cons [simp]:
  "escape_at (c # s) = None \<Longrightarrow> enc (c # s) = (if needs_encode c then pct_encode_byte c else [c]) @ enc s"
  "is_ascii_hexdigit h \<Longrightarrow> is_ascii_hexdigit l \<Longrightarrow>
     enc (CHR ''%'' # h # l # s) = CHR ''%'' # ascii_upper h # ascii_upper l # enc s"
  by (simp_all)

declare normalize_encode.simps(2) [simp del]

lemma enc_hex: "is_ascii_hexdigit c \<Longrightarrow> enc (c # s) = c # enc s"
  by (simp add: hexdigit_plain)

lemma enc_not_hex_head:
  assumes "\<not> is_ascii_hexdigit c"
  shows "\<exists>z t. enc (c # s) = z # t \<and> \<not> is_ascii_hexdigit z"
proof (cases "escape_at (c # s)")
  case None
  with assms show ?thesis by (auto simp: pct_encode_byte_def)
next
  case (Some x)
  then obtain h l r where "c # s = CHR ''%'' # h # l # r" "is_ascii_hexdigit h" "is_ascii_hexdigit l"
    by (cases x) (auto simp: escape_at_Some)
  then show ?thesis by simp
qed

lemma escape_at_enc:
  assumes "escape_at (c # s) = None"
  shows "escape_at (c # enc s) = None"
proof (cases "c = CHR ''%''")
  case c: True
  show ?thesis
  proof (cases s)
    case Nil
    then show ?thesis by (simp add: escape_at_def)
  next
    case (Cons x r)
    show ?thesis
    proof (cases "is_ascii_hexdigit x")
      case False
      from enc_not_hex_head [OF this, of r] obtain z t where
        "enc s = z # t" "\<not> is_ascii_hexdigit z" by (auto simp: Cons)
      then show ?thesis by (auto simp: escape_at_def split: list.splits)
    next
      case x: True
      show ?thesis
      proof (cases r)
        case Nil
        with x Cons show ?thesis by (simp add: enc_hex escape_at_def hexdigit_plain)
      next
        case (Cons y r')
        with assms c x \<open>s = x # r\<close> have "\<not> is_ascii_hexdigit y" by (auto simp: escape_at_def)
        from enc_not_hex_head [OF this, of r'] obtain z t where
          "enc r = z # t" "\<not> is_ascii_hexdigit z" by (auto simp: Cons)
        with x \<open>s = x # r\<close> show ?thesis by (simp add: enc_hex escape_at_def)
      qed
    qed
  qed
qed simp

lemma enc_idem: "enc (enc s) = enc s"
proof (induction s rule: escape_induct)
  case (Plain c r)
  then show ?case by (auto simp: pct_encode_byte_def escape_at_enc)
qed simp_all

lemma enc_bytes: "c \<in> set (enc s) \<Longrightarrow> \<not> needs_encode c"
proof (induction s rule: escape_induct)
  case (Escape h l r)
  then show ?case by (auto simp: hexdigit_plain)
next
  case (Plain d r)
  then show ?case by (auto simp: pct_encode_byte_def split: if_splits)
qed simp

lemma enc_ascii: "c \<in> set (enc s) \<Longrightarrow> byte c < 128"
  using enc_bytes [of c s] by (auto simp: needs_encode_def)

lemma utf8_valid_enc [simp]: "utf8_valid (enc s)"
  by (rule utf8_valid_all_ascii) (rule enc_ascii)

lemma split_char_prepend:
  assumes "sep \<notin> set p" and "split_char sep s = q # qs"
  shows "split_char sep (p @ s) = (p @ q) # qs"
  using assms by (induction p) auto

lemma split_char_prefix: "split_char sep s = q # qs \<Longrightarrow> \<exists>r. s = q @ r \<and> (r = [] \<or> hd r = sep)"
proof (induction s arbitrary: q qs)
  case (Cons c s)
  obtain p ps where "split_char sep s = p # ps" by (cases "split_char sep s") auto
  with Cons show ?case by (auto split: if_splits)
qed auto

lemma escape_at_take:
  assumes "escape_at (c # s) = None" and "s = q @ r"
  shows "escape_at (c # q) = None"
  using assms by (auto simp: escape_at_def split: list.splits if_splits)

lemma slash_plain [simp]: "\<not> needs_encode (CHR ''/'')" "\<not> is_ascii_hexdigit (CHR ''/'')"
  by (simp_all add: needs_encode_def byte_simps)

lemma hexdigit_not_slash: "is_ascii_hexdigit h \<Longrightarrow> h \<noteq> CHR ''/''"
  by (auto simp: byte_simps)

lemma pct_encode_byte_no_slash: "CHR ''/'' \<notin> set (pct_encode_byte c)"
  using hexdigit_not_slash [of "HEX (byte c div 16)"] hexdigit_not_slash [of "HEX (byte c mod 16)"]
  by (auto simp: pct_encode_byte_def)

text \<open>Normalisation acts segment by segment: it neither adds nor removes a \<open>/\<close>.\<close>

lemma enc_slashes: "split_char (CHR ''/'') (enc s) = map enc (split_char (CHR ''/'') s)"
proof (induction s rule: escape_induct)
  case (Escape h l r)
  obtain q qs where q: "split_char (CHR ''/'') r = q # qs"
    by (cases "split_char (CHR ''/'') r") auto
  have "h \<noteq> CHR ''/''" "l \<noteq> CHR ''/''" "ascii_upper h \<noteq> CHR ''/''" "ascii_upper l \<noteq> CHR ''/''"
    using Escape.hyps by (auto intro: hexdigit_not_slash simp: hexdigit_not_slash)
  with Escape q show ?case by simp
next
  case (Plain c r)
  obtain q qs where q: "split_char (CHR ''/'') r = q # qs"
    by (cases "split_char (CHR ''/'') r") auto
  with split_char_prefix have e: "c \<noteq> CHR ''/'' \<Longrightarrow> escape_at (c # q) = None"
    using escape_at_take [OF Plain.hyps] by blast
  show ?case
  proof (cases "c = CHR ''/''")
    case True
    with Plain q show ?thesis by simp
  next
    case False
    let ?p = "if needs_encode c then pct_encode_byte c else [c]"
    have "CHR ''/'' \<notin> set ?p"
      using False by (simp add: pct_encode_byte_no_slash)
    from split_char_prepend [OF this, of "enc r"] Plain q False e show ?thesis by simp
  qed
qed simp

section \<open>The clean scan is the identity of the rewriting scan\<close>

lemma normalize_dirty_hex:
  "is_ascii_hexdigit c \<Longrightarrow> \<not> normalize_dirty braces depth (c # s) \<Longrightarrow> \<not> normalize_dirty braces depth s"
  by (auto simp: hexdigit_plain split: if_splits)

lemma normalize_clean:
  "\<not> normalize_dirty braces depth s \<Longrightarrow> normalize_encode braces depth s = s"
proof (induction braces depth s rule: normalize_encode.induct)
  case (2 braces depth c s)
  show ?case
  proof (cases "(braces \<and> (c = CHR ''{'' \<or> c = CHR ''}'')) \<or> 0 < depth")
    case True
    with 2 show ?thesis by (auto simp: normalize_encode.simps(2) split: if_splits)
  next
    case False
    show ?thesis
    proof (cases "escape_at (c # s)")
      case None
      with False 2 show ?thesis by (auto simp: normalize_encode.simps(2) split: if_splits)
    next
      case (Some x)
      obtain h l r where x: "x = (h, l, r)" by (cases x)
      with Some have e: "c = CHR ''%''" "s = h # l # r" "is_ascii_hexdigit h" "is_ascii_hexdigit l"
        by (auto simp: escape_at_Some)
      with 2(6) False Some x have up: "ascii_upper h = h" "ascii_upper l = l"
        and clean: "\<not> normalize_dirty braces depth s"
        by (auto simp: ascii_upper_def)
      have "\<not> normalize_dirty braces depth r"
        using clean e normalize_dirty_hex by blast
      with "2.IH"(5) False Some x have "normalize_encode braces depth r = r" by auto
      with False Some x e up show ?thesis by (simp add: normalize_encode.simps(2))
    qed
  qed
qed simp

text \<open>Rewriting a pattern keeps it valid UTF-8: inside braces whole characters are copied.\<close>

lemma normalize_encode_multi:
  assumes "\<forall>c \<in> set e. 128 \<le> byte c"
  shows "normalize_encode braces depth (e @ s) =
     (if 0 < depth then e else concat (map pct_encode_byte e)) @ normalize_encode braces depth s"
  using assms
proof (induction e)
  case (Cons c e)
  then have "c \<noteq> CHR ''{''" "c \<noteq> CHR ''}''" "c \<noteq> CHR ''%''" "needs_encode c"
    by (auto simp: needs_encode_def)
  with Cons show ?case by (cases "0 < depth") (simp_all add: normalize_encode.simps(2))
qed simp

lemma utf8_valid_pct [simp]: "utf8_valid (concat (map pct_encode_byte e))"
  by (induction e) (simp_all add: pct_encode_byte_def)

lemma normalize_encode_hex2:
  "is_ascii_hexdigit h \<Longrightarrow> is_ascii_hexdigit l \<Longrightarrow>
     normalize_encode braces 0 (h # l # r) = h # l # normalize_encode braces 0 r"
  by (simp add: normalize_encode.simps(2) hexdigit_plain)

lemma utf8_valid_normalize_encode:
  "utf8_valid s \<Longrightarrow> utf8_valid (normalize_encode braces depth s)"
proof (induction s arbitrary: depth rule: utf8_valid_induct)
  case (Ascii c s)
  show ?case
  proof (cases "escape_at (c # s)")
    case None
    have "utf8_valid (pct_encode_byte c @ normalize_encode braces depth s)"
      using Ascii.IH utf8_valid_append [of "pct_encode_byte c"] utf8_valid_pct [of "[c]"] by simp
    with None Ascii show ?thesis by (auto simp: normalize_encode.simps(2))
  next
    case (Some x)
    obtain h l r where x: "x = (h, l, r)" by (cases x)
    with Some have e: "c = CHR ''%''" "s = h # l # r" "is_ascii_hexdigit h" "is_ascii_hexdigit l"
      by (auto simp: escape_at_Some)
    have "utf8_valid (normalize_encode braces 0 r)"
      using Ascii.IH [of 0] e by (simp add: normalize_encode_hex2 hexdigit_plain)
    moreover have "byte (ascii_upper h) < 128" "byte (ascii_upper l) < 128"
      using e by (auto simp: byte_ascii_upper dest: hexdigit_plain(5))
    ultimately show ?thesis
      using Ascii Some x e by (simp add: normalize_encode.simps(2))
  qed
next
  case (Multi e s)
  have "\<forall>c \<in> set e. 128 \<le> byte c"
    using Multi.hyps(1) by (auto dest: utf8_multi_bytes)
  with Multi show ?case
    by (simp add: normalize_encode_multi utf8_valid_append)
qed simp

text \<open>So the fast path and the rewriting scan agree, and the UTF-8 fallback never fires.\<close>

lemma normalize_eq_encode: "utf8_valid s \<Longrightarrow> normalize s braces = normalize_encode braces 0 s"
  by (auto simp: normalize_def normalize_clean utf8_valid_normalize_encode)

lemma normalize_request_path_enc: "normalize_request_path s = enc s"
  by (auto simp: normalize_request_path_def normalize_def normalize_clean)

section \<open>Decoding\<close>

context percent_decoder
begin

lemma pd_enc: "pd (enc s) = pd s"
proof (induction s rule: escape_induct)
  case (Plain c r)
  then show ?case by (auto simp: pct_encode_byte_def escape_at_enc)
qed simp_all

lemma pd_no_pct: "CHR ''%'' \<notin> set s \<Longrightarrow> pd s = s"
  by (induction s) auto

end

lemma path_param_scan_enc:
  assumes "CHR ''%'' \<notin> set s"
  shows "path_param_scan b (enc s) = Some (b \<or> enc s \<noteq> s)"
  using assms
proof (induction s arbitrary: b)
  case (Cons c s)
  then have "escape_at (c # s) = None" by auto
  show ?case
  proof (cases "needs_encode c")
    case True
    then show ?thesis using Cons \<open>escape_at (c # s) = None\<close> by (auto simp: pct_encode_byte_def)
  next
    case False
    then show ?thesis using Cons \<open>escape_at (c # s) = None\<close> by auto
  qed
qed simp

interpretation static_decoder: percent_decoder percent_decode_path_loop
  by unfold_locales simp_all

text \<open>The query decoder's fast path is its loop.\<close>

lemma url_decode_loop_plain:
  "CHR ''+'' \<notin> set s \<Longrightarrow> CHR ''%'' \<notin> set s \<Longrightarrow> url_decode_loop s = s"
  by (induction s) auto

lemma url_decode_eq: "utf8_valid s \<Longrightarrow> url_decode s = from_utf8_or_default (url_decode_loop s)"
  by (simp add: url_decode_def url_decode_loop_plain)

section \<open>The fallback table\<close>

lemma max_by_key_None [simp]: "max_by_key f xs = None \<longleftrightarrow> xs = []"
  by (cases xs) (auto split: option.splits)

lemma max_by_key_Some:
  "max_by_key f xs = Some x \<Longrightarrow> x \<in> set xs \<and> (\<forall>y \<in> set xs. f y \<le> f x)"
proof (induction xs arbitrary: x)
  case (Cons a xs)
  show ?case
  proof (cases "max_by_key f xs")
    case None
    with Cons.prems show ?thesis by simp
  next
    case (Some y)
    with Cons.IH [OF Some] Cons.prems show ?thesis
      by (fastforce split: if_splits)
  qed
qed simp

lemma prefix_matches_unique:
  "prefix_matches p path \<Longrightarrow> prefix_matches q path \<Longrightarrow> length p = length q \<Longrightarrow> p = q"
  by (auto simp: prefix_matches_def starts_with_iff)

section \<open>Properties\<close>

text \<open>
  the scan-first fast path of \<^verbatim>\<open>normalize\<close> is equivalent to always rewriting, and the rewritten bytes of
  a valid string are valid UTF-8, so \<^verbatim>\<open>unwrap_or_default\<close> never replaces a path by the empty string.
\<close>

theorem normalize_fast_path:
  assumes "utf8_valid s"
  shows "normalize s braces = normalize_encode braces 0 s \<and> utf8_valid (normalize s braces)"
  using assms by (simp add: normalize_eq_encode utf8_valid_normalize_encode)

theorem normalize_fast_path_witness:
  "normalize ''/a b/{x y}/%e0'' True = ''/a%20b/{x y}/%E0''"
proof -
  have "utf8_valid ''/a b/{x y}/%e0''" by (rule utf8_valid_all_ascii) auto
  moreover have "normalize_encode True 0 ''/a b/{x y}/%e0'' = ''/a%20b/{x y}/%E0''"
    by code_simp
  ultimately show ?thesis using normalize_fast_path [of "''/a b/{x y}/%e0''" True] by simp
qed


text \<open>
  normalising never changes what a path denotes: percent-decoding the normalised path gives the bytes of
  percent-decoding the path as received.
\<close>

theorem normalize_request_path_denotation:
  assumes "percent_decoder pd"
  shows "pd (normalize_request_path p) = pd p"
  using percent_decoder.pd_enc [OF assms] by (simp add: normalize_request_path_enc)

theorem normalize_request_path_denotation_witness:
  "percent_decode_path_loop (normalize_request_path ''/caf%c3%a9'') = percent_decode_path_loop ''/caf%c3%a9''"
  by (rule normalize_request_path_denotation) (rule static_decoder.percent_decoder_axioms)

text \<open>
  a path segment without \<open>%\<close>, sent raw or as a browser encodes it, reaches the loader as written: decoding
  the normalised form of a valid UTF-8 segment gives the segment back.
\<close>

theorem decode_path_param_roundtrip:
  assumes "percent_decoder pd" and "utf8_valid s" and "CHR ''%'' \<notin> set s"
  shows "decode_path_param pd (normalize_request_path s) = s"
proof -
  have "pd (enc s) = s"
    using percent_decoder.pd_enc [OF assms(1)] percent_decoder.pd_no_pct [OF assms(1,3)] by simp
  moreover have "path_param_scan False (enc s) = Some (enc s \<noteq> s)"
    using path_param_scan_enc [OF assms(3), of False] by simp
  ultimately show ?thesis
    using assms(2) by (cases "enc s = s") (simp_all add: decode_path_param_def normalize_request_path_enc)
qed

theorem decode_path_param_roundtrip_witness:
  "decode_path_param percent_decode_path_loop (normalize_request_path ''sa wad<dee>'') = ''sa wad<dee>''"
proof (rule decode_path_param_roundtrip)
  show "percent_decoder percent_decode_path_loop" by (rule static_decoder.percent_decoder_axioms)
  show "utf8_valid ''sa wad<dee>''" by (rule utf8_valid_all_ascii) auto
qed simp

text \<open>
  on a router miss the catch-all with the longest segment-boundary prefix answers: a result is the id of a
  matching table entry no matching entry is longer than, any entry with that prefix length has the same prefix
  (ties are between equal prefixes only), and there is no result exactly when nothing matches.
\<close>

theorem select_not_found_longest:
  "case select_not_found table path of
     Some rid \<Rightarrow>
       \<exists>p. (p, rid) \<in> set table \<and> prefix_matches p path \<and>
           list_all (\<lambda>(q, _). prefix_matches q path \<longrightarrow> length q < length p \<or> q = p) table
   | None \<Rightarrow> list_all (\<lambda>(q, _). \<not> prefix_matches q path) table"
proof (cases "max_by_key (\<lambda>(p, _). length p) (filter (\<lambda>(p, _). prefix_matches p path) table)")
  case None
  then show ?thesis
    by (auto simp: select_not_found_def list_all_iff filter_empty_conv)
next
  case (Some x)
  obtain p rid where x: "x = (p, rid)" by (cases x)
  from max_by_key_Some [OF Some] x have m: "(p, rid) \<in> set table" "prefix_matches p path"
    and le: "\<And>q j. (q, j) \<in> set table \<Longrightarrow> prefix_matches q path \<Longrightarrow> length q \<le> length p"
    by auto
  have "prefix_matches q path \<longrightarrow> length q < length p \<or> q = p" if "(q, j) \<in> set table" for q j
    using le [OF that] prefix_matches_unique [of q path p] m(2) by fastforce
  then have "list_all (\<lambda>(q, _). prefix_matches q path \<longrightarrow> length q < length p \<or> q = p) table"
    by (auto simp: list_all_iff)
  with m Some x show ?thesis by (auto simp: select_not_found_def)
qed

definition sample_table :: "(string \<times> nat) list" where
  "sample_table = [([], 1), (''/docs'', 2), (''/docsy'', 3)]"

theorem select_not_found_longest_witness:
  "\<exists>p. (p, 2) \<in> set sample_table \<and> prefix_matches p ''/docs/x'' \<and>
     list_all (\<lambda>(q, _). prefix_matches q ''/docs/x'' \<longrightarrow> length q < length p \<or> q = p) sample_table"
proof -
  have "select_not_found sample_table ''/docs/x'' = Some 2"
    by code_simp
  with select_not_found_longest [where table = sample_table and path = "''/docs/x''"] show ?thesis
    by (simp only: option.case)
qed

end
