(* ===== verification/KeyExpr.thy ===== *)
theory KeyExpr
  imports Utf8
begin

text \<open>
  The L1 cache-key expression language of \<^verbatim>\<open>crates/brust-core/src/cache/key_expr.rs\<close>: its syntax
  tree, the recursive-descent parser (run once when a route is installed), the evaluator (run per
  request) and the list of request parts an expression reads. The parser's cursor \<^verbatim>\<open>(s, i)\<close> is the
  unread suffix of the source; byte offsets in error texts are lengths already read. The process
  environment that \<^verbatim>\<open>env()\<close> freezes at parse time is a parameter, absent on the Workers target.
\<close>

section \<open>Syntax, contexts and errors\<close>

datatype expr =
    Header string
  | Cookie string
  | Query string
  | Param string
  | Request string
  | Env string
  | Lit string
  | Or "expr list"
  | And "expr list"
  | Concat "expr list"
  | Eq expr expr "expr option"
  | Lower expr
  | Upper expr

record eval_ctx =
  ec_headers :: "(string \<times> string) list"
  ec_cookies :: "(string \<times> string) list"
  ec_query :: "(string \<times> string) list"
  ec_params :: "(string \<times> string) list"
  ec_method :: string
  ec_host :: string
  ec_scheme :: string
  ec_path :: string

datatype parse_error =
    TrailingInput nat
  | ExpectedCommaOrParen
  | ArgumentNotLiteral string
  | ExactlyOneArgument string
  | RequestField string
  | EnvUnavailable string
  | NeedsArgument string
  | TakesOneArgument string
  | EqArity
  | NonDeterministic string
  | UnknownFunction string
  | ExpectedIdentifier nat
  | UnterminatedString
  | ExpectedChar char

text \<open>Where the parser runs: a process with an environment, or Cloudflare Workers without one.\<close>

datatype target = Native "string \<Rightarrow> string option" | Workers

section \<open>Evaluation\<close>

definition lookup :: "(string \<times> string) list \<Rightarrow> string \<Rightarrow> string" where
  "lookup pairs name =
     (case find (\<lambda>(k, _). eq_ignore_ascii_case k name) pairs of Some (_, v) \<Rightarrow> v | None \<Rightarrow> [])"

definition unit_separator :: string where
  "unit_separator = [CHR 0x1F]"

fun eval :: "expr \<Rightarrow> eval_ctx \<Rightarrow> string" where
  "eval (Header n) ctx = lookup (ec_headers ctx) n"
| "eval (Cookie n) ctx = lookup (ec_cookies ctx) n"
| "eval (Query n) ctx = lookup (ec_query ctx) n"
| "eval (Param n) ctx = lookup (ec_params ctx) n"
| "eval (Request f) ctx =
     (if f = ''host'' then ec_host ctx
      else if f = ''method'' then ec_method ctx
      else if f = ''scheme'' then ec_scheme ctx
      else if f = ''path'' then ec_path ctx
      else [])"
| "eval (Env v) ctx = v"
| "eval (Lit v) ctx = v"
| "eval (Or args) ctx =
     (case find (\<lambda>v. v \<noteq> []) (map (\<lambda>a. eval a ctx) args) of Some v \<Rightarrow> v | None \<Rightarrow> [])"
| "eval (And args) ctx =
     (let vals = map (\<lambda>a. eval a ctx) args
      in if (\<forall>v \<in> set vals. v \<noteq> []) then join_with unit_separator vals else [])"
| "eval (Concat args) ctx = concat (map (\<lambda>a. eval a ctx) args)"
| "eval (Eq a b v) ctx =
     (let av = eval a ctx
      in if av = eval b ctx then (case v of Some x \<Rightarrow> eval x ctx | None \<Rightarrow> av) else [])"
| "eval (Lower a) ctx = to_ascii_lowercase (eval a ctx)"
| "eval (Upper a) ctx = to_ascii_uppercase (eval a ctx)"

text \<open>\<^verbatim>\<open>request_reads\<close>: a depth-first walk that appends each read it has not listed yet.\<close>

definition push_new :: "string \<Rightarrow> string list \<Rightarrow> string list" where
  "push_new r out = (if r \<in> set out then out else out @ [r])"

fun reads_walk :: "expr \<Rightarrow> string list \<Rightarrow> string list" where
  "reads_walk (Header n) out = push_new (''header('' @ n @ '')'') out"
| "reads_walk (Cookie n) out = push_new (''cookie('' @ n @ '')'') out"
| "reads_walk (Query n) out = push_new (''query('' @ n @ '')'') out"
| "reads_walk (Request f) out = (if f = ''host'' then push_new ''request(host)'' out else out)"
| "reads_walk (Param n) out = out"
| "reads_walk (Env v) out = out"
| "reads_walk (Lit v) out = out"
| "reads_walk (Or args) out = fold reads_walk args out"
| "reads_walk (And args) out = fold reads_walk args out"
| "reads_walk (Concat args) out = fold reads_walk args out"
| "reads_walk (Eq a b v) out =
     (let out = reads_walk b (reads_walk a out)
      in case v of Some x \<Rightarrow> reads_walk x out | None \<Rightarrow> out)"
| "reads_walk (Lower a) out = reads_walk a out"
| "reads_walk (Upper a) out = reads_walk a out"

definition request_reads :: "expr \<Rightarrow> string list" where
  "request_reads e = reads_walk e []"

section \<open>Parsing\<close>

definition skip_ws :: "string \<Rightarrow> string" where
  "skip_ws s = dropWhile is_ascii_whitespace s"

definition ident_char :: "char \<Rightarrow> bool" where
  "ident_char c \<longleftrightarrow> is_ascii_alphanumeric c \<or> c = CHR ''_'' \<or> c = CHR ''-''"

text \<open>\<open>len\<close> is the length of the whole source, so \<open>len - length s\<close> is the cursor \<^verbatim>\<open>i\<close>.\<close>

definition ident :: "nat \<Rightarrow> string \<Rightarrow> (parse_error, string \<times> string) result" where
  "ident len s =
     (let name = takeWhile ident_char s
      in if name = [] then Err (ExpectedIdentifier (len - length s))
         else Ok (name, dropWhile ident_char s))"

text \<open>The cursor stands on the opening quote.\<close>

definition string_lit :: "string \<Rightarrow> (parse_error, string \<times> string) result" where
  "string_lit s =
     (case s of
        [] \<Rightarrow> Err UnterminatedString
      | quote # s' \<Rightarrow>
          (case split_once_char quote s' of
             None \<Rightarrow> Err UnterminatedString
           | Some (out, rest) \<Rightarrow> Ok (out, rest)))"

definition expect :: "char \<Rightarrow> string \<Rightarrow> (parse_error, string) result" where
  "expect c s =
     (case skip_ws s of
        d # rest \<Rightarrow> if d = c then Ok rest else Err (ExpectedChar c)
      | [] \<Rightarrow> Err (ExpectedChar c))"

definition one_str :: "string \<Rightarrow> expr list \<Rightarrow> (parse_error, string) result" where
  "one_str fn args =
     (case args of
        [Lit s] \<Rightarrow> Ok s
      | [_] \<Rightarrow> Err (ArgumentNotLiteral fn)
      | _ \<Rightarrow> Err (ExactlyOneArgument fn))"

definition build :: "target \<Rightarrow> string \<Rightarrow> expr list \<Rightarrow> (parse_error, expr) result" where
  "build tgt fn args =
     (if fn = ''header'' then bind_result (one_str fn args) (\<lambda>s. Ok (Header s))
      else if fn = ''cookie'' then bind_result (one_str fn args) (\<lambda>s. Ok (Cookie s))
      else if fn = ''query'' then bind_result (one_str fn args) (\<lambda>s. Ok (Query s))
      else if fn = ''param'' then bind_result (one_str fn args) (\<lambda>s. Ok (Param s))
      else if fn = ''request'' then
        bind_result (one_str fn args) (\<lambda>f.
          if f \<in> {''host'', ''method'', ''scheme'', ''path''} then Ok (Request f)
          else Err (RequestField f))
      else if fn = ''env'' then
        bind_result (one_str fn args) (\<lambda>s.
          case tgt of
            Native env \<Rightarrow> Ok (Env (case env s of Some v \<Rightarrow> v | None \<Rightarrow> []))
          | Workers \<Rightarrow> Err (EnvUnavailable s))
      else if fn = ''or'' then
        (if args = [] then Err (NeedsArgument fn) else Ok (Or args))
      else if fn = ''and'' then
        (if args = [] then Err (NeedsArgument fn) else Ok (And args))
      else if fn = ''concat'' then
        (if args = [] then Err (NeedsArgument fn) else Ok (Concat args))
      else if fn = ''lower'' \<or> fn = ''upper'' then
        (case args of
           [a] \<Rightarrow> Ok (if fn = ''lower'' then Lower a else Upper a)
         | _ \<Rightarrow> Err (TakesOneArgument fn))
      else if fn = ''eq'' then
        (case args of
           [a, b] \<Rightarrow> Ok (Eq a b None)
         | [a, b, v] \<Rightarrow> Ok (Eq a b (Some v))
         | _ \<Rightarrow> Err EqArity)
      else if fn = ''uuid'' \<or> fn = ''timestamp'' then Err (NonDeterministic fn)
      else Err (UnknownFunction fn))"

text \<open>
  \<^verbatim>\<open>Parser::expr\<close> and \<^verbatim>\<open>Parser::args\<close>. \<open>parse_more\<close> is the body of the \<^verbatim>\<open>loop\<close> of \<^verbatim>\<open>args\<close>, with the
  arguments read so far.
\<close>

function (sequential) parse_expr :: "target \<Rightarrow> nat \<Rightarrow> string \<Rightarrow> (parse_error, expr \<times> string) result"
  and parse_more :: "target \<Rightarrow> nat \<Rightarrow> expr list \<Rightarrow> string \<Rightarrow> (parse_error, expr list \<times> string) result"
  where
  "parse_expr tgt len s0 =
     (let s = skip_ws s0
      in if s \<noteq> [] \<and> (hd s = CHR 0x27 \<or> hd s = CHR 0x22) then
           bind_result (string_lit s) (\<lambda>(v, rest). Ok (Lit v, rest))
         else
           bind_result (ident len s) (\<lambda>(name, s1).
             case skip_ws s1 of
               [] \<Rightarrow> Ok (Lit name, [])
             | c # s2 \<Rightarrow>
                 if c \<noteq> CHR ''('' then Ok (Lit name, c # s2)
                 else
                   (let s3 = skip_ws s2
                    in bind_result
                         (if s3 \<noteq> [] \<and> hd s3 = CHR '')'' then Ok ([], s3) else parse_more tgt len [] s3)
                         (\<lambda>(args, s4).
                            bind_result (expect (CHR '')'') s4) (\<lambda>s5.
                              bind_result (build tgt name args) (\<lambda>e. Ok (e, s5)))))))"
| "parse_more tgt len out s =
     bind_result (parse_expr tgt len s) (\<lambda>(e, s1).
       case skip_ws s1 of
         c # s2 \<Rightarrow>
           if c = CHR '','' then parse_more tgt len (out @ [e]) (skip_ws s2)
           else if c = CHR '')'' then Ok (out @ [e], c # s2)
           else Err ExpectedCommaOrParen
       | [] \<Rightarrow> Err ExpectedCommaOrParen)"
  by pat_completeness auto

lemma skip_ws_length: "length (skip_ws s) \<le> length s"
  by (simp add: skip_ws_def length_dropWhile_le)

lemma skip_ws_Cons: "skip_ws s = c # r \<Longrightarrow> length r < length s"
  using skip_ws_length [of s] by simp

lemma string_lit_length: "string_lit s = Inr (v, rest) \<Longrightarrow> length rest < length s"
  by (auto simp: string_lit_def split_once_char_Some split: list.splits option.splits)

lemma ident_length: "ident len s = Inr (v, rest) \<Longrightarrow> length rest < length s"
  by (cases s) (auto simp: ident_def Let_def length_dropWhile_le le_imp_less_Suc split: if_splits)

lemma expect_length: "expect c s = Inr r \<Longrightarrow> length r < length s"
  by (auto simp: expect_def split: list.splits if_splits dest: skip_ws_Cons)

lemma parse_shorter_dom:
  "parse_expr_parse_more_dom (Inl (tgt, len, s)) \<Longrightarrow>
     parse_expr tgt len s = Inr (e, r) \<Longrightarrow> length r < length s"
  "parse_expr_parse_more_dom (Inr (tgt, len, out, s)) \<Longrightarrow>
     parse_more tgt len out s = Inr (es, r) \<Longrightarrow> length r < length s"
proof (induction tgt len s and tgt len out s arbitrary: e r and es r
    rule: parse_expr_parse_more.pinduct)
  case (1 tgt len s0)
  show ?case
  proof (cases "skip_ws s0 \<noteq> [] \<and> (hd (skip_ws s0) = CHR 0x27 \<or> hd (skip_ws s0) = CHR 0x22)")
    case True
    with "1.prems" obtain v where "string_lit (skip_ws s0) = Inr (v, r)"
      by (auto simp: parse_expr.psimps [OF "1.hyps"] bind_result_Inr_iff)
    then show ?thesis using string_lit_length skip_ws_length [of s0] by fastforce
  next
    case False
    with "1.prems" obtain name s1 where id: "ident len (skip_ws s0) = Inr (name, s1)"
      by (auto simp: parse_expr.psimps [OF "1.hyps"] Let_def bind_result_Inr_iff)
    have s1: "length (skip_ws s1) < length s0"
      using ident_length [OF id] skip_ws_length [of s0] skip_ws_length [of s1] by simp
    show ?thesis
    proof (cases "skip_ws s1")
      case Nil
      with False id "1.prems" s1 show ?thesis
        by (auto simp: parse_expr.psimps [OF "1.hyps"] Let_def)
    next
      case (Cons c s2)
      show ?thesis
      proof (cases "c = CHR ''(''")
        case c: False
        with False id Cons "1.prems" have "r = c # s2"
          by (auto simp: parse_expr.psimps [OF "1.hyps"] Let_def)
        with s1 Cons show ?thesis by simp
      next
        case c: True
        have s3: "length (skip_ws s2) < length s0"
          using s1 Cons skip_ws_length [of s2] by simp
        from False id Cons c "1.prems" obtain args s4 s5 where
          a: "(if skip_ws s2 \<noteq> [] \<and> hd (skip_ws s2) = CHR '')'' then Inr ([], skip_ws s2)
               else parse_more tgt len [] (skip_ws s2)) = Inr (args, s4)"
          and x: "expect (CHR '')'') s4 = Inr s5" and r: "r = s5"
          by (auto simp: parse_expr.psimps [OF "1.hyps"] Let_def bind_result_Inr_iff)
        have "length s4 \<le> length (skip_ws s2)"
        proof (cases "skip_ws s2 \<noteq> [] \<and> hd (skip_ws s2) = CHR '')''")
          case True
          with a show ?thesis by simp
        next
          case no: False
          with a have "parse_more tgt len [] (skip_ws s2) = Inr (args, s4)" by (simp split: if_splits)
          with "1.IH" False id Cons c no show ?thesis by fastforce
        qed
        with s3 expect_length [OF x] r show ?thesis by simp
      qed
    qed
  qed
next
  case (2 tgt len out s)
  from "2.prems" obtain e s1 where e: "parse_expr tgt len s = Inr (e, s1)"
    by (auto simp: parse_more.psimps [OF "2.hyps"] bind_result_Inr_iff)
  then have s1: "length s1 < length s" by (rule "2.IH"(1))
  show ?case
  proof (cases "skip_ws s1")
    case Nil
    with e "2.prems" show ?thesis by (simp add: parse_more.psimps [OF "2.hyps"])
  next
    case (Cons c s2)
    then have s2: "length s2 < length s1" by (rule skip_ws_Cons)
    show ?thesis
    proof (cases "c = CHR '',''")
      case True
      with e Cons "2.prems" have m: "parse_more tgt len (out @ [e]) (skip_ws s2) = Inr (es, r)"
        by (simp add: parse_more.psimps [OF "2.hyps"])
      then have "length r < length (skip_ws s2)"
        using "2.IH"(2) e Cons True by fastforce
      with s1 s2 skip_ws_length [of s2] show ?thesis by simp
    next
      case False
      with e Cons "2.prems" have "r = c # s2"
        by (simp add: parse_more.psimps [OF "2.hyps"] split: if_splits)
      with s1 Cons skip_ws_length [of s1] show ?thesis by simp
    qed
  qed
qed

lemma ident_Nil [simp]: "ident len [] = Err (ExpectedIdentifier len)"
  by (simp add: ident_def)

lemma call_args_shorter:
  assumes "ident len (skip_ws s0) = Inr (name, s1)" and "skip_ws s1 = c # s2"
  shows "Suc (length (skip_ws s2)) < length s0"
  using ident_length [OF assms(1)] skip_ws_Cons [OF assms(2)]
    skip_ws_length [of s0] skip_ws_length [of s2] by simp

lemma more_args_shorter:
  assumes "parse_expr_parse_more_dom (Inl (tgt, len, s))"
    and "parse_expr tgt len s = Inr (e, s1)" and "skip_ws s1 = c # s2"
  shows "length (skip_ws s2) < length s"
  using parse_shorter_dom(1) [OF assms(1,2)] skip_ws_Cons [OF assms(3)] skip_ws_length [of s2] by simp

termination parse_expr
  by (relation "measure (\<lambda>x. case x of Inl (_, _, s) \<Rightarrow> 2 * length s
                                 | Inr (_, _, _, s) \<Rightarrow> 2 * length s + 1)")
    (auto dest: call_args_shorter more_args_shorter simp del: length_0_conv
      split: if_splits)

declare parse_expr.simps [simp del] parse_more.simps [simp del]

text \<open>\<^verbatim>\<open>Expr::parse\<close>: one expression and nothing but white space after it.\<close>

definition parse :: "target \<Rightarrow> string \<Rightarrow> (parse_error, expr) result" where
  "parse tgt src =
     bind_result (parse_expr tgt (length src) (skip_ws src)) (\<lambda>(e, s).
       let s' = skip_ws s
       in if s' \<noteq> [] then Err (TrailingInput (length src - length s')) else Ok e)"

section \<open>What the parser accepts\<close>

text \<open>
  The well-formed trees: \<^verbatim>\<open>request()\<close> names one of its four fields (the branch of \<^const>\<open>eval\<close> for any
  other field is dead), and \<^verbatim>\<open>or\<close>, \<^verbatim>\<open>and\<close>, \<^verbatim>\<open>concat\<close> have an argument.
\<close>

fun wf_expr :: "expr \<Rightarrow> bool" where
  "wf_expr (Request f) \<longleftrightarrow> f \<in> {''host'', ''method'', ''scheme'', ''path''}"
| "wf_expr (Or args) \<longleftrightarrow> args \<noteq> [] \<and> list_all wf_expr args"
| "wf_expr (And args) \<longleftrightarrow> args \<noteq> [] \<and> list_all wf_expr args"
| "wf_expr (Concat args) \<longleftrightarrow> args \<noteq> [] \<and> list_all wf_expr args"
| "wf_expr (Eq a b v) \<longleftrightarrow> wf_expr a \<and> wf_expr b \<and> (case v of Some x \<Rightarrow> wf_expr x | None \<Rightarrow> True)"
| "wf_expr (Lower a) \<longleftrightarrow> wf_expr a"
| "wf_expr (Upper a) \<longleftrightarrow> wf_expr a"
| "wf_expr _ \<longleftrightarrow> True"

lemma build_wf:
  assumes "build tgt fn args = Inr e" and "list_all wf_expr args"
  shows "wf_expr e"
  using assms
  by (cases tgt) (auto simp: build_def bind_result_Inr_iff split: if_splits list.splits)

lemma parse_wf_aux:
  "parse_expr tgt len s = Inr (e, r) \<Longrightarrow> wf_expr e"
  "parse_more tgt len out s = Inr (es, r) \<Longrightarrow> list_all wf_expr out \<Longrightarrow> list_all wf_expr es"
proof (induction tgt len s and tgt len out s arbitrary: e r and es r
    rule: parse_expr_parse_more.induct)
  case (1 tgt len s0)
  show ?case
  proof (cases "skip_ws s0 \<noteq> [] \<and> (hd (skip_ws s0) = CHR 0x27 \<or> hd (skip_ws s0) = CHR 0x22)")
    case True
    with "1.prems" show ?thesis
      by (auto simp: parse_expr.simps [of tgt len s0] bind_result_Inr_iff)
  next
    case False
    with "1.prems" obtain name s1 where id: "ident len (skip_ws s0) = Inr (name, s1)"
      by (auto simp: parse_expr.simps [of tgt len s0] Let_def bind_result_Inr_iff)
    show ?thesis
    proof (cases "\<exists>s2. skip_ws s1 = CHR ''('' # s2")
      case no_call: False
      with False id "1.prems" have "e = Lit name"
        by (auto simp: parse_expr.simps [of tgt len s0] Let_def split: list.splits if_splits)
      then show ?thesis by simp
    next
      case True
      then obtain s2 where s2: "skip_ws s1 = CHR ''('' # s2" by blast
      with False id "1.prems" obtain args s4 s5 where
        a: "(if skip_ws s2 \<noteq> [] \<and> hd (skip_ws s2) = CHR '')'' then Inr ([], skip_ws s2)
             else parse_more tgt len [] (skip_ws s2)) = Inr (args, s4)"
        and b: "build tgt name args = Inr e"
        by (auto simp: parse_expr.simps [of tgt len s0] Let_def bind_result_Inr_iff)
      have "list_all wf_expr args"
      proof (cases "skip_ws s2 \<noteq> [] \<and> hd (skip_ws s2) = CHR '')''")
        case True
        with a show ?thesis by simp
      next
        case no: False
        with a have "parse_more tgt len [] (skip_ws s2) = Inr (args, s4)" by (simp split: if_splits)
        with "1.IH" False id s2 no show ?thesis by fastforce
      qed
      with b show ?thesis by (rule build_wf)
    qed
  qed
next
  case (2 tgt len out s)
  from "2.prems"(1) obtain e s1 where e: "parse_expr tgt len s = Inr (e, s1)"
    by (auto simp: parse_more.simps [of tgt len out s] bind_result_Inr_iff)
  then have wf: "wf_expr e" by (rule "2.IH"(1))
  from e "2.prems"(1) obtain c s2 where c: "skip_ws s1 = c # s2"
    by (cases "skip_ws s1") (auto simp: parse_more.simps [of tgt len out s])
  show ?case
  proof (cases "c = CHR '',''")
    case True
    with e c "2.prems" have "parse_more tgt len (out @ [e]) (skip_ws s2) = Inr (es, r)"
      by (simp add: parse_more.simps [of tgt len out s])
    with "2.IH"(2) e c True wf "2.prems"(2) show ?thesis by simp
  next
    case False
    with e c "2.prems" wf show ?thesis
      by (auto simp: parse_more.simps [of tgt len out s] split: if_splits)
  qed
qed

section \<open>What an expression reads\<close>

fun reads :: "expr \<Rightarrow> string set" where
  "reads (Header n) = {''header('' @ n @ '')''}"
| "reads (Cookie n) = {''cookie('' @ n @ '')''}"
| "reads (Query n) = {''query('' @ n @ '')''}"
| "reads (Request f) = (if f = ''host'' then {''request(host)''} else {})"
| "reads (Or args) = (\<Union>a \<in> set args. reads a)"
| "reads (And args) = (\<Union>a \<in> set args. reads a)"
| "reads (Concat args) = (\<Union>a \<in> set args. reads a)"
| "reads (Eq a b v) = reads a \<union> reads b \<union> (case v of Some x \<Rightarrow> reads x | None \<Rightarrow> {})"
| "reads (Lower a) = reads a"
| "reads (Upper a) = reads a"
| "reads _ = {}"

lemma set_push_new [simp]: "set (push_new r out) = insert r (set out)"
  by (auto simp: push_new_def)

lemma distinct_push_new [simp]: "distinct out \<Longrightarrow> distinct (push_new r out)"
  by (simp add: push_new_def)

lemma fold_walk_set:
  assumes "\<And>a out. a \<in> set args \<Longrightarrow> set (f a out) = set out \<union> g a"
  shows "set (fold f args out) = set out \<union> (\<Union>a \<in> set args. g a)"
  using assms by (induction args arbitrary: out) auto

lemma fold_walk_distinct:
  assumes "\<And>a out. a \<in> set args \<Longrightarrow> distinct out \<Longrightarrow> distinct (f a out)" and "distinct out"
  shows "distinct (fold f args out)"
  using assms by (induction args arbitrary: out) auto

lemma set_reads_walk: "set (reads_walk e out) = set out \<union> reads e"
proof (induction e out rule: reads_walk.induct)
  case (11 a b v out)
  then show ?case by (cases v) (auto simp: Let_def)
qed (auto simp: fold_walk_set [where g = reads])

lemma distinct_reads_walk: "distinct out \<Longrightarrow> distinct (reads_walk e out)"
proof (induction e out rule: reads_walk.induct)
  case (11 a b v out)
  then show ?case by (cases v) (auto simp: Let_def)
qed (auto simp: fold_walk_distinct)

lemma set_request_reads: "set (request_reads e) = reads e"
  by (simp add: request_reads_def set_reads_walk)

text \<open>Two contexts an expression cannot tell apart.\<close>

definition agree_on :: "string set \<Rightarrow> eval_ctx \<Rightarrow> eval_ctx \<Rightarrow> bool" where
  "agree_on R c d \<longleftrightarrow>
     ec_params c = ec_params d \<and> ec_method c = ec_method d \<and>
     ec_scheme c = ec_scheme d \<and> ec_path c = ec_path d \<and>
     (\<forall>n. ''header('' @ n @ '')'' \<in> R \<longrightarrow> lookup (ec_headers c) n = lookup (ec_headers d) n) \<and>
     (\<forall>n. ''cookie('' @ n @ '')'' \<in> R \<longrightarrow> lookup (ec_cookies c) n = lookup (ec_cookies d) n) \<and>
     (\<forall>n. ''query('' @ n @ '')'' \<in> R \<longrightarrow> lookup (ec_query c) n = lookup (ec_query d) n) \<and>
     (''request(host)'' \<in> R \<longrightarrow> ec_host c = ec_host d)"

lemma agree_on_mono: "agree_on R c d \<Longrightarrow> S \<subseteq> R \<Longrightarrow> agree_on S c d"
  by (auto simp: agree_on_def)

lemma eval_agree: "agree_on (reads e) c d \<Longrightarrow> eval e c = eval e d"
proof (induction e)
  case (Or args)
  then have "map (\<lambda>a. eval a c) args = map (\<lambda>a. eval a d) args"
    by (auto intro!: Or.IH agree_on_mono [OF Or.prems])
  then show ?case by (simp only: eval.simps)
next
  case (And args)
  then have "map (\<lambda>a. eval a c) args = map (\<lambda>a. eval a d) args"
    by (auto intro!: And.IH agree_on_mono [OF And.prems])
  then show ?case by (simp only: eval.simps)
next
  case (Concat args)
  then have "map (\<lambda>a. eval a c) args = map (\<lambda>a. eval a d) args"
    by (auto intro!: Concat.IH agree_on_mono [OF Concat.prems])
  then show ?case by (simp only: eval.simps)
next
  case (Eq a b v)
  have "eval a c = eval a d" "eval b c = eval b d"
    using Eq.IH(1,2) agree_on_mono [OF Eq.prems] by auto
  moreover have "\<And>x. v = Some x \<Longrightarrow> eval x c = eval x d"
    using Eq.IH(3) agree_on_mono [OF Eq.prems] by (auto intro!: Eq.IH(3))
  ultimately show ?case by (cases v) (simp_all add: Let_def)
qed (auto simp: agree_on_def)

section \<open>Every well-formed tree has a source text\<close>

text \<open>
  A printer, as a specification: string literals are quoted with the quote they do not contain. An
  \<^const>\<open>Env\<close> node holds a value frozen at parse time and has no source text of its own.
\<close>

definition quote_lit :: "string \<Rightarrow> string" where
  "quote_lit s = (if CHR 0x22 \<in> set s then CHR 0x27 # s @ [CHR 0x27] else CHR 0x22 # s @ [CHR 0x22])"

definition quotable :: "string \<Rightarrow> bool" where
  "quotable s \<longleftrightarrow> CHR 0x22 \<notin> set s \<or> CHR 0x27 \<notin> set s"

definition call_text :: "string \<Rightarrow> string list \<Rightarrow> string" where
  "call_text fn args = fn @ CHR ''('' # join_with '','' args @ [CHR '')'']"

fun unparse :: "expr \<Rightarrow> string" where
  "unparse (Header n) = call_text ''header'' [quote_lit n]"
| "unparse (Cookie n) = call_text ''cookie'' [quote_lit n]"
| "unparse (Query n) = call_text ''query'' [quote_lit n]"
| "unparse (Param n) = call_text ''param'' [quote_lit n]"
| "unparse (Request f) = call_text ''request'' [quote_lit f]"
| "unparse (Env v) = []"
| "unparse (Lit v) = quote_lit v"
| "unparse (Or args) = call_text ''or'' (map unparse args)"
| "unparse (And args) = call_text ''and'' (map unparse args)"
| "unparse (Concat args) = call_text ''concat'' (map unparse args)"
| "unparse (Eq a b v) =
     call_text ''eq'' ([unparse a, unparse b] @ (case v of Some x \<Rightarrow> [unparse x] | None \<Rightarrow> []))"
| "unparse (Lower a) = call_text ''lower'' [unparse a]"
| "unparse (Upper a) = call_text ''upper'' [unparse a]"

fun printable :: "expr \<Rightarrow> bool" where
  "printable (Header n) \<longleftrightarrow> quotable n"
| "printable (Cookie n) \<longleftrightarrow> quotable n"
| "printable (Query n) \<longleftrightarrow> quotable n"
| "printable (Param n) \<longleftrightarrow> quotable n"
| "printable (Request f) \<longleftrightarrow> f \<in> {''host'', ''method'', ''scheme'', ''path''}"
| "printable (Env v) \<longleftrightarrow> False"
| "printable (Lit v) \<longleftrightarrow> quotable v"
| "printable (Or args) \<longleftrightarrow> args \<noteq> [] \<and> list_all printable args"
| "printable (And args) \<longleftrightarrow> args \<noteq> [] \<and> list_all printable args"
| "printable (Concat args) \<longleftrightarrow> args \<noteq> [] \<and> list_all printable args"
| "printable (Eq a b v) \<longleftrightarrow>
     printable a \<and> printable b \<and> (case v of Some x \<Rightarrow> printable x | None \<Rightarrow> True)"
| "printable (Lower a) \<longleftrightarrow> printable a"
| "printable (Upper a) \<longleftrightarrow> printable a"

definition good_head :: "string \<Rightarrow> bool" where
  "good_head s \<longleftrightarrow> s \<noteq> [] \<and> \<not> is_ascii_whitespace (hd s) \<and> hd s \<noteq> CHR '')''"

lemma good_head_append [simp]: "good_head s \<Longrightarrow> good_head (s @ t)"
  by (cases s) (auto simp: good_head_def)

lemma skip_ws_good [simp]: "good_head s \<Longrightarrow> skip_ws s = s"
  by (cases s) (auto simp: good_head_def skip_ws_def)

lemma skip_ws_paren [simp]:
  "skip_ws (CHR '')'' # s) = CHR '')'' # s" "skip_ws (CHR ''('' # s) = CHR ''('' # s"
  "skip_ws (CHR '','' # s) = CHR '','' # s" "skip_ws [] = []"
  by (simp_all add: skip_ws_def byte_simps)

lemma good_head_quote [simp]: "good_head (quote_lit s)"
  by (simp add: quote_lit_def good_head_def byte_simps)

lemma ident_char_good: "ident_char c \<Longrightarrow> \<not> is_ascii_whitespace c \<and> c \<noteq> CHR '')'' \<and> c \<noteq> CHR 0x27 \<and> c \<noteq> CHR 0x22"
  by (auto simp: ident_char_def byte_simps)

lemma good_head_call:
  assumes "list_all ident_char fn" and "fn \<noteq> []"
  shows "good_head (fn @ s)"
  using assms by (cases fn) (auto simp: good_head_def dest: ident_char_good)

lemma parse_quoted:
  assumes "quotable v"
  shows "parse_expr tgt len (quote_lit v @ rest) = Inr (Lit v, rest)"
proof -
  have "\<And>q. q \<notin> set v \<Longrightarrow> split_once_char q (v @ q # rest) = Some (v, rest)"
    by (simp add: split_once_char_Some)
  then show ?thesis
    using assms by (auto simp: parse_expr.simps [of tgt len] quote_lit_def quotable_def string_lit_def
        skip_ws_def byte_simps Let_def)
qed

lemma parse_call:
  assumes fn: "list_all ident_char fn" "fn \<noteq> []" and s: "good_head s"
    and more: "parse_more tgt len [] s = Inr (args, CHR '')'' # rest)"
    and b: "build tgt fn args = Inr e"
  shows "parse_expr tgt len (fn @ CHR ''('' # s) = Inr (e, rest)"
proof -
  have id: "ident len (fn @ CHR ''('' # s) = Inr (fn, CHR ''('' # s)"
  proof -
    have "takeWhile ident_char (fn @ CHR ''('' # s) = fn"
      and "dropWhile ident_char (fn @ CHR ''('' # s) = CHR ''('' # s"
      using fn(1) by (auto simp: list_all_iff takeWhile_append ident_char_def byte_simps)
    with fn show ?thesis by (simp add: ident_def)
  qed
  have hd: "hd (fn @ CHR ''('' # s) \<noteq> CHR 0x27" "hd (fn @ CHR ''('' # s) \<noteq> CHR 0x22"
    using fn by (cases fn; auto dest: ident_char_good)+
  have x: "expect (CHR '')'') (CHR '')'' # rest) = Inr rest"
    by (simp add: expect_def)
  have h: "hd s \<noteq> CHR '')''" using s by (simp add: good_head_def)
  show ?thesis
    using good_head_call [OF fn, of "CHR ''('' # s"] hd h s
    by (simp add: parse_expr.simps [of tgt len "fn @ CHR ''('' # s"] id more x b Let_def)
qed

lemma parse_args:
  assumes "\<And>e rest. e \<in> set es \<Longrightarrow> parse_expr tgt len (f e @ rest) = Inr (e, rest)"
    and "\<And>e. e \<in> set es \<Longrightarrow> good_head (f e)" and "es \<noteq> []"
  shows "parse_more tgt len out (join_with '','' (map f es) @ CHR '')'' # rest) =
    Inr (out @ es, CHR '')'' # rest)"
  using assms
proof (induction es arbitrary: out)
  case (Cons e es)
  show ?case
  proof (cases es)
    case Nil
    with Cons.prems show ?thesis by (simp add: parse_more.simps)
  next
    case (Cons e' es')
    then have g: "good_head (join_with '','' (map f es))"
      using Cons.prems(2) by (cases es') auto
    have "parse_more tgt len (out @ [e]) (join_with '','' (map f es) @ CHR '')'' # rest) =
        Inr ((out @ [e]) @ es, CHR '')'' # rest)"
      by (rule Cons.IH) (use Cons.prems Cons in auto)
    with Cons.prems(1) g Cons show ?thesis
      by (simp add: parse_more.simps [of tgt len out])
  qed
qed simp

lemma parse_call_text:
  assumes "list_all ident_char fn" "fn \<noteq> []" "es \<noteq> []"
    and "\<And>e rest. e \<in> set es \<Longrightarrow> parse_expr tgt len (f e @ rest) = Inr (e, rest)"
    and "\<And>e. e \<in> set es \<Longrightarrow> good_head (f e)"
    and "build tgt fn es = Inr e"
  shows "parse_expr tgt len (call_text fn (map f es) @ rest) = Inr (e, rest)"
proof -
  have "good_head (join_with '','' (map f es))"
    using assms(3,5) by (cases es; cases "tl es") auto
  moreover have "parse_more tgt len [] (join_with '','' (map f es) @ CHR '')'' # rest) =
      Inr ([] @ es, CHR '')'' # rest)"
    by (rule parse_args) (use assms in auto)
  ultimately show ?thesis
    using parse_call [OF assms(1,2), of "join_with '','' (map f es) @ CHR '')'' # rest"] assms(6)
    by (simp add: call_text_def)
qed

lemma good_head_unparse: "printable e \<Longrightarrow> good_head (unparse e)"
  by (cases e) (auto simp: call_text_def good_head_def quote_lit_def byte_simps)

lemma unparse_single:
  assumes "list_all ident_char fn" "fn \<noteq> []" "quotable n" "build tgt fn [Lit n] = Inr e"
  shows "parse_expr tgt len (call_text fn [quote_lit n] @ rest) = Inr (e, rest)"
  using parse_call_text [of fn "[Lit n]" tgt len "\<lambda>_. quote_lit n" e rest] assms
  by (simp add: parse_quoted)

lemma parse_unparse_expr:
  "printable e \<Longrightarrow> parse_expr tgt len (unparse e @ rest) = Inr (e, rest)"
proof (induction e arbitrary: rest)
  case (Or args)
  then show ?case
    using parse_call_text [of "''or''" args tgt len unparse "Or args" rest] good_head_unparse
    by (auto simp: list_all_iff build_def ident_char_def byte_simps)
next
  case (And args)
  then show ?case
    using parse_call_text [of "''and''" args tgt len unparse "And args" rest] good_head_unparse
    by (auto simp: list_all_iff build_def ident_char_def byte_simps)
next
  case (Concat args)
  then show ?case
    using parse_call_text [of "''concat''" args tgt len unparse "Concat args" rest] good_head_unparse
    by (auto simp: list_all_iff build_def ident_char_def byte_simps)
next
  case (Eq a b v)
  let ?es = "[a, b] @ (case v of Some x \<Rightarrow> [x] | None \<Rightarrow> [])"
  have p: "\<And>e rest. e \<in> set ?es \<Longrightarrow> parse_expr tgt len (unparse e @ rest) = Inr (e, rest)"
    using Eq by (cases v) auto
  have g: "\<And>e. e \<in> set ?es \<Longrightarrow> good_head (unparse e)"
    using Eq.prems good_head_unparse by (cases v) auto
  have "build tgt ''eq'' ?es = Inr (Eq a b v)"
    by (cases v) (simp_all add: build_def)
  from parse_call_text [of "''eq''" ?es tgt len unparse, OF _ _ _ p g this] show ?case
    by (cases v) (simp_all add: ident_char_def byte_simps)
next
  case (Lower a)
  then show ?case
    using parse_call_text [of "''lower''" "[a]" tgt len unparse "Lower a" rest] good_head_unparse
    by (auto simp: build_def ident_char_def byte_simps)
next
  case (Upper a)
  then show ?case
    using parse_call_text [of "''upper''" "[a]" tgt len unparse "Upper a" rest] good_head_unparse
    by (auto simp: build_def ident_char_def byte_simps)
next
  case (Request f)
  then have "quotable f" by (auto simp: quotable_def)
  with Request show ?case
    by (auto intro!: unparse_single simp: build_def one_str_def ident_char_def byte_simps)
qed (auto intro!: unparse_single parse_quoted simp: build_def one_str_def ident_char_def byte_simps)

section \<open>Properties\<close>

text \<open>
  C24: every tree the parser accepts is well formed, so the evaluator's branch for an unknown
  \<^verbatim>\<open>request()\<close> field is never reached and no empty \<^verbatim>\<open>or\<close>, \<^verbatim>\<open>and\<close> or \<^verbatim>\<open>concat\<close> is evaluated.
\<close>

theorem parse_well_formed: "parse tgt src = Inr e \<Longrightarrow> wf_expr e"
  by (auto simp: parse_def bind_result_Inr_iff Let_def split: if_splits dest: parse_wf_aux(1))

theorem parse_well_formed_witness: "wf_expr (Or [Cookie ''tenant'', Request ''host''])"
proof -
  have "parse Workers ''or(cookie(tenant), request(host))'' = Inr (Or [Cookie ''tenant'', Request ''host''])"
    by code_simp
  then show ?thesis by (rule parse_well_formed)
qed

text \<open>
  C22: \<^verbatim>\<open>request_reads\<close> is complete: two requests that agree on every listed read (and on the parts fixed per
  path) give the expression the same value, and the list names no read twice.
\<close>

theorem request_reads_sound:
  assumes "agree_on (set (request_reads e)) c d"
  shows "eval e c = eval e d \<and> distinct (request_reads e)"
  using assms eval_agree
  by (simp add: set_request_reads) (simp add: request_reads_def distinct_reads_walk)

definition sample_ctx :: "string \<Rightarrow> eval_ctx" where
  "sample_ctx agent =
     \<lparr>ec_headers = [(''User-Agent'', agent), (''X-Tenant'', ''acme'')], ec_cookies = [], ec_query = [],
      ec_params = [], ec_method = ''GET'', ec_host = ''a.example'', ec_scheme = ''https'', ec_path = ''/''\<rparr>"

theorem request_reads_sound_witness:
  "eval (Header ''x-tenant'') (sample_ctx ''one'') = eval (Header ''x-tenant'') (sample_ctx ''two'')"
proof -
  have "agree_on (set (request_reads (Header ''x-tenant''))) (sample_ctx ''one'') (sample_ctx ''two'')"
    by (auto simp: agree_on_def request_reads_def push_new_def sample_ctx_def lookup_def
        eq_ignore_ascii_case_def to_ascii_lowercase_def ascii_lower_def byte_simps)
  then show ?thesis using request_reads_sound by blast
qed

text \<open>
  C23: the grammar is complete for the trees the parser can build without the environment: printing such
  a tree and parsing the text gives the tree back.
\<close>

theorem parse_unparse: "printable e \<Longrightarrow> parse tgt (unparse e) = Inr e"
  using parse_unparse_expr [of e tgt "length (unparse e)" "[]"] good_head_unparse [of e]
  by (simp add: parse_def)

theorem parse_unparse_witness:
  "parse Workers ''eq(lower(\"A\"),\"a\",cookie(\"t\"))'' = Inr (Eq (Lower (Lit ''A'')) (Lit ''a'') (Some (Cookie ''t'')))"
proof -
  let ?e = "Eq (Lower (Lit ''A'')) (Lit ''a'') (Some (Cookie ''t''))"
  have "printable ?e" by (simp add: quotable_def)
  moreover have "unparse ?e = ''eq(lower(\"A\"),\"a\",cookie(\"t\"))''"
    by (simp add: call_text_def quote_lit_def)
  ultimately show ?thesis using parse_unparse [of ?e Workers] by simp
qed

end
