(* ===== verification/LruStore.thy ===== *)
theory LruStore
  imports Prelude "HOL-Library.AList" "HOL-Library.Multiset"
begin

text \<open>
  The LRU store both single-thread caches share: \<^verbatim>\<open>Store<K, V>\<close> of
  \<^verbatim>\<open>crates/brust-core/src/cache/local.rs\<close>. A \<^verbatim>\<open>HashMap\<close> is an association list with distinct keys
  (its iteration order is unspecified in Rust; here it is insertion order), a \<^verbatim>\<open>HashSet\<close> a distinct
  list, and the \<^verbatim>\<open>BTreeMap\<close> from ticks to keys a list sorted by tick. The invariant ties the five
  structures together; every operation keeps it.
\<close>

named_theorems store_simps \<open>what the store operations do to the entry map\<close>

section \<open>State\<close>

record 'v slot =
  slot_value :: 'v
  expires_ns :: "nat option"
  slot_tags :: "string list"
  slot_user_key :: "string option"
  slot_tick :: nat
  slot_bytes :: nat

definition live :: "'v slot \<Rightarrow> nat \<Rightarrow> bool" where
  "live s now \<longleftrightarrow> (case expires_ns s of None \<Rightarrow> True | Some e \<Rightarrow> now < e)"

type_synonym 'k index = "(string \<times> 'k list) list"

record ('k, 'v) store =
  entries :: "('k \<times> 'v slot) list"
  recency :: "(nat \<times> 'k) list"
  tag_index :: "'k index"
  user_index :: "'k index"
  next_tick :: nat
  store_bytes :: nat

definition store_new :: "('k, 'v) store" where
  "store_new = \<lparr>entries = [], recency = [], tag_index = [], user_index = [], next_tick = 0, store_bytes = 0\<rparr>"

definition SWEEP :: nat where
  "SWEEP = 8"

section \<open>Operations\<close>

text \<open>\<^verbatim>\<open>BTreeMap::insert\<close>: the list stays sorted by key; an equal key is replaced.\<close>

fun bt_insert :: "nat \<Rightarrow> 'k \<Rightarrow> (nat \<times> 'k) list \<Rightarrow> (nat \<times> 'k) list" where
  "bt_insert t k [] = [(t, k)]"
| "bt_insert t k ((u, l) # m) =
     (if t < u then (t, k) # (u, l) # m
      else if t = u then (t, k) # m
      else (u, l) # bt_insert t k m)"

definition unindex :: "'k index \<Rightarrow> string \<Rightarrow> 'k \<Rightarrow> 'k index" where
  "unindex index name k =
     (case map_of index name of
        None \<Rightarrow> index
      | Some ks \<Rightarrow>
          let ks' = removeAll k ks
          in if ks' = [] then AList.delete name index else AList.update name ks' index)"

text \<open>\<^verbatim>\<open>index.entry(name).or_default().insert(k)\<close>.\<close>

definition index_add :: "'k index \<Rightarrow> string \<Rightarrow> 'k \<Rightarrow> 'k index" where
  "index_add index name k =
     AList.update name (List.insert k (case map_of index name of None \<Rightarrow> [] | Some ks \<Rightarrow> ks)) index"

definition remove :: "'k \<Rightarrow> ('k, 'v) store \<Rightarrow> 'v slot option \<times> ('k, 'v) store" where
  "remove k st =
     (case map_of (entries st) k of
        None \<Rightarrow> (None, st)
      | Some s \<Rightarrow>
          (Some s, st\<lparr>
             entries := AList.delete k (entries st),
             recency := AList.delete (slot_tick s) (recency st),
             tag_index := fold (\<lambda>t ix. unindex ix t k) (slot_tags s) (tag_index st),
             user_index := (case slot_user_key s of
                              None \<Rightarrow> user_index st
                            | Some u \<Rightarrow> unindex (user_index st) u k),
             store_bytes := usize_sub (store_bytes st) (slot_bytes s)\<rparr>))"

text \<open>\<^verbatim>\<open>for k in keys { self.remove(&k); }\<close>\<close>

definition remove_all :: "'k list \<Rightarrow> ('k, 'v) store \<Rightarrow> ('k, 'v) store" where
  "remove_all ks st = fold (\<lambda>k st. snd (remove k st)) ks st"

definition sweep :: "nat \<Rightarrow> ('k, 'v) store \<Rightarrow> ('k, 'v) store" where
  "sweep now st =
     remove_all
       (filter (\<lambda>k. case map_of (entries st) k of None \<Rightarrow> False | Some s \<Rightarrow> \<not> live s now)
          (take SWEEP (map snd (recency st)))) st"

definition reap :: "nat \<Rightarrow> ('k, 'v) store \<Rightarrow> ('k, 'v) store" where
  "reap now st = remove_all (map fst (filter (\<lambda>(_, s). \<not> live s now) (entries st))) st"

lemma length_recency_remove: "length (recency (snd (remove k st))) \<le> length (recency st)"
  by (auto simp: remove_def AList.delete_eq split: option.splits)

text \<open>The eviction loop at the end of \<^verbatim>\<open>Store::insert\<close>.\<close>

function evict :: "nat \<Rightarrow> nat \<Rightarrow> ('k, 'v) store \<Rightarrow> ('k, 'v) store" where
  "evict capacity max_bytes st =
     (if capacity < length (entries st) \<or> max_bytes < store_bytes st then
        (case recency st of
           [] \<Rightarrow> st
         | (_, lru) # rest \<Rightarrow> evict capacity max_bytes (snd (remove lru (st\<lparr>recency := rest\<rparr>))))
      else st)"
  by pat_completeness auto
termination
proof (relation "measure (\<lambda>(_, _, st). length (recency st))", goal_cases)
  case (2 capacity max_bytes st x xs t lru)
  then show ?case
    using length_recency_remove [of lru "st\<lparr>recency := xs\<rparr>"] by (auto simp: le_imp_less_Suc)
qed simp

declare evict.simps [simp del]

definition insert :: "'k \<Rightarrow> 'v \<Rightarrow> nat option \<Rightarrow> string list \<Rightarrow> string option \<Rightarrow> nat \<Rightarrow> nat \<Rightarrow> nat \<Rightarrow> nat \<Rightarrow>
    ('k, 'v) store \<Rightarrow> ('k, 'v) store" where
  "insert k v expires tags user_key nbytes now capacity max_bytes st =
     (let st = snd (remove k st);
          st = sweep now st;
          tick = next_tick st;
          st = st\<lparr>
            next_tick := u64_add tick 1,
            recency := bt_insert tick k (recency st),
            tag_index := fold (\<lambda>t ix. index_add ix t k) tags (tag_index st),
            user_index := (case user_key of
                             None \<Rightarrow> user_index st
                           | Some u \<Rightarrow> index_add (user_index st) u k),
            store_bytes := usize_add (store_bytes st) nbytes,
            entries := AList.update k
              \<lparr>slot_value = v, expires_ns = expires, slot_tags = tags, slot_user_key = user_key,
               slot_tick = tick, slot_bytes = nbytes\<rparr> (entries st)\<rparr>
      in evict capacity max_bytes st)"

definition get :: "'k \<Rightarrow> nat \<Rightarrow> ('k, 'v) store \<Rightarrow> 'v option \<times> ('k, 'v) store" where
  "get k now st =
     (case map_of (entries st) k of
        None \<Rightarrow> (None, st)
      | Some s \<Rightarrow>
          if \<not> live s now then (None, snd (remove k st))
          else
            let tick = next_tick st
            in (Some (slot_value s),
                st\<lparr>next_tick := u64_add tick 1,
                   recency := (case map_of (recency st) (slot_tick s) of
                                 Some rk \<Rightarrow> bt_insert tick rk (AList.delete (slot_tick s) (recency st))
                               | None \<Rightarrow> recency st),
                   entries := AList.update k (s\<lparr>slot_tick := tick\<rparr>) (entries st)\<rparr>))"

definition live_len :: "nat \<Rightarrow> ('k, 'v) store \<Rightarrow> nat" where
  "live_len now st = length (filter (\<lambda>(_, s). live s now) (entries st))"

text \<open>The keys found in an index under any of \<open>names\<close>, without repeats (\<^verbatim>\<open>HashSet::extend\<close>).\<close>

fun collect_keys :: "'k index \<Rightarrow> string list \<Rightarrow> 'k list \<Rightarrow> 'k list" where
  "collect_keys index [] keys = keys"
| "collect_keys index (n # names) keys =
     collect_keys index names
       (fold List.insert (case map_of index n of None \<Rightarrow> [] | Some ks \<Rightarrow> ks) keys)"

text \<open>As \<open>collect_keys\<close>, taking each name's set out of the index.\<close>

fun drain_keys :: "'k index \<Rightarrow> string list \<Rightarrow> 'k list \<Rightarrow> 'k list \<times> 'k index" where
  "drain_keys index [] keys = (keys, index)"
| "drain_keys index (n # names) keys =
     (case map_of index n of
        None \<Rightarrow> drain_keys index names keys
      | Some ks \<Rightarrow> drain_keys (AList.delete n index) names (fold List.insert ks keys))"

definition take_indexed :: "bool \<Rightarrow> string list \<Rightarrow> ('k, 'v) store \<Rightarrow> nat \<times> ('k, 'v) store" where
  "take_indexed users names st =
     (let (keys, index) = drain_keys (if users then user_index st else tag_index st) names [];
          st = (if users then st\<lparr>user_index := index\<rparr> else st\<lparr>tag_index := index\<rparr>)
      in (length keys, remove_all keys st))"

definition take_tagged_where :: "string list \<Rightarrow> ('k \<Rightarrow> bool) \<Rightarrow> ('k, 'v) store \<Rightarrow> nat \<times> ('k, 'v) store" where
  "take_tagged_where names keep st =
     (let keys = filter keep (collect_keys (tag_index st) names [])
      in (length keys, remove_all keys st))"

fun remove_counting :: "nat \<Rightarrow> 'k list \<Rightarrow> nat \<Rightarrow> ('k, 'v) store \<Rightarrow> nat \<times> ('k, 'v) store" where
  "remove_counting now [] n st = (n, st)"
| "remove_counting now (k # ks) n st =
     (let (removed, st') = remove k st
      in remove_counting now ks
           (case removed of Some s \<Rightarrow> if live s now then n + 1 else n | None \<Rightarrow> n) st')"

definition remove_where :: "nat \<Rightarrow> ('k \<Rightarrow> bool) \<Rightarrow> ('k, 'v) store \<Rightarrow> nat \<times> ('k, 'v) store" where
  "remove_where now hit st = remove_counting now (filter hit (map fst (entries st))) 0 st"

definition clear :: "('k, 'v) store \<Rightarrow> ('k, 'v) store" where
  "clear st = st\<lparr>entries := [], recency := [], tag_index := [], user_index := [], store_bytes := 0\<rparr>"

definition index_size :: "bool \<Rightarrow> ('k, 'v) store \<Rightarrow> nat" where
  "index_size users st = sum_list (map (length \<circ> snd) (if users then user_index st else tag_index st))"

section \<open>Indexes\<close>

definition idx :: "'k index \<Rightarrow> string \<Rightarrow> 'k set" where
  "idx index name = (case map_of index name of None \<Rightarrow> {} | Some ks \<Rightarrow> set ks)"

definition index_wf :: "'k index \<Rightarrow> bool" where
  "index_wf index \<longleftrightarrow> distinct (map fst index) \<and>
     (\<forall>name ks. map_of index name = Some ks \<longrightarrow> ks \<noteq> [] \<and> distinct ks)"

definition index_ok :: "'k index \<Rightarrow> ('k \<Rightarrow> string set) \<Rightarrow> bool" where
  "index_ok index names \<longleftrightarrow> index_wf index \<and> (\<forall>n k. k \<in> idx index n \<longleftrightarrow> n \<in> names k)"

lemma removeAll_Nil [simp]: "removeAll k xs = [] \<longleftrightarrow> set xs \<subseteq> {k}"
  by (induction xs) auto

lemma idx_unindex [simp]:
  "idx (unindex index n k) m = (if m = n then idx index n - {k} else idx index m)"
  by (auto simp: idx_def unindex_def Let_def AList.update_conv' AList.delete_conv' split: option.splits)

lemma index_wf_update: "index_wf index \<Longrightarrow> ks \<noteq> [] \<Longrightarrow> distinct ks \<Longrightarrow> index_wf (AList.update n ks index)"
  by (auto simp: index_wf_def AList.update_conv' distinct_update simp del: map_of_eq_Some_iff)

lemma index_wf_delete: "index_wf index \<Longrightarrow> index_wf (AList.delete n index)"
  by (auto simp: index_wf_def AList.delete_conv' distinct_delete simp del: map_of_eq_Some_iff
      split: if_splits)

lemma index_wfD: "index_wf index \<Longrightarrow> map_of index n = Some ks \<Longrightarrow> ks \<noteq> [] \<and> distinct ks"
  by (simp add: index_wf_def del: map_of_eq_Some_iff)

lemma index_wf_unindex: "index_wf index \<Longrightarrow> index_wf (unindex index n k)"
  by (auto simp: unindex_def Let_def index_wf_delete distinct_removeAll simp del: removeAll_Nil
      intro!: index_wf_update dest: index_wfD split: option.splits)

lemma idx_fold_unindex:
  "idx (fold (\<lambda>t ix. unindex ix t k) ts index) m = (if m \<in> set ts then idx index m - {k} else idx index m)"
  by (induction ts arbitrary: index) auto

lemma index_wf_fold_unindex: "index_wf index \<Longrightarrow> index_wf (fold (\<lambda>t ix. unindex ix t k) ts index)"
  by (induction ts arbitrary: index) (auto simp: index_wf_unindex)

lemma idx_add [simp]:
  "idx (index_add index n k) m = (if m = n then Set.insert k (idx index n) else idx index m)"
  by (auto simp: idx_def index_add_def AList.update_conv' split: option.splits)

lemma index_wf_add: "index_wf index \<Longrightarrow> index_wf (index_add index n k)"
  by (auto simp: index_add_def List.insert_def intro!: index_wf_update dest: index_wfD
      split: option.splits)

lemma idx_fold_add:
  "idx (fold (\<lambda>t ix. index_add ix t k) ts index) m =
     (if m \<in> set ts then Set.insert k (idx index m) else idx index m)"
  by (induction ts arbitrary: index) auto

lemma index_wf_fold_add: "index_wf index \<Longrightarrow> index_wf (fold (\<lambda>t ix. index_add ix t k) ts index)"
  by (induction ts arbitrary: index) (auto simp: index_wf_add)

lemma index_ok_Nil [simp]: "index_ok [] (\<lambda>_. {})"
  by (simp add: index_ok_def index_wf_def idx_def)

lemma set_fold_insert [simp]: "set (fold List.insert ks keys) = set keys \<union> set ks"
  by (induction ks arbitrary: keys) auto

lemma distinct_fold_insert: "distinct keys \<Longrightarrow> distinct (fold List.insert ks keys)"
  by (induction ks arbitrary: keys) auto

lemma set_collect_keys: "set (collect_keys index names keys) = set keys \<union> (\<Union>n \<in> set names. idx index n)"
  by (induction index names keys rule: collect_keys.induct) (auto simp: idx_def split: option.splits)

lemma distinct_collect_keys: "distinct keys \<Longrightarrow> distinct (collect_keys index names keys)"
  by (induction index names keys rule: collect_keys.induct) (simp_all add: distinct_fold_insert)

lemma drain_keys_set:
  "drain_keys index names keys = (keys', index') \<Longrightarrow>
     set keys' = set keys \<union> (\<Union>n \<in> set names. idx index n) \<and>
     (distinct keys \<longrightarrow> distinct keys') \<and> (index_wf index \<longrightarrow> index_wf index') \<and>
     (\<forall>m. idx index' m = (if m \<in> set names then {} else idx index m))"
proof (induction index names keys arbitrary: keys' index' rule: drain_keys.induct)
  case (2 index n names keys)
  show ?case
  proof (cases "map_of index n")
    case None
    with 2 show ?thesis by (auto simp: idx_def)
  next
    case (Some ks)
    have idx: "idx (AList.delete n index) m = (if m = n then {} else idx index m)" for m
      by (simp add: idx_def AList.delete_conv')
    have "idx index n = set ks" using Some by (simp add: idx_def)
    with 2(2) [OF Some] "2.prems" Some index_wf_delete idx show ?thesis
      by (auto simp: distinct_fold_insert)
  qed
qed simp

section \<open>The invariant\<close>

definition tags_of :: "('k \<times> 'v slot) list \<Rightarrow> 'k \<Rightarrow> string set" where
  "tags_of es k = (case map_of es k of None \<Rightarrow> {} | Some s \<Rightarrow> set (slot_tags s))"

definition users_of :: "('k \<times> 'v slot) list \<Rightarrow> 'k \<Rightarrow> string set" where
  "users_of es k = (case map_of es k of None \<Rightarrow> {} | Some s \<Rightarrow> set_option (slot_user_key s))"

definition total_bytes :: "('k \<times> 'v slot) list \<Rightarrow> nat" where
  "total_bytes es = sum_list (map (slot_bytes \<circ> snd) es)"

text \<open>
  \<open>store_inv_but T U\<close> lets the index sets of the tags \<open>T\<close> and user keys \<open>U\<close> be taken out already, which is the
  state between draining an index and removing the drained keys; \<open>store_inv\<close> is the invariant of a store at rest.
\<close>

definition store_inv_but :: "string set \<Rightarrow> string set \<Rightarrow> ('k, 'v) store \<Rightarrow> bool" where
  "store_inv_but T U st \<longleftrightarrow>
     distinct (map fst (entries st)) \<and>
     sorted_wrt (<) (map fst (recency st)) \<and>
     (\<forall>t k. (t, k) \<in> set (recency st) \<longleftrightarrow> (\<exists>s. map_of (entries st) k = Some s \<and> slot_tick s = t)) \<and>
     (\<forall>k s. map_of (entries st) k = Some s \<longrightarrow> slot_tick s < next_tick st) \<and>
     index_ok (tag_index st) (\<lambda>k. tags_of (entries st) k - T) \<and>
     index_ok (user_index st) (\<lambda>k. users_of (entries st) k - U) \<and>
     store_bytes st = total_bytes (entries st)"

abbreviation store_inv :: "('k, 'v) store \<Rightarrow> bool" where
  "store_inv \<equiv> store_inv_but {} {}"

lemma store_inv_butD:
  assumes "store_inv_but T U st"
  shows "distinct (map fst (entries st))"
    and "sorted_wrt (<) (map fst (recency st))"
    and "(t, k) \<in> set (recency st) \<longleftrightarrow> (\<exists>s. map_of (entries st) k = Some s \<and> slot_tick s = t)"
    and "map_of (entries st) k = Some s \<Longrightarrow> slot_tick s < next_tick st"
    and "index_ok (tag_index st) (\<lambda>k. tags_of (entries st) k - T)"
    and "index_ok (user_index st) (\<lambda>k. users_of (entries st) k - U)"
    and "store_bytes st = total_bytes (entries st)"
  using assms by (simp_all add: store_inv_but_def del: map_of_eq_Some_iff)

lemma store_inv_new: "store_inv store_new"
  by (simp add: store_inv_but_def store_new_def total_bytes_def tags_of_def users_of_def)

lemma sorted_wrt_filter_fst:
  "sorted_wrt P (map fst xs) \<Longrightarrow> sorted_wrt P (map fst (filter Q xs))"
  by (induction xs) auto

lemma sorted_wrt_delete_fst:
  "sorted_wrt P (map fst xs) \<Longrightarrow> sorted_wrt P (map fst (AList.delete x xs))"
  by (simp add: AList.delete_eq sorted_wrt_filter_fst)

lemma recency_functional:
  assumes "store_inv_but T U st" "(t, k) \<in> set (recency st)" "(t, k') \<in> set (recency st)"
  shows "k = k'"
proof -
  have "distinct (map fst (recency st))"
    using store_inv_butD(2) [OF assms(1)] by (simp add: strict_sorted_iff)
  with assms(2,3) show ?thesis by (metis eq_key_imp_eq_value)
qed

lemma mem_delete: "(a, b) \<in> set (AList.delete x al) \<longleftrightarrow> (a, b) \<in> set al \<and> a \<noteq> x"
  by (auto simp: AList.delete_eq)

lemma total_bytes_delete:
  "distinct (map fst es) \<Longrightarrow> map_of es k = Some s \<Longrightarrow>
     total_bytes es = slot_bytes s + total_bytes (AList.delete k es)"
proof (induction es)
  case (Cons e es)
  obtain k' s' where e: "e = (k', s')" by (cases e)
  show ?case
  proof (cases "k' = k")
    case True
    with Cons.prems e have "AList.delete k es = es"
      by (auto simp: AList.delete_eq filter_id_conv image_iff)
    with True e Cons.prems show ?thesis by (simp add: total_bytes_def)
  next
    case False
    with Cons e show ?thesis by (simp add: total_bytes_def)
  qed
qed simp

lemma length_delete:
  "distinct (map fst es) \<Longrightarrow> map_of es k = Some s \<Longrightarrow> length es = Suc (length (AList.delete k es))"
proof (induction es)
  case (Cons e es)
  obtain k' s' where e: "e = (k', s')" by (cases e)
  show ?case
  proof (cases "k' = k")
    case True
    with Cons.prems e have "AList.delete k es = es"
      by (auto simp: AList.delete_eq filter_id_conv image_iff)
    with True e show ?thesis by simp
  next
    case False
    with Cons e show ?thesis by simp
  qed
qed simp

section \<open>Removal\<close>

lemma entries_remove [store_simps]:
  "map_of (entries (snd (remove k st))) = (map_of (entries st))(k := None)"
  by (auto simp: remove_def AList.delete_conv' split: option.splits)

lemma fst_remove [store_simps]: "fst (remove k st) = map_of (entries st) k"
  by (simp add: remove_def split: option.splits)

lemma next_tick_remove [store_simps]: "next_tick (snd (remove k st)) = next_tick st"
  by (simp add: remove_def split: option.splits)

lemma remove_absent: "map_of (entries st) k = None \<Longrightarrow> snd (remove k st) = st"
  by (simp add: remove_def)

lemma index_ok_cong: "index_ok index f \<Longrightarrow> (\<And>k. f k = g k) \<Longrightarrow> index_ok index g"
  by (simp add: index_ok_def)

lemma index_ok_unindex_tags:
  assumes "index_ok index (\<lambda>k. tags_of es k - T)" and "map_of es k = Some s"
  shows "index_ok (fold (\<lambda>t ix. unindex ix t k) (slot_tags s) index)
           (\<lambda>k'. tags_of (AList.delete k es) k' - T)"
  using assms
  by (auto simp: index_ok_def idx_fold_unindex index_wf_fold_unindex tags_of_def AList.delete_conv')

lemma index_ok_unindex_user:
  assumes "index_ok index (\<lambda>k. users_of es k - U)" and "map_of es k = Some s"
  shows "index_ok (case slot_user_key s of None \<Rightarrow> index | Some u \<Rightarrow> unindex index u k)
           (\<lambda>k'. users_of (AList.delete k es) k' - U)"
  using assms
  by (auto simp: index_ok_def index_wf_unindex users_of_def AList.delete_conv' split: option.splits)

lemma remove_inv: "store_inv_but T U st \<Longrightarrow> store_inv_but T U (snd (remove k st))"
proof (cases "map_of (entries st) k")
  case (Some s)
  assume inv: "store_inv_but T U st"
  note D = store_inv_butD [OF inv]
  let ?es = "AList.delete k (entries st)"
  have rec: "(t, k') \<in> set (AList.delete (slot_tick s) (recency st)) \<longleftrightarrow>
      (\<exists>s'. map_of ?es k' = Some s' \<and> slot_tick s' = t)" for t k'
  proof -
    have "(slot_tick s, k) \<in> set (recency st)" using D(3) Some by blast
    then have "k' = k" if "(slot_tick s, k') \<in> set (recency st)"
      using recency_functional [OF inv] that by blast
    with D(3) [of t k'] Some show ?thesis
      by (auto simp: mem_delete AList.delete_conv' simp del: map_of_eq_Some_iff)
  qed
  have "store_bytes st = slot_bytes s + total_bytes ?es"
    using D(7) total_bytes_delete [OF D(1) Some] by simp
  moreover have "slot_tick s' < next_tick st" if "map_of ?es k' = Some s'" for k' s'
    using that D(4) by (auto simp: AList.delete_conv' simp del: map_of_eq_Some_iff split: if_splits)
  ultimately show ?thesis
    using D Some rec unfolding store_inv_but_def
    by (simp add: remove_def distinct_delete index_ok_unindex_tags index_ok_unindex_user
        sorted_wrt_delete_fst del: map_of_eq_Some_iff)
qed (simp add: remove_absent)

lemma length_remove:
  "store_inv_but T U st \<Longrightarrow> map_of (entries st) k = Some s \<Longrightarrow>
     length (entries st) = Suc (length (entries (snd (remove k st))))"
  using length_delete [of "entries st" k s] store_inv_butD(1) [of T U st] by (simp add: remove_def)

lemma remove_all_simps [simp]:
  "remove_all [] st = st"
  "remove_all (k # ks) st = remove_all ks (snd (remove k st))"
  by (simp_all add: remove_all_def)

lemma entries_remove_all [store_simps]:
  "map_of (entries (remove_all ks st)) = (\<lambda>k. if k \<in> set ks then None else map_of (entries st) k)"
  by (induction ks arbitrary: st) (auto simp: entries_remove)

lemma next_tick_remove_all [store_simps]: "next_tick (remove_all ks st) = next_tick st"
  by (induction ks arbitrary: st) (simp_all add: next_tick_remove)

lemma remove_all_inv: "store_inv_but T U st \<Longrightarrow> store_inv_but T U (remove_all ks st)"
  by (induction ks arbitrary: st) (simp_all add: remove_inv)

lemma total_bytes_remove_le:
  "store_inv_but T U st \<Longrightarrow> total_bytes (entries (snd (remove k st))) \<le> total_bytes (entries st)"
  using total_bytes_delete [of "entries st" k] store_inv_butD(1) [of T U st]
  by (cases "map_of (entries st) k") (auto simp: remove_def)

lemma store_bytes_remove_le:
  "store_inv_but T U st \<Longrightarrow> store_bytes (snd (remove k st)) \<le> store_bytes st"
  using total_bytes_remove_le [of T U st k] remove_inv [of T U st k]
  by (simp add: store_inv_but_def del: map_of_eq_Some_iff)

lemma store_bytes_remove_all_le:
  "store_inv_but T U st \<Longrightarrow> store_bytes (remove_all ks st) \<le> store_bytes st"
proof (induction ks arbitrary: st)
  case (Cons k ks)
  then show ?case
    using store_bytes_remove_le [of T U st k] remove_inv [of T U st k] by (auto intro: order_trans)
qed simp

section \<open>Expiry\<close>

lemma sweep_inv: "store_inv st \<Longrightarrow> store_inv (sweep now st)"
  by (simp add: sweep_def remove_all_inv)

lemma entries_sweep:
  "map_of (entries (sweep now st)) k = None \<or>
   map_of (entries (sweep now st)) k = map_of (entries st) k"
  by (simp add: sweep_def entries_remove_all)

lemma sweep_keeps_live:
  "map_of (entries st) k = Some s \<Longrightarrow> live s now \<Longrightarrow> map_of (entries (sweep now st)) k = Some s"
  by (auto simp: sweep_def entries_remove_all)

lemma next_tick_sweep [store_simps]: "next_tick (sweep now st) = next_tick st"
  by (simp add: sweep_def next_tick_remove_all)

lemma reap_inv: "store_inv st \<Longrightarrow> store_inv (reap now st)"
  by (simp add: reap_def remove_all_inv)

lemma entries_reap:
  assumes "store_inv st"
  shows "map_of (entries (reap now st)) k =
    (case map_of (entries st) k of Some s \<Rightarrow> if live s now then Some s else None | None \<Rightarrow> None)"
proof -
  have "k \<in> set (map fst (filter (\<lambda>(_, s). \<not> live s now) (entries st))) \<longleftrightarrow>
      (\<exists>s. map_of (entries st) k = Some s \<and> \<not> live s now)"
    using store_inv_butD(1) [OF assms] by force
  then show ?thesis
    by (auto simp: reap_def entries_remove_all simp del: map_of_eq_Some_iff split: option.splits)
qed

section \<open>Eviction\<close>

lemma remove_popped:
  assumes "store_inv_but T U st" and "recency st = (t, k) # rest"
  shows "snd (remove k (st\<lparr>recency := rest\<rparr>)) = snd (remove k st)"
proof -
  from assms store_inv_butD(3) [OF assms(1), of t k] obtain s where
    s: "map_of (entries st) k = Some s" "slot_tick s = t" by auto
  have "t \<notin> fst ` set rest"
    using store_inv_butD(2) [OF assms(1)] assms(2) by auto
  then have "AList.delete t rest = rest"
    by (force simp: AList.delete_eq filter_id_conv)
  with s assms(2) show ?thesis by (cases "slot_user_key s") (simp_all add: remove_def)
qed

lemma evict_step:
  assumes "store_inv st" and "recency st = (t, k) # rest"
    and "capacity < length (entries st) \<or> max_bytes < store_bytes st"
  shows "evict capacity max_bytes st = evict capacity max_bytes (snd (remove k st))"
  using assms by (simp add: evict.simps [of capacity max_bytes st] remove_popped)

lemma evict_done:
  "\<not> (capacity < length (entries st) \<or> max_bytes < store_bytes st) \<Longrightarrow> evict capacity max_bytes st = st"
  by (subst evict.simps) auto

lemma recency_Nil:
  assumes "store_inv st" and "recency st = []"
  shows "entries st = [] \<and> store_bytes st = 0"
proof -
  have "map_of (entries st) k = None" for k
    using store_inv_butD(3) [OF assms(1), of _ k] assms(2) by (cases "map_of (entries st) k") auto
  then have "map_of (entries st) = Map.empty" by blast
  then have "entries st = []" by simp
  with store_inv_butD(7) [OF assms(1)] show ?thesis by (simp add: total_bytes_def)
qed

lemma evict_induct [consumes 1, case_names Done Step]:
  assumes "store_inv st"
    and "\<And>st. store_inv st \<Longrightarrow> length (entries st) \<le> capacity \<Longrightarrow> store_bytes st \<le> max_bytes \<Longrightarrow>
           evict capacity max_bytes st = st \<Longrightarrow> P st"
    and "\<And>st t k rest. store_inv st \<Longrightarrow> recency st = (t, k) # rest \<Longrightarrow>
           capacity < length (entries st) \<or> max_bytes < store_bytes st \<Longrightarrow>
           store_inv (snd (remove k st)) \<Longrightarrow>
           evict capacity max_bytes st = evict capacity max_bytes (snd (remove k st)) \<Longrightarrow>
           P (snd (remove k st)) \<Longrightarrow> P st"
  shows "P st"
  using assms(1)
proof (induction "length (entries st)" arbitrary: st rule: less_induct)
  case less
  show ?case
  proof (cases "capacity < length (entries st) \<or> max_bytes < store_bytes st")
    case False
    then show ?thesis using assms(2) less.prems evict_done [of capacity st max_bytes] by simp
  next
    case over: True
    then obtain t k rest where r: "recency st = (t, k) # rest"
      using recency_Nil [OF less.prems] by (cases "recency st") auto
    with store_inv_butD(3) [OF less.prems, of t k] obtain s where
      s: "map_of (entries st) k = Some s" by auto
    have len: "length (entries (snd (remove k st))) < length (entries st)"
      using length_remove [OF less.prems s] by simp
    note inv' = remove_inv [OF less.prems, of k]
    show ?thesis
      by (rule assms(3) [OF less.prems r over inv' evict_step [OF less.prems r over] less.hyps [OF len inv']])
  qed
qed

lemma evict_inv: "store_inv st \<Longrightarrow> store_inv (evict capacity max_bytes st)"
  by (induction st rule: evict_induct [of _ capacity max_bytes]) simp_all

lemma evict_bounds:
  "store_inv st \<Longrightarrow> length (entries (evict capacity max_bytes st)) \<le> capacity \<and>
     store_bytes (evict capacity max_bytes st) \<le> max_bytes"
  by (induction st rule: evict_induct [of _ capacity max_bytes]) simp_all


section \<open>Insertion\<close>

text \<open>The middle part of \<^verbatim>\<open>Store::insert\<close>, from the tick to \<^verbatim>\<open>entries.insert\<close>.\<close>

definition put :: "'k \<Rightarrow> 'v \<Rightarrow> nat option \<Rightarrow> string list \<Rightarrow> string option \<Rightarrow> nat \<Rightarrow> ('k, 'v) store \<Rightarrow> ('k, 'v) store" where
  "put k v expires tags user_key nbytes st =
     st\<lparr>next_tick := u64_add (next_tick st) 1,
        recency := bt_insert (next_tick st) k (recency st),
        tag_index := fold (\<lambda>t ix. index_add ix t k) tags (tag_index st),
        user_index := (case user_key of None \<Rightarrow> user_index st | Some u \<Rightarrow> index_add (user_index st) u k),
        store_bytes := usize_add (store_bytes st) nbytes,
        entries := AList.update k
          \<lparr>slot_value = v, expires_ns = expires, slot_tags = tags, slot_user_key = user_key,
           slot_tick = next_tick st, slot_bytes = nbytes\<rparr> (entries st)\<rparr>"

lemma insert_put:
  "insert k v expires tags user_key nbytes now capacity max_bytes st =
     evict capacity max_bytes (put k v expires tags user_key nbytes (sweep now (snd (remove k st))))"
  by (simp add: insert_def put_def Let_def)

lemma bt_insert_last:
  "\<forall>u \<in> set (map fst m). u < t \<Longrightarrow> bt_insert t k m = m @ [(t, k)]"
  by (induction t k m rule: bt_insert.induct) auto

lemma recency_below_tick:
  assumes "store_inv st" and "(t, k) \<in> set (recency st)"
  shows "t < next_tick st"
proof -
  obtain s where "map_of (entries st) k = Some s" "slot_tick s = t"
    using store_inv_butD(3) [OF assms(1)] assms(2) by metis
  with store_inv_butD(4) [OF assms(1)] show ?thesis by metis
qed

lemma recency_put:
  "store_inv st \<Longrightarrow> recency (put k v e ts u b st) = recency st @ [(next_tick st, k)]"
  using bt_insert_last [of "recency st" "next_tick st" k] recency_below_tick [of st]
  by (force simp: put_def)

lemma entries_put:
  "map_of (entries (put k v e ts u b st)) =
     (map_of (entries st))(k \<mapsto>
        \<lparr>slot_value = v, expires_ns = e, slot_tags = ts, slot_user_key = u,
         slot_tick = next_tick st, slot_bytes = b\<rparr>)"
  by (simp add: put_def AList.update_conv')

lemma next_tick_put [store_simps]: "next_tick (put k v e ts u b st) = u64_add (next_tick st) 1"
  by (simp add: put_def)

lemma update_absent: "map_of es k = None \<Longrightarrow> AList.update k s es = es @ [(k, s)]"
  by (induction es) (auto split: if_splits)

lemma put_inv:
  assumes inv: "store_inv st" and fresh: "map_of (entries st) k = None"
    and tick: "next_tick st + 1 < u64_mod" and room: "store_bytes st + b < usize_mod"
  shows "store_inv (put k v e ts u b st)"
proof -
  note D = store_inv_butD [OF inv]
  let ?s = "\<lparr>slot_value = v, expires_ns = e, slot_tags = ts, slot_user_key = u,
         slot_tick = next_tick st, slot_bytes = b\<rparr>"
  let ?st = "put k v e ts u b st"
  have es: "entries ?st = entries st @ [(k, ?s)]"
    using fresh by (simp add: put_def update_absent)
  have m: "map_of (entries ?st) = (map_of (entries st))(k \<mapsto> ?s)" by (rule entries_put)
  have "k \<notin> fst ` set (entries st)" using fresh by (simp add: map_of_eq_None_iff)
  then have dist: "distinct (map fst (entries ?st))" using D(1) es by simp
  have sorted: "sorted_wrt (<) (map fst (recency ?st))"
    using D(2) recency_below_tick [OF inv] by (auto simp: recency_put [OF inv] sorted_wrt_append)
  have rec: "(t, k') \<in> set (recency ?st) \<longleftrightarrow>
      (\<exists>s. map_of (entries ?st) k' = Some s \<and> slot_tick s = t)" for t k'
    using D(3) [of t k'] fresh by (auto simp: recency_put [OF inv] m simp del: map_of_eq_Some_iff)
  have ticks: "slot_tick s < next_tick ?st" if "map_of (entries ?st) k' = Some s" for k' s
    using that D(4) [of k' s] tick
    by (auto simp: m next_tick_put simp del: map_of_eq_Some_iff split: if_splits)
  have tags: "index_ok (tag_index ?st) (\<lambda>k'. tags_of (entries ?st) k' - {})"
    using D(5) fresh
    by (auto simp: index_ok_def tags_of_def m put_def idx_fold_add index_wf_fold_add AList.update_conv'
        simp del: map_of_eq_Some_iff)
  have users: "index_ok (user_index ?st) (\<lambda>k'. users_of (entries ?st) k' - {})"
    using D(6) fresh
    by (auto simp: index_ok_def users_of_def m put_def index_wf_add AList.update_conv'
        simp del: map_of_eq_Some_iff split: option.splits)
  have bytes: "store_bytes ?st = total_bytes (entries ?st)"
    using D(7) room unfolding es by (simp add: put_def total_bytes_def)
  show ?thesis
    using dist sorted rec ticks tags users bytes unfolding store_inv_but_def by blast
qed

lemma put_after_sweep_inv:
  assumes "store_inv st" and "next_tick st + 1 < u64_mod" and "store_bytes st + b < usize_mod"
  shows "store_inv (put k v e ts u b (sweep now (snd (remove k st))))"
proof (rule put_inv)
  let ?st = "sweep now (snd (remove k st))"
  show "store_inv ?st" by (simp add: assms(1) remove_inv sweep_inv)
  show "map_of (entries ?st) k = None"
    using entries_sweep [of now "snd (remove k st)" k] by (auto simp: entries_remove)
  show "next_tick ?st + 1 < u64_mod" using assms(2) by (simp add: store_simps)
  have "store_bytes ?st \<le> store_bytes st"
    unfolding sweep_def
    using store_bytes_remove_all_le [OF remove_inv [OF assms(1)]] store_bytes_remove_le [OF assms(1)]
    by (meson order_trans)
  then show "store_bytes ?st + b < usize_mod" using assms(3) by linarith
qed

lemma insert_inv:
  assumes "store_inv st" and "next_tick st + 1 < u64_mod" and "store_bytes st + b < usize_mod"
  shows "store_inv (insert k v e ts u b now capacity max_bytes st)"
  unfolding insert_put by (rule evict_inv [OF put_after_sweep_inv [OF assms]])

lemma insert_bounds:
  assumes "store_inv st" and "next_tick st + 1 < u64_mod" and "store_bytes st + b < usize_mod"
  shows "length (entries (insert k v e ts u b now capacity max_bytes st)) \<le> capacity"
    and "store_bytes (insert k v e ts u b now capacity max_bytes st) \<le> max_bytes"
  unfolding insert_put using evict_bounds [OF put_after_sweep_inv [OF assms]] by simp_all


section \<open>Which entries an insertion drops\<close>

lemma recency_remove_head:
  assumes "store_inv st" and "recency st = (t, k) # rest"
  shows "recency (snd (remove k st)) = rest"
proof -
  from assms store_inv_butD(3) [OF assms(1), of t k] obtain s where
    s: "map_of (entries st) k = Some s" "slot_tick s = t" by auto
  have "t \<notin> fst ` set rest"
    using store_inv_butD(2) [OF assms(1)] assms(2) by auto
  then have "AList.delete t rest = rest"
    by (force simp: AList.delete_eq filter_id_conv)
  with s assms(2) show ?thesis by (simp add: remove_def)
qed

text \<open>Eviction drops a prefix of the recency order: the least recently used entries.\<close>

lemma evict_prefix:
  assumes "store_inv st"
  obtains n where "recency (evict capacity max_bytes st) = drop n (recency st)"
    and "map_of (entries (evict capacity max_bytes st)) =
      (\<lambda>k. if k \<in> snd ` set (take n (recency st)) then None else map_of (entries st) k)"
proof -
  have "\<exists>n. recency (evict capacity max_bytes st) = drop n (recency st) \<and>
      map_of (entries (evict capacity max_bytes st)) =
      (\<lambda>k. if k \<in> snd ` set (take n (recency st)) then None else map_of (entries st) k)"
    using assms
  proof (induction st rule: evict_induct [of _ capacity max_bytes])
    case (Done st)
    then show ?case by (intro exI [of _ 0]) auto
  next
    case (Step st t k rest)
    from Step(6) obtain n where n:
      "recency (evict capacity max_bytes st) = drop n rest"
      "map_of (entries (evict capacity max_bytes st)) =
         (\<lambda>k'. if k' \<in> snd ` set (take n rest) then None else map_of (entries (snd (remove k st))) k')"
      unfolding Step(5) [symmetric] recency_remove_head [OF Step(1,2)] by blast
    then show ?case
      using Step(2) by (intro exI [of _ "Suc n"]) (auto simp: entries_remove)
  qed
  then show thesis using that by blast
qed

lemma entries_single:
  assumes "store_inv st" and "recency st = [(t, k)]" and "map_of (entries st) k = Some s"
  shows "entries st = [(k, s)]"
proof -
  note D = store_inv_butD [OF assms(1)]
  have k: "fst e = k" if "e \<in> set (entries st)" for e
  proof -
    have "map_of (entries st) (fst e) = Some (snd e)" using that D(1) by simp
    then have "(slot_tick (snd e), fst e) \<in> set (recency st)" using D(3) by blast
    with assms(2) show ?thesis by simp
  qed
  show ?thesis
  proof (cases "entries st")
    case (Cons e es)
    then have "es = []" using D(1) k by (cases es) auto
    with Cons assms(3) show ?thesis by (cases e) (auto split: if_splits)
  qed (use assms(3) in simp)
qed

lemma evict_keeps_newest:
  assumes "store_inv st" and "last (recency st) = (slot_tick s, k)"
    and "map_of (entries st) k = Some s" and "1 \<le> capacity" and "slot_bytes s \<le> max_bytes"
  shows "map_of (entries (evict capacity max_bytes st)) k = Some s"
  using assms(1-3)
proof (induction st rule: evict_induct [of _ capacity max_bytes])
  case (Done st)
  then show ?case by simp
next
  case (Step st t k' rest)
  note D = store_inv_butD [OF Step(1)]
  have "rest \<noteq> []"
  proof
    assume "rest = []"
    with Step have "entries st = [(k, s)]"
      by (intro entries_single [OF Step(1), of t]) (auto simp del: map_of_eq_Some_iff)
    with Step(3) D(7) assms(4,5) show False by (simp add: total_bytes_def)
  qed
  moreover from this have "t < slot_tick s"
    using D(2) Step(2,7) last_in_set [of rest] by (force split: if_splits)
  moreover have "(t, k') \<in> set (recency st)" using Step(2) by simp
  ultimately have "k' \<noteq> k" using D(3) [of t k'] Step(8) by auto
  with Step \<open>rest \<noteq> []\<close> show ?case
    by (simp add: entries_remove recency_remove_head del: map_of_eq_Some_iff)
qed


section \<open>The other operations\<close>

lemma index_ok_rename:
  assumes "index_ok index (\<lambda>k. f es k)" and "\<And>k. f es' k = f es k"
  shows "index_ok index (\<lambda>k. f es' k)"
  using assms by (simp add: index_ok_def)

lemma total_bytes_retick:
  "map_of es k = Some s \<Longrightarrow> total_bytes (AList.update k (s\<lparr>slot_tick := t\<rparr>) es) = total_bytes es"
  by (induction es) (auto simp: total_bytes_def split: if_splits)

lemma get_inv:
  assumes inv: "store_inv st" and tick: "next_tick st + 1 < u64_mod"
  shows "store_inv (snd (get k now st))"
proof (cases "map_of (entries st) k")
  case None
  then show ?thesis using inv by (simp add: get_def)
next
  case (Some s)
  show ?thesis
  proof (cases "live s now")
    case False
    with Some inv show ?thesis by (simp add: get_def remove_inv)
  next
    case True
    note D = store_inv_butD [OF inv]
    let ?t = "next_tick st" and ?st = "snd (get k now st)"
    let ?r = "AList.delete (slot_tick s) (recency st)"
    have old: "(slot_tick s, k) \<in> set (recency st)" using D(3) Some by blast
    have "distinct (map fst (recency st))" using D(2) by (simp add: strict_sorted_iff)
    with old have "map_of (recency st) (slot_tick s) = Some k" by simp
    moreover have below: "\<forall>u \<in> set (map fst ?r). u < ?t"
      using recency_below_tick [OF inv] by (force simp: AList.delete_eq)
    ultimately have r: "recency ?st = ?r @ [(?t, k)]"
      using Some True by (simp add: get_def Let_def bt_insert_last)
    have es: "entries ?st = AList.update k (s\<lparr>slot_tick := ?t\<rparr>) (entries st)"
      and eq: "tag_index ?st = tag_index st" "user_index ?st = user_index st"
        "store_bytes ?st = store_bytes st" "next_tick ?st = ?t + 1"
      using Some True tick by (simp_all add: get_def Let_def)
    have m: "map_of (entries ?st) = (map_of (entries st))(k \<mapsto> s\<lparr>slot_tick := ?t\<rparr>)"
      by (simp add: es AList.update_conv')
    have rec: "(t, k') \<in> set (recency ?st) \<longleftrightarrow>
        (\<exists>s'. map_of (entries ?st) k' = Some s' \<and> slot_tick s' = t)" for t k'
    proof (cases "k' = k")
      case True
      have "(t, k) \<in> set (recency st) \<longleftrightarrow> t = slot_tick s" using D(3) [of t k] Some by auto
      with True show ?thesis by (auto simp: r m mem_delete)
    next
      case False
      have "(slot_tick s, k') \<notin> set (recency st)" using False old recency_functional [OF inv] by blast
      with False D(3) [of t k'] show ?thesis by (auto simp: r m mem_delete simp del: map_of_eq_Some_iff)
    qed
    have ticks: "slot_tick s' < next_tick ?st" if "map_of (entries ?st) k' = Some s'" for k' s'
      using that D(4) [of k' s'] by (auto simp: m eq simp del: map_of_eq_Some_iff split: if_splits)
    have tg: "tags_of (entries ?st) k' = tags_of (entries st) k'"
      and us: "users_of (entries ?st) k' = users_of (entries st) k'" for k'
      using Some by (auto simp: tags_of_def users_of_def m)
    have "sorted_wrt (<) (map fst (recency ?st))"
      using sorted_wrt_delete_fst [OF D(2), of "slot_tick s"] below by (simp add: r sorted_wrt_append)
    moreover have "distinct (map fst (entries ?st))" using D(1) by (simp add: es distinct_update)
    moreover have "store_bytes ?st = total_bytes (entries ?st)"
      using D(7) Some by (simp only: eq es total_bytes_retick)
    ultimately show ?thesis
      using D(5,6) rec ticks unfolding store_inv_but_def eq tg us by blast
  qed
qed

lemma get_result:
  "fst (get k now st) =
     (case map_of (entries st) k of Some s \<Rightarrow> if live s now then Some (slot_value s) else None | None \<Rightarrow> None)"
  by (simp add: get_def Let_def split: option.splits)

lemma store_inv_but_removed:
  assumes inv: "store_inv_but T U st"
    and T: "\<And>k. tags_of (entries st) k \<inter> T = {}" and U: "\<And>k. users_of (entries st) k \<inter> U = {}"
  shows "store_inv st"
proof -
  have "tags_of (entries st) k - T = tags_of (entries st) k - {}"
    and "users_of (entries st) k - U = users_of (entries st) k - {}" for k
    using T U by blast+
  with inv show ?thesis by (simp add: store_inv_but_def del: map_of_eq_Some_iff)
qed

text \<open>The names an entry carries in the index a call looks at.\<close>

definition names_of :: "bool \<Rightarrow> ('k, 'v) store \<Rightarrow> 'k \<Rightarrow> string set" where
  "names_of users st k = (if users then users_of (entries st) k else tags_of (entries st) k)"

lemma take_indexed_keys:
  assumes inv: "store_inv st" and keys: "drain_keys (if users then user_index st else tag_index st) names [] = (keys, index)"
  shows "set keys = {k. names_of users st k \<inter> set names \<noteq> {}}" and "distinct keys"
    and "store_inv_but (if users then {} else set names) (if users then set names else {})
           (if users then st\<lparr>user_index := index\<rparr> else st\<lparr>tag_index := index\<rparr>)"
proof -
  note D = store_inv_butD [OF inv]
  note dk = drain_keys_set [OF keys]
  show "set keys = {k. names_of users st k \<inter> set names \<noteq> {}}"
    using dk D(5,6) by (auto simp: names_of_def index_ok_def split: if_splits)
  show "distinct keys" using dk by simp
  show "store_inv_but (if users then {} else set names) (if users then set names else {})
           (if users then st\<lparr>user_index := index\<rparr> else st\<lparr>tag_index := index\<rparr>)"
    using dk D inv by (auto simp: store_inv_but_def index_ok_def split: if_splits simp del: map_of_eq_Some_iff)
qed

lemma take_indexed_spec:
  assumes inv: "store_inv st" and r: "take_indexed users names st = (n, st')"
  shows "store_inv st'"
    and "map_of (entries st') =
      (\<lambda>k. if names_of users st k \<inter> set names = {} then map_of (entries st) k else None)"
    and "n = card {k. names_of users st k \<inter> set names \<noteq> {}}"
    and "next_tick st' = next_tick st"
proof -
  obtain keys index where dk: "drain_keys (if users then user_index st else tag_index st) names [] = (keys, index)"
    by fastforce
  note K = take_indexed_keys [OF inv dk]
  let ?st = "if users then st\<lparr>user_index := index\<rparr> else st\<lparr>tag_index := index\<rparr>"
  have n: "n = length keys" and st': "st' = remove_all keys ?st"
    using r dk by (auto simp: take_indexed_def)
  show m: "map_of (entries st') =
      (\<lambda>k. if names_of users st k \<inter> set names = {} then map_of (entries st) k else None)"
    by (auto simp: st' entries_remove_all K(1))
  show "n = card {k. names_of users st k \<inter> set names \<noteq> {}}"
    using K(1,2) distinct_card n by metis
  show "next_tick st' = next_tick st" by (simp add: st' next_tick_remove_all)
  show "store_inv st'"
  proof (rule store_inv_but_removed)
    show "store_inv_but (if users then {} else set names) (if users then set names else {}) st'"
      unfolding st' using remove_all_inv [OF K(3)] .
  qed (auto simp: tags_of_def users_of_def m names_of_def split: if_splits option.splits)
qed

lemma take_tagged_where_spec:
  assumes inv: "store_inv st" and r: "take_tagged_where names keep st = (n, st')"
  shows "store_inv st'"
    and "map_of (entries st') =
      (\<lambda>k. if tags_of (entries st) k \<inter> set names \<noteq> {} \<and> keep k then None else map_of (entries st) k)"
    and "n = card {k. tags_of (entries st) k \<inter> set names \<noteq> {} \<and> keep k}"
    and "next_tick st' = next_tick st"
proof -
  let ?keys = "filter keep (collect_keys (tag_index st) names [])"
  have st': "st' = remove_all ?keys st" and n: "n = length ?keys"
    using r by (auto simp: take_tagged_where_def Let_def)
  have keys: "set ?keys = {k. tags_of (entries st) k \<inter> set names \<noteq> {} \<and> keep k}"
    using store_inv_butD(5) [OF inv] by (auto simp: set_collect_keys index_ok_def)
  show "store_inv st'" unfolding st' by (rule remove_all_inv [OF inv])
  show "map_of (entries st') =
      (\<lambda>k. if tags_of (entries st) k \<inter> set names \<noteq> {} \<and> keep k then None else map_of (entries st) k)"
    unfolding st' entries_remove_all keys by auto
  have "distinct ?keys" by (simp add: distinct_collect_keys)
  then show "n = card {k. tags_of (entries st) k \<inter> set names \<noteq> {} \<and> keep k}"
    using keys distinct_card n by metis
  show "next_tick st' = next_tick st" by (simp add: st' next_tick_remove_all)
qed


lemma remove_counting_spec:
  "remove_counting now ks n st =
     (n + length (filter (\<lambda>k. \<exists>s. map_of (entries st) k = Some s \<and> live s now) (remdups ks)), remove_all ks st)"
  if "distinct ks"
  using that
proof (induction ks arbitrary: n st)
  case (Cons k ks)
  have "k' \<in> set ks \<Longrightarrow> map_of (entries (snd (remove k st))) k' = map_of (entries st) k'" for k'
    using Cons.prems by (auto simp: entries_remove)
  then have "filter (\<lambda>k'. \<exists>s. map_of (entries (snd (remove k st))) k' = Some s \<and> live s now) ks =
      filter (\<lambda>k'. \<exists>s. map_of (entries st) k' = Some s \<and> live s now) ks"
    by (intro filter_cong) auto
  moreover obtain removed st' where "remove k st = (removed, st')" by fastforce
  moreover from this have "removed = map_of (entries st) k" using fst_remove [of k st] by simp
  ultimately show ?case
    using Cons by (auto simp: distinct_remdups_id split: option.splits)
qed simp

lemma remove_where_spec:
  assumes inv: "store_inv st" and r: "remove_where now hit st = (n, st')"
  shows "store_inv st'"
    and "map_of (entries st') = (\<lambda>k. if hit k then None else map_of (entries st) k)"
    and "n = card {k. hit k \<and> (\<exists>s. map_of (entries st) k = Some s \<and> live s now)}"
    and "next_tick st' = next_tick st"
proof -
  let ?ks = "filter hit (map fst (entries st))"
  have d: "distinct ?ks" using store_inv_butD(1) [OF inv] by simp
  note eq = r [unfolded remove_where_def remove_counting_spec [OF d]]
  have st': "st' = remove_all ?ks st" using eq by simp
  show "store_inv st'" unfolding st' by (rule remove_all_inv [OF inv])
  show "next_tick st' = next_tick st" by (simp add: st' next_tick_remove_all)
  show "map_of (entries st') = (\<lambda>k. if hit k then None else map_of (entries st) k)"
  proof
    fix k
    have "map_of (entries st) k = None" if "k \<notin> fst ` set (entries st)"
      using that by (simp add: map_of_eq_None_iff)
    then show "map_of (entries st') k = (if hit k then None else map_of (entries st) k)"
      by (auto simp: st' entries_remove_all)
  qed
  let ?live = "\<lambda>k. \<exists>s. map_of (entries st) k = Some s \<and> live s now"
  have "set (filter ?live ?ks) = {k. hit k \<and> ?live k}"
    using map_of_eq_None_iff [of "entries st"] by (auto simp del: map_of_eq_Some_iff) (metis option.distinct(1))
  moreover have "n = length (filter ?live ?ks)" using eq d by (simp add: distinct_remdups_id)
  moreover have "length (filter ?live ?ks) = card (set (filter ?live ?ks))"
    using d by (intro distinct_card [symmetric]) (rule distinct_filter)
  ultimately show "n = card {k. hit k \<and> ?live k}" by (simp only:)
qed

lemma clear_inv: "store_inv (clear st)"
  by (simp add: store_inv_but_def clear_def total_bytes_def tags_of_def users_of_def)

lemma entries_clear [simp]: "entries (clear st) = []" "next_tick (clear st) = next_tick st"
  by (simp_all add: clear_def)

lemma next_tick_evict [store_simps]: "store_inv st \<Longrightarrow> next_tick (evict c m st) = next_tick st"
  by (induction st rule: evict_induct [of _ c m]) (simp_all add: next_tick_remove)

lemma next_tick_insert:
  assumes "store_inv st" and "next_tick st + 1 < u64_mod" and "store_bytes st + b < usize_mod"
  shows "next_tick (insert k v e ts u b now c m st) = next_tick st + 1"
  using next_tick_evict [OF put_after_sweep_inv [OF assms]] assms(2)
  by (simp add: insert_put store_simps)

lemma next_tick_get:
  "next_tick st + 1 < u64_mod \<Longrightarrow> next_tick (snd (get k now st)) \<le> next_tick st + 1"
  by (simp add: get_def Let_def next_tick_remove split: option.splits)

lemma insert_lookup:
  assumes "store_inv st" and "next_tick st + 1 < u64_mod" and "store_bytes st + b < usize_mod"
    and "1 \<le> c" and "b \<le> m"
  shows "\<exists>s. map_of (entries (insert k v e ts u b now c m st)) k = Some s \<and>
    slot_value s = v \<and> expires_ns s = e \<and> slot_tags s = ts \<and> slot_user_key s = u"
proof -
  let ?st = "sweep now (snd (remove k st))"
  let ?s = "\<lparr>slot_value = v, expires_ns = e, slot_tags = ts, slot_user_key = u,
         slot_tick = next_tick ?st, slot_bytes = b\<rparr>"
  have "store_inv ?st" by (simp add: assms(1) remove_inv sweep_inv)
  then have "last (recency (put k v e ts u b ?st)) = (slot_tick ?s, k)" by (simp add: recency_put)
  then have "map_of (entries (insert k v e ts u b now c m st)) k = Some ?s"
    unfolding insert_put
    by (intro evict_keeps_newest [OF put_after_sweep_inv [OF assms(1-3)]])
      (use assms(4,5) in \<open>simp_all add: entries_put del: map_of_eq_Some_iff\<close>)
  then show ?thesis by simp
qed

text \<open>An insertion never brings back or changes another key's entry.\<close>

lemma insert_other:
  assumes "store_inv st" and "next_tick st + 1 < u64_mod" and "store_bytes st + b < usize_mod"
    and "k' \<noteq> k" and "map_of (entries (insert k v e ts u b now c m st)) k' = Some s"
  shows "map_of (entries st) k' = Some s"
proof -
  let ?st = "put k v e ts u b (sweep now (snd (remove k st)))"
  obtain n where "map_of (entries (evict c m ?st)) =
      (\<lambda>x. if x \<in> snd ` set (take n (recency ?st)) then None else map_of (entries ?st) x)"
    using evict_prefix [OF put_after_sweep_inv [OF assms(1-3)]] by blast
  with assms(5) have "map_of (entries ?st) k' = Some s"
    unfolding insert_put by (simp del: map_of_eq_Some_iff split: if_splits)
  with assms(4) have "map_of (entries (sweep now (snd (remove k st)))) k' = Some s"
    by (simp add: entries_put del: map_of_eq_Some_iff)
  with assms(4) entries_sweep [of now "snd (remove k st)" k'] show ?thesis
    by (simp add: entries_remove del: map_of_eq_Some_iff)
qed


section \<open>Sequences of operations\<close>

text \<open>What the two caches do to a store, one constructor per method of \<^verbatim>\<open>Store\<close> that changes it.\<close>

datatype ('k, 'v) store_op =
    Insert 'k 'v "nat option" "string list" "string option" nat nat
  | Get 'k nat
  | Reap nat
  | TakeIndexed bool "string list"
  | TakeTaggedWhere "string list" "'k \<Rightarrow> bool"
  | RemoveWhere nat "'k \<Rightarrow> bool"
  | Clear

fun store_step :: "nat \<Rightarrow> nat \<Rightarrow> ('k, 'v) store_op \<Rightarrow> ('k, 'v) store \<Rightarrow> ('k, 'v) store" where
  "store_step capacity max_bytes (Insert k v e ts u b now) st = insert k v e ts u b now capacity max_bytes st"
| "store_step capacity max_bytes (Get k now) st = snd (get k now st)"
| "store_step capacity max_bytes (Reap now) st = reap now st"
| "store_step capacity max_bytes (TakeIndexed users names) st = snd (take_indexed users names st)"
| "store_step capacity max_bytes (TakeTaggedWhere names keep) st = snd (take_tagged_where names keep st)"
| "store_step capacity max_bytes (RemoveWhere now hit) st = snd (remove_where now hit st)"
| "store_step capacity max_bytes Clear st = clear st"

fun op_bytes :: "('k, 'v) store_op \<Rightarrow> nat" where
  "op_bytes (Insert k v e ts u b now) = b"
| "op_bytes _ = 0"

definition within :: "nat \<Rightarrow> nat \<Rightarrow> ('k, 'v) store \<Rightarrow> bool" where
  "within capacity max_bytes st \<longleftrightarrow> length (entries st) \<le> capacity \<and> store_bytes st \<le> max_bytes"

lemma within_remove_all:
  assumes "store_inv_but T U st"
  shows "within c m st \<Longrightarrow> within c m (remove_all ks st)"
  using assms
proof (induction ks arbitrary: st)
  case (Cons k ks)
  have "length (entries (snd (remove k st))) \<le> length (entries st)"
    by (simp add: remove_def AList.delete_eq split: option.splits)
  then have "within c m (snd (remove k st))"
    using Cons.prems(1) store_bytes_remove_le [OF Cons.prems(2), of k] by (simp add: within_def)
  from Cons.IH [OF this remove_inv [OF Cons.prems(2)]] show ?case by simp
qed simp

lemma within_take_indexed:
  assumes inv: "store_inv st" and "within c m st"
  shows "within c m (snd (take_indexed users names st))"
proof -
  obtain keys index where dk: "drain_keys (if users then user_index st else tag_index st) names [] = (keys, index)"
    by fastforce
  have "within c m (if users then st\<lparr>user_index := index\<rparr> else st\<lparr>tag_index := index\<rparr>)"
    using assms(2) by (simp add: within_def)
  from within_remove_all [OF take_indexed_keys(3) [OF inv dk] this, of keys] show ?thesis
    by (auto simp: take_indexed_def dk split del: if_split)
qed

lemma within_remove_counting:
  "store_inv st \<Longrightarrow> within c m st \<Longrightarrow> distinct ks \<Longrightarrow> within c m (snd (remove_counting now ks n st))"
  by (simp add: remove_counting_spec within_remove_all)

lemma length_update_present: "map_of es k = Some s \<Longrightarrow> length (AList.update k s' es) = length es"
  by (induction es) (auto split: if_splits)

lemma within_get: "store_inv st \<Longrightarrow> within c m st \<Longrightarrow> within c m (snd (get k now st))"
  using within_remove_all [of "{}" "{}" st c m "[k]"]
  by (auto simp: get_def Let_def within_def length_update_present
      simp del: map_of_eq_Some_iff split: option.splits)

lemma store_step_inv:
  assumes inv: "store_inv st" and w: "within c m st" and t: "next_tick st + 1 < u64_mod"
    and b: "m + op_bytes op < usize_mod"
  shows "store_inv (store_step c m op st) \<and> within c m (store_step c m op st) \<and>
    next_tick (store_step c m op st) \<le> next_tick st + 1"
proof (cases op)
  case (Insert k v e ts u nb now)
  then have room: "store_bytes st + nb < usize_mod" using b w by (simp add: within_def)
  show ?thesis
    using Insert insert_inv [OF inv t room] insert_bounds [OF inv t room] next_tick_insert [OF inv t room]
    by (simp add: within_def)
next
  case (Get k now)
  with inv w t show ?thesis using get_inv [OF inv t] within_get [OF inv w] next_tick_get [OF t] by simp
next
  case (Reap now)
  with inv w show ?thesis
    using reap_inv [OF inv] within_remove_all [OF inv w] by (simp add: reap_def next_tick_remove_all)
next
  case (TakeIndexed users names)
  obtain n st' where r: "take_indexed users names st = (n, st')" by fastforce
  show ?thesis
    using TakeIndexed r take_indexed_spec(1,4) [OF inv r] within_take_indexed [OF inv w, of users names] by simp
next
  case (TakeTaggedWhere names keep)
  obtain n st' where r: "take_tagged_where names keep st = (n, st')" by fastforce
  show ?thesis
    using TakeTaggedWhere r take_tagged_where_spec(1,4) [OF inv r] within_remove_all [OF inv w]
    by (auto simp: take_tagged_where_def Let_def)
next
  case (RemoveWhere now hit)
  obtain n st' where r: "remove_where now hit st = (n, st')" by fastforce
  have "distinct (filter hit (map fst (entries st)))" using store_inv_butD(1) [OF inv] by simp
  from within_remove_counting [OF inv w this, of now 0] show ?thesis
    using RemoveWhere r remove_where_spec(1,4) [OF inv r] by (simp add: remove_where_def)
next
  case Clear
  then show ?thesis by (simp add: clear_inv within_def) (simp add: clear_def)
qed


section \<open>The abstract LRU list\<close>

text \<open>
  What a store promises: a list of entries from the least to the most recently used. The indexes, ticks and byte
  counter of the implementation are gone; \<open>lru_view\<close> is the abstraction function.
\<close>

type_synonym ('k, 'v) lru = "('k \<times> 'v slot) list"

definition untick :: "'v slot \<Rightarrow> 'v slot" where
  "untick s = s\<lparr>slot_tick := 0\<rparr>"

definition lru_view :: "('k, 'v) store \<Rightarrow> ('k, 'v) lru" where
  "lru_view st = map (\<lambda>(t, k). (k, untick (the (map_of (entries st) k)))) (recency st)"

fun lru_trim :: "nat \<Rightarrow> nat \<Rightarrow> ('k, 'v) lru \<Rightarrow> ('k, 'v) lru" where
  "lru_trim c m [] = []"
| "lru_trim c m (x # xs) =
     (if c < length (x # xs) \<or> m < total_bytes (x # xs) then lru_trim c m xs else x # xs)"

definition carries :: "bool \<Rightarrow> string list \<Rightarrow> 'v slot \<Rightarrow> bool" where
  "carries users names s \<longleftrightarrow>
     (if users then (case slot_user_key s of None \<Rightarrow> False | Some u \<Rightarrow> u \<in> set names)
      else list_ex (\<lambda>t. t \<in> set names) (slot_tags s))"

fun lru_step :: "nat \<Rightarrow> nat \<Rightarrow> ('k, 'v) store_op \<Rightarrow> ('k, 'v) lru \<Rightarrow> ('k, 'v) lru" where
  "lru_step c m (Insert k v e ts u b now) xs =
     (let ys = AList.delete k xs;
          zs = filter (\<lambda>(_, s). live s now) (take SWEEP ys) @ drop SWEEP ys
      in lru_trim c m (zs @ [(k, \<lparr>slot_value = v, expires_ns = e, slot_tags = ts, slot_user_key = u,
                                slot_tick = 0, slot_bytes = b\<rparr>)]))"
| "lru_step c m (Get k now) xs =
     (case map_of xs k of
        None \<Rightarrow> xs
      | Some s \<Rightarrow> AList.delete k xs @ (if live s now then [(k, s)] else []))"
| "lru_step c m (Reap now) xs = filter (\<lambda>(_, s). live s now) xs"
| "lru_step c m (TakeIndexed users names) xs = filter (\<lambda>(_, s). \<not> carries users names s) xs"
| "lru_step c m (TakeTaggedWhere names keep) xs = filter (\<lambda>(k, s). \<not> (carries False names s \<and> keep k)) xs"
| "lru_step c m (RemoveWhere now hit) xs = filter (\<lambda>(k, _). \<not> hit k) xs"
| "lru_step c m Clear xs = []"

lemma untick_simps [simp]:
  "slot_value (untick s) = slot_value s" "expires_ns (untick s) = expires_ns s"
  "slot_tags (untick s) = slot_tags s" "slot_user_key (untick s) = slot_user_key s"
  "slot_bytes (untick s) = slot_bytes s" "live (untick s) now = live s now"
  "untick (s\<lparr>slot_tick := t\<rparr>) = untick s" "untick (untick s) = untick s"
  by (simp_all add: untick_def live_def)

lemma carries_untick [simp]: "carries users names (untick s) = carries users names s"
  by (simp add: carries_def)

lemma carries_names_of:
  "map_of (entries st) k = Some s \<Longrightarrow> carries users names s \<longleftrightarrow> names_of users st k \<inter> set names \<noteq> {}"
  by (auto simp: carries_def names_of_def tags_of_def users_of_def list_ex_iff split: option.splits)

lemma distinct_of_map: "distinct (map f xs) \<Longrightarrow> distinct xs"
  by (simp add: distinct_map)

lemma distinct_recency_keys:
  assumes "store_inv_but T U st"
  shows "distinct (map snd (recency st))"
proof -
  note D = store_inv_butD [OF assms]
  have "distinct (recency st)"
    using D(2) distinct_of_map strict_sorted_iff by blast
  moreover have "inj_on snd (set (recency st))"
  proof (rule inj_onI)
    fix x y assume "x \<in> set (recency st)" "y \<in> set (recency st)" "snd x = snd y"
    with D(3) [of "fst x" "snd x"] D(3) [of "fst y" "snd y"] show "x = y" by (cases x; cases y) auto
  qed
  ultimately show ?thesis by (simp add: distinct_map)
qed

lemma fst_lru_view: "map fst (lru_view st) = map snd (recency st)"
  by (simp add: lru_view_def comp_def case_prod_beta)

lemma mem_lru_view:
  assumes "store_inv_but T U st"
  shows "(k, s) \<in> set (lru_view st) \<longleftrightarrow> (\<exists>s'. map_of (entries st) k = Some s' \<and> s = untick s')"
proof
  assume "(k, s) \<in> set (lru_view st)"
  then obtain t where "(t, k) \<in> set (recency st)" and s: "s = untick (the (map_of (entries st) k))"
    by (auto simp: lru_view_def)
  with store_inv_butD(3) [OF assms, of t k] show "\<exists>s'. map_of (entries st) k = Some s' \<and> s = untick s'"
    by auto
next
  assume "\<exists>s'. map_of (entries st) k = Some s' \<and> s = untick s'"
  then obtain s' where s': "map_of (entries st) k = Some s'" "s = untick s'" by blast
  then have "(slot_tick s', k) \<in> set (recency st)" using store_inv_butD(3) [OF assms] by blast
  with s' show "(k, s) \<in> set (lru_view st)" by (force simp: lru_view_def)
qed

lemma map_of_lru_view:
  assumes "store_inv_but T U st"
  shows "map_of (lru_view st) k = map_option untick (map_of (entries st) k)"
proof -
  have d: "distinct (map fst (lru_view st))" using distinct_recency_keys [OF assms] by (simp add: fst_lru_view)
  show ?thesis
  proof (cases "map_of (entries st) k")
    case None
    then have "k \<notin> fst ` set (lru_view st)" using mem_lru_view [OF assms] by force
    then have "map_of (lru_view st) k = None" by (simp add: map_of_eq_None_iff)
    with None show ?thesis by simp
  next
    case (Some s)
    then have "(k, untick s) \<in> set (lru_view st)" using mem_lru_view [OF assms] by blast
    with d Some show ?thesis by simp
  qed
qed

lemma mset_lru_view:
  assumes "store_inv_but T U st"
  shows "mset (lru_view st) = mset (map (\<lambda>(k, s). (k, untick s)) (entries st))"
proof -
  note D = store_inv_butD [OF assms]
  have "distinct (map fst (lru_view st))" using distinct_recency_keys [OF assms] by (simp add: fst_lru_view)
  then have "distinct (lru_view st)" by (rule distinct_of_map)
  moreover have "distinct (map fst (map (\<lambda>(k, s). (k, untick s)) (entries st)))"
    using D(1) by (simp add: comp_def case_prod_beta)
  then have "distinct (map (\<lambda>(k, s). (k, untick s)) (entries st))" by (rule distinct_of_map)
  moreover have "(k, s) \<in> set (lru_view st) \<longleftrightarrow> (k, s) \<in> set (map (\<lambda>(k, s). (k, untick s)) (entries st))" for k s
    unfolding mem_lru_view [OF assms] using D(1) by auto
  then have "set (lru_view st) = set (map (\<lambda>(k, s). (k, untick s)) (entries st))" by auto
  ultimately show ?thesis using set_eq_iff_mset_eq_distinct by blast
qed

lemma size_lru_view:
  assumes "store_inv_but T U st"
  shows "length (lru_view st) = length (entries st)" and "total_bytes (lru_view st) = store_bytes st"
proof -
  note M = mset_lru_view [OF assms]
  show "length (lru_view st) = length (entries st)" using arg_cong [OF M, of size] by simp
  have "sum_list (map (slot_bytes \<circ> snd) (lru_view st)) =
      sum_list (map (slot_bytes \<circ> snd) (map (\<lambda>(k, s). (k, untick s)) (entries st)))"
    using arg_cong [OF M, of "\<lambda>M. sum_mset (image_mset (slot_bytes \<circ> snd) M)"]
    by (simp only: mset_map [symmetric] sum_mset_sum_list)
  then show "total_bytes (lru_view st) = store_bytes st"
    using store_inv_butD(7) [OF assms] by (simp add: total_bytes_def comp_def case_prod_beta)
qed


section \<open>The store refines the LRU list\<close>

lemma lru_view_remove:
  assumes "store_inv_but T U st"
  shows "lru_view (snd (remove k st)) = AList.delete k (lru_view st)"
proof (cases "map_of (entries st) k")
  case None
  then have "k \<notin> fst ` set (lru_view st)"
    using map_of_lru_view [OF assms, of k] by (simp flip: map_of_eq_None_iff)
  with None show ?thesis by (simp add: remove_absent AList.delete_id)
next
  case (Some s)
  note D = store_inv_butD [OF assms]
  have iff: "t \<noteq> slot_tick s \<longleftrightarrow> k' \<noteq> k" if "(t, k') \<in> set (recency st)" for t k'
  proof -
    have "(slot_tick s, k) \<in> set (recency st)" using D(3) Some by blast
    then show ?thesis using that recency_functional [OF assms] D(3) [of t k'] Some by auto
  qed
  have "AList.delete (slot_tick s) (recency st) = filter (\<lambda>(t, k'). k' \<noteq> k) (recency st)"
    unfolding AList.delete_eq using iff by (intro filter_cong) auto
  then have r: "recency (snd (remove k st)) = filter (\<lambda>(t, k'). k' \<noteq> k) (recency st)"
    using Some by (simp add: remove_def)
  show ?thesis
    unfolding lru_view_def r entries_remove AList.delete_eq filter_map
    by (intro map_cong filter_cong) (auto simp: comp_def case_prod_beta)
qed

lemma lru_view_remove_all:
  "store_inv_but T U st \<Longrightarrow> lru_view (remove_all ks st) = filter (\<lambda>(k, _). k \<notin> set ks) (lru_view st)"
proof (induction ks arbitrary: st)
  case (Cons k ks)
  from Cons.IH [OF remove_inv [OF Cons.prems]] lru_view_remove [OF Cons.prems] show ?case
    by (auto simp: AList.delete_eq case_prod_beta intro!: filter_cong)
qed (simp add: filter_id_conv)

lemma lru_view_evict: "store_inv st \<Longrightarrow> lru_view (evict c m st) = lru_trim c m (lru_view st)"
proof (induction st rule: evict_induct [of _ c m])
  case (Done st)
  then have "length (lru_view st) \<le> c" "total_bytes (lru_view st) \<le> m"
    using size_lru_view [OF Done(1)] by simp_all
  then have "lru_trim c m (lru_view st) = lru_view st" by (cases "lru_view st") auto
  with Done show ?case by simp
next
  case (Step st t k rest)
  have "k \<notin> snd ` set rest" using distinct_recency_keys [OF Step(1)] Step(2) by simp
  then have "AList.delete k (lru_view st) = tl (lru_view st)"
    using Step(2) by (force simp: lru_view_def AList.delete_eq filter_id_conv)
  moreover have "lru_view st \<noteq> []" using Step(2) by (simp add: lru_view_def)
  moreover have "c < length (lru_view st) \<or> m < total_bytes (lru_view st)"
    using Step(3) size_lru_view [OF Step(1)] by simp
  ultimately have "lru_trim c m (lru_view st) = lru_trim c m (AList.delete k (lru_view st))"
    by (cases "lru_view st") auto
  with Step show ?case by (simp add: lru_view_remove)
qed

lemma lru_view_sweep:
  assumes inv: "store_inv st"
  shows "lru_view (sweep now st) =
    filter (\<lambda>(_, s). live s now) (take SWEEP (lru_view st)) @ drop SWEEP (lru_view st)"
proof -
  let ?xs = "lru_view st" and ?dead = "\<lambda>k. case map_of (entries st) k of None \<Rightarrow> False | Some s \<Rightarrow> \<not> live s now"
  let ?ks = "filter ?dead (take SWEEP (map snd (recency st)))"
  have d: "distinct (map fst ?xs)" using distinct_recency_keys [OF inv] by (simp add: fst_lru_view)
  have ks: "set ?ks = fst ` set (filter (\<lambda>(_, s). \<not> live s now) (take SWEEP ?xs))"
  proof -
    have "?dead k \<longleftrightarrow> \<not> live s now" if "(k, s) \<in> set (take SWEEP ?xs)" for k s
      using in_set_takeD [OF that] mem_lru_view [OF inv, of k s] by auto
    then have "filter (?dead \<circ> fst) (take SWEEP ?xs) = filter (\<lambda>(_, s). \<not> live s now) (take SWEEP ?xs)"
      by (intro filter_cong refl) (simp add: case_prod_beta)
    moreover have "take SWEEP (map snd (recency st)) = map fst (take SWEEP ?xs)"
      by (simp add: take_map [symmetric] fst_lru_view)
    then have "?ks = map fst (filter (?dead \<circ> fst) (take SWEEP ?xs))" by (simp add: filter_map)
    ultimately show ?thesis by simp
  qed
  have split: "?xs = take SWEEP ?xs @ drop SWEEP ?xs" by simp
  have disj: "fst ` set (take SWEEP ?xs) \<inter> fst ` set (drop SWEEP ?xs) = {}"
    using d by (subst (asm) split) (simp del: append_take_drop_id)
  have inj: "s = s'" if "(k, s) \<in> set (take SWEEP ?xs)" "(k, s') \<in> set (take SWEEP ?xs)" for k s s'
    using that d by (meson eq_key_imp_eq_value in_set_takeD)
  have alive: "k \<notin> set ?ks \<longleftrightarrow> live s now" if "(k, s) \<in> set (take SWEEP ?xs)" for k s
  proof -
    have "k \<in> set ?ks \<longleftrightarrow> (\<exists>s'. (k, s') \<in> set (take SWEEP ?xs) \<and> \<not> live s' now)"
      unfolding ks by force
    with inj [OF that] that show ?thesis by blast
  qed
  have "lru_view (sweep now st) = filter (\<lambda>(k, _). k \<notin> set ?ks) ?xs"
    unfolding sweep_def by (rule lru_view_remove_all [OF inv])
  also have "\<dots> = filter (\<lambda>(k, _). k \<notin> set ?ks) (take SWEEP ?xs) @ filter (\<lambda>(k, _). k \<notin> set ?ks) (drop SWEEP ?xs)"
    by (subst split) (simp only: filter_append)
  also have "filter (\<lambda>(k, _). k \<notin> set ?ks) (drop SWEEP ?xs) = drop SWEEP ?xs"
    using disj unfolding ks filter_id_conv by force
  also have "filter (\<lambda>(k, _). k \<notin> set ?ks) (take SWEEP ?xs) = filter (\<lambda>(_, s). live s now) (take SWEEP ?xs)"
    using alive by (intro filter_cong refl) auto
  finally show ?thesis .
qed

lemma lru_view_put:
  assumes "store_inv st" and "map_of (entries st) k = None"
  shows "lru_view (put k v e ts u b st) = lru_view st @
    [(k, \<lparr>slot_value = v, expires_ns = e, slot_tags = ts, slot_user_key = u, slot_tick = 0, slot_bytes = b\<rparr>)]"
proof -
  have "k' \<noteq> k" if "(t, k') \<in> set (recency st)" for t k'
    using that assms(2) store_inv_butD(3) [OF assms(1), of t k'] by auto
  then show ?thesis
    by (auto simp: lru_view_def recency_put [OF assms(1)] entries_put untick_def)
qed


lemma lru_view_insert:
  assumes inv: "store_inv st" and t: "next_tick st + 1 < u64_mod" and b: "store_bytes st + b < usize_mod"
  shows "lru_view (insert k v e ts u b now c m st) = lru_step c m (Insert k v e ts u b now) (lru_view st)"
proof -
  let ?st = "sweep now (snd (remove k st))"
  note inv' = remove_inv [OF inv, of k]
  have "map_of (entries ?st) k = None"
    using entries_sweep [of now "snd (remove k st)" k] by (auto simp: entries_remove)
  with inv' have "lru_view (put k v e ts u b ?st) = lru_view ?st @
    [(k, \<lparr>slot_value = v, expires_ns = e, slot_tags = ts, slot_user_key = u, slot_tick = 0, slot_bytes = b\<rparr>)]"
    by (intro lru_view_put sweep_inv)
  then show ?thesis
    unfolding insert_put lru_view_evict [OF put_after_sweep_inv [OF assms]]
    by (simp add: lru_view_sweep [OF inv'] lru_view_remove [OF inv] Let_def)
qed

lemma lru_view_get:
  assumes inv: "store_inv st"
  shows "lru_view (snd (get k now st)) = lru_step c m (Get k now) (lru_view st)"
proof (cases "map_of (entries st) k")
  case None
  then show ?thesis using map_of_lru_view [OF inv, of k] by (simp add: get_def)
next
  case (Some s)
  show ?thesis
  proof (cases "live s now")
    case False
    with Some show ?thesis using map_of_lru_view [OF inv, of k] lru_view_remove [OF inv, of k] by (simp add: get_def)
  next
    case True
    note D = store_inv_butD [OF inv]
    let ?r = "AList.delete (slot_tick s) (recency st)"
    have "(slot_tick s, k) \<in> set (recency st)" using D(3) Some by blast
    moreover have "distinct (map fst (recency st))" using D(2) by (simp add: strict_sorted_iff)
    ultimately have "map_of (recency st) (slot_tick s) = Some k" by simp
    moreover have "\<forall>x \<in> set (map fst ?r). x < next_tick st"
      using recency_below_tick [OF inv] by (force simp: AList.delete_eq)
    ultimately have r: "recency (snd (get k now st)) = ?r @ [(next_tick st, k)]"
      using Some True by (simp add: get_def Let_def bt_insert_last)
    have m: "map_of (entries (snd (get k now st))) = (map_of (entries st))(k \<mapsto> s\<lparr>slot_tick := next_tick st\<rparr>)"
      using Some True by (simp add: get_def Let_def AList.update_conv')
    have r': "recency (snd (remove k st)) = ?r" using Some by (simp add: remove_def)
    have "AList.delete k (lru_view st) = map (\<lambda>(t, k'). (k', untick (the (map_of (entries (snd (remove k st))) k')))) ?r"
      unfolding lru_view_remove [OF inv, symmetric] by (simp only: lru_view_def r')
    moreover have "k' \<noteq> k" if "(t, k') \<in> set ?r" for t k'
      using that Some D(3) [of t k'] by (auto simp: mem_delete)
    then have "map (\<lambda>(t, k'). (k', untick (the (map_of (entries (snd (remove k st))) k')))) ?r =
        map (\<lambda>(t, k'). (k', untick (the (map_of (entries (snd (get k now st))) k')))) ?r"
      by (intro map_cong refl) (auto simp: m entries_remove)
    ultimately have "lru_view (snd (get k now st)) = AList.delete k (lru_view st) @ [(k, untick s)]"
      by (simp add: lru_view_def r) (simp add: m)
    with True Some map_of_lru_view [OF inv, of k] show ?thesis by simp
  qed
qed

text \<open>Removing the keys a predicate of the entry selects is filtering the view.\<close>

lemma lru_view_filter:
  assumes inv: "store_inv_but T U st"
    and ks: "\<And>k s. map_of (entries st) k = Some s \<Longrightarrow> k \<in> set ks \<longleftrightarrow> P k (untick s)"
  shows "lru_view (remove_all ks st) = filter (\<lambda>(k, s). \<not> P k s) (lru_view st)"
  unfolding lru_view_remove_all [OF inv]
proof (intro filter_cong refl, clarify)
  fix k s assume "(k, s) \<in> set (lru_view st)"
  with ks mem_lru_view [OF inv, of k s] show "(k \<notin> set ks) = (\<not> P k s)" by auto
qed

lemma lru_view_reap: "store_inv st \<Longrightarrow> lru_view (reap now st) = filter (\<lambda>(_, s). live s now) (lru_view st)"
  unfolding reap_def
  by (subst lru_view_filter [where P = "\<lambda>k s. \<not> live s now"])
    (auto simp: case_prod_beta store_inv_butD(1) image_iff dest: eq_key_imp_eq_value [OF store_inv_butD(1)])

lemma lru_view_take_indexed:
  assumes inv: "store_inv st"
  shows "lru_view (snd (take_indexed users names st)) = filter (\<lambda>(_, s). \<not> carries users names s) (lru_view st)"
proof -
  obtain keys index where dk: "drain_keys (if users then user_index st else tag_index st) names [] = (keys, index)"
    by fastforce
  note K = take_indexed_keys [OF inv dk]
  let ?st = "if users then st\<lparr>user_index := index\<rparr> else st\<lparr>tag_index := index\<rparr>"
  have eq: "entries ?st = entries st" "lru_view ?st = lru_view st" by (simp_all add: lru_view_def)
  have "lru_view (remove_all keys ?st) = filter (\<lambda>(_, s). \<not> carries users names s) (lru_view ?st)"
    by (rule lru_view_filter [OF K(3)]) (simp only: eq K(1) carries_untick carries_names_of mem_Collect_eq)
  then show ?thesis by (simp add: take_indexed_def dk eq split del: if_split)
qed

lemma lru_view_take_tagged_where:
  assumes inv: "store_inv st"
  shows "lru_view (snd (take_tagged_where names keep st)) =
    filter (\<lambda>(k, s). \<not> (carries False names s \<and> keep k)) (lru_view st)"
proof -
  have "set (filter keep (collect_keys (tag_index st) names [])) = {k. names_of False st k \<inter> set names \<noteq> {} \<and> keep k}"
    using store_inv_butD(5) [OF inv] by (auto simp: set_collect_keys index_ok_def names_of_def)
  then show ?thesis
    unfolding take_tagged_where_def Let_def snd_conv
    by (intro lru_view_filter [OF inv]) (simp only: carries_untick carries_names_of mem_Collect_eq)
qed

lemma lru_view_remove_where:
  assumes inv: "store_inv st"
  shows "lru_view (snd (remove_where now hit st)) = filter (\<lambda>(k, _). \<not> hit k) (lru_view st)"
proof -
  have d: "distinct (filter hit (map fst (entries st)))" using store_inv_butD(1) [OF inv] by simp
  show ?thesis
    unfolding remove_where_def remove_counting_spec [OF d] snd_conv
    by (rule lru_view_filter [OF inv]) (force dest: map_of_SomeD simp del: map_of_eq_Some_iff)
qed


lemma lru_view_step:
  assumes inv: "store_inv st" and w: "within c m st" and t: "next_tick st + 1 < u64_mod"
    and b: "m + op_bytes op < usize_mod"
  shows "lru_view (store_step c m op st) = lru_step c m op (lru_view st)"
proof (cases op)
  case (Insert k v e ts u nb now)
  then have "store_bytes st + nb < usize_mod" using b w by (simp add: within_def)
  from Insert lru_view_insert [OF inv t this] show ?thesis by simp
qed (simp_all add: lru_view_get [OF inv, where c = c and m = m] lru_view_reap [OF inv]
      lru_view_take_indexed [OF inv] lru_view_take_tagged_where [OF inv] lru_view_remove_where [OF inv]
      del: lru_step.simps(2), simp add: lru_view_def clear_def)

definition store_run :: "nat \<Rightarrow> nat \<Rightarrow> ('k, 'v) store_op list \<Rightarrow> ('k, 'v) store" where
  "store_run c m ops = fold (store_step c m) ops store_new"

definition lru_run :: "nat \<Rightarrow> nat \<Rightarrow> ('k, 'v) store_op list \<Rightarrow> ('k, 'v) lru" where
  "lru_run c m ops = fold (lru_step c m) ops []"

lemma store_run_refines_gen:
  assumes "length ops < u64_mod" and "list_all (\<lambda>op. m + op_bytes op < usize_mod) ops"
  shows "store_inv (store_run c m ops) \<and> within c m (store_run c m ops) \<and>
    next_tick (store_run c m ops) \<le> length ops \<and> lru_view (store_run c m ops) = lru_run c m ops"
  using assms
proof (induction ops rule: rev_induct)
  case Nil
  then show ?case
    using store_inv_new by (simp add: store_run_def lru_run_def within_def) (simp add: store_new_def lru_view_def)
next
  case (snoc op ops)
  then have IH: "store_inv (store_run c m ops)" "within c m (store_run c m ops)"
      "next_tick (store_run c m ops) \<le> length ops" "lru_view (store_run c m ops) = lru_run c m ops"
    by simp_all
  have t: "next_tick (store_run c m ops) + 1 < u64_mod" using IH(3) snoc.prems(1) by simp
  have b: "m + op_bytes op < usize_mod" using snoc.prems(2) by simp
  show ?case
    using store_step_inv [OF IH(1,2) t b] lru_view_step [OF IH(1,2) t b] IH(3,4)
    by (simp add: store_run_def lru_run_def)
qed

section \<open>Properties\<close>

text \<open>
  C19: Run any sequence of operations on a new store, with as many operations as a \<^verbatim>\<open>u64\<close> tick can count and
  entry sizes that do not overflow the byte counter. The store's entries, recency order, tag index, user-key index
  and byte counter stay consistent; it never holds more than \<open>capacity\<close> entries or \<open>max_bytes\<close> bytes; and its
  content, in recency order, is exactly that of the abstract LRU list that runs the same operations.
\<close>

theorem store_run_refines:
  assumes "length ops < u64_mod" and "list_all (\<lambda>op. max_bytes + op_bytes op < usize_mod) ops"
  shows "store_inv (store_run capacity max_bytes ops) \<and>
    length (entries (store_run capacity max_bytes ops)) \<le> capacity \<and>
    store_bytes (store_run capacity max_bytes ops) \<le> max_bytes \<and>
    lru_view (store_run capacity max_bytes ops) = lru_run capacity max_bytes ops"
  using store_run_refines_gen [of ops max_bytes capacity] assms
  by (simp add: within_def)

theorem store_run_refines_witness:
  "store_inv (store_run 1 100 [Insert (1::nat) (7::nat) None [''t''] None 10 0, Insert 2 8 None [''t''] None 10 0]) \<and>
   lru_view (store_run 1 100 [Insert (1::nat) (7::nat) None [''t''] None 10 0, Insert 2 8 None [''t''] None 10 0]) =
     [(2, \<lparr>slot_value = 8, expires_ns = None, slot_tags = [''t''], slot_user_key = None,
           slot_tick = 0, slot_bytes = 10\<rparr>)]"
  using store_run_refines [of "[Insert (1::nat) (7::nat) None [''t''] None 10 0, Insert 2 8 None [''t''] None 10 0]" 100 1]
  by (simp add: u64_mod_def usize_mod_def lru_run_def total_bytes_def SWEEP_def)

text \<open>
  What the operations return, in terms of the abstract list: \<^verbatim>\<open>get\<close> is the live entry of the key,
  \<^verbatim>\<open>take_indexed\<close> and \<^verbatim>\<open>take_tagged_where\<close> count the entries that carry one of the
  names (each once, however many names it carries), \<^verbatim>\<open>remove_where\<close> counts the live hits and
  \<^verbatim>\<open>live_len\<close> the live entries.
\<close>

theorem store_results_refine:
  assumes "store_inv st"
  shows "fst (get k now st) =
      (case map_of (lru_view st) k of
         Some s \<Rightarrow> if live s now then Some (slot_value s) else None | None \<Rightarrow> None) \<and>
    fst (take_indexed users names st) = length (filter (\<lambda>(_, s). carries users names s) (lru_view st)) \<and>
    fst (take_tagged_where names keep st) =
      length (filter (\<lambda>(k, s). carries False names s \<and> keep k) (lru_view st)) \<and>
    fst (remove_where now hit st) = length (filter (\<lambda>(k, s). hit k \<and> live s now) (lru_view st)) \<and>
    live_len now st = length (filter (\<lambda>(_, s). live s now) (lru_view st))"
proof -
  have d: "distinct (map fst (lru_view st))" using distinct_recency_keys [OF assms] by (simp add: fst_lru_view)
  have card: "card {k. \<exists>s. map_of (entries st) k = Some s \<and> P k s} = length (filter (\<lambda>(k, s). P k s) (lru_view st))"
    if P: "\<And>k s. P k (untick s) = P k s" for P
  proof -
    have "{k. \<exists>s. map_of (entries st) k = Some s \<and> P k s} = set (map fst (filter (\<lambda>(k, s). P k s) (lru_view st)))"
      using mem_lru_view [OF assms] P by (force simp del: map_of_eq_Some_iff)
    moreover have "distinct (map fst (filter (\<lambda>(k, s). P k s) (lru_view st)))" using d by (rule distinct_map_filter)
    ultimately show ?thesis by (metis distinct_card length_map)
  qed
  have names: "{k. names_of users st k \<inter> set names \<noteq> {} \<and> Q k} =
      {k. \<exists>s. map_of (entries st) k = Some s \<and> carries users names s \<and> Q k}" for users Q
    using carries_names_of [of st] by (auto simp: names_of_def tags_of_def users_of_def split: option.splits if_splits)
  have 1: "fst (get k now st) =
      (case map_of (lru_view st) k of
         Some s \<Rightarrow> if live s now then Some (slot_value s) else None | None \<Rightarrow> None)"
    by (simp add: get_result map_of_lru_view [OF assms] split: option.splits)
  have 2: "fst (take_indexed users names st) = length (filter (\<lambda>(_, s). carries users names s) (lru_view st))"
    using take_indexed_spec(3) [OF assms, of users names] names [of users "\<lambda>_. True"] card [of "\<lambda>_ s. carries users names s"]
    by (cases "take_indexed users names st") simp
  have 3: "fst (take_tagged_where names keep st) =
      length (filter (\<lambda>(k, s). carries False names s \<and> keep k) (lru_view st))"
    using take_tagged_where_spec(3) [OF assms, of names keep] names [of False keep]
      card [of "\<lambda>k s. carries False names s \<and> keep k"]
    by (cases "take_tagged_where names keep st") (simp add: names_of_def)
  have 4: "fst (remove_where now hit st) = length (filter (\<lambda>(k, s). hit k \<and> live s now) (lru_view st))"
    using remove_where_spec(3) [OF assms, of now hit] card [of "\<lambda>k s. hit k \<and> live s now"]
    by (cases "remove_where now hit st") (simp add: conj_left_commute)
  have "live_len now st = length (filter (\<lambda>(_, s). live s now) (map (\<lambda>(k, s). (k, untick s)) (entries st)))"
    by (simp add: live_len_def filter_map comp_def case_prod_unfold)
  also have "\<dots> = length (filter (\<lambda>(_, s). live s now) (lru_view st))"
    using mset_lru_view [OF assms] by (metis mset_filter size_mset)
  finally show ?thesis using 1 2 3 4 by blast
qed

theorem store_results_refine_witness:
  "fst (get (2::nat) 0 (store_run 1 100 [Insert (1::nat) (7::nat) None [''t''] None 10 0, Insert 2 8 None [''t''] None 10 0])) = Some 8"
proof -
  let ?ops = "[Insert (1::nat) (7::nat) None [''t''] None 10 0, Insert 2 8 None [''t''] None 10 0]"
  have "store_inv (store_run 1 100 ?ops) \<and> lru_view (store_run 1 100 ?ops) = lru_run 1 100 ?ops"
    using store_run_refines_gen [of ?ops 100 1] by (simp add: u64_mod_def usize_mod_def)
  with store_results_refine [of "store_run 1 100 ?ops" 2 0] show ?thesis
    by (simp add: lru_run_def total_bytes_def SWEEP_def live_def)
qed

text \<open>
  An entry that fits the store (a capacity of at least one, a size within the byte limit) is found by a
  \<^verbatim>\<open>get\<close> before its deadline right after it was inserted, whatever was evicted to make room for it; and
  after its deadline it is not.
\<close>

theorem insert_then_get:
  assumes "store_inv st" and "next_tick st + 1 < u64_mod" and "store_bytes st + nbytes < usize_mod"
    and "1 \<le> capacity" and "nbytes \<le> max_bytes"
  shows "fst (get k now' (insert k v expires tags user_key nbytes now capacity max_bytes st)) =
    (case expires of None \<Rightarrow> Some v | Some e \<Rightarrow> if now' < e then Some v else None)"
proof -
  obtain s where "map_of (entries (insert k v expires tags user_key nbytes now capacity max_bytes st)) k = Some s"
    "slot_value s = v" "expires_ns s = expires"
    using insert_lookup [OF assms, of k v expires tags user_key now] by blast
  then show ?thesis by (simp add: get_result live_def del: map_of_eq_Some_iff split: option.splits)
qed

theorem insert_then_get_witness:
  "fst (get ''k'' 5 (insert ''k'' (7::nat) (Some 9) [''t''] None 10 0 1 100 store_new)) = Some 7"
  using insert_then_get [OF store_inv_new, of 10 1 100 "''k''" 5 "7::nat" "Some 9" "[''t'']" None 0]
  by (simp add: store_new_def u64_mod_def usize_mod_def)


end
