(* ===== verification/Stamp.thy ===== *)
theory Stamp
  imports Prelude
begin

text \<open>
  Read stamps (\<^verbatim>\<open>crates/brust-core/src/cache/stamp.rs\<close>): the invalidation clock the page cache and the
  job cache share, and the arrays of hashed slots where an invalidation publishes the clock value it took. The locale
  \<open>stamped_cache\<close> is the contract of \<^verbatim>\<open>host.rs\<close>'s \<^verbatim>\<open>PageCache\<close> and \<^verbatim>\<open>JobStore\<close> traits
  that matters for freshness; its theorem says that no cache that keeps the contract serves an entry rendered
  before a covering invalidation.
\<close>

section \<open>The clock and the slots\<close>

type_synonym inval_clock = nat

definition clock_stamp :: "inval_clock \<Rightarrow> nat" where
  "clock_stamp c = c"

text \<open>\<^verbatim>\<open>fetch_add(1) + 1\<close>: the new value, and the clock holding it.\<close>

definition clock_next :: "inval_clock \<Rightarrow> nat \<times> inval_clock" where
  "clock_next c = (u64_add c 1, u64_add c 1)"

definition INVAL_SLOTS :: nat where
  "INVAL_SLOTS = 256"

definition inval_slots :: "nat list" where
  "inval_slots = replicate INVAL_SLOTS 0"

text \<open>\<^verbatim>\<open>(hash as usize) % INVAL_SLOTS\<close>\<close>

definition slot_of_hash :: "nat \<Rightarrow> nat" where
  "slot_of_hash h = (h mod usize_mod) mod INVAL_SLOTS"

text \<open>\<^verbatim>\<open>publish\<close>: never lowers a slot.\<close>

definition publish :: "nat \<Rightarrow> nat \<Rightarrow> nat list \<Rightarrow> nat list" where
  "publish i sq xs = xs[i := max (xs ! i) sq]"

lemma slot_of_hash_less [simp]: "slot_of_hash h < INVAL_SLOTS"
  by (simp add: slot_of_hash_def INVAL_SLOTS_def)

lemma length_inval_slots [simp]: "length inval_slots = INVAL_SLOTS"
  by (simp add: inval_slots_def)

lemma length_publish [simp]: "length (publish i sq xs) = length xs"
  by (simp add: publish_def)

lemma publish_mono: "xs ! j \<le> publish i sq xs ! j"
  by (cases "j < length xs"; cases "i = j") (simp_all add: publish_def list_update_beyond)

lemma publish_at: "i < length xs \<Longrightarrow> sq \<le> publish i sq xs ! i"
  by (simp add: publish_def)

lemma publish_le: "\<forall>x \<in> set xs. x \<le> c \<Longrightarrow> sq \<le> c \<Longrightarrow> i < length xs \<Longrightarrow> \<forall>x \<in> set (publish i sq xs). x \<le> c"
  using set_update_subset_insert [of xs i "max (xs ! i) sq"] nth_mem [of i xs]
  by (auto simp: publish_def)

text \<open>\<^verbatim>\<open>for t in tags { publish(slot(t), seq) }\<close>\<close>

definition publish_all :: "('a \<Rightarrow> nat) \<Rightarrow> 'a list \<Rightarrow> nat \<Rightarrow> nat list \<Rightarrow> nat list" where
  "publish_all slot ts sq xs = fold (\<lambda>t xs. publish (slot t) sq xs) ts xs"

lemma publish_all_simps [simp]:
  "publish_all slot [] sq xs = xs"
  "publish_all slot (t # ts) sq xs = publish_all slot ts sq (publish (slot t) sq xs)"
  by (simp_all add: publish_all_def)

lemma length_publish_all [simp]: "length (publish_all slot ts sq xs) = length xs"
  by (induction ts arbitrary: xs) auto

lemma publish_all_mono: "xs ! j \<le> publish_all slot ts sq xs ! j"
  by (induction ts arbitrary: xs) (auto intro: order_trans [OF publish_mono])

lemma publish_all_at:
  "t \<in> set ts \<Longrightarrow> (\<And>t. slot t < length xs) \<Longrightarrow> sq \<le> publish_all slot ts sq xs ! slot t"
proof (induction ts arbitrary: xs)
  case (Cons u ts)
  show ?case
  proof (cases "t = u")
    case True
    have "sq \<le> publish (slot t) sq xs ! slot t" by (rule publish_at) (rule Cons.prems(2))
    with True show ?thesis by (auto intro: order_trans [OF _ publish_all_mono])
  qed (use Cons in simp)
qed simp

lemma publish_all_le:
  "\<forall>x \<in> set xs. x \<le> c \<Longrightarrow> sq \<le> c \<Longrightarrow> (\<And>t. slot t < length xs) \<Longrightarrow>
     \<forall>x \<in> set (publish_all slot ts sq xs). x \<le> c"
proof (induction ts arbitrary: xs)
  case (Cons t ts)
  have "\<forall>x \<in> set (publish (slot t) sq xs). x \<le> c" by (rule publish_le) (use Cons.prems in auto)
  with Cons show ?case by simp
qed simp

section \<open>The contract of a stamped cache\<close>

text \<open>
  A cache with states \<open>'s\<close> on an invalidation clock. \<open>good n s\<close> is its invariant after at most \<open>n\<close> operations.
  \<open>found s k\<close> is what is stored under \<open>k\<close>; \<open>inserts op k e since\<close> says that
  \<open>op\<close> inserts \<open>e\<close> under \<open>k\<close> with the read stamp \<open>since\<close>; \<open>covers op k e\<close> that \<open>op\<close> is an invalidation of that entry;
  \<open>refused s k e since\<close> is the cache's own test \<^verbatim>\<open>invalidated_since\<close>.
\<close>

locale stamped_cache =
  fixes good :: "nat \<Rightarrow> 's \<Rightarrow> bool"
    and step :: "'op \<Rightarrow> 's \<Rightarrow> 's"
    and clock :: "'s \<Rightarrow> nat"
    and found :: "'s \<Rightarrow> 'k \<Rightarrow> 'e option"
    and inserts :: "'op \<Rightarrow> 'k \<Rightarrow> 'e \<Rightarrow> nat \<Rightarrow> bool"
    and covers :: "'op \<Rightarrow> 'k \<Rightarrow> 'e \<Rightarrow> bool"
    and refused :: "'s \<Rightarrow> 'k \<Rightarrow> 'e \<Rightarrow> nat \<Rightarrow> bool"
  assumes good_step: "good n s \<Longrightarrow> n + 1 < u64_mod \<Longrightarrow> good (n + 1) (step op s)"
    and refused_step:
      "good n s \<Longrightarrow> n + 1 < u64_mod \<Longrightarrow> refused s k e since \<Longrightarrow> refused (step op s) k e since"
    and covers_refuses:
      "good n s \<Longrightarrow> n + 1 < u64_mod \<Longrightarrow> covers op k e \<Longrightarrow> since < clock (step op s) \<Longrightarrow>
         refused (step op s) k e since"
    and covers_removes:
      "good n s \<Longrightarrow> n + 1 < u64_mod \<Longrightarrow> covers op k e \<Longrightarrow> found (step op s) k \<noteq> Some e"
    and found_step:
      "good n s \<Longrightarrow> n + 1 < u64_mod \<Longrightarrow> found (step op s) k = Some e \<Longrightarrow>
         found s k = Some e \<or> (\<exists>since. inserts op k e since \<and> \<not> refused s k e since)"
begin

definition run :: "'op list \<Rightarrow> 's \<Rightarrow> 's" where
  "run ops s = fold step ops s"

lemma run_simps [simp]:
  "run [] s = s" "run (op # ops) s = run ops (step op s)" "run (ops @ ops') s = run ops' (run ops s)"
  by (simp_all add: run_def)

lemma good_run:
  "good n s \<Longrightarrow> n + length ops < u64_mod \<Longrightarrow>
     good (n + length ops) (run ops s)"
proof (induction ops arbitrary: n s)
  case (Cons op ops)
  have "good (n + 1) (step op s)" using Cons.prems by (intro good_step) auto
  from Cons.IH [OF this] Cons.prems show ?case by simp
qed simp

lemma refused_run:
  "good n s \<Longrightarrow> n + length ops < u64_mod \<Longrightarrow>
     refused s k e since \<Longrightarrow> refused (run ops s) k e since"
proof (induction ops arbitrary: n s)
  case (Cons op ops)
  have "good (n + 1) (step op s)" using Cons.prems by (intro good_step) auto
  moreover have "refused (step op s) k e since" using Cons.prems by (intro refused_step [of n]) auto
  ultimately show ?case using Cons.IH [of "n + 1" "step op s"] Cons.prems by simp
qed simp

text \<open>Once an entry is refused and absent, it comes back only with a newer stamp.\<close>

lemma found_after_refusal:
  assumes "good n s" and "n + length ops < u64_mod"
    and "\<And>since. since < c \<Longrightarrow> refused s k e since" and "found s k \<noteq> Some e"
    and "found (run ops s) k = Some e"
  shows "\<exists>op \<in> set ops. \<exists>since. inserts op k e since \<and> c \<le> since"
  using assms(2,5)
proof (induction ops rule: rev_induct)
  case Nil
  with assms(4) show ?case by simp
next
  case (snoc op ops)
  have good: "good (n + length ops) (run ops s)" using assms(1) snoc.prems by (intro good_run) auto
  have refused: "refused (run ops s) k e since" if "since < c" for since
    using assms(1) snoc.prems assms(3) [OF that] by (intro refused_run) auto
  have "found (run ops s) k = Some e \<or> (\<exists>since. inserts op k e since \<and> \<not> refused (run ops s) k e since)"
    using snoc.prems by (intro found_step [OF good]) auto
  then show ?case
  proof
    assume "found (run ops s) k = Some e"
    with snoc show ?thesis by auto
  next
    assume "\<exists>since. inserts op k e since \<and> \<not> refused (run ops s) k e since"
    with refused show ?thesis by (metis in_set_conv_decomp not_le)
  qed
qed

theorem no_stale_entry:
  assumes "good n s" and "n + length (pre @ inval # post) < u64_mod"
    and "covers inval k e" and "found (run (pre @ inval # post) s) k = Some e"
  shows "\<exists>op \<in> set post. \<exists>since. inserts op k e since \<and> clock (run (pre @ [inval]) s) \<le> since"
proof -
  let ?n = "n + length pre" and ?s = "run pre s"
  have good: "good ?n ?s" using assms(1,2) by (intro good_run) auto
  have lt: "?n + 1 < u64_mod" using assms(2) by auto
  show ?thesis
  proof (rule found_after_refusal)
    show "good (?n + 1) (step inval ?s)" by (rule good_step [OF good lt])
    show "?n + 1 + length post < u64_mod" using assms(2) by simp
    show "refused (step inval ?s) k e since" if "since < clock (run (pre @ [inval]) s)" for since
      using covers_refuses [OF good lt assms(3)] that by simp
    show "found (step inval ?s) k \<noteq> Some e" by (rule covers_removes [OF good lt assms(3)])
    show "found (run post (step inval ?s)) k = Some e" using assms(4) by simp
  qed
qed

text \<open>An insert whose stamp is older than a covering invalidation is refused, at any later time.\<close>

theorem stale_insert_refused:
  assumes "good n s" and "n + length (inval # post) < u64_mod" and "covers inval k e" and "since < clock (step inval s)"
  shows "refused (run (inval # post) s) k e since"
proof -
  have lt: "n + 1 < u64_mod" using assms(2) by auto
  have "refused (run post (step inval s)) k e since"
    by (rule refused_run [OF good_step [OF assms(1) lt]])
      (use assms(2) covers_refuses [OF assms(1) lt assms(3,4)] in auto)
  then show ?thesis by simp
qed

end

end
