(* ===== verification/LocalCache.thy ===== *)
theory LocalCache
  imports LruStore Stamp
begin

text \<open>
  The single-thread page cache and job cache (\<^verbatim>\<open>LocalL1\<close> and \<^verbatim>\<open>LocalJobs\<close> of
  \<^verbatim>\<open>crates/brust-core/src/cache/local.rs\<close>) over the LRU store and the invalidation clock. The host's
  time is the argument \<open>now\<close> of an operation; the clock, shared by both caches, is passed in and returned. The
  standard library leaves the algorithm of \<^verbatim>\<open>DefaultHasher\<close> unspecified, so a cache's hash functions are fields of its
  record that nothing constrains.
\<close>

section \<open>Keys, bodies and statistics\<close>

record cache_key =
  key_prefix :: string
  key_method :: string
  key_path :: string
  key_query :: string

type_synonym header_list = "(string \<times> string) list"

record rendered_body =
  rb_status :: nat
  rb_headers :: header_list
  rb_html :: string
  rb_gzip :: "string option option"

record cache_stats =
  st_hits :: nat
  st_misses :: nat
  st_len :: nat
  st_capacity :: nat

type_synonym job_key = string

definition WORKERS_L1_CAPACITY :: nat where
  "WORKERS_L1_CAPACITY = 256"

definition WORKERS_JOB_CAPACITY :: nat where
  "WORKERS_JOB_CAPACITY = 512"

definition L1_MAX_BODY_BYTES :: nat where
  "L1_MAX_BODY_BYTES = 8 * 2 ^ 20"

text \<open>\<^verbatim>\<open>deadline\<close>: the time to live as nanoseconds (a \<^verbatim>\<open>u128\<close>) that has to fit a \<^verbatim>\<open>u64\<close>.\<close>

definition deadline :: "nat \<Rightarrow> nat \<Rightarrow> nat option" where
  "deadline now ttl = (if ttl < u64_mod then u64_checked_add now ttl else None)"

section \<open>The page cache\<close>

record local_l1 =
  l1_store :: "(cache_key, rendered_body) store"
  l1_tag_inval :: "nat list"
  l1_path_inval :: "nat list"
  l1_prefix_inval :: "nat list"
  l1_cleared_at :: nat
  l1_hits :: nat
  l1_misses :: nat
  l1_capacity :: nat
  l1_max_bytes :: nat
  l1_hash_str :: "string \<Rightarrow> nat"
  l1_hash_pair :: "string \<times> string \<Rightarrow> nat"

definition l1_with_limits :: "nat \<Rightarrow> nat \<Rightarrow> (string \<Rightarrow> nat) \<Rightarrow> (string \<times> string \<Rightarrow> nat) \<Rightarrow> local_l1" where
  "l1_with_limits capacity max_bytes hs hp =
     \<lparr>l1_store = store_new, l1_tag_inval = inval_slots, l1_path_inval = inval_slots,
      l1_prefix_inval = inval_slots, l1_cleared_at = 0, l1_hits = 0, l1_misses = 0,
      l1_capacity = max capacity 1, l1_max_bytes = max_bytes, l1_hash_str = hs, l1_hash_pair = hp\<rparr>"

definition l1_with_clock :: "nat \<Rightarrow> (string \<Rightarrow> nat) \<Rightarrow> (string \<times> string \<Rightarrow> nat) \<Rightarrow> local_l1" where
  "l1_with_clock capacity hs hp = l1_with_limits capacity L1_MAX_BODY_BYTES hs hp"

definition l1_tag_slot :: "local_l1 \<Rightarrow> string \<Rightarrow> nat" where
  "l1_tag_slot c t = slot_of_hash (l1_hash_str c t)"

definition l1_path_slot :: "local_l1 \<Rightarrow> string \<Rightarrow> string \<Rightarrow> nat" where
  "l1_path_slot c m p = slot_of_hash (l1_hash_pair c (m, p))"

definition l1_prefix_slot :: "local_l1 \<Rightarrow> string \<Rightarrow> nat" where
  "l1_prefix_slot c p = slot_of_hash (l1_hash_str c p)"

definition l1_tag_index_size :: "local_l1 \<Rightarrow> nat" where
  "l1_tag_index_size c = index_size False (l1_store c)"

definition l1_invalidated_since :: "local_l1 \<Rightarrow> cache_key \<Rightarrow> string list \<Rightarrow> nat \<Rightarrow> bool" where
  "l1_invalidated_since c key tags since \<longleftrightarrow>
     since < l1_cleared_at c \<or>
     since < l1_path_inval c ! l1_path_slot c (key_method key) (key_path key) \<or>
     since < l1_prefix_inval c ! l1_prefix_slot c (key_prefix key) \<or>
     list_ex (\<lambda>t. since < l1_tag_inval c ! l1_tag_slot c t) tags"

definition l1_clear :: "nat \<Rightarrow> inval_clock \<Rightarrow> local_l1 \<Rightarrow> nat \<times> inval_clock \<times> local_l1" where
  "l1_clear now clock c =
     (let (sq, clock') = clock_next clock
      in (live_len now (l1_store c), clock', c\<lparr>l1_cleared_at := sq, l1_store := clear (l1_store c)\<rparr>))"

definition l1_get_with :: "(rendered_body \<Rightarrow> 'r) \<Rightarrow> cache_key \<Rightarrow> nat \<Rightarrow> local_l1 \<Rightarrow> 'r option \<times> local_l1" where
  "l1_get_with f key now c =
     (case get key now (l1_store c) of
        (Some b, st) \<Rightarrow> (Some (f b), c\<lparr>l1_store := st, l1_hits := u64_add (l1_hits c) 1\<rparr>)
      | (None, st) \<Rightarrow> (None, c\<lparr>l1_store := st, l1_misses := u64_add (l1_misses c) 1\<rparr>))"

definition l1_insert :: "cache_key \<Rightarrow> rendered_body \<Rightarrow> nat \<Rightarrow> string list \<Rightarrow> nat \<Rightarrow> nat \<Rightarrow> local_l1 \<Rightarrow> bool \<times> local_l1" where
  "l1_insert key body ttl tags since now c =
     (if l1_invalidated_since c key tags since then (False, c)
      else
        let nbytes = length (rb_html body)
        in if l1_max_bytes c < nbytes then (True, c\<lparr>l1_store := snd (remove key (l1_store c))\<rparr>)
           else (True, c\<lparr>l1_store := insert key body (deadline now ttl) tags None nbytes now
                           (l1_capacity c) (l1_max_bytes c) (l1_store c)\<rparr>))"

definition l1_read_stamp :: "inval_clock \<Rightarrow> nat" where
  "l1_read_stamp clock = clock_stamp clock"

definition l1_invalidate_tags ::
  "string list \<Rightarrow> string option \<Rightarrow> inval_clock \<Rightarrow> local_l1 \<Rightarrow> nat \<times> inval_clock \<times> local_l1" where
  "l1_invalidate_tags tags pfx clock c =
     (let (sq, clock') = clock_next clock;
          c = c\<lparr>l1_tag_inval := publish_all (l1_tag_slot c) tags sq (l1_tag_inval c)\<rparr>;
          (n, st) = (case pfx of
                       None \<Rightarrow> take_indexed False tags (l1_store c)
                     | Some p \<Rightarrow> take_tagged_where tags (\<lambda>k. key_prefix k = p) (l1_store c))
      in (n, clock', c\<lparr>l1_store := st\<rparr>))"

definition l1_invalidate_path ::
  "string \<Rightarrow> string \<Rightarrow> string option \<Rightarrow> nat \<Rightarrow> inval_clock \<Rightarrow> local_l1 \<Rightarrow> nat \<times> inval_clock \<times> local_l1" where
  "l1_invalidate_path meth path pfx now clock c =
     (let (sq, clock') = clock_next clock;
          c = c\<lparr>l1_path_inval := publish (l1_path_slot c meth path) sq (l1_path_inval c)\<rparr>;
          (n, st) = remove_where now
            (\<lambda>k. key_method k = meth \<and> key_path k = path \<and>
                 (case pfx of None \<Rightarrow> True | Some p \<Rightarrow> key_prefix k = p)) (l1_store c)
      in (n, clock', c\<lparr>l1_store := st\<rparr>))"

definition l1_invalidate_prefix ::
  "string \<Rightarrow> string option \<Rightarrow> nat \<Rightarrow> inval_clock \<Rightarrow> local_l1 \<Rightarrow> nat \<times> inval_clock \<times> local_l1" where
  "l1_invalidate_prefix pfx meth now clock c =
     (let (sq, clock') = clock_next clock;
          c = c\<lparr>l1_prefix_inval := publish (l1_prefix_slot c pfx) sq (l1_prefix_inval c)\<rparr>;
          (n, st) = remove_where now
            (\<lambda>k. key_prefix k = pfx \<and> (case meth of None \<Rightarrow> True | Some m \<Rightarrow> key_method k = m)) (l1_store c)
      in (n, clock', c\<lparr>l1_store := st\<rparr>))"

definition l1_stats :: "nat \<Rightarrow> local_l1 \<Rightarrow> cache_stats \<times> local_l1" where
  "l1_stats now c =
     (let st = reap now (l1_store c)
      in (\<lparr>st_hits = l1_hits c, st_misses = l1_misses c, st_len = length (entries st),
           st_capacity = l1_capacity c\<rparr>, c\<lparr>l1_store := st\<rparr>))"

section \<open>The job cache\<close>

record 'n local_jobs =
  jobs_store :: "(job_key, 'n) store"
  jobs_tag_inval :: "nat list"
  jobs_key_inval :: "nat list"
  jobs_cleared_at :: nat
  jobs_hits :: nat
  jobs_misses :: nat
  jobs_capacity :: nat
  jobs_hash_str :: "string \<Rightarrow> nat"

definition jobs_with_limits :: "nat \<Rightarrow> (string \<Rightarrow> nat) \<Rightarrow> 'n local_jobs" where
  "jobs_with_limits capacity hs =
     \<lparr>jobs_store = store_new, jobs_tag_inval = inval_slots, jobs_key_inval = inval_slots, jobs_cleared_at = 0,
      jobs_hits = 0, jobs_misses = 0, jobs_capacity = max capacity 1, jobs_hash_str = hs\<rparr>"

definition jobs_slot :: "'n local_jobs \<Rightarrow> string \<Rightarrow> nat" where
  "jobs_slot c v = slot_of_hash (jobs_hash_str c v)"

definition jobs_invalidated_since :: "'n local_jobs \<Rightarrow> string list \<Rightarrow> string option \<Rightarrow> nat \<Rightarrow> bool" where
  "jobs_invalidated_since c tags user_key since \<longleftrightarrow>
     since < jobs_cleared_at c \<or>
     (case user_key of None \<Rightarrow> False | Some u \<Rightarrow> since < jobs_key_inval c ! jobs_slot c u) \<or>
     list_ex (\<lambda>t. since < jobs_tag_inval c ! jobs_slot c t) tags"

definition jobs_invalidate_key :: "job_key \<Rightarrow> 'n local_jobs \<Rightarrow> bool \<times> 'n local_jobs" where
  "jobs_invalidate_key k c =
     (let (removed, st) = remove k (jobs_store c) in (removed \<noteq> None, c\<lparr>jobs_store := st\<rparr>))"

definition jobs_clear :: "inval_clock \<Rightarrow> 'n local_jobs \<Rightarrow> inval_clock \<times> 'n local_jobs" where
  "jobs_clear clock c =
     (let (sq, clock') = clock_next clock
      in (clock', c\<lparr>jobs_cleared_at := sq, jobs_store := clear (jobs_store c)\<rparr>))"

definition jobs_get :: "job_key \<Rightarrow> nat \<Rightarrow> 'n local_jobs \<Rightarrow> 'n option \<times> 'n local_jobs" where
  "jobs_get k now c =
     (case get k now (jobs_store c) of
        (Some v, st) \<Rightarrow> (Some v, c\<lparr>jobs_store := st, jobs_hits := u64_add (jobs_hits c) 1\<rparr>)
      | (None, st) \<Rightarrow> (None, c\<lparr>jobs_store := st, jobs_misses := u64_add (jobs_misses c) 1\<rparr>))"

definition jobs_insert ::
  "job_key \<Rightarrow> 'n \<Rightarrow> nat option \<Rightarrow> string list \<Rightarrow> string option \<Rightarrow> nat \<Rightarrow> nat \<Rightarrow> 'n local_jobs \<Rightarrow> bool \<times> 'n local_jobs" where
  "jobs_insert k v ttl tags user_key since now c =
     (if jobs_invalidated_since c tags user_key since then (False, c)
      else (True, c\<lparr>jobs_store := insert k v (case ttl of None \<Rightarrow> None | Some t \<Rightarrow> deadline now t) tags user_key 0 now
                      (jobs_capacity c) (usize_mod - 1) (jobs_store c)\<rparr>))"

definition jobs_invalidate_tags :: "string list \<Rightarrow> inval_clock \<Rightarrow> 'n local_jobs \<Rightarrow> nat \<times> inval_clock \<times> 'n local_jobs" where
  "jobs_invalidate_tags tags clock c =
     (let (sq, clock') = clock_next clock;
          c = c\<lparr>jobs_tag_inval := publish_all (jobs_slot c) tags sq (jobs_tag_inval c)\<rparr>;
          (n, st) = take_indexed False tags (jobs_store c)
      in (n, clock', c\<lparr>jobs_store := st\<rparr>))"

definition jobs_invalidate_user_key :: "string \<Rightarrow> inval_clock \<Rightarrow> 'n local_jobs \<Rightarrow> nat \<times> inval_clock \<times> 'n local_jobs" where
  "jobs_invalidate_user_key user_key clock c =
     (let (sq, clock') = clock_next clock;
          c = c\<lparr>jobs_key_inval := publish (jobs_slot c user_key) sq (jobs_key_inval c)\<rparr>;
          (n, st) = take_indexed True [user_key] (jobs_store c)
      in (n, clock', c\<lparr>jobs_store := st\<rparr>))"

definition jobs_stats :: "nat \<Rightarrow> 'n local_jobs \<Rightarrow> cache_stats \<times> 'n local_jobs" where
  "jobs_stats now c =
     (let st = reap now (jobs_store c)
      in (\<lparr>st_hits = jobs_hits c, st_misses = jobs_misses c, st_len = length (entries st),
           st_capacity = jobs_capacity c\<rparr>, c\<lparr>jobs_store := st\<rparr>))"

section \<open>What a store holds, up to deadlines and recency\<close>

type_synonym 'v entry = "'v \<times> string list \<times> string option"

definition slot_entry :: "'v slot \<Rightarrow> 'v entry" where
  "slot_entry s = (slot_value s, slot_tags s, slot_user_key s)"

definition stored :: "('k, 'v) store \<Rightarrow> 'k \<Rightarrow> 'v entry option" where
  "stored st k = map_option slot_entry (map_of (entries st) k)"

lemma stored_new [simp]: "stored store_new k = None"
  by (simp add: stored_def store_new_def)

lemma stored_remove: "stored (snd (remove k st)) k' = (if k' = k then None else stored st k')"
  by (simp add: stored_def entries_remove)

lemma stored_clear [simp]: "stored (clear st) k = None"
  by (simp add: stored_def)

lemma stored_get: "stored (snd (get k now st)) k' = Some e \<Longrightarrow> stored st k' = Some e"
  by (auto simp: stored_def get_def Let_def entries_remove AList.update_conv' slot_entry_def
      simp del: map_of_eq_Some_iff split: option.splits if_splits)

lemma stored_reap: "store_inv st \<Longrightarrow> stored (reap now st) k = Some e \<Longrightarrow> stored st k = Some e"
  by (auto simp: stored_def entries_reap simp del: map_of_eq_Some_iff split: option.splits if_splits)

lemma stored_insert:
  assumes inv: "store_inv st" and t: "next_tick st + 1 < u64_mod" and b: "store_bytes st + b < usize_mod"
    and "1 \<le> c" and "b \<le> m"
  shows "stored (insert k v x ts u b now c m st) k = Some (v, ts, u)"
    and "k' \<noteq> k \<Longrightarrow> stored (insert k v x ts u b now c m st) k' = Some e \<Longrightarrow> stored st k' = Some e"
  using insert_lookup [OF assms, of k v x ts u now] insert_other [OF inv t b, of k' k v x ts u now c m]
  by (auto simp: stored_def slot_entry_def simp del: map_of_eq_Some_iff)

text \<open>The names an entry is indexed under.\<close>

fun entry_names :: "bool \<Rightarrow> 'v entry \<Rightarrow> string set" where
  "entry_names users (v, tags, user_key) = (if users then set_option user_key else set tags)"

lemma names_of_stored: "stored st k = Some e \<Longrightarrow> names_of users st k = entry_names users e"
  by (auto simp: stored_def names_of_def users_of_def tags_of_def slot_entry_def simp del: map_of_eq_Some_iff)

lemma stored_take_indexed:
  assumes "store_inv st" and "take_indexed users names st = (n, st')"
  shows "stored st' k = Some e \<longleftrightarrow> stored st k = Some e \<and> entry_names users e \<inter> set names = {}"
  using take_indexed_spec(2) [OF assms] names_of_stored [of st k e users]
  by (auto simp: stored_def simp del: map_of_eq_Some_iff split: if_splits)

lemma stored_take_tagged_where:
  assumes "store_inv st" and "take_tagged_where names keep st = (n, st')"
  shows "stored st' k = Some e \<longleftrightarrow>
    stored st k = Some e \<and> \<not> (entry_names False e \<inter> set names \<noteq> {} \<and> keep k)"
  using take_tagged_where_spec(2) [OF assms] names_of_stored [of st k e False]
  by (auto simp: stored_def names_of_def simp del: map_of_eq_Some_iff split: if_splits)

lemma stored_remove_where:
  assumes "store_inv st" and "remove_where now hit st = (n, st')"
  shows "stored st' k = Some e \<longleftrightarrow> stored st k = Some e \<and> \<not> hit k"
  using remove_where_spec(2) [OF assms] by (auto simp: stored_def simp del: map_of_eq_Some_iff)

text \<open>The operations of \<^verbatim>\<open>Store\<close> keep the store sound within its limits, one tick at most per call.\<close>

definition sound :: "nat \<Rightarrow> nat \<Rightarrow> nat \<Rightarrow> ('k, 'v) store \<Rightarrow> bool" where
  "sound n c m st \<longleftrightarrow> store_inv st \<and> within c m st \<and> next_tick st \<le> n"

lemma sound_step:
  assumes "sound n c m st" and "n + 1 < u64_mod" and "m + op_bytes op < usize_mod"
  shows "sound (n + 1) c m (store_step c m op st)"
  using store_step_inv [of st c m op] assms by (simp add: sound_def)

lemmas sound_insert = sound_step [where op = "Insert k v e ts u b now" for k v e ts u b now, unfolded store_step.simps op_bytes.simps add_0_right]
lemmas sound_get = sound_step [where op = "Get k now" for k now, unfolded store_step.simps op_bytes.simps add_0_right]
lemmas sound_reap = sound_step [where op = "Reap now" for now, unfolded store_step.simps op_bytes.simps add_0_right]
lemmas sound_take = sound_step [where op = "TakeIndexed users names" for users names, unfolded store_step.simps op_bytes.simps add_0_right]
lemmas sound_take_where = sound_step [where op = "TakeTaggedWhere names keep" for names keep, unfolded store_step.simps op_bytes.simps add_0_right]
lemmas sound_remove_where = sound_step [where op = "RemoveWhere now hit" for now hit, unfolded store_step.simps op_bytes.simps add_0_right]
lemmas sound_clear = sound_step [where op = Clear, unfolded store_step.simps op_bytes.simps add_0_right]

lemma sound_remove: "sound n c m st \<Longrightarrow> sound n c m (snd (remove k st))"
  using remove_inv [of "{}" "{}" st k] within_remove_all [of "{}" "{}" st c m "[k]"]
  by (simp add: sound_def next_tick_remove)

lemma sound_Suc: "sound n c m st \<Longrightarrow> sound (Suc n) c m st"
  by (simp add: sound_def)

lemma sound_inv: "sound n c m st \<Longrightarrow> store_inv st"
  by (simp add: sound_def)


section \<open>Freshness of the page cache\<close>

text \<open>
  The calls on a page cache. \<open>L1Tick\<close> is the other user of the shared clock (the job cache) taking a value from it.
\<close>

datatype l1_op =
    L1Get cache_key nat
  | L1Insert cache_key rendered_body nat "string list" nat nat
  | L1InvTags "string list" "string option"
  | L1InvPath string string "string option" nat
  | L1InvPrefix string "string option" nat
  | L1Clear nat
  | L1Stats nat
  | L1Tick

fun l1_step :: "l1_op \<Rightarrow> inval_clock \<times> local_l1 \<Rightarrow> inval_clock \<times> local_l1" where
  "l1_step (L1Get k now) (q, c) = (q, snd (l1_get_with id k now c))"
| "l1_step (L1Insert k body ttl tags since now) (q, c) = (q, snd (l1_insert k body ttl tags since now c))"
| "l1_step (L1InvTags tags p) (q, c) = snd (l1_invalidate_tags tags p q c)"
| "l1_step (L1InvPath m path p now) (q, c) = snd (l1_invalidate_path m path p now q c)"
| "l1_step (L1InvPrefix p m now) (q, c) = snd (l1_invalidate_prefix p m now q c)"
| "l1_step (L1Clear now) (q, c) = snd (l1_clear now q c)"
| "l1_step (L1Stats now) (q, c) = (q, snd (l1_stats now c))"
| "l1_step L1Tick (q, c) = (snd (clock_next q), c)"

fun l1_covers :: "l1_op \<Rightarrow> cache_key \<Rightarrow> rendered_body entry \<Rightarrow> bool" where
  "l1_covers (L1InvTags ts p) k (_, tags, _) \<longleftrightarrow>
     list_ex (\<lambda>t. t \<in> set ts) tags \<and> (case p of None \<Rightarrow> True | Some p \<Rightarrow> key_prefix k = p)"
| "l1_covers (L1InvPath m path p now) k _ \<longleftrightarrow>
     key_method k = m \<and> key_path k = path \<and> (case p of None \<Rightarrow> True | Some p \<Rightarrow> key_prefix k = p)"
| "l1_covers (L1InvPrefix p m now) k _ \<longleftrightarrow>
     key_prefix k = p \<and> (case m of None \<Rightarrow> True | Some m \<Rightarrow> key_method k = m)"
| "l1_covers (L1Clear now) k _ \<longleftrightarrow> True"
| "l1_covers _ k _ \<longleftrightarrow> False"

fun l1_inserts :: "l1_op \<Rightarrow> cache_key \<Rightarrow> rendered_body entry \<Rightarrow> nat \<Rightarrow> bool" where
  "l1_inserts (L1Insert k body ttl tags since now) k' e since' \<longleftrightarrow>
     k' = k \<and> e = (body, tags, None) \<and> since' = since"
| "l1_inserts _ k' e since' \<longleftrightarrow> False"

fun l1_refused :: "inval_clock \<times> local_l1 \<Rightarrow> cache_key \<Rightarrow> rendered_body entry \<Rightarrow> nat \<Rightarrow> bool" where
  "l1_refused (q, c) k (_, tags, _) since = l1_invalidated_since c k tags since"

definition l1_found :: "inval_clock \<times> local_l1 \<Rightarrow> cache_key \<Rightarrow> rendered_body entry option" where
  "l1_found s = stored (l1_store (snd s))"

text \<open>The invariant: a sound store, slot arrays of the right length, nothing published ahead of the clock.\<close>

fun l1_good :: "nat \<Rightarrow> inval_clock \<times> local_l1 \<Rightarrow> bool" where
  "l1_good n (q, c) \<longleftrightarrow>
     sound n (l1_capacity c) (l1_max_bytes c) (l1_store c) \<and> 1 \<le> l1_capacity c \<and> 2 * l1_max_bytes c < usize_mod \<and>
     q \<le> n \<and> l1_cleared_at c \<le> q \<and>
     length (l1_tag_inval c) = INVAL_SLOTS \<and> length (l1_path_inval c) = INVAL_SLOTS \<and>
     length (l1_prefix_inval c) = INVAL_SLOTS \<and>
     (\<forall>x \<in> set (l1_tag_inval c) \<union> set (l1_path_inval c) \<union> set (l1_prefix_inval c). x \<le> q)"

lemma l1_slot_less [simp]:
  "l1_tag_slot c t < INVAL_SLOTS" "l1_path_slot c m p < INVAL_SLOTS" "l1_prefix_slot c p < INVAL_SLOTS"
  by (simp_all add: l1_tag_slot_def l1_path_slot_def l1_prefix_slot_def)

lemma l1_slot_update [simp]:
  "l1_tag_slot (c\<lparr>l1_store := st\<rparr>) = l1_tag_slot c" "l1_path_slot (c\<lparr>l1_store := st\<rparr>) = l1_path_slot c"
  "l1_prefix_slot (c\<lparr>l1_store := st\<rparr>) = l1_prefix_slot c"
  "l1_tag_slot (c\<lparr>l1_tag_inval := xs\<rparr>) = l1_tag_slot c" "l1_path_slot (c\<lparr>l1_tag_inval := xs\<rparr>) = l1_path_slot c"
  "l1_prefix_slot (c\<lparr>l1_tag_inval := xs\<rparr>) = l1_prefix_slot c"
  "l1_tag_slot (c\<lparr>l1_path_inval := xs\<rparr>) = l1_tag_slot c" "l1_path_slot (c\<lparr>l1_path_inval := xs\<rparr>) = l1_path_slot c"
  "l1_prefix_slot (c\<lparr>l1_path_inval := xs\<rparr>) = l1_prefix_slot c"
  "l1_tag_slot (c\<lparr>l1_prefix_inval := xs\<rparr>) = l1_tag_slot c" "l1_path_slot (c\<lparr>l1_prefix_inval := xs\<rparr>) = l1_path_slot c"
  "l1_prefix_slot (c\<lparr>l1_prefix_inval := xs\<rparr>) = l1_prefix_slot c"
  "l1_tag_slot (c\<lparr>l1_cleared_at := x\<rparr>) = l1_tag_slot c" "l1_path_slot (c\<lparr>l1_cleared_at := x\<rparr>) = l1_path_slot c"
  "l1_prefix_slot (c\<lparr>l1_cleared_at := x\<rparr>) = l1_prefix_slot c"
  "l1_tag_slot (c\<lparr>l1_hits := x\<rparr>) = l1_tag_slot c" "l1_path_slot (c\<lparr>l1_hits := x\<rparr>) = l1_path_slot c"
  "l1_prefix_slot (c\<lparr>l1_hits := x\<rparr>) = l1_prefix_slot c"
  "l1_tag_slot (c\<lparr>l1_misses := x\<rparr>) = l1_tag_slot c" "l1_path_slot (c\<lparr>l1_misses := x\<rparr>) = l1_path_slot c"
  "l1_prefix_slot (c\<lparr>l1_misses := x\<rparr>) = l1_prefix_slot c"
  by (simp_all add: fun_eq_iff l1_tag_slot_def l1_path_slot_def l1_prefix_slot_def)

text \<open>A step as a change of the store and of the slots.\<close>

lemma l1_step_store:
  "l1_store (snd (l1_step (L1Get k now) (q, c))) = snd (get k now (l1_store c))"
  "l1_store (snd (l1_step (L1InvTags tags p) (q, c))) =
     (case p of None \<Rightarrow> snd (take_indexed False tags (l1_store c))
      | Some p \<Rightarrow> snd (take_tagged_where tags (\<lambda>k. key_prefix k = p) (l1_store c)))"
  "l1_store (snd (l1_step (L1InvPath m path p now) (q, c))) =
     snd (remove_where now (\<lambda>k. l1_covers (L1InvPath m path p now) k undefined) (l1_store c))"
  "l1_store (snd (l1_step (L1InvPrefix pp mo now) (q, c))) =
     snd (remove_where now (\<lambda>k. l1_covers (L1InvPrefix pp mo now) k undefined) (l1_store c))"
  "l1_store (snd (l1_step (L1Clear now) (q, c))) = clear (l1_store c)"
  "l1_store (snd (l1_step (L1Stats now) (q, c))) = reap now (l1_store c)"
  by (auto simp: l1_get_with_def l1_invalidate_tags_def l1_invalidate_path_def l1_invalidate_prefix_def
      l1_clear_def l1_stats_def clock_next_def Let_def split: option.splits prod.splits)

lemma l1_step_limits:
  "l1_capacity (snd (l1_step op s)) = l1_capacity (snd s)" "l1_max_bytes (snd (l1_step op s)) = l1_max_bytes (snd s)"
  by (cases s; cases op; simp add: l1_get_with_def l1_insert_def l1_invalidate_tags_def l1_invalidate_path_def
      l1_invalidate_prefix_def l1_clear_def l1_stats_def Let_def split: option.splits prod.splits)+


lemma l1_good_step:
  assumes "l1_good n s" and "n + 1 < u64_mod"
  shows "l1_good (n + 1) (l1_step op s)"
proof -
  obtain q c where s: "s = (q, c)" by (cases s)
  note G = assms(1) [unfolded s l1_good.simps]
  have st: "sound n (l1_capacity c) (l1_max_bytes c) (l1_store c)" and m: "l1_max_bytes c < usize_mod" using G by auto
  have q: "u64_add q 1 = q + 1" and qn: "q + 1 \<le> n + 1" using G assms(2) by auto
  have q': "\<forall>x \<in> set (l1_tag_inval c). x \<le> q + 1" "\<forall>x \<in> set (l1_path_inval c). x \<le> q + 1"
    "\<forall>x \<in> set (l1_prefix_inval c). x \<le> q + 1" using G by (auto intro: le_SucI)
  show ?thesis
  proof (cases op)
    case (L1Get k now)
    with s G sound_get [OF st assms(2) m, of k now] show ?thesis
      by (auto simp: l1_get_with_def split: prod.splits option.splits)
  next
    case (L1Insert k body ttl tags since now)
    have "sound (n + 1) (l1_capacity c) (l1_max_bytes c)
       (insert k body (deadline now ttl) tags None (length (rb_html body)) now (l1_capacity c) (l1_max_bytes c) (l1_store c))"
      if "length (rb_html body) \<le> l1_max_bytes c"
      using sound_insert [OF st assms(2), of "length (rb_html body)"] that G by auto
    with s G L1Insert sound_remove [OF sound_Suc [OF st], of k] sound_Suc [OF st] show ?thesis
      by (auto simp: l1_insert_def Let_def not_less)
  next
    case (L1InvTags tags p)
    have "\<forall>x \<in> set (publish_all (l1_tag_slot c) tags (q + 1) (l1_tag_inval c)). x \<le> q + 1"
      by (rule publish_all_le) (use q' G in auto)
    with s G q qn q' L1InvTags sound_take [OF st assms(2) m, of False tags]
      sound_take_where [OF st assms(2) m, of tags "\<lambda>k. key_prefix k = the p"] show ?thesis
      by (auto simp: l1_invalidate_tags_def clock_next_def Let_def split: prod.splits option.splits)
  next
    case (L1InvPath mm path p now)
    have "\<forall>x \<in> set (publish (l1_path_slot c mm path) (q + 1) (l1_path_inval c)). x \<le> q + 1"
      by (rule publish_le) (use q' G in auto)
    with s G q qn q' L1InvPath sound_remove_where [OF st assms(2) m, of now
        "\<lambda>k. key_method k = mm \<and> key_path k = path \<and> (case p of None \<Rightarrow> True | Some p \<Rightarrow> key_prefix k = p)"]
    show ?thesis by (auto simp: l1_invalidate_path_def clock_next_def Let_def split: prod.splits)
  next
    case (L1InvPrefix p mm now)
    have "\<forall>x \<in> set (publish (l1_prefix_slot c p) (q + 1) (l1_prefix_inval c)). x \<le> q + 1"
      by (rule publish_le) (use q' G in auto)
    with s G q qn q' L1InvPrefix sound_remove_where [OF st assms(2) m, of now
        "\<lambda>k. key_prefix k = p \<and> (case mm of None \<Rightarrow> True | Some m \<Rightarrow> key_method k = m)"]
    show ?thesis by (auto simp: l1_invalidate_prefix_def clock_next_def Let_def split: prod.splits)
  next
    case (L1Clear now)
    with s G q qn q' sound_clear [OF st assms(2) m] show ?thesis by (auto simp: l1_clear_def clock_next_def)
  next
    case (L1Stats now)
    with s G sound_reap [OF st assms(2) m, of now] show ?thesis by (auto simp: l1_stats_def Let_def)
  next
    case L1Tick
    with s G q qn q' sound_Suc [OF st] show ?thesis by (auto simp: clock_next_def)
  qed
qed

text \<open>No step lowers a slot, and the slot functions never change.\<close>

lemma l1_step_slots:
  assumes "l1_good n (q, c)" and "n + 1 < u64_mod" and "l1_step op (q, c) = (q', c')"
  shows "l1_cleared_at c \<le> l1_cleared_at c' \<and> (\<forall>i. l1_tag_inval c ! i \<le> l1_tag_inval c' ! i) \<and>
    (\<forall>i. l1_path_inval c ! i \<le> l1_path_inval c' ! i) \<and> (\<forall>i. l1_prefix_inval c ! i \<le> l1_prefix_inval c' ! i) \<and>
    l1_tag_slot c' = l1_tag_slot c \<and> l1_path_slot c' = l1_path_slot c \<and> l1_prefix_slot c' = l1_prefix_slot c"
proof -
  have "l1_cleared_at c \<le> u64_add q 1" using assms(1,2) by simp
  with assms(3) show ?thesis
    by (cases op)
      (auto simp: l1_get_with_def l1_insert_def l1_invalidate_tags_def l1_invalidate_path_def
        l1_invalidate_prefix_def l1_clear_def l1_stats_def clock_next_def Let_def
        intro: publish_mono publish_all_mono split: option.splits prod.splits if_splits)
qed

lemma l1_refused_step:
  assumes "l1_good n s" and "n + 1 < u64_mod" and "l1_refused s k e since"
  shows "l1_refused (l1_step op s) k e since"
proof -
  obtain q c where s: "s = (q, c)" by (cases s)
  obtain q' c' where s': "l1_step op (q, c) = (q', c')" by (cases "l1_step op (q, c)")
  obtain v tags u where e: "e = (v, tags, u)" by (cases e)
  from l1_step_slots [OF assms(1) [unfolded s] assms(2) s'] assms(3) show ?thesis
    unfolding s s' e by (auto simp: l1_invalidated_since_def list_ex_iff) (meson less_le_trans)+
qed

lemma l1_covers_refuses:
  assumes "l1_good n s" and "n + 1 < u64_mod" and "l1_covers op k e" and "since < fst (l1_step op s)"
  shows "l1_refused (l1_step op s) k e since"
proof -
  obtain q c where s: "s = (q, c)" by (cases s)
  obtain v tags u where e: "e = (v, tags, u)" by (cases e)
  note G = assms(1) [unfolded s l1_good.simps]
  show ?thesis
  proof (cases op)
    case (L1InvTags ts p)
    then obtain t where t: "t \<in> set tags" "t \<in> set ts" using assms(3) by (auto simp: e list_ex_iff)
    have "u64_add q 1 \<le> publish_all (l1_tag_slot c) ts (u64_add q 1) (l1_tag_inval c) ! l1_tag_slot c t"
      by (rule publish_all_at) (use t G in auto)
    with t assms(4) show ?thesis
      by (auto simp: s e L1InvTags l1_invalidate_tags_def clock_next_def Let_def l1_invalidated_since_def list_ex_iff
          simp del: u64_add_no_wrap intro: less_le_trans split: prod.splits)
  next
    case (L1InvPath m path p now)
    have "u64_add q 1 \<le> publish (l1_path_slot c m path) (u64_add q 1) (l1_path_inval c) ! l1_path_slot c m path"
      by (rule publish_at) (use G in auto)
    with assms(3,4) show ?thesis
      by (auto simp: s e L1InvPath l1_invalidate_path_def clock_next_def Let_def l1_invalidated_since_def
          simp del: u64_add_no_wrap intro: less_le_trans split: prod.splits)
  next
    case (L1InvPrefix p m now)
    have "u64_add q 1 \<le> publish (l1_prefix_slot c p) (u64_add q 1) (l1_prefix_inval c) ! l1_prefix_slot c p"
      by (rule publish_at) (use G in auto)
    with assms(3,4) show ?thesis
      by (auto simp: s e L1InvPrefix l1_invalidate_prefix_def clock_next_def Let_def l1_invalidated_since_def
          simp del: u64_add_no_wrap intro: less_le_trans split: prod.splits)
  qed (use assms(3,4) in \<open>simp_all add: s e l1_clear_def clock_next_def l1_invalidated_since_def\<close>)
qed


lemma l1_covers_removes:
  assumes "l1_good n s" and "l1_covers op k e"
  shows "l1_found (l1_step op s) k \<noteq> Some e"
proof -
  obtain q c where s: "s = (q, c)" by (cases s)
  obtain v tags u where e: "e = (v, tags, u)" by (cases e)
  have inv: "store_inv (l1_store c)" using assms(1) by (simp add: s sound_def)
  note T = stored_take_indexed [OF inv prod.collapse [symmetric], of False _ k e]
  note W = stored_take_tagged_where [OF inv prod.collapse [symmetric], of _ "\<lambda>k. key_prefix k = the p" k e for p]
  note R = stored_remove_where [OF inv prod.collapse [symmetric], of _ _ k e]
  show ?thesis
  proof (cases op)
    case (L1InvTags ts p)
    with assms(2) show ?thesis using T W [of _ p]
      by (cases p) (auto simp: l1_found_def s l1_step_store e list_ex_iff simp del: l1_step.simps)
  next
    case (L1InvPath m path p now)
    then show ?thesis using R assms(2) by (auto simp: l1_found_def s l1_step_store simp del: l1_step.simps)
  next
    case (L1InvPrefix p m now)
    then show ?thesis using R assms(2) by (auto simp: l1_found_def s l1_step_store simp del: l1_step.simps)
  qed (use assms(2) in \<open>simp_all add: l1_found_def s l1_step_store del: l1_step.simps\<close>)
qed

lemma l1_insert_stored:
  assumes G: "l1_good n (q, c)" and "n + 1 < u64_mod" and "\<not> l1_invalidated_since c k tags since"
    and "length (rb_html body) \<le> l1_max_bytes c"
  shows "fst (l1_insert k body ttl tags since now c) \<and>
    stored (l1_store (snd (l1_insert k body ttl tags since now c))) k = Some (body, tags, None) \<and>
    (k' \<noteq> k \<longrightarrow> stored (l1_store (snd (l1_insert k body ttl tags since now c))) k' = Some e \<longrightarrow>
       stored (l1_store c) k' = Some e)"
proof -
  have st: "store_inv (l1_store c)" "next_tick (l1_store c) + 1 < u64_mod"
    "store_bytes (l1_store c) + length (rb_html body) < usize_mod" "1 \<le> l1_capacity c"
    using G assms(2,4) by (auto simp: sound_def within_def)
  note S = stored_insert [OF st assms(4), where k = k and v = body and x = "deadline now ttl" and ts = tags
      and u = None and now = now]
  from assms(3,4) have eq: "l1_insert k body ttl tags since now c =
      (True, c\<lparr>l1_store := insert k body (deadline now ttl) tags None (length (rb_html body)) now
         (l1_capacity c) (l1_max_bytes c) (l1_store c)\<rparr>)"
    by (simp add: l1_insert_def Let_def not_less)
  show ?thesis unfolding eq using S(1) S(2) [where k' = k' and e = e] by simp
qed

lemma l1_found_step:
  assumes G: "l1_good n s" and n: "n + 1 < u64_mod" and f: "l1_found (l1_step op s) k = Some e"
  shows "l1_found s k = Some e \<or> (\<exists>since. l1_inserts op k e since \<and> \<not> l1_refused s k e since)"
proof -
  obtain q c where s: "s = (q, c)" by (cases s)
  have inv: "store_inv (l1_store c)" using G by (simp add: s sound_def)
  note T = stored_take_indexed [OF inv prod.collapse [symmetric], of False _ k e]
  note W = stored_take_tagged_where [OF inv prod.collapse [symmetric], of _ _ k e]
  note R = stored_remove_where [OF inv prod.collapse [symmetric], of _ _ k e]
  show ?thesis
  proof (cases op)
    case (L1Insert k' body ttl tags since now)
    show ?thesis
    proof (cases "l1_invalidated_since c k' tags since \<or> l1_max_bytes c < length (rb_html body)")
      case True
      with f L1Insert s show ?thesis
        by (auto simp: l1_found_def l1_insert_def Let_def stored_remove split: if_splits)
    next
      case False
      with l1_insert_stored [OF G [unfolded s] n, of k' tags since body ttl now k e] f L1Insert s show ?thesis
        by (cases "k = k'") (auto simp: l1_found_def)
    qed
  next
    case (L1Get k' now)
    with f s show ?thesis using stored_get [of k' now "l1_store c" k e] by (auto simp: l1_found_def l1_step_store simp del: l1_step.simps)
  next
    case (L1InvTags ts p)
    with f s show ?thesis using T W
      by (auto simp: l1_found_def l1_step_store simp del: l1_step.simps split: option.splits)
  next
    case (L1InvPath m path p now)
    with f s show ?thesis using R by (auto simp: l1_found_def l1_step_store simp del: l1_step.simps)
  next
    case (L1InvPrefix p m now)
    with f s show ?thesis using R by (auto simp: l1_found_def l1_step_store simp del: l1_step.simps)
  next
    case (L1Clear now)
    with f s show ?thesis by (auto simp: l1_found_def l1_step_store simp del: l1_step.simps)
  next
    case (L1Stats now)
    with f s show ?thesis using stored_reap [OF inv, of now k e] by (auto simp: l1_found_def l1_step_store simp del: l1_step.simps)
  next
    case L1Tick
    with f s show ?thesis by (simp add: l1_found_def)
  qed
qed

interpretation l1: stamped_cache l1_good l1_step fst l1_found l1_inserts l1_covers l1_refused
  by unfold_locales
    (rule l1_good_step l1_refused_step l1_covers_refuses l1_covers_removes l1_found_step; assumption)+

definition l1_run :: "l1_op list \<Rightarrow> inval_clock \<times> local_l1 \<Rightarrow> inval_clock \<times> local_l1" where
  "l1_run ops s = fold l1_step ops s"

lemma l1_run_run: "l1.run = l1_run"
  by (simp add: fun_eq_iff l1.run_def l1_run_def)

lemma l1_good_new:
  "2 * max_bytes < usize_mod \<Longrightarrow> l1_good 0 (0, l1_with_limits capacity max_bytes hs hp)"
  using store_inv_new
  by (simp add: l1_with_limits_def sound_def within_def) (simp add: store_new_def inval_slots_def)


section \<open>Freshness of the job cache\<close>

datatype 'n jobs_op =
    JGet job_key nat
  | JInsert job_key 'n "nat option" "string list" "string option" nat nat
  | JInvTags "string list"
  | JInvUserKey string
  | JInvKey job_key
  | JClear
  | JStats nat
  | JTick

fun jobs_step :: "'n jobs_op \<Rightarrow> inval_clock \<times> 'n local_jobs \<Rightarrow> inval_clock \<times> 'n local_jobs" where
  "jobs_step (JGet k now) (q, c) = (q, snd (jobs_get k now c))"
| "jobs_step (JInsert k v ttl tags u since now) (q, c) = (q, snd (jobs_insert k v ttl tags u since now c))"
| "jobs_step (JInvTags tags) (q, c) = snd (jobs_invalidate_tags tags q c)"
| "jobs_step (JInvUserKey u) (q, c) = snd (jobs_invalidate_user_key u q c)"
| "jobs_step (JInvKey k) (q, c) = (q, snd (jobs_invalidate_key k c))"
| "jobs_step JClear (q, c) = jobs_clear q c"
| "jobs_step (JStats now) (q, c) = (q, snd (jobs_stats now c))"
| "jobs_step JTick (q, c) = (snd (clock_next q), c)"

fun jobs_covers :: "'n jobs_op \<Rightarrow> job_key \<Rightarrow> 'n entry \<Rightarrow> bool" where
  "jobs_covers (JInvTags ts) k (_, tags, _) \<longleftrightarrow> list_ex (\<lambda>t. t \<in> set ts) tags"
| "jobs_covers (JInvUserKey u) k (_, _, user_key) \<longleftrightarrow> user_key = Some u"
| "jobs_covers JClear k _ \<longleftrightarrow> True"
| "jobs_covers _ k _ \<longleftrightarrow> False"

fun jobs_inserts :: "'n jobs_op \<Rightarrow> job_key \<Rightarrow> 'n entry \<Rightarrow> nat \<Rightarrow> bool" where
  "jobs_inserts (JInsert k v ttl tags u since now) k' e since' \<longleftrightarrow> k' = k \<and> e = (v, tags, u) \<and> since' = since"
| "jobs_inserts _ k' e since' \<longleftrightarrow> False"

fun jobs_refused :: "inval_clock \<times> 'n local_jobs \<Rightarrow> job_key \<Rightarrow> 'n entry \<Rightarrow> nat \<Rightarrow> bool" where
  "jobs_refused (q, c) k (_, tags, u) since = jobs_invalidated_since c tags u since"

definition jobs_found :: "inval_clock \<times> 'n local_jobs \<Rightarrow> job_key \<Rightarrow> 'n entry option" where
  "jobs_found s = stored (jobs_store (snd s))"

fun jobs_good :: "nat \<Rightarrow> inval_clock \<times> 'n local_jobs \<Rightarrow> bool" where
  "jobs_good n (q, c) \<longleftrightarrow>
     sound n (jobs_capacity c) (usize_mod - 1) (jobs_store c) \<and> 1 \<le> jobs_capacity c \<and>
     q \<le> n \<and> jobs_cleared_at c \<le> q \<and>
     length (jobs_tag_inval c) = INVAL_SLOTS \<and> length (jobs_key_inval c) = INVAL_SLOTS \<and>
     (\<forall>x \<in> set (jobs_tag_inval c) \<union> set (jobs_key_inval c). x \<le> q)"

lemma jobs_slot_less [simp]: "jobs_slot c t < INVAL_SLOTS"
  by (simp add: jobs_slot_def)

lemma jobs_slot_update [simp]:
  "jobs_slot (c\<lparr>jobs_store := st\<rparr>) = jobs_slot c" "jobs_slot (c\<lparr>jobs_tag_inval := xs\<rparr>) = jobs_slot c"
  "jobs_slot (c\<lparr>jobs_key_inval := xs\<rparr>) = jobs_slot c" "jobs_slot (c\<lparr>jobs_cleared_at := x\<rparr>) = jobs_slot c"
  "jobs_slot (c\<lparr>jobs_hits := x\<rparr>) = jobs_slot c" "jobs_slot (c\<lparr>jobs_misses := x\<rparr>) = jobs_slot c"
  by (simp_all add: fun_eq_iff jobs_slot_def)

lemma jobs_step_store:
  "jobs_store (snd (jobs_step (JGet k now) (q, c))) = snd (get k now (jobs_store c))"
  "jobs_store (snd (jobs_step (JInvTags tags) (q, c))) = snd (take_indexed False tags (jobs_store c))"
  "jobs_store (snd (jobs_step (JInvUserKey u) (q, c))) = snd (take_indexed True [u] (jobs_store c))"
  "jobs_store (snd (jobs_step (JInvKey k) (q, c))) = snd (remove k (jobs_store c))"
  "jobs_store (snd (jobs_step JClear (q, c))) = clear (jobs_store c)"
  "jobs_store (snd (jobs_step (JStats now) (q, c))) = reap now (jobs_store c)"
  by (auto simp: jobs_get_def jobs_invalidate_tags_def jobs_invalidate_user_key_def jobs_invalidate_key_def
      jobs_clear_def jobs_stats_def clock_next_def Let_def split: option.splits prod.splits)

lemma usize_max_less: "usize_mod - 1 < usize_mod"
  by (simp add: usize_mod_def)

lemma jobs_good_step:
  assumes "jobs_good n s" and "n + 1 < u64_mod"
  shows "jobs_good (n + 1) (jobs_step op s)"
proof -
  obtain q c where s: "s = (q, c)" by (cases s)
  note G = assms(1) [unfolded s jobs_good.simps]
  have st: "sound n (jobs_capacity c) (usize_mod - 1) (jobs_store c)" using G by auto
  note m = usize_max_less
  have q: "u64_add q 1 = q + 1" and qn: "q + 1 \<le> n + 1" using G assms(2) by auto
  have q': "\<forall>x \<in> set (jobs_tag_inval c). x \<le> q + 1" "\<forall>x \<in> set (jobs_key_inval c). x \<le> q + 1"
    using G by (auto intro: le_SucI)
  show ?thesis
  proof (cases op)
    case (JGet k now)
    with s G sound_get [OF st assms(2) m, of k now] show ?thesis
      by (auto simp: jobs_get_def split: prod.splits option.splits)
  next
    case (JInsert k v ttl tags u since now)
    have "usize_mod - 1 + 0 < usize_mod" using m by simp
    from s G JInsert sound_Suc [OF st] sound_insert [OF st assms(2) this,
        of k v "case ttl of None \<Rightarrow> None | Some t \<Rightarrow> deadline now t" tags u now] show ?thesis
      by (auto simp: jobs_insert_def)
  next
    case (JInvTags tags)
    have "\<forall>x \<in> set (publish_all (jobs_slot c) tags (q + 1) (jobs_tag_inval c)). x \<le> q + 1"
      by (rule publish_all_le) (use q' G in auto)
    with s G q qn q' JInvTags sound_take [OF st assms(2) m, of False tags] show ?thesis
      by (auto simp: jobs_invalidate_tags_def clock_next_def Let_def split: prod.splits)
  next
    case (JInvUserKey u)
    have "\<forall>x \<in> set (publish (jobs_slot c u) (q + 1) (jobs_key_inval c)). x \<le> q + 1"
      by (rule publish_le) (use q' G in auto)
    with s G q qn q' JInvUserKey sound_take [OF st assms(2) m, of True "[u]"] show ?thesis
      by (auto simp: jobs_invalidate_user_key_def clock_next_def Let_def split: prod.splits)
  next
    case (JInvKey k)
    with s G sound_remove [OF sound_Suc [OF st], of k] show ?thesis
      by (auto simp: jobs_invalidate_key_def Let_def split: prod.splits)
  next
    case JClear
    with s G q qn q' sound_clear [OF st assms(2) m] show ?thesis by (auto simp: jobs_clear_def clock_next_def)
  next
    case (JStats now)
    with s G sound_reap [OF st assms(2) m, of now] show ?thesis by (auto simp: jobs_stats_def Let_def)
  next
    case JTick
    with s G q qn q' sound_Suc [OF st] show ?thesis by (auto simp: clock_next_def)
  qed
qed

lemma jobs_step_slots:
  assumes "jobs_good n (q, c)" and "n + 1 < u64_mod" and "jobs_step op (q, c) = (q', c')"
  shows "jobs_cleared_at c \<le> jobs_cleared_at c' \<and> (\<forall>i. jobs_tag_inval c ! i \<le> jobs_tag_inval c' ! i) \<and>
    (\<forall>i. jobs_key_inval c ! i \<le> jobs_key_inval c' ! i) \<and> jobs_slot c' = jobs_slot c"
proof -
  have "jobs_cleared_at c \<le> u64_add q 1" using assms(1,2) by simp
  with assms(3) show ?thesis
    by (cases op)
      (auto simp: jobs_get_def jobs_insert_def jobs_invalidate_tags_def jobs_invalidate_user_key_def
        jobs_invalidate_key_def jobs_clear_def jobs_stats_def clock_next_def Let_def
        intro: publish_mono publish_all_mono split: option.splits prod.splits if_splits)
qed

lemma jobs_refused_step:
  assumes "jobs_good n s" and "n + 1 < u64_mod" and "jobs_refused s k e since"
  shows "jobs_refused (jobs_step op s) k e since"
proof -
  obtain q c where s: "s = (q, c)" by (cases s)
  obtain q' c' where s': "jobs_step op (q, c) = (q', c')" by (cases "jobs_step op (q, c)")
  obtain v tags u where e: "e = (v, tags, u)" by (cases e)
  from jobs_step_slots [OF assms(1) [unfolded s] assms(2) s'] assms(3) show ?thesis
    unfolding s s' e
    by (auto simp: jobs_invalidated_since_def list_ex_iff split: option.splits) (meson less_le_trans)+
qed

lemma jobs_covers_refuses:
  assumes "jobs_good n s" and "n + 1 < u64_mod" and "jobs_covers op k e" and "since < fst (jobs_step op s)"
  shows "jobs_refused (jobs_step op s) k e since"
proof -
  obtain q c where s: "s = (q, c)" by (cases s)
  obtain v tags u where e: "e = (v, tags, u)" by (cases e)
  note G = assms(1) [unfolded s jobs_good.simps]
  show ?thesis
  proof (cases op)
    case (JInvTags ts)
    then obtain t where t: "t \<in> set tags" "t \<in> set ts" using assms(3) by (auto simp: e list_ex_iff)
    have "u64_add q 1 \<le> publish_all (jobs_slot c) ts (u64_add q 1) (jobs_tag_inval c) ! jobs_slot c t"
      by (rule publish_all_at) (use t G in auto)
    with t assms(4) show ?thesis
      by (auto simp: s e JInvTags jobs_invalidate_tags_def clock_next_def Let_def jobs_invalidated_since_def list_ex_iff
          simp del: u64_add_no_wrap intro: less_le_trans split: prod.splits)
  next
    case (JInvUserKey w)
    have "u64_add q 1 \<le> publish (jobs_slot c w) (u64_add q 1) (jobs_key_inval c) ! jobs_slot c w"
      by (rule publish_at) (use G in auto)
    with assms(3,4) show ?thesis
      by (auto simp: s e JInvUserKey jobs_invalidate_user_key_def clock_next_def Let_def jobs_invalidated_since_def
          simp del: u64_add_no_wrap intro: less_le_trans split: prod.splits)
  qed (use assms(3,4) in \<open>simp_all add: s e jobs_clear_def clock_next_def jobs_invalidated_since_def\<close>)
qed

lemma jobs_covers_removes:
  assumes "jobs_good n s" and "jobs_covers op k e"
  shows "jobs_found (jobs_step op s) k \<noteq> Some e"
proof -
  obtain q c where s: "s = (q, c)" by (cases s)
  obtain v tags u where e: "e = (v, tags, u)" by (cases e)
  have inv: "store_inv (jobs_store c)" using assms(1) by (simp add: s sound_def)
  note T = stored_take_indexed [OF inv prod.collapse [symmetric]]
  from assms(2) show ?thesis
    by (cases op) (auto simp: jobs_found_def s jobs_step_store e list_ex_iff T simp del: jobs_step.simps)
qed

lemma jobs_found_step:
  assumes G: "jobs_good n s" and n: "n + 1 < u64_mod" and f: "jobs_found (jobs_step op s) k = Some e"
  shows "jobs_found s k = Some e \<or> (\<exists>since. jobs_inserts op k e since \<and> \<not> jobs_refused s k e since)"
proof -
  obtain q c where s: "s = (q, c)" by (cases s)
  have inv: "store_inv (jobs_store c)" "next_tick (jobs_store c) + 1 < u64_mod" "1 \<le> jobs_capacity c"
    "store_bytes (jobs_store c) + 0 < usize_mod"
    using G n usize_max_less by (auto simp: s sound_def within_def)
  note T = stored_take_indexed [OF inv(1) prod.collapse [symmetric], of _ _ k e]
  show ?thesis
  proof (cases op)
    case (JInsert k' v ttl tags u since now)
    note S = stored_insert [OF inv(1,2,4,3) le0, where k = k' and v = v and ts = tags and u = u and now = now
        and x = "case ttl of None \<Rightarrow> None | Some t \<Rightarrow> deadline now t" and m = "usize_mod - 1"]
    from f JInsert s S(1) S(2) [where k' = k and e = e] show ?thesis
      by (cases "k = k'") (auto simp: jobs_found_def jobs_insert_def split: if_splits)
  next
    case (JGet k' now)
    with f s stored_get [of k' now "jobs_store c" k e] show ?thesis
      by (auto simp: jobs_found_def jobs_step_store simp del: jobs_step.simps)
  next
    case (JStats now)
    with f s stored_reap [OF inv(1), of now k e] show ?thesis
      by (auto simp: jobs_found_def jobs_step_store simp del: jobs_step.simps)
  next
    case JTick
    with f s show ?thesis by (simp add: jobs_found_def)
  qed (use f T in \<open>auto simp: s jobs_found_def jobs_step_store stored_remove simp del: jobs_step.simps split: if_splits\<close>)
qed

interpretation jobs: stamped_cache jobs_good jobs_step fst jobs_found jobs_inserts jobs_covers jobs_refused
  by unfold_locales
    (rule jobs_good_step jobs_refused_step jobs_covers_refuses jobs_covers_removes jobs_found_step; assumption)+

definition jobs_run :: "'n jobs_op list \<Rightarrow> inval_clock \<times> 'n local_jobs \<Rightarrow> inval_clock \<times> 'n local_jobs" where
  "jobs_run ops s = fold jobs_step ops s"

lemma jobs_run_run: "jobs.run = jobs_run"
  by (simp add: fun_eq_iff jobs.run_def jobs_run_def)

lemma jobs_good_new: "jobs_good 0 (0, jobs_with_limits capacity hs)"
  using store_inv_new
  by (simp add: jobs_with_limits_def sound_def within_def) (simp add: store_new_def inval_slots_def)


section \<open>Properties\<close>

text \<open>
  C18: The page cache never serves a page read before an invalidation that covers it (F86). Start from an empty cache,
  run any calls, then an invalidation by tag, path, prefix or a clear that covers the key and its tags, then any calls
  again, with other users of the shared clock interleaved. If the key holds that entry at the end, it was inserted
  after the invalidation, with a read stamp at least as new as the clock value the invalidation took.
\<close>

theorem l1_no_stale_entry:
  assumes "2 * max_bytes < usize_mod" and "length pre + length post + 1 < u64_mod"
    and "s = (0, l1_with_limits capacity max_bytes hs hp)"
    and "l1_covers inval k e" and "l1_found (l1_run (pre @ inval # post) s) k = Some e"
  shows "\<exists>op \<in> set post. \<exists>since. l1_inserts op k e since \<and> fst (l1_run (pre @ [inval]) s) \<le> since"
  using l1.no_stale_entry [of 0 s pre inval post k e] l1_good_new [OF assms(1), of capacity hs hp] assms(2-5)
  by (simp add: l1_run_run del: l1_good.simps)

definition demo_key :: cache_key where
  "demo_key = \<lparr>key_prefix = '''', key_method = ''GET'', key_path = ''/a'', key_query = ''''\<rparr>"

definition demo_body :: rendered_body where
  "demo_body = \<lparr>rb_status = 200, rb_headers = [], rb_html = ''hi'', rb_gzip = None\<rparr>"

lemmas demo_simps = insert_def remove_def sweep_def SWEEP_def evict.simps take_indexed_def unindex_def index_add_def
  store_new_def stored_def slot_entry_def deadline_def clock_next_def publish_def slot_of_hash_def Let_def
  u64_mod_def usize_mod_def u64_checked_add_def live_def inval_slots_def INVAL_SLOTS_def usize_sub_def

theorem l1_no_stale_entry_witness:
  "\<exists>op \<in> set [L1Insert demo_key demo_body 9 [''t''] 1 0]. \<exists>since.
     l1_inserts op demo_key (demo_body, [''t''], None) since \<and>
     fst (l1_run ([L1Insert demo_key demo_body 9 [''t''] 0 0] @ [L1InvTags [''t''] None])
       (0, l1_with_limits 4 100 (\<lambda>_. 0) (\<lambda>_. 0))) \<le> since"
proof (rule l1_no_stale_entry [where max_bytes = 100 and capacity = 4 and hs = "\<lambda>_. 0" and hp = "\<lambda>_. 0"])
  show "l1_found (l1_run ([L1Insert demo_key demo_body 9 [''t''] 0 0] @ L1InvTags [''t''] None #
      [L1Insert demo_key demo_body 9 [''t''] 1 0]) (0, l1_with_limits 4 100 (\<lambda>_. 0) (\<lambda>_. 0))) demo_key =
      Some (demo_body, [''t''], None)"
    by (simp add: l1_run_def demo_simps l1_insert_def l1_invalidate_tags_def l1_invalidated_since_def
        l1_with_limits_def l1_tag_slot_def l1_path_slot_def l1_prefix_slot_def demo_key_def demo_body_def l1_found_def)
qed (simp_all add: usize_mod_def u64_mod_def)

text \<open>
  C20: An insert stamped before a covering invalidation is refused at any later time and leaves the cache as it was: a
  page rendered from data read before the invalidation cannot slip in after it.
\<close>

theorem l1_stale_insert_refused:
  assumes "2 * max_bytes < usize_mod" and "length pre + length post + 1 < u64_mod"
    and "s = (0, l1_with_limits capacity max_bytes hs hp)" and "l1_covers inval k (body, tags, None)"
    and "since < fst (l1_run (pre @ [inval]) s)" and "c = snd (l1_run (pre @ inval # post) s)"
  shows "l1_insert k body ttl tags since now c = (False, c)"
proof -
  have "l1_good (length pre) (l1.run pre s)"
    using l1.good_run [of 0 s pre] l1_good_new [OF assms(1)] assms(2,3) by simp
  from l1.stale_insert_refused [OF this, of inval post k "(body, tags, None)" since] assms(2,4,5)
  have "l1_refused (l1_run (pre @ inval # post) s) k (body, tags, None) since"
    by (simp add: l1_run_run [symmetric])
  then show ?thesis
    unfolding assms(6) by (cases "l1_run (pre @ inval # post) s") (simp add: l1_insert_def)
qed

theorem l1_stale_insert_refused_witness:
  "l1_insert demo_key demo_body 9 [''t''] 0 5
     (snd (l1_run ([] @ L1InvTags [''t''] None # []) (0, l1_with_limits 4 100 (\<lambda>_. 0) (\<lambda>_. 0)))) =
   (False, snd (l1_run ([] @ L1InvTags [''t''] None # []) (0, l1_with_limits 4 100 (\<lambda>_. 0) (\<lambda>_. 0))))"
  by (rule l1_stale_insert_refused [where pre = "[]" and post = "[]" and inval = "L1InvTags [''t''] None"
        and max_bytes = 100 and capacity = 4 and hs = "\<lambda>_. 0" and hp = "\<lambda>_. 0", OF _ _ refl _ _ refl])
    (simp_all add: usize_mod_def u64_mod_def l1_run_def l1_invalidate_tags_def clock_next_def Let_def split: prod.splits)

text \<open>
  The read stamp only refuses: when an insert carries the stamp of the clock as it now stands, it lands, and (if
  the body fits the byte limit) a get before the deadline returns it.
\<close>

theorem l1_fresh_insert_lands:
  assumes "l1_good n (clock, c)" and "n + 1 < u64_mod" and "length (rb_html body) \<le> l1_max_bytes c"
    and "deadline now ttl = Some d" and "now' < d"
  shows "fst (l1_insert k body ttl tags (l1_read_stamp clock) now c) \<and>
    fst (l1_get_with f k now' (snd (l1_insert k body ttl tags (l1_read_stamp clock) now c))) = Some (f body)"
proof -
  have le: "\<forall>x \<in> set (l1_tag_inval c) \<union> set (l1_path_inval c) \<union> set (l1_prefix_inval c). x \<le> clock"
    using assms(1) by simp
  have "\<not> l1_invalidated_since c k tags clock"
    using assms(1) le nth_mem [of "l1_path_slot c (key_method k) (key_path k)" "l1_path_inval c"]
      nth_mem [of "l1_prefix_slot c (key_prefix k)" "l1_prefix_inval c"]
      nth_mem [of "l1_tag_slot c _" "l1_tag_inval c"]
    by (auto simp: l1_invalidated_since_def list_ex_iff not_less)
  then have eq: "l1_insert k body ttl tags (l1_read_stamp clock) now c =
      (True, c\<lparr>l1_store := insert k body (Some d) tags None (length (rb_html body)) now
         (l1_capacity c) (l1_max_bytes c) (l1_store c)\<rparr>)"
    using assms(3,4) by (simp add: l1_insert_def Let_def not_less l1_read_stamp_def clock_stamp_def)
  have st: "store_inv (l1_store c)" "next_tick (l1_store c) + 1 < u64_mod"
    "store_bytes (l1_store c) + length (rb_html body) < usize_mod" "1 \<le> l1_capacity c"
    using assms(1-3) by (auto simp: sound_def within_def)
  obtain s where "map_of (entries (insert k body (Some d) tags None (length (rb_html body)) now
         (l1_capacity c) (l1_max_bytes c) (l1_store c))) k = Some s" "slot_value s = body" "expires_ns s = Some d"
    using insert_lookup [OF st assms(3), of k body "Some d" tags None now] by blast
  then have "fst (get k now' (insert k body (Some d) tags None (length (rb_html body)) now
         (l1_capacity c) (l1_max_bytes c) (l1_store c))) = Some body"
    using assms(5) by (simp add: get_result live_def del: map_of_eq_Some_iff)
  then show ?thesis
    unfolding eq by (auto simp: l1_get_with_def split: prod.splits option.splits)
qed

theorem l1_fresh_insert_lands_witness:
  "fst (l1_get_with rb_html demo_key 7 (snd (l1_insert demo_key demo_body 9 [''t''] (l1_read_stamp 0) 1
     (l1_with_limits 4 100 (\<lambda>_. 0) (\<lambda>_. 0))))) = Some ''hi''"
  using l1_fresh_insert_lands [OF l1_good_new, of 100 demo_body 4 "\<lambda>_. 0" "\<lambda>_. 0" 1 9 10 7 demo_key "[''t'']" rb_html]
  by (simp add: usize_mod_def u64_mod_def deadline_def u64_checked_add_def demo_body_def l1_with_limits_def)

text \<open>
  The job cache never serves a result read before an invalidation that covers it (F89): by one of its tags, by its
  user key, or a clear.
\<close>

theorem jobs_no_stale_entry:
  assumes "length pre + length post + 1 < u64_mod" and "s = (0, jobs_with_limits capacity hs)"
    and "jobs_covers inval k e" and "jobs_found (jobs_run (pre @ inval # post) s) k = Some e"
  shows "\<exists>op \<in> set post. \<exists>since. jobs_inserts op k e since \<and> fst (jobs_run (pre @ [inval]) s) \<le> since"
  using jobs.no_stale_entry [of 0 s pre inval post k e] jobs_good_new [of capacity hs] assms
  by (simp add: jobs_run_run del: jobs_good.simps)

theorem jobs_no_stale_entry_witness:
  "\<exists>op \<in> set [JInsert ''k'' (8::nat) (Some 9) [] (Some ''u'') 1 0]. \<exists>since.
     jobs_inserts op ''k'' (8, [], Some ''u'') since \<and>
     fst (jobs_run ([JInsert ''k'' (7::nat) None [] (Some ''u'') 0 0] @ [JInvUserKey ''u'']) (0, jobs_with_limits 4 (\<lambda>_. 0))) \<le> since"
proof (rule jobs_no_stale_entry [where capacity = 4 and hs = "\<lambda>_. 0"])
  show "jobs_found (jobs_run ([JInsert ''k'' (7::nat) None [] (Some ''u'') 0 0] @ JInvUserKey ''u'' #
      [JInsert ''k'' (8::nat) (Some 9) [] (Some ''u'') 1 0]) (0, jobs_with_limits 4 (\<lambda>_. 0))) ''k'' =
      Some (8, [], Some ''u'')"
    by (simp add: jobs_run_def demo_simps jobs_insert_def jobs_invalidate_user_key_def jobs_invalidated_since_def
        jobs_with_limits_def jobs_slot_def jobs_found_def)
qed (simp_all add: u64_mod_def)


end
