(* ===== verification/CacheKeys.thy ===== *)
theory CacheKeys
  imports LocalCache Url "HOL-Library.Char_ord" "HOL-Library.List_Lexorder"
begin

text \<open>
  The page-cache key of a request (\<^verbatim>\<open>build_cache_key\<close> and \<^verbatim>\<open>sort_query\<close> of
  \<^verbatim>\<open>crates/brust-core/src/cache/mod.rs\<close>) and the striped hit counter. Rust compares strings
  byte by byte, which is the lexicographic order of the library on lists of characters.
\<close>

section \<open>Definitions\<close>

definition query_pairs :: "string \<Rightarrow> string list" where
  "query_pairs q = filter (\<lambda>p. p \<noteq> []) (split_char (CHR ''&'') q)"

definition sort_query :: "string \<Rightarrow> string" where
  "sort_query q = (if q = [] then [] else join_with ''&'' (sort (query_pairs q)))"

definition build_cache_key :: "string \<Rightarrow> string \<Rightarrow> string \<Rightarrow> cache_key" where
  "build_cache_key meth full_path pfx =
     (let (path_only, query) = (case split_once_char (CHR ''?'') full_path of
                                  Some (p, q) \<Rightarrow> (p, q)
                                | None \<Rightarrow> (full_path, []))
      in \<lparr>key_prefix = pfx, key_method = meth, key_path = normalize_request_path path_only,
          key_query = sort_query query\<rparr>)"

text \<open>
  \<^verbatim>\<open>StripedCounter\<close>: one slot per stripe; a thread increments the stripe it was given (an argument here),
  and a read sums the stripes.
\<close>

definition COUNTER_STRIPES :: nat where
  "COUNTER_STRIPES = 16"

definition counter_new :: "nat list" where
  "counter_new = replicate COUNTER_STRIPES 0"

definition counter_incr :: "nat \<Rightarrow> nat list \<Rightarrow> nat list" where
  "counter_incr thread cs =
     (let i = thread mod COUNTER_STRIPES in cs[i := u64_add (cs ! i) 1])"

definition counter_get :: "nat list \<Rightarrow> nat" where
  "counter_get cs = fold u64_add cs 0"

section \<open>Sorting a query\<close>

lemma sort_query_pairs: "sort_query q = join_with ''&'' (sort (query_pairs q))"
  by (simp add: sort_query_def query_pairs_def)

lemma query_pairs_wf: "p \<in> set (query_pairs q) \<Longrightarrow> p \<noteq> [] \<and> CHR ''&'' \<notin> set p"
  by (auto simp: query_pairs_def split_char_pieces)

lemma query_pairs_join:
  assumes "\<And>p. p \<in> set ps \<Longrightarrow> p \<noteq> [] \<and> CHR ''&'' \<notin> set p"
  shows "query_pairs (join_with ''&'' ps) = ps"
proof (cases "ps = []")
  case True
  then show ?thesis by (simp add: query_pairs_def)
next
  case False
  with assms have "split_char (CHR ''&'') (join_with ''&'' ps) = ps" by (intro split_join_with) auto
  with assms show ?thesis by (simp add: query_pairs_def filter_id_conv)
qed

lemma query_pairs_sort_query: "query_pairs (sort_query q) = sort (query_pairs q)"
  unfolding sort_query_pairs by (rule query_pairs_join) (auto dest: query_pairs_wf)

lemma sort_eq_iff_mset: "sort xs = sort ys \<longleftrightarrow> mset xs = mset ys"
  by (metis mset_sort properties_for_sort sorted_sort)

lemma sort_query_eq_iff: "sort_query q = sort_query q' \<longleftrightarrow> mset (query_pairs q) = mset (query_pairs q')"
proof
  assume "sort_query q = sort_query q'"
  then have "sort (query_pairs q) = sort (query_pairs q')" by (metis query_pairs_sort_query)
  then show "mset (query_pairs q) = mset (query_pairs q')" by (simp add: sort_eq_iff_mset)
next
  assume "mset (query_pairs q) = mset (query_pairs q')"
  then show "sort_query q = sort_query q'" by (simp add: sort_query_pairs sort_eq_iff_mset [symmetric])
qed

definition url_path :: "string \<Rightarrow> string" where
  "url_path u = takeWhile (\<lambda>c. c \<noteq> CHR ''?'') u"

definition url_query :: "string \<Rightarrow> string" where
  "url_query u = drop 1 (dropWhile (\<lambda>c. c \<noteq> CHR ''?'') u)"

lemma build_cache_key_parts:
  "build_cache_key m u pfx =
     \<lparr>key_prefix = pfx, key_method = m, key_path = normalize_request_path (url_path u),
      key_query = sort_query (url_query u)\<rparr>"
proof (cases "split_once_char (CHR ''?'') u")
  case None
  then have "CHR ''?'' \<notin> set u" by (simp add: split_once_char_None)
  then have "takeWhile (\<lambda>c. c \<noteq> CHR ''?'') u = u" "dropWhile (\<lambda>c. c \<noteq> CHR ''?'') u = []"
    by (auto simp: takeWhile_eq_all_conv dropWhile_eq_Nil_conv)
  then have "url_path u = u" "url_query u = []" by (simp_all only: url_path_def url_query_def drop_Nil)
  with None show ?thesis by (simp add: build_cache_key_def)
next
  case (Some ab)
  obtain a b where ab: "ab = (a, b)" by (cases ab)
  with Some have u: "u = a @ CHR ''?'' # b" "CHR ''?'' \<notin> set a" by (auto simp: split_once_char_Some)
  then have "\<forall>c \<in> set a. c \<noteq> CHR ''?''" by auto
  then have "takeWhile (\<lambda>c. c \<noteq> CHR ''?'') u = a" "dropWhile (\<lambda>c. c \<noteq> CHR ''?'') u = CHR ''?'' # b"
    by (simp_all add: u(1) takeWhile_append2 dropWhile_append2)
  with Some ab show ?thesis by (simp add: build_cache_key_def url_path_def url_query_def)
qed

lemma sum_counter_incr:
  assumes "length cs = COUNTER_STRIPES" and "sum_list cs + 1 < u64_mod"
  shows "sum_list (counter_incr t cs) = sum_list cs + 1" and "length (counter_incr t cs) = COUNTER_STRIPES"
proof -
  let ?i = "t mod COUNTER_STRIPES"
  have i: "?i < length cs" by (simp add: assms(1) COUNTER_STRIPES_def)
  have "cs ! ?i \<le> sum_list cs" using i by (simp add: elem_le_sum_list)
  then have "u64_add (cs ! ?i) 1 = cs ! ?i + 1" using assms(2) by simp
  then show "sum_list (counter_incr t cs) = sum_list cs + 1"
    using i elem_le_sum_list [OF i] by (simp add: counter_incr_def Let_def sum_list_update)
  show "length (counter_incr t cs) = COUNTER_STRIPES" by (simp add: counter_incr_def Let_def assms(1))
qed

lemma fold_u64_add: "a + sum_list cs < u64_mod \<Longrightarrow> fold u64_add cs a = a + sum_list cs"
proof (induction cs arbitrary: a)
  case (Cons c cs)
  then have "u64_add c a = c + a" by simp
  with Cons show ?case by (simp add: ac_simps)
qed simp

section \<open>Properties\<close>

text \<open>
  C25: Two requests share a page-cache entry exactly when they have the same prefix and method, the same path up to the
  spelling of its escapes, and the same query pairs counted with repeats, in whatever order and with whatever empty
  pairs between them.
\<close>

theorem build_cache_key_eq_iff:
  "build_cache_key m u pfx = build_cache_key m' u' pfx' \<longleftrightarrow>
     m = m' \<and> pfx = pfx' \<and>
     normalize_request_path (url_path u) = normalize_request_path (url_path u') \<and>
     mset (query_pairs (url_query u)) = mset (query_pairs (url_query u'))"
  by (auto simp: build_cache_key_parts sort_query_eq_iff)

text \<open>
  Hits and misses are counted exactly, whichever threads increment: a read after any increments is their number, as
  long as it fits a \<^verbatim>\<open>u64\<close>.
\<close>

theorem counter_counts:
  assumes "length threads < u64_mod"
  shows "counter_get (fold counter_incr threads counter_new) = length threads"
proof -
  have "sum_list (fold counter_incr threads counter_new) = length threads \<and>
      length (fold counter_incr threads counter_new) = COUNTER_STRIPES"
    using assms
  proof (induction threads rule: rev_induct)
    case (snoc t ts)
    then show ?case using sum_counter_incr [of "fold counter_incr ts counter_new" t] by simp
  qed (simp add: counter_new_def)
  with assms show ?thesis by (simp add: counter_get_def fold_u64_add)
qed

theorem counter_counts_witness: "counter_get (fold counter_incr [3, 19, 3] counter_new) = 3"
  using counter_counts [of "[3, 19, 3]"] by (simp add: u64_mod_def)

end
