(* ===== verification/Numbers.thy ===== *)
theory Numbers
  imports Utf8
begin

text \<open>
  Decimal text: \<^verbatim>\<open>to_string\<close> of an unsigned integer and \<^verbatim>\<open>str::parse\<close> of one, as the
  standard library defines them. They invert each other.
\<close>

function decimal :: "nat \<Rightarrow> string" where
  "decimal n = (if n < 10 then [char_of (48 + n)] else decimal (n div 10) @ [char_of (48 + n mod 10)])"
  by auto
termination
  by (relation "measure id") auto

declare decimal.simps [simp del]

text \<open>\<^verbatim>\<open>str::parse::<u64>\<close>: an optional plus sign, then decimal digits, in range.\<close>

definition digits_value :: "string \<Rightarrow> nat" where
  "digits_value s = fold (\<lambda>c n. n * 10 + (byte c - 48)) s 0"

definition parse_below :: "nat \<Rightarrow> string \<Rightarrow> nat option" where
  "parse_below m s =
     (let ds = (case s of c # r \<Rightarrow> if c = CHR ''+'' then r else s | [] \<Rightarrow> s)
      in if ds \<noteq> [] \<and> list_all is_ascii_digit ds \<and> digits_value ds < m then Some (digits_value ds) else None)"

definition parse_u64 :: "string \<Rightarrow> nat option" where
  "parse_u64 = parse_below u64_mod"

lemma digits_value_snoc: "digits_value (s @ [c]) = digits_value s * 10 + (byte c - 48)"
  by (simp add: digits_value_def)

lemma digit_char [simp]: "n < 10 \<Longrightarrow> byte (char_of (48 + n)) = 48 + n"
  by simp

lemma decimal_digits: "list_all is_ascii_digit (decimal n)"
proof (induction n rule: decimal.induct)
  case (1 n)
  have "is_ascii_digit (char_of (48 + k))" if "k < 10" for k :: nat
    using that by (simp add: is_ascii_digit_def)
  then show ?case
    using 1 by (subst decimal.simps) (simp add: mod_less_divisor)
qed

lemma decimal_not_Nil [simp]: "decimal n \<noteq> []"
  by (subst decimal.simps) simp

lemma digits_value_decimal [simp]: "digits_value (decimal n) = n"
proof (induction n rule: decimal.induct)
  case (1 n)
  show ?case
  proof (cases "n < 10")
    case True
    then show ?thesis by (subst decimal.simps) (simp add: digits_value_def)
  next
    case False
    then have "digits_value (decimal n) = n div 10 * 10 + (byte (char_of (48 + n mod 10) :: char) - 48)"
      using 1 by (subst decimal.simps) (simp add: digits_value_snoc)
    also have "byte (char_of (48 + n mod 10) :: char) = 48 + n mod 10"
      by (rule digit_char) simp
    finally show ?thesis by simp
  qed
qed

lemma decimal_inject [simp]: "decimal a = decimal b \<longleftrightarrow> a = b"
  by (metis digits_value_decimal)

lemma decimal_mem: "c \<in> set (decimal n) \<Longrightarrow> is_ascii_digit c"
  using decimal_digits [of n] by (simp add: list_all_iff)

lemma parse_below_decimal [simp]: "n < m \<Longrightarrow> parse_below m (decimal n) = Some n"
proof -
  assume "n < m"
  obtain c r where d: "decimal n = c # r" by (cases "decimal n") auto
  then have "c \<noteq> CHR ''+''"
    using decimal_mem [of c n] by (auto simp: is_ascii_digit_def)
  then show ?thesis
    using \<open>n < m\<close> d decimal_digits [of n] digits_value_decimal [of n] by (simp add: parse_below_def)
qed

end
