(* ===== verification/Headers.thy ===== *)
theory Headers
  imports Numbers
begin

text \<open>
  Responses and headers (\<^verbatim>\<open>crates/brust-core/src/body.rs\<close>). The \<^verbatim>\<open>http\<close> crate is not part of the
  repository: its header map, name and value parsers and status check are the fields of a record every definition
  takes, and the locale \<open>http_headers\<close> states the documented behaviour the code relies on. A header map is known by
  the values it gives for a (lower-case) name.
\<close>

section \<open>The http crate\<close>

record 'm http_api =
  hm_new :: 'm
  hm_insert :: "string \<Rightarrow> string \<Rightarrow> 'm \<Rightarrow> 'm"
  hm_append :: "string \<Rightarrow> string \<Rightarrow> 'm \<Rightarrow> 'm"
  hm_get_all :: "'m \<Rightarrow> string \<Rightarrow> string list"
  name_from_bytes :: "string \<Rightarrow> string option"
  value_from_str :: "string \<Rightarrow> string option"
  value_to_str :: "string \<Rightarrow> string option"
  status_from_u16 :: "nat \<Rightarrow> nat option"

text \<open>The bytes a header value built from a string may hold, and a value shown as a string holds.\<close>

definition header_visible :: "char \<Rightarrow> bool" where
  [byte_simps]: "header_visible c \<longleftrightarrow> (32 \<le> byte c \<and> byte c < 127) \<or> byte c = 9"

locale http_headers =
  fixes h :: "'m http_api"
  assumes get_all_new: "hm_get_all h (hm_new h) n = []"
    and get_all_insert: "hm_get_all h (hm_insert h n v m) n' = (if n' = n then [v] else hm_get_all h m n')"
    and get_all_append: "hm_get_all h (hm_append h n v m) n' = hm_get_all h m n' @ (if n' = n then [v] else [])"
    and name_lower: "name_from_bytes h s = Some n \<Longrightarrow> n = to_ascii_lowercase s"
    and value_from_str_iff: "value_from_str h s = (if list_all header_visible s then Some s else None)"
    and value_to_str_iff: "value_to_str h s = (if list_all header_visible s then Some s else None)"
    and status_iff: "status_from_u16 h code = (if 100 \<le> code \<and> code < 1000 then Some code else None)"

definition hm_get :: "'m http_api \<Rightarrow> 'm \<Rightarrow> string \<Rightarrow> string option" where
  "hm_get h m n = (case hm_get_all h m n of [] \<Rightarrow> None | v # _ \<Rightarrow> Some v)"

definition hm_contains :: "'m http_api \<Rightarrow> 'm \<Rightarrow> string \<Rightarrow> bool" where
  "hm_contains h m n \<longleftrightarrow> hm_get_all h m n \<noteq> []"

text \<open>\<^verbatim>\<open>entry(n).or_insert(v)\<close>\<close>

definition hm_or_insert :: "'m http_api \<Rightarrow> string \<Rightarrow> string \<Rightarrow> 'm \<Rightarrow> 'm" where
  "hm_or_insert h n v m = (if hm_contains h m n then m else hm_insert h n v m)"

text \<open>A list of pairs, names in lower case, is such a map.\<close>

definition is_tchar :: "char \<Rightarrow> bool" where
  "is_tchar c \<longleftrightarrow> is_ascii_alphanumeric c \<or> c \<in> set ''!#$%&*+-.^_`|~'' \<or> c = CHR 0x27"

definition list_http :: "(string \<times> string) list http_api" where
  "list_http =
     \<lparr>hm_new = [],
      hm_insert = (\<lambda>n v m. filter (\<lambda>(n', _). n' \<noteq> n) m @ [(n, v)]),
      hm_append = (\<lambda>n v m. m @ [(n, v)]),
      hm_get_all = (\<lambda>m n. map snd (filter (\<lambda>(n', _). n' = n) m)),
      name_from_bytes = (\<lambda>s. if s \<noteq> [] \<and> list_all is_tchar s then Some (to_ascii_lowercase s) else None),
      value_from_str = (\<lambda>s. if list_all header_visible s then Some s else None),
      value_to_str = (\<lambda>s. if list_all header_visible s then Some s else None),
      status_from_u16 = (\<lambda>n. if 100 \<le> n \<and> n < 1000 then Some n else None)\<rparr>"

lemma filter_other_name: "n' \<noteq> n \<Longrightarrow> filter (\<lambda>(x, _). x = n') (filter (\<lambda>(x, _). x \<noteq> n) m) = filter (\<lambda>(x, _). x = n') m"
  by (induction m) auto

lemma filter_same_name: "filter (\<lambda>(x, _). x = n) (filter (\<lambda>(x, _). x \<noteq> n) m) = []"
  by (induction m) auto

interpretation list_headers: http_headers list_http
  by unfold_locales
    (auto simp: list_http_def filter_other_name filter_same_name simp del: filter_filter split: if_splits)

section \<open>Response builders\<close>

record 'm response =
  resp_status :: nat
  resp_headers :: 'm
  resp_body :: string

definition is_framing_header :: "string \<Rightarrow> bool" where
  "is_framing_header name \<longleftrightarrow>
     eq_ignore_ascii_case name ''content-length'' \<or> eq_ignore_ascii_case name ''transfer-encoding'' \<or>
     eq_ignore_ascii_case name ''connection''"

definition is_request_hop_header :: "string \<Rightarrow> bool" where
  "is_request_hop_header name \<longleftrightarrow>
     eq_ignore_ascii_case name ''transfer-encoding'' \<or> eq_ignore_ascii_case name ''connection''"

definition injects :: "string \<Rightarrow> bool" where
  "injects s \<longleftrightarrow> list_ex (\<lambda>c. byte c \<in> {0, 10, 13}) s"

definition header_map_step :: "'m http_api \<Rightarrow> string \<times> string \<Rightarrow> 'm \<Rightarrow> 'm" where
  "header_map_step h nv hm =
     (let (name, value) = nv
      in if eq_ignore_ascii_case name ''content-type'' \<or> is_framing_header name then hm
         else if injects name \<or> injects value then hm
         else (case (name_from_bytes h name, value_from_str h value) of
                 (Some n, Some v) \<Rightarrow> hm_append h n v hm
               | _ \<Rightarrow> hm))"

definition header_map :: "'m http_api \<Rightarrow> string \<Rightarrow> (string \<times> string) list \<Rightarrow> 'm" where
  "header_map h content_type extra_headers =
     (let ct = (if content_type = ''text/html; charset=utf-8'' then Some ''text/html; charset=utf-8''
                else value_from_str h content_type);
          hm = (case ct of Some ct \<Rightarrow> hm_insert h ''content-type'' ct (hm_new h) | None \<Rightarrow> hm_new h)
      in fold (header_map_step h) extra_headers hm)"

definition resp_with :: "'m http_api \<Rightarrow> nat \<Rightarrow> 'm \<Rightarrow> string \<Rightarrow> 'm response" where
  "resp_with h status headers body =
     \<lparr>resp_status = (case status_from_u16 h status of Some s \<Rightarrow> s | None \<Rightarrow> 500),
      resp_headers = headers, resp_body = body\<rparr>"

definition resp :: "'m http_api \<Rightarrow> nat \<Rightarrow> string \<Rightarrow> (string \<times> string) list \<Rightarrow> string \<Rightarrow> 'm response" where
  "resp h status content_type extra_headers body =
     resp_with h status (header_map h content_type extra_headers) body"

definition resp_head :: "'m http_api \<Rightarrow> nat \<Rightarrow> string \<Rightarrow> (string \<times> string) list \<Rightarrow> nat \<Rightarrow> 'm response" where
  "resp_head h status content_type extra_headers content_length =
     (let response = resp h status content_type extra_headers []
      in case value_from_str h (decimal content_length) of
           Some len \<Rightarrow> response\<lparr>resp_headers := hm_insert h ''content-length'' len (resp_headers response)\<rparr>
         | None \<Rightarrow> response)"

definition error_400 :: "'m http_api \<Rightarrow> 'm response" where
  "error_400 h = resp h 400 ''text/plain'' [] ''bad request''"

definition error_404 :: "'m http_api \<Rightarrow> 'm response" where
  "error_404 h = resp h 404 ''text/plain'' [] ''not found''"

text \<open>
  \<^verbatim>\<open>serde_json\<close>'s printer of an object is the argument \<open>to_json\<close>.
\<close>

datatype json_field = JStr string | JNum nat

type_synonym json_printer = "(string \<times> json_field) list \<Rightarrow> string"

definition problem :: "'m http_api \<Rightarrow> json_printer \<Rightarrow> string \<Rightarrow> nat \<Rightarrow> string \<Rightarrow> 'm response" where
  "problem h to_json title status detail =
     resp h status ''application/problem+json'' []
       (to_json [(''type'', JStr ''about:blank''), (''title'', JStr title), (''status'', JNum status),
                 (''detail'', JStr detail)])"

definition error_404_problem :: "'m http_api \<Rightarrow> json_printer \<Rightarrow> 'm response" where
  "error_404_problem h to_json = problem h to_json ''Not Found'' 404 ''this deployment serves actions only''"

definition error_403_cross_site :: "'m http_api \<Rightarrow> json_printer \<Rightarrow> string \<Rightarrow> 'm response" where
  "error_403_cross_site h to_json meth =
     problem h to_json ''CrossSiteRejected'' 403
       (''cross-site '' @ meth @ '' to an action is rejected; set [actions] cross_site = '' @ [CHR 0x22] @ ''allow'' @
        [CHR 0x22] @ '', or list the exact origin in [cors].origins (a wildcard does not count)'')"

definition error_405 :: "'m http_api \<Rightarrow> 'm response" where
  "error_405 h = resp h 405 ''text/plain'' [(''Allow'', ''GET, HEAD'')] ''method not allowed''"

definition error_411 :: "'m http_api \<Rightarrow> 'm response" where
  "error_411 h = resp h 411 ''text/plain'' [] ''length required''"

definition error_413 :: "'m http_api \<Rightarrow> 'm response" where
  "error_413 h = resp h 413 ''text/plain'' [] ''payload too large''"

definition error_415 :: "'m http_api \<Rightarrow> 'm response" where
  "error_415 h = resp h 415 ''text/plain'' [] ''unsupported media type''"

definition error_500 :: "'m http_api \<Rightarrow> 'm response" where
  "error_500 h = resp h 500 ''text/plain'' [] ''500 Internal Server Error''"

definition error_503 :: "'m http_api \<Rightarrow> string \<Rightarrow> 'm response" where
  "error_503 h msg = resp h 503 ''text/plain'' [] msg"

definition error_504 :: "'m http_api \<Rightarrow> string \<Rightarrow> 'm response" where
  "error_504 h msg = resp h 504 ''text/plain'' [] msg"

definition canned_500 :: "'m http_api \<Rightarrow> 'm response" where
  "canned_500 h =
     \<lparr>resp_status = 500, resp_headers = hm_append h ''content-type'' ''text/plain'' (hm_new h),
      resp_body = ''500 Internal Server Error''\<rparr>"

definition header_str :: "'m http_api \<Rightarrow> 'm \<Rightarrow> string \<Rightarrow> string option" where
  "header_str h headers name =
     (case name_from_bytes h name of
        None \<Rightarrow> None
      | Some n \<Rightarrow> (case hm_get h headers n of
                    None \<Rightarrow> None
                  | Some v \<Rightarrow> map_option trim (value_to_str h v)))"

definition head_only :: "'m http_api \<Rightarrow> 'm response \<Rightarrow> 'm response" where
  "head_only h r =
     r\<lparr>resp_headers := hm_insert h ''content-length'' (decimal (length (resp_body r))) (resp_headers r),
       resp_body := []\<rparr>"

section \<open>What a built header map holds\<close>

text \<open>The value an extra header contributes under the lower-case name \<open>n\<close>: all of the guards of the loop.\<close>

definition contributes :: "'m http_api \<Rightarrow> string \<Rightarrow> string \<times> string \<Rightarrow> string list" where
  "contributes h n nv =
     (if name_from_bytes h (fst nv) = Some n \<and> list_all header_visible (snd nv) \<and>
         \<not> injects (fst nv) \<and> \<not> eq_ignore_ascii_case (fst nv) ''content-type'' \<and> \<not> is_framing_header (fst nv)
      then [snd nv] else [])"

lemma visible_no_injection: "list_all header_visible s \<Longrightarrow> \<not> injects s"
  by (auto simp: list_all_iff list_ex_iff injects_def header_visible_def)

lemma lower_literals [simp]:
  "to_ascii_lowercase ''content-type'' = ''content-type''" "to_ascii_lowercase ''content-length'' = ''content-length''"
  "to_ascii_lowercase ''transfer-encoding'' = ''transfer-encoding''"
  "to_ascii_lowercase ''connection'' = ''connection''"
  by code_simp+

lemma is_framing_lower [simp]: "is_framing_header (to_ascii_lowercase s) = is_framing_header s"
  by (simp add: is_framing_header_def eq_ignore_ascii_case_def)

context http_headers
begin

lemma get_all_step:
  "hm_get_all h (header_map_step h nv m) n = hm_get_all h m n @ contributes h n nv"
  using visible_no_injection [of "snd nv"]
  by (auto simp: header_map_step_def contributes_def get_all_append value_from_str_iff split: prod.splits option.splits)

lemma get_all_fold:
  "hm_get_all h (fold (header_map_step h) extra m) n = hm_get_all h m n @ concat (map (contributes h n) extra)"
  by (induction extra arbitrary: m) (simp_all add: get_all_step)

lemma get_all_header_map:
  "hm_get_all h (header_map h ct extra) n =
     (if n = ''content-type'' \<and> (ct = ''text/html; charset=utf-8'' \<or> list_all header_visible ct) then [ct] else []) @
     concat (map (contributes h n) extra)"
  by (simp add: header_map_def Let_def get_all_fold get_all_insert get_all_new value_from_str_iff)

lemma contributes_name: "contributes h n nv \<noteq> [] \<Longrightarrow>
  n = to_ascii_lowercase (fst nv) \<and> \<not> injects (snd nv) \<and> n \<noteq> ''content-type'' \<and> \<not> is_framing_header n"
  using name_lower [of "fst nv" n] visible_no_injection [of "snd nv"]
  by (auto simp: contributes_def eq_ignore_ascii_case_def split: if_splits)

lemma header_map_reserved:
  assumes "is_framing_header n \<or> n = ''content-type''"
  shows "concat (map (contributes h n) extra) = []"
proof -
  have "contributes h n nv = []" for nv
    using assms contributes_name [of n nv] by blast
  then show ?thesis by simp
qed

lemma get_insert: "hm_get h (hm_insert h n v m) n' = (if n' = n then Some v else hm_get h m n')"
  by (simp add: hm_get_def get_all_insert)

lemma get_all_or_insert:
  "hm_get_all h (hm_or_insert h n v m) n' =
     (if n' = n \<and> hm_get_all h m n = [] then [v] else hm_get_all h m n')"
  by (simp add: hm_or_insert_def hm_contains_def get_all_insert)

end

section \<open>Properties\<close>

text \<open>
  C26: Every response the builders make is safe to frame: it carries at most the one content type it was given, no
  content length, transfer encoding or connection header (in any spelling) among its extra headers, and no value with a
  carriage return, line feed or NUL; the extra headers that pass the guards are all there, in order. Its status is
  the given one, or 500 when that is not a status.
\<close>

theorem resp_headers_safe:
  assumes "http_headers h" and "r = resp h status ct extra body"
  shows "resp_body r = body \<and> resp_status r = (if 100 \<le> status \<and> status < 1000 then status else 500) \<and>
    (is_framing_header n \<longrightarrow> hm_get_all h (resp_headers r) n = []) \<and>
    length (hm_get_all h (resp_headers r) ''content-type'') \<le> 1 \<and>
    list_all (\<lambda>v. \<not> injects v) (hm_get_all h (resp_headers r) n) \<and>
    (n \<noteq> ''content-type'' \<longrightarrow> hm_get_all h (resp_headers r) n = concat (map (contributes h n) extra))"
proof -
  note G = http_headers.get_all_header_map [OF assms(1), of ct extra]
  have r: "resp_headers r = header_map h ct extra" "resp_body r = body"
    "resp_status r = (if 100 \<le> status \<and> status < 1000 then status else 500)"
    using http_headers.status_iff [OF assms(1), of status] by (simp_all add: assms(2) resp_def resp_with_def)
  have "list_all (\<lambda>v. \<not> injects v) (concat (map (contributes h n) extra))"
    using visible_no_injection by (auto simp: list_all_iff contributes_def)
  moreover have "\<not> injects ''text/html; charset=utf-8''" by code_simp
  ultimately show ?thesis
    using http_headers.header_map_reserved [OF assms(1), of n extra]
      http_headers.header_map_reserved [OF assms(1), of "''content-type''" extra] visible_no_injection [of ct]
    by (auto simp: r G is_framing_header_def eq_ignore_ascii_case_def simp del: concat_eq_Nil_conv)
qed

theorem resp_headers_safe_witness:
  "hm_get_all list_http (resp_headers (resp list_http 200 ''text/plain'' [(''X-A'', ''1''), (''Connection'', ''close'')] ''hi''))
     ''connection'' = []"
  using resp_headers_safe [OF list_headers.http_headers_axioms refl, where n = "''connection''" and status = 200 and ct = "''text/plain''"
      and extra = "[(''X-A'', ''1''), (''Connection'', ''close'')]" and body = "''hi''"]
  by (simp add: is_framing_header_def)


end
