(* ===== verification/Config.thy ===== *)
theory Config
  imports Headers
begin

text \<open>
  Configuration (\<^verbatim>\<open>crates/brust-core/src/config.rs\<close>): the CORS and actions settings and their boot checks,
  the stream list, the script tags for the browser client, trailing slashes, invalidation arguments and who may read
  the statistics. Of the manifest the checks read the base path, the actions-only flag and the route patterns.
\<close>

unbundle bit_operations_syntax

section \<open>CORS settings\<close>

datatype config_error =
    CorsOriginsEmpty
  | CorsCredentialsWildcard
  | StreamEntryForm string
  | StreamEntryMethod string
  | StreamEntryPath string
  | BaseUrlNotAbsolute string
  | BaseUrlNotOrigin string
  | RootPrefixNeedsActionsOnly
  | PrefixForm string
  | PrefixOutsideBase string string
  | PrefixReserved string string
  | PrefixShadowsRoute string string
  | MaxBodyBytes
  | MaxResponseBytes
  | MaxStreamBytes
  | StreamTimes
  | MaxStreams
  | StatsTokenEmpty
  | StatsTokenUnused string
  | StatsMode string
  | PrefixWithKey

record cors_config =
  cors_origins :: "string list"
  cors_methods :: "string list option"
  cors_headers :: "string list option"
  cors_expose_headers :: "string list option"
  cors_credentials :: bool
  cors_max_age_seconds :: "nat option"

definition is_wildcard :: "cors_config \<Rightarrow> bool" where
  "is_wildcard cfg \<longleftrightarrow> list_ex (\<lambda>o'. o' = ''*'') (cors_origins cfg)"

definition cors_validate :: "cors_config \<Rightarrow> (config_error, unit) result" where
  "cors_validate cfg =
     (if cors_origins cfg = [] then Err CorsOriginsEmpty
      else if cors_credentials cfg \<and> is_wildcard cfg then Err CorsCredentialsWildcard
      else Ok ())"

section \<open>Actions settings\<close>

definition DEFAULT_ACTION_PREFIX :: string where
  "DEFAULT_ACTION_PREFIX = ''/_brust/action''"

definition DEFAULT_MAX_ACTION_BODY_BYTES :: nat where
  "DEFAULT_MAX_ACTION_BODY_BYTES = 1048576"

definition DEFAULT_MAX_ACTION_RESPONSE_BYTES :: nat where
  "DEFAULT_MAX_ACTION_RESPONSE_BYTES = 8388608"

definition MAX_ACTION_BYTES :: nat where
  "MAX_ACTION_BYTES = 67108864"

definition ACTION_INLINE_BODY_BYTES :: nat where
  "ACTION_INLINE_BODY_BYTES = 262144"

definition DEFAULT_MAX_STREAM_BYTES :: nat where
  "DEFAULT_MAX_STREAM_BYTES = 268435456"

definition MAX_STREAM_BYTES :: nat where
  "MAX_STREAM_BYTES = 4294967296"

definition DEFAULT_STREAM_IDLE_MS :: nat where
  "DEFAULT_STREAM_IDLE_MS = 30000"

definition DEFAULT_STREAM_TOTAL_MS :: nat where
  "DEFAULT_STREAM_TOTAL_MS = 900000"

definition RESERVED :: "string list" where
  "RESERVED = [''/ping'', ''/public'', ''/_brust/client'', ''/_brust/cache'']"

record stream_route =
  sr_method :: string
  sr_path :: string

record stream_config =
  sc_routes :: "stream_route list"
  sc_max_bytes :: nat
  sc_idle_ms :: nat
  sc_total_ms :: nat
  sc_max_streams :: "nat option"

definition stream_config_default :: stream_config where
  "stream_config_default =
     \<lparr>sc_routes = [], sc_max_bytes = DEFAULT_MAX_STREAM_BYTES, sc_idle_ms = DEFAULT_STREAM_IDLE_MS,
      sc_total_ms = DEFAULT_STREAM_TOTAL_MS, sc_max_streams = None\<rparr>"

datatype cross_site = Reject | Allow

record actions_config =
  ac_prefix :: string
  ac_max_body_bytes :: nat
  ac_max_response_bytes :: nat
  ac_cross_site :: cross_site
  ac_stream :: stream_config

definition actions_config_default :: actions_config where
  "actions_config_default =
     \<lparr>ac_prefix = DEFAULT_ACTION_PREFIX, ac_max_body_bytes = DEFAULT_MAX_ACTION_BODY_BYTES,
      ac_max_response_bytes = DEFAULT_MAX_ACTION_RESPONSE_BYTES, ac_cross_site = Reject,
      ac_stream = stream_config_default\<rparr>"

text \<open>\<^verbatim>\<open>StreamRoute::parse\<close>\<close>

definition path_segs :: "string \<Rightarrow> string list" where
  "path_segs path = drop 1 (split_char (CHR ''/'') path)"

definition bad_star :: "string list \<Rightarrow> bool" where
  "bad_star segs \<longleftrightarrow>
     list_ex (\<lambda>(i, s). CHR ''*'' \<in> set s \<and> (s \<noteq> ''*'' \<or> i + 1 \<noteq> length segs)) (List.enumerate 0 segs)"

definition stream_route_parse :: "string \<Rightarrow> (config_error, stream_route) result" where
  "stream_route_parse entry =
     (case split_once_char (CHR '' '') (trim entry) of
        None \<Rightarrow> Err (StreamEntryForm entry)
      | Some (m, p) \<Rightarrow>
          let meth = to_ascii_uppercase m; path = trim p
          in if meth \<notin> {''POST'', ''PUT'', ''PATCH''} then Err (StreamEntryMethod entry)
             else
               let segs = path_segs path
               in if \<not> starts_with path ''/'' \<or> (path \<noteq> ''/'' \<and> list_ex (\<lambda>s. s = []) segs) \<or> bad_star segs
                  then Err (StreamEntryPath entry)
                  else Ok \<lparr>sr_method = meth, sr_path = path\<rparr>)"

text \<open>The loop of \<^verbatim>\<open>StreamRoute::matches\<close> over the two segment iterators.\<close>

fun segs_match :: "string list \<Rightarrow> string list \<Rightarrow> bool" where
  "segs_match [] [] = True"
| "segs_match (w # ws) (g # gs) =
     (if w = ''*'' then g \<noteq> []
      else if starts_with w '':'' then g \<noteq> [] \<and> segs_match ws gs
      else w = g \<and> segs_match ws gs)"
| "segs_match _ _ = False"

definition stream_route_matches :: "stream_route \<Rightarrow> string \<Rightarrow> string \<Rightarrow> bool" where
  "stream_route_matches r meth rel \<longleftrightarrow>
     eq_ignore_ascii_case meth (sr_method r) \<and> segs_match (path_segs (sr_path r)) (path_segs rel)"

definition under :: "string \<Rightarrow> string \<Rightarrow> bool" where
  "under path p \<longleftrightarrow>
     path = p \<or> (length p < length path \<and> path ! length p = CHR ''/'' \<and> starts_with path p)"

definition is_under :: "actions_config \<Rightarrow> string \<Rightarrow> bool" where
  "is_under ac path \<longleftrightarrow>
     (if ac_prefix ac = ''/'' then
        starts_with path ''/'' \<and> path \<noteq> ''/ping'' \<and> \<not> under path ''/_brust'' \<and> \<not> under path ''/public''
      else under path (ac_prefix ac))"

definition streams :: "actions_config \<Rightarrow> string \<Rightarrow> string \<Rightarrow> bool" where
  "streams ac meth full \<longleftrightarrow>
     (if sc_routes (ac_stream ac) = [] then False
      else
        let path = (case split_once_char (CHR ''?'') full of Some (p, _) \<Rightarrow> p | None \<Rightarrow> full);
            rel = (if ac_prefix ac = ''/'' then path
                   else case drop (min (length (ac_prefix ac)) (length path)) path of [] \<Rightarrow> ''/'' | r \<Rightarrow> r)
        in list_ex (\<lambda>r. stream_route_matches r meth rel) (sc_routes (ac_stream ac)))"

definition is_default_prefix :: "actions_config \<Rightarrow> bool" where
  "is_default_prefix ac \<longleftrightarrow> ac_prefix ac = DEFAULT_ACTION_PREFIX"

definition default_prefix_under :: "string \<Rightarrow> string" where
  "default_prefix_under base = base @ DEFAULT_ACTION_PREFIX"

definition validate_limits :: "actions_config \<Rightarrow> (config_error, unit) result" where
  "validate_limits ac =
     (let st = ac_stream ac
      in if \<not> (1 \<le> ac_max_body_bytes ac \<and> ac_max_body_bytes ac \<le> MAX_ACTION_BYTES) then Err MaxBodyBytes
         else if \<not> (ACTION_INLINE_BODY_BYTES \<le> ac_max_response_bytes ac \<and> ac_max_response_bytes ac \<le> MAX_ACTION_BYTES)
           then Err MaxResponseBytes
         else if \<not> (1 \<le> sc_max_bytes st \<and> sc_max_bytes st \<le> MAX_STREAM_BYTES) then Err MaxStreamBytes
         else if sc_idle_ms st = 0 \<or> sc_total_ms st = 0 then Err StreamTimes
         else if sc_max_streams st = Some 0 then Err MaxStreams
         else Ok ())"

record manifest_paths =
  mp_base_path :: string
  mp_actions_only :: bool
  mp_patterns :: "string list"

definition seg_ok :: "string \<Rightarrow> bool" where
  "seg_ok s \<longleftrightarrow> s \<noteq> [] \<and> s \<noteq> ''.'' \<and> s \<noteq> ''..'' \<and>
     list_all (\<lambda>b. is_ascii_alphanumeric b \<or> b \<in> set ''._~-'') s"

definition actions_validate :: "actions_config \<Rightarrow> manifest_paths \<Rightarrow> (config_error, unit) result" where
  "actions_validate ac m =
     (let p = ac_prefix ac; base = mp_base_path m
      in if p = ''/'' then
           (if \<not> mp_actions_only m then Err RootPrefixNeedsActionsOnly else validate_limits ac)
         else if \<not> starts_with p ''/'' \<or> length p < 2 \<or> ends_with p ''/'' \<or>
                 \<not> list_all seg_ok (split_char (CHR ''/'') (drop 1 p)) then Err (PrefixForm p)
         else if base \<noteq> [] \<and> \<not> under p base then Err (PrefixOutsideBase p base)
         else
           (case find (\<lambda>r. under p (base @ r) \<or> under (base @ r) p) RESERVED of
              Some r \<Rightarrow> Err (PrefixReserved p (base @ r))
            | None \<Rightarrow>
                (case find (\<lambda>rt. rt = p \<or> (under rt p \<and> contains_str rt ''{*'')) (mp_patterns m) of
                   Some rt \<Rightarrow> Err (PrefixShadowsRoute p rt)
                 | None \<Rightarrow> validate_limits ac)))"

section \<open>The browser client\<close>

datatype action_credentials = SameOrigin | Include | Omit

fun credentials_str :: "action_credentials \<Rightarrow> string" where
  "credentials_str SameOrigin = ''same-origin''"
| "credentials_str Include = ''include''"
| "credentials_str Omit = ''omit''"

record actions_client =
  cl_prefix :: "string option"
  cl_base_url :: "string option"
  cl_credentials :: action_credentials

definition base_url_rest :: "string \<Rightarrow> string option" where
  "base_url_rest b = (case strip_prefix ''https://'' b of Some r \<Rightarrow> Some r | None \<Rightarrow> strip_prefix ''http://'' b)"

definition client_validate :: "actions_client \<Rightarrow> (config_error, unit) result" where
  "client_validate c =
     (case cl_base_url c of
        None \<Rightarrow> Ok ()
      | Some b \<Rightarrow>
          (case base_url_rest b of
             None \<Rightarrow> Err (BaseUrlNotAbsolute b)
           | Some rest \<Rightarrow>
               if rest = [] \<or>
                  list_ex (\<lambda>c. c \<in> set ''/?#@'' \<or> c = CHR 0x5C \<or> byte c \<le> 32 \<or> byte c = 127) rest
               then Err (BaseUrlNotOrigin b) else Ok ()))"

definition lower_hex :: "nat \<Rightarrow> char" where
  "lower_hex n = ''0123456789abcdef'' ! n"

definition hex4_ctl :: "char \<Rightarrow> string" where
  "hex4_ctl c = ''00'' @ [lower_hex (byte c div 16), lower_hex (byte c mod 16)]"

text \<open>
  \<^verbatim>\<open>js_string\<close> on the UTF-8 bytes: the line and paragraph separators are the sequences E2 80 A8 and E2 80 A9.
\<close>

fun js_escape :: "string \<Rightarrow> string" where
  "js_escape [] = []"
| "js_escape (c # s) =
     (if c = CHR 0x22 then [CHR 0x5C, CHR 0x22] @ js_escape s
      else if c = CHR 0x5C then [CHR 0x5C, CHR 0x5C] @ js_escape s
      else if c = CHR ''<'' then CHR 0x5C # ''u003c'' @ js_escape s
      else if c = CHR ''>'' then CHR 0x5C # ''u003e'' @ js_escape s
      else if c = CHR ''&'' then CHR 0x5C # ''u0026'' @ js_escape s
      else if byte c < 32 then CHR 0x5C # ''u'' @ hex4_ctl c @ js_escape s
      else
        (case s of
           a # b # r \<Rightarrow>
             if c = CHR 0xE2 \<and> a = CHR 0x80 \<and> b = CHR 0xA8 then CHR 0x5C # ''u2028'' @ js_escape r
             else if c = CHR 0xE2 \<and> a = CHR 0x80 \<and> b = CHR 0xA9 then CHR 0x5C # ''u2029'' @ js_escape r
             else c # js_escape s
         | _ \<Rightarrow> c # js_escape s))"

definition js_string :: "string \<Rightarrow> string" where
  "js_string s = [CHR 0x22] @ js_escape s @ [CHR 0x22]"

definition tags_under :: "actions_client \<Rightarrow> string \<Rightarrow> string option" where
  "tags_under c base =
     (let dflt = base @ DEFAULT_ACTION_PREFIX;
          out = (case cl_prefix c of
                   Some p \<Rightarrow> if p \<noteq> dflt
                     then ''<script>globalThis.__BRUST_ACTION_PREFIX__='' @ [CHR 0x22] @ p @ [CHR 0x22] @ ''</script>''
                     else []
                 | None \<Rightarrow> []);
          stmts = (case cl_base_url c of
                     Some b \<Rightarrow> [''globalThis.__BRUST_ACTION_BASE__='' @ js_string b] | None \<Rightarrow> []) @
                  (if cl_credentials c \<noteq> SameOrigin
                   then [''globalThis.__BRUST_ACTION_CREDENTIALS__='' @ js_string (credentials_str (cl_credentials c))]
                   else []);
          out = (if stmts \<noteq> [] then out @ ''<script>'' @ join_with '';'' stmts @ ''</script>'' else out)
      in if out \<noteq> [] then Some out else None)"

definition client_tags :: "actions_client \<Rightarrow> string option" where
  "client_tags c = tags_under c []"

section \<open>Trailing slashes, invalidation, statistics\<close>

datatype trailing_slash = Strict | Redirect | Ignore

definition trim_end_slashes :: "string \<Rightarrow> string" where
  "trim_end_slashes s = rev (dropWhile (\<lambda>c. c = CHR ''/'') (rev s))"

definition trailing_slash_strip :: "string \<Rightarrow> string option" where
  "trailing_slash_strip path =
     (if length path \<le> 1 \<or> \<not> ends_with path ''/'' then None
      else let t = trim_end_slashes path in Some (if t = [] then ''/'' else t))"

record invalidate_args =
  ia_key :: "string option"
  ia_tags :: "string list"
  ia_path :: "string option"
  ia_method :: "string option"
  ia_prefix :: "string option"

definition invalidate_args_validate :: "invalidate_args \<Rightarrow> (config_error, unit) result" where
  "invalidate_args_validate a = (if ia_prefix a \<noteq> None \<and> ia_key a \<noteq> None then Err PrefixWithKey else Ok ())"

record invalidate_result =
  l1_removed :: nat
  job_removed :: nat

datatype stats_access = Off | Public | Token string

definition stats_access_parse :: "string \<Rightarrow> string option \<Rightarrow> (config_error, stats_access) result" where
  "stats_access_parse mode token =
     (if mode = ''off'' \<and> token = None then Ok Off
      else if mode = ''public'' \<and> token = None then Ok Public
      else if mode = ''token'' then
        (case token of Some t \<Rightarrow> if t \<noteq> [] then Ok (Token t) else Err StatsTokenEmpty | None \<Rightarrow> Err StatsTokenEmpty)
      else if mode = ''off'' \<or> mode = ''public'' then Err (StatsTokenUnused mode)
      else Err (StatsMode mode))"

definition bearer :: "'m http_api \<Rightarrow> 'm \<Rightarrow> string option" where
  "bearer h headers =
     (case hm_get h headers ''authorization'' of
        None \<Rightarrow> None
      | Some v \<Rightarrow>
          if 7 \<le> length v \<and> eq_ignore_ascii_case (take 7 v) ''bearer '' then Some (drop 7 v) else None)"

definition byte_at :: "string \<Rightarrow> nat \<Rightarrow> nat" where
  "byte_at s i = (if i < length s then byte (s ! i) else 0)"

definition ct_eq :: "string \<Rightarrow> string \<Rightarrow> bool" where
  "ct_eq a b \<longleftrightarrow>
     fold (\<lambda>i diff. diff OR (byte_at a i XOR byte_at b i)) [0..<max (length a) (length b)]
       (length a XOR length b) = 0"

definition stats_allows :: "'m http_api \<Rightarrow> stats_access \<Rightarrow> 'm \<Rightarrow> bool" where
  "stats_allows h access headers \<longleftrightarrow>
     (case access of
        Off \<Rightarrow> False
      | Public \<Rightarrow> True
      | Token t \<Rightarrow> (case bearer h headers of None \<Rightarrow> False | Some got \<Rightarrow> ct_eq got t))"

section \<open>Paths under a prefix\<close>

lemma under_iff: "under path p \<longleftrightarrow> path = p \<or> (\<exists>r. path = p @ CHR ''/'' # r)"
proof
  assume "under path p"
  then consider "path = p" | r where "path = p @ r" "path ! length p = CHR ''/''" "length p < length path"
    by (auto simp: under_def starts_with_iff)
  then show "path = p \<or> (\<exists>r. path = p @ CHR ''/'' # r)"
  proof cases
    case 2
    then show ?thesis by (cases r) auto
  qed simp
qed (auto simp: under_def starts_with_iff)

lemma under_overlap:
  assumes "under x p" and "under x r"
  shows "under p r \<or> under r p"
proof -
  obtain a where a: "x = p @ a" "a = [] \<or> (\<exists>t. a = CHR ''/'' # t)" using assms(1) by (auto simp: under_iff)
  obtain b where b: "x = r @ b" "b = [] \<or> (\<exists>t. b = CHR ''/'' # t)" using assms(2) by (auto simp: under_iff)
  from a(1) b(1) obtain u where "p = r @ u \<and> u @ a = b \<or> p @ u = r \<and> a = u @ b"
    by (auto simp: append_eq_append_conv2)
  with a(2) b(2) show ?thesis by (cases u) (auto simp: under_iff)
qed

lemma under_trans: "under x y \<Longrightarrow> under y z \<Longrightarrow> under x z"
  by (auto simp: under_iff)

section \<open>Comparing tokens\<close>

lemma xor_nat_0: "(a XOR b = 0) = (a = b)" for a b :: nat
  by (metis xor.assoc xor.right_neutral xor_self_eq)

lemma fold_or_0: "fold (\<lambda>i d. d OR f i) xs d = 0 \<longleftrightarrow> d = 0 \<and> (\<forall>i \<in> set xs. f i = 0)" for d :: nat
  by (induction xs arbitrary: d) (auto simp: or_eq_0_iff)

lemma ct_eq_iff: "ct_eq a b \<longleftrightarrow> a = b"
proof -
  have "ct_eq a b \<longleftrightarrow> length a = length b \<and> (\<forall>i < max (length a) (length b). byte_at a i = byte_at b i)"
    by (auto simp: ct_eq_def fold_or_0 xor_nat_0)
  also have "\<dots> \<longleftrightarrow> a = b"
    by (auto simp: list_eq_iff_nth_eq byte_at_def)
  finally show ?thesis .
qed

section \<open>Reading a JavaScript string literal back\<close>

text \<open>What a script reads: the content of a literal between its quotes, \<^verbatim>\<open>None\<close> for one no engine accepts.\<close>

definition hex4 :: "char \<Rightarrow> char \<Rightarrow> char \<Rightarrow> char \<Rightarrow> nat option" where
  "hex4 a b c d =
     (case (to_digit16 a, to_digit16 b, to_digit16 c, to_digit16 d) of
        (Some w, Some x, Some y, Some z) \<Rightarrow> Some (((w * 16 + x) * 16 + y) * 16 + z)
      | _ \<Rightarrow> None)"

definition utf8_encode3 :: "nat \<Rightarrow> string" where
  "utf8_encode3 n =
     (if n < 128 then [char_of n]
      else if n < 2048 then [char_of (192 + n div 64), char_of (128 + n mod 64)]
      else [char_of (224 + n div 4096), char_of (128 + n div 64 mod 64), char_of (128 + n mod 64)])"

fun js_read :: "string \<Rightarrow> string option" where
  "js_read [] = Some []"
| "js_read (c # s) =
     (if c = CHR 0x22 \<or> byte c < 32 then None
      else if c = CHR 0x5C then
        (case s of
           [] \<Rightarrow> None
         | e # r \<Rightarrow>
             if e = CHR 0x22 \<or> e = CHR 0x5C then map_option ((#) e) (js_read r)
             else if e = CHR ''u'' then
               (case r of
                  w # x # y # z # r' \<Rightarrow>
                    (case hex4 w x y z of
                       None \<Rightarrow> None
                     | Some n \<Rightarrow> map_option ((@) (utf8_encode3 n)) (js_read r'))
                | _ \<Rightarrow> None)
             else None)
      else map_option ((#) c) (js_read s))"

lemma js_read_ctl:
  assumes "byte c < 32"
  shows "hex4 (CHR ''0'') (CHR ''0'') (lower_hex (byte c div 16)) (lower_hex (byte c mod 16)) =
    Some (byte c)"
proof -
  have dig: "to_digit16 (lower_hex n) = Some n" if "n < 16" for n
  proof -
    have "\<forall>n \<in> set [0..<16]. to_digit16 (lower_hex n) = Some n" by code_simp
    with that show ?thesis by auto
  qed
  have "to_digit16 (CHR ''0'') = Some 0" by code_simp
  then show ?thesis using assms dig [of "byte c div 16"] dig [of "byte c mod 16"] by (simp add: hex4_def)
qed

lemma js_read_named:
  "hex4 (CHR ''0'') (CHR ''0'') (CHR ''3'') (CHR ''c'') = Some 60"
  "hex4 (CHR ''0'') (CHR ''0'') (CHR ''3'') (CHR ''e'') = Some 62"
  "hex4 (CHR ''0'') (CHR ''0'') (CHR ''2'') (CHR ''6'') = Some 38"
  "utf8_encode3 60 = ''<''" "utf8_encode3 62 = ''>''" "utf8_encode3 38 = ''&''"
  by code_simp+

lemma js_read_separators:
  "hex4 (CHR ''2'') (CHR ''0'') (CHR ''2'') (CHR ''8'') = Some 8232"
  "hex4 (CHR ''2'') (CHR ''0'') (CHR ''2'') (CHR ''9'') = Some 8233"
  by (simp_all add: hex4_def to_digit16_def byte_simps)

lemma utf8_encode3_separators:
  "utf8_encode3 8232 = [CHR 0xE2, CHR 0x80, CHR 0xA8]" "utf8_encode3 8233 = [CHR 0xE2, CHR 0x80, CHR 0xA9]"
  by (simp_all add: utf8_encode3_def char_of_def bit_simps)

lemma js_escape_plain:
  assumes "c \<notin> {CHR 0x22, CHR 0x5C, CHR ''<'', CHR ''>'', CHR ''&''}" and "\<not> byte c < 32"
    and "\<not> (c = CHR 0xE2 \<and> take 2 s \<in> {[CHR 0x80, CHR 0xA8], [CHR 0x80, CHR 0xA9]})"
  shows "js_escape (c # s) = c # js_escape s"
proof (cases s)
  case (Cons a t)
  with assms show ?thesis by (cases t) auto
qed (use assms in simp)

lemma js_escape_separator:
  assumes "b = CHR 0xA8 \<and> d = CHR ''8'' \<or> b = CHR 0xA9 \<and> d = CHR ''9''"
  shows "js_escape (CHR 0xE2 # CHR 0x80 # b # r) = CHR 0x5C # CHR ''u'' # CHR ''2'' # CHR ''0'' # CHR ''2'' # d # js_escape r"
  using assms by auto

lemma js_read_escape: "js_read (js_escape s) = Some s"
proof (induction "length s" arbitrary: s rule: less_induct)
  case less
  show ?case
  proof (cases s)
    case (Cons c t)
    then have IH: "js_read (js_escape t) = Some t" using less by simp
    consider "c = CHR 0x22" | "c = CHR 0x5C" | "c = CHR ''<''" | "c = CHR ''>''" | "c = CHR ''&''"
      | "byte c < 32" | "c = CHR 0xE2" "take 2 t \<in> {[CHR 0x80, CHR 0xA8], [CHR 0x80, CHR 0xA9]}"
      | (plain) "c \<notin> {CHR 0x22, CHR 0x5C, CHR ''<'', CHR ''>'', CHR ''&''}" "\<not> byte c < 32"
          "\<not> (c = CHR 0xE2 \<and> take 2 t \<in> {[CHR 0x80, CHR 0xA8], [CHR 0x80, CHR 0xA9]})" by blast
    then show ?thesis
    proof cases
      case 6
      then have "c \<notin> {CHR 0x22, CHR 0x5C, CHR ''<'', CHR ''>'', CHR ''&''}" by auto
      moreover have "utf8_encode3 (byte c) = [c]" using 6 by (simp add: utf8_encode3_def)
      ultimately show ?thesis using 6 Cons IH js_read_ctl [OF 6] by (simp add: hex4_ctl_def)
    next
      case 7
      then obtain b r where t: "t = CHR 0x80 # b # r" "b = CHR 0xA8 \<or> b = CHR 0xA9"
        by (cases t; cases "tl t") auto
      have "js_read (js_escape r) = Some r" using less Cons t by simp
      then show ?thesis
        using t Cons 7(1) js_read_separators utf8_encode3_separators
          js_escape_separator [of "CHR 0xA8" "CHR ''8''" r] js_escape_separator [of "CHR 0xA9" "CHR ''9''" r]
        by (elim disjE) (simp_all del: js_escape.simps)
    next
      case plain
      then show ?thesis using js_escape_plain [OF plain] IH Cons by (simp del: js_escape.simps)
    qed (use Cons IH in \<open>simp_all add: js_read_named\<close>)
  qed simp
qed

lemma js_escape_safe:
  "c \<in> set (js_escape s) \<Longrightarrow> c \<noteq> CHR ''<'' \<and> c \<noteq> CHR ''>'' \<and> c \<noteq> CHR ''&'' \<and> 32 \<le> byte c"
proof (induction "length s" arbitrary: s rule: less_induct)
  case less
  have hex: "lower_hex n \<noteq> CHR ''<'' \<and> lower_hex n \<noteq> CHR ''>'' \<and> lower_hex n \<noteq> CHR ''&'' \<and> 32 \<le> byte (lower_hex n)"
    if "n < 16" for n
  proof -
    have "\<forall>n \<in> set [0..<16]. lower_hex n \<noteq> CHR ''<'' \<and> lower_hex n \<noteq> CHR ''>'' \<and> lower_hex n \<noteq> CHR ''&'' \<and>
        32 \<le> byte (lower_hex n)"
      by (simp add: upt_rec lower_hex_def)
    with that show ?thesis by auto
  qed
  show ?case
  proof (cases s)
    case (Cons d t)
    have IH: "c \<in> set (js_escape t') \<Longrightarrow> ?thesis" if "length t' < length s" for t' using less.hyps that by blast
    show ?thesis
    proof (cases "d \<in> {CHR 0x22, CHR 0x5C, CHR ''<'', CHR ''>'', CHR ''&''} \<or> byte d < 32")
      case True
      have "byte d div 16 < 16" using byte_less_256 [of d] by linarith
      with True show ?thesis
        using less.prems Cons IH [of t] hex [of "byte d div 16"] hex [of "byte d mod 16"]
        by (auto simp: hex4_ctl_def split: if_splits)
    next
      case False
      show ?thesis
      proof (cases "d = CHR 0xE2 \<and> take 2 t \<in> {[CHR 0x80, CHR 0xA8], [CHR 0x80, CHR 0xA9]}")
        case True
        then obtain b r where t: "t = CHR 0x80 # b # r" "b = CHR 0xA8 \<or> b = CHR 0xA9"
          by (cases t; cases "tl t") auto
        then show ?thesis
          using less.prems Cons True IH [of r] js_escape_separator [of "CHR 0xA8" "CHR ''8''" r]
            js_escape_separator [of "CHR 0xA9" "CHR ''9''" r]
          by (auto simp del: js_escape.simps)
      next
        case plain: False
        with False less.prems Cons IH [of t] js_escape_plain [of d t] show ?thesis
          by (auto simp del: js_escape.simps)
      qed
    qed
  qed (use less.prems in simp)
qed

section \<open>Properties\<close>

text \<open>
  A JavaScript string literal written into a page cannot end its script element or the literal: it holds no
  \<open><\<close>, \<open>>\<close> or \<open>&\<close> and no control character, and reading it back gives exactly the string, so nothing in a configured URL
  changes what the script says.
\<close>

theorem js_string_safe:
  "\<exists>content. js_string s = [CHR 0x22] @ content @ [CHR 0x22] \<and> js_read content = Some s \<and>
     list_all (\<lambda>c. c \<noteq> CHR ''<'' \<and> c \<noteq> CHR ''>'' \<and> c \<noteq> CHR ''&'' \<and> 32 \<le> byte c) content"
proof (intro exI conjI)
  show "js_string s = [CHR 0x22] @ js_escape s @ [CHR 0x22]" by (simp add: js_string_def)
  show "list_all (\<lambda>c. c \<noteq> CHR ''<'' \<and> c \<noteq> CHR ''>'' \<and> c \<noteq> CHR ''&'' \<and> 32 \<le> byte c) (js_escape s)"
    using js_escape_safe by (simp add: list_all_iff)
qed (rule js_read_escape)

text \<open>
  A validated actions prefix other than the root never captures the server's own paths: no request path at or under
  \<^verbatim>\<open>/ping\<close>, \<^verbatim>\<open>/public\<close>, \<^verbatim>\<open>/_brust/client\<close> or \<^verbatim>\<open>/_brust/cache\<close> (behind the base path) is handled as an action, and the
  prefix lies under the base path and is no page's own path.
\<close>

theorem actions_prefix_separate:
  assumes "actions_validate ac m = Ok ()" and "ac_prefix ac \<noteq> ''/''"
    and "r \<in> set RESERVED" and "under path (mp_base_path m @ r)"
  shows "\<not> is_under ac path \<and> ac_prefix ac \<notin> set (mp_patterns m) \<and>
    (mp_base_path m = [] \<or> under (ac_prefix ac) (mp_base_path m))"
proof -
  from assms(1,2) have none: "find (\<lambda>r. under (ac_prefix ac) (mp_base_path m @ r) \<or> under (mp_base_path m @ r) (ac_prefix ac)) RESERVED = None"
    "find (\<lambda>rt. rt = ac_prefix ac \<or> (under rt (ac_prefix ac) \<and> contains_str rt ''{*'')) (mp_patterns m) = None"
    "mp_base_path m = [] \<or> under (ac_prefix ac) (mp_base_path m)"
    by (auto simp: actions_validate_def Let_def split: if_splits option.splits)
  have "\<not> under (ac_prefix ac) (mp_base_path m @ r) \<and> \<not> under (mp_base_path m @ r) (ac_prefix ac)"
    using none(1) assms(3) by (auto simp: find_None_iff)
  then have "\<not> is_under ac path"
    using assms(2,4) under_overlap by (auto simp: is_under_def)
  moreover have "ac_prefix ac \<notin> set (mp_patterns m)" using none(2) by (auto simp: find_None_iff)
  ultimately show ?thesis using none(3) by blast
qed

theorem actions_prefix_separate_witness:
  "\<not> is_under actions_config_default ''/_brust/cache/stats''"
proof -
  let ?m = "\<lparr>mp_base_path = [], mp_actions_only = False, mp_patterns = [''/a'']\<rparr>"
  have "actions_validate actions_config_default ?m = Ok ()"
    by (simp add: actions_validate_def actions_config_default_def DEFAULT_ACTION_PREFIX_def starts_with_def ends_with_def
        RESERVED_def under_def seg_ok_def byte_simps validate_limits_def stream_config_default_def
        DEFAULT_MAX_ACTION_BODY_BYTES_def MAX_ACTION_BYTES_def ACTION_INLINE_BODY_BYTES_def
        DEFAULT_MAX_ACTION_RESPONSE_BYTES_def DEFAULT_MAX_STREAM_BYTES_def MAX_STREAM_BYTES_def
        DEFAULT_STREAM_IDLE_MS_def DEFAULT_STREAM_TOTAL_MS_def Let_def)
  from actions_prefix_separate [OF this, of "''/_brust/cache''" "''/_brust/cache/stats''"] show ?thesis
    by (simp add: actions_config_default_def DEFAULT_ACTION_PREFIX_def RESERVED_def under_def starts_with_def)
qed

text \<open>
  Who may read the statistics: nobody when off, anybody when public, and with a token exactly the requests whose
  \<^verbatim>\<open>Authorization\<close> header is the scheme \<^verbatim>\<open>Bearer\<close> (any case) followed by that token; the constant-time comparison is equality.
\<close>

theorem stats_allows_iff:
  "stats_allows h access headers \<longleftrightarrow>
     (case access of
        Off \<Rightarrow> False
      | Public \<Rightarrow> True
      | Token t \<Rightarrow> \<exists>scheme. length scheme = 7 \<and> eq_ignore_ascii_case scheme ''bearer '' \<and>
                    hm_get h headers ''authorization'' = Some (scheme @ t))"
proof (cases access)
  case (Token t)
  have "(\<exists>scheme. length scheme = 7 \<and> eq_ignore_ascii_case scheme ''bearer '' \<and> v = scheme @ t) \<longleftrightarrow>
      7 \<le> length v \<and> eq_ignore_ascii_case (take 7 v) ''bearer '' \<and> drop 7 v = t" for v
    by (auto simp: append_eq_conv_conj intro!: exI [of _ "take 7 v"])
  with Token show ?thesis
    by (auto simp: stats_allows_def bearer_def ct_eq_iff split: option.splits)
qed (simp_all add: stats_allows_def)


end
