(* ===== verification/Cors.thy ===== *)
theory Cors
  imports Config
begin

text \<open>
  CORS headers (\<^verbatim>\<open>crates/brust-core/src/cors.rs\<close>): the policy resolved at boot, the preflight answer, and the
  stamp every actual response gets, with the \<^verbatim>\<open>Vary\<close> merge that keeps shared caches apart.
\<close>

section \<open>Definitions\<close>

definition DEFAULT_METHODS :: string where
  "DEFAULT_METHODS = ''GET,POST,PUT,PATCH,DELETE,OPTIONS''"

definition DEFAULT_MAX_AGE_SECONDS :: nat where
  "DEFAULT_MAX_AGE_SECONDS = 600"

record resolved_cors =
  rc_origins :: "string list"
  rc_wildcard :: bool
  rc_allow_methods :: string
  rc_allow_headers :: "string option"
  rc_expose_headers :: "string option"
  rc_credentials :: bool
  rc_max_age :: string

definition join_list :: "'m http_api \<Rightarrow> string list option \<Rightarrow> string option" where
  "join_list h xs =
     (case xs of
        None \<Rightarrow> None
      | Some l \<Rightarrow> if l = [] then None else value_from_str h (join_with '','' l))"

definition from_config :: "'m http_api \<Rightarrow> cors_config \<Rightarrow> resolved_cors" where
  "from_config h cfg =
     \<lparr>rc_origins = cors_origins cfg,
      rc_wildcard = is_wildcard cfg,
      rc_allow_methods = (case join_list h (cors_methods cfg) of Some v \<Rightarrow> v | None \<Rightarrow> DEFAULT_METHODS),
      rc_allow_headers = join_list h (cors_headers cfg),
      rc_expose_headers = join_list h (cors_expose_headers cfg),
      rc_credentials = cors_credentials cfg,
      rc_max_age = decimal (case cors_max_age_seconds cfg of Some n \<Rightarrow> n | None \<Rightarrow> DEFAULT_MAX_AGE_SECONDS)\<rparr>"

definition allow_origin_value :: "'m http_api \<Rightarrow> resolved_cors \<Rightarrow> string \<Rightarrow> string option" where
  "allow_origin_value h rc origin =
     (if rc_wildcard rc then Some ''*''
      else
        (case value_to_str h origin of
           None \<Rightarrow> None
         | Some o' \<Rightarrow> if list_ex (\<lambda>allowed. allowed = o') (rc_origins rc) then Some origin else None))"

definition origin_listed :: "'m http_api \<Rightarrow> resolved_cors \<Rightarrow> string \<Rightarrow> bool" where
  "origin_listed h rc origin \<longleftrightarrow>
     (case value_to_str h origin of
        None \<Rightarrow> False
      | Some o' \<Rightarrow> list_ex (\<lambda>allowed. allowed \<noteq> ''*'' \<and> allowed = o') (rc_origins rc))"

definition preflight_response :: "'m http_api \<Rightarrow> resolved_cors \<Rightarrow> string \<Rightarrow> 'm \<Rightarrow> 'm response" where
  "preflight_response h rc acao req_headers =
     (let hm = hm_new h;
          hm = hm_insert h ''access-control-allow-origin'' acao hm;
          hm = hm_insert h ''access-control-allow-methods'' (rc_allow_methods rc) hm;
          allow_headers = (case rc_allow_headers rc of
                             Some v \<Rightarrow> Some v
                           | None \<Rightarrow> hm_get h req_headers ''access-control-request-headers'');
          hm = (case allow_headers of Some v \<Rightarrow> hm_insert h ''access-control-allow-headers'' v hm | None \<Rightarrow> hm);
          hm = hm_insert h ''access-control-max-age'' (rc_max_age rc) hm;
          hm = (if rc_credentials rc then hm_insert h ''access-control-allow-credentials'' ''true'' hm else hm);
          hm = hm_insert h ''vary'' ''Origin, Access-Control-Request-Method, Access-Control-Request-Headers'' hm
      in \<lparr>resp_status = 204, resp_headers = hm, resp_body = []\<rparr>)"

text \<open>
  The scan of \<^verbatim>\<open>append_vary_token\<close>: the parts read so far and whether a value was opaque, or \<^verbatim>\<open>None\<close> for the early
  return (the token, or \<open>*\<close>, is there).
\<close>

fun vary_parts :: "string \<Rightarrow> string list \<Rightarrow> string list \<Rightarrow> string list option" where
  "vary_parts token [] parts = Some parts"
| "vary_parts token (piece # pieces) parts =
     (let existing = trim piece
      in if eq_ignore_ascii_case existing token \<or> existing = ''*'' then None
         else vary_parts token pieces (if existing \<noteq> [] then parts @ [existing] else parts))"

fun vary_scan :: "'m http_api \<Rightarrow> string \<Rightarrow> string list \<Rightarrow> string list \<Rightarrow> bool \<Rightarrow> (string list \<times> bool) option" where
  "vary_scan h token [] parts opaque = Some (parts, opaque)"
| "vary_scan h token (v # vs) parts opaque =
     (case value_to_str h v of
        None \<Rightarrow> vary_scan h token vs parts True
      | Some s \<Rightarrow>
          (case vary_parts token (split_char (CHR '','') s) parts of
             None \<Rightarrow> None
           | Some parts' \<Rightarrow> vary_scan h token vs parts' opaque))"

definition append_vary_token :: "'m http_api \<Rightarrow> string \<Rightarrow> 'm \<Rightarrow> 'm" where
  "append_vary_token h token headers =
     (if \<not> hm_contains h headers ''vary'' then
        (case value_from_str h token of Some v \<Rightarrow> hm_insert h ''vary'' v headers | None \<Rightarrow> headers)
      else
        (case vary_scan h token (hm_get_all h headers ''vary'') [] False of
           None \<Rightarrow> headers
         | Some (parts, saw_opaque) \<Rightarrow>
             if saw_opaque then
               (case value_from_str h token of Some t \<Rightarrow> hm_append h ''vary'' t headers | None \<Rightarrow> headers)
             else
               (case value_from_str h (join_with '', '' (parts @ [token])) of
                  Some v \<Rightarrow> hm_insert h ''vary'' v headers
                | None \<Rightarrow> headers)))"

definition stamp_response :: "'m http_api \<Rightarrow> resolved_cors \<Rightarrow> string option \<Rightarrow> 'm \<Rightarrow> 'm" where
  "stamp_response h rc origin headers =
     (let headers =
            (case origin of
               None \<Rightarrow> headers
             | Some origin \<Rightarrow>
                 (case allow_origin_value h rc origin of
                    None \<Rightarrow> headers
                  | Some acao \<Rightarrow>
                      let headers = hm_or_insert h ''access-control-allow-origin'' acao headers;
                          headers = (if rc_credentials rc
                                     then hm_or_insert h ''access-control-allow-credentials'' ''true'' headers
                                     else headers)
                      in (case rc_expose_headers rc of
                            Some v \<Rightarrow> hm_or_insert h ''access-control-expose-headers'' v headers
                          | None \<Rightarrow> headers)))
      in if \<not> rc_wildcard rc then append_vary_token h ''Origin'' headers else headers)"

section \<open>What a Vary header says\<close>

definition vary_tokens :: "'m http_api \<Rightarrow> 'm \<Rightarrow> string list" where
  "vary_tokens h headers =
     concat (map (\<lambda>v. case value_to_str h v of
                        None \<Rightarrow> []
                      | Some s \<Rightarrow> filter (\<lambda>t. t \<noteq> []) (map trim (split_char (CHR '','') s)))
              (hm_get_all h headers ''vary''))"

definition varies_on :: "'m http_api \<Rightarrow> string \<Rightarrow> 'm \<Rightarrow> bool" where
  "varies_on h token headers \<longleftrightarrow>
     list_ex (\<lambda>t. eq_ignore_ascii_case t token \<or> t = ''*'') (vary_tokens h headers)"

definition vary_hit :: "string \<Rightarrow> string \<Rightarrow> bool" where
  "vary_hit token t \<longleftrightarrow> eq_ignore_ascii_case t token \<or> t = ''*''"

definition value_tokens :: "string \<Rightarrow> string list" where
  "value_tokens s = filter (\<lambda>t. t \<noteq> []) (map trim (split_char (CHR '','') s))"

text \<open>A token as \<^verbatim>\<open>Vary\<close> may hold it.\<close>

definition good_token :: "string \<Rightarrow> bool" where
  "good_token t \<longleftrightarrow> t \<noteq> [] \<and> list_all header_visible t \<and> CHR '','' \<notin> set t \<and> trim t = t"

lemma visible_ascii: "list_all header_visible s \<Longrightarrow> all_ascii s"
  by (auto simp: all_ascii_def list_all_iff header_visible_def)

lemma good_token_ascii: "good_token t \<Longrightarrow> all_ascii t"
  by (simp add: good_token_def visible_ascii)

lemma vary_hit_Nil: "token \<noteq> [] \<Longrightarrow> \<not> vary_hit token []"
  by (simp add: vary_hit_def eq_ignore_ascii_case_def to_ascii_lowercase_def)

lemma vary_parts_spec:
  "vary_parts token ps parts =
     (if list_ex (vary_hit token) (map trim ps) then None
      else Some (parts @ filter (\<lambda>t. t \<noteq> []) (map trim ps)))"
  by (induction token ps parts rule: vary_parts.induct) (auto simp: vary_hit_def Let_def)

lemma list_ex_value_tokens:
  "token \<noteq> [] \<Longrightarrow> list_ex (vary_hit token) (map trim (split_char (CHR '','') s)) = list_ex (vary_hit token) (value_tokens s)"
proof -
  assume "token \<noteq> []"
  then have hit: "vary_hit token t \<Longrightarrow> t \<noteq> []" for t using vary_hit_Nil by blast
  have "list_ex (vary_hit token) (filter (\<lambda>t. t \<noteq> []) ts) = list_ex (vary_hit token) ts" for ts
    by (induction ts) (auto dest: hit)
  then show ?thesis by (simp add: value_tokens_def)
qed

lemma split_join_comma:
  assumes "\<And>p. p \<in> set (p0 # ps) \<Longrightarrow> CHR '','' \<notin> set p"
  shows "split_char (CHR '','') (join_with '', '' (p0 # ps)) = p0 # map ((#) (CHR '' '')) ps"
  using assms
proof (induction ps arbitrary: p0)
  case Nil
  then show ?case by (simp add: split_char_no_sep)
next
  case (Cons q qs)
  have "split_char (CHR '','') (CHR '' '' # join_with '', '' (q # qs)) = (CHR '' '' # q) # map ((#) (CHR '' '')) qs"
    using Cons.IH [of q] Cons.prems by simp
  with Cons.prems split_char_append [of "CHR '',''" p0 "CHR '' '' # join_with '', '' (q # qs)"] show ?case by simp
qed

lemma value_tokens_join:
  assumes "ps \<noteq> []" and "\<And>p. p \<in> set ps \<Longrightarrow> good_token p"
  shows "value_tokens (join_with '', '' ps) = ps"
proof -
  obtain p0 qs where ps: "ps = p0 # qs" using assms(1) by (cases ps) auto
  have "split_char (CHR '','') (join_with '', '' ps) = p0 # map ((#) (CHR '' '')) qs"
    unfolding ps using assms(2) by (intro split_join_comma) (auto simp: ps good_token_def)
  moreover have "trim (CHR '' '' # p) = p" if "p \<in> set qs" for p
    using assms(2) [of p] that good_token_ascii [of p] by (simp add: ps trim_space_ascii good_token_def)
  then have "map trim (map ((#) (CHR '' '')) qs) = qs" by (simp add: map_idI)
  ultimately have "value_tokens (join_with '', '' ps) = filter (\<lambda>t. t \<noteq> []) (trim p0 # qs)"
    by (simp add: value_tokens_def)
  moreover have "trim p0 = p0" "\<forall>t \<in> set ps. t \<noteq> []" using assms(2) by (auto simp: ps good_token_def)
  ultimately show ?thesis by (simp add: ps filter_id_conv)
qed

lemma visible_join: "list_all (list_all header_visible) ps \<Longrightarrow> list_all header_visible (join_with '', '' ps)"
  by (induction "'', ''" ps rule: join_with.induct) (auto simp: header_visible_def)

lemma value_tokens_good:
  assumes "list_all header_visible s" and "t \<in> set (value_tokens s)"
  shows "good_token t"
proof -
  obtain p where p: "p \<in> set (split_char (CHR '','') s)" "t = trim p" "t \<noteq> []"
    using assms(2) by (auto simp: value_tokens_def)
  have "set p \<subseteq> set s" "CHR '','' \<notin> set p" using p set_split_char_subset split_char_pieces by blast+
  then have "list_all header_visible p" "CHR '','' \<notin> set t" "set t \<subseteq> set p"
    using assms(1) set_trim_subset [of p] p(2) by (auto simp: list_all_iff)
  then show ?thesis using p visible_ascii [of p] by (auto simp: good_token_def list_all_iff)
qed

context http_headers
begin

lemma vary_tokens_values:
  "vary_tokens h m =
     concat (map (\<lambda>v. if list_all header_visible v then value_tokens v else []) (hm_get_all h m ''vary''))"
proof -
  have "(case value_to_str h v of None \<Rightarrow> [] | Some s \<Rightarrow> filter (\<lambda>t. t \<noteq> []) (map trim (split_char (CHR '','') s))) =
      (if list_all header_visible v then value_tokens v else [])" for v
    by (simp add: value_to_str_iff value_tokens_def)
  then show ?thesis by (simp add: vary_tokens_def)
qed

lemma vary_scan_spec:
  assumes "token \<noteq> []"
  shows "vary_scan h token vs parts opaque =
    (let ts = concat (map (\<lambda>v. if list_all header_visible v then value_tokens v else []) vs)
     in if list_ex (vary_hit token) ts then None
        else Some (parts @ ts, opaque \<or> list_ex (\<lambda>v. \<not> list_all header_visible v) vs))"
proof (induction vs arbitrary: parts opaque)
  case (Cons v vs)
  then show ?case
    using list_ex_value_tokens [OF assms, of v]
    by (simp add: value_to_str_iff vary_parts_spec Let_def) (auto simp: value_tokens_def)
qed simp

lemma vary_tokens_good: "t \<in> set (vary_tokens h m) \<Longrightarrow> good_token t"
  by (auto simp: vary_tokens_values split: if_splits intro: value_tokens_good)

lemma value_tokens_token: "good_token token \<Longrightarrow> value_tokens token = [token]"
  using value_tokens_join [of "[token]"] by simp

lemma vary_tokens_append_vary_token:
  assumes "good_token token"
  shows "vary_tokens h (append_vary_token h token m) =
    (if varies_on h token m then vary_tokens h m else vary_tokens h m @ [token])"
proof -
  have tok: "token \<noteq> []" "list_all header_visible token" using assms by (auto simp: good_token_def)
  have varies: "varies_on h token m \<longleftrightarrow> list_ex (vary_hit token) (vary_tokens h m)"
    by (simp add: varies_on_def vary_hit_def [abs_def])
  show ?thesis
  proof (cases "hm_contains h m ''vary''")
    case False
    then have "hm_get_all h m ''vary'' = []" by (simp add: hm_contains_def)
    with False tok assms show ?thesis
      by (simp add: append_vary_token_def value_from_str_iff vary_tokens_values get_all_insert varies_on_def
          value_tokens_token)
  next
    case True
    note scan = vary_scan_spec [OF tok(1), of "hm_get_all h m ''vary''" "[]" False, unfolded Let_def,
        folded vary_tokens_values]
    have good: "\<forall>p \<in> set (vary_tokens h m @ [token]). good_token p" using vary_tokens_good assms by auto
    then have vis: "list_all header_visible (join_with '', '' (vary_tokens h m @ [token]))"
      by (intro visible_join) (auto simp: list_all_iff good_token_def)
    have join: "value_tokens (join_with '', '' (vary_tokens h m @ [token])) = vary_tokens h m @ [token]"
      using good by (intro value_tokens_join) auto
    show ?thesis
    proof (cases "varies_on h token m")
      case yes: True
      with True scan varies show ?thesis by (simp add: append_vary_token_def)
    next
      case no: False
      then have eq: "append_vary_token h token m =
          (if list_ex (\<lambda>v. \<not> list_all header_visible v) (hm_get_all h m ''vary'')
           then hm_append h ''vary'' token m
           else hm_insert h ''vary'' (join_with '', '' (vary_tokens h m @ [token])) m)"
        using True scan varies tok vis by (simp add: append_vary_token_def value_from_str_iff)
      have "vary_tokens h (hm_append h ''vary'' token m) = vary_tokens h m @ [token]"
        using tok value_tokens_token [OF assms] by (simp add: vary_tokens_values get_all_append)
      moreover have "vary_tokens h (hm_insert h ''vary'' (join_with '', '' (vary_tokens h m @ [token])) m) =
          vary_tokens h m @ [token]"
        using vis join by (simp add: vary_tokens_values [of "hm_insert h n v m" for n v] get_all_insert)
      ultimately show ?thesis using no eq by simp
    qed
  qed
qed

lemma get_all_append_vary_token:
  "n \<noteq> ''vary'' \<Longrightarrow> hm_get_all h (append_vary_token h token m) n = hm_get_all h m n"
  by (simp add: append_vary_token_def get_all_insert get_all_append split: option.splits)

end


lemma good_token_Origin: "good_token ''Origin''"
proof -
  have "trim ''Origin'' = ''Origin''"
    by (rule trim_plain) (simp_all add: all_ascii_def ascii_ws_def)
  then show ?thesis by (simp add: good_token_def header_visible_def)
qed

definition cors_values :: "'m http_api \<Rightarrow> resolved_cors \<Rightarrow> string option \<Rightarrow> string \<Rightarrow> string list" where
  "cors_values h rc origin n =
     (case Option.bind origin (allow_origin_value h rc) of
        None \<Rightarrow> []
      | Some acao \<Rightarrow>
          if n = ''access-control-allow-origin'' then [acao]
          else if n = ''access-control-allow-credentials'' \<and> rc_credentials rc then [''true'']
          else if n = ''access-control-expose-headers'' then (case rc_expose_headers rc of Some v \<Rightarrow> [v] | None \<Rightarrow> [])
          else [])"

context http_headers
begin

lemma get_all_stamp_response:
  assumes "n \<noteq> ''vary''"
  shows "hm_get_all h (stamp_response h rc origin m) n =
    (if hm_get_all h m n = [] then cors_values h rc origin n else hm_get_all h m n)"
  using assms
  by (auto simp: stamp_response_def cors_values_def get_all_append_vary_token get_all_or_insert Let_def
      split: option.splits)

lemma vary_tokens_cong: "hm_get_all h m ''vary'' = hm_get_all h m' ''vary'' \<Longrightarrow> vary_tokens h m = vary_tokens h m'"
  by (simp add: vary_tokens_values)

lemma vary_tokens_stamp_response:
  "vary_tokens h (stamp_response h rc origin m) =
     (if rc_wildcard rc \<or> varies_on h ''Origin'' m then vary_tokens h m else vary_tokens h m @ [''Origin''])"
proof -
  let ?m = "stamp_response h (rc\<lparr>rc_wildcard := True\<rparr>) None m"
  have eq: "vary_tokens h (hm_or_insert h n v m') = vary_tokens h m'" if "n \<noteq> ''vary''" for n v m'
    using that by (intro vary_tokens_cong) (simp add: get_all_or_insert)
  then have on: "varies_on h ''Origin'' (hm_or_insert h n v m') = varies_on h ''Origin'' m'" if "n \<noteq> ''vary''" for n v m'
    using that by (simp add: varies_on_def)
  show ?thesis
    by (auto simp: stamp_response_def Let_def vary_tokens_append_vary_token [OF good_token_Origin] eq on split: option.splits)
qed

end

section \<open>Properties\<close>

text \<open>
  Shared caches are kept apart. Whatever headers a response already has, and whatever the request's origin, the stamp
  of a policy without a wildcard leaves a response whose \<^verbatim>\<open>Vary\<close> names \<^verbatim>\<open>Origin\<close> (or everything); no token that was there
  is lost or moved, none is duplicated, and stamping again adds nothing.
\<close>

theorem stamp_response_varies:
  assumes "http_headers h" and "m' = stamp_response h rc origin m"
  shows "(\<not> rc_wildcard rc \<longrightarrow> varies_on h ''Origin'' m') \<and>
    vary_tokens h m' = vary_tokens h m @ (if rc_wildcard rc \<or> varies_on h ''Origin'' m then [] else [''Origin'']) \<and>
    vary_tokens h (stamp_response h rc origin' m') = vary_tokens h m'"
  using http_headers.vary_tokens_stamp_response [OF assms(1), of rc origin m]
    http_headers.vary_tokens_stamp_response [OF assms(1), of rc origin' m']
  by (auto simp: assms(2) varies_on_def)

theorem stamp_response_varies_witness:
  "varies_on list_http ''Origin''
     (stamp_response list_http (from_config list_http \<lparr>cors_origins = [''https://a.example''], cors_methods = None,
        cors_headers = None, cors_expose_headers = None, cors_credentials = True, cors_max_age_seconds = None\<rparr>)
        None [(''vary'', ''Accept-Encoding'')])"
  using stamp_response_varies [OF list_headers.http_headers_axioms refl]
  by (simp add: from_config_def is_wildcard_def)

text \<open>
  With a configuration that passed the boot check, the origin a response allows is the request's own origin, listed by
  the configuration, or the literal wildcard of a wildcard configuration; the wildcard never comes with credentials;
  without a request origin nothing is allowed; and a header the application set itself is not replaced.
\<close>

theorem stamp_response_origin:
  assumes "http_headers h" and "cors_validate cfg = Ok ()" and "m' = stamp_response h (from_config h cfg) origin m"
    and "hm_get_all h m ''access-control-allow-origin'' = []" and "hm_get_all h m ''access-control-allow-credentials'' = []"
  shows "set (hm_get_all h m' ''access-control-allow-origin'') \<subseteq>
      (case origin of None \<Rightarrow> {} | Some o' \<Rightarrow> if is_wildcard cfg then {''*''} else {o'} \<inter> set (cors_origins cfg)) \<and>
    (hm_get_all h m' ''access-control-allow-credentials'' \<noteq> [] \<longrightarrow>
       cors_credentials cfg \<and> \<not> is_wildcard cfg \<and>
       (\<exists>o'. origin = Some o' \<and> hm_get_all h m' ''access-control-allow-origin'' = [o'])) \<and>
    (n \<noteq> ''vary'' \<longrightarrow> hm_get_all h m n \<noteq> [] \<longrightarrow> hm_get_all h m' n = hm_get_all h m n)"
proof -
  have wild: "\<not> (cors_credentials cfg \<and> is_wildcard cfg)" using assms(2) by (auto simp: cors_validate_def split: if_splits)
  have val: "allow_origin_value h (from_config h cfg) o' =
      (if is_wildcard cfg then Some ''*'' else if list_all header_visible o' \<and> o' \<in> set (cors_origins cfg) then Some o' else None)" for o'
    by (auto simp: allow_origin_value_def from_config_def http_headers.value_to_str_iff [OF assms(1)] list_ex_iff)
  have get: "hm_get_all h m' n = (if hm_get_all h m n = [] then cors_values h (from_config h cfg) origin n else hm_get_all h m n)"
    if "n \<noteq> ''vary''" for n
    using http_headers.get_all_stamp_response [OF assms(1) that] by (simp add: assms(3))
  have cred: "rc_credentials (from_config h cfg) = cors_credentials cfg" by (simp add: from_config_def)
  show ?thesis
    using wild assms(4,5) get
    by (auto simp: cors_values_def val cred split: option.splits if_splits)
qed

theorem stamp_response_origin_witness:
  "set (hm_get_all list_http
     (stamp_response list_http (from_config list_http \<lparr>cors_origins = [''https://a.example''], cors_methods = None,
        cors_headers = None, cors_expose_headers = None, cors_credentials = True, cors_max_age_seconds = None\<rparr>)
        (Some ''https://b.example'') []) ''access-control-allow-origin'') \<subseteq> {}"
proof -
  let ?cfg = "\<lparr>cors_origins = [''https://a.example''], cors_methods = None, cors_headers = None,
    cors_expose_headers = None, cors_credentials = True, cors_max_age_seconds = None\<rparr>"
  have "cors_validate ?cfg = Ok ()" by (simp add: cors_validate_def is_wildcard_def)
  from stamp_response_origin [OF list_headers.http_headers_axioms this refl, of "[]" "Some ''https://b.example''"]
  show ?thesis by (simp add: list_http_def is_wildcard_def)
qed


end
