(* ===== verification/Base64.thy ===== *)
theory Base64
  imports Prelude
begin

text \<open>
  Base64 (RFC 4648, standard alphabet with padding), written out twice in the crate: \<^verbatim>\<open>b64\<close> of
  \<^verbatim>\<open>crates/brust-core/src/actions.rs\<close> for binary action bodies and \<^verbatim>\<open>base64\<close> of \<^verbatim>\<open>trace.rs\<close> for the trace header.
\<close>

unbundle bit_operations_syntax

section \<open>Encoding\<close>

definition b64_alphabet :: string where
  "b64_alphabet = ''ABCDEFGHIJKLMNOPQRSTUVWXYZabcdefghijklmnopqrstuvwxyz0123456789+/''"

text \<open>The 24-bit number of a chunk (absent bytes are 0), and its four letters.\<close>

definition b64_number :: "char list \<Rightarrow> nat" where
  "b64_number c =
     push_bit 16 (byte (c ! 0)) OR push_bit 8 (if 1 < length c then byte (c ! 1) else 0) OR
     (if 2 < length c then byte (c ! 2) else 0)"

definition b64_chunk :: "char list \<Rightarrow> string" where
  "b64_chunk c =
     (let n = b64_number c
      in [b64_alphabet ! (drop_bit 18 n AND 63),
          b64_alphabet ! (drop_bit 12 n AND 63),
          (if 1 < length c then b64_alphabet ! (drop_bit 6 n AND 63) else CHR ''=''),
          (if 2 < length c then b64_alphabet ! (n AND 63) else CHR ''='')])"

text \<open>\<^verbatim>\<open>chunks(3)\<close>\<close>

fun b64 :: "string \<Rightarrow> string" where
  "b64 [] = []"
| "b64 [a] = b64_chunk [a]"
| "b64 [a, b] = b64_chunk [a, b]"
| "b64 (a # b # c # s) = b64_chunk [a, b, c] @ b64 s"

section \<open>Decoding, as a receiver does\<close>

fun index_of :: "'a \<Rightarrow> 'a list \<Rightarrow> nat option" where
  "index_of x [] = None"
| "index_of x (y # ys) = (if x = y then Some 0 else map_option Suc (index_of x ys))"

definition b64_join :: "char \<Rightarrow> char \<Rightarrow> char \<Rightarrow> char \<Rightarrow> nat option" where
  "b64_join w x y z =
     (case (index_of w b64_alphabet, index_of x b64_alphabet, index_of y b64_alphabet, index_of z b64_alphabet) of
        (Some p, Some q, Some r, Some s) \<Rightarrow> Some (((p * 64 + q) * 64 + r) * 64 + s)
      | _ \<Rightarrow> None)"

fun b64_decode :: "string \<Rightarrow> string option" where
  "b64_decode [] = Some []"
| "b64_decode (w # x # y # z # s) =
     (if y = CHR ''='' \<and> z = CHR ''='' \<and> s = [] then
        map_option (\<lambda>n. [char_of (n div 65536)]) (b64_join w x (CHR ''A'') (CHR ''A''))
      else if z = CHR ''='' \<and> s = [] then
        map_option (\<lambda>n. [char_of (n div 65536), char_of (n div 256 mod 256)]) (b64_join w x y (CHR ''A''))
      else
        (case (b64_join w x y z, b64_decode s) of
           (Some n, Some r) \<Rightarrow> Some ([char_of (n div 65536), char_of (n div 256 mod 256), char_of (n mod 256)] @ r)
         | _ \<Rightarrow> None))"
| "b64_decode _ = None"

section \<open>Round trip\<close>

lemma or_push_bit: "b < 2 ^ k \<Longrightarrow> push_bit k a OR b = a * 2 ^ k + b" for a b :: nat
proof -
  assume "b < 2 ^ k"
  then have b: "take_bit k b = b" by (simp add: take_bit_nat_eq_self)
  have "push_bit k a AND take_bit k b = 0" by (rule bit_eqI) (auto simp: bit_simps)
  then have "push_bit k a + b = push_bit k a OR b"
    unfolding b by (rule disjunctive_add_eq_or)
  then show ?thesis by (simp add: push_bit_eq_mult)
qed

lemma and_63: "n AND 63 = n mod 64" for n :: nat
  using take_bit_eq_mask [of 6 n] by (simp add: mask_eq_exp_minus_1 take_bit_eq_mod)

lemma b64_number_eq:
  "b64_number c =
     (byte (c ! 0) * 256 + (if 1 < length c then byte (c ! 1) else 0)) * 256 + (if 2 < length c then byte (c ! 2) else 0)"
proof -
  let ?a = "byte (c ! 0)" and ?b = "if 1 < length c then byte (c ! 1) else 0"
    and ?c = "if 2 < length c then byte (c ! 2) else 0"
  have lt: "?b < 2 ^ 8" "?c < 2 ^ 8" using byte_less_256 [of "c ! 1"] byte_less_256 [of "c ! 2"] by auto
  have "push_bit 8 ?b OR ?c = ?b * 2 ^ 8 + ?c" by (rule or_push_bit [OF lt(2)])
  moreover have "?b * 2 ^ 8 + ?c < 2 ^ 16" using lt by simp
  ultimately have "push_bit 16 ?a OR (push_bit 8 ?b OR ?c) = ?a * 2 ^ 16 + (?b * 2 ^ 8 + ?c)"
    by (simp only: or_push_bit)
  then show ?thesis by (simp add: b64_number_def or.assoc)
qed

lemma index_of_alphabet:
  assumes "n < 64"
  shows "index_of (b64_alphabet ! n) b64_alphabet = Some n" and "b64_alphabet ! n \<noteq> CHR ''=''"
proof -
  have "list_all (\<lambda>n. index_of (b64_alphabet ! n) b64_alphabet = Some n \<and> b64_alphabet ! n \<noteq> CHR ''='') [0..<64]"
    by code_simp
  with assms show "index_of (b64_alphabet ! n) b64_alphabet = Some n" "b64_alphabet ! n \<noteq> CHR ''=''"
    by (auto simp: list_all_iff)
qed

lemma index_of_A: "index_of (CHR ''A'') b64_alphabet = Some 0"
  by code_simp

lemma b64_join_letters:
  assumes "p < 64" "q < 64" "r < 64" "s < 64"
  shows "b64_join (b64_alphabet ! p) (b64_alphabet ! q) (b64_alphabet ! r) (b64_alphabet ! s) =
      Some (((p * 64 + q) * 64 + r) * 64 + s)"
    and "b64_join (b64_alphabet ! p) (b64_alphabet ! q) (b64_alphabet ! r) (CHR ''A'') =
      Some (((p * 64 + q) * 64 + r) * 64)"
    and "b64_join (b64_alphabet ! p) (b64_alphabet ! q) (CHR ''A'') (CHR ''A'') = Some (((p * 64 + q) * 64) * 64)"
  using assms index_of_A by (simp_all add: b64_join_def index_of_alphabet)

lemma sextets:
  assumes "(n :: nat) < 2 ^ 24"
  shows "((n div 2 ^ 18 mod 64 * 64 + n div 2 ^ 12 mod 64) * 64 + n div 2 ^ 6 mod 64) * 64 + n mod 64 = n"
proof -
  have "n div 2 ^ 18 < 64" using assms by (simp add: less_mult_imp_div_less)
  moreover have "n div 2 ^ 18 = n div 2 ^ 12 div 64" "n div 2 ^ 12 = n div 2 ^ 6 div 64" "n div 2 ^ 6 = n div 64"
    by (simp_all add: div_mult2_eq [symmetric])
  ultimately show ?thesis
    using div_mult_mod_eq [of n 64] div_mult_mod_eq [of "n div 64" 64] div_mult_mod_eq [of "n div 64 div 64" 64] by simp
qed

lemma bytes_of_number:
  assumes "b < 256" and "d < 256" and "(n :: nat) = (a * 256 + b) * 256 + d"
  shows "n div 65536 = a" and "n div 256 mod 256 = b" and "n mod 256 = d"
proof -
  have split: "(x * 256 + y) div 256 = x" "(x * 256 + y) mod 256 = y" if "y < 256" for x y :: nat using that by simp_all
  have "n div 65536 = n div 256 div 256" using div_mult2_eq [of n 256 256] by simp
  then show "n div 65536 = a" "n div 256 mod 256 = b" "n mod 256 = d"
    using assms by (simp_all only: split)
qed

lemma b64_chunk_decode:
  assumes "c \<noteq> []" and "length c \<le> 3" and "length c = 3 \<or> s = []"
  shows "b64_decode (b64_chunk c @ s) = map_option ((@) c) (b64_decode s)"
proof -
  let ?n = "b64_number c"
  have bound: "(x * 256 + y) * 256 + z < 16777216" if "x < 256" "y < 256" "z < 256" for x y z :: nat
  proof -
    have "x \<le> 255" "y \<le> 255" "z \<le> 255" using that by simp_all
    then show ?thesis by (simp add: distrib_right)
  qed
  have "?n < 16777216" unfolding b64_number_eq by (rule bound) auto
  then have lt: "?n < 2 ^ 24" by simp
  define p q r t where "p = ?n div 2 ^ 18 mod 64" and "q = ?n div 2 ^ 12 mod 64" and "r = ?n div 2 ^ 6 mod 64"
    and "t = ?n mod 64"
  note defs = this
  have lt64: "p < 64" "q < 64" "r < 64" "t < 64" by (simp_all add: defs)
  have n_eq: "?n = ((p * 64 + q) * 64 + r) * 64 + t" unfolding defs by (rule sextets [OF lt, symmetric])
  have chunk: "b64_chunk c = [b64_alphabet ! p, b64_alphabet ! q,
      if 1 < length c then b64_alphabet ! r else CHR ''='', if 2 < length c then b64_alphabet ! t else CHR ''='']"
    by (simp add: b64_chunk_def Let_def and_63 drop_bit_eq_div defs)
  note J = b64_join_letters [OF lt64] and idx = index_of_alphabet(2) [OF lt64(3)] index_of_alphabet(2) [OF lt64(4)]
  consider a where "c = [a]" "s = []" | a b where "c = [a, b]" "s = []" | a b d where "c = [a, b, d]"
    using assms by (cases c; cases "tl c"; cases "tl (tl c)") auto
  then show ?thesis
  proof cases
    case 1
    have n: "?n = byte a * 65536" using 1 by (simp add: b64_number_eq)
    then have "?n = byte a * 1024 * 64" by simp
    then have "r = 0" "t = 0" unfolding defs by (simp_all add: mod_eq_0_iff_dvd)
    with J(3) n_eq have "b64_join (b64_alphabet ! p) (b64_alphabet ! q) (CHR ''A'') (CHR ''A'') = Some ?n" by simp
    with 1 n chunk show ?thesis by simp
  next
    case 2
    have n: "?n = (byte a * 256 + byte b) * 256" using 2 by (simp add: b64_number_eq)
    then have "?n = (byte a * 256 + byte b) * 4 * 64" by simp
    then have "t = 0" unfolding defs by (simp only: mod_mult_self2_is_0)
    with J(2) n_eq have "b64_join (b64_alphabet ! p) (b64_alphabet ! q) (b64_alphabet ! r) (CHR ''A'') = Some ?n" by simp
    moreover have "?n div 65536 = byte a" "?n div 256 mod 256 = byte b"
      using bytes_of_number [of "byte b" 0 ?n "byte a"] n by simp_all
    ultimately show ?thesis using 2 chunk idx by (simp del: char_of_mod_256)
  next
    case 3
    have n: "?n = (byte a * 256 + byte b) * 256 + byte d" using 3 by (simp add: b64_number_eq)
    have "?n div 65536 = byte a" "?n div 256 mod 256 = byte b" "?n mod 256 = byte d"
      by (rule bytes_of_number [OF byte_less_256 byte_less_256 n])+
    then show ?thesis using 3 chunk J(1) idx n_eq by (cases "b64_decode s") (simp_all del: char_of_mod_256)
  qed
qed

lemma b64_decode_b64: "b64_decode (b64 s) = Some s"
proof (induction s rule: b64.induct)
  case (4 a b c s)
  then show ?case using b64_chunk_decode [of "[a, b, c]" "b64 s"] by simp
next
  case (2 a)
  show ?case using b64_chunk_decode [of "[a]" "[]"] by simp
next
  case (3 a b)
  show ?case using b64_chunk_decode [of "[a, b]" "[]"] by simp
qed simp

lemma b64_chunk_visible: "c \<noteq> [] \<Longrightarrow> list_all (\<lambda>x. x = CHR ''='' \<or> x \<in> set b64_alphabet) (b64_chunk c)"
proof -
  have "length b64_alphabet = 64" by code_simp
  then have "b64_alphabet ! (n mod 64) \<in> set b64_alphabet" for n by (intro nth_mem) simp
  then show ?thesis by (simp add: b64_chunk_def Let_def and_63)
qed

lemma length_b64: "length (b64 s) = (length s + 2) div 3 * 4"
proof (induction s rule: b64.induct)
  case (4 a b c s)
  have "(length s + 2 + 3) div 3 = (length s + 2) div 3 + 1" by (rule div_add_self2) simp
  with 4 show ?case by (simp add: b64_chunk_def Let_def)
qed (simp_all add: b64_chunk_def Let_def)

end
