(* ===== verification/Actions.thy ===== *)
theory Actions
  imports Cors Base64
begin

text \<open>
  The actions subtree (\<^verbatim>\<open>crates/brust-core/src/actions.rs\<close>): the guards a request passes before its body is
  read and the app is called, the transport encoding of a body, and the response made of the app's answer. The host's
  \<^verbatim>\<open>read_body\<close> and \<^verbatim>\<open>action\<close> are arguments; the calls a request makes on the host are returned as a list of events.
\<close>

section \<open>Host types\<close>

datatype read_err = TooLarge | IoErr | Slow

datatype call_error =
    NoWorkers
  | CallTimeout
  | Enqueue string
  | Rejected string
  | Deadline
  | BadResponse string
  | StreamsFull
  | BodyAborted read_err

text \<open>\<^verbatim>\<open>Display\<close> of the errors whose text reaches a client.\<close>

fun call_error_text :: "call_error \<Rightarrow> string" where
  "call_error_text NoWorkers = ''no workers''"
| "call_error_text CallTimeout = ''all workers busy''"
| "call_error_text (Enqueue m) = ''worker dead: '' @ m"
| "call_error_text (Rejected m) = ''worker rejected: '' @ m"
| "call_error_text Deadline = ''call deadline exceeded''"
| "call_error_text (BadResponse m) = ''bad response: '' @ m"
| "call_error_text StreamsFull = ''too many streamed request bodies''"
| "call_error_text (BodyAborted e) = ''streamed request body failed''"

datatype 'b action_body = NoBody | Buffered string | StreamBody 'b "nat option"

record ('m, 'b) action_call =
  call_method :: string
  call_full :: string
  call_headers :: 'm
  call_authority :: "string option"
  call_body :: "'b action_body"

record fetch_response =
  fr_status :: nat
  fr_headers :: "(string \<times> string) list"
  fr_body :: string

datatype 'm action_reply = Fetch fetch_response | Unread fetch_response | Built "'m response"

record 'm request_head =
  rq_method :: string
  rq_full :: string
  rq_headers :: 'm
  rq_authority :: "string option"

section \<open>Guards\<close>

text \<open>\<^verbatim>\<open>str::replace\<close>: non-overlapping, left to right.\<close>

function replace_str :: "string \<Rightarrow> string \<Rightarrow> string \<Rightarrow> string" where
  "replace_str pat by [] = []"
| "replace_str pat by (c # s) =
     (case strip_prefix pat (c # s) of
        Some r \<Rightarrow> if pat = [] then c # s else by @ replace_str pat by r
      | None \<Rightarrow> c # replace_str pat by s)"
  by pat_completeness auto
termination
  by (relation "measure (\<lambda>(_, _, s). length s)") (auto simp: strip_prefix_Some Cons_eq_append_conv)

definition ambiguous_path :: "string \<Rightarrow> bool" where
  "ambiguous_path path \<longleftrightarrow>
     (let lower = to_ascii_lowercase path
      in CHR 0x5C \<in> set lower \<or> contains_str lower ''%5c'' \<or>
         list_ex (\<lambda>seg. replace_str ''%2e'' ''.'' seg \<in> {''.'', ''..''}) (split_char (CHR ''/'') lower))"

definition request_host :: "'m http_api \<Rightarrow> 'm \<Rightarrow> string option \<Rightarrow> string option" where
  "request_host h headers authority =
     (case Option.bind (header_str h headers ''x-forwarded-host'')
             (\<lambda>v. let s = trim (hd (split_char (CHR '','') v)) in if s \<noteq> [] then Some s else None) of
        Some s \<Rightarrow> Some s
      | None \<Rightarrow> (case header_str h headers ''host'' of Some v \<Rightarrow> Some v | None \<Rightarrow> authority))"

definition cross_site_verdict ::
  "'m http_api \<Rightarrow> string \<Rightarrow> 'm \<Rightarrow> string option \<Rightarrow> resolved_cors option \<Rightarrow> cross_site \<Rightarrow> bool" where
  "cross_site_verdict h meth headers host cors mode =
     (if meth \<in> {''GET'', ''HEAD'', ''OPTIONS''} \<or> mode = Allow then True
      else
        let origin = hm_get h headers ''origin'';
            cors_allows = (case (origin, cors) of (Some o', Some c) \<Rightarrow> origin_listed h c o' | _ \<Rightarrow> False)
        in if (case header_str h headers ''sec-fetch-site'' of
                 Some v \<Rightarrow> eq_ignore_ascii_case (trim v) ''cross-site'' | None \<Rightarrow> False)
           then cors_allows
           else
             (case origin of
                None \<Rightarrow> True
              | Some o' \<Rightarrow>
                  let authority = (case value_to_str h o' of
                                     None \<Rightarrow> None
                                   | Some s \<Rightarrow> map_option (to_ascii_lowercase \<circ> snd) (split_once_str ''://'' s))
                  in if (case (authority, host) of
                           (Some a, Some ho) \<Rightarrow> a = to_ascii_lowercase ho | _ \<Rightarrow> False)
                     then True else cors_allows))"

section \<open>Bodies and answers\<close>

datatype fetch_body = Text string | B64 string

definition essence_of :: "string \<Rightarrow> string" where
  "essence_of ct = to_ascii_lowercase (trim (hd (split_char (CHR '';'') ct)))"

definition encode_body :: "string \<Rightarrow> string \<Rightarrow> fetch_body" where
  "encode_body ct b =
     (let essence = essence_of ct;
          textual = essence \<in> {'''', ''application/json'', ''application/x-www-form-urlencoded''} \<or>
                    ends_with essence ''+json'' \<or> starts_with essence ''text/''
      in if textual \<and> utf8_valid b then Text b else B64 (b64 b))"

definition read_err_response :: "'m http_api \<Rightarrow> read_err \<Rightarrow> 'm response" where
  "read_err_response h e =
     (case e of
        TooLarge \<Rightarrow> error_413 h
      | IoErr \<Rightarrow> error_400 h
      | Slow \<Rightarrow> resp h 408 ''text/plain'' [] ''request timeout'')"

definition closing :: "'m http_api \<Rightarrow> 'm response \<Rightarrow> 'm response" where
  "closing h r = r\<lparr>resp_headers := hm_insert h ''connection'' ''close'' (resp_headers r)\<rparr>"

definition fetch_header_step :: "'m http_api \<Rightarrow> string \<times> string \<Rightarrow> 'm \<Rightarrow> 'm" where
  "fetch_header_step h kv hm =
     (let (k, v) = kv
      in if is_framing_header k then hm
         else (case (name_from_bytes h k, value_from_str h v) of
                 (Some n, Some v) \<Rightarrow> hm_append h n v hm
               | _ \<Rightarrow> hm))"

definition response_from_fetch :: "'m http_api \<Rightarrow> fetch_response \<Rightarrow> 'm response" where
  "response_from_fetch h f =
     (if \<not> (200 \<le> fr_status f \<and> fr_status f \<le> 599) then error_500 h
      else resp_with h (fr_status f) (fold (fetch_header_step h) (fr_headers f) (hm_new h)) (fr_body f))"

definition reply_to_response :: "'m http_api \<Rightarrow> 'm action_reply \<Rightarrow> 'm response" where
  "reply_to_response h r =
     (case r of
        Fetch f \<Rightarrow> response_from_fetch h f
      | Unread f \<Rightarrow> closing h (response_from_fetch h f)
      | Built r \<Rightarrow> r)"

section \<open>The handler\<close>

text \<open>What a request made the host do, in order.\<close>

datatype ('m, 'b) host_event = ReadBody 'b nat | ReadOut 'b | CallAction "('m, 'b) action_call"

record action_counters =
  worker_calls :: nat
  timed_out_calls :: nat

definition content_encoding_ok :: "'m http_api \<Rightarrow> 'm \<Rightarrow> bool" where
  "content_encoding_ok h headers \<longleftrightarrow>
     (case Option.bind (hm_get h headers ''content-encoding'') (value_to_str h) of
        None \<Rightarrow> True
      | Some v \<Rightarrow> eq_ignore_ascii_case (trim v) ''identity'')"

text \<open>The body step of \<^verbatim>\<open>handle\<close>: a response that ends the request, or the body for the call.\<close>

definition action_body_of ::
  "'m http_api \<Rightarrow> bool \<Rightarrow> actions_config \<Rightarrow> ('b \<Rightarrow> nat \<Rightarrow> (read_err, string) result) \<Rightarrow> 'm request_head \<Rightarrow> 'b \<Rightarrow>
     ('m response, 'b action_body) result \<times> ('m, 'b) host_event list" where
  "action_body_of h stream_body a read_body rq body =
     (if rq_method rq = ''GET'' \<or> rq_method rq = ''HEAD'' then (Ok NoBody, [])
      else if stream_body \<and> streams a (rq_method rq) (rq_full rq) then
        (let declared = Option.bind (header_str h (rq_headers rq) ''content-length'') (parse_u64 \<circ> trim)
         in case declared of
              Some n \<Rightarrow>
                if sc_max_bytes (ac_stream a) < n then (Err (closing h (error_413 h)), [ReadOut body])
                else if n = 0 then (Ok NoBody, [])
                else (Ok (StreamBody body declared), [])
            | None \<Rightarrow> (Ok (StreamBody body declared), []))
      else
        ((case read_body body (ac_max_body_bytes a) of
            Inr b \<Rightarrow> if b = [] then Ok NoBody else Ok (Buffered b)
          | Inl e \<Rightarrow> Err (read_err_response h e)),
         [ReadBody body (ac_max_body_bytes a)]))"

definition answer :: "'m http_api \<Rightarrow> (call_error, 'm action_reply) result \<Rightarrow> 'm response" where
  "answer h r =
     (case r of
        Inr rep \<Rightarrow> reply_to_response h rep
      | Inl e \<Rightarrow>
          (case e of
             NoWorkers \<Rightarrow> error_503 h (call_error_text e)
           | CallTimeout \<Rightarrow> error_503 h (call_error_text e)
           | StreamsFull \<Rightarrow> resp h 503 ''text/plain'' [(''retry-after'', ''1'')] (call_error_text e)
           | BodyAborted e \<Rightarrow> read_err_response h e
           | Deadline \<Rightarrow> error_504 h ''call deadline exceeded''
           | _ \<Rightarrow> error_500 h))"

definition count_call :: "(call_error, 'm action_reply) result \<Rightarrow> action_counters \<Rightarrow> action_counters" where
  "count_call r st =
     (let st = (if r \<in> {Inl NoWorkers, Inl CallTimeout, Inl StreamsFull} then st
                else st\<lparr>worker_calls := u64_add (worker_calls st) 1\<rparr>)
      in if r = Inl Deadline then st\<lparr>timed_out_calls := u64_add (timed_out_calls st) 1\<rparr> else st)"

definition handle ::
  "'m http_api \<Rightarrow> json_printer \<Rightarrow> bool \<Rightarrow> resolved_cors option \<Rightarrow> actions_config \<Rightarrow>
   ('b \<Rightarrow> nat \<Rightarrow> (read_err, string) result) \<Rightarrow> (('m, 'b) action_call \<Rightarrow> (call_error, 'm action_reply) result) \<Rightarrow>
   'm request_head \<Rightarrow> 'b \<Rightarrow> bool \<Rightarrow> action_counters \<Rightarrow>
   'm response \<times> ('m, 'b) host_event list \<times> action_counters" where
  "handle h to_json stream_body cors a read_body action rq body head st =
     (if rq_method rq \<in> {''CONNECT'', ''TRACE'', ''TRACK''} then
        (resp h 501 ''text/plain'' [] ''not implemented'', [], st)
      else if ambiguous_path (case split_once_char (CHR ''?'') (rq_full rq) of Some (p, _) \<Rightarrow> p | None \<Rightarrow> rq_full rq) then
        (error_400 h, [], st)
      else if \<not> content_encoding_ok h (rq_headers rq) then (error_415 h, [], st)
      else if \<not> cross_site_verdict h (rq_method rq) (rq_headers rq)
                  (request_host h (rq_headers rq) (rq_authority rq)) cors (ac_cross_site a) then
        (error_403_cross_site h to_json (rq_method rq), [], st)
      else
        (case action_body_of h stream_body a read_body rq body of
           (Inl r, events) \<Rightarrow> (r, events, st)
         | (Inr b, events) \<Rightarrow>
             let call = \<lparr>call_method = rq_method rq, call_full = rq_full rq, call_headers = rq_headers rq,
                         call_authority = rq_authority rq, call_body = b\<rparr>;
                 r = action call;
                 res = answer h r;
                 streamed = (case b of StreamBody _ _ \<Rightarrow> True | _ \<Rightarrow> False);
                 res = (if streamed \<and> isl r then closing h res else res)
             in (if head then head_only h res else res, events @ [CallAction call], count_call r st)))"

section \<open>What a URL parser makes of a path\<close>

text \<open>
  The path state of the WHATWG URL standard for http(s): a backslash is a slash, a dot segment is dropped and a
  double-dot segment drops the one before it, both also when the dots are percent-encoded.
\<close>

definition single_dot :: "string \<Rightarrow> bool" where
  "single_dot seg \<longleftrightarrow> to_ascii_lowercase seg \<in> {''.'', ''%2e''}"

definition double_dot :: "string \<Rightarrow> bool" where
  "double_dot seg \<longleftrightarrow> to_ascii_lowercase seg \<in> {''..'', ''.%2e'', ''%2e.'', ''%2e%2e''}"

fun whatwg_segments :: "string list \<Rightarrow> string list \<Rightarrow> string list" where
  "whatwg_segments acc [] = rev acc"
| "whatwg_segments acc (s # ss) =
     (if double_dot s then (if ss = [] then rev ([] # tl acc) else whatwg_segments (tl acc) ss)
      else if single_dot s then (if ss = [] then rev ([] # acc) else whatwg_segments acc ss)
      else whatwg_segments (s # acc) ss)"

definition whatwg_path :: "string \<Rightarrow> string list" where
  "whatwg_path p = whatwg_segments [] (split_char (CHR ''/'') (map (\<lambda>c. if c = CHR 0x5C then CHR ''/'' else c) p))"

lemma replace_str_Nil: "replace_str pat [d] s = [] \<longleftrightarrow> s = []"
  by (cases s) (auto split: option.splits)

lemma replace_dot: "replace_str ''%2e'' ''.'' s = CHR ''.'' # r \<longleftrightarrow>
  (\<exists>t. (s = CHR ''.'' # t \<or> s = ''%2e'' @ t) \<and> replace_str ''%2e'' ''.'' t = r)"
proof (cases s)
  case (Cons c u)
  show ?thesis
  proof (cases "strip_prefix ''%2e'' s")
    case None
    then have "\<nexists>t. s = ''%2e'' @ t" by (metis option.distinct(1) strip_prefix_Some)
    with None Cons show ?thesis by auto
  next
    case (Some t)
    then have s: "s = ''%2e'' @ t" by (simp add: strip_prefix_Some)
    then have "replace_str ''%2e'' ''.'' s = CHR ''.'' # replace_str ''%2e'' ''.'' t" by simp
    with s show ?thesis by auto
  qed
qed simp

lemma replace_is_dot: "replace_str ''%2e'' ''.'' s = ''.'' \<longleftrightarrow> s \<in> {''.'', ''%2e''}"
  unfolding replace_dot [of s "[]"] replace_str_Nil by auto

lemma replace_is_double_dot:
  "replace_str ''%2e'' ''.'' s = ''..'' \<longleftrightarrow> s \<in> {''..'', ''.%2e'', ''%2e.'', ''%2e%2e''}"
  unfolding replace_dot [of s "''.''"] replace_is_dot by auto

lemma ascii_lower_eq: "\<not> is_ascii_lowercase d \<Longrightarrow> \<not> is_ascii_uppercase d \<Longrightarrow> ascii_lower c = d \<longleftrightarrow> c = d"
  by (auto simp: ascii_lower_def byte_simps)

lemma split_lower: "split_char (CHR ''/'') (to_ascii_lowercase p) = map to_ascii_lowercase (split_char (CHR ''/'') p)"
proof (induction p)
  case (Cons c p)
  have "ascii_lower c = CHR ''/'' \<longleftrightarrow> c = CHR ''/''" by (rule ascii_lower_eq) (simp_all add: byte_simps)
  with Cons show ?case by (auto simp: to_ascii_lowercase_def split: list.splits)
qed (simp add: to_ascii_lowercase_def)

lemma ambiguous_path_segments:
  "\<not> ambiguous_path p \<Longrightarrow>
     CHR 0x5C \<notin> set p \<and> (\<forall>seg \<in> set (split_char (CHR ''/'') p). \<not> single_dot seg \<and> \<not> double_dot seg)"
proof -
  have "ascii_lower c = CHR 0x5C \<longleftrightarrow> c = CHR 0x5C" for c by (rule ascii_lower_eq) (simp_all add: byte_simps)
  then have lower: "CHR 0x5C = ascii_lower c \<longleftrightarrow> CHR 0x5C = c" for c by metis
  have "CHR 0x5C \<in> set (to_ascii_lowercase p) \<longleftrightarrow> CHR 0x5C \<in> set p"
    by (induction p) (simp_all add: to_ascii_lowercase_def lower)
  then show "\<not> ambiguous_path p \<Longrightarrow>
     CHR 0x5C \<notin> set p \<and> (\<forall>seg \<in> set (split_char (CHR ''/'') p). \<not> single_dot seg \<and> \<not> double_dot seg)"
    by (auto simp: ambiguous_path_def Let_def split_lower list_ex_iff replace_is_dot replace_is_double_dot
        single_dot_def double_dot_def)
qed

lemma whatwg_segments_plain:
  "\<forall>seg \<in> set ss. \<not> single_dot seg \<and> \<not> double_dot seg \<Longrightarrow> whatwg_segments acc ss = rev acc @ ss"
  by (induction acc ss rule: whatwg_segments.induct) auto

section \<open>Headers of an answer\<close>

definition fetch_contributes :: "'m http_api \<Rightarrow> string \<Rightarrow> string \<times> string \<Rightarrow> string list" where
  "fetch_contributes h n kv =
     (if name_from_bytes h (fst kv) = Some n \<and> list_all header_visible (snd kv) \<and> \<not> is_framing_header (fst kv)
      then [snd kv] else [])"

context http_headers
begin

lemma get_all_fetch_fold:
  "hm_get_all h (fold (fetch_header_step h) kvs m) n = hm_get_all h m n @ concat (map (fetch_contributes h n) kvs)"
proof (induction kvs arbitrary: m)
  case (Cons kv kvs)
  have "hm_get_all h (fetch_header_step h kv m) n = hm_get_all h m n @ fetch_contributes h n kv"
    by (auto simp: fetch_header_step_def fetch_contributes_def get_all_append value_from_str_iff
        split: prod.splits option.splits)
  with Cons show ?case by simp
qed simp

lemma fetch_contributes_framing: "is_framing_header n \<Longrightarrow> fetch_contributes h n kv = []"
  using name_lower [of "fst kv" n] by (auto simp: fetch_contributes_def)

lemma response_from_fetch_ok:
  assumes "200 \<le> fr_status f" and "fr_status f \<le> 599"
  shows "resp_status (response_from_fetch h f) = fr_status f" and "resp_body (response_from_fetch h f) = fr_body f"
    and "hm_get_all h (resp_headers (response_from_fetch h f)) n = concat (map (fetch_contributes h n) (fr_headers f))"
  using assms
  by (simp_all add: response_from_fetch_def resp_with_def status_iff get_all_fetch_fold get_all_new)

end


section \<open>Who may mutate\<close>

text \<open>The request says of itself that it comes from another site.\<close>

definition declared_cross_site :: "'m http_api \<Rightarrow> 'm \<Rightarrow> bool" where
  "declared_cross_site h headers \<longleftrightarrow>
     (\<exists>v. header_str h headers ''sec-fetch-site'' = Some v \<and> eq_ignore_ascii_case (trim v) ''cross-site'')"

text \<open>Its origin, if any, is the host it was sent to.\<close>

definition own_origin :: "'m http_api \<Rightarrow> 'm \<Rightarrow> string option \<Rightarrow> bool" where
  "own_origin h headers host \<longleftrightarrow>
     hm_get h headers ''origin'' = None \<or>
     (\<exists>o' scheme a ho. hm_get h headers ''origin'' = Some o' \<and> split_once_str ''://'' o' = Some (scheme, a) \<and>
        host = Some ho \<and> eq_ignore_ascii_case a ho)"

definition listed_origin :: "'m http_api \<Rightarrow> 'm \<Rightarrow> resolved_cors option \<Rightarrow> bool" where
  "listed_origin h headers cors \<longleftrightarrow>
     (\<exists>o' c. hm_get h headers ''origin'' = Some o' \<and> cors = Some c \<and> o' \<noteq> ''*'' \<and> o' \<in> set (rc_origins c))"

lemma cross_site_verdict_sound:
  assumes "http_headers h" and "cross_site_verdict h meth headers host cors Reject"
    and "meth \<notin> {''GET'', ''HEAD'', ''OPTIONS''}"
  shows "listed_origin h headers cors \<or> (\<not> declared_cross_site h headers \<and> own_origin h headers host)"
proof -
  note ts = http_headers.value_to_str_iff [OF assms(1)]
  have allows: "listed_origin h headers cors"
    if "case (hm_get h headers ''origin'', cors) of (Some o', Some c) \<Rightarrow> origin_listed h c o' | _ \<Rightarrow> False"
    using that by (auto simp: listed_origin_def origin_listed_def ts list_ex_iff split: option.splits if_splits)
  show ?thesis
  proof (cases "declared_cross_site h headers")
    case True
    then have "case header_str h headers ''sec-fetch-site'' of
        Some v \<Rightarrow> eq_ignore_ascii_case (trim v) ''cross-site'' | None \<Rightarrow> False"
      by (auto simp: declared_cross_site_def)
    with assms(2,3) allows show ?thesis by (simp add: cross_site_verdict_def Let_def)
  next
    case False
    then have "\<not> (case header_str h headers ''sec-fetch-site'' of
        Some v \<Rightarrow> eq_ignore_ascii_case (trim v) ''cross-site'' | None \<Rightarrow> False)"
      by (auto simp: declared_cross_site_def split: option.splits)
    with assms(2,3) allows False show ?thesis
      by (auto simp: cross_site_verdict_def own_origin_def eq_ignore_ascii_case_def ts Let_def
          split: option.splits if_splits)
  qed
qed

section \<open>Properties\<close>

text \<open>
  C27: The app is called, and a request's body is touched, only for an admitted request: not a method the app's runtime
  cannot represent, not a path a URL parser would rewrite, not an encoded body, and (where cross-site requests are
  rejected) a mutating request only from an origin the configuration lists by name or one that does not declare itself
  cross-site and whose origin, if it has one, is the host it was sent to. A GET or HEAD never has its body read; a body is
  buffered up to the configured cap only; and the app is called at most once.
\<close>

theorem handle_admission:
  assumes "http_headers h" and "handle h to_json stream_body cors a read_body action rq body head st = (r, events, st')"
    and "events \<noteq> []"
  shows "rq_method rq \<notin> {''CONNECT'', ''TRACE'', ''TRACK''} \<and>
    \<not> ambiguous_path (case split_once_char (CHR ''?'') (rq_full rq) of Some (p, _) \<Rightarrow> p | None \<Rightarrow> rq_full rq) \<and>
    content_encoding_ok h (rq_headers rq) \<and>
    (rq_method rq \<notin> {''GET'', ''HEAD'', ''OPTIONS''} \<and> ac_cross_site a = Reject \<longrightarrow>
       listed_origin h (rq_headers rq) cors \<or>
       (\<not> declared_cross_site h (rq_headers rq) \<and>
        own_origin h (rq_headers rq) (request_host h (rq_headers rq) (rq_authority rq)))) \<and>
    (rq_method rq \<in> {''GET'', ''HEAD''} \<longrightarrow> (\<exists>call. events = [CallAction call] \<and> call_body call = NoBody)) \<and>
    (\<exists>pre call. (events = pre \<or> events = pre @ [CallAction call]) \<and>
       set pre \<subseteq> {ReadBody body (ac_max_body_bytes a), ReadOut body})"
proof -
  let ?host = "request_host h (rq_headers rq) (rq_authority rq)"
  have ok: "rq_method rq \<notin> {''CONNECT'', ''TRACE'', ''TRACK''}"
    "\<not> ambiguous_path (case split_once_char (CHR ''?'') (rq_full rq) of Some (p, _) \<Rightarrow> p | None \<Rightarrow> rq_full rq)"
    "content_encoding_ok h (rq_headers rq)"
    "cross_site_verdict h (rq_method rq) (rq_headers rq) ?host cors (ac_cross_site a)"
    using assms(2,3) by (auto simp: handle_def split: if_splits)
  obtain rb pre where ab: "action_body_of h stream_body a read_body rq body = (rb, pre)" by fastforce
  have pre: "set pre \<subseteq> {ReadBody body (ac_max_body_bytes a), ReadOut body}"
    using ab by (auto simp: action_body_of_def Let_def split: if_splits option.splits)
  have get: "pre = [] \<and> rb = Inr NoBody" if "rq_method rq \<in> {''GET'', ''HEAD''}"
    using that ab by (auto simp: action_body_of_def)
  have "(\<exists>r'. rb = Inl r' \<and> events = pre) \<or>
      (\<exists>b. rb = Inr b \<and> events = pre @ [CallAction \<lparr>call_method = rq_method rq, call_full = rq_full rq,
         call_headers = rq_headers rq, call_authority = rq_authority rq, call_body = b\<rparr>])"
    using assms(2) ok ab by (auto simp: handle_def Let_def split: sum.splits)
  with get have "rq_method rq \<in> {''GET'', ''HEAD''} \<longrightarrow> (\<exists>call. events = [CallAction call] \<and> call_body call = NoBody)"
    and "\<exists>call. events = pre \<or> events = pre @ [CallAction call]"
    by auto
  moreover have "rq_method rq \<notin> {''GET'', ''HEAD'', ''OPTIONS''} \<and> ac_cross_site a = Reject \<longrightarrow>
      listed_origin h (rq_headers rq) cors \<or>
      (\<not> declared_cross_site h (rq_headers rq) \<and> own_origin h (rq_headers rq) ?host)"
    using cross_site_verdict_sound [OF assms(1), of "rq_method rq" "rq_headers rq" ?host cors] ok(4) by auto
  ultimately show ?thesis using ok(1-3) pre by blast
qed

definition demo_actions :: actions_config where
  "demo_actions = \<lparr>ac_prefix = ''/api'', ac_max_body_bytes = 9, ac_max_response_bytes = 9, ac_cross_site = Reject,
     ac_stream = \<lparr>sc_routes = [], sc_max_bytes = 1, sc_idle_ms = 1, sc_total_ms = 1, sc_max_streams = None\<rparr>\<rparr>"

theorem handle_admission_witness:
  "let hs = [(''host'', ''a.example''), (''origin'', ''https://a.example'')]
   in content_encoding_ok list_http hs \<and>
      (listed_origin list_http hs None \<or> own_origin list_http hs (request_host list_http hs None))"
proof -
  let ?rq = "\<lparr>rq_method = ''POST'', rq_full = ''/api/x'',
    rq_headers = [(''host'', ''a.example''), (''origin'', ''https://a.example'')], rq_authority = None\<rparr>"
  let ?run = "handle list_http (\<lambda>_. []) False None demo_actions (\<lambda>b n. Ok ''hi'')
    (\<lambda>_. Err NoWorkers) ?rq () False \<lparr>worker_calls = 0, timed_out_calls = 0\<rparr>"
  have "fst (snd ?run) \<noteq> []" by code_simp
  then show ?thesis
    using handle_admission [OF list_headers.http_headers_axioms, of "\<lambda>_. []" False None demo_actions
        "\<lambda>b n. Ok ''hi''" "\<lambda>_. Err NoWorkers" ?rq "()" False "\<lparr>worker_calls = 0, timed_out_calls = 0\<rparr>"
        "fst ?run" "fst (snd ?run)" "snd (snd ?run)"]
    by (auto simp: demo_actions_def Let_def)
qed



text \<open>C22: A request body crosses to the worker without loss: text when it is text (and then valid UTF-8), base64 otherwise.\<close>

fun fetch_body_bytes :: "fetch_body \<Rightarrow> string option" where
  "fetch_body_bytes (Text s) = Some s"
| "fetch_body_bytes (B64 s) = b64_decode s"

theorem encode_body_lossless:
  "fetch_body_bytes (encode_body ct b) = Some b \<and>
   (case encode_body ct b of Text s \<Rightarrow> utf8_valid s | B64 s \<Rightarrow> length s = (length b + 2) div 3 * 4)"
  by (simp add: encode_body_def Let_def b64_decode_b64 length_b64)

text \<open>
  C29: The app's answer as a response: an answer outside 200 to 599 becomes a 500; any other keeps its status and body, its
  valid headers in order (repeated ones too), and never a framing header.
\<close>

theorem response_from_fetch_safe:
  assumes "http_headers h"
  shows "(if 200 \<le> fr_status f \<and> fr_status f \<le> 599
      then resp_status (response_from_fetch h f) = fr_status f \<and> resp_body (response_from_fetch h f) = fr_body f \<and>
           hm_get_all h (resp_headers (response_from_fetch h f)) n = concat (map (fetch_contributes h n) (fr_headers f))
      else response_from_fetch h f = error_500 h) \<and>
    (is_framing_header n \<longrightarrow> hm_get_all h (resp_headers (response_from_fetch h f)) n = [])"
proof (cases "200 \<le> fr_status f \<and> fr_status f \<le> 599")
  case True
  then show ?thesis
    using http_headers.response_from_fetch_ok [OF assms] http_headers.fetch_contributes_framing [OF assms] by simp
next
  case False
  have "hm_get_all h (resp_headers (error_500 h)) n = []" if "is_framing_header n"
    using http_headers.get_all_header_map [OF assms] that
    by (auto simp: error_500_def resp_def resp_with_def is_framing_header_def eq_ignore_ascii_case_def)
  with False show ?thesis by (auto simp: response_from_fetch_def)
qed

theorem response_from_fetch_safe_witness:
  "hm_get_all list_http (resp_headers (response_from_fetch list_http
     \<lparr>fr_status = 200, fr_headers = [(''Set-Cookie'', ''a=1''), (''Set-Cookie'', ''b=2'')], fr_body = []\<rparr>)) ''set-cookie''
   = concat (map (fetch_contributes list_http ''set-cookie'') [(''Set-Cookie'', ''a=1''), (''Set-Cookie'', ''b=2'')])"
  using response_from_fetch_safe [OF list_headers.http_headers_axioms, of
      "\<lparr>fr_status = 200, fr_headers = [(''Set-Cookie'', ''a=1''), (''Set-Cookie'', ''b=2'')], fr_body = []\<rparr>" "''set-cookie''"]
  by simp


end
