(* ===== verification/StaticRules.thy ===== *)
theory StaticRules
  imports Url
begin

text \<open>
  Static files (\<^verbatim>\<open>crates/brust-core/src/static_rules.rs\<close>): which relative paths may be read from the two static
  roots, content types and the content-hash test. Percent-decoding of a static path is in \<^verbatim>\<open>Url\<close>.
\<close>

section \<open>Definitions\<close>

datatype static_root = Brust | PublicRoot

definition IMMUTABLE :: string where
  "IMMUTABLE = ''public, max-age=31536000, immutable''"

text \<open>\<^verbatim>\<open>Path::file_name\<close>, \<^verbatim>\<open>extension\<close> and \<^verbatim>\<open>file_stem\<close>: empty and dot components are skipped, the last dot splits the name.\<close>

definition file_name :: "string \<Rightarrow> string option" where
  "file_name p =
     (case rev (filter (\<lambda>s. s \<noteq> [] \<and> s \<noteq> ''.'') (split_char (CHR ''/'') p)) of
        [] \<Rightarrow> None
      | f # _ \<Rightarrow> if f = ''..'' then None else Some f)"

text \<open>\<^verbatim>\<open>rsplit_once\<close> at a character.\<close>

definition rsplit_once_char :: "char \<Rightarrow> string \<Rightarrow> (string \<times> string) option" where
  "rsplit_once_char c s = map_option (\<lambda>(a, b). (rev b, rev a)) (split_once_char c (rev s))"

definition extension :: "string \<Rightarrow> string option" where
  "extension p =
     (case file_name p of
        None \<Rightarrow> None
      | Some f \<Rightarrow>
          (case rsplit_once_char (CHR ''.'') f of
             None \<Rightarrow> None
           | Some (before, after) \<Rightarrow> if before = [] then None else Some after))"

definition file_stem :: "string \<Rightarrow> string option" where
  "file_stem p =
     (case file_name p of
        None \<Rightarrow> None
      | Some f \<Rightarrow>
          (case rsplit_once_char (CHR ''.'') f of
             None \<Rightarrow> Some f
           | Some (before, after) \<Rightarrow> if before = [] then Some f else Some before))"

definition content_types :: "(string \<times> string) list" where
  "content_types =
     [(''html'', ''text/html; charset=utf-8''), (''htm'', ''text/html; charset=utf-8''),
      (''css'', ''text/css; charset=utf-8''), (''js'', ''text/javascript; charset=utf-8''),
      (''mjs'', ''text/javascript; charset=utf-8''), (''json'', ''application/json; charset=utf-8''),
      (''map'', ''application/json; charset=utf-8''), (''svg'', ''image/svg+xml; charset=utf-8''),
      (''xml'', ''application/xml; charset=utf-8''), (''txt'', ''text/plain; charset=utf-8''),
      (''csv'', ''text/csv; charset=utf-8''), (''ico'', ''image/x-icon''), (''png'', ''image/png''),
      (''jpg'', ''image/jpeg''), (''jpeg'', ''image/jpeg''), (''gif'', ''image/gif''), (''webp'', ''image/webp''),
      (''avif'', ''image/avif''), (''woff2'', ''font/woff2''), (''woff'', ''font/woff''), (''ttf'', ''font/ttf''),
      (''otf'', ''font/otf''), (''eot'', ''application/vnd.ms-fontobject''), (''pdf'', ''application/pdf''),
      (''wasm'', ''application/wasm''), (''mp4'', ''video/mp4''), (''webm'', ''video/webm''),
      (''mp3'', ''audio/mpeg''), (''wav'', ''audio/wav'')]"

definition content_type_for :: "string \<Rightarrow> string" where
  "content_type_for p =
     (case Option.bind (map_option to_ascii_lowercase (extension p)) (map_of content_types) of
        Some t \<Rightarrow> t
      | None \<Rightarrow> ''application/octet-stream'')"

definition name_byte :: "char \<Rightarrow> bool" where
  "name_byte b \<longleftrightarrow> is_ascii_alphanumeric b \<or> b \<in> set ''_.-''"

definition is_safe_island_filename :: "string \<Rightarrow> bool" where
  "is_safe_island_filename name \<longleftrightarrow>
     ends_with name ''.js'' \<and> \<not> starts_with name ''.'' \<and>
     \<not> (CHR ''/'' \<in> set name \<or> CHR 0x5C \<in> set name \<or> contains_str name ''..'') \<and> list_all name_byte name"

definition is_safe_css_filename :: "string \<Rightarrow> bool" where
  "is_safe_css_filename name \<longleftrightarrow>
     ends_with name ''.css'' \<and> \<not> starts_with name ''.'' \<and>
     \<not> (CHR ''/'' \<in> set name \<or> CHR 0x5C \<in> set name \<or> contains_str name ''..'') \<and> list_all name_byte name"

definition client_asset_ext :: "string list" where
  "client_asset_ext =
     [''.woff2'', ''.woff'', ''.ttf'', ''.otf'', ''.eot'', ''.png'', ''.jpg'', ''.jpeg'', ''.gif'', ''.webp'',
      ''.avif'', ''.svg'', ''.ico'']"

definition is_safe_client_asset_filename :: "string \<Rightarrow> bool" where
  "is_safe_client_asset_filename name \<longleftrightarrow>
     list_ex (ends_with name) client_asset_ext \<and>
     \<not> (starts_with name ''.'' \<or> CHR ''/'' \<in> set name \<or> CHR 0x5C \<in> set name \<or> contains_str name ''..'') \<and>
     list_all name_byte name"

definition rel_seg_ok :: "string \<Rightarrow> bool" where
  "rel_seg_ok s \<longleftrightarrow> s \<noteq> [] \<and> \<not> starts_with s ''.'' \<and> list_all name_byte s"

definition safe_rel :: "string \<Rightarrow> static_root \<Rightarrow> string option" where
  "safe_rel rel root =
     (let segs = split_char (CHR ''/'') rel
      in if \<not> list_all rel_seg_ok segs then None
         else if root = Brust then
           (case segs of
              [dir, file] \<Rightarrow>
                if dir \<noteq> ''client'' \<or>
                   \<not> (is_safe_island_filename file \<or> is_safe_css_filename file \<or> is_safe_client_asset_filename file)
                then None else Some rel
            | _ \<Rightarrow> None)
         else Some rel)"

definition is_hashed :: "string \<Rightarrow> bool" where
  "is_hashed file \<longleftrightarrow>
     (case file_stem file of
        None \<Rightarrow> False
      | Some stem \<Rightarrow>
          (case rsplit_once_char (CHR ''-'') stem of
             None \<Rightarrow> False
           | Some (_, x) \<Rightarrow>
               6 \<le> length x \<and> list_all (\<lambda>b. is_ascii_digit b \<or> (97 \<le> byte b \<and> byte b \<le> 102)) x \<and>
               list_ex is_ascii_digit x))"

section \<open>Where a path leads\<close>

text \<open>How a file system walks a relative path from a directory: \<^verbatim>\<open>..\<close> goes up, \<^verbatim>\<open>.\<close> and empty segments stay.\<close>

definition walk_seg :: "string \<Rightarrow> string list \<Rightarrow> string list" where
  "walk_seg s dir = (if s = ''..'' then butlast dir else if s = ''.'' \<or> s = [] then dir else dir @ [s])"

definition walk :: "string list \<Rightarrow> string \<Rightarrow> string list" where
  "walk dir p = fold walk_seg (split_char (CHR ''/'') p) dir"

lemma rel_seg_ok_plain: "rel_seg_ok s \<Longrightarrow> s \<noteq> [] \<and> s \<noteq> ''.'' \<and> s \<noteq> ''..'' \<and> CHR 0x5C \<notin> set s"
  by (auto simp: rel_seg_ok_def starts_with_def list_all_iff name_byte_def byte_simps)

lemma walk_segs_ok: "list_all rel_seg_ok segs \<Longrightarrow> fold walk_seg segs dir = dir @ segs"
  by (induction segs arbitrary: dir) (auto simp: walk_seg_def dest: rel_seg_ok_plain)

lemma safe_rel_segs: "safe_rel rel root = Some r \<Longrightarrow> r = rel \<and> list_all rel_seg_ok (split_char (CHR ''/'') rel)"
  by (auto simp: safe_rel_def Let_def split: if_splits list.splits)

lemma safe_file_ext:
  "is_safe_island_filename f \<or> is_safe_css_filename f \<or> is_safe_client_asset_filename f \<Longrightarrow>
     list_ex (ends_with f) (''.js'' # ''.css'' # client_asset_ext)"
  by (auto simp: is_safe_island_filename_def is_safe_css_filename_def is_safe_client_asset_filename_def)

section \<open>Properties\<close>

text \<open>
  No request reads outside a static root. Whatever a client sends, escaped or not, a path that passes the check leads
  from the root's directory to a file below it, through segments that are neither hidden nor special; under
  \<^verbatim>\<open>/_brust/\<close> it is a file directly in \<^verbatim>\<open>client\<close> with one of the served extensions, never the manifest, the server's
  own code or the templates.
\<close>

theorem safe_rel_contained:
  assumes "safe_rel (asset_lookup_key raw) root = Some rel"
  shows "rel = asset_lookup_key raw \<and>
    (\<exists>segs. walk dir rel = dir @ segs \<and> segs \<noteq> [] \<and>
       list_all (\<lambda>s. s \<noteq> [] \<and> hd s \<noteq> CHR ''.'' \<and> list_all name_byte s) segs \<and>
       (root = Brust \<longrightarrow>
          (\<exists>f. segs = [''client'', f] \<and> list_ex (ends_with f) (''.js'' # ''.css'' # client_asset_ext))))"
proof -
  let ?segs = "split_char (CHR ''/'') rel"
  have r: "rel = asset_lookup_key raw" "list_all rel_seg_ok ?segs" using safe_rel_segs [OF assms] by auto
  have "walk dir rel = dir @ ?segs" using r(2) by (simp add: walk_def walk_segs_ok)
  moreover have "list_all (\<lambda>s. s \<noteq> [] \<and> hd s \<noteq> CHR ''.'' \<and> list_all name_byte s) ?segs"
  proof -
    have "s \<noteq> [] \<and> hd s \<noteq> CHR ''.'' \<and> list_all name_byte s" if "rel_seg_ok s" for s
      using that by (cases s) (auto simp: rel_seg_ok_def starts_with_def)
    with r(2) show ?thesis by (auto simp: list_all_iff)
  qed
  moreover have "\<exists>f. ?segs = [''client'', f] \<and> list_ex (ends_with f) (''.js'' # ''.css'' # client_asset_ext)" if brust: "root = Brust"
  proof -
    obtain f where "?segs = [''client'', f]"
      "is_safe_island_filename f \<or> is_safe_css_filename f \<or> is_safe_client_asset_filename f"
      using assms [unfolded brust] r(1) by (auto simp: safe_rel_def Let_def split: if_splits list.splits)
    with safe_file_ext show ?thesis by blast
  qed
  ultimately show ?thesis using r(1) split_char_not_Nil by blast
qed

theorem safe_rel_contained_witness:
  "\<exists>segs. walk [''dist''] ''client/app-0a1b2c.js'' = [''dist''] @ segs \<and> segs \<noteq> []"
proof -
  have "safe_rel (asset_lookup_key ''client/app%2D0a1b2c.js'') Brust = Some ''client/app-0a1b2c.js''" by code_simp
  from safe_rel_contained [OF this, of "[''dist'']"] show ?thesis by blast
qed

end
