(* ===== verification/L2.thy ===== *)
theory L2
  imports CacheKeys Config
begin

text \<open>
  The shared second cache tier (\<^verbatim>\<open>crates/brust-core/src/l2.rs\<close>): keys, stored pages, the remaining time to live
  of a page read back, the counters, and the invalidation floor that keeps an older shared body from being served after a
  replayed invalidation. The \<^verbatim>\<open>blake3\<close> hash and \<^verbatim>\<open>serde_json\<close>'s string printer are arguments.
\<close>

section \<open>Keys and pages\<close>

record l2_config =
  l2_adapter :: string
  l2_get_timeout_ns :: nat
  l2_max_body_bytes :: nat
  l2_namespace :: string
  l2_build_id :: string

definition l2_preimage :: "cache_key \<Rightarrow> string" where
  "l2_preimage k = key_prefix k @ [CHR 0x00] @ key_method k @ [CHR 0x00] @ key_path k @ [CHR 0x00] @ key_query k"

definition l2_key_of :: "(string \<Rightarrow> string) \<Rightarrow> l2_config \<Rightarrow> cache_key \<Rightarrow> string" where
  "l2_key_of blake3_hex cfg k =
     l2_namespace cfg @ '':'' @ l2_build_id cfg @ '':p:'' @ blake3_hex (l2_preimage k)"

record l2_page =
  l2p_status :: nat
  l2p_headers :: "(string \<times> string) list"
  l2p_body :: string

record l2_set_meta =
  sm_ttl_ms :: nat
  sm_tags :: "string list"
  sm_method :: string
  sm_path :: string
  sm_prefix :: string
  sm_stamp :: "nat option"

datatype l2_lookup =
    L2Off
  | L2Miss "nat option"
  | L2Floor "nat option"
  | L2Hit l2_page "nat option" "nat option" "nat option"
  | L2Timeout
  | L2Failed string

definition PER_REQUEST :: "string list" where
  "PER_REQUEST =
     [''x-brust-cache'', ''content-encoding'', ''vary'', ''content-length'', ''transfer-encoding'', ''set-cookie'']"

definition page_header_step :: "'m http_api \<Rightarrow> string \<times> string \<Rightarrow> 'm \<Rightarrow> 'm" where
  "page_header_step h kv headers =
     (let (k, v) = kv
      in case (name_from_bytes h k, value_from_str h v) of
           (Some name, Some value) \<Rightarrow>
             if name \<in> set PER_REQUEST then headers else hm_append h name value headers
         | _ \<Rightarrow> headers)"

text \<open>\<^verbatim>\<open>page_from_l2\<close>: status, headers and body of the \<^verbatim>\<open>RenderedBody\<close> (its gzip is unset).\<close>

definition page_from_l2 :: "'m http_api \<Rightarrow> l2_page \<Rightarrow> 'm response" where
  "page_from_l2 h p =
     \<lparr>resp_status = l2p_status p, resp_headers = fold (page_header_step h) (l2p_headers p) (hm_new h),
      resp_body = l2p_body p\<rparr>"

text \<open>\<^verbatim>\<open>remaining_ttl\<close>, durations in nanoseconds.\<close>

definition remaining_ttl :: "nat \<Rightarrow> nat option \<Rightarrow> nat \<Rightarrow> nat option" where
  "remaining_ttl ttl stored_at_ms now_ms =
     (case stored_at_ms of
        None \<Rightarrow> Some ttl
      | Some t \<Rightarrow>
          let age = (now_ms - t) * 1000000
          in if ttl \<le> age then None else Some (min (max (ttl - age) 1000000000) ttl))"

section \<open>Counters\<close>

definition L2_COUNTERS :: "string list" where
  "L2_COUNTERS =
     [''hits'', ''misses'', ''timeouts'', ''errors'', ''rejected_floor'', ''sets'', ''set_refused'', ''set_dropped'',
      ''set_oversize'', ''published'', ''publish_errors'', ''received'', ''skipped_own'', ''resets'', ''epoch_polls'',
      ''poll_errors'']"

type_synonym l2_counters = "(string \<times> nat) list"

definition l2_counters_new :: l2_counters where
  "l2_counters_new = map (\<lambda>n. (n, 0)) L2_COUNTERS"

definition bump :: "string \<Rightarrow> l2_counters \<Rightarrow> bool \<times> l2_counters" where
  "bump name cs =
     (if name \<in> set L2_COUNTERS
      then (True, map (\<lambda>(n, v). if n = name then (n, u64_add v 1) else (n, v)) cs)
      else (False, cs))"

definition snapshot :: "string \<Rightarrow> l2_counters \<Rightarrow> string \<times> l2_counters" where
  "snapshot adapter cs = (adapter, cs)"

section \<open>The floor\<close>

definition FLOOR_NAMES :: nat where
  "FLOOR_NAMES = 4096"

record floor =
  fl_names :: "(string \<times> nat \<times> nat) list"
  fl_global :: "nat option"
  fl_tick :: nat
  fl_scoped :: bool

definition floor_new :: floor where
  "floor_new = \<lparr>fl_names = [], fl_global = None, fl_tick = 0, fl_scoped = False\<rparr>"

definition tag_name :: "string \<Rightarrow> string" where
  "tag_name t = ''t:'' @ t"

definition path_name :: "string \<Rightarrow> string \<Rightarrow> string" where
  "path_name meth path = ''p:'' @ meth @ '' '' @ path"

text \<open>\<^verbatim>\<open>prefix_part\<close> is the JSON string of the prefix: the argument \<open>js\<close> below.\<close>

definition prefix_name :: "(string \<Rightarrow> string) \<Rightarrow> string \<Rightarrow> string" where
  "prefix_name js px = ''px:'' @ js px"

definition prefix_tag_name :: "(string \<Rightarrow> string) \<Rightarrow> string \<Rightarrow> string \<Rightarrow> string" where
  "prefix_tag_name js px t = ''pt:'' @ js px @ t"

definition prefix_path_name :: "(string \<Rightarrow> string) \<Rightarrow> string \<Rightarrow> string \<Rightarrow> string \<Rightarrow> string" where
  "prefix_path_name js px meth path = ''pp:'' @ js px @ meth @ '' '' @ path"

text \<open>\<^verbatim>\<open>min_by_key\<close> over the ticks: the first least one.\<close>

fun oldest :: "(string \<times> nat \<times> nat) list \<Rightarrow> (string \<times> nat) option" where
  "oldest [] = None"
| "oldest ((k, _, t) # es) =
     (case oldest es of
        None \<Rightarrow> Some (k, t)
      | Some (k', t') \<Rightarrow> if t \<le> t' then Some (k, t) else Some (k', t'))"

definition raise_name :: "string \<Rightarrow> nat \<Rightarrow> floor \<Rightarrow> floor" where
  "raise_name name sq fl =
     (let tick = u64_add (fl_tick fl) 1;
          old = (case map_of (fl_names fl) name of Some (f, _) \<Rightarrow> f | None \<Rightarrow> 0);
          names = AList.update name (max old sq, tick) (fl_names fl);
          names = (if FLOOR_NAMES < length names
                   then (case oldest names of Some (k, _) \<Rightarrow> AList.delete k names | None \<Rightarrow> names)
                   else names)
      in fl\<lparr>fl_names := names, fl_tick := tick\<rparr>)"

text \<open>The names \<^verbatim>\<open>Floor::raise\<close> raises for an invalidation, in order.\<close>

definition raised_names :: "(string \<Rightarrow> string) \<Rightarrow> invalidate_args \<Rightarrow> string list" where
  "raised_names js a =
     map (\<lambda>t. case ia_prefix a of None \<Rightarrow> tag_name t | Some px \<Rightarrow> prefix_tag_name js px t) (ia_tags a) @
     (case ia_path a of
        Some p \<Rightarrow>
          let p = normalize_request_path p; m = (case ia_method a of Some m \<Rightarrow> m | None \<Rightarrow> ''GET'')
          in [case ia_prefix a of None \<Rightarrow> path_name m p | Some px \<Rightarrow> prefix_path_name js px m p]
      | None \<Rightarrow>
          (case ia_prefix a of
             Some px \<Rightarrow>
               if ia_tags a = [] \<and> (case ia_method a of None \<Rightarrow> True | Some m \<Rightarrow> m = ''GET'')
               then [prefix_name js px] else []
           | None \<Rightarrow> []))"

definition raise :: "(string \<Rightarrow> string) \<Rightarrow> invalidate_args \<Rightarrow> nat \<Rightarrow> floor \<Rightarrow> floor" where
  "raise js a sq fl =
     fold (\<lambda>n fl. raise_name n sq fl) (raised_names js a) (fl\<lparr>fl_scoped := fl_scoped fl \<or> ia_prefix a \<noteq> None\<rparr>)"

definition clear_at :: "nat \<Rightarrow> floor \<Rightarrow> floor" where
  "clear_at sq fl = fl\<lparr>fl_global := Some (case fl_global fl of None \<Rightarrow> sq | Some g \<Rightarrow> max g sq)\<rparr>"

definition floor_reset :: "floor \<Rightarrow> floor" where
  "floor_reset fl = floor_new"

definition below :: "floor \<Rightarrow> nat \<Rightarrow> string \<Rightarrow> bool" where
  "below fl s name \<longleftrightarrow> (case map_of (fl_names fl) name of None \<Rightarrow> False | Some (f, _) \<Rightarrow> s < f)"

definition rejects :: "(string \<Rightarrow> string) \<Rightarrow> floor \<Rightarrow> nat option \<Rightarrow> string \<Rightarrow> string \<Rightarrow> string list \<Rightarrow> bool" where
  "rejects js fl entry_stamp pfx path tags \<longleftrightarrow>
     (case entry_stamp of
        None \<Rightarrow> False
      | Some s \<Rightarrow>
          if (case fl_global fl of None \<Rightarrow> False | Some g \<Rightarrow> s < g) then True
          else if list_ex (\<lambda>t. below fl s (tag_name t)) tags \<or> below fl s (path_name ''GET'' path) then True
          else if \<not> fl_scoped fl then False
          else below fl s (prefix_name js pfx) \<or> below fl s (prefix_path_name js pfx ''GET'' path) \<or>
               list_ex (\<lambda>t. below fl s (prefix_tag_name js pfx t)) tags)"

section \<open>What the floor remembers\<close>

definition floor_wf :: "floor \<Rightarrow> bool" where
  "floor_wf fl \<longleftrightarrow> distinct (map fst (fl_names fl)) \<and> length (fl_names fl) \<le> FLOOR_NAMES \<and>
     (\<forall>(n, f, t) \<in> set (fl_names fl). t \<le> fl_tick fl)"

lemma floor_wf_new: "floor_wf floor_new"
  by (simp add: floor_wf_def floor_new_def)

lemma oldest_None: "oldest es = None \<longleftrightarrow> es = []"
  by (induction es rule: oldest.induct) (auto split: option.splits)

lemma oldest_Some:
  "oldest es = Some (k, t) \<Longrightarrow> (\<exists>f. (k, f, t) \<in> set es) \<and> (\<forall>k' f' t'. (k', f', t') \<in> set es \<longrightarrow> t \<le> t')"
proof (induction es arbitrary: k t rule: oldest.induct)
  case 1
  then show ?case by simp
next
  case (2 k0 f0 t0 es)
  show ?case
  proof (cases "oldest es")
    case None
    then show ?thesis using 2 by (auto simp: oldest_None)
  next
    case (Some kt)
    obtain k1 t1 where kt: "kt = (k1, t1)" by (cases kt)
    have ih: "(\<exists>f. (k1, f, t1) \<in> set es)" "\<And>k' f' t'. (k', f', t') \<in> set es \<Longrightarrow> t1 \<le> t'"
      using 2(1) Some kt by blast+
    have "(k, t) = (if t0 \<le> t1 then (k0, t0) else (k1, t1))"
      using 2(2) Some kt by (auto split: if_splits)
    then show ?thesis using ih by (cases "t0 \<le> t1") (auto dest: ih(2))
  qed
qed

lemma floor_wf_tick: "floor_wf fl \<Longrightarrow> map_of (fl_names fl) n = Some (f, t) \<Longrightarrow> t \<le> fl_tick fl"
  by (auto simp: floor_wf_def dest!: map_of_SomeD)

lemma length_AList_update:
  "distinct (map fst al) \<Longrightarrow> length (AList.update k v al) = (if k \<in> fst ` set al then length al else Suc (length al))"
  by (induction al) auto

lemma length_AList_delete:
  assumes "distinct (map fst al)" and "map_of al k = Some v"
  shows "Suc (length (AList.delete k al)) = length al"
proof -
  have "filter (\<lambda>x. fst x = k) al = [(k, v)]"
    using assms
  proof (induction al)
    case (Cons a al)
    show ?case
    proof (cases "fst a = k")
      case True
      then have "filter (\<lambda>x. fst x = k) al = []" using Cons.prems(1) by (fastforce simp: filter_empty_conv image_iff)
      with True Cons.prems(2) show ?thesis by (cases a) auto
    qed (use Cons in \<open>cases a; simp\<close>)
  qed simp
  then have "length (filter (\<lambda>x. fst x = k) al) = 1" by simp
  then show ?thesis
    using sum_length_filter_compl [of "\<lambda>x. fst x = k" al] by (simp add: AList.delete_eq case_prod_unfold eq_commute [of k])
qed

text \<open>
  What one raise does: the name is held at the new tick and at least at the new sequence number; any other name keeps its
  floor, unless it is the one dropped from a full table, which no other held name precedes.
\<close>

definition floor_of :: "floor \<Rightarrow> string \<Rightarrow> nat" where
  "floor_of fl n = (case map_of (fl_names fl) n of Some (f, _) \<Rightarrow> f | None \<Rightarrow> 0)"

lemma raise_name_step:
  fixes name :: string and sq :: nat
  assumes wf: "floor_wf fl" and tick: "Suc (fl_tick fl) < u64_mod"
  defines "al \<equiv> AList.update name (max (floor_of fl name) sq, Suc (fl_tick fl)) (fl_names fl)"
  shows "fl_tick (raise_name name sq fl) = Suc (fl_tick fl)"
    and "fl_names (raise_name name sq fl) = al \<and> length al \<le> FLOOR_NAMES \<or>
      (\<exists>k f t. fl_names (raise_name name sq fl) = AList.delete k al \<and> k \<noteq> name \<and>
         map_of al k = Some (f, t) \<and> length al = Suc FLOOR_NAMES \<and>
         (\<forall>n' f' t'. map_of al n' = Some (f', t') \<longrightarrow> t \<le> t'))"
proof -
  have d: "distinct (map fst al)" using wf by (simp add: al_def floor_wf_def AList.distinct_update)
  have len: "length al \<le> Suc FLOOR_NAMES"
    using wf by (auto simp: al_def floor_wf_def length_AList_update)
  have r: "raise_name name sq fl = fl\<lparr>fl_names := (if FLOOR_NAMES < length al
      then (case oldest al of Some (k, _) \<Rightarrow> AList.delete k al | None \<Rightarrow> al) else al), fl_tick := Suc (fl_tick fl)\<rparr>"
  proof -
    have "u64_add (fl_tick fl) 1 = Suc (fl_tick fl)" using tick by simp
    then show ?thesis unfolding raise_name_def Let_def al_def floor_of_def by metis
  qed
  show "fl_tick (raise_name name sq fl) = Suc (fl_tick fl)" by (simp add: r)
  show "fl_names (raise_name name sq fl) = al \<and> length al \<le> FLOOR_NAMES \<or>
      (\<exists>k f t. fl_names (raise_name name sq fl) = AList.delete k al \<and> k \<noteq> name \<and>
         map_of al k = Some (f, t) \<and> length al = Suc FLOOR_NAMES \<and>
         (\<forall>n' f' t'. map_of al n' = Some (f', t') \<longrightarrow> t \<le> t'))"
  proof (cases "FLOOR_NAMES < length al")
    case True
    then obtain k t where old: "oldest al = Some (k, t)" using oldest_None [of al] by (cases "oldest al") auto
    from oldest_Some [OF this] obtain f where k: "(k, f, t) \<in> set al"
      and least: "\<And>n' f' t'. (n', f', t') \<in> set al \<Longrightarrow> t \<le> t'" by blast
    have mk: "map_of al k = Some (f, t)" using k d by simp
    have "k \<noteq> name"
    proof
      assume "k = name"
      then have t: "t = Suc (fl_tick fl)" using mk by (simp add: al_def AList.update_conv')
      have "length al = Suc FLOOR_NAMES" using True len by simp
      then have "fl_names fl \<noteq> []" by (auto simp: al_def FLOOR_NAMES_def)
      then obtain n1 f1 t1 where e1: "(n1, f1, t1) \<in> set (fl_names fl)"
        by (metis list.set_intros(1) neq_Nil_conv prod_cases3)
      show False
      proof (cases "n1 = name")
        case True
        then have "length (fl_names fl) = length al"
          using e1 wf by (force simp: al_def length_AList_update floor_wf_def)
        then show False using wf \<open>length al = Suc FLOOR_NAMES\<close> by (simp add: floor_wf_def)
      next
        case False
        have "map_of (fl_names fl) n1 = Some (f1, t1)" using e1 wf by (simp add: floor_wf_def)
        then have "map_of al n1 = Some (f1, t1)" using False by (simp add: al_def AList.update_conv')
        then have "t \<le> t1" using least by (blast dest: map_of_SomeD)
        moreover have "t1 \<le> fl_tick fl" using e1 wf by (auto simp: floor_wf_def)
        ultimately show False using t by simp
      qed
    qed
    moreover have "fl_names (raise_name name sq fl) = AList.delete k al" using True old by (simp add: r)
    ultimately show ?thesis using mk True len least by (metis Suc_leI le_antisym map_of_SomeD)
  qed (simp add: r)
qed

lemma floor_wf_raise_name:
  assumes wf: "floor_wf fl" and tick: "Suc (fl_tick fl) < u64_mod"
  shows "floor_wf (raise_name name sq fl)"
proof -
  let ?al = "AList.update name (max (floor_of fl name) sq, Suc (fl_tick fl)) (fl_names fl)"
  note S = raise_name_step [OF assms, of name sq]
  have d: "distinct (map fst ?al)" using wf by (simp add: floor_wf_def AList.distinct_update)
  have t: "t \<le> Suc (fl_tick fl)" if "(n, f, t) \<in> set ?al" for n f t
  proof -
    from that d have "map_of ?al n = Some (f, t)" by simp
    then show ?thesis using floor_wf_tick [OF wf, of n f t] by (auto simp: AList.update_conv' split: if_splits)
  qed
  from S(2) show ?thesis
  proof
    assume "fl_names (raise_name name sq fl) = ?al \<and> length ?al \<le> FLOOR_NAMES"
    then show ?thesis using d t S(1) by (auto simp: floor_wf_def)
  next
    assume "\<exists>k f t. fl_names (raise_name name sq fl) = AList.delete k ?al \<and> k \<noteq> name \<and>
         map_of ?al k = Some (f, t) \<and> length ?al = Suc FLOOR_NAMES \<and>
         (\<forall>n' f' t'. map_of ?al n' = Some (f', t') \<longrightarrow> t \<le> t')"
    then obtain k f t' where k: "fl_names (raise_name name sq fl) = AList.delete k ?al" "map_of ?al k = Some (f, t')"
      "length ?al = Suc FLOOR_NAMES" by blast
    have "Suc (length (AList.delete k ?al)) = length ?al" by (rule length_AList_delete [OF d k(2)])
    moreover have "distinct (map fst (AList.delete k ?al))" using d by (rule AList.distinct_delete)
    moreover have "set (AList.delete k ?al) \<subseteq> set ?al" by (simp add: AList.delete_eq)
    ultimately show ?thesis using k(1,3) t S(1) by (auto simp: floor_wf_def)
  qed
qed

lemma distinct_ticks_length:
  assumes "distinct (map fst es)" and "finite names" and "\<And>n f t. map_of es n = Some (f, t) \<Longrightarrow> n \<in> names"
  shows "length es \<le> card names"
proof -
  have "n \<in> names" if "n \<in> set (map fst es)" for n
    using that assms(3) map_of_eq_None_iff [of es n] by (cases "map_of es n") auto
  then have "card (set (map fst es)) \<le> card names" using assms(2) by (intro card_mono) blast+
  then show ?thesis using distinct_card [OF assms(1)] by simp
qed

section \<open>Remembering a raised name\<close>

text \<open>
  \<open>remembers fl name q since names\<close>: the floor holds \<open>name\<close> at \<open>q\<close> or above, raised at tick \<open>since\<close> or later, and every
  other name it holds from that tick on is in \<open>names\<close>.
\<close>

definition remembers :: "floor \<Rightarrow> string \<Rightarrow> nat \<Rightarrow> nat \<Rightarrow> string set \<Rightarrow> bool" where
  "remembers fl name q since names \<longleftrightarrow> floor_wf fl \<and> since \<le> fl_tick fl \<and>
     (\<exists>f t. map_of (fl_names fl) name = Some (f, t) \<and> q \<le> f \<and> since \<le> t) \<and>
     (\<forall>n f t. map_of (fl_names fl) n = Some (f, t) \<longrightarrow> since \<le> t \<longrightarrow> n = name \<or> n \<in> names)"

lemma remembersD: "remembers fl name q since names \<Longrightarrow> s < q \<Longrightarrow> below fl s name"
  by (auto simp: remembers_def below_def)

lemma remembers_start:
  assumes "floor_wf fl" and "Suc (fl_tick fl) < u64_mod"
  shows "remembers (raise_name name sq fl) name sq (Suc (fl_tick fl)) {}"
proof -
  let ?al = "AList.update name (max (floor_of fl name) sq, Suc (fl_tick fl)) (fl_names fl)"
  note S = raise_name_step [OF assms, of name sq]
  have "map_of (fl_names (raise_name name sq fl)) name = Some (max (floor_of fl name) sq, Suc (fl_tick fl))"
    using S(2) by (auto simp: AList.update_conv' AList.delete_conv')
  moreover have "n = name" if "map_of (fl_names (raise_name name sq fl)) n = Some (f, t)" "Suc (fl_tick fl) \<le> t" for n f t
  proof (rule ccontr)
    assume "n \<noteq> name"
    with that(1) S(2) have "map_of (fl_names fl) n = Some (f, t)"
      by (auto simp: AList.update_conv' AList.delete_conv' restrict_map_def split: if_splits)
    then show False using floor_wf_tick [OF assms(1)] that(2) by fastforce
  qed
  ultimately show ?thesis using floor_wf_raise_name [OF assms] S(1) by (auto simp: remembers_def)
qed

lemma remembers_raise_name:
  assumes rem: "remembers fl name q since names" and tick: "Suc (fl_tick fl) < u64_mod"
    and fin: "finite names" and few: "card (names \<union> {m} - {name}) < FLOOR_NAMES"
  shows "remembers (raise_name m sq fl) name q since (names \<union> {m})"
proof -
  have wf: "floor_wf fl" using rem by (simp add: remembers_def)
  let ?al = "AList.update m (max (floor_of fl m) sq, Suc (fl_tick fl)) (fl_names fl)"
  let ?fl = "raise_name m sq fl"
  note S = raise_name_step [OF wf tick, of m sq]
  have d: "distinct (map fst ?al)" using wf by (simp add: floor_wf_def AList.distinct_update)
  have al: "n = name \<or> n \<in> names \<union> {m}" if "map_of ?al n = Some (f, t)" "since \<le> t" for n f t
    using that rem by (auto simp: remembers_def AList.update_conv' split: if_splits)
  have held: "\<exists>f t. map_of ?al name = Some (f, t) \<and> q \<le> f \<and> since \<le> t"
    using rem by (auto simp: remembers_def AList.update_conv' floor_of_def)
  have keep: "map_of (fl_names ?fl) name = map_of ?al name"
  proof -
    have False if k: "map_of ?al name = Some (f, t)" "length ?al = Suc FLOOR_NAMES"
      "\<And>n' f' t'. map_of ?al n' = Some (f', t') \<Longrightarrow> t \<le> t'" for f t
    proof -
      have "since \<le> t" using held k(1) by auto
      then have "n = name \<or> n \<in> names \<union> {m}" if "map_of ?al n = Some (f', t')" for n f' t'
        using al that k(3) le_trans by blast
      then have "length ?al \<le> card ({name} \<union> (names \<union> {m} - {name}))"
        using fin by (intro distinct_ticks_length [OF d]) (simp, blast)
      also have "\<dots> \<le> Suc (card (names \<union> {m} - {name}))" using card_Un_le [of "{name}" "names \<union> {m} - {name}"] by simp
      finally show False using k(2) few by simp
    qed
    then show ?thesis using S(2) by (auto simp: AList.delete_conv')
  qed
  moreover have "map_of (fl_names ?fl) n = Some v \<Longrightarrow> map_of ?al n = Some v" for n v
    using S(2) by (auto simp: AList.delete_conv' restrict_map_def split: if_splits)
  ultimately show ?thesis
    using floor_wf_raise_name [OF wf tick] S(1) held al rem unfolding remembers_def by (metis le_Suc_eq)
qed

text \<open>Further raises, by name and sequence number.\<close>

definition raise_names :: "(string \<times> nat) list \<Rightarrow> floor \<Rightarrow> floor" where
  "raise_names = fold (\<lambda>(n, q) fl. raise_name n q fl)"

lemma raise_names_wf:
  assumes "floor_wf fl" and "fl_tick fl + length rs < u64_mod"
  shows "floor_wf (raise_names rs fl) \<and> fl_tick (raise_names rs fl) = fl_tick fl + length rs"
  using assms
proof (induction rs arbitrary: fl)
  case (Cons r rs)
  obtain n q where r: "r = (n, q)" by (cases r)
  have "Suc (fl_tick fl) < u64_mod" using Cons.prems(2) by simp
  then show ?case
    using Cons.IH [of "raise_name n q fl"] Cons.prems floor_wf_raise_name raise_name_step(1)
    by (simp add: raise_names_def r)
qed (simp add: raise_names_def)

lemma remembers_raise_names:
  assumes "remembers fl name q since names" and "fl_tick fl + length rs < u64_mod"
    and "finite names" and "card (names \<union> fst ` set rs - {name}) < FLOOR_NAMES"
  shows "remembers (raise_names rs fl) name q since (names \<union> fst ` set rs)"
  using assms
proof (induction rs arbitrary: fl names)
  case (Cons r rs)
  obtain m p where r: "r = (m, p)" by (cases r)
  have tick: "Suc (fl_tick fl) < u64_mod" using Cons.prems(2) by simp
  have "card (names \<union> {m} - {name}) \<le> card (names \<union> fst ` set (r # rs) - {name})"
    using Cons.prems(3) by (intro card_mono) (auto simp: r)
  then have "remembers (raise_name m p fl) name q since (names \<union> {m})"
    using Cons.prems tick by (intro remembers_raise_name) simp_all
  moreover have "fl_tick (raise_name m p fl) = Suc (fl_tick fl)"
    using raise_name_step(1) [OF _ tick] Cons.prems(1) by (simp add: remembers_def)
  moreover have "names \<union> {m} \<union> fst ` set rs = names \<union> fst ` set (r # rs)" by (auto simp: r)
  ultimately show ?case
    using Cons.IH [of "raise_name m p fl" "names \<union> {m}"] Cons.prems by (simp add: raise_names_def r)
qed (simp add: raise_names_def)

text \<open>A name raised anywhere in a sequence is still held at its end, when at most \<^const>\<open>FLOOR_NAMES\<close> names are raised in all.\<close>

lemma raise_names_remembers:
  assumes wf: "floor_wf fl" and tick: "fl_tick fl + length rs < u64_mod" and mem: "(name, q) \<in> set rs"
    and few: "card (fst ` set rs) \<le> FLOOR_NAMES"
  shows "s < q \<Longrightarrow> below (raise_names rs fl) s name"
proof -
  obtain us vs where rs: "rs = us @ (name, q) # vs" using mem by (meson split_list)
  let ?fl = "raise_names us fl"
  have t: "floor_wf ?fl" "fl_tick ?fl = fl_tick fl + length us" using raise_names_wf [OF wf, of us] tick by (auto simp: rs)
  have st: "remembers (raise_name name q ?fl) name q (Suc (fl_tick ?fl)) {}"
    using remembers_start [OF t(1)] t(2) tick by (simp add: rs)
  have tk: "fl_tick (raise_name name q ?fl) = Suc (fl_tick ?fl)"
    using raise_name_step(1) [OF t(1)] t(2) tick by (simp add: rs)
  have "card (fst ` set vs - {name}) < FLOOR_NAMES"
  proof -
    have "card (fst ` set vs - {name}) < card (fst ` set rs)" by (rule psubset_card_mono) (auto simp: rs)
    then show ?thesis using few by simp
  qed
  then have "remembers (raise_names vs (raise_name name q ?fl)) name q (Suc (fl_tick ?fl)) (fst ` set vs)"
    using remembers_raise_names [OF st, of vs] tk t(2) tick by (simp add: rs)
  moreover have "raise_names rs fl = raise_names vs (raise_name name q ?fl)" by (simp add: rs raise_names_def)
  ultimately show "s < q \<Longrightarrow> below (raise_names rs fl) s name" using remembersD by simp
qed

section \<open>The floor over a replay\<close>

text \<open>What a replay does to the floor between two resets.\<close>

datatype floor_event = Replayed invalidate_args nat | Gap nat

fun floor_step :: "(string \<Rightarrow> string) \<Rightarrow> floor_event \<Rightarrow> floor \<Rightarrow> floor" where
  "floor_step js (Replayed a q) fl = raise js a q fl"
| "floor_step js (Gap q) fl = clear_at q fl"

definition floor_run :: "(string \<Rightarrow> string) \<Rightarrow> floor_event list \<Rightarrow> floor \<Rightarrow> floor" where
  "floor_run js = fold (floor_step js)"

fun event_raises :: "(string \<Rightarrow> string) \<Rightarrow> floor_event \<Rightarrow> (string \<times> nat) list" where
  "event_raises js (Replayed a q) = map (\<lambda>n. (n, q)) (raised_names js a)"
| "event_raises js (Gap q) = []"

text \<open>An invalidation concerns a stored page: what \<^verbatim>\<open>{key, tags, path, method, prefix}\<close> says of a GET page.\<close>

definition concerns :: "invalidate_args \<Rightarrow> string \<Rightarrow> string \<Rightarrow> string list \<Rightarrow> bool" where
  "concerns a pfx path tags \<longleftrightarrow>
     (ia_prefix a = None \<or> ia_prefix a = Some pfx) \<and>
     (set (ia_tags a) \<inter> set tags \<noteq> {} \<or>
      (\<exists>p. ia_path a = Some p \<and> normalize_request_path p = path \<and> (ia_method a = None \<or> ia_method a = Some ''GET'')) \<or>
      (ia_path a = None \<and> ia_tags a = [] \<and> ia_prefix a \<noteq> None \<and> (ia_method a = None \<or> ia_method a = Some ''GET'')))"

text \<open>The names a page answers to.\<close>

definition page_names :: "(string \<Rightarrow> string) \<Rightarrow> string \<Rightarrow> string \<Rightarrow> string list \<Rightarrow> string set" where
  "page_names js pfx path tags = tag_name ` set tags \<union> {path_name ''GET'' path}"

definition scoped_names :: "(string \<Rightarrow> string) \<Rightarrow> string \<Rightarrow> string \<Rightarrow> string list \<Rightarrow> string set" where
  "scoped_names js pfx path tags =
     {prefix_name js pfx, prefix_path_name js pfx ''GET'' path} \<union> prefix_tag_name js pfx ` set tags"

lemma rejects_iff:
  "rejects js fl (Some s) pfx path tags \<longleftrightarrow>
     (\<exists>g. fl_global fl = Some g \<and> s < g) \<or> (\<exists>n \<in> page_names js pfx path tags. below fl s n) \<or>
     (fl_scoped fl \<and> (\<exists>n \<in> scoped_names js pfx path tags. below fl s n))"
  by (auto simp: rejects_def page_names_def scoped_names_def list_ex_iff split: option.splits)

lemma raise_names_frame:
  "fl_global (raise_names rs fl) = fl_global fl \<and> fl_scoped (raise_names rs fl) = fl_scoped fl"
proof (induction rs arbitrary: fl)
  case (Cons r rs)
  have "fl_global (raise_name n q fl) = fl_global fl \<and> fl_scoped (raise_name n q fl) = fl_scoped fl" for n q
    by (simp add: raise_name_def Let_def)
  then show ?case using Cons by (cases r) (simp add: raise_names_def)
qed (simp add: raise_names_def)

lemma raise_names_upd:
  "fl_names (raise_names rs (fl\<lparr>fl_global := g, fl_scoped := b\<rparr>)) = fl_names (raise_names rs fl) \<and>
   fl_tick (raise_names rs (fl\<lparr>fl_global := g, fl_scoped := b\<rparr>)) = fl_tick (raise_names rs fl)"
proof (induction rs arbitrary: fl)
  case (Cons r rs)
  have "raise_name n q (fl\<lparr>fl_global := g, fl_scoped := b\<rparr>) = (raise_name n q fl)\<lparr>fl_global := g, fl_scoped := b\<rparr>" for n q
    by (simp add: raise_name_def Let_def)
  then show ?case using Cons by (cases r) (simp add: raise_names_def)
qed (simp add: raise_names_def)

lemma raise_as_names:
  "raise js a q fl = raise_names (map (\<lambda>n. (n, q)) (raised_names js a)) (fl\<lparr>fl_scoped := fl_scoped fl \<or> ia_prefix a \<noteq> None\<rparr>)"
  by (simp add: raise_def raise_names_def fold_map comp_def)

lemma raise_names_append: "raise_names (rs @ qs) fl = raise_names qs (raise_names rs fl)"
  by (simp add: raise_names_def)

lemma floor_run_names:
  "fl_names (floor_run js evs fl) = fl_names (raise_names (concat (map (event_raises js) evs)) fl)"
proof (induction evs arbitrary: fl)
  case (Cons e evs)
  have "fl_names (raise_names rs (floor_step js e fl)) = fl_names (raise_names (event_raises js e @ rs) fl)" for rs
  proof (cases e)
    case (Replayed a q)
    let ?b = "fl_scoped fl \<or> ia_prefix a \<noteq> None"
    have "fl\<lparr>fl_scoped := ?b\<rparr> = fl\<lparr>fl_global := fl_global fl, fl_scoped := ?b\<rparr>" by simp
    then show ?thesis
      using raise_names_upd [where rs = "event_raises js e @ rs" and fl = fl and g = "fl_global fl" and b = ?b] Replayed
      by (simp add: raise_as_names raise_names_append)
  next
    case (Gap q)
    let ?g = "Some (case fl_global fl of None \<Rightarrow> q | Some g \<Rightarrow> max g q)"
    have "clear_at q fl = fl\<lparr>fl_global := ?g, fl_scoped := fl_scoped fl\<rparr>" by (simp add: clear_at_def)
    then show ?thesis using raise_names_upd [where rs = rs and fl = fl and g = ?g and b = "fl_scoped fl"] Gap by simp
  qed
  then show ?case using Cons [of "floor_step js e fl"] by (simp add: floor_run_def)
qed (simp add: floor_run_def raise_names_def)

lemma floor_step_scoped:
  "fl_scoped (floor_step js e fl) \<longleftrightarrow> fl_scoped fl \<or> (\<exists>a q. e = Replayed a q \<and> ia_prefix a \<noteq> None)"
  by (cases e) (auto simp: raise_as_names raise_names_frame clear_at_def)

lemma floor_step_global:
  "fl_global (floor_step js e fl) =
     (case e of Gap q \<Rightarrow> Some (case fl_global fl of None \<Rightarrow> q | Some g \<Rightarrow> max g q) | Replayed _ _ \<Rightarrow> fl_global fl)"
  by (cases e) (auto simp: raise_as_names raise_names_frame clear_at_def)

lemma floor_run_scoped:
  "fl_scoped (floor_run js evs fl) \<longleftrightarrow> fl_scoped fl \<or> (\<exists>a q. Replayed a q \<in> set evs \<and> ia_prefix a \<noteq> None)"
  by (induction evs arbitrary: fl) (auto simp: floor_run_def floor_step_scoped)

lemma floor_step_global_below:
  "(\<exists>g. fl_global (floor_step js e fl) = Some g \<and> s < g) \<longleftrightarrow>
   (\<exists>g. fl_global fl = Some g \<and> s < g) \<or> (\<exists>q. e = Gap q \<and> s < q)"
  unfolding floor_step_global by (auto simp: less_max_iff_disj split: floor_event.splits option.splits)

lemma floor_run_global:
  "(\<exists>g. fl_global (floor_run js evs fl) = Some g \<and> s < g) \<longleftrightarrow>
   (\<exists>g. fl_global fl = Some g \<and> s < g) \<or> (\<exists>q. Gap q \<in> set evs \<and> s < q)"
proof (induction evs arbitrary: fl)
  case (Cons e evs)
  have "floor_run js (e # evs) fl = floor_run js evs (floor_step js e fl)" by (simp add: floor_run_def)
  then show ?case using Cons [of "floor_step js e fl"] floor_step_global_below [of js e fl s] by auto
qed (simp add: floor_run_def)

section \<open>Properties\<close>

text \<open>The names an invalidation raises meet the names of the pages it concerns.\<close>

lemma concerns_raises:
  assumes "concerns a pfx path tags"
  shows "\<exists>n \<in> set (raised_names js a).
    n \<in> page_names js pfx path tags \<or> (ia_prefix a \<noteq> None \<and> n \<in> scoped_names js pfx path tags)"
proof -
  have pfx: "ia_prefix a = None \<or> ia_prefix a = Some pfx" using assms by (simp add: concerns_def)
  consider (tag) t where "t \<in> set (ia_tags a)" "t \<in> set tags"
    | (path) p where "ia_path a = Some p" "normalize_request_path p = path" "ia_method a = None \<or> ia_method a = Some ''GET''"
    | (all) "ia_path a = None" "ia_tags a = []" "ia_prefix a \<noteq> None" "ia_method a = None \<or> ia_method a = Some ''GET''"
    using assms by (auto simp: concerns_def)
  then show ?thesis
  proof cases
    case tag
    then have "(case ia_prefix a of None \<Rightarrow> tag_name t | Some px \<Rightarrow> prefix_tag_name js px t) \<in> set (raised_names js a)"
      by (simp add: raised_names_def)
    then show ?thesis
      by (rule bexI [rotated]) (use pfx tag(2) in \<open>auto simp: page_names_def scoped_names_def\<close>)
  next
    case path
    then show ?thesis using pfx by (auto simp: raised_names_def page_names_def scoped_names_def Let_def)
  next
    case all
    then show ?thesis using pfx by (auto simp: raised_names_def scoped_names_def)
  qed
qed

lemma floor_rejects_run:
  assumes "floor_wf fl" and "fl_tick fl + length (concat (map (event_raises js) evs)) < u64_mod"
    and "card (fst ` set (concat (map (event_raises js) evs))) \<le> FLOOR_NAMES"
    and "(\<exists>q. Gap q \<in> set evs \<and> s < q) \<or> (\<exists>a q. Replayed a q \<in> set evs \<and> s < q \<and> concerns a pfx path tags)"
  shows "rejects js (floor_run js evs fl) (Some s) pfx path tags"
  using assms(4)
proof
  assume "\<exists>q. Gap q \<in> set evs \<and> s < q"
  then show ?thesis using floor_run_global [of js evs fl s] by (auto simp: rejects_iff)
next
  assume "\<exists>a q. Replayed a q \<in> set evs \<and> s < q \<and> concerns a pfx path tags"
  then obtain a q where a: "Replayed a q \<in> set evs" "s < q" "concerns a pfx path tags" by blast
  from concerns_raises [OF a(3), of js] obtain n where n: "n \<in> set (raised_names js a)"
    "n \<in> page_names js pfx path tags \<or> (ia_prefix a \<noteq> None \<and> n \<in> scoped_names js pfx path tags)" by blast
  have "(n, q) \<in> set (event_raises js (Replayed a q))" using n(1) by simp
  then have "(n, q) \<in> set (concat (map (event_raises js) evs))" using a(1) by (simp only: set_concat set_map) blast
  from raise_names_remembers [OF assms(1,2) this assms(3) a(2)]
  have "below (floor_run js evs fl) s n" by (simp add: below_def floor_run_names)
  moreover have "ia_prefix a \<noteq> None \<Longrightarrow> fl_scoped (floor_run js evs fl)" using a(1) floor_run_scoped by blast
  ultimately show ?thesis using n(2) by (auto simp: rejects_iff)
qed

text \<open>
  No body written before a replayed invalidation is served after it. Take any replay, in any order, of invalidations
  and gaps from a well-formed floor: an entry whose stamp is below a gap's sequence number, or below the sequence number
  of a replayed invalidation that concerns its tags, its path or its prefix, is rejected at the end, provided the
  replay raised at most \<^const>\<open>FLOOR_NAMES\<close> different names (the table's bound) and the tick has not run over 64 bits.
\<close>

theorem floor_rejects_covered:
  assumes "floor_wf fl" and "fl_tick fl + length (concat (map (event_raises js) evs)) < u64_mod"
    and "card (fst ` set (concat (map (event_raises js) evs))) \<le> FLOOR_NAMES"
    and "(\<exists>q. Gap q \<in> set evs \<and> s < q) \<or> (\<exists>a q. Replayed a q \<in> set evs \<and> s < q \<and> concerns a pfx path tags)"
  shows "rejects js (floor_run js evs fl) (Some s) pfx path tags"
  by (rule floor_rejects_run [OF assms])

text \<open>A string printer as \<^verbatim>\<open>serde_json\<close> has it for strings without control characters, and that it is self-delimiting.\<close>

primrec quote_body :: "string \<Rightarrow> string" where
  "quote_body [] = [CHR 0x22]"
| "quote_body (c # s) = (if c = CHR 0x22 \<or> c = CHR 0x5C then [CHR 0x5C, c] else [c]) @ quote_body s"

definition quote_json :: "string \<Rightarrow> string" where
  "quote_json s = CHR 0x22 # quote_body s"

definition self_delimiting :: "(string \<Rightarrow> string) \<Rightarrow> bool" where
  "self_delimiting js \<longleftrightarrow> (\<forall>x y u v. js x @ u = js y @ v \<longrightarrow> x = y \<and> u = v)"

lemma self_delimitingD: "self_delimiting js \<Longrightarrow> js x @ u = js y @ v \<longleftrightarrow> x = y \<and> u = v"
  unfolding self_delimiting_def by blast

lemma quote_body_self_delimiting: "quote_body x @ u = quote_body y @ v \<Longrightarrow> x = y \<and> u = v"
proof (induction x arbitrary: y)
  case Nil
  then show ?case by (cases y) (auto split: if_splits)
next
  case (Cons c x)
  then show ?case by (cases y) (auto split: if_splits)
qed

lemma quote_json_self_delimiting: "self_delimiting quote_json"
  unfolding self_delimiting_def quote_json_def append_Cons list.inject using quote_body_self_delimiting by blast

lemma below_raise_name:
  assumes "below (raise_name n q fl) s m"
  shows "below fl s m \<or> (m = n \<and> s < q)"
proof -
  let ?al = "AList.update n (max (floor_of fl n) q, u64_add (fl_tick fl) 1) (fl_names fl)"
  have "fl_names (raise_name n q fl) = (if FLOOR_NAMES < length ?al
      then (case oldest ?al of Some (k, _) \<Rightarrow> AList.delete k ?al | None \<Rightarrow> ?al) else ?al)"
    unfolding raise_name_def Let_def floor_of_def by simp
  then have "fl_names (raise_name n q fl) = ?al \<or> (\<exists>k. fl_names (raise_name n q fl) = AList.delete k ?al)"
    by (auto split: option.splits)
  then have "map_of (fl_names (raise_name n q fl)) m = Some v \<Longrightarrow> map_of ?al m = Some v" for v
    by (auto simp: AList.delete_conv' restrict_map_def split: if_splits)
  then obtain f t where "map_of ?al m = Some (f, t)" "s < f" using assms by (auto simp: below_def split: option.splits)
  then show ?thesis
    by (auto simp: AList.update_conv' below_def floor_of_def less_max_iff_disj split: if_splits option.splits)
qed

lemma below_raise_names: "below (raise_names rs fl) s m \<Longrightarrow> below fl s m \<or> (\<exists>q. (m, q) \<in> set rs \<and> s < q)"
proof (induction rs arbitrary: fl)
  case (Cons r rs)
  obtain n q where r: "r = (n, q)" by (cases r)
  have "below (raise_names rs (raise_name n q fl)) s m" using Cons.prems by (simp add: raise_names_def r)
  from Cons.IH [OF this] show ?case using below_raise_name [of n q fl s m] by (auto simp: r)
qed (simp add: raise_names_def)

lemmas floor_name_defs = tag_name_def path_name_def prefix_name_def prefix_tag_name_def prefix_path_name_def

lemma append_sep_eq:
  "c \<notin> set xs \<Longrightarrow> c \<notin> set ys \<Longrightarrow> xs @ c # u = ys @ c # v \<longleftrightarrow> xs = ys \<and> u = v"
proof (induction xs arbitrary: ys)
  case Nil
  then show ?case by (cases ys) auto
next
  case (Cons x xs)
  then show ?case by (cases ys) auto
qed

lemma raised_names_cases:
  assumes "n \<in> set (raised_names js a)"
  obtains (tag) t where "t \<in> set (ia_tags a)"
      "n = (case ia_prefix a of None \<Rightarrow> tag_name t | Some px \<Rightarrow> prefix_tag_name js px t)"
    | (path) p m where "ia_path a = Some p" "m = (case ia_method a of Some m \<Rightarrow> m | None \<Rightarrow> ''GET'')"
      "n = (case ia_prefix a of None \<Rightarrow> path_name m (normalize_request_path p)
            | Some px \<Rightarrow> prefix_path_name js px m (normalize_request_path p))"
    | (all) px where "ia_path a = None" "ia_tags a = []" "ia_prefix a = Some px"
      "ia_method a = None \<or> ia_method a = Some ''GET''" "n = prefix_name js px"
  using assms unfolding raised_names_def by (auto simp: Let_def split: option.splits if_splits dest: sym)

lemma concerns_sound:
  assumes js: "self_delimiting js" and n: "n \<in> set (raised_names js a)"
    and m: "\<And>m. ia_method a = Some m \<Longrightarrow> CHR '' '' \<notin> set m"
    and page: "n \<in> page_names js pfx path tags \<union> scoped_names js pfx path tags"
  shows "concerns a pfx path tags"
  using n
proof (cases rule: raised_names_cases)
  case (tag t)
  then show ?thesis using page self_delimitingD [OF js]
    by (cases "ia_prefix a") (auto simp: page_names_def scoped_names_def floor_name_defs concerns_def)
next
  case (path p m')
  have sp: "CHR '' '' \<notin> set m'" using m path(2) by (cases "ia_method a") auto
  have eq: "m' @ CHR '' '' # u = CHR ''G'' # CHR ''E'' # CHR ''T'' # CHR '' '' # v \<longleftrightarrow> m' = ''GET'' \<and> u = v" for u v
    using append_sep_eq [OF sp, of "''GET''" u v] by simp
  show ?thesis
  proof (cases "ia_prefix a")
    case None
    then have "m' = ''GET''" "normalize_request_path p = path"
      using path(3) page eq by (auto simp: page_names_def scoped_names_def floor_name_defs)
    then show ?thesis using None path(1,2) by (cases "ia_method a") (auto simp: concerns_def)
  next
    case (Some px)
    then have "px = pfx" "m' = ''GET''" "normalize_request_path p = path"
      using path(3) page eq self_delimitingD [OF js]
      by (auto simp: page_names_def scoped_names_def floor_name_defs)
    then show ?thesis using Some path(1,2) by (cases "ia_method a") (auto simp: concerns_def)
  qed
next
  case (all px)
  then have "px = pfx" using page self_delimitingD [OF js, of px "[]" pfx "[]"]
    by (auto simp: page_names_def scoped_names_def floor_name_defs)
  then show ?thesis using all by (auto simp: concerns_def)
qed

text \<open>
  A replay costs no more than it says: from a fresh floor, an entry is rejected only for a gap or for a replayed
  invalidation that concerns it and is newer than the entry. In particular an invalidation scoped to one key prefix never
  rejects the pages of another. The method of an invalidation holds no space, and the JSON printer is self-delimiting.
\<close>

theorem floor_rejects_only:
  assumes "self_delimiting js"
    and "\<And>a q m. Replayed a q \<in> set evs \<Longrightarrow> ia_method a = Some m \<Longrightarrow> CHR '' '' \<notin> set m"
    and "rejects js (floor_run js evs floor_new) (Some s) pfx path tags"
  shows "(\<exists>q. Gap q \<in> set evs \<and> s < q) \<or> (\<exists>a q. Replayed a q \<in> set evs \<and> s < q \<and> concerns a pfx path tags)"
proof (cases "\<exists>g. fl_global (floor_run js evs floor_new) = Some g \<and> s < g")
  case True
  then show ?thesis using floor_run_global [of js evs floor_new s] by (simp add: floor_new_def)
next
  case False
  then obtain n where n: "n \<in> page_names js pfx path tags \<union> scoped_names js pfx path tags"
    and "below (floor_run js evs floor_new) s n"
    using assms(3) unfolding rejects_iff by blast
  then have "below (raise_names (concat (map (event_raises js) evs)) floor_new) s n"
    by (simp add: below_def floor_run_names)
  from below_raise_names [OF this] obtain q where "(n, q) \<in> set (concat (map (event_raises js) evs))" "s < q"
    by (auto simp: below_def floor_new_def)
  then obtain e where e: "e \<in> set evs" "(n, q) \<in> set (event_raises js e)" by auto
  then obtain a where "e = Replayed a q" "n \<in> set (raised_names js a)" by (cases e rule: floor_event.exhaust) auto
  moreover from this have "concerns a pfx path tags"
    using concerns_sound [OF assms(1) _ _ n, of a] assms(2) e(1) by blast
  ultimately show ?thesis using e(1) \<open>s < q\<close> by blast
qed

definition demo_args :: "invalidate_args" where
  "demo_args = \<lparr>ia_key = None, ia_tags = [''posts''], ia_path = None, ia_method = None, ia_prefix = Some ''en''\<rparr>"

theorem floor_rejects_covered_witness:
  "rejects quote_json (floor_run quote_json [Replayed demo_args 7] floor_new) (Some 3) ''en'' ''/blog'' [''posts'']"
proof (rule floor_rejects_covered [OF floor_wf_new])
  let ?rs = "concat (map (event_raises quote_json) [Replayed demo_args 7])"
  have rs: "?rs = [(prefix_tag_name quote_json ''en'' ''posts'', 7)]" by (simp add: raised_names_def demo_args_def)
  show "fl_tick floor_new + length ?rs < u64_mod" by (simp only: rs) (simp add: floor_new_def u64_mod_def)
  show "card (fst ` set ?rs) \<le> FLOOR_NAMES" by (simp only: rs) (simp add: FLOOR_NAMES_def)
qed (auto simp: concerns_def demo_args_def)

theorem floor_rejects_only_witness:
  "\<not> rejects quote_json (floor_run quote_json [Replayed demo_args 7] floor_new) (Some 3) ''de'' ''/blog'' [''posts'']"
proof
  assume "rejects quote_json (floor_run quote_json [Replayed demo_args 7] floor_new) (Some 3) ''de'' ''/blog'' [''posts'']"
  from floor_rejects_only [OF quote_json_self_delimiting _ this] show False
    by (simp add: concerns_def demo_args_def)
qed

text \<open>
  C36: The time to live of a page read back: none is left exactly when its age has reached the route's; otherwise what is
  left never exceeds the route's, is at least a second (or all of it, when that is shorter), and ends when the page would
  have expired where it was stored, or, for a page in its last second, less than a second later.
\<close>

theorem remaining_ttl_bounds:
  "case remaining_ttl ttl stored_at now of
     None \<Rightarrow> (\<exists>t. stored_at = Some t \<and> ttl \<le> (now - t) * 1000000)
   | Some d \<Rightarrow> d \<le> ttl \<and> min ttl 1000000000 \<le> d \<and>
       (case stored_at of
          None \<Rightarrow> d = ttl
        | Some t \<Rightarrow> (now - t) * 1000000 < ttl \<and> ttl \<le> d + (now - t) * 1000000 \<and>
            d + (now - t) * 1000000 < max (Suc ttl) (ttl + 1000000000))"
proof (cases stored_at)
  case (Some t)
  define age where "age = (now - t) * 1000000"
  show ?thesis
    by (auto simp: remaining_ttl_def Some Let_def age_def [symmetric] min_def max_def)
qed (simp add: remaining_ttl_def)

lemma map_of_map_upd:
  "map_of (map (\<lambda>(k, v). if k = n then (k, f v) else (k, v)) cs) c = map_option (\<lambda>v. if n = c then f v else v) (map_of cs c)"
proof (induction cs)
  case (Cons kv cs)
  then show ?case by (cases kv; cases "fst kv = c"; cases "fst kv = n") simp_all
qed simp

text \<open>
  The counters: a bump answers whether its counter exists; after any bumps every counter holds how often it was named
  (modulo 64 bits) and names the table does not know change nothing.
\<close>

theorem bump_counts:
  "map_of (fold (\<lambda>n cs. snd (bump n cs)) ns l2_counters_new) c =
     (if c \<in> set L2_COUNTERS then Some (count_list ns c mod u64_mod) else None) \<and>
   (fst (bump n cs) \<longleftrightarrow> n \<in> set L2_COUNTERS) \<and> (n \<in> set L2_COUNTERS \<or> snd (bump n cs) = cs)"
proof -
  have "map_of (fold (\<lambda>n cs. snd (bump n cs)) ns cs) c =
      map_option (\<lambda>v. if c \<in> set L2_COUNTERS then (v + count_list ns c) mod u64_mod else v) (map_of cs c)"
    if "\<And>v. map_of cs c = Some v \<Longrightarrow> v < u64_mod" for cs
    using that
  proof (induction ns arbitrary: cs)
    case Nil
    then show ?case by (cases "map_of cs c") auto
  next
    case (Cons n ns)
    have b: "map_of (snd (bump n cs)) c =
        map_option (\<lambda>v. if n = c \<and> n \<in> set L2_COUNTERS then u64_add v 1 else v) (map_of cs c)"
      by (simp add: bump_def map_of_map_upd option.map_ident)
    have "v < u64_mod" if "map_of (snd (bump n cs)) c = Some v" for v
      using that b Cons.prems by (auto simp: u64_add_def u64_mod_def split: if_splits)
    from Cons.IH [OF this] have "map_of (fold (\<lambda>n cs. snd (bump n cs)) (n # ns) cs) c =
        map_option (\<lambda>v. if c \<in> set L2_COUNTERS then (v + count_list ns c) mod u64_mod else v)
          (map_of (snd (bump n cs)) c)"
      by simp
    then show ?case by (cases "map_of cs c") (auto simp: b u64_add_def mod_simps)
  qed
  note run = this
  have new: "map_of l2_counters_new c = (if c \<in> set L2_COUNTERS then Some 0 else None)"
    by (simp add: l2_counters_new_def map_of_map_keys map_of_map_restrict)
  then have "v < u64_mod" if "map_of l2_counters_new c = Some v" for v
    using that by (auto simp: u64_mod_def split: if_splits)
  from run [of l2_counters_new, OF this] new have "map_of (fold (\<lambda>n cs. snd (bump n cs)) ns l2_counters_new) c =
      (if c \<in> set L2_COUNTERS then Some (count_list ns c mod u64_mod) else None)" by simp
  moreover have "fst (bump n cs) \<longleftrightarrow> n \<in> set L2_COUNTERS" "n \<in> set L2_COUNTERS \<or> snd (bump n cs) = cs"
    by (auto simp: bump_def)
  ultimately show ?thesis by blast
qed

text \<open>Keys of different pages differ before hashing: neither the prefix, nor the method, nor the path holds a NUL.\<close>

lemma l2_preimage_inj:
  assumes "CHR 0x00 \<notin> set (key_prefix k @ key_method k @ key_path k)"
    and "CHR 0x00 \<notin> set (key_prefix k' @ key_method k' @ key_path k')"
  shows "l2_preimage k = l2_preimage k' \<longleftrightarrow> k = k'"
  using assms by (auto simp: l2_preimage_def append_sep_eq intro!: cache_key.equality)

end
