(* ===== verification/CoreState.thy ===== *)
theory CoreState
  imports L2 Cors
begin

text \<open>
  The state of one server core and the operations on it that do not handle a request
  (\<^verbatim>\<open>crates/brust-core/src/core.rs\<close>): the two caches on one clock, the counters of the shared tier, its floor, the
  response chokepoint. The host's caches are the single-thread ones of \<^verbatim>\<open>cache/local.rs\<close>.
\<close>

section \<open>State\<close>

record 'n core =
  co_clock :: inval_clock
  co_l1 :: local_l1
  co_jobs :: "'n local_jobs"
  co_loader_calls :: "nat list"
  co_job_calls :: nat
  co_worker_calls :: "nat list"
  co_timed_out_calls :: nat
  co_missing_slots :: "(string \<times> string) set"
  co_cors_resolved :: "resolved_cors option"
  co_action_prefix_tag :: "string option"
  co_powered_by :: "string option"
  co_l2 :: "l2_config option"
  co_l2_counters :: l2_counters
  co_l2_floor :: floor

definition action_prefix_tag :: "string \<Rightarrow> actions_client option \<Rightarrow> actions_config option \<Rightarrow> string option" where
  "action_prefix_tag base client actions =
     (let actions =
            (case client of
               Some c \<Rightarrow> tags_under c base
             | None \<Rightarrow>
                 (case actions of
                    None \<Rightarrow> None
                  | Some a \<Rightarrow> tags_under \<lparr>cl_prefix = Some (ac_prefix a), cl_base_url = None, cl_credentials = SameOrigin\<rparr> base));
          base_tag = (if base = [] then None
                      else Some (''<script>globalThis.__BRUST_BASE_PATH__='' @ js_string base @ ''</script>''))
      in case (base_tag, actions) of
           (None, None) \<Rightarrow> None
         | (b, a) \<Rightarrow> Some ((case b of None \<Rightarrow> [] | Some s \<Rightarrow> s) @ (case a of None \<Rightarrow> [] | Some s \<Rightarrow> s)))"

definition powered_by :: "'m http_api \<Rightarrow> string option \<Rightarrow> string option" where
  "powered_by h gen = (case gen of None \<Rightarrow> None | Some s \<Rightarrow> (case value_from_str h s of Some _ \<Rightarrow> Some s | None \<Rightarrow> None))"

section \<open>Operations\<close>

definition core_invalidate :: "invalidate_args \<Rightarrow> nat \<Rightarrow> 'n core \<Rightarrow> invalidate_result \<times> 'n core" where
  "core_invalidate a now c =
     (case invalidate_args_validate a of
        Inl _ \<Rightarrow> (\<lparr>l1_removed = 0, job_removed = 0\<rparr>, c)
      | Inr _ \<Rightarrow>
          let pfx = ia_prefix a;
              (j1, q, jobs) = (case ia_key a of
                                 Some k \<Rightarrow> jobs_invalidate_user_key k (co_clock c) (co_jobs c)
                               | None \<Rightarrow> (0, co_clock c, co_jobs c));
              (p1, q, l1) = (if ia_tags a \<noteq> [] then l1_invalidate_tags (ia_tags a) pfx q (co_l1 c) else (0, q, co_l1 c));
              (j2, q, jobs) = (if ia_tags a \<noteq> [] \<and> pfx = None then jobs_invalidate_tags (ia_tags a) q jobs else (0, q, jobs));
              (p2, q, l1) =
                (case ia_path a of
                   Some p \<Rightarrow>
                     let m = (case ia_method a of Some m \<Rightarrow> m | None \<Rightarrow> ''GET'')
                     in l1_invalidate_path m (normalize_request_path p) pfx now q l1
                 | None \<Rightarrow>
                     (case pfx of
                        Some px \<Rightarrow> if ia_tags a = [] then l1_invalidate_prefix px (ia_method a) now q l1 else (0, q, l1)
                      | None \<Rightarrow> (0, q, l1)))
          in (\<lparr>l1_removed = p1 + p2, job_removed = j1 + j2\<rparr>, c\<lparr>co_clock := q, co_l1 := l1, co_jobs := jobs\<rparr>))"

definition l2_replay :: "(string \<Rightarrow> string) \<Rightarrow> invalidate_args \<Rightarrow> nat option \<Rightarrow> nat \<Rightarrow> 'n core \<Rightarrow> invalidate_result \<times> 'n core" where
  "l2_replay js a sq now c =
     core_invalidate a now
       (case sq of Some q \<Rightarrow> c\<lparr>co_l2_floor := raise js a q (co_l2_floor c)\<rparr> | None \<Rightarrow> c)"

definition l2_count :: "string \<Rightarrow> 'n core \<Rightarrow> bool \<times> 'n core" where
  "l2_count name c =
     (if co_l2 c \<noteq> None
      then let (known, cs) = bump name (co_l2_counters c) in (known, c\<lparr>co_l2_counters := cs\<rparr>)
      else (False, c))"

definition clear_local :: "nat \<Rightarrow> 'n core \<Rightarrow> nat \<times> 'n core" where
  "clear_local now c =
     (let (n, q, l1) = l1_clear now (co_clock c) (co_l1 c);
          (q, jobs) = jobs_clear q (co_jobs c);
          c = c\<lparr>co_clock := q, co_l1 := l1, co_jobs := jobs\<rparr>
      in (n, if co_l2 c \<noteq> None then c\<lparr>co_l2_counters := snd (bump ''resets'' (co_l2_counters c))\<rparr> else c))"

record core_stats_result =
  sr_l1 :: cache_stats
  sr_job :: cache_stats
  sr_loader_calls :: nat
  sr_job_calls :: nat
  sr_worker_calls :: nat
  sr_timed_out_calls :: nat
  sr_missing_slots :: nat
  sr_l2 :: "(string \<times> l2_counters) option"

definition core_stats :: "nat \<Rightarrow> 'n core \<Rightarrow> core_stats_result \<times> 'n core" where
  "core_stats now c =
     (let (s1, l1) = l1_stats now (co_l1 c);
          (s2, jobs) = jobs_stats now (co_jobs c)
      in (\<lparr>sr_l1 = s1, sr_job = s2, sr_loader_calls = counter_get (co_loader_calls c),
           sr_job_calls = co_job_calls c, sr_worker_calls = counter_get (co_worker_calls c),
           sr_timed_out_calls = co_timed_out_calls c, sr_missing_slots = card (co_missing_slots c),
           sr_l2 = map_option (\<lambda>cfg. snapshot (l2_adapter cfg) (co_l2_counters c)) (co_l2 c)\<rparr>,
          c\<lparr>co_l1 := l1, co_jobs := jobs\<rparr>))"

definition cors_enabled :: "'n core \<Rightarrow> bool" where
  "cors_enabled c \<longleftrightarrow> co_cors_resolved c \<noteq> None"

definition finish :: "'m http_api \<Rightarrow> 'n core \<Rightarrow> string option \<Rightarrow> 'm \<Rightarrow> 'm" where
  "finish h c origin m =
     (let m = (case co_powered_by c of Some v \<Rightarrow> hm_or_insert h ''x-powered-by'' v m | None \<Rightarrow> m)
      in case co_cors_resolved c of Some rc \<Rightarrow> stamp_response h rc origin m | None \<Rightarrow> m)"

section \<open>A core as a user of its two caches\<close>

datatype 'n core_op =
    PageGet cache_key nat
  | PageInsert cache_key rendered_body nat "string list" nat nat
  | JobGet job_key nat
  | JobInsert job_key 'n "nat option" "string list" "string option" nat nat
  | Invalidate invalidate_args nat
  | Replay invalidate_args "nat option" nat
  | ClearLocal nat
  | ReadStats nat
  | Count string

definition on_l1 :: "l1_op \<Rightarrow> 'n core \<Rightarrow> 'n core" where
  "on_l1 op c = (let (q, l1) = l1_step op (co_clock c, co_l1 c) in c\<lparr>co_clock := q, co_l1 := l1\<rparr>)"

definition on_jobs :: "'n jobs_op \<Rightarrow> 'n core \<Rightarrow> 'n core" where
  "on_jobs op c = (let (q, jobs) = jobs_step op (co_clock c, co_jobs c) in c\<lparr>co_clock := q, co_jobs := jobs\<rparr>)"

fun core_step :: "(string \<Rightarrow> string) \<Rightarrow> 'n core_op \<Rightarrow> 'n core \<Rightarrow> 'n core" where
  "core_step js (PageGet k now) c = on_l1 (L1Get k now) c"
| "core_step js (PageInsert k b ttl tags since now) c = on_l1 (L1Insert k b ttl tags since now) c"
| "core_step js (JobGet k now) c = on_jobs (JGet k now) c"
| "core_step js (JobInsert k v ttl tags u since now) c = on_jobs (JInsert k v ttl tags u since now) c"
| "core_step js (Invalidate a now) c = snd (core_invalidate a now c)"
| "core_step js (Replay a sq now) c = snd (l2_replay js a sq now c)"
| "core_step js (ClearLocal now) c = snd (clear_local now c)"
| "core_step js (ReadStats now) c = snd (core_stats now c)"
| "core_step js (Count name) c = snd (l2_count name c)"

definition core_run :: "(string \<Rightarrow> string) \<Rightarrow> 'n core_op list \<Rightarrow> 'n core \<Rightarrow> 'n core" where
  "core_run js = fold (core_step js)"

text \<open>
  The calls an operation makes on the caches, in order: \<open>Inl\<close> on the page cache, \<open>Inr\<close> on the job cache.
\<close>

definition invalidate_calls :: "invalidate_args \<Rightarrow> nat \<Rightarrow> (l1_op + 'n jobs_op) list" where
  "invalidate_calls a now =
     (if ia_prefix a \<noteq> None \<and> ia_key a \<noteq> None then []
      else
        (case ia_key a of Some k \<Rightarrow> [Inr (JInvUserKey k)] | None \<Rightarrow> []) @
        (if ia_tags a \<noteq> [] then [Inl (L1InvTags (ia_tags a) (ia_prefix a))] else []) @
        (if ia_tags a \<noteq> [] \<and> ia_prefix a = None then [Inr (JInvTags (ia_tags a))] else []) @
        (case ia_path a of
           Some p \<Rightarrow> [Inl (L1InvPath (case ia_method a of Some m \<Rightarrow> m | None \<Rightarrow> ''GET'') (normalize_request_path p) (ia_prefix a) now)]
         | None \<Rightarrow>
             (case ia_prefix a of
                Some px \<Rightarrow> if ia_tags a = [] then [Inl (L1InvPrefix px (ia_method a) now)] else []
              | None \<Rightarrow> [])))"

fun calls :: "'n core_op \<Rightarrow> (l1_op + 'n jobs_op) list" where
  "calls (PageGet k now) = [Inl (L1Get k now)]"
| "calls (PageInsert k b ttl tags since now) = [Inl (L1Insert k b ttl tags since now)]"
| "calls (JobGet k now) = [Inr (JGet k now)]"
| "calls (JobInsert k v ttl tags u since now) = [Inr (JInsert k v ttl tags u since now)]"
| "calls (Invalidate a now) = invalidate_calls a now"
| "calls (Replay a sq now) = invalidate_calls a now"
| "calls (ClearLocal now) = [Inl (L1Clear now), Inr JClear]"
| "calls (ReadStats now) = [Inl (L1Stats now), Inr (JStats now)]"
| "calls (Count name) = []"

text \<open>The other cache's calls are, for a cache, ticks of the shared clock or nothing.\<close>

fun l1_view :: "l1_op + 'n jobs_op \<Rightarrow> l1_op list" where
  "l1_view (Inl op) = [op]"
| "l1_view (Inr (JInvTags _)) = [L1Tick]"
| "l1_view (Inr (JInvUserKey _)) = [L1Tick]"
| "l1_view (Inr JClear) = [L1Tick]"
| "l1_view (Inr JTick) = [L1Tick]"
| "l1_view (Inr _) = []"

fun jobs_view :: "l1_op + 'n jobs_op \<Rightarrow> 'n jobs_op list" where
  "jobs_view (Inr op) = [op]"
| "jobs_view (Inl (L1InvTags _ _)) = [JTick]"
| "jobs_view (Inl (L1InvPath _ _ _ _)) = [JTick]"
| "jobs_view (Inl (L1InvPrefix _ _ _)) = [JTick]"
| "jobs_view (Inl (L1Clear _)) = [JTick]"
| "jobs_view (Inl L1Tick) = [JTick]"
| "jobs_view (Inl _) = []"

fun on_cache :: "l1_op + 'n jobs_op \<Rightarrow> 'n core \<Rightarrow> 'n core" where
  "on_cache (Inl op) c = on_l1 op c"
| "on_cache (Inr op) c = on_jobs op c"

lemma l1_step_clock:
  "fst (l1_step op (q, l1)) = (case op of L1InvTags _ _ \<Rightarrow> snd (clock_next q) | L1InvPath _ _ _ _ \<Rightarrow> snd (clock_next q)
     | L1InvPrefix _ _ _ \<Rightarrow> snd (clock_next q) | L1Clear _ \<Rightarrow> snd (clock_next q) | L1Tick \<Rightarrow> snd (clock_next q) | _ \<Rightarrow> q)"
  by (cases op) (auto simp: l1_invalidate_tags_def l1_invalidate_path_def l1_invalidate_prefix_def l1_clear_def Let_def
      split: prod.splits)

lemma jobs_step_clock:
  "fst (jobs_step op (q, j)) = (case op of JInvTags _ \<Rightarrow> snd (clock_next q) | JInvUserKey _ \<Rightarrow> snd (clock_next q)
     | JClear \<Rightarrow> snd (clock_next q) | JTick \<Rightarrow> snd (clock_next q) | _ \<Rightarrow> q)"
  by (cases op) (auto simp: jobs_invalidate_tags_def jobs_invalidate_user_key_def jobs_clear_def Let_def split: prod.splits)

lemma on_cache_l1:
  "(co_clock (on_cache x c), co_l1 (on_cache x c)) = l1_run (l1_view x) (co_clock c, co_l1 c)"
proof (cases x)
  case (Inr op)
  then show ?thesis using jobs_step_clock [of op "co_clock c" "co_jobs c"]
    by (cases op) (auto simp: on_jobs_def l1_run_def Let_def split: prod.splits)
qed (auto simp: on_l1_def l1_run_def Let_def split: prod.splits)

lemma on_cache_jobs:
  "(co_clock (on_cache x c), co_jobs (on_cache x c)) = jobs_run (jobs_view x) (co_clock c, co_jobs c)"
proof (cases x)
  case (Inl op)
  then show ?thesis using l1_step_clock [of op "co_clock c" "co_l1 c"]
    by (cases op) (auto simp: on_l1_def jobs_run_def Let_def split: prod.splits)
qed (auto simp: on_jobs_def jobs_run_def Let_def split: prod.splits)

lemma core_invalidate_calls: "snd (core_invalidate a now c) = fold on_cache (invalidate_calls a now) c"
proof (cases "ia_prefix a \<noteq> None \<and> ia_key a \<noteq> None")
  case True
  then show ?thesis by (auto simp: core_invalidate_def invalidate_args_validate_def invalidate_calls_def)
next
  case False
  then have v: "invalidate_args_validate a = Ok ()" by (simp add: invalidate_args_validate_def)
  show ?thesis
    using False unfolding core_invalidate_def v invalidate_calls_def
    by (cases "ia_key a"; cases "ia_tags a"; cases "ia_prefix a"; cases "ia_path a")
      (auto simp: on_l1_def on_jobs_def Let_def split: prod.splits)
qed

definition same_caches :: "'n core \<Rightarrow> 'n core \<Rightarrow> bool" where
  "same_caches c d \<longleftrightarrow> co_clock c = co_clock d \<and> co_l1 c = co_l1 d \<and> co_jobs c = co_jobs d"

lemma on_cache_same: "same_caches c d \<Longrightarrow> same_caches (on_cache x c) (on_cache x d)"
  by (cases x) (auto simp: same_caches_def on_l1_def on_jobs_def Let_def split: prod.splits)

lemma fold_on_cache_same: "same_caches c d \<Longrightarrow> same_caches (fold on_cache xs c) (fold on_cache xs d)"
  by (induction xs arbitrary: c d) (simp_all add: on_cache_same)

lemma core_step_calls: "same_caches (core_step js op c) (fold on_cache (calls op) c)"
proof (cases op)
  case (Replay a sq now)
  have "same_caches (case sq of Some q \<Rightarrow> c\<lparr>co_l2_floor := raise js a q (co_l2_floor c)\<rparr> | None \<Rightarrow> c) c"
    by (cases sq) (simp_all add: same_caches_def)
  then show ?thesis using Replay fold_on_cache_same by (simp add: l2_replay_def core_invalidate_calls)
next
  case (ClearLocal now)
  then show ?thesis
    by (auto simp: same_caches_def clear_local_def on_l1_def on_jobs_def Let_def split: prod.splits)
qed (auto simp: same_caches_def core_invalidate_calls core_stats_def l2_count_def on_l1_def on_jobs_def Let_def split: prod.splits)

definition all_calls :: "'n core_op list \<Rightarrow> (l1_op + 'n jobs_op) list" where
  "all_calls ops = concat (map calls ops)"

lemma core_run_calls: "same_caches (core_run js ops c) (fold on_cache (all_calls ops) c)"
proof (induction ops arbitrary: c)
  case (Cons op ops)
  have "same_caches (fold on_cache (all_calls ops) (core_step js op c)) (fold on_cache (all_calls (op # ops)) c)"
    using fold_on_cache_same [OF core_step_calls [of js op c], of "all_calls ops"] by (simp add: all_calls_def)
  then show ?case using Cons [of "core_step js op c"] by (simp add: core_run_def same_caches_def)
qed (simp add: core_run_def all_calls_def same_caches_def)

definition l1_views :: "(l1_op + 'n jobs_op) list \<Rightarrow> l1_op list" where
  "l1_views xs = concat (map l1_view xs)"

definition jobs_views :: "(l1_op + 'n jobs_op) list \<Rightarrow> 'n jobs_op list" where
  "jobs_views xs = concat (map jobs_view xs)"

lemma fold_on_cache_views:
  "(co_clock (fold on_cache xs c), co_l1 (fold on_cache xs c)) = l1_run (l1_views xs) (co_clock c, co_l1 c)"
  "(co_clock (fold on_cache xs c), co_jobs (fold on_cache xs c)) = jobs_run (jobs_views xs) (co_clock c, co_jobs c)"
proof (induction xs arbitrary: c)
  case (Cons x xs)
  case 1
  then show ?case using Cons(1) [of "on_cache x c"] on_cache_l1 [of x c] by (simp add: l1_views_def l1_run_def)
  case 2
  then show ?case using Cons(2) [of "on_cache x c"] on_cache_jobs [of x c] by (simp add: jobs_views_def jobs_run_def)
qed (simp_all add: l1_views_def l1_run_def jobs_views_def jobs_run_def)

text \<open>The core's caches are runs of the caches' own operations.\<close>

lemma core_run_l1: "(co_clock (core_run js ops c), co_l1 (core_run js ops c)) = l1_run (l1_views (all_calls ops)) (co_clock c, co_l1 c)"
  and core_run_jobs: "(co_clock (core_run js ops c), co_jobs (core_run js ops c)) = jobs_run (jobs_views (all_calls ops)) (co_clock c, co_jobs c)"
  using core_run_calls [of js ops c] fold_on_cache_views [of "all_calls ops" c] by (simp_all add: same_caches_def)

section \<open>What an invalidation concerns\<close>

definition page_concerned :: "invalidate_args \<Rightarrow> cache_key \<Rightarrow> string list \<Rightarrow> bool" where
  "page_concerned a k tags \<longleftrightarrow>
     (case ia_prefix a of None \<Rightarrow> True | Some px \<Rightarrow> ia_key a = None \<and> key_prefix k = px) \<and>
     (set (ia_tags a) \<inter> set tags \<noteq> {} \<or>
      (case ia_path a of
         Some p \<Rightarrow> normalize_request_path p = key_path k \<and> key_method k = (case ia_method a of Some m \<Rightarrow> m | None \<Rightarrow> ''GET'')
       | None \<Rightarrow> ia_prefix a \<noteq> None \<and> ia_tags a = [] \<and> (case ia_method a of Some m \<Rightarrow> key_method k = m | None \<Rightarrow> True)))"

definition job_concerned :: "invalidate_args \<Rightarrow> string list \<Rightarrow> string option \<Rightarrow> bool" where
  "job_concerned a tags user_key \<longleftrightarrow>
     ia_prefix a = None \<and> (set (ia_tags a) \<inter> set tags \<noteq> {} \<or> (ia_key a \<noteq> None \<and> user_key = ia_key a))"

lemma page_concerned_call:
  assumes "page_concerned a k tags"
  shows "\<exists>op. Inl op \<in> set (invalidate_calls a now) \<and> l1_covers op k (body, tags, u)"
proof (cases "set (ia_tags a) \<inter> set tags \<noteq> {}")
  case True
  then have "Inl (L1InvTags (ia_tags a) (ia_prefix a)) \<in> set (invalidate_calls a now)"
    using assms by (auto simp: page_concerned_def invalidate_calls_def split: option.splits)
  moreover have "l1_covers (L1InvTags (ia_tags a) (ia_prefix a)) k (body, tags, u)"
    using True assms by (auto simp: page_concerned_def list_ex_iff split: option.splits)
  ultimately show ?thesis by blast
next
  case False
  show ?thesis
  proof (cases "ia_path a")
    case (Some p)
    let ?op = "L1InvPath (case ia_method a of Some m \<Rightarrow> m | None \<Rightarrow> ''GET'') (normalize_request_path p) (ia_prefix a) now"
    have "Inl ?op \<in> set (invalidate_calls a now)"
      using Some assms by (auto simp: page_concerned_def invalidate_calls_def split: option.splits)
    moreover have "l1_covers ?op k (body, tags, u)"
      using Some False assms by (auto simp: page_concerned_def split: option.splits)
    ultimately show ?thesis by blast
  next
    case None
    then obtain px where px: "ia_prefix a = Some px" "ia_key a = None" "ia_tags a = []" "key_prefix k = px"
      "case ia_method a of Some m \<Rightarrow> key_method k = m | None \<Rightarrow> True"
      using False assms by (auto simp: page_concerned_def split: option.splits)
    then have "Inl (L1InvPrefix px (ia_method a) now) \<in> set (invalidate_calls a now)"
      using None by (simp add: invalidate_calls_def)
    moreover have "l1_covers (L1InvPrefix px (ia_method a) now) k (body, tags, u)"
      using px by (auto split: option.splits)
    ultimately show ?thesis by blast
  qed
qed

lemma job_concerned_call:
  assumes "job_concerned a tags user_key"
  shows "\<exists>op. Inr op \<in> set (invalidate_calls a now) \<and> jobs_covers op k (v, tags, user_key)"
proof (cases "set (ia_tags a) \<inter> set tags \<noteq> {}")
  case True
  then have "Inr (JInvTags (ia_tags a)) \<in> set (invalidate_calls a now)"
    using assms by (auto simp: job_concerned_def invalidate_calls_def)
  moreover have "jobs_covers (JInvTags (ia_tags a)) k (v, tags, user_key)"
    using True by (auto simp: list_ex_iff)
  ultimately show ?thesis by blast
next
  case False
  then obtain u where u: "ia_key a = Some u" "user_key = Some u" "ia_prefix a = None"
    using assms by (auto simp: job_concerned_def)
  then have "Inr (JInvUserKey u) \<in> set (invalidate_calls a now)" by (simp add: invalidate_calls_def)
  moreover have "jobs_covers (JInvUserKey u) k (v, tags, user_key)" using u by simp
  ultimately show ?thesis by blast
qed

text \<open>The clock over a run, and how many calls a run makes.\<close>

lemma l1_run_clock:
  "q + length ops < u64_mod \<Longrightarrow> q \<le> fst (l1_run ops (q, c)) \<and> fst (l1_run ops (q, c)) \<le> q + length ops"
proof (induction ops arbitrary: q c)
  case (Cons op ops)
  obtain q' c' where s: "l1_step op (q, c) = (q', c')" by (cases "l1_step op (q, c)")
  have "q' = q \<or> q' = Suc q" using l1_step_clock [of op q c] Cons.prems by (auto simp: s clock_next_def split: l1_op.splits)
  then show ?case using Cons.IH [of q' c'] Cons.prems by (auto simp: l1_run_def s)
qed (simp add: l1_run_def)

lemma jobs_run_clock:
  "q + length ops < u64_mod \<Longrightarrow> q \<le> fst (jobs_run ops (q, c)) \<and> fst (jobs_run ops (q, c)) \<le> q + length ops"
proof (induction ops arbitrary: q c)
  case (Cons op ops)
  obtain q' c' where s: "jobs_step op (q, c) = (q', c')" by (cases "jobs_step op (q, c)")
  have "q' = q \<or> q' = Suc q" using jobs_step_clock [of op q c] Cons.prems by (auto simp: s clock_next_def split: jobs_op.splits)
  then show ?case using Cons.IH [of q' c'] Cons.prems by (auto simp: jobs_run_def s)
qed (simp add: jobs_run_def)

lemma length_l1_view: "length (l1_view x) \<le> 1" and length_jobs_view: "length (jobs_view y) \<le> 1"
  by (cases x rule: l1_view.cases; simp) (cases y rule: jobs_view.cases; simp)

lemma length_l1_views: "length (l1_views xs) \<le> length xs" and length_jobs_views: "length (jobs_views ys) \<le> length ys"
proof -
  show "length (l1_views xs) \<le> length xs"
  proof (induction xs)
    case (Cons x xs)
    then show ?case using length_l1_view [of x] by (simp add: l1_views_def)
  qed (simp add: l1_views_def)
  show "length (jobs_views ys) \<le> length ys"
  proof (induction ys)
    case (Cons y ys)
    then show ?case using length_jobs_view [of y] by (simp add: jobs_views_def)
  qed (simp add: jobs_views_def)
qed

lemma length_calls: "length (calls op) \<le> 4"
  by (cases op) (simp_all add: invalidate_calls_def split: option.splits)

lemma length_all_calls: "length (all_calls ops) \<le> 4 * length ops"
proof (induction ops)
  case (Cons op ops)
  then show ?case using length_calls [of op] by (simp add: all_calls_def)
qed (simp add: all_calls_def)

lemma views_append [simp]:
  "l1_views (xs @ ys) = l1_views xs @ l1_views ys" "jobs_views (xs @ ys) = jobs_views xs @ jobs_views ys"
  "l1_views (Inl o1 # ys) = o1 # l1_views ys" "jobs_views (Inr o2 # ys) = o2 # jobs_views ys"
  "all_calls (ops @ ops') = all_calls ops @ all_calls ops'" "all_calls (op # ops) = calls op @ all_calls ops"
  by (simp_all add: l1_views_def jobs_views_def all_calls_def)

text \<open>Only the core's own inserts insert.\<close>

lemma views_insert:
  assumes "op \<in> set (l1_views xs)" and "l1_inserts op k e since"
  shows "Inl op \<in> set xs"
proof -
  obtain x where x: "x \<in> set xs" "op \<in> set (l1_view x)" using assms(1) by (auto simp: l1_views_def)
  then have "x = Inl op" using assms(2) by (cases x rule: l1_view.cases) auto
  then show ?thesis using x(1) by simp
qed

lemma jobs_views_insert:
  assumes "op \<in> set (jobs_views xs)" and "jobs_inserts op k e since"
  shows "Inr op \<in> set xs"
proof -
  obtain x where x: "x \<in> set xs" "op \<in> set (jobs_view x)" using assms(1) by (auto simp: jobs_views_def)
  then have "x = Inr op" using assms(2) by (cases x rule: jobs_view.cases) auto
  then show ?thesis using x(1) by simp
qed

lemma invalidate_calls_no_insert:
  "Inl o1 \<in> set (invalidate_calls a now) \<Longrightarrow> \<not> l1_inserts o1 k e since"
  "Inr o2 \<in> set (invalidate_calls a now) \<Longrightarrow> \<not> jobs_inserts o2 k' e' since"
  by (auto simp: invalidate_calls_def split: if_splits option.splits)

lemma all_calls_insert:
  "Inl (L1Insert k b ttl tags since now) \<in> set (all_calls ops) \<Longrightarrow> PageInsert k b ttl tags since now \<in> set ops"
  "Inr (JInsert j v ttl' tags' u since' now') \<in> set (all_calls ops) \<Longrightarrow> JobInsert j v ttl' tags' u since' now' \<in> set ops"
proof -
  have "op = PageInsert k b ttl tags since now" if "Inl (L1Insert k b ttl tags since now) \<in> set (calls op)" for op
    using that by (cases op) (auto simp: invalidate_calls_def split: if_splits option.splits)
  then show "Inl (L1Insert k b ttl tags since now) \<in> set (all_calls ops) \<Longrightarrow> PageInsert k b ttl tags since now \<in> set ops"
    by (auto simp: all_calls_def)
  have "op = JobInsert j v ttl' tags' u since' now'" if "Inr (JInsert j v ttl' tags' u since' now') \<in> set (calls op)" for op
    using that by (cases op) (auto simp: invalidate_calls_def split: if_splits option.splits)
  then show "Inr (JInsert j v ttl' tags' u since' now') \<in> set (all_calls ops) \<Longrightarrow> JobInsert j v ttl' tags' u since' now' \<in> set ops"
    by (auto simp: all_calls_def)
qed

lemma covers_ticks:
  "l1_covers o1 k e \<Longrightarrow> q + 1 < u64_mod \<Longrightarrow> fst (l1_step o1 (q, l1)) = Suc q"
  "jobs_covers o2 j e' \<Longrightarrow> q + 1 < u64_mod \<Longrightarrow> fst (jobs_step o2 (q, jobs)) = Suc q"
  using l1_step_clock [of o1 q l1] apply (cases o1; simp add: clock_next_def)
  using jobs_step_clock [of o2 q jobs] by (cases o2; simp add: clock_next_def)

lemma core_run_append: "core_run js (xs @ ys) c = core_run js ys (core_run js xs c)"
  by (simp add: core_run_def)

lemma length_run_views:
  "length (l1_views (all_calls ops)) \<le> 4 * length ops" "length (jobs_views (all_calls ops)) \<le> 4 * length ops"
  using length_l1_views [of "all_calls ops"] length_jobs_views [of "all_calls ops"] length_all_calls [of ops] by linarith+

text \<open>
  A call that covers an entry, made from a good state after \<open>us\<close>: the page cache keeps the entry only if it is inserted
  later with a newer stamp, and it refuses older stamps from then on.
\<close>

lemma l1_covered_call:
  assumes good: "l1_good n (q, l1)" and len: "n + length us + length vs + 1 < u64_mod" and cov: "l1_covers op k e"
  shows "l1_found (l1_run (us @ op # vs) (q, l1)) k = Some e \<Longrightarrow>
      \<exists>op' \<in> set vs. \<exists>since. l1_inserts op' k e since \<and> q < since"
    and "since \<le> q \<Longrightarrow> l1_refused (l1_run (us @ op # vs) (q, l1)) k e since"
proof -
  have "q \<le> n" using good by simp
  obtain q1 c1 where A: "l1_run us (q, l1) = (q1, c1)" by fastforce
  have q1: "q \<le> q1" "q1 \<le> n + length us" using l1_run_clock [of q us l1] len \<open>q \<le> n\<close> A by auto
  then have tick: "fst (l1_run (us @ [op]) (q, l1)) = Suc q1" using covers_ticks(1) [OF cov, of q1 c1] A len by (simp add: l1_run_def)
  show "\<exists>op' \<in> set vs. \<exists>since. l1_inserts op' k e since \<and> q < since"
    if "l1_found (l1_run (us @ op # vs) (q, l1)) k = Some e"
    using l1.no_stale_entry [OF good, of us op vs k e] len cov that tick q1(1) by (fastforce simp: l1_run_run)
  have "l1_good (n + length us) (q1, c1)" using l1.good_run [OF good, of us] len A by (simp add: l1_run_run)
  from l1.stale_insert_refused [OF this, of op vs k e] len cov tick q1(1)
  show "since \<le> q \<Longrightarrow> l1_refused (l1_run (us @ op # vs) (q, l1)) k e since"
    using A by (simp add: l1_run_run l1_run_def)
qed

lemma jobs_covered_call:
  assumes good: "jobs_good n (q, jb)" and len: "n + length us + length vs + 1 < u64_mod" and cov: "jobs_covers op j e"
  shows "jobs_found (jobs_run (us @ op # vs) (q, jb)) j = Some e \<Longrightarrow>
      \<exists>op' \<in> set vs. \<exists>since. jobs_inserts op' j e since \<and> q < since"
    and "since \<le> q \<Longrightarrow> jobs_refused (jobs_run (us @ op # vs) (q, jb)) j e since"
proof -
  have "q \<le> n" using good by simp
  obtain q1 c1 where A: "jobs_run us (q, jb) = (q1, c1)" by fastforce
  have q1: "q \<le> q1" "q1 \<le> n + length us" using jobs_run_clock [of q us jb] len \<open>q \<le> n\<close> A by auto
  then have tick: "fst (jobs_run (us @ [op]) (q, jb)) = Suc q1" using covers_ticks(2) [OF cov, of q1 c1] A len by (simp add: jobs_run_def)
  show "\<exists>op' \<in> set vs. \<exists>since. jobs_inserts op' j e since \<and> q < since"
    if "jobs_found (jobs_run (us @ op # vs) (q, jb)) j = Some e"
    using jobs.no_stale_entry [OF good, of us op vs j e] len cov that tick q1(1) by (fastforce simp: jobs_run_run)
  have "jobs_good (n + length us) (q1, c1)" using jobs.good_run [OF good, of us] len A by (simp add: jobs_run_run)
  from jobs.stale_insert_refused [OF this, of op vs j e] len cov tick q1(1)
  show "since \<le> q \<Longrightarrow> jobs_refused (jobs_run (us @ op # vs) (q, jb)) j e since"
    using A by (simp add: jobs_run_run jobs_run_def)
qed

text \<open>The core: an invariant of both caches, kept by every operation, and what an operation that concerns an entry leaves.\<close>

definition core_good :: "nat \<Rightarrow> 'n core \<Rightarrow> bool" where
  "core_good n c \<longleftrightarrow> l1_good n (co_clock c, co_l1 c) \<and> jobs_good n (co_clock c, co_jobs c)"

lemma core_good_mono:
  assumes "core_good n c" and "n \<le> n'"
  shows "core_good n' c"
  using assms by (auto simp: core_good_def sound_def)

lemma core_good_run:
  assumes "core_good n c" and "n + 4 * length ops < u64_mod"
  shows "core_good (n + 4 * length ops) (core_run js ops c)"
proof -
  have "l1_good (n + length (l1_views (all_calls ops))) (co_clock (core_run js ops c), co_l1 (core_run js ops c))"
    "jobs_good (n + length (jobs_views (all_calls ops))) (co_clock (core_run js ops c), co_jobs (core_run js ops c))"
    using assms length_run_views [of ops] l1.good_run [of n "(co_clock c, co_l1 c)" "l1_views (all_calls ops)"]
      jobs.good_run [of n "(co_clock c, co_jobs c)" "jobs_views (all_calls ops)"]
    by (simp_all add: core_good_def core_run_l1 core_run_jobs l1_run_run jobs_run_run del: l1_good.simps jobs_good.simps)
  then show ?thesis using length_run_views [of ops] by (auto simp: core_good_def sound_def)
qed

lemma core_clock_mono:
  assumes "core_good n c" and "n + 4 * length ops < u64_mod"
  shows "co_clock c \<le> co_clock (core_run js ops c)"
proof -
  have "co_clock c \<le> n" using assms(1) by (simp add: core_good_def)
  then have "co_clock c + length (l1_views (all_calls ops)) < u64_mod" using length_run_views(1) [of ops] assms(2) by linarith
  from l1_run_clock [OF this, of "co_l1 c"] show ?thesis using core_run_l1 [of js ops c] by (metis fst_conv)
qed

lemma l1_page_purged:
  fixes js :: "string \<Rightarrow> string"
  assumes good: "l1_good n (co_clock c, co_l1 c)" and len: "n + length (l1_views (all_calls (inval # post))) < u64_mod"
    and inval: "inval = Invalidate a now \<or> inval = Replay a sq now" and conc: "page_concerned a k tags"
  defines "c' \<equiv> core_run js (inval # post) c"
  shows "stored (l1_store (co_l1 c')) k = Some (body, tags, u) \<Longrightarrow>
      u = None \<and> (\<exists>ttl since now'. PageInsert k body ttl tags since now' \<in> set post \<and> co_clock c < since)"
    and "since \<le> co_clock c \<Longrightarrow> l1_invalidated_since (co_l1 c') k tags since"
proof -
  let ?e = "(body, tags, u)" and ?s = "(co_clock c, co_l1 c)"
  have ci: "calls inval = invalidate_calls a now" using inval by auto
  obtain op where op: "Inl op \<in> set (calls inval)" "l1_covers op k ?e"
    unfolding ci using page_concerned_call [OF conc] by blast
  obtain us vs where uv: "calls inval = us @ Inl op # vs" using op(1) by (meson split_list)
  have AB: "l1_views (all_calls (inval # post)) = l1_views us @ op # l1_views (vs @ all_calls post)" by (simp add: uv)
  have len': "n + length (l1_views us) + length (l1_views (vs @ all_calls post)) + 1 < u64_mod"
    using len unfolding AB by simp
  have run: "(co_clock c', co_l1 c') = l1_run (l1_views us @ op # l1_views (vs @ all_calls post)) ?s"
    using core_run_l1 [of js "inval # post" c] unfolding AB c'_def .
  note good' = good
  show "u = None \<and> (\<exists>ttl since now'. PageInsert k body ttl tags since now' \<in> set post \<and> co_clock c < since)"
    if found: "stored (l1_store (co_l1 c')) k = Some ?e"
  proof -
    have "l1_found (co_clock c', co_l1 c') k = Some ?e" using found by (simp add: l1_found_def)
    then obtain op' since where ins: "op' \<in> set (l1_views (vs @ all_calls post))" "l1_inserts op' k ?e since" "co_clock c < since"
      using l1_covered_call(1) [OF good' len' op(2)] unfolding run by blast
    have "Inl op' \<in> set vs \<or> Inl op' \<in> set (all_calls post)" using views_insert [OF ins(1,2)] by simp
    moreover have "Inl op' \<notin> set (calls inval)" unfolding ci using invalidate_calls_no_insert(1) ins(2) by blast
    ultimately have "Inl op' \<in> set (all_calls post)" by (simp add: uv)
    then show ?thesis using ins(2,3) by (cases op') (auto dest: all_calls_insert(1))
  qed
  show "since \<le> co_clock c \<Longrightarrow> l1_invalidated_since (co_l1 c') k tags since"
    using l1_covered_call(2) [OF good' len' op(2), of since] unfolding run [symmetric] by simp
qed

lemma core_page_purged:
  fixes js :: "string \<Rightarrow> string"
  assumes good: "core_good n c" and len: "n + 4 * (length post + 1) < u64_mod"
    and inval: "inval = Invalidate a now \<or> inval = Replay a sq now" and conc: "page_concerned a k tags"
  defines "c' \<equiv> core_run js (inval # post) c"
  shows "stored (l1_store (co_l1 c')) k = Some (body, tags, u) \<Longrightarrow>
      u = None \<and> (\<exists>ttl since now'. PageInsert k body ttl tags since now' \<in> set post \<and> co_clock c < since)"
    and "since \<le> co_clock c \<Longrightarrow> l1_invalidated_since (co_l1 c') k tags since"
proof -
  have good': "l1_good n (co_clock c, co_l1 c)" using good by (simp add: core_good_def)
  have len': "n + length (l1_views (all_calls (inval # post))) < u64_mod" using length_run_views(1) [of "inval # post"] len by simp
  note purged = l1_page_purged [OF good' len' inval conc, folded c'_def]
  show "stored (l1_store (co_l1 c')) k = Some (body, tags, u) \<Longrightarrow>
      u = None \<and> (\<exists>ttl since now'. PageInsert k body ttl tags since now' \<in> set post \<and> co_clock c < since)"
    unfolding c'_def by (rule purged(1))
  show "since \<le> co_clock c \<Longrightarrow> l1_invalidated_since (co_l1 c') k tags since"
    unfolding c'_def by (rule purged(2))
qed

lemma core_job_purged:
  fixes js :: "string \<Rightarrow> string"
  assumes good: "core_good n c" and len: "n + 4 * (length post + 1) < u64_mod"
    and inval: "inval = Invalidate a now \<or> inval = Replay a sq now" and conc: "job_concerned a tags user_key"
  defines "c' \<equiv> core_run js (inval # post) c"
  shows "stored (jobs_store (co_jobs c')) j = Some (v, tags, user_key) \<Longrightarrow>
      \<exists>ttl since now'. JobInsert j v ttl tags user_key since now' \<in> set post \<and> co_clock c < since"
proof -
  let ?e = "(v, tags, user_key)" and ?s = "(co_clock c, co_jobs c)"
  have ci: "calls inval = invalidate_calls a now" using inval by auto
  obtain op where op: "Inr op \<in> set (calls inval)" "jobs_covers op j ?e"
    unfolding ci using job_concerned_call [OF conc, of now j v] by blast
  obtain us vs where uv: "calls inval = us @ Inr op # vs" using op(1) by (meson split_list)
  have AB: "jobs_views (all_calls (inval # post)) = jobs_views us @ op # jobs_views (vs @ all_calls post)" by (simp add: uv)
  have len': "n + length (jobs_views us) + length (jobs_views (vs @ all_calls post)) + 1 < u64_mod"
    using length_run_views(2) [of "inval # post"] len unfolding AB by simp
  have run: "(co_clock c', co_jobs c') = jobs_run (jobs_views us @ op # jobs_views (vs @ all_calls post)) ?s"
    using core_run_jobs [of js "inval # post" c] unfolding AB c'_def .
  have good': "jobs_good n ?s" using good by (simp add: core_good_def)
  assume "stored (jobs_store (co_jobs c')) j = Some ?e"
  then have "jobs_found (co_clock c', co_jobs c') j = Some ?e" by (simp add: jobs_found_def)
  then obtain op' since where ins: "op' \<in> set (jobs_views (vs @ all_calls post))" "jobs_inserts op' j ?e since" "co_clock c < since"
    using jobs_covered_call(1) [OF good' len' op(2)] unfolding run by blast
  have "Inr op' \<in> set vs \<or> Inr op' \<in> set (all_calls post)" using jobs_views_insert [OF ins(1,2)] by simp
  moreover have "Inr op' \<notin> set (calls inval)" unfolding ci using invalidate_calls_no_insert(2) ins(2) by blast
  ultimately have "Inr op' \<in> set (all_calls post)" by (simp add: uv)
  then show ?thesis using ins(2,3) by (cases op') (auto dest: all_calls_insert(2))
qed

section \<open>Properties\<close>

definition fresh_core :: "nat \<Rightarrow> nat \<Rightarrow> nat \<Rightarrow> (string \<Rightarrow> nat) \<Rightarrow> (string \<times> string \<Rightarrow> nat) \<Rightarrow> 'n core \<Rightarrow> bool" where
  "fresh_core cap max_bytes jcap hs hp c \<longleftrightarrow>
     co_clock c = 0 \<and> co_l1 c = l1_with_limits cap max_bytes hs hp \<and> co_jobs c = jobs_with_limits jcap hs"

lemma fresh_core_good: "fresh_core cap mb jcap hs hp c \<Longrightarrow> 2 * mb < usize_mod \<Longrightarrow> core_good 0 c"
  using l1_good_new jobs_good_new by (simp add: fresh_core_def core_good_def del: l1_good.simps jobs_good.simps)

text \<open>
  C30: One invalidation call reaches every page it concerns, whichever of tags, path and prefix it gives and whatever the
  core did before. Let a core run any operations, then an \<^verbatim>\<open>invalidate\<close> or a replayed broadcast that concerns the
  page's prefix, method, path or tags, then any operations: if the page cache holds that page at the end, it was inserted
  afterwards with a read stamp newer than the clock when the invalidation began.
\<close>

theorem core_no_stale_page:
  assumes "fresh_core cap max_bytes jcap hs hp c" and "2 * max_bytes < usize_mod"
    and "4 * (length pre + length post + 1) < u64_mod"
    and "inval = Invalidate a now \<or> inval = Replay a sq now" and "page_concerned a k tags"
    and "stored (l1_store (co_l1 (core_run js (pre @ inval # post) c))) k = Some (body, tags, None)"
  shows "\<exists>ttl since now'. PageInsert k body ttl tags since now' \<in> set post \<and> co_clock (core_run js pre c) < since"
proof -
  have "core_good (4 * length pre) (core_run js pre c)"
    using core_good_run [OF fresh_core_good [OF assms(1,2)], of pre js] assms(3) by simp
  from core_page_purged(1) [OF this _ assms(4,5), of post js body None] assms(3,6) show ?thesis
    by (simp add: core_run_append)
qed

definition demo_core :: "nat core" where
  "demo_core =
     \<lparr>co_clock = 0, co_l1 = l1_with_limits 4 100 (\<lambda>_. 0) (\<lambda>_. 0), co_jobs = jobs_with_limits 4 (\<lambda>_. 0),
      co_loader_calls = counter_new, co_job_calls = 0, co_worker_calls = counter_new, co_timed_out_calls = 0,
      co_missing_slots = {}, co_cors_resolved = None, co_action_prefix_tag = None, co_powered_by = Some ''brust'',
      co_l2 = None, co_l2_counters = l2_counters_new, co_l2_floor = floor_new\<rparr>"

definition tag_args :: "string \<Rightarrow> invalidate_args" where
  "tag_args t = \<lparr>ia_key = None, ia_tags = [t], ia_path = None, ia_method = None, ia_prefix = None\<rparr>"

lemma demo_core_fresh: "fresh_core 4 100 4 (\<lambda>_. 0) (\<lambda>_. 0) demo_core"
  by (simp add: fresh_core_def demo_core_def)

lemmas core_demo_simps = demo_simps core_run_def on_l1_def on_jobs_def demo_core_def tag_args_def
  core_invalidate_def invalidate_args_validate_def l1_insert_def l1_invalidate_tags_def l1_invalidated_since_def
  l1_with_limits_def l1_tag_slot_def l1_path_slot_def l1_prefix_slot_def demo_key_def demo_body_def
  jobs_insert_def jobs_invalidate_tags_def jobs_invalidated_since_def jobs_with_limits_def jobs_slot_def

theorem core_no_stale_page_witness:
  "\<exists>ttl since now'. PageInsert demo_key demo_body ttl [''t''] since now' \<in>
       set [PageInsert demo_key demo_body 9 [''t''] 2 0 :: nat core_op] \<and>
     co_clock (core_run quote_json [PageInsert demo_key demo_body 9 [''t''] 0 0] demo_core) < since"
proof (rule core_no_stale_page [OF demo_core_fresh, where inval = "Invalidate (tag_args ''t'') 0" and a = "tag_args ''t''" and now = 0])
  show "stored (l1_store (co_l1 (core_run quote_json ([PageInsert demo_key demo_body 9 [''t''] 0 0] @
      Invalidate (tag_args ''t'') 0 # [PageInsert demo_key demo_body 9 [''t''] 2 0]) demo_core))) demo_key =
      Some (demo_body, [''t''], None)"
    by (simp add: core_demo_simps)
qed (simp_all add: usize_mod_def u64_mod_def page_concerned_def tag_args_def)

text \<open>
  The same call reaches the job results: those stored under the user key it names, and those with one of its tags when
  it is not narrowed to a page prefix. A result found after it was inserted afterwards, from data read after it began.
\<close>

theorem core_no_stale_job:
  assumes "fresh_core cap max_bytes jcap hs hp c" and "2 * max_bytes < usize_mod" and "4 * (length pre + length post + 1) < u64_mod"
    and "inval = Invalidate a now \<or> inval = Replay a sq now" and "job_concerned a tags user_key"
    and "stored (jobs_store (co_jobs (core_run js (pre @ inval # post) c))) j = Some (v, tags, user_key)"
  shows "\<exists>ttl since now'. JobInsert j v ttl tags user_key since now' \<in> set post \<and> co_clock (core_run js pre c) < since"
proof -
  have "core_good (4 * length pre) (core_run js pre c)"
    using core_good_run [OF fresh_core_good [OF assms(1,2)], of pre js] assms(3) by simp
  from core_job_purged [OF this _ assms(4,5), of post js j v] assms(3,6) show ?thesis
    by (simp add: core_run_append)
qed

theorem core_no_stale_job_witness:
  "\<exists>ttl since now'. JobInsert ''j'' (8::nat) ttl [''t''] None since now' \<in> set [JobInsert ''j'' 8 (Some 9) [''t''] None 2 0] \<and>
     co_clock (core_run quote_json [JobInsert ''j'' 7 None [''t''] None 0 0] demo_core) < since"
proof (rule core_no_stale_job [OF demo_core_fresh, where inval = "Invalidate (tag_args ''t'') 0" and a = "tag_args ''t''" and now = 0])
  show "stored (jobs_store (co_jobs (core_run quote_json ([JobInsert ''j'' 7 None [''t''] None 0 0] @
      Invalidate (tag_args ''t'') 0 # [JobInsert ''j'' 8 (Some 9) [''t''] None 2 0]) demo_core))) ''j'' =
      Some (8, [''t''], None)"
    by (simp add: core_demo_simps)
qed (simp_all add: usize_mod_def u64_mod_def job_concerned_def tag_args_def)

text \<open>
  Every response passes the chokepoint: it carries an \<^verbatim>\<open>X-Powered-By\<close> (its own, or else the core's), the
  application's own headers are untouched but for the CORS stamp, and passing it again changes nothing.
\<close>

lemma finish_headers:
  assumes "http_headers h" and "n \<noteq> ''vary''"
  shows "hm_get_all h (finish h c origin m) n =
    (if hm_get_all h m n \<noteq> [] then hm_get_all h m n
     else if n = ''x-powered-by'' then (case co_powered_by c of Some v \<Rightarrow> [v] | None \<Rightarrow> [])
     else (case co_cors_resolved c of Some rc \<Rightarrow> cors_values h rc origin n | None \<Rightarrow> []))"
proof -
  let ?m = "case co_powered_by c of Some v \<Rightarrow> hm_or_insert h ''x-powered-by'' v m | None \<Rightarrow> m"
  have m: "hm_get_all h ?m n = (if hm_get_all h m n \<noteq> [] then hm_get_all h m n
      else if n = ''x-powered-by'' then (case co_powered_by c of Some v \<Rightarrow> [v] | None \<Rightarrow> []) else [])"
    by (cases "co_powered_by c") (simp_all add: http_headers.get_all_or_insert [OF assms(1)])
  have f: "finish h c origin m = (case co_cors_resolved c of Some rc \<Rightarrow> stamp_response h rc origin ?m | None \<Rightarrow> ?m)"
    by (simp add: finish_def Let_def)
  show ?thesis
  proof (cases "co_cors_resolved c")
    case (Some rc)
    have "cors_values h rc origin ''x-powered-by'' = []" by (simp add: cors_values_def split: option.splits)
    then show ?thesis
      using Some http_headers.get_all_stamp_response [OF assms, of rc origin ?m] m f by (auto split: option.splits)
  qed (use f m in simp)
qed

lemma finish_idem:
  assumes "http_headers h" and "n \<noteq> ''vary''"
  shows "hm_get_all h (finish h c origin (finish h c origin m)) n = hm_get_all h (finish h c origin m) n"
  using finish_headers [OF assms, of c origin "finish h c origin m"] finish_headers [OF assms, of c origin m]
  by (cases "n = ''x-powered-by''"; cases "hm_get_all h m n = []") (simp_all split: if_splits)

end
