(* ===== verification/Epoch.thy ===== *)
theory Epoch
  imports CoreState
begin

text \<open>
  The pull broadcast of a cache adapter in a Workers isolate: the cursor (\<^verbatim>\<open>crates/brust-wasm/src/epoch/cursor.rs\<close>)
  and the per-request sync that drives it (\<^verbatim>\<open>epoch/sync.rs\<close>). The adapter's \<^verbatim>\<open>since\<close>, \<^verbatim>\<open>serde_json\<close>'s reader and the
  host's clocks are arguments. \<^verbatim>\<open>maybe_sync\<close> awaits once, so it is two steps, \<open>sync_begin\<close> before the await and \<open>sync_end\<close>
  after it; other requests run between them.
\<close>

section \<open>The cursor\<close>

definition MAX_REPLAY :: nat where
  "MAX_REPLAY = 4096"

definition POLL_TIMEOUT_MS :: nat where
  "POLL_TIMEOUT_MS = 500"

definition MAX_SAFE :: nat where
  "MAX_SAFE = 2 ^ 53 - 1"

record event =
  ev_seq :: nat
  ev_origin :: string
  ev_args :: invalidate_args

record since_resp =
  si_generation :: string
  si_seq :: nat
  si_behind :: bool
  si_events :: "event list"

datatype since_error = BadJson string | SeqOverSafe

definition parse_since :: "(string \<Rightarrow> string + since_resp) \<Rightarrow> string \<Rightarrow> (since_error, since_resp) result" where
  "parse_since from_str json =
     (case from_str json of
        Inl e \<Rightarrow> Err (BadJson e)
      | Inr r \<Rightarrow>
          if MAX_SAFE < si_seq r \<or> list_ex (\<lambda>e. MAX_SAFE < ev_seq e) (si_events r) then Err SeqOverSafe else Ok r)"

datatype plan =
    Adopt
  | ReplayPlan "(nat \<times> invalidate_args) list" nat
  | ClearPlan bool nat

record cursor =
  cu_origin :: string
  cu_interval_ms :: nat
  cu_generation :: "string option"
  cu_seq :: nat
  cu_last_poll_ms :: "nat option"
  cu_in_flight :: bool

definition cursor_new :: "string \<Rightarrow> nat \<Rightarrow> cursor" where
  "cursor_new origin interval_ms =
     \<lparr>cu_origin = origin, cu_interval_ms = interval_ms, cu_generation = None, cu_seq = 0, cu_last_poll_ms = None,
      cu_in_flight = False\<rparr>"

definition cursor_due :: "nat \<Rightarrow> cursor \<Rightarrow> bool" where
  "cursor_due now_ms c \<longleftrightarrow>
     \<not> cu_in_flight c \<and> (case cu_last_poll_ms c of None \<Rightarrow> True | Some t \<Rightarrow> cu_interval_ms c \<le> now_ms - t)"

definition cursor_begin :: "nat \<Rightarrow> cursor \<Rightarrow> nat option \<times> cursor" where
  "cursor_begin now_ms c =
     (if \<not> cursor_due now_ms c then (None, c)
      else (Some (cu_seq c), c\<lparr>cu_in_flight := True, cu_last_poll_ms := Some now_ms\<rparr>))"

definition cursor_fail :: "cursor \<Rightarrow> cursor" where
  "cursor_fail c = c\<lparr>cu_in_flight := False\<rparr>"

definition lost :: "bool \<Rightarrow> nat \<Rightarrow> since_resp \<Rightarrow> bool" where
  "lost same_gen from r \<longleftrightarrow>
     \<not> same_gen \<or> si_behind r \<or> si_seq r < from \<or> MAX_REPLAY < length (si_events r) \<or>
     length (si_events r) \<noteq> si_seq r - from \<or>
     list_ex (\<lambda>(i, e). ev_seq e \<noteq> u64_add (u64_add from 1) i) (enumerate 0 (si_events r))"

definition cursor_apply :: "since_resp \<Rightarrow> cursor \<Rightarrow> plan \<times> cursor" where
  "cursor_apply r c =
     (let first = (cu_generation c = None);
          same_gen = (cu_generation c = Some (si_generation r));
          from = cu_seq c;
          c' = c\<lparr>cu_in_flight := False, cu_generation := Some (si_generation r), cu_seq := si_seq r\<rparr>
      in if first then (Adopt, c')
         else if lost same_gen from r then (ClearPlan same_gen (si_seq r), c')
         else (ReplayPlan
                 (map (\<lambda>e. (ev_seq e, ev_args e)) (filter (\<lambda>e. ev_origin e \<noteq> cu_origin c) (si_events r)))
                 (length (filter (\<lambda>e. ev_origin e = cu_origin c) (si_events r))), c'))"

section \<open>The sync\<close>

record 'n isolate =
  is_cursor :: "cursor option"
  is_warned :: "int option"
  is_core :: "'n core"

definition sync_init :: "nat \<Rightarrow> 'n isolate \<Rightarrow> 'n isolate" where
  "sync_init interval_ms s = s\<lparr>is_cursor := Some (cursor_new [] interval_ms)\<rparr>"

definition count_l2 :: "string \<Rightarrow> 'n core \<Rightarrow> 'n core" where
  "count_l2 name c = c\<lparr>co_l2_counters := snd (bump name (co_l2_counters c))\<rparr>"

definition sync_begin :: "string option \<Rightarrow> nat \<Rightarrow> 'n isolate \<Rightarrow> nat option \<times> 'n isolate" where
  "sync_begin origin now_ms s =
     (let cur = (case is_cursor s of
                   None \<Rightarrow> None
                 | Some c \<Rightarrow>
                     (case origin of
                        Some o' \<Rightarrow> if cu_origin c = [] then Some (c\<lparr>cu_origin := o'\<rparr>) else Some c
                      | None \<Rightarrow> Some c))
      in case cur of
           None \<Rightarrow> (None, s\<lparr>is_cursor := None\<rparr>)
         | Some c \<Rightarrow>
             (case cursor_begin now_ms c of
                (None, c) \<Rightarrow> (None, s\<lparr>is_cursor := Some c\<rparr>)
              | (Some from, c) \<Rightarrow>
                  (Some from, s\<lparr>is_cursor := Some c, is_core := count_l2 ''epoch_polls'' (is_core s)\<rparr>)))"

definition sync_apply :: "(string \<Rightarrow> string) \<Rightarrow> nat \<Rightarrow> plan \<Rightarrow> 'n core \<Rightarrow> 'n core" where
  "sync_apply js now pl c =
     (case pl of
        Adopt \<Rightarrow> c
      | ReplayPlan events skipped_own \<Rightarrow>
          fold (\<lambda>(sq, args) c. count_l2 ''received'' (snd (l2_replay js args (Some sq) now c))) events
            (fold (\<lambda>_ c. count_l2 ''skipped_own'' c) [0..<skipped_own] c)
      | ClearPlan same_gen sq \<Rightarrow>
          (let c = snd (clear_local now c)
           in c\<lparr>co_l2_floor := (if same_gen then clear_at sq (co_l2_floor c) else floor_reset (co_l2_floor c))\<rparr>))"

definition sync_failed :: "int \<Rightarrow> 'n isolate \<Rightarrow> 'n isolate" where
  "sync_failed now_ms s =
     s\<lparr>is_cursor := map_option cursor_fail (is_cursor s),
       is_core := count_l2 ''poll_errors'' (is_core s),
       is_warned := (case is_warned s of
                       None \<Rightarrow> Some now_ms
                     | Some w \<Rightarrow> if 60000 \<le> now_ms - w then Some now_ms else Some w)\<rparr>"

definition sync_end ::
  "(string \<Rightarrow> string) \<Rightarrow> (string \<Rightarrow> string + since_resp) \<Rightarrow> string + string \<Rightarrow> nat \<Rightarrow> int \<Rightarrow> 'n isolate \<Rightarrow> 'n isolate" where
  "sync_end js from_str answer now now_ms s =
     (case answer of
        Inl e \<Rightarrow> sync_failed now_ms s
      | Inr json \<Rightarrow>
          (case parse_since from_str json of
             Inl e \<Rightarrow> sync_failed now_ms s
           | Inr r \<Rightarrow>
               (case is_cursor s of
                  None \<Rightarrow> s
                | Some c \<Rightarrow>
                    let (pl, c) = cursor_apply r c
                    in s\<lparr>is_cursor := Some c, is_core := sync_apply js now pl (is_core s)\<rparr>)))"

section \<open>The sync as a state machine\<close>

text \<open>
  The isolate, the polls that await an answer (each with the sequence number it asked from), and the times at which polls
  began, latest first. \<open>Work\<close> is any other request using the core meanwhile.
\<close>

inductive sync_step :: "(string \<Rightarrow> string) \<Rightarrow> (string \<Rightarrow> string + since_resp) \<Rightarrow>
    'n isolate \<times> nat list \<times> nat list \<Rightarrow> 'n isolate \<times> nat list \<times> nat list \<Rightarrow> bool"
  for js :: "string \<Rightarrow> string" and from_str :: "string \<Rightarrow> string + since_resp" where
  Start: "sync_begin origin now_ms s = (Some sq, s') \<Longrightarrow> sync_step js from_str (s, ps, ts) (s', ps @ [sq], now_ms # ts)"
| Idle: "sync_begin origin now_ms s = (None, s') \<Longrightarrow> sync_step js from_str (s, ps, ts) (s', ps, ts)"
| Finish: "sq \<in> set ps \<Longrightarrow>
    sync_step js from_str (s, ps, ts) (sync_end js from_str answer now now_ms s, remove1 sq ps, ts)"
| Work: "sync_step js from_str (s, ps, ts) (s\<lparr>is_core := core_step js op (is_core s)\<rparr>, ps, ts)"

inductive_cases sync_stepE: "sync_step js from_str (s, ps, ts) st'"

abbreviation sync_steps where
  "sync_steps js from_str \<equiv> (sync_step js from_str)\<^sup>*\<^sup>*"

text \<open>Gaps between the polls, latest first.\<close>

fun spaced :: "nat \<Rightarrow> nat list \<Rightarrow> bool" where
  "spaced d (t # t' # ts) \<longleftrightarrow> d \<le> t - t' \<and> spaced d (t' # ts)"
| "spaced d ts \<longleftrightarrow> True"

fun sync_inv :: "nat \<Rightarrow> 'n isolate \<times> nat list \<times> nat list \<Rightarrow> bool" where
  "sync_inv d (s, ps, ts) \<longleftrightarrow>
     (\<exists>c. is_cursor s = Some c \<and> cu_interval_ms c = d \<and> (cu_in_flight c \<longleftrightarrow> ps \<noteq> []) \<and> length ps \<le> 1 \<and>
        set ps \<subseteq> {cu_seq c} \<and> cu_last_poll_ms c = (case ts of [] \<Rightarrow> None | t # _ \<Rightarrow> Some t) \<and>
        (ps \<noteq> [] \<longrightarrow> ts \<noteq> []) \<and> spaced d ts)"

lemma sync_begin_cursor:
  assumes "is_cursor s = Some c" and "sync_begin origin now_ms s = (r, s')"
  shows "\<exists>c'. is_cursor s' = Some c' \<and> cu_interval_ms c' = cu_interval_ms c \<and> cu_seq c' = cu_seq c \<and>
    cu_generation c' = cu_generation c \<and>
    (if cursor_due now_ms c then r = Some (cu_seq c) \<and> cu_in_flight c' \<and> cu_last_poll_ms c' = Some now_ms
     else r = None \<and> cu_in_flight c' = cu_in_flight c \<and> cu_last_poll_ms c' = cu_last_poll_ms c)"
  using assms
  by (auto simp: sync_begin_def cursor_begin_def cursor_due_def Let_def split: option.splits if_splits prod.splits)

lemma sync_end_cursor:
  assumes "is_cursor s = Some c"
  shows "\<exists>c'. is_cursor (sync_end js from_str answer now now_ms s) = Some c' \<and> cu_interval_ms c' = cu_interval_ms c \<and>
    \<not> cu_in_flight c' \<and> cu_last_poll_ms c' = cu_last_poll_ms c"
  using assms
  by (auto simp: sync_end_def sync_failed_def cursor_fail_def cursor_apply_def Let_def split: sum.splits prod.splits if_splits)

lemma sync_inv_step:
  assumes "sync_step js from_str st st'" and "sync_inv d st"
  shows "sync_inv d st'"
  using assms
proof (induction rule: sync_step.induct)
  case (Start origin now_ms s sq s' ps ts)
  then obtain c where c: "is_cursor s = Some c" "cu_interval_ms c = d" "cu_in_flight c \<longleftrightarrow> ps \<noteq> []"
    "cu_last_poll_ms c = (case ts of [] \<Rightarrow> None | t # _ \<Rightarrow> Some t)" "spaced d ts" by auto
  have due: "cursor_due now_ms c" using sync_begin_cursor [OF c(1) Start(1)] by (auto split: if_splits)
  then have "ps = []" "spaced d (now_ms # ts)" using c by (auto simp: cursor_due_def split: list.splits option.splits)
  then show ?case using sync_begin_cursor [OF c(1) Start(1)] due c by auto
next
  case (Idle origin now_ms s s' ps ts)
  then obtain c where c: "is_cursor s = Some c" by auto
  show ?case using sync_begin_cursor [OF c Idle(1)] Idle(2) c by (auto split: if_splits)
next
  case (Finish sq ps s ts answer now now_ms)
  then obtain c where c: "is_cursor s = Some c" by auto
  have "remove1 sq ps = []" using Finish by (cases ps) auto
  then show ?case using sync_end_cursor [OF c, of js from_str answer now now_ms] Finish c by auto
next
  case (Work s ps ts op)
  then show ?case by auto
qed

lemma sync_inv_steps:
  "sync_steps js from_str st st' \<Longrightarrow> sync_inv d st \<Longrightarrow> sync_inv d st'"
  by (induction rule: rtranclp_induct) (auto intro: sync_inv_step simp del: sync_inv.simps)

lemma sync_inv_init: "sync_inv d (sync_init d s, [], [])"
  by (simp add: sync_init_def cursor_new_def)

section \<open>What a sync does to the caches and the floor\<close>

lemma count_l2_frame [simp]:
  "co_clock (count_l2 n c) = co_clock c" "co_l1 (count_l2 n c) = co_l1 c" "co_jobs (count_l2 n c) = co_jobs c"
  "co_l2_floor (count_l2 n c) = co_l2_floor c"
  by (simp_all add: count_l2_def)

lemma fold_count_frame:
  "same_caches (fold (\<lambda>_ c. count_l2 n c) xs c) c \<and> co_l2_floor (fold (\<lambda>_ c. count_l2 n c) xs c) = co_l2_floor c"
  by (induction xs arbitrary: c) (auto simp: same_caches_def)

lemma core_step_same: "same_caches c d \<Longrightarrow> same_caches (snd (l2_replay js a sq now c)) (snd (l2_replay js a sq now d))"
  using core_step_calls [of js "Replay a sq now" c] core_step_calls [of js "Replay a sq now" d]
    fold_on_cache_same [of c d "invalidate_calls a now"]
  by (simp add: same_caches_def)

lemma on_cache_floor [simp]: "co_l2_floor (on_cache x c) = co_l2_floor c"
  by (cases x) (auto simp: on_l1_def on_jobs_def Let_def split: prod.splits)

lemma fold_on_cache_floor [simp]: "co_l2_floor (fold on_cache xs c) = co_l2_floor c"
  by (induction xs arbitrary: c) simp_all

lemma replay_floor: "co_l2_floor (snd (l2_replay js a (Some q) now c)) = raise js a q (co_l2_floor c)"
  by (simp add: l2_replay_def core_invalidate_calls)

definition replay_all :: "(string \<Rightarrow> string) \<Rightarrow> nat \<Rightarrow> (nat \<times> invalidate_args) list \<Rightarrow> 'n core \<Rightarrow> 'n core" where
  "replay_all js now events c = fold (\<lambda>(sq, args) c. count_l2 ''received'' (snd (l2_replay js args (Some sq) now c))) events c"

lemma replay_all_run:
  "same_caches (replay_all js now events c) (core_run js (map (\<lambda>(sq, args). Replay args (Some sq) now) events) d)
   \<and> co_l2_floor (replay_all js now events c) =
       floor_run js (map (\<lambda>(sq, args). Replayed args sq) events) (co_l2_floor c)"
  if "same_caches c d" for c d :: "'n core"
  using that
proof (induction events arbitrary: c d)
  case Nil
  then show ?case by (simp add: replay_all_def core_run_def floor_run_def)
next
  case (Cons e events)
  obtain sq args where e: "e = (sq, args)" by (cases e)
  let ?c = "count_l2 ''received'' (snd (l2_replay js args (Some sq) now c))" and ?d = "snd (l2_replay js args (Some sq) now d)"
  have "same_caches ?c ?d" using core_step_same [OF Cons.prems, of js args "Some sq" now] by (simp add: same_caches_def)
  from Cons.IH [OF this] show ?case
    by (simp add: e replay_all_def core_run_def floor_run_def replay_floor)
qed

lemma clear_local_l1:
  "l1_store (co_l1 (snd (clear_local now c))) = clear (l1_store (co_l1 c))"
  "jobs_store (co_jobs (snd (clear_local now c))) = clear (jobs_store (co_jobs c))"
  "co_l2_floor (snd (clear_local now c)) = co_l2_floor c"
  "core_good n c \<Longrightarrow> n + 1 < u64_mod \<Longrightarrow> l1_cleared_at (co_l1 (snd (clear_local now c))) = Suc (co_clock c)"
  by (auto simp: clear_local_def l1_clear_def jobs_clear_def clock_next_def core_good_def Let_def split: prod.splits)

text \<open>An answer that lost no history holds every event past the cursor, in order.\<close>

lemma not_lost_events:
  assumes "\<not> lost same_gen from r" and "si_seq r \<le> MAX_SAFE" and "from < q" and "q \<le> si_seq r"
  shows "same_gen \<and> (\<exists>e \<in> set (si_events r). ev_seq e = q)"
proof -
  let ?i = "q - from - 1"
  have len: "?i < length (si_events r)" using assms by (auto simp: lost_def)
  have "ev_seq (si_events r ! ?i) = u64_add (u64_add from 1) ?i"
  proof -
    have "(?i, si_events r ! ?i) \<in> set (enumerate 0 (si_events r))" using len by (simp add: in_set_enumerate_eq)
    then show ?thesis using assms(1) unfolding lost_def list_ex_iff by force
  qed
  also have "\<dots> = q"
  proof -
    have "q < u64_mod" using assms(2,4) by (simp add: MAX_SAFE_def u64_mod_def)
    then show ?thesis using assms(3) by simp
  qed
  finally show ?thesis using len assms(1) by (auto simp: lost_def)
qed

definition foreign :: "cursor \<Rightarrow> since_resp \<Rightarrow> (nat \<times> invalidate_args) list" where
  "foreign c r = map (\<lambda>e. (ev_seq e, ev_args e)) (filter (\<lambda>e. ev_origin e \<noteq> cu_origin c) (si_events r))"

lemma cursor_apply_plan:
  "cu_generation c = None \<Longrightarrow> fst (cursor_apply r c) = Adopt"
  "cu_generation c \<noteq> None \<Longrightarrow> lost (cu_generation c = Some (si_generation r)) (cu_seq c) r \<Longrightarrow>
     fst (cursor_apply r c) = ClearPlan (cu_generation c = Some (si_generation r)) (si_seq r)"
  "cu_generation c \<noteq> None \<Longrightarrow> \<not> lost (cu_generation c = Some (si_generation r)) (cu_seq c) r \<Longrightarrow>
     fst (cursor_apply r c) = ReplayPlan (foreign c r) (length (filter (\<lambda>e. ev_origin e = cu_origin c) (si_events r)))"
  unfolding cursor_apply_def Let_def foreign_def by (simp_all only: if_True if_False fst_conv simp_thms)

lemma foreign_has:
  assumes "\<not> lost same_gen (cu_seq c) r" and "parse_since from_str json = Ok r"
    and "\<And>e. e \<in> set (si_events r) \<Longrightarrow> e = log (ev_seq e)"
    and "cu_seq c < q" and "q \<le> si_seq r" and "ev_origin (log q) \<noteq> cu_origin c"
  shows "(q, ev_args (log q)) \<in> set (foreign c r)"
proof -
  have safe: "si_seq r \<le> MAX_SAFE" using assms(2) by (auto simp: parse_since_def split: sum.splits if_splits)
  from not_lost_events [OF assms(1) safe assms(4,5)] obtain e where e: "e \<in> set (si_events r)" "ev_seq e = q" by blast
  then have "e = log q" using assms(3) [OF e(1)] by metis
  then show ?thesis using e assms(6) by (force simp: foreign_def)
qed

section \<open>Properties\<close>

text \<open>
  C32: One poll at a time. Whatever requests, polls and answers interleave, and whether polls succeed or fail, at most
  one poll awaits an answer; the cursor knows whether one does; it stands where that poll asked from until the answer
  is applied; and two polls never begin closer than the configured interval.
\<close>

theorem sync_single_flight:
  assumes "sync_steps js from_str (sync_init d s, [], []) (s', ps, ts)"
  shows "length ps \<le> 1 \<and> spaced d ts \<and>
    (\<exists>c. is_cursor s' = Some c \<and> (cu_in_flight c \<longleftrightarrow> ps \<noteq> []) \<and> set ps \<subseteq> {cu_seq c})"
  using sync_inv_steps [OF assms sync_inv_init] by auto

text \<open>
  C33: A poll never blocks the next. From any state the isolate reaches, once the poll in flight (if any) has its answer, be
  it an error, garbage or a valid answer, the first request that comes an interval after the last poll starts a new one.
\<close>

theorem poll_restarts:
  assumes "sync_steps js from_str (sync_init d s, [], []) (s', ps, ts)"
    and "s'' = (if ps = [] then s' else sync_end js from_str answer now now_ms s')"
    and "case ts of [] \<Rightarrow> True | t # _ \<Rightarrow> d \<le> later - t"
  shows "\<exists>sq s3. sync_begin origin later s'' = (Some sq, s3)"
proof -
  have inv: "sync_inv d (s', ps, ts)" by (rule sync_inv_steps [OF assms(1) sync_inv_init])
  then obtain c where c: "is_cursor s' = Some c" "cu_interval_ms c = d" "cu_in_flight c \<longleftrightarrow> ps \<noteq> []"
    "cu_last_poll_ms c = (case ts of [] \<Rightarrow> None | t # _ \<Rightarrow> Some t)" by auto
  have "\<exists>c'. is_cursor s'' = Some c' \<and> cu_interval_ms c' = d \<and> \<not> cu_in_flight c' \<and> cu_last_poll_ms c' = cu_last_poll_ms c"
    using c sync_end_cursor [OF c(1), of js from_str answer now now_ms] by (auto simp: assms(2))
  then obtain c' where c': "is_cursor s'' = Some c'" "cursor_due later c'"
    using c(4) assms(3) by (auto simp: cursor_due_def split: list.splits)
  obtain r s3 where r: "sync_begin origin later s'' = (r, s3)" by fastforce
  show ?thesis using sync_begin_cursor [OF c'(1) r] c'(2) r by auto
qed

definition demo_isolate :: "nat isolate" where
  "demo_isolate = \<lparr>is_cursor = None, is_warned = None, is_core = demo_core\<rparr>"

definition demo_polling :: "nat isolate" where
  "demo_polling = snd (sync_begin None 5 (sync_init 1000 demo_isolate))"

lemma demo_polling_reached:
  "sync_steps js from_str (sync_init 1000 demo_isolate, [], []) (demo_polling, [0], [5])"
proof -
  have "sync_begin None 5 (sync_init 1000 demo_isolate) = (Some 0, demo_polling)"
    by (simp add: demo_polling_def sync_begin_def sync_init_def cursor_begin_def cursor_due_def cursor_new_def)
  from sync_step.Start [OF this, of js from_str "[]" "[]"] show ?thesis by (simp add: r_into_rtranclp)
qed

theorem sync_single_flight_witness:
  "\<exists>c. is_cursor demo_polling = Some c \<and> cu_in_flight c \<and> cu_seq c = 0"
  using sync_single_flight [OF demo_polling_reached] by auto

theorem poll_restarts_witness:
  "\<exists>sq s3. sync_begin None 1005 (sync_end quote_json (\<lambda>_. Inl ''bad'') (Inl ''timed out'') 0 7 demo_polling) = (Some sq, s3)"
  by (rule poll_restarts [OF demo_polling_reached]) simp_all

text \<open>
  C31: No broadcast invalidation is missed. Let the cursor stand at some sequence number of a generation, and let
  an answer arrive whose events are those the adapter logged (\<open>log\<close>, by sequence number). For every logged event
  of another isolate past the cursor and up to the answer's sequence number, whether the answer is replayed or turns out
  to have lost history: no page the event concerns is in the page cache afterwards, and a page rendered from data
  read before the sync is still refused then.
\<close>

theorem epoch_no_missed_page:
  assumes "core_good n (is_core s)" and "n + 4 * MAX_REPLAY + 4 < u64_mod"
    and "is_cursor s = Some c" and "cu_generation c \<noteq> None" and "parse_since from_str json = Ok r"
    and "\<And>e. e \<in> set (si_events r) \<Longrightarrow> e = log (ev_seq e)"
    and "cu_seq c < q" and "q \<le> si_seq r" and "ev_origin (log q) \<noteq> cu_origin c"
    and "page_concerned (ev_args (log q)) k tags"
    and "s' = sync_end js from_str (Inr json) now now_ms s"
  shows "stored (l1_store (co_l1 (is_core s'))) k \<noteq> Some (body, tags, u) \<and>
    l1_invalidated_since (co_l1 (is_core s')) k tags (co_clock (is_core s))"
proof -
  let ?same = "cu_generation c = Some (si_generation r)" and ?core = "is_core s"
  have core: "is_core s' = sync_apply js now (fst (cursor_apply r c)) ?core"
    using assms(3,5) by (simp add: assms(11) sync_end_def case_prod_unfold Let_def)
  show ?thesis
  proof (cases "lost ?same (cu_seq c) r")
    case True
    then have pl: "is_core s' = (let d = snd (clear_local now ?core) in
        d\<lparr>co_l2_floor := (if ?same then clear_at (si_seq r) (co_l2_floor d) else floor_reset (co_l2_floor d))\<rparr>)"
      using cursor_apply_plan(2) [OF assms(4) True] by (simp add: core sync_apply_def Let_def)
    have "n + 1 < u64_mod" using assms(2) by simp
    then show ?thesis using clear_local_l1(1) [of now ?core] clear_local_l1(4) [OF assms(1), of now]
      by (simp add: pl Let_def l1_invalidated_since_def)
  next
    case False
    define events where "events = foreign c r"
    have "(q, ev_args (log q)) \<in> set events"
      unfolding events_def by (rule foreign_has [OF False assms(5,6,7,8,9)])
    then obtain us vs where uv: "events = us @ (q, ev_args (log q)) # vs" by (meson split_list)
    have "length events \<le> MAX_REPLAY" using False by (auto simp: lost_def events_def foreign_def intro: le_trans [OF length_filter_le])
    then have len: "n + 4 * length us + 4 * (length vs + 1) < u64_mod" using assms(2) by (simp add: uv)
    let ?rep = "map (\<lambda>(sq, args). Replay args (Some sq) now)"
    let ?c0 = "fold (\<lambda>_ c. count_l2 ''skipped_own'' c) [0..<length (filter (\<lambda>e. ev_origin e = cu_origin c) (si_events r))] ?core"
    have "is_core s' = replay_all js now events ?c0"
      using cursor_apply_plan(3) [OF assms(4) False] by (simp add: core sync_apply_def events_def replay_all_def)
    moreover have "same_caches ?c0 ?core" by (rule conjunct1 [OF fold_count_frame])
    ultimately have same: "same_caches (is_core s') (core_run js (?rep events) ?core)"
      using replay_all_run [of ?c0 ?core js now events] by simp
    have run: "core_run js (?rep events) ?core = core_run js (Replay (ev_args (log q)) (Some q) now # ?rep vs) (core_run js (?rep us) ?core)"
      by (simp add: uv core_run_append)
    have good: "core_good (n + 4 * length us) (core_run js (?rep us) ?core)"
      using core_good_run [OF assms(1), of "?rep us" js] len by simp
    have none: "PageInsert k body ttl tags since now' \<notin> set (?rep vs)" for ttl since now' by auto
    have mono: "co_clock ?core \<le> co_clock (core_run js (?rep us) ?core)"
      using core_clock_mono [OF assms(1), of "?rep us" js] len by simp
    note P = core_page_purged [OF good _ disjI2 [OF refl] assms(10), where post = "?rep vs" and js = js]
    have "stored (l1_store (co_l1 (core_run js (?rep events) ?core))) k \<noteq> Some (body, tags, u)"
      using P(1) [where sq = "Some q" and now = now and body = body and u = u] none len unfolding run by auto
    moreover have "l1_invalidated_since (co_l1 (core_run js (?rep events) ?core)) k tags (co_clock ?core)"
      using P(2) [OF _ mono] len unfolding run by simp
    ultimately show ?thesis using same by (simp add: same_caches_def)
  qed
qed

definition demo_event :: event where
  "demo_event = \<lparr>ev_seq = 1, ev_origin = ''other'', ev_args = tag_args ''t''\<rparr>"

definition demo_answer :: since_resp where
  "demo_answer = \<lparr>si_generation = ''g'', si_seq = 1, si_behind = False, si_events = [demo_event]\<rparr>"

definition demo_contacted :: "nat isolate" where
  "demo_contacted =
     \<lparr>is_cursor = Some ((cursor_new ''me'' 1000)\<lparr>cu_generation := Some ''g''\<rparr>), is_warned = None, is_core = demo_core\<rparr>"

lemma demo_answer_parses: "parse_since (\<lambda>_. Inr demo_answer) json = Ok demo_answer"
  by (simp add: parse_since_def demo_answer_def demo_event_def MAX_SAFE_def)

theorem epoch_no_missed_page_witness:
  "l1_invalidated_since
     (co_l1 (is_core (sync_end quote_json (\<lambda>_. Inr demo_answer) (Inr ''...'') 0 0 demo_contacted))) demo_key [''t'']
     (co_clock (is_core demo_contacted))"
proof (rule conjunct2 [OF epoch_no_missed_page [where n = 0 and c = "(cursor_new ''me'' 1000)\<lparr>cu_generation := Some ''g''\<rparr>"
        and log = "\<lambda>_. demo_event" and q = 1, OF _ _ _ _ demo_answer_parses _ _ _ _ _ refl]])
  show "core_good 0 (is_core demo_contacted)"
    using fresh_core_good [OF demo_core_fresh] by (simp add: demo_contacted_def usize_mod_def)
qed (simp_all add: demo_contacted_def demo_answer_def demo_event_def cursor_new_def page_concerned_def tag_args_def
    u64_mod_def MAX_REPLAY_def)

text \<open>
  Nor does the shared tier serve one. Under the same reading of the adapter's log, within one generation, a body the
  store wrote before a foreign event that concerns it is rejected by the floor after the sync, whether the event was
  replayed (and the answer named at most \<^const>\<open>FLOOR_NAMES\<close> names) or its history was lost.
\<close>

theorem epoch_floor_rejects:
  assumes "floor_wf (co_l2_floor (is_core s))" and "raises = concat (map (\<lambda>(sq, a). event_raises js (Replayed a sq)) (foreign c r))"
    and "fl_tick (co_l2_floor (is_core s)) + length raises < u64_mod" and "card (fst ` set raises) \<le> FLOOR_NAMES"
    and "is_cursor s = Some c" and "cu_generation c = Some (si_generation r)" and "parse_since from_str json = Ok r"
    and "\<And>e. e \<in> set (si_events r) \<Longrightarrow> e = log (ev_seq e)"
    and "cu_seq c < q" and "q \<le> si_seq r" and "ev_origin (log q) \<noteq> cu_origin c"
    and "concerns (ev_args (log q)) pfx path tags" and "stamp < q"
  shows "rejects js (co_l2_floor (is_core (sync_end js from_str (Inr json) now now_ms s))) (Some stamp) pfx path tags"
proof -
  let ?same = "cu_generation c = Some (si_generation r)" and ?s' = "sync_end js from_str (Inr json) now now_ms s"
  have contact: "cu_generation c \<noteq> None" using assms(6) by simp
  have core: "is_core ?s' = sync_apply js now (fst (cursor_apply r c)) (is_core s)"
    using assms(5,7) by (simp add: sync_end_def case_prod_unfold Let_def)
  show ?thesis
  proof (cases "lost ?same (cu_seq c) r")
    case True
    have "co_l2_floor (is_core ?s') = clear_at (si_seq r) (co_l2_floor (is_core s))"
      using cursor_apply_plan(2) [OF contact True] assms(6) clear_local_l1(3) [of now "is_core s"]
      by (simp add: core sync_apply_def Let_def)
    then show ?thesis using assms(10,13) by (auto simp: rejects_iff clear_at_def split: option.splits)
  next
    case False
    let ?evs = "map (\<lambda>(sq, args). Replayed args sq) (foreign c r)"
    let ?c0 = "fold (\<lambda>_ c. count_l2 ''skipped_own'' c) [0..<length (filter (\<lambda>e. ev_origin e = cu_origin c) (si_events r))] (is_core s)"
    have "is_core ?s' = replay_all js now (foreign c r) ?c0"
      using cursor_apply_plan(3) [OF contact False] by (simp add: core sync_apply_def replay_all_def)
    moreover have "same_caches ?c0 (is_core s)" "co_l2_floor ?c0 = co_l2_floor (is_core s)"
      by (rule conjunct1 [OF fold_count_frame], rule conjunct2 [OF fold_count_frame])
    ultimately have fl: "co_l2_floor (is_core ?s') = floor_run js ?evs (co_l2_floor (is_core s))"
      using replay_all_run [of ?c0 "is_core s" js now "foreign c r"] by simp
    have raises: "concat (map (event_raises js) ?evs) = raises"
      by (simp add: assms(2) comp_def case_prod_unfold)
    have "Replayed (ev_args (log q)) q \<in> set ?evs" using foreign_has [OF False assms(7,8,9,10,11)] by force
    then show ?thesis unfolding fl
      by (intro floor_rejects_run [OF assms(1)]) (use assms(3,4,12,13) raises in \<open>simp_all only:, blast\<close>)
  qed
qed

theorem epoch_floor_rejects_witness:
  "rejects quote_json (co_l2_floor (is_core (sync_end quote_json (\<lambda>_. Inr demo_answer) (Inr ''...'') 0 0 demo_contacted)))
     (Some 0) ''en'' ''/a'' [''t'']"
proof (rule epoch_floor_rejects [where c = "(cursor_new ''me'' 1000)\<lparr>cu_generation := Some ''g''\<rparr>"
      and log = "\<lambda>_. demo_event" and q = 1, OF _ refl _ _ _ _ demo_answer_parses])
  have f: "foreign ((cursor_new ''me'' 1000)\<lparr>cu_generation := Some ''g''\<rparr>) demo_answer = [(1, tag_args ''t'')]"
    by (simp add: foreign_def demo_answer_def demo_event_def cursor_new_def)
  let ?rs = "concat (map (\<lambda>(sq, a). event_raises quote_json (Replayed a sq))
    (foreign ((cursor_new ''me'' 1000)\<lparr>cu_generation := Some ''g''\<rparr>) demo_answer))"
  have rs: "?rs = [(tag_name ''t'', 1)]" by (simp add: f raised_names_def tag_args_def)
  show "fl_tick (co_l2_floor (is_core demo_contacted)) + length ?rs < u64_mod"
    unfolding rs by (simp add: demo_contacted_def demo_core_def floor_new_def u64_mod_def)
  show "card (fst ` set ?rs) \<le> FLOOR_NAMES" unfolding rs by (simp add: FLOOR_NAMES_def)
qed (simp_all add: demo_contacted_def demo_core_def floor_wf_new demo_answer_def demo_event_def cursor_new_def
    concerns_def tag_args_def)

text \<open>A first poll that fails, a page cached meanwhile, and a second poll that answers.\<close>

definition adopt_after_failure :: "nat isolate" where
  "adopt_after_failure =
     (let s = snd (sync_begin None 5 (sync_init 1000 demo_isolate));
          s = sync_end quote_json (\<lambda>_. Inr demo_answer) (Inl ''timed out'') 0 6 s;
          s = s\<lparr>is_core := core_step quote_json (PageInsert demo_key demo_body 9 [''t''] 0 0) (is_core s)\<rparr>;
          s = snd (sync_begin None 2000 s)
      in sync_end quote_json (\<lambda>_. Inr demo_answer) (Inr ''...'') 0 2001 s)"

text \<open>
  The first answer is adopted without a replay, on the ground that nothing is cached yet. After a failed first poll that
  ground is gone: in this run a page is cached between the failed poll and the first answer, the answer's event concerns
  it, the cursor moves past the event, and the page stays in the page cache.
\<close>

theorem adopt_after_failure_keeps_page:
  "map_option cu_seq (is_cursor adopt_after_failure) = Some 1 \<and>
   page_concerned (ev_args demo_event) demo_key [''t''] \<and>
   stored (l1_store (co_l1 (is_core adopt_after_failure))) demo_key = Some (demo_body, [''t''], None)"
proof -
  have s: "adopt_after_failure =
    (let s = snd (sync_begin None 5 (sync_init 1000 demo_isolate));
         s = sync_failed 6 s;
         s = s\<lparr>is_core := core_step quote_json (PageInsert demo_key demo_body 9 [''t''] 0 0) (is_core s)\<rparr>;
         s = snd (sync_begin None 2000 s)
     in s\<lparr>is_cursor := map_option (\<lambda>c. snd (cursor_apply demo_answer c)) (is_cursor s)\<rparr>)"
    by (simp add: adopt_after_failure_def sync_end_def demo_answer_parses sync_begin_def sync_init_def cursor_begin_def
        cursor_due_def cursor_new_def sync_failed_def cursor_fail_def cursor_apply_def sync_apply_def demo_isolate_def Let_def)
  show ?thesis unfolding s
    by (simp add: core_demo_simps sync_begin_def sync_init_def cursor_begin_def demo_event_def page_concerned_def
        cursor_due_def cursor_new_def sync_failed_def cursor_fail_def cursor_apply_def demo_isolate_def count_l2_def
        demo_answer_def)
qed

end
