(* ===== verification/Node.thy ===== *)
theory Node
  imports Numbers "HOL-Library.Char_ord" "HOL-Library.List_Lexorder" "HOL-Library.Multiset"
begin

text \<open>
  The render tree (\<^verbatim>\<open>crates/brust-jinja/src/ctx.rs\<close>): the values a worker response is parsed into, what
  the pipeline reads and edits, and how they are written back. A \<^verbatim>\<open>BTreeMap\<close> is an association list
  sorted by key (byte order); a map remembers the key order of the JSON text it was parsed from when that order is not
  the sorted one. \<^verbatim>\<open>serde_json::Number\<close> is a type variable, its text an argument. The sharing of subtrees
  (\<^verbatim>\<open>Arc\<close>, copied on write) is not observable and not modelled.
\<close>

section \<open>Sorted maps\<close>

type_synonym 'v btree = "(string \<times> 'v) list"

fun bm_insert :: "string \<Rightarrow> 'v \<Rightarrow> 'v btree \<Rightarrow> 'v btree" where
  "bm_insert k v [] = [(k, v)]"
| "bm_insert k v ((l, w) # m) =
     (if k < l then (k, v) # (l, w) # m
      else if k = l then (k, v) # m
      else (l, w) # bm_insert k v m)"

definition bm_wf :: "'v btree \<Rightarrow> bool" where
  "bm_wf m \<longleftrightarrow> sorted_wrt (<) (map fst m)"

lemma bm_wf_Nil [simp]: "bm_wf []"
  by (simp add: bm_wf_def)

lemma bm_wf_Cons [simp]: "bm_wf ((k, v) # m) \<longleftrightarrow> (\<forall>l\<in>fst ` set m. k < l) \<and> bm_wf m"
  by (auto simp: bm_wf_def)

lemma bm_wf_distinct: "bm_wf m \<Longrightarrow> distinct (map fst m)"
  unfolding bm_wf_def by (simp add: strict_sorted_iff)

lemma fst_bm_insert [simp]: "fst ` set (bm_insert k v m) = insert k (fst ` set m)"
  by (induction k v m rule: bm_insert.induct) auto

lemma bm_wf_insert [simp]: "bm_wf m \<Longrightarrow> bm_wf (bm_insert k v m)"
  by (induction k v m rule: bm_insert.induct) (auto dest: less_trans simp: not_less_iff_gr_or_eq)

lemma map_of_bm_insert [simp]: "map_of (bm_insert k v m) = (map_of m)(k \<mapsto> v)"
  by (induction k v m rule: bm_insert.induct) (auto simp: fun_eq_iff)

lemma bm_eqI:
  assumes "bm_wf m" and "bm_wf m'" and "map_of m = map_of m'"
  shows "m = m'"
proof -
  have "fst ` set m = fst ` set m'"
    using assms(3) by (metis dom_map_of_conv_image_fst)
  then have keys: "map fst m = map fst m'"
    using assms(1,2) by (auto simp: bm_wf_def strict_sorted_iff intro: sorted_distinct_set_unique)
  have "x = y" if "(x, y) \<in> set (zip m m')" for x y
  proof -
    obtain i where i: "i < length m" "i < length m'" "x = m ! i" "y = m' ! i"
      using \<open>(x, y) \<in> set (zip m m')\<close> by (auto simp: set_zip)
    have f: "fst x = fst y"
      using keys i by (metis nth_map)
    have "map_of m (fst x) = Some (snd x)" "map_of m' (fst y) = Some (snd y)"
      using i assms(1,2)[THEN bm_wf_distinct] by (auto intro!: map_of_is_SomeI)
    then show "x = y" using f assms(3) by (simp add: prod_eq_iff)
  qed
  moreover have "length m = length m'"
    using keys by (metis length_map)
  ultimately show ?thesis
    by (auto simp: list_eq_iff_zip_eq)
qed

section \<open>The tree\<close>

datatype 'n node =
    NNull
  | NBool bool
  | NNum 'n
  | NStr string
  | NArr "'n node list"
  | NMap "'n node btree" "string option"

text \<open>\<^verbatim>\<open>CtxMap\<close> is the pair of a map's entries and its key order.\<close>

type_synonym 'n map_inner = "'n node btree"

definition node_map :: "'n map_inner \<Rightarrow> 'n node" where
  "node_map m = NMap m None"

fun node_get :: "'n node \<Rightarrow> string \<Rightarrow> 'n node option" where
  "node_get (NMap m _) key = map_of m key"
| "node_get _ key = None"

fun node_index :: "'n node \<Rightarrow> nat \<Rightarrow> 'n node option" where
  "node_index (NArr a) i = (if i < length a then Some (a ! i) else None)"
| "node_index _ i = None"

fun as_map :: "'n node \<Rightarrow> 'n map_inner option" where
  "as_map (NMap m _) = Some m"
| "as_map _ = None"

fun as_arr :: "'n node \<Rightarrow> 'n node list option" where
  "as_arr (NArr a) = Some a"
| "as_arr _ = None"

fun is_map :: "'n node \<Rightarrow> bool" where
  "is_map (NMap _ _) = True"
| "is_map _ = False"

fun is_str :: "'n node \<Rightarrow> bool" where
  "is_str (NStr _) = True"
| "is_str _ = False"

text \<open>\<^verbatim>\<open>map_mut\<close>: a write to the map's entries; the remembered order stays.\<close>

fun map_mut :: "('n map_inner \<Rightarrow> 'n map_inner) \<Rightarrow> 'n node \<Rightarrow> 'n node" where
  "map_mut f (NMap m order) = NMap (f m) order"
| "map_mut f v = v"

section \<open>Key order\<close>

text \<open>\<^verbatim>\<open>each_ordered\<close>: the entries in the order the visitor sees them.\<close>

definition NUL :: char where
  "NUL = CHR 0x00"

definition each_ordered :: "'v btree \<Rightarrow> string option \<Rightarrow> (string \<times> 'v) list" where
  "each_ordered m hint =
     (case hint of
        None \<Rightarrow> m
      | Some order \<Rightarrow>
          let hinted = List.map_filter (\<lambda>k. map_option (Pair k) (map_of m k)) (split_char NUL order)
          in hinted @
             (if length hinted < length m
              then filter (\<lambda>(k, _). k \<notin> set (split_char NUL order)) m else []))"

text \<open>\<^verbatim>\<open>is_array_index\<close> of \<^verbatim>\<open>filters/spread.rs\<close>; the text is \<^verbatim>\<open>parse::<u64>\<close>d.\<close>

definition is_array_index :: "string \<Rightarrow> bool" where
  "is_array_index k \<longleftrightarrow>
     k = ''0'' \<or>
     \<not> starts_with k ''0'' \<and> length k \<le> 10 \<and> list_all is_ascii_digit k \<and>
       (case parse_u64 k of Some n \<Rightarrow> n < 2 ^ 32 - 1 | None \<Rightarrow> False)"

text \<open>\<^verbatim>\<open>visit_map\<close>: the loop over the entries of an object in the text, then the two passes over the order.\<close>

record 'n map_visit =
  mv_map :: "'n map_inner"
  mv_order :: "string option"
  mv_pushed :: nat
  mv_skip :: bool

definition visit_entry :: "string \<times> 'n node \<Rightarrow> 'n map_visit \<Rightarrow> 'n map_visit" where
  "visit_entry e s =
     (let (k, v) = e; m = mv_map s;
          s = (case mv_order s of
                 Some order \<Rightarrow>
                   s\<lparr>mv_skip := mv_skip s \<or> NUL \<in> set k, mv_order := Some (order @ NUL # k),
                     mv_pushed := mv_pushed s + 1\<rparr>
               | None \<Rightarrow>
                   if m \<noteq> [] \<and> k \<le> fst (last m) \<and> fst (last m) \<noteq> k then
                     let known = k \<in> fst ` set m
                     in s\<lparr>mv_skip := mv_skip s \<or> list_ex (\<lambda>(key, _). NUL \<in> set key) m \<or>
                                       (\<not> known \<and> NUL \<in> set k),
                          mv_order := Some (join_with [NUL] (map fst m) @ (if known then [] else NUL # k)),
                          mv_pushed := length m + (if known then 0 else 1)\<rparr>
                   else s)
      in s\<lparr>mv_map := bm_insert k v m\<rparr>)"

text \<open>\<^verbatim>\<open>filter(|k| seen.insert(*k))\<close>: the first of equal keys stays.\<close>

fun firsts :: "'a list \<Rightarrow> 'a list" where
  "firsts [] = []"
| "firsts (x # xs) = x # filter (\<lambda>y. y \<noteq> x) (firsts xs)"

definition drop_repeats :: "'n map_visit \<Rightarrow> string option" where
  "drop_repeats s =
     (let order = map_option (\<lambda>order.
            if mv_pushed s \<noteq> length (mv_map s) then join_with [NUL] (firsts (split_char NUL order)) else order)
            (mv_order s)
      in if mv_skip s then None else order)"

definition index_key :: "string \<Rightarrow> nat" where
  "index_key k = (case parse_u64 k of Some n \<Rightarrow> n | None \<Rightarrow> 0)"

definition index_keys_first :: "bool \<Rightarrow> 'n map_inner \<Rightarrow> string option \<Rightarrow> string option" where
  "index_keys_first skip m order =
     (if \<not> skip \<and> list_ex (\<lambda>(k, _). case k of c # _ \<Rightarrow> is_ascii_digit c | [] \<Rightarrow> False) m \<and>
         list_ex (\<lambda>(k, _). is_array_index k) m then
        let keys = (case order of Some order \<Rightarrow> split_char NUL order | None \<Rightarrow> map fst m);
            idx = sort_key index_key (filter is_array_index keys) @ filter (\<lambda>k. \<not> is_array_index k) keys;
            is_sorted = list_all (\<lambda>(a, b). a = b) (zip idx (map fst m))
        in if is_sorted then None else Some (join_with [NUL] idx)
      else order)"

definition visit_map :: "(string \<times> 'n node) list \<Rightarrow> 'n node" where
  "visit_map es =
     (let s = fold visit_entry es \<lparr>mv_map = [], mv_order = None, mv_pushed = 0, mv_skip = False\<rparr>
      in NMap (mv_map s) (index_keys_first (mv_skip s) (mv_map s) (drop_repeats s)))"

section \<open>The order of a parsed object\<close>

lemma set_firsts [simp]: "set (firsts xs) = set xs"
  by (induction xs) auto

lemma distinct_firsts [simp]: "distinct (firsts xs)"
  by (induction xs) auto

lemma firsts_snoc: "firsts (xs @ [y]) = (if y \<in> set xs then firsts xs else firsts xs @ [y])"
  by (induction xs) auto

lemma firsts_distinct: "distinct xs \<Longrightarrow> firsts xs = xs"
proof (induction xs)
  case (Cons x xs)
  then show ?case by (auto simp: filter_id_conv)
qed simp

lemma length_firsts: "length (firsts xs) = card (set xs)"
  using distinct_card [of "firsts xs"] by simp

text \<open>JavaScript's order: canonical array indices ascending, then the other keys in the order they were first written.\<close>

definition js_order :: "string list \<Rightarrow> string list" where
  "js_order ks = sort_key index_key (filter is_array_index ks) @ filter (\<lambda>k. \<not> is_array_index k) ks"

lemma set_js_order [simp]: "set (js_order ks) = set ks"
  by (auto simp: js_order_def)

lemma distinct_js_order: "distinct ks \<Longrightarrow> distinct (js_order ks)"
  by (auto simp: js_order_def)

lemma js_order_no_index: "\<not> list_ex is_array_index ks \<Longrightarrow> js_order ks = ks"
  by (auto simp: js_order_def list_ex_iff filter_id_conv filter_empty_conv)

lemma array_index_digit: "is_array_index k \<Longrightarrow> \<exists>c r. k = c # r \<and> is_ascii_digit c"
  by (cases k) (auto simp: is_array_index_def parse_u64_def parse_below_def is_ascii_digit_def)

definition read_keys :: "(string \<times> 'v) list \<Rightarrow> string list \<Rightarrow> (string \<times> 'v) list" where
  "read_keys m ks = map (\<lambda>k. (k, the (map_of m k))) ks"

lemma read_keys_self: "distinct (map fst m) \<Longrightarrow> read_keys m (map fst m) = m"
  unfolding read_keys_def by (auto simp: o_def intro!: map_idI)

lemma read_keys_cong: "map_of m = map_of m' \<Longrightarrow> read_keys m ks = read_keys m' ks"
  by (simp add: read_keys_def)

lemma map_filter_present:
  "set ks \<subseteq> fst ` set m \<Longrightarrow> List.map_filter (\<lambda>k. map_option (Pair k) (map_of m k)) ks = read_keys m ks"
proof (induction ks)
  case (Cons k ks)
  then obtain v where "map_of m k = Some v"
    by (auto simp: map_of_eq_None_iff dest: weak_map_of_SomeI)
  then show ?case using Cons by (simp add: List.map_filter_simps read_keys_def)
qed (simp add: List.map_filter_simps read_keys_def)

lemma each_ordered_hint:
  assumes "distinct ks" and "ks \<noteq> []" and "set ks = fst ` set m" and "bm_wf m" and "\<And>k. k \<in> set ks \<Longrightarrow> NUL \<notin> set k"
  shows "each_ordered m (Some (join_with [NUL] ks)) = read_keys m ks"
proof -
  have "split_char NUL (join_with [NUL] ks) = ks"
    using assms(2,5) by (rule split_join_with)
  moreover have "length ks = length m"
    using assms(1,3) bm_wf_distinct [OF assms(4)] distinct_card [of ks] distinct_card [of "map fst m"] by simp
  ultimately show ?thesis
    using assms(3) by (simp add: each_ordered_def Let_def map_filter_present) (simp add: read_keys_def)
qed

definition visit_inv :: "(string \<times> 'n node) list \<Rightarrow> 'n map_visit \<Rightarrow> bool" where
  "visit_inv es s \<longleftrightarrow>
     bm_wf (mv_map s) \<and> map_of (mv_map s) = map_of (rev es) \<and> \<not> mv_skip s \<and>
     (case mv_order s of
        None \<Rightarrow> map fst (mv_map s) = firsts (map fst es)
      | Some order \<Rightarrow> \<exists>ks. ks \<noteq> [] \<and> order = join_with [NUL] ks \<and> length ks = mv_pushed s \<and>
          firsts ks = firsts (map fst es))"

lemma join_with_snoc: "ks \<noteq> [] \<Longrightarrow> join_with sep (ks @ [k]) = join_with sep ks @ sep @ k"
  by (induction ks rule: induct_list012) auto

lemma bm_insert_above: "bm_wf m \<Longrightarrow> m = [] \<or> fst (last m) < k \<Longrightarrow> bm_insert k v m = m @ [(k, v)]"
proof (induction k v m rule: bm_insert.induct)
  case (2 k v l w m)
  then have "l < k"
    by (cases "m = []") (force dest: less_trans last_in_set)+
  then show ?case using 2 by (auto split: if_splits)
qed simp

lemma bm_insert_known: "bm_wf m \<Longrightarrow> k \<in> fst ` set m \<Longrightarrow> map fst (bm_insert k v m) = map fst m"
  by (induction k v m rule: bm_insert.induct) (auto dest: less_trans)

lemma keys_of_rev: "map_of m = map_of (rev es) \<Longrightarrow> fst ` set m = fst ` set es"
  by (metis dom_map_of_conv_image_fst set_rev)

lemma visit_inv_entry:
  assumes "visit_inv es s" and "\<And>k. k \<in> fst ` set (es @ [e]) \<Longrightarrow> NUL \<notin> set k"
  shows "visit_inv (es @ [e]) (visit_entry e s)"
proof -
  obtain k v where e: "e = (k, v)" by fastforce
  have inv: "bm_wf (mv_map s)" "map_of (mv_map s) = map_of (rev es)" "\<not> mv_skip s"
    using assms(1) by (simp_all add: visit_inv_def)
  have keys: "fst ` set (mv_map s) = fst ` set es"
    using inv(2) by (rule keys_of_rev)
  have clean: "NUL \<notin> set k" "\<forall>(l, _)\<in>set (mv_map s). NUL \<notin> set l"
    using assms(2) keys unfolding e by auto (metis UnCI fst_conv image_eqI)
  show ?thesis
  proof (cases "mv_order s")
    case (Some order)
    then obtain ks where ks: "ks \<noteq> []" "order = join_with [NUL] ks" "length ks = mv_pushed s" "firsts ks = firsts (map fst es)"
      using assms(1) by (auto simp: visit_inv_def)
    have "set ks = fst ` set es" using ks(4) by (metis set_firsts set_map)
    then have "\<exists>ks'. ks' \<noteq> [] \<and> order @ NUL # k = join_with [NUL] ks' \<and> length ks' = Suc (mv_pushed s) \<and>
        firsts ks' = firsts (map fst es @ [k])"
      using ks by (intro exI [of _ "ks @ [k]"]) (simp add: join_with_snoc firsts_snoc)
    then show ?thesis
      using Some inv clean unfolding e by (simp add: visit_inv_def visit_entry_def Let_def)
  next
    case None
    then have f: "map fst (mv_map s) = firsts (map fst es)"
      using assms(1) by (simp add: visit_inv_def)
    show ?thesis
    proof (cases "mv_map s \<noteq> [] \<and> k \<le> fst (last (mv_map s)) \<and> fst (last (mv_map s)) \<noteq> k")
      case True
      let ?ks = "map fst (mv_map s) @ (if k \<in> fst ` set (mv_map s) then [] else [k])"
      have "firsts ?ks = firsts (map fst es @ [k])"
        using f keys bm_wf_distinct [OF inv(1)] by (auto simp: firsts_snoc firsts_distinct)
      moreover have "join_with [NUL] ?ks = join_with [NUL] (map fst (mv_map s)) @
          (if k \<in> fst ` set (mv_map s) then [] else NUL # k)"
        using True by (simp add: join_with_snoc)
      ultimately have "\<exists>ks'. ks' \<noteq> [] \<and> join_with [NUL] (map fst (mv_map s)) @ (if k \<in> fst ` set (mv_map s) then [] else NUL # k)
            = join_with [NUL] ks' \<and>
          length ks' = length (mv_map s) + (if k \<in> fst ` set (mv_map s) then 0 else 1) \<and> firsts ks' = firsts (map fst es @ [k])"
        using True by (intro exI [of _ ?ks]) auto
      then show ?thesis
        using None inv clean True unfolding e visit_inv_def visit_entry_def
        by (auto simp: Let_def list_ex_iff)
    next
      case False
      have "map fst (bm_insert k v (mv_map s)) = firsts (map fst es @ [k])"
      proof (cases "k \<in> fst ` set (mv_map s)")
        case True
        then show ?thesis using inv(1) f keys by (auto simp: bm_insert_known firsts_snoc)
      next
        case new: False
        then have "mv_map s = [] \<or> fst (last (mv_map s)) < k"
          using False by (auto simp: not_le)
        then show ?thesis using inv(1) f keys new by (auto simp: bm_insert_above firsts_snoc)
      qed
      then show ?thesis
        using None inv False unfolding e by (auto simp: visit_inv_def visit_entry_def Let_def)
    qed
  qed
qed

lemma visit_inv_fold:
  assumes "\<And>k. k \<in> fst ` set es \<Longrightarrow> NUL \<notin> set k"
  shows "visit_inv es (fold visit_entry es \<lparr>mv_map = [], mv_order = None, mv_pushed = 0, mv_skip = False\<rparr>)"
  using assms
proof (induction es rule: rev_induct)
  case (snoc e es)
  then show ?case using visit_inv_entry [of es _ e] by auto
qed (simp add: visit_inv_def)

lemma js_order_same_keys:
  assumes "list_all (\<lambda>(a, b). a = b) (zip ks ls)" and "length ks = length ls"
  shows "ks = ls"
  using assms by (auto simp: list_eq_iff_zip_eq list_all_iff)

lemma index_keys_first_order:
  assumes m: "bm_wf m" and ks: "ks = (case order of Some order \<Rightarrow> split_char NUL order | None \<Rightarrow> map fst m)"
    and d: "distinct ks" "set ks = fst ` set m" "order \<noteq> None \<Longrightarrow> ks \<noteq> []"
    and clean: "\<And>k. k \<in> set ks \<Longrightarrow> NUL \<notin> set k"
  shows "each_ordered m (index_keys_first False m order) = read_keys m (js_order ks)"
proof -
  have len: "length (js_order ks) = length m"
    using d bm_wf_distinct [OF m] distinct_card [of "js_order ks"] distinct_card [of "map fst m"]
    by (simp add: distinct_js_order)
  show ?thesis
  proof (cases "list_ex is_array_index ks")
    case True
    then obtain k where k: "k \<in> set ks" "is_array_index k" by (auto simp: list_ex_iff)
    then have first: "list_ex (\<lambda>(k, _). case k of c # _ \<Rightarrow> is_ascii_digit c | [] \<Rightarrow> False) m"
        "list_ex (\<lambda>(k, _). is_array_index k) m"
      using array_index_digit [OF k(2)] k d(2) by (auto simp: list_ex_iff image_iff split: prod.splits) force+
    have nonempty: "js_order ks \<noteq> []" using k(1) set_js_order [of ks] by (metis empty_iff empty_set)
    show ?thesis
    proof (cases "list_all (\<lambda>(a, b). a = b) (zip (js_order ks) (map fst m))")
      case sorted: True
      then have "js_order ks = map fst m" using js_order_same_keys len by fastforce
      then show ?thesis
        using first sorted ks bm_wf_distinct [OF m]
        by (simp add: index_keys_first_def js_order_def Let_def each_ordered_def read_keys_self)
    next
      case False
      then have "index_keys_first False m order = Some (join_with [NUL] (js_order ks))"
        using first ks by (simp add: index_keys_first_def js_order_def Let_def)
      then show ?thesis
        using each_ordered_hint [OF distinct_js_order [OF d(1)] nonempty _ m] d(2) clean by simp
    qed
  next
    case False
    then have "\<not> list_ex (\<lambda>(k, _). is_array_index k) m"
      using d(2) by (fastforce simp: list_ex_iff)
    then have same: "index_keys_first False m order = order"
      by (auto simp: index_keys_first_def)
    show ?thesis
    proof (cases order)
      case None
      then show ?thesis
        using same False ks bm_wf_distinct [OF m] by (simp add: js_order_no_index each_ordered_def read_keys_self)
    next
      case (Some written)
      then have "join_with [NUL] ks = written" using ks by (simp add: join_split_char)
      then show ?thesis
        using each_ordered_hint [OF d(1) _ d(2) m clean] Some same False d(3) by (simp add: js_order_no_index)
    qed
  qed
qed

lemma visit_map_keys:
  assumes "\<And>k. k \<in> fst ` set es \<Longrightarrow> NUL \<notin> set k"
  obtains m hint where "visit_map es = NMap m hint" and "bm_wf m" and "map_of m = map_of (rev es)"
    and "each_ordered m hint = read_keys (rev es) (js_order (firsts (map fst es)))"
proof -
  define s where "s = fold visit_entry es \<lparr>mv_map = [], mv_order = None, mv_pushed = 0, mv_skip = False\<rparr>"
  have inv: "visit_inv es s" unfolding s_def using assms by (rule visit_inv_fold)
  then have m: "bm_wf (mv_map s)" "map_of (mv_map s) = map_of (rev es)" "\<not> mv_skip s"
    by (simp_all add: visit_inv_def)
  have keys: "fst ` set (mv_map s) = fst ` set es" using m(2) by (rule keys_of_rev)
  let ?ks = "case drop_repeats s of Some order \<Rightarrow> split_char NUL order | None \<Rightarrow> map fst (mv_map s)"
  have "?ks = firsts (map fst es) \<and> (drop_repeats s \<noteq> None \<longrightarrow> firsts (map fst es) \<noteq> [])"
  proof (cases "mv_order s")
    case None
    then show ?thesis using inv by (simp add: drop_repeats_def visit_inv_def)
  next
    case (Some order)
    then obtain ks where ks: "ks \<noteq> []" "order = join_with [NUL] ks" "length ks = mv_pushed s" "firsts ks = firsts (map fst es)"
      using inv by (auto simp: visit_inv_def)
    have set_ks: "set ks = fst ` set es" using ks(4) by (metis set_firsts set_map)
    then have split: "split_char NUL order = ks"
      unfolding ks(2) using assms by (intro split_join_with [OF ks(1)]) auto
    have "firsts ks \<noteq> []" using ks(1) by (cases ks) auto
    then have split_firsts: "split_char NUL (join_with [NUL] (firsts ks)) = firsts ks"
      using assms set_ks by (intro split_join_with) auto
    have "length (mv_map s) = card (set ks)"
      using bm_wf_distinct [OF m(1)] distinct_card [of "map fst (mv_map s)"] keys set_ks by simp
    then have "distinct ks" if "mv_pushed s = length (mv_map s)"
      using that ks(3) by (simp add: card_distinct)
    then show ?thesis
      using Some m(3) split split_firsts ks(4) \<open>firsts ks \<noteq> []\<close>
      by (auto simp: drop_repeats_def Let_def firsts_distinct)
  qed
  then have "each_ordered (mv_map s) (index_keys_first False (mv_map s) (drop_repeats s)) =
      read_keys (mv_map s) (js_order (firsts (map fst es)))"
    using index_keys_first_order [OF m(1), of "firsts (map fst es)" "drop_repeats s"] keys assms by simp
  then show ?thesis
    using that [of "mv_map s" "index_keys_first False (mv_map s) (drop_repeats s)"] m
      read_keys_cong [OF m(2), of "js_order (firsts (map fst es))"]
    by (simp add: visit_map_def s_def Let_def)
qed

text \<open>
  A parsed object is enumerated the way JavaScript enumerates it, each key once with its last value: canonical
  array indices ascending, then the other keys in the order of their first place in the text. For objects
  whose keys hold no NUL character.
\<close>

theorem visit_map_js_order:
  assumes "list_all (\<lambda>(k, _). NUL \<notin> set k) es" and "visit_map es = NMap m hint"
  shows "each_ordered m hint = map (\<lambda>k. (k, the (map_of (rev es) k))) (js_order (firsts (map fst es)))"
proof -
  have clean: "\<And>k. k \<in> fst ` set es \<Longrightarrow> NUL \<notin> set k"
    using assms(1) by (auto simp: list_all_iff)
  obtain m' hint' where v: "visit_map es = NMap m' hint'"
    and order: "each_ordered m' hint' = read_keys (rev es) (js_order (firsts (map fst es)))"
    by (rule visit_map_keys [OF clean])
  have "m' = m" "hint' = hint" using v assms(2) by simp_all
  then show ?thesis using order by (simp add: read_keys_def)
qed

lemma demo_digits [simp]: "digits_value ''10'' = 10" "digits_value ''2'' = 2"
  by (simp_all add: digits_value_def)

lemma demo_numbers [simp]: "parse_u64 ''10'' = Some 10" "parse_u64 ''2'' = Some 2"
  by (simp_all add: parse_u64_def parse_below_def u64_mod_def is_ascii_digit_def)

lemma demo_indices [simp]:
  "is_array_index ''10''" "is_array_index ''2''" "\<not> is_array_index ''b''" "index_key ''10'' = 10" "index_key ''2'' = 2"
  by (simp_all add: is_array_index_def index_key_def is_ascii_digit_def starts_with_def)

theorem visit_map_js_order_witness:
  "\<exists>m hint. visit_map [(''b'', NNum (1::nat)), (''10'', NNull), (''2'', NNull), (''b'', NNum 7)] = NMap m hint \<and>
     each_ordered m hint = [(''2'', NNull), (''10'', NNull), (''b'', NNum 7)]"
proof (intro exI conjI)
  let ?es = "[(''b'', NNum (1::nat)), (''10'', NNull), (''2'', NNull), (''b'', NNum 7)]"
  let ?m = "[(''10'', NNull), (''2'', NNull), (''b'', NNum (7::nat))]"
  show v: "visit_map ?es = NMap ?m (Some (''2'' @ NUL # ''10'' @ NUL # ''b''))"
    by (simp add: visit_map_def visit_entry_def drop_repeats_def index_keys_first_def NUL_def byte_simps Let_def)
  have "each_ordered ?m (Some (''2'' @ NUL # ''10'' @ NUL # ''b'')) =
      map (\<lambda>k. (k, the (map_of (rev ?es) k))) (js_order (firsts (map fst ?es)))"
    by (rule visit_map_js_order [OF _ v]) (simp add: NUL_def)
  also have "\<dots> = [(''2'', NNull), (''10'', NNull), (''b'', NNum 7)]"
    by (simp add: js_order_def)
  finally show "each_ordered ?m (Some (''2'' @ NUL # ''10'' @ NUL # ''b'')) = [(''2'', NNull), (''10'', NNull), (''b'', NNum (7::nat))]" .
qed

section \<open>Serde\<close>

text \<open>
  A JSON value as \<^verbatim>\<open>serde\<close> hands it over, the members of an object in their order. \<open>serialize\<close> is
  \<^verbatim>\<open>Node\<close>'s own form (sorted keys), \<open>ordered\<close> that of the wrapper \<^verbatim>\<open>Ordered\<close>,
  \<open>deserialize\<close> the visitor.
\<close>

datatype 'n jval =
    VNull
  | VBool bool
  | VNum 'n
  | VStr string
  | VArr "'n jval list"
  | VObj "(string \<times> 'n jval) list"

lemma set_each_ordered: "set (each_ordered m hint) \<subseteq> set m"
  by (auto simp: each_ordered_def Let_def List.map_filter_def dest: map_of_SomeD split: option.splits)

lemma size_btree: "(k, v) \<in> set m \<Longrightarrow> size v < Suc (size_list (size_prod (\<lambda>_. 0) size) m + (n :: nat))"
  by (induction m) auto

fun serialize :: "'n node \<Rightarrow> 'n jval" where
  "serialize NNull = VNull"
| "serialize (NBool b) = VBool b"
| "serialize (NNum n) = VNum n"
| "serialize (NStr s) = VStr s"
| "serialize (NArr a) = VArr (map serialize a)"
| "serialize (NMap m hint) = VObj (map (\<lambda>(k, v). (k, serialize v)) m)"

function ordered :: "'n node \<Rightarrow> 'n jval" where
  "ordered NNull = VNull"
| "ordered (NBool b) = VBool b"
| "ordered (NNum n) = VNum n"
| "ordered (NStr s) = VStr s"
| "ordered (NArr a) = VArr (map ordered a)"
| "ordered (NMap m hint) = VObj (map (\<lambda>(k, v). (k, ordered v)) (each_ordered m hint))"
  by pat_completeness auto
termination
proof (relation "measure size", goal_cases)
  case (2 a x)
  then show ?case by (auto simp: size_list_estimation' less_Suc_eq_le)
next
  case (3 m hint e k v)
  then have "(k, v) \<in> set m" using subsetD [OF set_each_ordered] by simp
  from size_btree [OF this, of 0] show ?case by simp
qed simp

fun deserialize :: "'n jval \<Rightarrow> 'n node" where
  "deserialize VNull = NNull"
| "deserialize (VBool b) = NBool b"
| "deserialize (VNum n) = NNum n"
| "deserialize (VStr s) = NStr s"
| "deserialize (VArr a) = NArr (map deserialize a)"
| "deserialize (VObj es) = visit_map (map (\<lambda>(k, v). (k, deserialize v)) es)"

text \<open>\<^verbatim>\<open>From<serde_json::Value>\<close>: the entries are collected into a sorted map, with no order.\<close>

fun from_json :: "'n jval \<Rightarrow> 'n node" where
  "from_json VNull = NNull"
| "from_json (VBool b) = NBool b"
| "from_json (VNum n) = NNum n"
| "from_json (VStr s) = NStr s"
| "from_json (VArr a) = NArr (map from_json a)"
| "from_json (VObj es) = node_map (fold (\<lambda>(k, v) m. bm_insert k v m) (map (\<lambda>(k, v). (k, from_json v)) es) [])"

text \<open>What \<^verbatim>\<open>JSON.stringify\<close> writes: objects with distinct keys in JavaScript's order (and here without NUL).\<close>

fun stringified :: "'n jval \<Rightarrow> bool" where
  "stringified (VArr a) = list_all stringified a"
| "stringified (VObj es) =
     (distinct (map fst es) \<and> js_order (map fst es) = map fst es \<and> list_all (\<lambda>(k, _). NUL \<notin> set k) es \<and>
      list_all (\<lambda>(_, v). stringified v) es)"
| "stringified _ = True"

lemma read_keys_rev:
  assumes "distinct (map fst es)"
  shows "read_keys (rev es) (map fst es) = es"
proof -
  have "map_of (rev es) = map_of es"
    using assms by (metis distinct_rev map_of_eqI map_of_inject_set rev_map set_rev)
  then show ?thesis
    using read_keys_self [OF assms] by (simp add: read_keys_def)
qed

text \<open>
  C37: What \<^verbatim>\<open>JSON.stringify\<close> wrote comes back the same: a value parsed into the render tree and written
  through \<^verbatim>\<open>Ordered\<close> has the same members in the same order at every level, so a job and its cache key see
  the key order the loader chose.
\<close>

theorem ordered_deserialize:
  assumes "stringified v"
  shows "ordered (deserialize v) = v"
  using assms
proof (induction v rule: deserialize.induct)
  case (5 a)
  then show ?case by (simp add: list_all_iff map_idI)
next
  case (6 es)
  let ?es = "map (\<lambda>(k, v). (k, deserialize v)) es"
  have keys: "map fst ?es = map fst es" by (simp add: case_prod_unfold)
  have clean: "\<And>k. k \<in> fst ` set ?es \<Longrightarrow> NUL \<notin> set k"
    using 6(2) by (auto simp: list_all_iff)
  obtain m hint where v: "visit_map ?es = NMap m hint"
    and order: "each_ordered m hint = read_keys (rev ?es) (js_order (firsts (map fst ?es)))"
    by (rule visit_map_keys [OF clean])
  have "each_ordered m hint = ?es"
    unfolding order keys using 6(2) read_keys_rev [of ?es, unfolded keys] by (simp add: firsts_distinct)
  then have "ordered (deserialize (VObj es)) = VObj (map (\<lambda>(k, v). (k, ordered v)) ?es)"
    using v by simp
  also have "map (\<lambda>(k, v). (k, ordered v)) ?es = es"
    using 6 by (auto simp: list_all_iff case_prod_unfold intro!: map_idI)
  finally show ?case .
qed simp_all

theorem ordered_deserialize_witness:
  "ordered (deserialize (VObj [(''2'', VNull), (''b'', VArr [VNum (1::nat)]), (''a'', VNull)])) =
     VObj [(''2'', VNull), (''b'', VArr [VNum 1]), (''a'', VNull)]"
proof (rule ordered_deserialize)
  have "\<not> is_array_index ''a''" by (simp add: is_array_index_def is_ascii_digit_def)
  then show "stringified (VObj [(''2'', VNull), (''b'', VArr [VNum (1::nat)]), (''a'', VNull)])"
    by (simp add: js_order_def NUL_def)
qed

text \<open>
  An object with a NUL in a key is documented to carry no order. When its keys come sorted and one is an array index,
  the order is written all the same, and the key with the NUL is read as two: an entry is enumerated twice and another
  not at all.
\<close>

lemma nul_key_lost:
  "\<exists>m hint. visit_map [(''10'', NNull), (''2'', NNull), (''a'', NBool True), (''a'' @ NUL # ''b'', NNum (1 :: nat))] = NMap m hint \<and>
     map_of m (''a'' @ NUL # ''b'') = Some (NNum 1) \<and>
     each_ordered m hint = [(''2'', NNull), (''10'', NNull), (''a'', NBool True), (''a'', NBool True)]"
proof -
  have "\<not> is_array_index ''a''" "\<not> is_array_index (''a'' @ NUL # ''b'')"
    by (simp_all add: is_array_index_def is_ascii_digit_def)
  then show ?thesis
    by (simp add: visit_map_def visit_entry_def drop_repeats_def index_keys_first_def NUL_def Let_def is_ascii_digit_def
        each_ordered_def List.map_filter_simps)
qed

end
