(* ===== verification/Inputs.thy ===== *)
theory Inputs
  imports Node
begin

text \<open>
  The inputs of jobs (\<^verbatim>\<open>crates/brust-core/src/inputs.rs\<close>): paths into the context, branch conditions, the
  projection of the values a job reads, the props of a child and the automatic cache key. A 64-bit \<^verbatim>\<open>usize\<close>
  indexes arrays. The floating-point view of a number, compiled template expressions, the JSON printer and
  \<^verbatim>\<open>blake3\<close> are arguments. Error texts are the constructors of \<open>input_error\<close>, which carry what the texts print.
\<close>

section \<open>Paths\<close>

datatype seg = Key string | Index nat | Idx

type_synonym path = "seg list"

datatype input_error =
    EmptySegment string
  | AfterBracket string string
  | Unclosed string
  | BadIndex string string
  | IdxOutsideRow string
  | ChildIdx string string
  | BadExpr string string string

function parse_brackets :: "string \<Rightarrow> string \<Rightarrow> input_error + seg list" where
  "parse_brackets orig [] = Ok []"
| "parse_brackets orig (c # r) =
     (if c \<noteq> CHR ''['' then Err (AfterBracket orig (c # r))
      else case split_once_char (CHR '']'') r of
        None \<Rightarrow> Err (Unclosed orig)
      | Some (n, rest) \<Rightarrow>
          bind_result (if n = ''idx'' then Ok Idx
                       else case parse_u64 n of Some i \<Rightarrow> Ok (Index i) | None \<Rightarrow> Err (BadIndex orig n))
            (\<lambda>s. bind_result (parse_brackets orig rest) (\<lambda>ss. Ok (s # ss))))"
  by pat_completeness auto
termination
  by (relation "measure (length \<circ> snd)") (auto simp: split_once_char_Some)

definition parse_part :: "string \<Rightarrow> string \<Rightarrow> input_error + seg list" where
  "parse_part orig part =
     (let head = takeWhile (\<lambda>c. c \<noteq> CHR ''['') part; rest = dropWhile (\<lambda>c. c \<noteq> CHR ''['') part
      in if head = [] then Err (EmptySegment orig)
         else bind_result (parse_brackets orig rest) (\<lambda>ss. Ok (Key head # ss)))"

definition path_parse :: "string \<Rightarrow> input_error + path" where
  "path_parse s =
     (let orig = s; s = (case strip_prefix ''props.'' s of Some r \<Rightarrow> r | None \<Rightarrow> s)
      in bind_result (map_result (parse_part orig) (split_char (CHR ''.'') s)) (\<lambda>ps. Ok (concat ps)))"

definition path_root :: "path \<Rightarrow> string" where
  "path_root p = (case p of Key k # _ \<Rightarrow> k | _ \<Rightarrow> [])"

definition seg_find :: "seg \<Rightarrow> nat option \<Rightarrow> 'n node \<Rightarrow> 'n node option" where
  "seg_find seg idx cur =
     (case seg of
        Key k \<Rightarrow> node_get cur k
      | Index i \<Rightarrow> node_index cur i
      | Idx \<Rightarrow> (case idx of Some i \<Rightarrow> node_index cur i | None \<Rightarrow> None))"

definition path_get :: "path \<Rightarrow> 'n node \<Rightarrow> nat option \<Rightarrow> 'n node" where
  "path_get p ctx idx =
     fold (\<lambda>seg cur. case seg_find seg idx cur of Some v \<Rightarrow> v | None \<Rightarrow> NNull) p ctx"

fun path_find :: "path \<Rightarrow> 'n node \<Rightarrow> nat option \<Rightarrow> 'n node option" where
  "path_find [] cur idx = Some cur"
| "path_find (seg # p) cur idx = Option.bind (seg_find seg idx cur) (\<lambda>v. path_find p v idx)"

definition parent_exists :: "path \<Rightarrow> 'n node \<Rightarrow> nat option \<Rightarrow> bool" where
  "parent_exists p ctx idx \<longleftrightarrow>
     (length p \<le> 1 \<or> path_find (butlast p) ctx idx \<noteq> None)"

definition has_idx :: "path \<Rightarrow> bool" where
  "has_idx p \<longleftrightarrow> Idx \<in> set p"

section \<open>Branch conditions\<close>

text \<open>\<^verbatim>\<open>as_f64\<close> and what the code asks of a float.\<close>

record ('n, 'f) numbers =
  as_f64 :: "'n \<Rightarrow> 'f option"
  f_zero :: "'f \<Rightarrow> bool"
  f_nan :: "'f \<Rightarrow> bool"
  f_eq :: "'f \<Rightarrow> 'f \<Rightarrow> bool"

datatype 'n row_guard =
    RTruthy string
  | REq string "'n jval"
  | RNot "'n row_guard"
  | RAll "'n row_guard list"
  | RAny "'n row_guard list"

datatype 'n guard =
    Truthy path
  | GEq path "'n node"
  | GNot "'n guard"
  | GAll "'n guard list"
  | GAny "'n guard list"

fun guard_new :: "'n row_guard \<Rightarrow> input_error + 'n guard" where
  "guard_new (RTruthy p) = bind_result (path_parse p) (\<lambda>p. Ok (Truthy p))"
| "guard_new (REq p v) = bind_result (path_parse p) (\<lambda>p. Ok (GEq p (from_json v)))"
| "guard_new (RNot g) = bind_result (guard_new g) (\<lambda>g. Ok (GNot g))"
| "guard_new (RAll gs) = bind_result (map_result guard_new gs) (\<lambda>gs. Ok (GAll gs))"
| "guard_new (RAny gs) = bind_result (map_result guard_new gs) (\<lambda>gs. Ok (GAny gs))"

definition js_truthy :: "('n, 'f) numbers \<Rightarrow> 'n node \<Rightarrow> bool" where
  "js_truthy nm v =
     (case v of
        NNull \<Rightarrow> False
      | NBool b \<Rightarrow> b
      | NNum n \<Rightarrow> (case as_f64 nm n of Some f \<Rightarrow> \<not> f_zero nm f \<and> \<not> f_nan nm f | None \<Rightarrow> False)
      | NStr s \<Rightarrow> s \<noteq> []
      | NArr _ \<Rightarrow> True
      | NMap _ _ \<Rightarrow> True)"

definition js_strict_eq :: "('n, 'f) numbers \<Rightarrow> 'n node \<Rightarrow> 'n node \<Rightarrow> bool" where
  "js_strict_eq nm v lit =
     (case (v, lit) of
        (NNum a, NNum b) \<Rightarrow>
          (case (as_f64 nm a, as_f64 nm b) of (Some x, Some y) \<Rightarrow> f_eq nm x y | _ \<Rightarrow> False)
      | (NNull, NNull) \<Rightarrow> True
      | (NBool a, NBool b) \<Rightarrow> a = b
      | (NStr a, NStr b) \<Rightarrow> a = b
      | _ \<Rightarrow> False)"

fun guard_holds :: "('n, 'f) numbers \<Rightarrow> 'n guard \<Rightarrow> 'n node \<Rightarrow> nat option \<Rightarrow> bool" where
  "guard_holds nm (Truthy p) ctx idx = (case path_find p ctx idx of Some v \<Rightarrow> js_truthy nm v | None \<Rightarrow> False)"
| "guard_holds nm (GEq p lit) ctx idx =
     (case path_find p ctx idx of Some v \<Rightarrow> js_strict_eq nm v lit | None \<Rightarrow> False)"
| "guard_holds nm (GNot g) ctx idx = (\<not> guard_holds nm g ctx idx)"
| "guard_holds nm (GAll gs) ctx idx = list_all (\<lambda>g. guard_holds nm g ctx idx) gs"
| "guard_holds nm (GAny gs) ctx idx = list_ex (\<lambda>g. guard_holds nm g ctx idx) gs"

section \<open>Projection\<close>

definition proj_key :: "seg \<Rightarrow> string" where
  "proj_key seg =
     (case seg of Key k \<Rightarrow> k | Index i \<Rightarrow> ''['' @ decimal i @ '']'' | Idx \<Rightarrow> ''[idx]'')"

record projection =
  kept :: "(path \<times> string list) list"
  first_idx :: "string option"

definition covered :: "path list \<Rightarrow> nat \<Rightarrow> bool" where
  "covered paths i \<longleftrightarrow>
     list_ex (\<lambda>j. j \<noteq> i \<and> length (paths ! j) \<le> length (paths ! i) \<and>
                   take (length (paths ! j)) (paths ! i) = paths ! j \<and>
                   (length (paths ! j) < length (paths ! i) \<or> j < i)) [0..<length paths]"

definition projection_new :: "string list \<Rightarrow> input_error + projection" where
  "projection_new inputs =
     bind_result (map_result path_parse inputs) (\<lambda>paths.
       Ok \<lparr>kept = map (\<lambda>i. (paths ! i, map proj_key (paths ! i)))
                    (filter (\<lambda>i. \<not> covered paths i) [0..<length paths]),
           first_idx = map_option snd (List.find (\<lambda>(p, _). has_idx p) (zip paths inputs))\<rparr>)"

text \<open>
  One input into the result: the objects on the way are created, the leaf is set when there is a value. At a prefix there
  is an object or nothing (the code expects so and panics otherwise); \<open>map_mut\<close> leaves anything else alone.
\<close>

fun place :: "string list \<Rightarrow> string \<Rightarrow> 'n node option \<Rightarrow> 'n map_inner \<Rightarrow> 'n map_inner" where
  "place [] leaf v m = (case v of Some v \<Rightarrow> bm_insert leaf v m | None \<Rightarrow> m)"
| "place (k # ks) leaf v m =
     (let slot = (case map_of m k of Some n \<Rightarrow> n | None \<Rightarrow> node_map [])
      in bm_insert k (map_mut (place ks leaf v) slot) m)"

definition projection_step :: "'n node \<Rightarrow> nat option \<Rightarrow> path \<times> string list \<Rightarrow> 'n map_inner \<Rightarrow> 'n map_inner" where
  "projection_step ctx idx pk out =
     (let (p, keys) = pk; v = path_find p ctx idx
      in if v = None \<and> \<not> parent_exists p ctx idx then out
         else place (butlast keys) (last keys) v out)"

definition projection_eval :: "projection \<Rightarrow> 'n node \<Rightarrow> nat option \<Rightarrow> input_error + 'n node" where
  "projection_eval pr ctx idx =
     (case (idx, first_idx pr) of
        (None, Some s) \<Rightarrow> Err (IdxOutsideRow s)
      | _ \<Rightarrow> Ok (node_map (fold (projection_step ctx idx) (kept pr) [])))"

definition project :: "'n node \<Rightarrow> string list \<Rightarrow> nat option \<Rightarrow> input_error + 'n node" where
  "project ctx inputs idx = bind_result (projection_new inputs) (\<lambda>pr. projection_eval pr ctx idx)"

section \<open>Child props and keys\<close>

datatype 'n rows = RowsPath path | RowsLiteral "'n node"

definition rows_list :: "'n rows \<Rightarrow> 'n node \<Rightarrow> 'n node" where
  "rows_list r ctx = (case r of RowsPath p \<Rightarrow> path_get p ctx None | RowsLiteral n \<Rightarrow> n)"

definition rows_count :: "'n rows \<Rightarrow> 'n node \<Rightarrow> nat" where
  "rows_count r ctx = (case as_arr (rows_list r ctx) of Some a \<Rightarrow> length a | None \<Rightarrow> 0)"

definition rows_row :: "'n rows \<Rightarrow> 'n node \<Rightarrow> nat \<Rightarrow> 'n node" where
  "rows_row r ctx i = (case node_index (rows_list r ctx) i of Some v \<Rightarrow> v | None \<Rightarrow> NNull)"

text \<open>
  Compiled expressions have type \<open>'x\<close>; evaluating one in a scope gives an error text, nothing (an undefined value) or
  the JSON of the value.
\<close>

datatype ('n, 'x) bound =
    BPath path string
  | BLit "'n node"
  | BExpr 'x string

record ('n, 'x) props_map =
  pm_props :: "(string \<times> ('n, 'x) bound) list"
  pm_rows :: "'n rows option"

datatype 'n scope_value = ScopeNode "'n node" | ScopeIndex nat

type_synonym 'n scope = "(string \<times> 'n scope_value) list"

record ('n, 'x) expressions =
  compile_expr :: "string \<Rightarrow> string + 'x"
  eval_expr :: "'x \<Rightarrow> 'n scope \<Rightarrow> string + 'n jval option"

definition props_map_child ::
  "('n, 'x) expressions \<Rightarrow> string btree \<Rightarrow> 'n node btree \<Rightarrow> string btree \<Rightarrow> 'n rows option \<Rightarrow>
   input_error + ('n, 'x) props_map" where
  "props_map_child ex props literals exprs rows =
     bind_result (map_result (\<lambda>(name, src). bind_result (path_parse src) (\<lambda>p. Ok (name, BPath p src))) props) (\<lambda>ps.
     bind_result (map_result (\<lambda>(name, src).
          case compile_expr ex src of Inr e \<Rightarrow> Ok (name, BExpr e src) | Inl e \<Rightarrow> Err (BadExpr name src e)) exprs) (\<lambda>es.
       Ok \<lparr>pm_props = ps @ map (\<lambda>(name, v). (name, BLit v)) literals @ es, pm_rows = rows\<rparr>))"

definition props_map_new :: "('n, 'x) expressions \<Rightarrow> string btree \<Rightarrow> input_error + ('n, 'x) props_map" where
  "props_map_new ex props = props_map_child ex props [] [] None"

definition props_scope :: "('n, 'x) props_map \<Rightarrow> 'n node \<Rightarrow> nat option \<Rightarrow> 'n scope" where
  "props_scope pm parent_ctx idx =
     (''__props'', ScopeNode parent_ctx) #
     (case (pm_rows pm, idx) of
        (Some list, Some i) \<Rightarrow> [(''__row'', ScopeNode (rows_row list parent_ctx i)), (''__idx'', ScopeIndex i)]
      | _ \<Rightarrow> [])"

text \<open>One binding: nothing when the prop is not passed (JavaScript's undefined).\<close>

definition bound_eval ::
  "('n, 'x) expressions \<Rightarrow> ('n, 'x) props_map \<Rightarrow> 'n node \<Rightarrow> nat option \<Rightarrow> string \<times> ('n, 'x) bound \<Rightarrow>
   input_error + 'n node option" where
  "bound_eval ex pm parent_ctx idx nb =
     (case nb of
        (name, BPath p src) \<Rightarrow>
          if idx = None \<and> has_idx p then Err (ChildIdx name src) else Ok (path_find p parent_ctx idx)
      | (name, BLit n) \<Rightarrow> Ok (Some n)
      | (name, BExpr e src) \<Rightarrow>
          (case eval_expr ex e (props_scope pm parent_ctx idx) of
             Inl err \<Rightarrow> Err (BadExpr name src err)
           | Inr None \<Rightarrow> Ok None
           | Inr (Some json) \<Rightarrow> Ok (Some (from_json json))))"

fun props_fold ::
  "('n, 'x) expressions \<Rightarrow> ('n, 'x) props_map \<Rightarrow> 'n node \<Rightarrow> nat option \<Rightarrow> (string \<times> ('n, 'x) bound) list \<Rightarrow>
   'n map_inner \<Rightarrow> input_error + 'n map_inner" where
  "props_fold ex pm ctx idx [] out = Ok out"
| "props_fold ex pm ctx idx (nb # nbs) out =
     bind_result (bound_eval ex pm ctx idx nb) (\<lambda>v.
       props_fold ex pm ctx idx nbs (case v of Some v \<Rightarrow> bm_insert (fst nb) v out | None \<Rightarrow> out))"

definition props_eval ::
  "('n, 'x) expressions \<Rightarrow> ('n, 'x) props_map \<Rightarrow> 'n node \<Rightarrow> nat option \<Rightarrow> input_error + 'n node" where
  "props_eval ex pm parent_ctx idx =
     bind_result (props_fold ex pm parent_ctx idx (pm_props pm) []) (\<lambda>out. Ok (node_map out))"

definition child_props ::
  "('n, 'x) expressions \<Rightarrow> 'n node \<Rightarrow> string btree \<Rightarrow> nat option \<Rightarrow> input_error + 'n node" where
  "child_props ex parent_ctx props idx =
     bind_result (props_map_new ex props) (\<lambda>pm. props_eval ex pm parent_ctx idx)"

text \<open>\<^verbatim>\<open>serde_json\<close>'s printer is \<open>to_json\<close>, \<^verbatim>\<open>blake3\<close>'s hex digest \<open>hash\<close>.\<close>

definition canonical :: "('n jval \<Rightarrow> string) \<Rightarrow> 'n node \<Rightarrow> string" where
  "canonical to_json v = to_json (serialize v)"

definition canonical_ordered :: "('n jval \<Rightarrow> string) \<Rightarrow> 'n node \<Rightarrow> string" where
  "canonical_ordered to_json v = to_json (ordered v)"

definition u32_le :: "nat \<Rightarrow> string" where
  "u32_le n = map (\<lambda>i. char_of (n div 256 ^ i mod 256)) [0..<4]"

definition job_key :: "(string \<Rightarrow> string) \<Rightarrow> ('n jval \<Rightarrow> string) \<Rightarrow> string \<Rightarrow> string \<Rightarrow> 'n node \<Rightarrow> string" where
  "job_key hash to_json component_id job_id inputs_value =
     (let json = to_json (ordered inputs_value)
      in hash (concat (map (\<lambda>field. u32_le (length field) @ field) [component_id, job_id]) @ u32_le (length json) @ json))"

section \<open>The cache key separates\<close>

lemma length_u32_le [simp]: "length (u32_le n) = 4"
  by (simp add: u32_le_def)

lemma u32_le_inject:
  assumes "a < 2 ^ 32" and "b < 2 ^ 32" and "u32_le a = u32_le b"
  shows "a = b"
proof -
  have digit: "byte (u32_le n ! i) = n div 256 ^ i mod 256" if "i < 4" for n i
    using that by (simp add: u32_le_def)
  have split: "n = n mod 256 + 256 * (n div 256 mod 256) + 65536 * (n div 65536 mod 256) + 16777216 * (n div 16777216)"
    for n :: nat
  proof -
    have horner: "n = a + 256 * b + 65536 * c + 16777216 * d"
      if "n = a + 256 * q" "q = b + 256 * r" "r = c + 256 * d" for a b c d q r :: nat
      using that by simp
    have "n div 65536 = n div 256 div 256" "n div 16777216 = n div 256 div 256 div 256"
      by (simp_all add: div_mult2_eq [symmetric])
    then show ?thesis
      using horner [of "n mod 256" "n div 256" "n div 256 mod 256" "n div 256 div 256"
          "n div 256 div 256 mod 256" "n div 256 div 256 div 256"]
      by (simp add: mod_mult_div_eq)
  qed
  have top: "n div 16777216 mod 256 = n div 16777216" if "n < 2 ^ 32" for n :: nat
    using that by (simp add: less_mult_imp_div_less)
  have "a div 256 ^ i mod 256 = b div 256 ^ i mod 256" if "i < 4" for i
    using digit [OF that] assms(3) by metis
  from this [of 0] this [of 1] this [of 2] this [of 3]
  have "a mod 256 = b mod 256" "a div 256 mod 256 = b div 256 mod 256" "a div 65536 mod 256 = b div 65536 mod 256"
      "a div 16777216 mod 256 = b div 16777216 mod 256"
    by simp_all
  then show ?thesis using split [of a] split [of b] top [OF assms(1)] top [OF assms(2)] by metis
qed

lemma u32_field_inject:
  assumes "u32_le (length x) @ x @ r = u32_le (length y) @ y @ s" and "length x < 2 ^ 32" and "length y < 2 ^ 32"
  shows "x = y \<and> r = s"
proof -
  have "u32_le (length x) = u32_le (length y)" "x @ r = y @ s"
    using assms(1) by (simp_all add: append_eq_append_conv)
  then show ?thesis using u32_le_inject [OF assms(2,3)] by simp
qed

lemma job_key_inject:
  assumes "inj hash" and "inj to_json"
    and "length c < 2 ^ 32" "length j < 2 ^ 32" "length (to_json (ordered v)) < 2 ^ 32"
    and "length c' < 2 ^ 32" "length j' < 2 ^ 32" "length (to_json (ordered v')) < 2 ^ 32"
  shows "job_key hash to_json c j v = job_key hash to_json c' j' v' \<longleftrightarrow> c = c' \<and> j = j' \<and> ordered v = ordered v'"
proof
  assume "job_key hash to_json c j v = job_key hash to_json c' j' v'"
  then have "u32_le (length c) @ c @ (u32_le (length j) @ j @ (u32_le (length (to_json (ordered v))) @ to_json (ordered v) @ [])) =
      u32_le (length c') @ c' @ (u32_le (length j') @ j' @ (u32_le (length (to_json (ordered v'))) @ to_json (ordered v') @ []))"
    using assms(1) by (simp add: job_key_def Let_def inj_eq)
  from u32_field_inject [OF this assms(3,6)]
  have c: "c = c'" and "u32_le (length j) @ j @ (u32_le (length (to_json (ordered v))) @ to_json (ordered v) @ []) =
      u32_le (length j') @ j' @ (u32_le (length (to_json (ordered v'))) @ to_json (ordered v') @ [])"
    by blast+
  from u32_field_inject [OF this(2) assms(4,7)]
  have j: "j = j'" and "u32_le (length (to_json (ordered v))) @ to_json (ordered v) @ [] =
      u32_le (length (to_json (ordered v'))) @ to_json (ordered v') @ []"
    by blast+
  from u32_field_inject [OF this(2) assms(5,8)] have "to_json (ordered v) = to_json (ordered v')" by blast
  with c j show "c = c' \<and> j = j' \<and> ordered v = ordered v'" using assms(2) by (simp add: inj_eq)
qed (simp add: job_key_def)

section \<open>What a projection keeps\<close>

definition seg_wf :: "seg \<Rightarrow> bool" where
  "seg_wf s \<longleftrightarrow> (case s of Key k \<Rightarrow> k \<noteq> [] \<and> CHR ''['' \<notin> set k | _ \<Rightarrow> True)"

definition path_wf :: "path \<Rightarrow> bool" where
  "path_wf p \<longleftrightarrow> p \<noteq> [] \<and> list_all seg_wf p \<and> (case hd p of Key _ \<Rightarrow> True | _ \<Rightarrow> False)"

lemma parse_brackets_wf: "parse_brackets orig s = Inr ss \<Longrightarrow> list_all seg_wf ss"
proof (induction orig s arbitrary: ss rule: parse_brackets.induct)
  case (2 orig c r)
  then show ?case
    by (auto simp: bind_result_Inr_iff seg_wf_def split: option.splits if_splits)
qed simp

lemma parse_part_wf: "parse_part orig part = Inr ss \<Longrightarrow> path_wf ss"
  by (auto simp: parse_part_def bind_result_Inr_iff Let_def path_wf_def seg_wf_def dest!: parse_brackets_wf set_takeWhileD
      split: if_splits)

lemma path_parse_wf:
  assumes "path_parse s = Inr p"
  shows "path_wf p"
proof -
  obtain orig parts ps where ps: "map_result (parse_part orig) parts = Inr ps" "p = concat ps" "parts \<noteq> []"
    using assms by (auto simp: path_parse_def bind_result_Inr_iff Let_def)
  have wf: "path_wf q" if "q \<in> set ps" for q
  proof -
    obtain i where "i < length ps" "q = ps ! i" using \<open>q \<in> set ps\<close> by (auto simp: in_set_conv_nth)
    then show ?thesis using map_result_nth [OF ps(1)] map_result_length [OF ps(1)] parse_part_wf by metis
  qed
  have "ps \<noteq> []" using ps(3) map_result_length [OF ps(1)] by auto
  then obtain q qs where "ps = q # qs" by (cases ps) auto
  then show ?thesis
    using ps(2) wf by (auto simp: path_wf_def list_all_iff)
qed

lemma proj_key_inj: "inj_on proj_key {s. seg_wf s}"
proof (rule inj_onI)
  fix a b
  assume "a \<in> {s. seg_wf s}" "b \<in> {s. seg_wf s}" "proj_key a = proj_key b"
  moreover have "CHR ''i'' \<notin> set (decimal n)" for n
    using decimal_mem [of "CHR ''i''" n] by (auto simp: is_ascii_digit_def)
  moreover have "decimal n @ '']'' \<noteq> ''idx]''" for n
    using calculation(4) [of n] by (cases "decimal n") auto
  ultimately show "a = b"
    by (cases a; cases b) (auto simp: proj_key_def seg_wf_def)
qed

lemma prefix_map_inj:
  assumes "prefix (map f p) (map f q)" and "inj_on f (set p \<union> set q)"
  shows "prefix p q"
proof -
  have "take (length p) (map f q) = map f p" "length p \<le> length q"
    using assms(1) by (auto simp: prefix_def append_eq_conv_conj dest: arg_cong [where f = length])
  then have "map f (take (length p) q) = map f p" by (simp add: take_map)
  then have "take (length p) q = p"
    by (rule map_inj_on) (use assms(2) in \<open>auto elim!: inj_on_subset dest: in_set_takeD\<close>)
  then show ?thesis by (metis take_is_prefix)
qed

text \<open>Reading and writing a nested object along keys.\<close>

abbreviation at_keys :: "string list \<Rightarrow> 'n node \<Rightarrow> 'n node option" where
  "at_keys ks n \<equiv> path_find (map Key ks) n None"

lemma seg_find_Key [simp]: "seg_find (Key k) idx n = node_get n k"
  by (simp add: seg_find_def)

fun objects :: "string list \<Rightarrow> 'n node \<Rightarrow> bool" where
  "objects [] n \<longleftrightarrow> is_map n"
| "objects (k # ks) n \<longleftrightarrow> is_map n \<and> (case node_get n k of Some x \<Rightarrow> objects ks x | None \<Rightarrow> True)"

lemma node_get_new [simp]: "node_get (node_map []) k = None" "is_map (node_map m)" "node_get (node_map m) k = map_of m k"
  by (simp_all add: node_map_def)

lemma objects_new [simp]: "objects ks (node_map [])"
  by (cases ks) simp_all

lemma is_map_map_mut [simp]: "is_map (map_mut f n) = is_map n"
  by (cases n) simp_all

lemma is_mapE: "is_map n \<Longrightarrow> (\<And>m h. n = NMap m h \<Longrightarrow> P) \<Longrightarrow> P"
  by (cases n) auto

lemma at_place:
  "objects ks n \<Longrightarrow> (v = None \<Longrightarrow> at_keys (ks @ [leaf]) n = None) \<Longrightarrow>
   at_keys (ks @ [leaf]) (map_mut (place ks leaf v) n) = v"
proof (induction ks arbitrary: n)
  case Nil
  then show ?case by (auto elim!: is_mapE split: option.splits)
next
  case (Cons k ks)
  then obtain m h where n: "n = NMap m h" by (auto elim: is_mapE)
  show ?case
  proof (cases "map_of m k")
    case None
    have "at_keys (ks @ [leaf]) (node_map []) = None" by (cases ks) simp_all
    then show ?thesis using Cons.IH [of "node_map []"] None n by simp
  next
    case (Some x)
    then show ?thesis using Cons n by simp
  qed
qed

lemma at_place_other:
  assumes "\<not> prefix ls (ks @ [leaf])" and "\<not> prefix (ks @ [leaf]) ls"
  shows "at_keys ls (map_mut (place ks leaf v) n) = at_keys ls n"
  using assms
proof (induction ks arbitrary: ls n)
  case Nil
  then obtain l ls' where "ls = l # ls'" "l \<noteq> leaf" by (cases ls) auto
  then show ?case by (cases n) (auto split: option.splits)
next
  case (Cons k ks)
  then obtain l ls' where ls: "ls = l # ls'" by (cases ls) auto
  show ?case
  proof (cases n)
    case (NMap m h)
    have "at_keys ls' (node_map []) = None" if "l = k"
      using Cons.prems that ls by (cases ls') auto
    then show ?thesis
      using Cons.IH [of ls' "node_map []"] Cons.IH [of ls' "the (map_of m k)"] Cons.prems NMap ls
      by (auto split: option.splits)
  qed simp_all
qed

lemma objects_place:
  assumes "\<not> prefix (ks @ [leaf]) (qs @ [l])" and "objects qs n"
  shows "objects qs (map_mut (place ks leaf v) n)"
  using assms
proof (induction ks arbitrary: qs n)
  case Nil
  then show ?case by (cases qs; cases n) (auto split: option.splits)
next
  case (Cons k ks)
  show ?case
  proof (cases qs)
    case Nil
    then show ?thesis using Cons.prems by simp
  next
    case q: (Cons q qs')
    then obtain m h where n: "n = NMap m h" using Cons.prems by (auto elim: is_mapE)
    then show ?thesis
      using Cons.IH [of qs' "node_map []"] Cons.IH [of qs' "the (map_of m k)"] Cons.prems q
      by (auto split: option.splits)
  qed
qed

text \<open>The loop over the kept inputs, on key lists none of which is a prefix of another.\<close>

definition input_kept :: "'n node \<Rightarrow> nat option \<Rightarrow> path \<times> string list \<Rightarrow> 'n node \<Rightarrow> bool" where
  "input_kept ctx idx pk out \<longleftrightarrow> at_keys (snd pk) out = path_find (fst pk) ctx idx"

lemma projection_step_node:
  "NMap (projection_step ctx idx (p, ks) m) h =
     (if path_find p ctx idx = None \<and> \<not> parent_exists p ctx idx then NMap m h
      else map_mut (place (butlast ks) (last ks) (path_find p ctx idx)) (NMap m h))"
  by (simp add: projection_step_def Let_def)

lemma projection_fold:
  assumes "\<And>i j. i < length pks \<Longrightarrow> j < length pks \<Longrightarrow> i \<noteq> j \<Longrightarrow> \<not> prefix (snd (pks ! i)) (snd (pks ! j))"
    and "\<And>pk. pk \<in> set pks \<Longrightarrow> snd pk \<noteq> []"
    and "\<And>pk. pk \<in> set pks \<Longrightarrow> objects (butlast (snd pk)) (node_map m) \<and> at_keys (snd pk) (node_map m) = None"
    and "i < length pks"
  shows "input_kept ctx idx (pks ! i) (node_map (fold (projection_step ctx idx) pks m))"
  using assms
proof (induction pks arbitrary: m i)
  case (Cons pk pks)
  obtain p ks where pk: "pk = (p, ks)" by fastforce
  let ?m = "projection_step ctx idx pk m"
  have ks: "ks \<noteq> []" "objects (butlast ks) (node_map m)" "at_keys ks (node_map m) = None"
    using Cons.prems(2) [of pk] Cons.prems(3) [of pk] pk by auto
  then have ks': "butlast ks @ [last ks] = ks" by simp
  have here: "at_keys ks (node_map ?m) = path_find p ctx idx"
    using at_place [of "butlast ks" "node_map m" "path_find p ctx idx" "last ks"] ks ks' pk projection_step_node [of ctx idx p ks m None]
    by (auto simp: node_map_def)
  have incomparable: "\<not> prefix ks (snd pk')" "\<not> prefix (snd pk') ks" if "pk' \<in> set pks" for pk'
  proof -
    obtain j where "j < length pks" "pk' = pks ! j" using \<open>pk' \<in> set pks\<close> by (auto simp: in_set_conv_nth)
    then show "\<not> prefix ks (snd pk')" "\<not> prefix (snd pk') ks"
      using Cons.prems(1) [of 0 "Suc j"] Cons.prems(1) [of "Suc j" 0] pk by auto
  qed
  have other: "at_keys ls (node_map (projection_step ctx idx (q, qs) n)) = at_keys ls (node_map n)"
    if "qs \<noteq> []" "\<not> prefix ls qs" "\<not> prefix qs ls" for ls q qs n
    using at_place_other [of ls "butlast qs" "last qs" "path_find q ctx idx" "node_map n"] that
      projection_step_node [of ctx idx q qs n None] by (auto simp: node_map_def)
  have keep: "at_keys ks (node_map (fold (projection_step ctx idx) pks n)) = at_keys ks (node_map n)"
    if "\<forall>pk'\<in>set pks. \<not> prefix ks (snd pk') \<and> \<not> prefix (snd pk') ks \<and> snd pk' \<noteq> []" for n
    using that by (induction pks arbitrary: n) (auto simp: other)
  show ?case
  proof (cases i)
    case 0
    then show ?thesis
      using keep [of ?m] incomparable Cons.prems(2) here pk by (auto simp: input_kept_def)
  next
    case (Suc j)
    have "objects (butlast (snd pk')) (node_map ?m) \<and> at_keys (snd pk') (node_map ?m) = None" if "pk' \<in> set pks" for pk'
    proof -
      have q: "snd pk' \<noteq> []" "objects (butlast (snd pk')) (node_map m)" "at_keys (snd pk') (node_map m) = None"
        using Cons.prems(2,3) that by auto
      have "objects (butlast (snd pk')) (map_mut (place (butlast ks) (last ks) (path_find p ctx idx)) (node_map m))"
        using objects_place [of "butlast ks" "last ks" "butlast (snd pk')" "last (snd pk')"] q ks' incomparable [OF that] by simp
      then have "objects (butlast (snd pk')) (node_map ?m)"
        using q(2) pk projection_step_node [of ctx idx p ks m None] by (simp add: node_map_def split: if_splits)
      moreover have "at_keys (snd pk') (node_map ?m) = None"
        unfolding pk using q(3) other [OF ks(1) incomparable(2,1) [OF that]] by simp
      ultimately show ?thesis by simp
    qed
    moreover have "\<not> prefix (snd (pks ! a)) (snd (pks ! b))" if "a < length pks" "b < length pks" "a \<noteq> b" for a b
      using Cons.prems(1) [of "Suc a" "Suc b"] that by simp
    ultimately have "input_kept ctx idx (pks ! j) (node_map (fold (projection_step ctx idx) pks ?m))"
      using Cons.prems(2,4) Suc by (intro Cons.IH) auto
    then show ?thesis using Suc by simp
  qed
qed simp

lemma covered_prefix:
  "covered paths i \<longleftrightarrow>
     (\<exists>j < length paths. j \<noteq> i \<and> prefix (paths ! j) (paths ! i) \<and> (length (paths ! j) < length (paths ! i) \<or> j < i))"
proof -
  have [simp]: "length p \<le> length q \<and> take (length p) q = p \<and> X \<longleftrightarrow> prefix p q \<and> X" for p q :: path and X
    by (metis append_take_drop_id prefixI prefix_length_le take_is_prefix append_eq_conv_conj prefix_def)
  show ?thesis
    by (auto simp: covered_def list_ex_iff Bex_def)
qed

text \<open>Every input extends a kept one: the shortest of its prefixes among the inputs, the first of equals.\<close>

lemma kept_prefix:
  assumes "i < length paths"
  obtains j where "j < length paths" and "\<not> covered paths j" and "prefix (paths ! j) (paths ! i)"
  using assms
proof (induction "length (paths ! i) * Suc (length paths) + i" arbitrary: i thesis rule: less_induct)
  case less
  show ?case
  proof (cases "covered paths i")
    case False
    then show ?thesis using less.prems by (metis prefix_order.order_refl)
  next
    case True
    then obtain j where j: "j < length paths" "prefix (paths ! j) (paths ! i)" "length (paths ! j) < length (paths ! i) \<or> j < i"
      by (auto simp: covered_prefix)
    have le: "length (paths ! j) \<le> length (paths ! i)" using j(2) by (rule prefix_length_le)
    have "length (paths ! j) * Suc (length paths) + j < length (paths ! i) * Suc (length paths) + i"
    proof (cases "length (paths ! j) < length (paths ! i)")
      case True
      then have "Suc (length (paths ! j)) * Suc (length paths) \<le> length (paths ! i) * Suc (length paths)"
        by (intro mult_le_mono1) simp
      then show ?thesis using j(1) by simp
    next
      case False
      then show ?thesis using j(3) le by simp
    qed
    from this j(1) show ?thesis
      using less.hyps less.prems(1) prefix_order.trans [OF _ j(2)] by metis
  qed
qed

lemma at_keys_append: "path_find (p @ q) n idx = Option.bind (path_find p n idx) (\<lambda>v. path_find q v idx)"
  by (induction p arbitrary: n) (auto simp: bind_assoc split: option.splits)

lemma at_keys_idx: "path_find (map Key ks) n idx = at_keys ks n"
  by (induction ks arbitrary: n) (auto split: option.splits)


lemma demo_paths:
  "path_parse ''item'' = Inr [Key ''item'']" "path_parse ''props.item.price'' = Inr [Key ''item'', Key ''price'']"
  "path_parse ''n[0]'' = Inr [Key ''n'', Index 0]"
  by (simp_all add: path_parse_def parse_part_def parse_u64_def parse_below_def u64_mod_def digits_value_def is_ascii_digit_def)

lemma demo_zero: "char_of (48 :: nat) = CHR ''0''"
  by code_simp


end
