(* ===== verification/Routes.thy ===== *)
theory Routes
  imports Url KeyExpr Headers
begin

text \<open>
  The route table (\<^verbatim>\<open>crates/brust-core/src/routing/routes.rs\<close>): installing the manifest's routes, matching a request
  path, the build's conflict check, and the request envelope a worker receives. The radix router \<^verbatim>\<open>matchit\<close> is not part
  of the repository: its operations are the fields of a record every definition takes, and the locale \<open>path_router\<close> states
  what the code relies on.
\<close>

section \<open>The matchit crate\<close>

record 'r matchit =
  mt_new :: 'r
  mt_insert :: "'r \<Rightarrow> string \<Rightarrow> nat \<Rightarrow> string + 'r"
  mt_at :: "'r \<Rightarrow> string \<Rightarrow> (nat \<times> (string \<times> string) list) option"

text \<open>
  A router holds its inserted patterns with their values; whether an insertion is refused, and with which text,
  depends on the patterns alone; a lookup answers with the value of a pattern it holds, and with the parameters it names.
\<close>

locale path_router =
  fixes rt :: "'r matchit"
    and held :: "'r \<Rightarrow> (string \<times> nat) list"
    and refusal :: "string list \<Rightarrow> string \<Rightarrow> string option"
  assumes held_new: "held (mt_new rt) = []"
    and insert_refused: "refusal (map fst (held r)) p = Some e \<Longrightarrow> mt_insert rt r p v = Inl e"
    and insert_held: "refusal (map fst (held r)) p = None \<Longrightarrow> \<exists>r'. mt_insert rt r p v = Inr r' \<and> held r' = held r @ [(p, v)]"
    and at_held: "mt_at rt r path = Some (v, params) \<Longrightarrow> v \<in> snd ` set (held r)"

section \<open>Data\<close>

datatype bypass_spec = Always bool | BypassExpr string

record route_cache =
  rch_ttl_seconds :: nat
  rch_prefix :: "string option"
  rch_bypass :: "bypass_spec option"
  rch_tags :: "string list"

record compiled_cache =
  cc_prefix :: "expr option"
  cc_bypass :: "expr option option"

definition compiled_cache_default :: compiled_cache where
  "compiled_cache_default = \<lparr>cc_prefix = None, cc_bypass = None\<rparr>"

record route_config =
  rc_path :: string
  rc_cache :: "route_cache option"
  rc_not_found :: bool
  rc_not_found_prefix :: string

record 'r route_table =
  tb_router :: 'r
  tb_cache_configs :: "route_cache option list"
  tb_compiled_caches :: "compiled_cache list"
  tb_not_found_table :: "(string \<times> nat) list"

record route_match =
  rm_route_id :: nat
  rm_not_found :: bool
  rm_params :: "(string \<times> string) list"

record request_envelope =
  re_method :: string
  re_url :: string
  re_headers :: "(string \<times> string) list"
  re_cookies :: "(string \<times> string) list"
  re_search :: "(string \<times> string) list"

record route_envelope =
  ro_route_id :: nat
  ro_path :: string
  ro_params :: "(string \<times> string) list"
  ro_req :: request_envelope

datatype match_result = Matched nat route_envelope | NotFound nat route_envelope | NoMatch

datatype route_install_error = InsertError string string | CacheExpr string string parse_error

record pattern_conflict =
  pc_index :: nat
  pc_with_index :: "nat option"
  pc_message :: route_install_error

section \<open>Installing\<close>

text \<open>\<^verbatim>\<open>n as u32\<close>\<close>

definition as_u32 :: "nat \<Rightarrow> nat" where
  "as_u32 n = n mod 2 ^ 32"

definition table_new :: "'r matchit \<Rightarrow> 'r route_table" where
  "table_new rt = \<lparr>tb_router = mt_new rt, tb_cache_configs = [], tb_compiled_caches = [], tb_not_found_table = []\<rparr>"

definition insert_route :: "'r matchit \<Rightarrow> 'r \<Rightarrow> string \<Rightarrow> nat \<Rightarrow> string + 'r" where
  "insert_route rt router pattern route_id = mt_insert rt router (normalize_route_pattern pattern) route_id"

definition compile_cache :: "target \<Rightarrow> route_config \<Rightarrow> (route_install_error, compiled_cache) result" where
  "compile_cache tgt c =
     (case rc_cache c of
        None \<Rightarrow> Ok compiled_cache_default
      | Some cc \<Rightarrow>
          bind_result
            (case rch_prefix cc of
               Some s \<Rightarrow> (case parse tgt s of Inr e \<Rightarrow> Ok (Some e) | Inl reason \<Rightarrow> Err (CacheExpr (rc_path c) ''prefix'' reason))
             | None \<Rightarrow> Ok None) (\<lambda>pfx.
          bind_result
            (case rch_bypass cc of
               None \<Rightarrow> Ok None
             | Some (Always True) \<Rightarrow> Ok (Some None)
             | Some (Always False) \<Rightarrow> Ok None
             | Some (BypassExpr s) \<Rightarrow>
                 (case parse tgt s of
                    Inr e \<Rightarrow> Ok (Some (Some e))
                  | Inl reason \<Rightarrow> Err (CacheExpr (rc_path c) ''bypass'' reason))) (\<lambda>bypass.
          Ok \<lparr>cc_prefix = pfx, cc_bypass = bypass\<rparr>)))"

text \<open>The loop of \<^verbatim>\<open>install_with_config\<close>: \<open>idx\<close> is the position, the table is the one being filled.\<close>

fun install_loop :: "'r matchit \<Rightarrow> target \<Rightarrow> nat \<Rightarrow> route_config list \<Rightarrow> 'r route_table \<Rightarrow> (route_install_error, 'r route_table) result" where
  "install_loop rt tgt idx [] t = Ok t"
| "install_loop rt tgt idx (c # cs) t =
     (if rc_not_found c
      then install_loop rt tgt (Suc idx) cs
             (t\<lparr>tb_not_found_table := tb_not_found_table t @ [(normalize_route_pattern (rc_not_found_prefix c), as_u32 idx)],
                tb_cache_configs := tb_cache_configs t @ [rc_cache c],
                tb_compiled_caches := tb_compiled_caches t @ [compiled_cache_default]\<rparr>)
      else (case insert_route rt (tb_router t) (rc_path c) (as_u32 idx) of
              Inl e \<Rightarrow> Err (InsertError (rc_path c) e)
            | Inr router \<Rightarrow>
                bind_result (compile_cache tgt c) (\<lambda>compiled.
                install_loop rt tgt (Suc idx) cs
                  (t\<lparr>tb_router := router, tb_cache_configs := tb_cache_configs t @ [rc_cache c],
                     tb_compiled_caches := tb_compiled_caches t @ [compiled]\<rparr>))))"

text \<open>The table is replaced only when every route is accepted.\<close>

definition install_with_config ::
  "'r matchit \<Rightarrow> target \<Rightarrow> route_config list \<Rightarrow> 'r route_table \<Rightarrow> (route_install_error, nat) result \<times> 'r route_table" where
  "install_with_config rt tgt configs t =
     (case install_loop rt tgt 0 configs (table_new rt) of
        Inl e \<Rightarrow> (Err e, t)
      | Inr t' \<Rightarrow> (Ok (as_u32 (length configs)), t'))"

text \<open>\<^verbatim>\<open>from_manifest\<close> takes a manifest route as its pattern, cache directives and catch-all mark.\<close>

definition config_of_route :: "string \<times> route_cache option \<times> bool \<Rightarrow> route_config" where
  "config_of_route r =
     (case r of (pattern, cache, catch_all) \<Rightarrow>
        \<lparr>rc_path = pattern, rc_cache = cache, rc_not_found = catch_all, rc_not_found_prefix = []\<rparr>)"

definition from_manifest ::
  "'r matchit \<Rightarrow> target \<Rightarrow> (string \<times> route_cache option \<times> bool) list \<Rightarrow> (route_install_error, 'r route_table) result" where
  "from_manifest rt tgt routes =
     (case install_with_config rt tgt (map config_of_route routes) (table_new rt) of
        (Inl e, _) \<Rightarrow> Err e
      | (Inr _, t) \<Rightarrow> Ok t)"

definition route_index :: "nat \<Rightarrow> nat" where
  "route_index route_id = route_id"

definition compiled_cache_for :: "'r route_table \<Rightarrow> nat \<Rightarrow> compiled_cache option" where
  "compiled_cache_for t route_id =
     (if route_id < length (tb_compiled_caches t) then Some (tb_compiled_caches t ! route_id) else None)"

definition cache_for :: "'r route_table \<Rightarrow> nat \<Rightarrow> route_cache option" where
  "cache_for t route_id = (if route_id < length (tb_cache_configs t) then tb_cache_configs t ! route_id else None)"

section \<open>Matching\<close>

definition match_normalized :: "'r matchit \<Rightarrow> (string \<Rightarrow> string) \<Rightarrow> 'r route_table \<Rightarrow> string \<Rightarrow> route_match option" where
  "match_normalized rt percent_decode t path_only =
     (case mt_at rt (tb_router t) path_only of
        Some (v, params) \<Rightarrow>
          Some \<lparr>rm_route_id = v, rm_not_found = False,
                rm_params = map (\<lambda>(k, v). (k, decode_path_param percent_decode v)) params\<rparr>
      | None \<Rightarrow>
          map_option (\<lambda>i. \<lparr>rm_route_id = i, rm_not_found = True, rm_params = []\<rparr>)
            (select_not_found (tb_not_found_table t) path_only))"

definition match_route :: "'r matchit \<Rightarrow> (string \<Rightarrow> string) \<Rightarrow> 'r route_table \<Rightarrow> string \<Rightarrow> route_match option" where
  "match_route rt percent_decode t full_path =
     (let path_only = (case split_once_char (CHR ''?'') full_path of Some (p, _) \<Rightarrow> p | None \<Rightarrow> full_path)
      in match_normalized rt percent_decode t (normalize_request_path path_only))"

text \<open>The envelope; \<open>request_headers\<close> is what \<^verbatim>\<open>HeaderMap::iter\<close> yields, values as their bytes.\<close>

definition REQUEST_TOKEN_HEADER :: string where
  "REQUEST_TOKEN_HEADER = ''x-brust-dev-token''"

definition cookie_pairs :: "string \<Rightarrow> (string \<times> string) list" where
  "cookie_pairs value_str =
     concat (map (\<lambda>pair. case split_once_char (CHR ''='') (trim pair) of
                          Some (k, v) \<Rightarrow> [(trim k, trim v)]
                        | None \<Rightarrow> []) (split_char (CHR '';'') value_str))"

definition build_request_envelope ::
  "string \<Rightarrow> string \<Rightarrow> string \<Rightarrow> (string \<times> string) list \<Rightarrow> (string \<times> string) list option \<Rightarrow> request_envelope" where
  "build_request_envelope meth full_path query request_headers search =
     (let kept = filter (\<lambda>(name, _). \<not> (name = [] \<or> name = REQUEST_TOKEN_HEADER)) request_headers;
          headers = map (\<lambda>(name, value). (name, from_utf8_or_default value)) kept;
          cookies = concat (map (\<lambda>(name, value). if name = ''cookie'' then cookie_pairs value else []) headers)
      in \<lparr>re_method = meth, re_url = full_path, re_headers = headers, re_cookies = cookies,
          re_search = (case search of Some s \<Rightarrow> s | None \<Rightarrow> decode_search query)\<rparr>)"

definition into_envelope ::
  "route_match \<Rightarrow> string \<Rightarrow> string \<Rightarrow> (string \<times> string) list \<Rightarrow> (string \<times> string) list option \<Rightarrow> route_envelope" where
  "into_envelope m meth full_path headers search =
     (let query = (case split_once_char (CHR ''?'') full_path of Some (_, q) \<Rightarrow> q | None \<Rightarrow> [])
      in \<lparr>ro_route_id = rm_route_id m, ro_path = full_path, ro_params = rm_params m,
          ro_req = build_request_envelope meth full_path query headers search\<rparr>)"

definition match_path ::
  "'r matchit \<Rightarrow> (string \<Rightarrow> string) \<Rightarrow> 'r route_table \<Rightarrow> string \<Rightarrow> string \<Rightarrow> (string \<times> string) list \<Rightarrow> match_result" where
  "match_path rt percent_decode t meth full_path headers =
     (case match_route rt percent_decode t full_path of
        Some m \<Rightarrow>
          let envelope = into_envelope m meth full_path headers None
          in if rm_not_found m then NotFound (rm_route_id m) envelope else Matched (rm_route_id m) envelope
      | None \<Rightarrow> NoMatch)"

section \<open>The build's conflict check\<close>

definition conflict_partner :: "'r matchit \<Rightarrow> string list \<Rightarrow> nat \<Rightarrow> string \<Rightarrow> nat option" where
  "conflict_partner rt patterns i p =
     (case insert_route rt (mt_new rt) p 0 of
        Inl _ \<Rightarrow> None
      | Inr _ \<Rightarrow>
          find (\<lambda>j. case insert_route rt (mt_new rt) (patterns ! j) 0 of
                       Inl _ \<Rightarrow> False
                     | Inr pair \<Rightarrow> (case insert_route rt pair p 1 of Inl _ \<Rightarrow> True | Inr _ \<Rightarrow> False)) [0..<i])"

fun conflict_loop :: "'r matchit \<Rightarrow> string list \<Rightarrow> nat \<Rightarrow> string list \<Rightarrow> 'r \<Rightarrow> pattern_conflict option" where
  "conflict_loop rt patterns i [] router = None"
| "conflict_loop rt patterns i (p # ps) router =
     (case insert_route rt router p (as_u32 i) of
        Inr router \<Rightarrow> conflict_loop rt patterns (Suc i) ps router
      | Inl e \<Rightarrow> Some \<lparr>pc_index = i, pc_with_index = conflict_partner rt patterns i p, pc_message = InsertError p e\<rparr>)"

definition find_pattern_conflict :: "'r matchit \<Rightarrow> string list \<Rightarrow> pattern_conflict option" where
  "find_pattern_conflict rt patterns = conflict_loop rt patterns 0 patterns (mt_new rt)"

section \<open>What an installed table holds\<close>

definition routed :: "route_config list \<Rightarrow> (string \<times> nat) list" where
  "routed cs = map (\<lambda>(i, c). (normalize_route_pattern (rc_path c), i)) (filter (\<lambda>(_, c). \<not> rc_not_found c) (enumerate 0 cs))"

definition fallbacks :: "route_config list \<Rightarrow> (string \<times> nat) list" where
  "fallbacks cs = map (\<lambda>(i, c). (normalize_route_pattern (rc_not_found_prefix c), i)) (filter (\<lambda>(_, c). rc_not_found c) (enumerate 0 cs))"

definition compiled_as :: "target \<Rightarrow> route_config \<Rightarrow> compiled_cache \<Rightarrow> bool" where
  "compiled_as tgt c cc \<longleftrightarrow> (if rc_not_found c then cc = compiled_cache_default else compile_cache tgt c = Ok cc)"

definition holds :: "('r \<Rightarrow> (string \<times> nat) list) \<Rightarrow> target \<Rightarrow> route_config list \<Rightarrow> 'r route_table \<Rightarrow> bool" where
  "holds held tgt cs t \<longleftrightarrow>
     held (tb_router t) = routed cs \<and> tb_not_found_table t = fallbacks cs \<and> tb_cache_configs t = map rc_cache cs \<and>
     list_all2 (compiled_as tgt) cs (tb_compiled_caches t)"

lemma holds_empty: "held (mt_new rt) = [] \<Longrightarrow> holds held tgt [] (table_new rt)"
  by (simp add: holds_def table_new_def routed_def fallbacks_def)

lemma as_u32_small [simp]: "n < 2 ^ 32 \<Longrightarrow> as_u32 n = n"
  by (simp add: as_u32_def)

lemma find_SomeD: "find P xs = Some x \<Longrightarrow> x \<in> set xs \<and> P x"
  by (induction xs) (auto split: if_splits)

lemma routed_snoc:
  "routed (cs @ [c]) = routed cs @ (if rc_not_found c then [] else [(normalize_route_pattern (rc_path c), length cs)])"
  "fallbacks (cs @ [c]) = fallbacks cs @ (if rc_not_found c then [(normalize_route_pattern (rc_not_found_prefix c), length cs)] else [])"
  by (simp_all add: routed_def fallbacks_def enumerate_append_eq)

lemma compile_cache_Inl: "compile_cache tgt c = Inl err \<Longrightarrow> \<exists>f p e. err = CacheExpr p f e"
  by (auto simp: compile_cache_def bind_result_def split: option.splits sum.splits bypass_spec.splits bool.splits)

context path_router
begin

lemma install_loop_holds:
  "holds held tgt cs t \<Longrightarrow> length cs + length ds \<le> 2 ^ 32 \<Longrightarrow> install_loop rt tgt (length cs) ds t = Ok t' \<Longrightarrow>
     holds held tgt (cs @ ds) t'"
proof (induction ds arbitrary: cs t)
  case (Cons d ds)
  have small: "length cs < 2 ^ 32" using Cons.prems(2) by simp
  have next_step: "holds held tgt (cs @ [d]) t1 \<Longrightarrow> install_loop rt tgt (Suc (length cs)) ds t1 = Ok t' \<Longrightarrow> ?case" for t1
    using Cons.IH [of "cs @ [d]" t1] Cons.prems(2) by simp
  show ?case
  proof (cases "rc_not_found d")
    case True
    let ?t = "t\<lparr>tb_not_found_table := tb_not_found_table t @ [(normalize_route_pattern (rc_not_found_prefix d), length cs)],
      tb_cache_configs := tb_cache_configs t @ [rc_cache d],
      tb_compiled_caches := tb_compiled_caches t @ [compiled_cache_default]\<rparr>"
    have "holds held tgt (cs @ [d]) ?t"
      using Cons.prems(1) True by (auto simp: holds_def routed_snoc compiled_as_def intro: list_all2_appendI)
    then show ?thesis using next_step Cons.prems(3) True small by simp
  next
    case False
    obtain router compiled where rc: "insert_route rt (tb_router t) (rc_path d) (length cs) = Inr router"
      "compile_cache tgt d = Ok compiled"
      "install_loop rt tgt (Suc (length cs)) ds (t\<lparr>tb_router := router,
         tb_cache_configs := tb_cache_configs t @ [rc_cache d], tb_compiled_caches := tb_compiled_caches t @ [compiled]\<rparr>) = Ok t'"
      using Cons.prems(3) False small by (auto simp: bind_result_Inr_iff split: sum.splits)
    then have "held router = held (tb_router t) @ [(normalize_route_pattern (rc_path d), length cs)]"
      using insert_refused [of "tb_router t" "normalize_route_pattern (rc_path d)" _ "length cs"]
        insert_held [of "tb_router t" "normalize_route_pattern (rc_path d)" "length cs"]
      by (cases "refusal (map fst (held (tb_router t))) (normalize_route_pattern (rc_path d))") (auto simp: insert_route_def)
    then have "holds held tgt (cs @ [d]) (t\<lparr>tb_router := router,
         tb_cache_configs := tb_cache_configs t @ [rc_cache d], tb_compiled_caches := tb_compiled_caches t @ [compiled]\<rparr>)"
      using Cons.prems(1) False rc(2) by (auto simp: holds_def routed_snoc compiled_as_def intro: list_all2_appendI)
    then show ?thesis using next_step rc(3) by blast
  qed
qed simp

lemma install_holds:
  assumes "install_with_config rt tgt configs old = (Ok n, t)" and "length configs \<le> 2 ^ 32"
  shows "holds held tgt configs t"
  using assms install_loop_holds [OF holds_empty [of held rt tgt], of configs t] held_new
  by (auto simp: install_with_config_def split: sum.splits)

lemma match_route_held:
  assumes "holds held tgt configs t" and "match_route rt percent_decode t path = Some m"
  shows "rm_route_id m < length configs \<and> (rm_not_found m \<longleftrightarrow> rc_not_found (configs ! rm_route_id m))"
proof -
  obtain p where p: "match_normalized rt percent_decode t p = Some m" using assms(2) by (auto simp: match_route_def Let_def)
  show ?thesis
  proof (cases "mt_at rt (tb_router t) p")
    case None
    then obtain x where x: "max_by_key (\<lambda>(p, _). length p) (filter (\<lambda>(q, _). prefix_matches q p) (fallbacks configs)) = Some x"
      "rm_route_id m = snd x" "rm_not_found m"
      using p assms(1) by (auto simp: match_normalized_def select_not_found_def holds_def)
    then have "(fst x, rm_route_id m) \<in> set (fallbacks configs)" using max_by_key_Some by fastforce
    with x(3) show ?thesis by (auto simp: fallbacks_def in_set_enumerate_eq)
  next
    case (Some vp)
    obtain v params where v: "vp = (v, params)" by (cases vp)
    have "v \<in> snd ` set (held (tb_router t))" using at_held Some v by blast
    then have "v \<in> snd ` set (routed configs)" using assms(1) by (simp add: holds_def)
    moreover have "rm_route_id m = v" "\<not> rm_not_found m" using p Some v by (auto simp: match_normalized_def)
    ultimately show ?thesis by (auto simp: routed_def in_set_enumerate_eq)
  qed
qed

text \<open>The conflict check walks the same insertions: two routers holding the same patterns refuse the same pattern.\<close>

lemma install_conflict:
  "map fst (held (tb_router t)) = map fst (held r) \<Longrightarrow>
   (case install_loop rt tgt i ds t of
      Inr _ \<Rightarrow> conflict_loop rt ps j (map rc_path (filter (\<lambda>c. \<not> rc_not_found c) ds)) r = None
    | Inl (InsertError p e) \<Rightarrow>
        \<exists>c. conflict_loop rt ps j (map rc_path (filter (\<lambda>c. \<not> rc_not_found c) ds)) r = Some c \<and> pc_message c = InsertError p e
    | Inl (CacheExpr _ _ _) \<Rightarrow> True)"
proof (induction ds arbitrary: i t j r)
  case (Cons d ds)
  show ?case
  proof (cases "rc_not_found d")
    case True
    then have pats: "map rc_path (filter (\<lambda>c. \<not> rc_not_found c) (d # ds)) = map rc_path (filter (\<lambda>c. \<not> rc_not_found c) ds)"
      by simp
    show ?thesis unfolding pats using True Cons.IH [where r = r and i = "Suc i" and j = j] Cons.prems by simp
  next
    case False
    let ?p = "normalize_route_pattern (rc_path d)"
    show ?thesis
    proof (cases "refusal (map fst (held r)) ?p")
      case None
      obtain r1 where r1: "insert_route rt (tb_router t) (rc_path d) (as_u32 i) = Inr r1"
        "held r1 = held (tb_router t) @ [(?p, as_u32 i)]"
        using insert_held [of "tb_router t" ?p "as_u32 i"] None Cons.prems by (auto simp: insert_route_def)
      obtain r2 where r2: "insert_route rt r (rc_path d) (as_u32 j) = Inr r2" "held r2 = held r @ [(?p, as_u32 j)]"
        using insert_held [of r ?p "as_u32 j"] None by (auto simp: insert_route_def)
      show ?thesis
      proof (cases "compile_cache tgt d")
        case (Inl err)
        have "\<exists>f p e. err = CacheExpr p f e"
          using Inl by (rule compile_cache_Inl)
        then show ?thesis using False r1 Inl by auto
      next
        case (Inr compiled)
        have cl: "conflict_loop rt ps j (map rc_path (filter (\<lambda>c. \<not> rc_not_found c) (d # ds))) r =
            conflict_loop rt ps (Suc j) (map rc_path (filter (\<lambda>c. \<not> rc_not_found c) ds)) r2"
          using False r2 by simp
        show ?thesis unfolding cl
          using Inr False r1 r2 Cons.prems Cons.IH [where t = "t\<lparr>tb_router := r1, tb_cache_configs := tb_cache_configs t @ [rc_cache d],
             tb_compiled_caches := tb_compiled_caches t @ [compiled]\<rparr>" and r = r2 and i = "Suc i" and j = "Suc j"] by simp
      qed
    next
      case (Some e)
      have "insert_route rt (tb_router t) (rc_path d) (as_u32 i) = Inl e" "insert_route rt r (rc_path d) (as_u32 j) = Inl e"
        using Some insert_refused Cons.prems by (simp_all add: insert_route_def)
      then show ?thesis using False by simp
    qed
  qed
qed simp

text \<open>The partner the check names is an earlier pattern, fine alone, next to which the refused one is refused too.\<close>

lemma conflict_loop_partner:
  "conflict_loop rt patterns i ps r = Some c \<Longrightarrow> pc_with_index c = Some j \<Longrightarrow>
     i \<le> pc_index c \<and> j < pc_index c \<and> refusal [] (normalize_route_pattern (patterns ! j)) = None \<and>
     (\<exists>p. pc_index c < i + length ps \<and> p = ps ! (pc_index c - i) \<and> refusal [] (normalize_route_pattern p) = None \<and>
        refusal [normalize_route_pattern (patterns ! j)] (normalize_route_pattern p) \<noteq> None)"
proof (induction ps arbitrary: i r)
  case (Cons p ps)
  have ins: "insert_route rt (mt_new rt) q v = Inr r' \<Longrightarrow> refusal [] (normalize_route_pattern q) = None \<and>
      held r' = [(normalize_route_pattern q, v)]" for q v r'
    using insert_refused [of "mt_new rt" "normalize_route_pattern q" _ v] insert_held [of "mt_new rt" "normalize_route_pattern q" v]
      held_new by (cases "refusal [] (normalize_route_pattern q)") (auto simp: insert_route_def)
  show ?case
  proof (cases "insert_route rt r p (as_u32 i)")
    case (Inl e)
    then have c: "pc_index c = i" "conflict_partner rt patterns i p = Some j" using Cons.prems by auto
    obtain r0 where r0: "insert_route rt (mt_new rt) p 0 = Inr r0"
      using c(2) by (auto simp: conflict_partner_def split: sum.splits)
    have "j \<in> set [0..<i] \<and> (case insert_route rt (mt_new rt) (patterns ! j) 0 of Inl _ \<Rightarrow> False
        | Inr pair \<Rightarrow> (case insert_route rt pair p 1 of Inl _ \<Rightarrow> True | Inr _ \<Rightarrow> False))"
      by (rule find_SomeD) (use c(2) r0 in \<open>simp add: conflict_partner_def\<close>)
    then obtain pair err where j: "j < i" "insert_route rt (mt_new rt) (patterns ! j) 0 = Inr pair"
      "insert_route rt pair p 1 = Inl err"
      by (auto split: sum.splits)
    have "refusal (map fst (held pair)) (normalize_route_pattern p) \<noteq> None"
      using j(3) insert_held [of pair "normalize_route_pattern p" 1] by (auto simp: insert_route_def)
    then show ?thesis using c(1) j(1) ins [OF j(2)] ins [OF r0] by simp
  next
    case (Inr r1)
    then have ih: "Suc i \<le> pc_index c \<and> j < pc_index c \<and> refusal [] (normalize_route_pattern (patterns ! j)) = None \<and>
        (\<exists>p. pc_index c < Suc i + length ps \<and> p = ps ! (pc_index c - Suc i) \<and> refusal [] (normalize_route_pattern p) = None \<and>
        refusal [normalize_route_pattern (patterns ! j)] (normalize_route_pattern p) \<noteq> None)"
      using Cons.IH [where i = "Suc i" and r = r1] Cons.prems by simp
    then have "(p # ps) ! (pc_index c - i) = ps ! (pc_index c - Suc i)" by (simp add: nth_Cons')
    with ih show ?thesis by auto
  qed
qed simp

end

section \<open>A list as a router\<close>

text \<open>
  A router by segments: a segment in braces takes any segment, one that begins with a star takes the rest; two patterns
  with the same segments up to the names in braces are refused. The first pattern that fits answers.
\<close>

fun fit :: "string list \<Rightarrow> string list \<Rightarrow> (string \<times> string) list option" where
  "fit [] [] = Some []"
| "fit (s # ss) (p # ps) =
     (if starts_with s ''{*'' then Some [(butlast (drop 2 s), concat (map (\<lambda>x. ''/'' @ x) (p # ps)))]
      else if starts_with s ''{'' then map_option (\<lambda>r. (butlast (tl s), p) # r) (fit ss ps)
      else if s = p then fit ss ps else None)"
| "fit _ _ = None"

definition shape :: "string \<Rightarrow> string list" where
  "shape p = map (\<lambda>s. if starts_with s ''{*'' then ''{*'' else if starts_with s ''{'' then ''{'' else s) (split_char (CHR ''/'') p)"

definition list_refusal :: "string list \<Rightarrow> string \<Rightarrow> string option" where
  "list_refusal ps p = (if shape p \<in> set (map shape ps) then Some ''conflict'' else None)"

fun list_at :: "(string \<times> nat) list \<Rightarrow> string \<Rightarrow> (nat \<times> (string \<times> string) list) option" where
  "list_at [] path = None"
| "list_at ((p, v) # r) path =
     (case fit (split_char (CHR ''/'') p) (split_char (CHR ''/'') path) of
        Some params \<Rightarrow> Some (v, params)
      | None \<Rightarrow> list_at r path)"

definition list_router :: "(string \<times> nat) list matchit" where
  "list_router =
     \<lparr>mt_new = [],
      mt_insert = (\<lambda>r p v. case list_refusal (map fst r) p of Some e \<Rightarrow> Inl e | None \<Rightarrow> Inr (r @ [(p, v)])),
      mt_at = list_at\<rparr>"

lemma list_at_held: "list_at r path = Some (v, params) \<Longrightarrow> v \<in> snd ` set r"
  by (induction r path rule: list_at.induct) (auto split: option.splits)

interpretation list_paths: path_router list_router "\<lambda>r. r" list_refusal
  by unfold_locales (auto simp: list_router_def intro: list_at_held)

section \<open>Properties\<close>

text \<open>
  C34: A route id is the route's place in the manifest, everywhere. After an install that succeeded, the tables are
  parallel to the routes: a route's cache directives and its compiled expressions are found under its own index, a
  catch-all has none compiled; and whatever a request path matches is a route of the manifest, reported as not found
  exactly when that route is a catch-all.
\<close>

theorem install_alignment:
  assumes "path_router rt held refusal" and "install_with_config rt tgt configs old = (Ok n, t)" and "length configs < 2 ^ 32"
  shows "n = length configs \<and>
    (\<forall>i < length configs. cache_for t i = rc_cache (configs ! i) \<and>
       (\<exists>cc. compiled_cache_for t i = Some cc \<and> compiled_as tgt (configs ! i) cc)) \<and>
    (\<forall>i. i < length configs \<or> cache_for t i = None \<and> compiled_cache_for t i = None) \<and>
    (case match_route rt percent_decode t path of
       None \<Rightarrow> True
     | Some m \<Rightarrow> rm_route_id m < length configs \<and> (rm_not_found m \<longleftrightarrow> rc_not_found (configs ! rm_route_id m)))"
proof -
  have h: "holds held tgt configs t"
    using path_router.install_holds [OF assms(1,2)] assms(3) by simp
  have "n = length configs" using assms(2,3) by (auto simp: install_with_config_def split: sum.splits)
  moreover have "length (tb_compiled_caches t) = length configs" "length (tb_cache_configs t) = length configs"
    using h by (auto simp: holds_def list_all2_lengthD)
  moreover have "cache_for t i = rc_cache (configs ! i) \<and> (\<exists>cc. compiled_cache_for t i = Some cc \<and> compiled_as tgt (configs ! i) cc)"
    if "i < length configs" for i
    using h that by (auto simp: holds_def cache_for_def compiled_cache_for_def list_all2_conv_all_nth)
  moreover have "case match_route rt percent_decode t path of
       None \<Rightarrow> True
     | Some m \<Rightarrow> rm_route_id m < length configs \<and> (rm_not_found m \<longleftrightarrow> rc_not_found (configs ! rm_route_id m))"
    using path_router.match_route_held [OF assms(1) h] by (auto split: option.splits)
  ultimately show ?thesis by (auto simp: cache_for_def compiled_cache_for_def)
qed

definition demo_route :: "string \<Rightarrow> bool \<Rightarrow> route_config" where
  "demo_route p nf = \<lparr>rc_path = p, rc_cache = None, rc_not_found = nf, rc_not_found_prefix = []\<rparr>"

definition demo_table :: "(string \<times> nat) list route_table" where
  "demo_table = snd (install_with_config list_router Workers [demo_route ''/a/{x}'' False, demo_route ''*'' True] (table_new list_router))"

lemma demo_installed:
  "install_with_config list_router Workers [demo_route ''/a/{x}'' False, demo_route ''*'' True] (table_new list_router) = (Ok 2, demo_table)"
proof -
  have "fst (install_with_config list_router Workers [demo_route ''/a/{x}'' False, demo_route ''*'' True] (table_new list_router)) = Ok 2"
    by (simp add: install_with_config_def demo_route_def insert_route_def list_router_def table_new_def list_refusal_def
        compile_cache_def)
  then show ?thesis unfolding demo_table_def by (metis prod.collapse)
qed

theorem install_alignment_witness:
  "(case match_route list_router id demo_table ''/nowhere'' of None \<Rightarrow> True | Some m \<Rightarrow> rm_route_id m < 2) \<and>
   cache_for demo_table 1 = None"
  using install_alignment [OF list_paths.path_router_axioms demo_installed, of id "''/nowhere''"]
  by (auto simp: demo_route_def nth_Cons' split: option.splits)

text \<open>
  The build's check and the server's install agree: when an install succeeds the check finds no conflict among the
  routed patterns, and when it stops at a pattern the check reports that pattern with the same message. (An install may
  stop before, at a cache expression the check does not read.)
\<close>

theorem conflict_check_agrees:
  assumes "path_router rt held refusal"
  shows "case fst (install_with_config rt tgt configs old) of
      Inr _ \<Rightarrow> find_pattern_conflict rt (map rc_path (filter (\<lambda>c. \<not> rc_not_found c) configs)) = None
    | Inl (InsertError p e) \<Rightarrow>
        \<exists>c. find_pattern_conflict rt (map rc_path (filter (\<lambda>c. \<not> rc_not_found c) configs)) = Some c \<and> pc_message c = InsertError p e
    | Inl (CacheExpr _ _ _) \<Rightarrow> True"
proof -
  let ?ps = "map rc_path (filter (\<lambda>c. \<not> rc_not_found c) configs)"
  have "case install_loop rt tgt 0 configs (table_new rt) of
      Inr _ \<Rightarrow> conflict_loop rt ?ps 0 ?ps (mt_new rt) = None
    | Inl (InsertError p e) \<Rightarrow> \<exists>c. conflict_loop rt ?ps 0 ?ps (mt_new rt) = Some c \<and> pc_message c = InsertError p e
    | Inl (CacheExpr _ _ _) \<Rightarrow> True"
    by (rule path_router.install_conflict [OF assms]) (simp add: table_new_def)
  then show ?thesis
    unfolding install_with_config_def find_pattern_conflict_def
    by (cases "install_loop rt tgt 0 configs (table_new rt)") simp_all
qed

theorem conflict_check_agrees_witness:
  "find_pattern_conflict list_router [''/a/{x}''] = None"
  using conflict_check_agrees [OF list_paths.path_router_axioms, where tgt = Workers and old = "table_new list_router"
      and configs = "[demo_route ''/a/{x}'' False, demo_route ''*'' True]"]
  by (simp add: demo_installed) (simp add: demo_route_def)

text \<open>The dev token never reaches a loader, and every other header does, in order.\<close>

lemma envelope_headers:
  "REQUEST_TOKEN_HEADER \<notin> fst ` set (re_headers (build_request_envelope m p q hs sr)) \<and>
   re_headers (build_request_envelope m p q hs sr) =
     map (\<lambda>(n, v). (n, from_utf8_or_default v)) (filter (\<lambda>(n, _). n \<noteq> [] \<and> n \<noteq> REQUEST_TOKEN_HEADER) hs)"
  by (auto simp: build_request_envelope_def Let_def)

text \<open>The query never decides the route.\<close>

lemma match_route_query:
  "CHR ''?'' \<notin> set p \<Longrightarrow> match_route rt pd t (p @ CHR ''?'' # q) = match_route rt pd t p"
proof -
  assume p: "CHR ''?'' \<notin> set p"
  then have "split_once_char (CHR ''?'') (p @ CHR ''?'' # q) = Some (p, q)" by (simp add: split_once_char_Some)
  moreover have "split_once_char (CHR ''?'') p = None"
  proof (rule ccontr)
    assume "split_once_char (CHR ''?'') p \<noteq> None"
    then obtain a b where "split_once_char (CHR ''?'') p = Some (a, b)" by auto
    then have "p = a @ CHR ''?'' # b" by (rule iffD1 [OF split_once_char_Some, THEN conjunct1])
    then show False using p by simp
  qed
  ultimately show ?thesis by (simp add: match_route_def)
qed

end
