(* ===== verification/Manifest.thy ===== *)
theory Manifest
  imports Inputs Routes StaticRules Config
begin

text \<open>
  The build's output as the server reads it (\<^verbatim>\<open>crates/brust-core/src/manifest.rs\<close>): its records and every
  check made at boot. The parse of the JSON text is \<^verbatim>\<open>serde_json\<close>'s; the file system (or the in-memory
  file table) is the argument \<open>file\<close> of \<open>walk\<close>. Error texts are the constructors of \<open>manifest_error\<close>.
\<close>

section \<open>Records\<close>

record route_record =
  rr_id :: string
  rr_pattern :: string
  rr_chain :: "string list"
  rr_loaders :: "string list"
  rr_cache :: "route_cache option"
  rr_catch_all :: bool
  rr_css :: "string list"

datatype tier = StaticTier | NativeTier | ReactTier

datatype job_kind = Precompute | Ssr

record job_cache =
  jc_key :: "string option"
  jc_tags :: "string list"
  jc_ttl_seconds :: "nat option"

record job_record =
  jr_id :: string
  jr_kind :: job_kind
  jr_inputs :: "string list"
  jr_per_instance :: "string option"
  jr_cache :: job_cache
  jr_outputs :: "string list"
  jr_target :: "string option"
  jr_props :: "string btree option"

definition ALL_PROPS :: string where
  "ALL_PROPS = ''*''"

datatype instances = StaticInstance | PerRow string | PerRowLiteral

record 'n child_record =
  ch_id :: string
  ch_instances :: instances
  ch_props :: "string btree"
  ch_literals :: "'n node btree"
  ch_exprs :: "string btree"
  ch_rows :: "'n jval option"
  ch_when :: "'n row_guard option"

record 'n component_record =
  cr_tier :: tier
  cr_template :: string
  cr_jobs :: "job_record list"
  cr_children :: "'n child_record list"
  cr_client :: "string option"
  cr_needs_worker :: bool
  cr_use_id_slots :: nat
  cr_stores :: "string list"
  cr_features :: "string list"

record assets =
  as_runtime :: string
  as_react :: "string option"
  as_features :: "string btree"
  as_nav :: "string option"
  as_build :: "string option"

record 'n manifest =
  mf_version :: nat
  mf_routes :: "route_record list"
  mf_components :: "'n component_record btree"
  mf_assets :: assets
  mf_jobs_module :: string
  mf_actions_only :: bool
  mf_base_path :: string
  mf_trailing_slash :: trailing_slash

definition child_binds :: "'n child_record \<Rightarrow> string \<Rightarrow> bool" where
  "child_binds ch name \<longleftrightarrow>
     map_of (ch_props ch) name \<noteq> None \<or> map_of (ch_literals ch) name \<noteq> None \<or> map_of (ch_exprs ch) name \<noteq> None"

definition MANIFEST_VERSION :: nat where
  "MANIFEST_VERSION = 3"

text \<open>The wire form of the instances.\<close>

definition instances_parse :: "string \<Rightarrow> instances option" where
  "instances_parse s =
     (if s = ''static'' then Some StaticInstance
      else if s = ''per-row-literal'' then Some PerRowLiteral
      else case strip_prefix ''per-row:'' s of
        Some p \<Rightarrow> if p = [] then None else Some (PerRow p)
      | None \<Rightarrow> None)"

section \<open>Errors\<close>

datatype job_problem = OutputNotIdent string | PerInstanceOutputs nat | SsrOutputs nat | UnknownTarget string

datatype path_problem =
    NotAPath input_error
  | IdxNeedsPerInstance
  | IdxInInputs
  | RowsMisplaced
  | IdxNeedsPerRow
  | BoundTwice
  | NotAnExpression string

datatype manifest_error =
    FileError string
  | ManifestVersion nat
  | BadBasePath string
  | UnknownComponent string string
  | MissingFile string string
  | BadCss string string
  | UncoveredInput string string string string
  | BadJob string string job_problem
  | MissingFeature string string
  | BadPath string string string path_problem

section \<open>Checks\<close>

definition try_each :: "('a \<Rightarrow> 'e + unit) \<Rightarrow> 'a list \<Rightarrow> 'e + unit" where
  "try_each f xs = bind_result (map_result f xs) (\<lambda>_. Ok ())"

abbreviation require :: "bool \<Rightarrow> 'e \<Rightarrow> 'e + unit" where
  "require b e \<equiv> if b then Ok () else Err e"

abbreviation andthen :: "'e + unit \<Rightarrow> 'e + 'a \<Rightarrow> 'e + 'a" where
  "andthen a b \<equiv> bind_result a (\<lambda>_. b)"

definition is_ident :: "string \<Rightarrow> bool" where
  "is_ident s \<longleftrightarrow>
     (case s of
        [] \<Rightarrow> False
      | c # r \<Rightarrow>
          (is_ascii_lowercase c \<or> is_ascii_uppercase c \<or> c = CHR ''_'') \<and>
          list_all (\<lambda>c. is_ascii_alphanumeric c \<or> c = CHR ''_'') r)"

definition check_path :: "string \<Rightarrow> string \<Rightarrow> string \<Rightarrow> manifest_error + path" where
  "check_path cid field p =
     (case path_parse p of Inr q \<Rightarrow> Ok q | Inl e \<Rightarrow> Err (BadPath cid field p (NotAPath e)))"

definition check_job :: "string \<Rightarrow> job_record \<Rightarrow> manifest_error + unit" where
  "check_job cid j =
     andthen (try_each (\<lambda>out. require (is_ident out) (BadJob cid (jr_id j) (OutputNotIdent out))) (jr_outputs j))
     (andthen (require (jr_per_instance j = None \<or> length (jr_outputs j) = 1)
                 (BadJob cid (jr_id j) (PerInstanceOutputs (length (jr_outputs j)))))
     (andthen (require (jr_kind j \<noteq> Ssr \<or> length (jr_outputs j) \<le> 1)
                 (BadJob cid (jr_id j) (SsrOutputs (length (jr_outputs j)))))
     (andthen (case jr_props j of
                 None \<Rightarrow> Ok ()
               | Some props \<Rightarrow> try_each (\<lambda>(prop, src).
                   let field = ''job '' @ jr_id j @ '' props.'' @ prop
                   in bind_result (check_path cid field src) (\<lambda>p.
                        require (\<not> (has_idx p \<and> jr_per_instance j = None)) (BadPath cid field src IdxNeedsPerInstance))) props)
     (andthen (try_each (\<lambda>i.
                 let field = ''job '' @ jr_id j @ '' inputs''
                 in bind_result (check_path cid field i) (\<lambda>p. require (\<not> has_idx p) (BadPath cid field i IdxInInputs)))
                 (filter (\<lambda>i. i \<noteq> ALL_PROPS) (jr_inputs j)))
     (andthen (case jc_key (jr_cache j) of
                 None \<Rightarrow> Ok ()
               | Some k \<Rightarrow> bind_result (check_path cid (''job '' @ jr_id j @ '' cache.key'') k) (\<lambda>_. Ok ()))
     (case jr_per_instance j of
        None \<Rightarrow> Ok ()
      | Some p \<Rightarrow> bind_result (check_path cid (''job '' @ jr_id j @ '' per_instance'') p) (\<lambda>_. Ok ())))))))"

definition check_child :: "('n, 'x) expressions \<Rightarrow> string \<Rightarrow> 'n child_record \<Rightarrow> manifest_error + unit" where
  "check_child ex cid ch =
     bind_result (case ch_instances ch of
                    PerRow list \<Rightarrow> bind_result (check_path cid (''child '' @ ch_id ch @ '' instances'') list) (\<lambda>_. Ok True)
                  | _ \<Rightarrow> Ok False) (\<lambda>per_row.
     let literal = ch_instances ch = PerRowLiteral;
         rows_ok = (case ch_rows ch of Some (VArr _) \<Rightarrow> literal | Some _ \<Rightarrow> False | None \<Rightarrow> \<not> literal)
     in andthen (require rows_ok (BadPath cid (''child '' @ ch_id ch @ '' rows'') ''rows'' RowsMisplaced))
        (andthen (try_each (\<lambda>(prop, src).
                    let field = ''child '' @ ch_id ch @ '' props.'' @ prop
                    in bind_result (check_path cid field src) (\<lambda>p.
                         require (\<not> (has_idx p \<and> \<not> per_row)) (BadPath cid field src IdxNeedsPerRow))) (ch_props ch))
        (andthen (try_each (\<lambda>prop.
                    let twice = map_of (ch_props ch) prop \<noteq> None \<or>
                          map_of (ch_literals ch) prop \<noteq> None \<and> map_of (ch_exprs ch) prop \<noteq> None
                    in require (\<not> twice) (BadPath cid (''child '' @ ch_id ch @ '' '' @ prop) prop BoundTwice))
                    (map fst (ch_literals ch) @ map fst (ch_exprs ch)))
        (try_each (\<lambda>(prop, src).
            case compile_expr ex src of
              Inr _ \<Rightarrow> Ok ()
            | Inl e \<Rightarrow> Err (BadPath cid (''child '' @ ch_id ch @ '' exprs.'' @ prop) src (NotAnExpression e))) (ch_exprs ch)))))"

definition check_paths :: "('n, 'x) expressions \<Rightarrow> string \<Rightarrow> 'n component_record \<Rightarrow> manifest_error + unit" where
  "check_paths ex cid c =
     andthen (try_each (check_job cid) (cr_jobs c)) (try_each (check_child ex cid) (cr_children c))"

definition input_root :: "string \<Rightarrow> string" where
  "input_root input =
     (let s = (case strip_prefix ''props.'' input of Some r \<Rightarrow> r | None \<Rightarrow> input)
      in takeWhile (\<lambda>c. c \<noteq> CHR ''.'' \<and> c \<noteq> CHR ''['') s)"

datatype file_use = TemplateFile | ClientFile | AssetFile

definition is_base_path :: "string \<Rightarrow> bool" where
  "is_base_path p \<longleftrightarrow>
     (case p of
        [] \<Rightarrow> False
      | c # r \<Rightarrow> r \<noteq> [] \<and> c = CHR ''/'' \<and>
          list_all (\<lambda>s. s \<noteq> [] \<and> s \<noteq> ''.'' \<and> s \<noteq> ''..'' \<and>
             list_all (\<lambda>b. is_ascii_alphanumeric b \<or> b \<in> {CHR ''.'', CHR ''_'', CHR ''~'', CHR ''-''}) s)
            (split_char (CHR ''/'') r))"

type_synonym file_fn = "string \<Rightarrow> string \<Rightarrow> file_use \<Rightarrow> manifest_error + string option"

abbreviation touch :: "file_fn \<Rightarrow> string \<Rightarrow> string \<Rightarrow> file_use \<Rightarrow> manifest_error + unit" where
  "touch file cid rel used \<equiv> bind_result (file cid rel used) (\<lambda>_. Ok ())"

definition walk_route :: "file_fn \<Rightarrow> 'n manifest \<Rightarrow> route_record \<Rightarrow> manifest_error + unit" where
  "walk_route file m r =
     andthen (try_each (\<lambda>c. require (map_of (mf_components m) c \<noteq> None) (UnknownComponent (rr_id r) c)) (rr_chain r))
     (try_each (\<lambda>p.
        case split_once_char (CHR ''/'') p of
          Some (dir, f) \<Rightarrow>
            if dir = ''client'' \<and> is_safe_css_filename f then touch file (rr_id r) p ClientFile
            else Err (BadCss (rr_id r) p)
        | None \<Rightarrow> Err (BadCss (rr_id r) p)) (rr_css r))"

definition walk_component ::
  "('n, 'x) expressions \<Rightarrow> file_fn \<Rightarrow> 'n manifest \<Rightarrow> string \<times> 'n component_record \<Rightarrow>
   manifest_error + string \<times> string option" where
  "walk_component ex file m ic =
     (let (cid, c) = ic
      in andthen (check_paths ex cid c)
         (andthen (try_each (\<lambda>j.
              case jr_target j of
                None \<Rightarrow> Ok ()
              | Some t \<Rightarrow> require (map_of (mf_components m) t \<noteq> None) (BadJob cid (jr_id j) (UnknownTarget t))) (cr_jobs c))
         (bind_result (file cid (cr_template c) TemplateFile) (\<lambda>src.
          andthen (case cr_client c of None \<Rightarrow> Ok () | Some cl \<Rightarrow> touch file cid cl ClientFile)
          (andthen (try_each (\<lambda>ch.
              case map_of (mf_components m) (ch_id ch) of
                None \<Rightarrow> Err (UnknownComponent cid (ch_id ch))
              | Some child \<Rightarrow>
                  try_each (\<lambda>j. try_each (\<lambda>i.
                      require (child_binds ch (input_root i)) (UncoveredInput cid (ch_id ch) (jr_id j) (input_root i)))
                    (filter (\<lambda>i. i \<noteq> ALL_PROPS) (jr_inputs j))) (cr_jobs child)) (cr_children c))
          (Ok (cid, src)))))))"

definition walk_assets :: "file_fn \<Rightarrow> 'n manifest \<Rightarrow> manifest_error + unit" where
  "walk_assets file m =
     (let a = mf_assets m
      in andthen (if mf_actions_only m \<and> as_runtime a = [] then Ok () else touch file ''assets'' (as_runtime a) AssetFile)
         (andthen (case as_react a of None \<Rightarrow> Ok () | Some r \<Rightarrow> touch file ''assets'' r AssetFile)
         (andthen (try_each (\<lambda>(_, f). touch file ''assets'' f AssetFile) (as_features a))
         (try_each (\<lambda>(cid, c).
            case List.find (\<lambda>f. map_of (as_features a) f = None) (cr_features c) of
              Some f \<Rightarrow> Err (MissingFeature cid f)
            | None \<Rightarrow> Ok ()) (mf_components m)))))"

definition walk ::
  "('n, 'x) expressions \<Rightarrow> file_fn \<Rightarrow> 'n manifest \<Rightarrow> manifest_error + 'n manifest \<times> string btree" where
  "walk ex file m =
     andthen (require (mf_version m = MANIFEST_VERSION) (ManifestVersion (mf_version m)))
     (andthen (require (mf_base_path m = [] \<or> is_base_path (mf_base_path m)) (BadBasePath (mf_base_path m)))
     (andthen (try_each (walk_route file m) (mf_routes m))
     (bind_result (map_result (walk_component ex file m) (mf_components m)) (\<lambda>srcs.
      andthen (walk_assets file m)
        (Ok (m, fold (\<lambda>(cid, src) t. case src of Some s \<Rightarrow> bm_insert cid s t | None \<Rightarrow> t) srcs []))))))"

text \<open>\<^verbatim>\<open>from_parts\<close>: templates from memory, other files unchecked. The parsed manifest is \<open>m\<close>.\<close>

definition parts_file :: "string btree \<Rightarrow> file_fn" where
  "parts_file files cid rel used =
     (case used of
        TemplateFile \<Rightarrow> (case map_of files rel of Some s \<Rightarrow> Ok (Some s) | None \<Rightarrow> Err (MissingFile cid rel))
      | _ \<Rightarrow> Ok None)"

definition from_parts ::
  "('n, 'x) expressions \<Rightarrow> (string \<Rightarrow> string + 'n manifest) \<Rightarrow> string \<Rightarrow> string btree \<Rightarrow>
   manifest_error + 'n manifest \<times> string btree" where
  "from_parts ex read manifest_json files =
     (case read manifest_json of
        Inl e \<Rightarrow> Err (FileError e)
      | Inr m \<Rightarrow> walk ex (parts_file files) m)"

end
