(* ===== verification/Dispatch.thy ===== *)
theory Dispatch
  imports Manifest Actions CoreState
begin

text \<open>
  One request through the core up to the page path (\<^verbatim>\<open>handle\<close> and \<^verbatim>\<open>static_file\<close> of
  \<^verbatim>\<open>crates/brust-core/src/pipeline.rs\<close>): the CORS preflight, the base path, the actions subtree, the
  actions-only mode, the method gate, \<^verbatim>\<open>/ping\<close>, the stats, static files and the trailing-slash policy. The code's
  early returns are \<open>route_request\<close>, which says who answers; \<open>pipeline_handle\<close> lets them answer. The host's files, the
  actions and the page path are arguments.
\<close>

section \<open>State\<close>

record 'r server =
  sv_routes :: "'r route_table"
  sv_records :: "route_record list"
  sv_base_path :: string
  sv_actions_only :: bool
  sv_trailing_slash :: trailing_slash
  sv_actions :: "actions_config option"
  sv_cors_resolved :: "resolved_cors option"
  sv_stats_access :: stats_access
  sv_dev_token :: "string option"

text \<open>Who answers: the core itself, the actions, the stats, a static file, or a page (for a possibly rewritten path).\<close>

datatype 'm decision =
    Respond "'m response"
  | ToActions actions_config bool
  | ToStats
  | ToStatic static_root string
  | ToPage string

section \<open>Who answers\<close>

definition path_of :: "string \<Rightarrow> string" where
  "path_of full = hd (split_char (CHR ''?'') full)"

definition routed_under :: "'r matchit \<Rightarrow> (string \<Rightarrow> string) \<Rightarrow> 'r server \<Rightarrow> actions_config \<Rightarrow> string \<Rightarrow> bool" where
  "routed_under rt percent_decode s a full =
     (case match_route rt percent_decode (sv_routes s) full of
        None \<Rightarrow> False
      | Some m \<Rightarrow>
          \<not> rm_not_found m \<and>
          (let route = sv_records s ! route_index (rm_route_id m)
           in \<not> rr_catch_all route \<and> is_under a (rr_pattern route)))"

definition preflight :: "'m http_api \<Rightarrow> 'r server \<Rightarrow> 'm request_head \<Rightarrow> 'm response option" where
  "preflight h s rq =
     (if rq_method rq = ''OPTIONS''
      then (case (sv_cors_resolved s, hm_get h (rq_headers rq) ''origin'') of
              (Some c, Some origin) \<Rightarrow>
                if hm_contains h (rq_headers rq) ''access-control-request-method''
                then map_option (\<lambda>acao. preflight_response h c acao (rq_headers rq)) (allow_origin_value h c origin)
                else None
            | _ \<Rightarrow> None)
      else None)"

definition framework_path :: "string \<Rightarrow> string \<Rightarrow> string option" where
  "framework_path base path_only =
     (if base = [] then Some path_only
      else (case strip_prefix base (normalize_request_path path_only) of
              Some rest \<Rightarrow> if rest = [] \<or> starts_with rest ''/'' then Some rest else None
            | None \<Rightarrow> None))"

definition with_query :: "string \<Rightarrow> string \<Rightarrow> string" where
  "with_query stripped full =
     (case split_once_char (CHR ''?'') full of Some (_, q) \<Rightarrow> stripped @ ''?'' @ q | None \<Rightarrow> stripped)"

definition slash_policy :: "'m http_api \<Rightarrow> trailing_slash \<Rightarrow> string \<Rightarrow> string \<Rightarrow> string \<Rightarrow> bool \<Rightarrow> 'm decision" where
  "slash_policy h policy path_only fw full head =
     (case trailing_slash_strip path_only of
        None \<Rightarrow> ToPage full
      | Some stripped \<Rightarrow>
          if trailing_slash_strip fw = Some ''/ping'' then ToPage full
          else (case policy of
                  Strict \<Rightarrow> ToPage full
                | Redirect \<Rightarrow>
                    if starts_with stripped ''//'' \<or> starts_with stripped [CHR ''/'', CHR 0x5C] then ToPage full
                    else let r = resp h 308 ''text/plain'' [(''location'', with_query stripped full)] []
                         in Respond (if head then head_only h r else r)
                | Ignore \<Rightarrow> ToPage (with_query stripped full)))"

definition static_root_of :: "string \<Rightarrow> (static_root \<times> string) option" where
  "static_root_of fw =
     (case strip_prefix ''/_brust/'' fw of
        Some rel \<Rightarrow> Some (Brust, rel)
      | None \<Rightarrow> map_option (Pair PublicRoot) (strip_prefix ''/public/'' fw))"

definition own_paths :: "'m http_api \<Rightarrow> json_printer \<Rightarrow> 'r server \<Rightarrow> 'm request_head \<Rightarrow> string \<Rightarrow> string \<Rightarrow> 'm decision" where
  "own_paths h to_json s rq path_only fw =
     (let stats = (fw = ''/_brust/cache/stats'' \<and> stats_allows h (sv_stats_access s) (rq_headers rq));
          head = (rq_method rq = ''HEAD'')
      in if sv_actions_only s \<and> fw \<noteq> ''/ping'' \<and> \<not> stats then Respond (error_404_problem h to_json)
         else if \<not> (rq_method rq = ''GET'' \<or> head) then Respond (error_405 h)
         else if fw = ''/ping'' then Respond (resp h 200 ''text/plain'' [] (''pong'' @ [CHR 0x0A]))
         else if stats then ToStats
         else (case static_root_of fw of
                 Some (root, rel) \<Rightarrow> ToStatic root rel
               | None \<Rightarrow> slash_policy h (sv_trailing_slash s) path_only fw (rq_full rq) head))"

definition route_request ::
  "'m http_api \<Rightarrow> json_printer \<Rightarrow> 'r matchit \<Rightarrow> (string \<Rightarrow> string) \<Rightarrow> 'r server \<Rightarrow> 'm request_head \<Rightarrow> 'm decision" where
  "route_request h to_json rt percent_decode s rq =
     (let full = rq_full rq; path_only = path_of full
      in case preflight h s rq of
           Some r \<Rightarrow> Respond r
         | None \<Rightarrow>
             (case framework_path (sv_base_path s) path_only of
                None \<Rightarrow> Respond (error_404 h)
              | Some fw \<Rightarrow>
                  (case sv_actions s of
                     Some a \<Rightarrow>
                       let norm = normalize_request_path path_only;
                           read = (rq_method rq = ''GET'' \<or> rq_method rq = ''HEAD'')
                       in if is_under a norm \<and> \<not> (read \<and> routed_under rt percent_decode s a full)
                          then ToActions a (rq_method rq = ''HEAD'')
                          else own_paths h to_json s rq path_only fw
                   | None \<Rightarrow> own_paths h to_json s rq path_only fw)))"

section \<open>Answering\<close>

definition serve_static ::
  "'m http_api \<Rightarrow> (static_root \<Rightarrow> string \<Rightarrow> 'm \<Rightarrow> bool \<Rightarrow> 'm response option) \<Rightarrow>
   static_root \<Rightarrow> string \<Rightarrow> 'm \<Rightarrow> bool \<Rightarrow> 'm response" where
  "serve_static h host_file root rel headers head =
     (case safe_rel (asset_lookup_key rel) root of
        None \<Rightarrow> error_404 h
      | Some rel \<Rightarrow>
          (case host_file root rel headers head of
             None \<Rightarrow> error_404 h
           | Some r \<Rightarrow>
               let hm = (if is_hashed rel then hm_insert h ''cache-control'' IMMUTABLE (resp_headers r) else resp_headers r)
               in r\<lparr>resp_headers := hm_insert h ''x-content-type-options'' ''nosniff'' hm\<rparr>))"

definition traced :: "'m http_api \<Rightarrow> 'r server \<Rightarrow> 'm \<Rightarrow> bool" where
  "traced h s headers \<longleftrightarrow>
     (case sv_dev_token s of
        None \<Rightarrow> False
      | Some t \<Rightarrow> (case hm_get h headers REQUEST_TOKEN_HEADER of None \<Rightarrow> False | Some v \<Rightarrow> v = t))"

definition RESPONSE_HEADER :: string where
  "RESPONSE_HEADER = ''x-brust-dev''"

text \<open>
  \<open>page\<close> is the page path: it is told whether to trace and gives the response and the trace's header value;
  \<open>stats_json\<close> prints the counters.
\<close>

definition pipeline_handle ::
  "'m http_api \<Rightarrow> json_printer \<Rightarrow> 'r matchit \<Rightarrow> (string \<Rightarrow> string) \<Rightarrow>
   (actions_config \<Rightarrow> bool \<Rightarrow> 's \<Rightarrow> 'm response \<times> 's) \<Rightarrow> ('s \<Rightarrow> string \<times> 's) \<Rightarrow>
   (static_root \<Rightarrow> string \<Rightarrow> 'm \<Rightarrow> bool \<Rightarrow> 'm response option) \<Rightarrow>
   (string \<Rightarrow> 'm \<Rightarrow> bool \<Rightarrow> 's \<Rightarrow> ('m response \<times> string option) \<times> 's) \<Rightarrow>
   'r server \<Rightarrow> 'm request_head \<Rightarrow> 's \<Rightarrow> 'm response \<times> 's" where
  "pipeline_handle h to_json rt percent_decode actions stats_json host_file page s rq st =
     (let head = (rq_method rq = ''HEAD'')
      in case route_request h to_json rt percent_decode s rq of
           Respond r \<Rightarrow> (r, st)
         | ToActions a hf \<Rightarrow> actions a hf st
         | ToStats \<Rightarrow>
             let (json, st) = stats_json st
             in (resp h 200 ''application/json'' [(''cache-control'', ''no-store'')] json, st)
         | ToStatic root rel \<Rightarrow> (serve_static h host_file root rel (rq_headers rq) head, st)
         | ToPage full \<Rightarrow>
             let tr = traced h s (rq_headers rq);
                 ((r, trace), st) = page full (rq_headers rq) tr st;
                 r = (case (if tr then trace else None) of
                        Some v \<Rightarrow> r\<lparr>resp_headers := hm_insert h RESPONSE_HEADER v (resp_headers r)\<rparr>
                      | None \<Rightarrow> r)
             in (if head then head_only h r else r, st))"

section \<open>Paths and their trailing slashes\<close>

lemma path_of_split: "path_of full = (case split_once_char (CHR ''?'') full of Some (p, _) \<Rightarrow> p | None \<Rightarrow> full)"
proof (induction full)
  case (Cons c full)
  then show ?case by (auto simp: path_of_def split: list.splits option.splits)
qed (simp add: path_of_def)

lemma path_of_no_query [simp]: "CHR ''?'' \<notin> set (path_of full)"
proof (cases "split_once_char (CHR ''?'') full")
  case None
  have "CHR ''?'' \<notin> set full"
  proof
    assume "CHR ''?'' \<in> set full"
    then obtain a b where "full = a @ CHR ''?'' # b" "CHR ''?'' \<notin> set a" by (meson split_list_first)
    then have "split_once_char (CHR ''?'') full = Some (a, b)" by (simp add: split_once_char_Some)
    then show False using None by simp
  qed
  then show ?thesis using None by (simp add: path_of_split)
next
  case (Some pq)
  then show ?thesis using split_once_char_Some [of "CHR ''?''" full "fst pq" "snd pq"] by (simp add: path_of_split case_prod_unfold)
qed

lemma path_of_append: "CHR ''?'' \<notin> set p \<Longrightarrow> path_of (p @ CHR ''?'' # q) = p"
proof -
  assume "CHR ''?'' \<notin> set p"
  then have "split_once_char (CHR ''?'') (p @ CHR ''?'' # q) = Some (p, q)" by (simp add: split_once_char_Some)
  then show ?thesis by (simp add: path_of_split)
qed

lemma path_of_plain: "CHR ''?'' \<notin> set p \<Longrightarrow> path_of p = p"
  by (induction p) (auto simp: path_of_def split: list.splits)

lemma path_of_with_query: "CHR ''?'' \<notin> set p \<Longrightarrow> path_of (with_query p full) = p"
  by (auto simp: with_query_def path_of_append path_of_plain split: option.splits)

lemma trim_end_slashes_snoc:
  "trim_end_slashes [] = []" "trim_end_slashes (p @ [c]) = (if c = CHR ''/'' then trim_end_slashes p else p @ [c])"
  by (simp_all add: trim_end_slashes_def)

lemma trim_end_slashes_decomp: "\<exists>n. p = trim_end_slashes p @ replicate n (CHR ''/'')"
proof (induction p rule: rev_induct)
  case (snoc c p)
  then obtain n where n: "p = trim_end_slashes p @ replicate n (CHR ''/'')" by blast
  show ?case
  proof (cases "c = CHR ''/''")
    case True
    have "p @ [c] = trim_end_slashes p @ replicate (Suc n) (CHR ''/'')"
      using arg_cong [OF n, of "\<lambda>x. x @ [CHR ''/'']"] by (simp add: True replicate_append_same)
    moreover have "trim_end_slashes (p @ [c]) = trim_end_slashes p" using True by (simp add: trim_end_slashes_snoc)
    ultimately show ?thesis by metis
  next
    case False
    then have "p @ [c] = trim_end_slashes (p @ [c]) @ replicate 0 (CHR ''/'')" by (simp add: trim_end_slashes_snoc)
    then show ?thesis by blast
  qed
qed (simp add: trim_end_slashes_snoc)

lemma trim_end_slashes_last: "trim_end_slashes p \<noteq> [] \<Longrightarrow> last (trim_end_slashes p) \<noteq> CHR ''/''"
  by (induction p rule: rev_induct) (auto simp: trim_end_slashes_snoc)

lemma ends_with_slash: "ends_with p ''/'' \<longleftrightarrow> p \<noteq> [] \<and> last p = CHR ''/''"
  by (auto simp: ends_with_iff) (metis append_butlast_last_id)

text \<open>What \<^verbatim>\<open>strip\<close> gives: the path without its trailing slashes, which has none itself unless it is the root.\<close>

lemma trailing_slash_strip_Some:
  assumes "trailing_slash_strip p = Some q"
  shows "\<exists>n. p = (if q = ''/'' \<and> trim_end_slashes p = [] then [] else q) @ replicate (Suc n) (CHR ''/'')"
    and "trailing_slash_strip q = None" and "q \<noteq> []" and "set q \<subseteq> set p" and "starts_with p ''/'' \<Longrightarrow> starts_with q ''/''"
proof -
  have e: "ends_with p ''/''" and len: "1 < length p" and q: "q = (if trim_end_slashes p = [] then ''/'' else trim_end_slashes p)"
    using assms by (auto simp: trailing_slash_strip_def Let_def split: if_splits)
  obtain n where n: "p = trim_end_slashes p @ replicate n (CHR ''/'')" using trim_end_slashes_decomp by blast
  have "p \<noteq> []" "last p = CHR ''/''" using e by (auto simp: ends_with_slash)
  then have "n \<noteq> 0"
    using n trim_end_slashes_last [of p] by (metis append_Nil2 replicate_0)
  then obtain m where m: "n = Suc m" by (cases n) auto
  show "\<exists>n. p = (if q = ''/'' \<and> trim_end_slashes p = [] then [] else q) @ replicate (Suc n) (CHR ''/'')"
    using n m q by auto
  show "trailing_slash_strip q = None"
    using q trim_end_slashes_last [of p]
    by (auto simp: trailing_slash_strip_def ends_with_slash)
  show "q \<noteq> []" using q by auto
  show "set q \<subseteq> set p"
  proof -
    have "set (trim_end_slashes p) \<subseteq> set p" by (subst (2) n) auto
    moreover have "CHR ''/'' \<in> set p" by (subst n) (simp add: m)
    ultimately show ?thesis using q by auto
  qed
  show "starts_with q ''/''" if sl: "starts_with p ''/''"
  proof (cases "trim_end_slashes p")
    case (Cons c t)
    obtain r where "p = CHR ''/'' # r" using sl by (auto simp: starts_with_iff)
    then have "c = CHR ''/''" using n Cons by (metis append_Cons list.inject)
    then show ?thesis using q Cons by (simp add: starts_with_iff)
  qed (use q in \<open>simp add: starts_with_iff\<close>)
qed

section \<open>Properties\<close>

lemma slash_policy_page:
  "slash_policy h policy p fw full head = ToPage full' \<Longrightarrow>
     full' = full \<or> (policy = Ignore \<and> (\<exists>q. trailing_slash_strip p = Some q \<and> full' = with_query q full))"
  by (auto simp: slash_policy_def Let_def split: option.splits trailing_slash.splits if_splits)

text \<open>
  C35: Only what is a page reaches the page path: a GET or HEAD, of an app with pages, below its base path, that is neither
  the ping nor the readable stats nor a static file, and either not under the actions prefix or claimed by a route
  declared there. The path handed on is the request's own, or under the ignore policy the same without its trailing
  slashes, with the same query.
\<close>

theorem pages_only:
  assumes "route_request h to_json rt percent_decode s rq = ToPage full"
  shows "rq_method rq \<in> {''GET'', ''HEAD''} \<and> \<not> sv_actions_only s \<and>
    (\<exists>fw. framework_path (sv_base_path s) (path_of (rq_full rq)) = Some fw \<and> fw \<noteq> ''/ping'' \<and>
       static_root_of fw = None \<and> \<not> (fw = ''/_brust/cache/stats'' \<and> stats_allows h (sv_stats_access s) (rq_headers rq))) \<and>
    (case sv_actions s of
       None \<Rightarrow> True
     | Some a \<Rightarrow> \<not> is_under a (normalize_request_path (path_of (rq_full rq))) \<or> routed_under rt percent_decode s a (rq_full rq)) \<and>
    (full = rq_full rq \<or>
     (sv_trailing_slash s = Ignore \<and>
      (\<exists>q. trailing_slash_strip (path_of (rq_full rq)) = Some q \<and> full = with_query q (rq_full rq))))"
proof -
  obtain fw where fw: "framework_path (sv_base_path s) (path_of (rq_full rq)) = Some fw"
    using assms by (auto simp: route_request_def Let_def split: option.splits)
  have act: "case sv_actions s of
       None \<Rightarrow> True
     | Some a \<Rightarrow> \<not> is_under a (normalize_request_path (path_of (rq_full rq))) \<or> routed_under rt percent_decode s a (rq_full rq)"
    and own: "own_paths h to_json s rq (path_of (rq_full rq)) fw = ToPage full"
    using assms fw by (auto simp: route_request_def Let_def split: option.splits if_splits)
  have "rq_method rq \<in> {''GET'', ''HEAD''}" "\<not> sv_actions_only s" "fw \<noteq> ''/ping''" "static_root_of fw = None"
    "\<not> (fw = ''/_brust/cache/stats'' \<and> stats_allows h (sv_stats_access s) (rq_headers rq))"
    and sl: "slash_policy h (sv_trailing_slash s) (path_of (rq_full rq)) fw (rq_full rq) (rq_method rq = ''HEAD'') = ToPage full"
    using own unfolding own_paths_def Let_def by (auto split: if_splits option.splits)
  then show ?thesis using fw act slash_policy_page [OF sl] by blast
qed

definition demo_server :: "trailing_slash \<Rightarrow> (string \<times> nat) list server" where
  "demo_server policy =
     \<lparr>sv_routes = table_new list_router, sv_records = [], sv_base_path = [], sv_actions_only = False,
      sv_trailing_slash = policy, sv_actions = None, sv_cors_resolved = None, sv_stats_access = Off, sv_dev_token = None\<rparr>"

definition demo_get :: "string \<Rightarrow> (string \<times> string) list request_head" where
  "demo_get full = \<lparr>rq_method = ''GET'', rq_full = full, rq_headers = [], rq_authority = None\<rparr>"

theorem pages_only_witness:
  "(\<exists>q. trailing_slash_strip ''/a/'' = Some q \<and> ''/a?x=1'' = with_query q ''/a/?x=1'') \<and>
   (\<exists>fw. framework_path [] (path_of ''/a/?x=1'') = Some fw \<and> static_root_of fw = None)"
proof -
  have "route_request list_http (\<lambda>_. []) list_router id (demo_server Ignore) (demo_get ''/a/?x=1'') = ToPage ''/a?x=1''"
    by code_simp
  from pages_only [OF this] show ?thesis
    by (auto simp: demo_server_def demo_get_def path_of_split)
qed

text \<open>
  The trailing-slash redirect stays on the site and ends. When a request for a path is answered by a redirect, its
  location is that path without trailing slashes and with its query: it begins with one slash, followed by neither a
  slash nor a backslash (so no browser reads it as another host), and it has no trailing slash to redirect again.
\<close>

theorem redirect_same_site:
  assumes "http_headers h" and "starts_with (rq_full rq) ''/''"
    and "route_request h to_json rt percent_decode s rq = Respond r" and "resp_status r = 308"
    and "loc \<in> set (hm_get_all h (resp_headers r) ''location'')"
  shows "sv_trailing_slash s = Redirect \<and>
    (\<exists>q. trailing_slash_strip (path_of (rq_full rq)) = Some q \<and> loc = with_query q (rq_full rq)) \<and>
    starts_with loc ''/'' \<and> \<not> starts_with loc ''//'' \<and> \<not> starts_with loc [CHR ''/'', CHR 0x5C] \<and>
    trailing_slash_strip (path_of loc) = None"
proof -
  have stat: "resp_status (resp h st ct ex b) = (if 100 \<le> st \<and> st < 1000 then st else 500)" for st ct ex b
    using http_headers.status_iff [OF assms(1), of st] by (simp add: resp_def resp_with_def)
  have pre: "preflight h s rq \<noteq> Some r"
  proof
    assume "preflight h s rq = Some r"
    then have "resp_status r = 204"
      using http_headers.status_iff [OF assms(1), of 204]
      by (auto simp: preflight_def preflight_response_def Let_def resp_with_def split: if_splits option.splits)
    then show False using assms(4) by simp
  qed
  have e: "r \<noteq> error_404 h" "r \<noteq> error_405 h" "r \<noteq> error_404_problem h to_json" "r \<noteq> resp h 200 ''text/plain'' [] b" for b
    using assms(4) by (auto simp: error_404_def error_405_def error_404_problem_def problem_def stat)
  obtain fw where "own_paths h to_json s rq (path_of (rq_full rq)) fw = Respond r"
    using assms(3) pre e(1) by (auto simp: route_request_def Let_def split: option.splits if_splits)
  then have "slash_policy h (sv_trailing_slash s) (path_of (rq_full rq)) fw (rq_full rq) (rq_method rq = ''HEAD'') = Respond r"
    using e(2-) unfolding own_paths_def Let_def by (auto split: if_splits option.splits)
  then obtain q where q: "trailing_slash_strip (path_of (rq_full rq)) = Some q" "sv_trailing_slash s = Redirect"
    "\<not> starts_with q ''//''" "\<not> starts_with q [CHR ''/'', CHR 0x5C]"
    "resp_headers r = resp_headers (resp h 308 ''text/plain'' [(''location'', with_query q (rq_full rq))] []) \<or>
     resp_headers r = resp_headers (head_only h (resp h 308 ''text/plain'' [(''location'', with_query q (rq_full rq))] []))"
    by (auto simp: slash_policy_def Let_def split: option.splits trailing_slash.splits if_splits)
  have "set (hm_get_all h (resp_headers (resp h 308 ''text/plain'' [(''location'', v)] [])) ''location'') \<subseteq> {v}" for v
    by (auto simp: resp_def resp_with_def http_headers.get_all_header_map [OF assms(1)] contributes_def split: if_splits)
  moreover have "loc \<in> set (hm_get_all h (resp_headers (resp h 308 ''text/plain'' [(''location'', with_query q (rq_full rq))] [])) ''location'')"
    using q(5) assms(5) http_headers.get_all_insert [OF assms(1)] by (auto simp: head_only_def)
  ultimately have loc: "loc = with_query q (rq_full rq)" by blast
  note S = trailing_slash_strip_Some [OF q(1)]
  obtain r' where "rq_full rq = CHR ''/'' # r'" using assms(2) by (auto simp: starts_with_iff)
  then have "starts_with (path_of (rq_full rq)) ''/''" by (auto simp: path_of_split starts_with_iff split: option.splits)
  from S(5) [OF this] obtain t where t: "q = CHR ''/'' # t" by (auto simp: starts_with_iff)
  obtain u where u: "loc = q @ u" "u = [] \<or> (\<exists>w. u = CHR ''?'' # w)" using loc by (auto simp: with_query_def split: option.splits)
  have "\<not> starts_with loc [CHR ''/'', c]" if "\<not> starts_with q [CHR ''/'', c]" "c \<noteq> CHR ''?''" for c
    using that u t by (cases t) (auto simp: starts_with_iff)
  then have "starts_with loc ''/''" "\<not> starts_with loc ''//''" "\<not> starts_with loc [CHR ''/'', CHR 0x5C]"
    using q(3,4) u t by (auto simp: starts_with_iff)
  moreover have "CHR ''?'' \<notin> set q" using S(4) path_of_no_query by blast
  then have "trailing_slash_strip (path_of loc) = None" using S(2) by (simp add: loc path_of_with_query)
  ultimately show ?thesis using q(1,2) loc by blast
qed

theorem redirect_same_site_witness:
  "\<not> starts_with ''/a?x=1'' ''//''"
proof -
  let ?r = "resp list_http 308 ''text/plain'' [(''location'', ''/a?x=1'')] []"
  have "route_request list_http (\<lambda>_. []) list_router id (demo_server Redirect) (demo_get ''/a/?x=1'') = Respond ?r"
    by code_simp
  then show ?thesis
    using redirect_same_site [OF list_headers.http_headers_axioms, of "demo_get ''/a/?x=1''" "\<lambda>_. []" list_router id
        "demo_server Redirect" ?r "''/a?x=1''"]
    by (simp add: demo_get_def starts_with_iff)
qed



text \<open>
  The stats leave no trace for a client that may not read them: without base path and actions, their path is answered like
  a file that does not exist.
\<close>

lemma stats_hidden:
  assumes "sv_base_path s = []" and "sv_actions s = None" and "\<not> sv_actions_only s" and "rq_method rq = ''GET''"
    and "path_of (rq_full rq) = ''/_brust/cache/stats''" and "\<not> stats_allows h (sv_stats_access s) (rq_headers rq)"
  shows "pipeline_handle h to_json rt pd actions stats_json host_file page s rq st = (error_404 h, st)"
proof -
  have sr: "static_root_of ''/_brust/cache/stats'' = Some (Brust, ''cache/stats'')" by code_simp
  have none: "safe_rel (asset_lookup_key ''cache/stats'') Brust = None" by code_simp
  have "route_request h to_json rt pd s rq = ToStatic Brust ''cache/stats''"
    using assms by (simp add: route_request_def framework_path_def own_paths_def preflight_def Let_def sr)
  then show ?thesis by (simp add: pipeline_handle_def Let_def serve_static_def none)
qed

end
