(* ===== verification/Html.thy ===== *)
theory Html
  imports Node
begin

text \<open>
  Text going into HTML (\<^verbatim>\<open>crates/brust-jinja/src/lib.rs\<close> and the writer of \<^verbatim>\<open>ctx.rs\<close>): the escapes
  of text and attributes, \<^verbatim>\<open>json_attr\<close> of the render tree, the rule for URLs in attributes, the attribute tables
  and the names of CSS properties. A scan over the bytes that copies unescaped runs whole is a concatenation of the
  replacements of the single bytes.
\<close>

section \<open>Escapes\<close>

definition escape_byte :: "char \<Rightarrow> string" where
  "escape_byte b =
     (if b = CHR ''&'' then ''&amp;''
      else if b = CHR ''<'' then ''&lt;''
      else if b = CHR ''>'' then ''&gt;''
      else if b = CHR 0x22 then ''&quot;''
      else if b = CHR 0x27 then ''&#39;''
      else [b])"

definition escape_text :: "string \<Rightarrow> string" where
  "escape_text s = concat (map escape_byte s)"

definition escape_attr :: "string \<Rightarrow> string" where
  "escape_attr = escape_text"

definition hex_lower :: "nat \<Rightarrow> char" where
  "hex_lower n = ''0123456789abcdef'' ! n"

definition json_attr_byte :: "char \<Rightarrow> string" where
  "json_attr_byte b =
     (if b = CHR 0x22 then [CHR 0x5C] @ ''&quot;''
      else if b = CHR 0x5C then [CHR 0x5C, CHR 0x5C]
      else if b = CHR ''&'' then ''&amp;''
      else if b = CHR ''<'' then ''&lt;''
      else if b = CHR ''>'' then ''&gt;''
      else if b = CHR 0x27 then ''&#39;''
      else if b = CHR 0x08 then [CHR 0x5C, CHR ''b'']
      else if b = CHR 0x09 then [CHR 0x5C, CHR ''t'']
      else if b = CHR 0x0A then [CHR 0x5C, CHR ''n'']
      else if b = CHR 0x0C then [CHR 0x5C, CHR ''f'']
      else if b = CHR 0x0D then [CHR 0x5C, CHR ''r'']
      else if byte b \<le> 31 then [CHR 0x5C] @ ''u00'' @ [hex_lower (byte b div 16), hex_lower (byte b mod 16)]
      else [b])"

definition write_json_attr_str :: "string \<Rightarrow> string" where
  "write_json_attr_str s = ''&quot;'' @ concat (map json_attr_byte s) @ ''&quot;''"

text \<open>The writer of the tree; \<open>num\<close> is the text of a number.\<close>

function write_node :: "('n \<Rightarrow> string) \<Rightarrow> 'n node \<Rightarrow> string"
  and write_map :: "('n \<Rightarrow> string) \<Rightarrow> 'n map_inner \<Rightarrow> string option \<Rightarrow> string list \<Rightarrow> string" where
  "write_node num NNull = ''null''"
| "write_node num (NBool b) = (if b then ''true'' else ''false'')"
| "write_node num (NNum n) = num n"
| "write_node num (NStr s) = write_json_attr_str s"
| "write_node num (NArr a) = ''['' @ join_with '','' (map (write_node num) a) @ '']''"
| "write_node num (NMap m hint) = write_map num m hint []"
| "write_map num m hint hidden =
     ''{'' @ join_with '','' (map (\<lambda>(k, v). write_json_attr_str k @ '':'' @ write_node num v)
                              (filter (\<lambda>(k, _). k \<notin> set hidden) (each_ordered m hint))) @ ''}''"
  by pat_completeness auto
termination
proof (relation "measure (case_sum (\<lambda>(_, n). 2 * size n)
    (\<lambda>(_, m, _, _). 2 * size_list (size_prod (\<lambda>_. 0) size) m + 1))", goal_cases)
  case (2 num a x)
  then have "size x \<le> size_list size a" by (rule size_list_estimation') simp
  then show ?case by simp
next
  case (4 num m hint hidden e k v)
  then have "(k, v) \<in> set m" using subsetD [OF set_each_ordered] by auto
  from size_btree [OF this, of 0] show ?case by simp
qed simp_all

definition write_arr :: "('n \<Rightarrow> string) \<Rightarrow> 'n node list \<Rightarrow> string" where
  "write_arr num a = write_node num (NArr a)"

section \<open>URLs in attributes\<close>

definition URL_ATTRS :: "string list" where
  "URL_ATTRS = [''href'', ''src'', ''action'', ''formaction'', ''poster'', ''data'', ''xlink:href'', ''ping'']"

definition is_url_attr :: "string \<Rightarrow> bool" where
  "is_url_attr html_name \<longleftrightarrow> to_ascii_lowercase html_name \<in> set URL_ATTRS"

definition is_refused_attr :: "string \<Rightarrow> bool" where
  "is_refused_attr html_name \<longleftrightarrow>
     (let n = to_ascii_lowercase html_name
      in starts_with n ''on'' \<or> n = ''srcdoc'' \<or> starts_with n ''x-'')"

definition trim_controls :: "string \<Rightarrow> string" where
  "trim_controls s = rev (dropWhile (\<lambda>c. byte c \<le> 32) (rev (dropWhile (\<lambda>c. byte c \<le> 32) s)))"

definition is_ascii_alphabetic :: "char \<Rightarrow> bool" where
  [byte_simps]: "is_ascii_alphabetic c \<longleftrightarrow> is_ascii_lowercase c \<or> is_ascii_uppercase c"

fun safe_url_scan :: "string \<Rightarrow> string \<Rightarrow> bool" where
  "safe_url_scan scheme [] = True"
| "safe_url_scan scheme (c # cs) =
     (if c = CHR '':'' then to_ascii_lowercase scheme \<in> {''http'', ''https'', ''mailto'', ''tel''}
      else if is_ascii_alphanumeric c \<or> c \<in> {CHR ''+'', CHR ''-'', CHR ''.''} then
        (let scheme = scheme @ [c]
         in if \<not> is_ascii_alphabetic (hd scheme) then True else safe_url_scan scheme cs)
      else True)"

definition safe_url :: "string \<Rightarrow> bool" where
  "safe_url v =
     safe_url_scan [] (filter (\<lambda>c. c \<notin> {CHR 0x09, CHR 0x0A, CHR 0x0D}) (trim_controls v))"

section \<open>CSS names\<close>

definition UNITLESS :: "string list" where
  "UNITLESS = [
    ''animationIterationCount'', ''aspectRatio'', ''borderImageOutset'', ''borderImageSlice'',
    ''borderImageWidth'', ''boxFlex'', ''boxFlexGroup'', ''boxOrdinalGroup'', ''columnCount'', ''columns'',
    ''flex'', ''flexGrow'', ''flexPositive'', ''flexShrink'', ''flexNegative'', ''flexOrder'', ''gridArea'',
    ''gridRow'', ''gridRowEnd'', ''gridRowSpan'', ''gridRowStart'', ''gridColumn'', ''gridColumnEnd'',
    ''gridColumnSpan'', ''gridColumnStart'', ''fontWeight'', ''lineClamp'', ''lineHeight'', ''opacity'', ''order'',
    ''orphans'', ''scale'', ''tabSize'', ''widows'', ''zIndex'', ''zoom'', ''fillOpacity'', ''floodOpacity'',
    ''stopOpacity'', ''strokeDasharray'', ''strokeDashoffset'', ''strokeMiterlimit'', ''strokeOpacity'',
    ''strokeWidth'']"

definition is_unitless :: "string \<Rightarrow> bool" where
  "is_unitless prop \<longleftrightarrow>
     prop \<in> set UNITLESS \<or>
     (let hit = List.find (\<lambda>vendor. case strip_prefix vendor prop of
                            Some (c # rest) \<Rightarrow> is_ascii_uppercase c | _ \<Rightarrow> False)
                  [''Webkit'', ''Moz'', ''ms'', ''O'']
      in case Option.bind hit (\<lambda>vendor. strip_prefix vendor prop) of
           Some (c # rest) \<Rightarrow> ascii_lower c # rest \<in> set UNITLESS
         | _ \<Rightarrow> False)"

definition css_word :: "string \<Rightarrow> bool" where
  "css_word s \<longleftrightarrow> list_all (\<lambda>c. is_ascii_alphanumeric c \<or> c = CHR ''-'' \<or> c = CHR ''_'') s"

definition css_key :: "string \<Rightarrow> bool" where
  "css_key k \<longleftrightarrow>
     (case strip_prefix ''--'' k of
        Some custom \<Rightarrow> custom \<noteq> [] \<and> css_word custom
      | None \<Rightarrow> (case k of c # _ \<Rightarrow> is_ascii_alphabetic c | [] \<Rightarrow> False) \<and> css_word k)"

definition css_property :: "string \<Rightarrow> string" where
  "css_property name =
     (if starts_with name ''--'' then name
      else
        let out = concat (map (\<lambda>c. if is_ascii_uppercase c then [CHR ''-'', ascii_lower c] else [c]) name)
        in if starts_with out ''ms-'' then CHR ''-'' # out else out)"

definition style_attr_text :: "string \<Rightarrow> string" where
  "style_attr_text css = (if css = [] then [] else '' style='' @ CHR 0x22 # escape_attr css @ [CHR 0x22])"

section \<open>Attribute tables\<close>

definition ATTR_NAMES :: "(string \<times> string) list" where
  "ATTR_NAMES = [
    (''className'', ''class''), (''htmlFor'', ''for''), (''tabIndex'', ''tabindex''), (''readOnly'', ''readonly''),
    (''maxLength'', ''maxlength''), (''minLength'', ''minlength''), (''autoComplete'', ''autocomplete''),
    (''autoFocus'', ''autofocus''), (''autoPlay'', ''autoplay''), (''spellCheck'', ''spellcheck''),
    (''srcSet'', ''srcset''), (''crossOrigin'', ''crossorigin''), (''httpEquiv'', ''http-equiv''),
    (''acceptCharset'', ''accept-charset''), (''contentEditable'', ''contenteditable''),
    (''dateTime'', ''datetime''), (''encType'', ''enctype''), (''noValidate'', ''novalidate''),
    (''formAction'', ''formaction''), (''colSpan'', ''colspan''), (''rowSpan'', ''rowspan''),
    (''defaultValue'', ''value''), (''defaultChecked'', ''checked''), (''xlinkHref'', ''xlink:href''),
    (''xmlLang'', ''xml:lang'')]"

definition SVG_KEBAB :: "string list" where
  "SVG_KEBAB = [
    ''alignmentBaseline'', ''baselineShift'', ''clipPath'', ''clipRule'', ''colorInterpolation'',
    ''colorInterpolationFilters'', ''dominantBaseline'', ''enableBackground'', ''fillOpacity'', ''fillRule'',
    ''floodColor'', ''floodOpacity'', ''fontFamily'', ''fontSize'', ''fontSizeAdjust'', ''fontStretch'',
    ''fontStyle'', ''fontVariant'', ''fontWeight'', ''imageRendering'', ''letterSpacing'', ''lightingColor'',
    ''markerEnd'', ''markerMid'', ''markerStart'', ''paintOrder'', ''pointerEvents'', ''shapeRendering'',
    ''stopColor'', ''stopOpacity'', ''strokeDasharray'', ''strokeDashoffset'', ''strokeLinecap'',
    ''strokeLinejoin'', ''strokeMiterlimit'', ''strokeOpacity'', ''strokeWidth'', ''textAnchor'',
    ''textDecoration'', ''textRendering'', ''unicodeBidi'', ''vectorEffect'', ''wordSpacing'', ''writingMode'']"

definition attr_name :: "string \<Rightarrow> string" where
  "attr_name react_name =
     (case map_of ATTR_NAMES react_name of
        Some name \<Rightarrow> name
      | None \<Rightarrow> if react_name \<in> set SVG_KEBAB then css_property react_name else react_name)"

definition BOOLEAN_ATTRS :: "string list" where
  "BOOLEAN_ATTRS = [
    ''allowfullscreen'', ''async'', ''autofocus'', ''autoplay'', ''checked'', ''controls'', ''default'', ''defer'',
    ''disabled'', ''disablepictureinpicture'', ''disableremoteplayback'', ''formnovalidate'', ''hidden'',
    ''inert'', ''itemscope'', ''loop'', ''multiple'', ''muted'', ''nomodule'', ''novalidate'', ''open'',
    ''playsinline'', ''readonly'', ''required'', ''reversed'', ''scoped'', ''seamless'', ''selected'']"

definition OVERLOADED_ATTRS :: "string list" where
  "OVERLOADED_ATTRS = [
    ''capture'', ''download'']"

definition STRINGIFY_ATTRS :: "string list" where
  "STRINGIFY_ATTRS = [
    ''autoreverse'', ''contenteditable'', ''draggable'', ''externalresourcesrequired'', ''focusable'',
    ''preservealpha'', ''spellcheck'', ''value'']"

datatype attr_kind = BooleanAttr | Overloaded | Stringify | PlainAttr

definition attr_kind :: "string \<Rightarrow> attr_kind" where
  "attr_kind html_name =
     (let n = to_ascii_lowercase html_name
      in if starts_with n ''aria-'' \<or> starts_with n ''data-'' \<or> n \<in> set STRINGIFY_ATTRS then Stringify
         else if n \<in> set BOOLEAN_ATTRS then BooleanAttr
         else if n \<in> set OVERLOADED_ATTRS then Overloaded
         else PlainAttr)"

definition is_boolean_attr :: "string \<Rightarrow> bool" where
  "is_boolean_attr html_name \<longleftrightarrow> attr_kind html_name = BooleanAttr"

section \<open>What a browser reads\<close>

text \<open>Character references of the five escapes, as an HTML parser decodes them in text and attribute values.\<close>

definition entities :: "(string \<times> char) list" where
  "entities = [(''amp;'', CHR ''&''), (''lt;'', CHR ''<''), (''gt;'', CHR ''>''), (''quot;'', CHR 0x22), (''#39;'', CHR 0x27)]"

definition entity_at :: "string \<Rightarrow> (char \<times> string) option" where
  "entity_at s =
     (case List.find (\<lambda>(name, _). starts_with s name) entities of
        Some (name, c) \<Rightarrow> Some (c, drop (length name) s)
      | None \<Rightarrow> None)"

lemma entity_at_shorter: "entity_at s = Some (c, r) \<Longrightarrow> length r < length s"
  by (auto simp: entity_at_def entities_def starts_with_iff split: option.splits if_splits)

function decode_entities :: "string \<Rightarrow> string" where
  "decode_entities [] = []"
| "decode_entities (c # s) =
     (if c = CHR ''&'' then (case entity_at s of
          Some (d, r) \<Rightarrow> d # decode_entities r | None \<Rightarrow> c # decode_entities s)
      else c # decode_entities s)"
  by pat_completeness auto
termination
  by (relation "measure length") (auto dest: entity_at_shorter)

definition attr_plain :: "char \<Rightarrow> bool" where
  "attr_plain c \<longleftrightarrow> c \<notin> {CHR ''<'', CHR ''>'', CHR 0x22, CHR 0x27}"

lemma entity_at_simps [simp]:
  "entity_at (CHR ''a'' # CHR ''m'' # CHR ''p'' # CHR '';'' # r) = Some (CHR ''&'', r)"
  "entity_at (CHR ''l'' # CHR ''t'' # CHR '';'' # r) = Some (CHR ''<'', r)"
  "entity_at (CHR ''g'' # CHR ''t'' # CHR '';'' # r) = Some (CHR ''>'', r)"
  "entity_at (CHR ''q'' # CHR ''u'' # CHR ''o'' # CHR ''t'' # CHR '';'' # r) = Some (CHR 0x22, r)"
  "entity_at (CHR ''#'' # CHR ''3'' # CHR ''9'' # CHR '';'' # r) = Some (CHR 0x27, r)"
  by (simp_all add: entity_at_def entities_def starts_with_def)

lemma decode_escape_byte: "decode_entities (escape_byte b @ r) = b # decode_entities r"
  by (simp add: escape_byte_def)

lemma decode_escape_text: "decode_entities (escape_text s @ r) = s @ decode_entities r"
  by (induction s) (simp_all add: escape_text_def decode_escape_byte)

lemma escape_text_plain: "list_all attr_plain (escape_text s)"
  by (induction s) (auto simp: escape_text_def escape_byte_def attr_plain_def)

text \<open>
  Escaped text holds no angle bracket and no quote, so it ends neither the text nor a quoted attribute it is written
  into, and a browser reads the text back unchanged.
\<close>

theorem escape_text_safe:
  "list_all attr_plain (escape_text s) \<and> decode_entities (escape_text s) = s"
  using escape_text_plain [of s] decode_escape_text [of s "[]"] by simp

section \<open>JSON in an attribute\<close>

text \<open>\<^verbatim>\<open>JSON.stringify\<close> of a value: the reference text, with \<^verbatim>\<open>serde_json\<close>'s string escapes.\<close>

definition json_byte :: "char \<Rightarrow> string" where
  "json_byte b =
     (if b = CHR 0x22 then [CHR 0x5C, CHR 0x22]
      else if b = CHR 0x5C then [CHR 0x5C, CHR 0x5C]
      else if b = CHR 0x08 then [CHR 0x5C, CHR ''b'']
      else if b = CHR 0x09 then [CHR 0x5C, CHR ''t'']
      else if b = CHR 0x0A then [CHR 0x5C, CHR ''n'']
      else if b = CHR 0x0C then [CHR 0x5C, CHR ''f'']
      else if b = CHR 0x0D then [CHR 0x5C, CHR ''r'']
      else if byte b \<le> 31 then [CHR 0x5C] @ ''u00'' @ [hex_lower (byte b div 16), hex_lower (byte b mod 16)]
      else [b])"

definition json_string :: "string \<Rightarrow> string" where
  "json_string s = CHR 0x22 # concat (map json_byte s) @ [CHR 0x22]"

fun json_text :: "('n \<Rightarrow> string) \<Rightarrow> 'n jval \<Rightarrow> string" where
  "json_text num VNull = ''null''"
| "json_text num (VBool b) = (if b then ''true'' else ''false'')"
| "json_text num (VNum n) = num n"
| "json_text num (VStr s) = json_string s"
| "json_text num (VArr a) = ''['' @ join_with '','' (map (json_text num) a) @ '']''"
| "json_text num (VObj es) =
     ''{'' @ join_with '','' (map (\<lambda>(k, v). json_string k @ '':'' @ json_text num v) es) @ ''}''"

definition attr_reads :: "string \<Rightarrow> string \<Rightarrow> bool" where
  "attr_reads written text \<longleftrightarrow>
     list_all attr_plain written \<and> (\<forall>r. decode_entities (written @ r) = text @ decode_entities r)"

lemma attr_reads_append: "attr_reads a s \<Longrightarrow> attr_reads b t \<Longrightarrow> attr_reads (a @ b) (s @ t)"
  by (simp add: attr_reads_def)

lemma attr_reads_join:
  "list_all2 attr_reads as ss \<Longrightarrow> attr_reads (join_with '','' as) (join_with '','' ss)"
proof (induction rule: list_all2_induct)
  case Nil
  then show ?case by (simp add: attr_reads_def)
next
  case (Cons a as s ss)
  have "attr_reads '','' '',''" by (simp add: attr_reads_def attr_plain_def)
  then show ?case
    using Cons attr_reads_append [of a s] attr_reads_append [of "'',''" "'',''"]
    by (cases as; cases ss) (auto simp: join_with_Cons)
qed

lemma attr_reads_plain: "list_all (\<lambda>c. attr_plain c \<and> c \<noteq> CHR ''&'') s \<Longrightarrow> attr_reads s s"
  by (induction s) (auto simp: attr_reads_def)

lemma hex_lower_plain: "n < 16 \<Longrightarrow> attr_plain (hex_lower n) \<and> hex_lower n \<noteq> CHR ''&''"
  by (simp add: hex_lower_def attr_plain_def less_Suc_eq numeral_eq_Suc) auto

lemma attr_reads_byte: "attr_reads (json_attr_byte b) (json_byte b)"
proof -
  have "byte b \<le> 31 \<Longrightarrow> byte b div 16 < 16" by simp
  then show ?thesis
    using hex_lower_plain [of "byte b div 16"] hex_lower_plain [of "byte b mod 16"]
    by (auto simp: json_attr_byte_def json_byte_def attr_reads_def attr_plain_def)
qed

lemma attr_reads_str: "attr_reads (write_json_attr_str s) (json_string s)"
proof -
  have "attr_reads (concat (map json_attr_byte s)) (concat (map json_byte s))"
  proof (induction s)
    case (Cons b s)
    then show ?case using attr_reads_append [OF attr_reads_byte] by simp
  qed (simp add: attr_reads_def)
  moreover have q: "attr_reads ''&quot;'' [CHR 0x22]"
    by (simp add: attr_reads_def attr_plain_def)
  ultimately have "attr_reads (''&quot;'' @ concat (map json_attr_byte s) @ ''&quot;'')
      ([CHR 0x22] @ concat (map json_byte s) @ [CHR 0x22])"
    by (intro attr_reads_append)
  then show ?thesis by (simp add: write_json_attr_str_def json_string_def)
qed

definition plain_numbers :: "('n \<Rightarrow> string) \<Rightarrow> bool" where
  "plain_numbers num \<longleftrightarrow> (\<forall>n. list_all (\<lambda>c. attr_plain c \<and> c \<noteq> CHR ''&'') (num n))"

lemma attr_reads_const:
  "attr_reads ''null'' ''null''" "attr_reads ''true'' ''true''" "attr_reads ''false'' ''false''"
  "attr_reads ''['' ''[''" "attr_reads '']'' '']''" "attr_reads ''{'' ''{''" "attr_reads ''}'' ''}''" "attr_reads '':'' '':''"
  by (rule attr_reads_plain, simp add: attr_plain_def)+

lemma attr_reads_wrap:
  assumes "attr_reads l l'" and "attr_reads r r'" and "list_all2 attr_reads as ss"
  shows "attr_reads (l @ join_with '','' as @ r) (l' @ join_with '','' ss @ r')"
  using attr_reads_append [OF assms(1) attr_reads_append [OF attr_reads_join [OF assms(3)] assms(2)]] .

lemma attr_reads_member:
  "attr_reads w t \<Longrightarrow> attr_reads (write_json_attr_str k @ '':'' @ w) (json_string k @ '':'' @ t)"
  by (intro attr_reads_append attr_reads_str attr_reads_const)

lemma attr_reads_tree:
  assumes "plain_numbers num"
  shows "attr_reads (write_node num n) (json_text num (ordered n))"
    and "attr_reads (write_map num m hint hidden)
      (json_text num (VObj (map (\<lambda>(k, v). (k, ordered v)) (filter (\<lambda>(k, _). k \<notin> set hidden) (each_ordered m hint)))))"
  using assms
proof (induction num n and num m hint hidden rule: write_node_write_map.induct)
  case (3 num n)
  then show ?case by (simp add: plain_numbers_def attr_reads_plain)
next
  case (4 num s)
  then show ?case by (simp add: attr_reads_str)
next
  case (5 num a)
  then show ?case
    using attr_reads_wrap [OF attr_reads_const(4,5)]
    by (simp add: list_all2_conv_all_nth)
next
  case (7 num m hint hidden)
  let ?shown = "filter (\<lambda>(k, _). k \<notin> set hidden) (each_ordered m hint)"
  have member: "attr_reads (write_json_attr_str k @ '':'' @ write_node num v)
      (json_string k @ '':'' @ json_text num (ordered v))" if "(k, v) \<in> set ?shown" for k v
    using 7(1) [OF that] 7(2) by (auto intro!: attr_reads_member simp del: append.simps)
  have "list_all2 attr_reads
      (map (\<lambda>(k, v). write_json_attr_str k @ '':'' @ write_node num v) ?shown)
      (map (\<lambda>(k, v). json_string k @ '':'' @ json_text num v) (map (\<lambda>(k, v). (k, ordered v)) ?shown))"
    unfolding list.rel_map by (rule list.rel_refl_strong) (use member in \<open>auto split: prod.splits\<close>)
  then show ?case
    using attr_reads_wrap [OF attr_reads_const(6,7)] by simp
qed (simp_all add: attr_reads_const)

text \<open>
  C38: What a template prints for a value of the render tree in an attribute is the \<^verbatim>\<open>JSON.stringify\<close> of
  the value, keys in the order of the loader's text: the attribute cannot be ended by it, and a browser that decodes the
  attribute reads exactly that JSON. The context view leaves out the server's own keys and nothing else. The text
  of a number needs no escape.
\<close>

theorem json_attr_reads:
  assumes "plain_numbers num"
  shows "list_all attr_plain (write_map num m hint hidden) \<and>
    decode_entities (write_map num m hint hidden) =
      json_text num (VObj (map (\<lambda>(k, v). (k, ordered v)) (filter (\<lambda>(k, _). k \<notin> set hidden) (each_ordered m hint))))"
  using attr_reads_tree(2) [OF assms, of m hint hidden]
  unfolding attr_reads_def by (metis append_Nil2 decode_entities.simps(1))

theorem json_attr_reads_witness:
  "decode_entities (write_map decimal [(''a'', NStr ''<b>''), (''x'', NNum 7)] None [''x'']) =
     ''{'' @ json_string ''a'' @ '':'' @ json_string ''<b>'' @ ''}''"
proof -
  have "plain_numbers decimal"
    by (auto simp: plain_numbers_def list_all_iff attr_plain_def is_ascii_digit_def dest!: decimal_mem)
  from json_attr_reads [OF this, of "[(''a'', NStr ''<b>''), (''x'', NNum 7)]" None "[''x'']"]
  show ?thesis by (simp add: each_ordered_def)
qed

section \<open>URL schemes\<close>

text \<open>
  The start of the WHATWG URL parser: leading and trailing C0 controls and spaces are stripped, tabs and
  newlines removed; a scheme is a letter followed by letters, digits, plus, minus and dot, up to a colon.
\<close>

definition url_input :: "string \<Rightarrow> string" where
  "url_input v = filter (\<lambda>c. c \<notin> {CHR 0x09, CHR 0x0A, CHR 0x0D}) (trim_controls v)"

definition scheme_char :: "char \<Rightarrow> bool" where
  "scheme_char c \<longleftrightarrow> is_ascii_alphanumeric c \<or> c \<in> {CHR ''+'', CHR ''-'', CHR ''.''}"

definition url_scheme :: "string \<Rightarrow> string option" where
  "url_scheme s =
     (case s of
        [] \<Rightarrow> None
      | c # _ \<Rightarrow>
          if is_ascii_alphabetic c \<and> (case dropWhile scheme_char s of d # _ \<Rightarrow> d = CHR '':'' | [] \<Rightarrow> False)
          then Some (to_ascii_lowercase (takeWhile scheme_char s)) else None)"

lemma scheme_char_colon [simp]: "\<not> scheme_char (CHR '':'')"
  by (simp add: scheme_char_def byte_simps)

lemma alphabetic_scheme_char: "is_ascii_alphabetic c \<Longrightarrow> scheme_char c"
  by (auto simp: scheme_char_def byte_simps)

lemma safe_url_scan_scheme:
  assumes "scheme \<noteq> []" and "is_ascii_alphabetic (hd scheme)"
  shows "safe_url_scan scheme s \<longleftrightarrow>
    ((case dropWhile scheme_char s of d # _ \<Rightarrow> d = CHR '':'' | [] \<Rightarrow> False) \<longrightarrow>
     to_ascii_lowercase (scheme @ takeWhile scheme_char s) \<in> {''http'', ''https'', ''mailto'', ''tel''})"
  using assms
proof (induction s arbitrary: scheme)
  case (Cons c s)
  then have "hd (scheme @ [c]) = hd scheme" by simp
  then show ?case
    using Cons Cons.IH [of "scheme @ [c]"]
    by (cases "c = CHR '':''"; cases "scheme_char c") (auto simp: scheme_char_def [symmetric] Let_def, simp_all add: scheme_char_def)
qed simp

text \<open>
  C39: A URL passes the guard exactly when its scheme, as the WHATWG URL parser reads it, is one of
  \<^verbatim>\<open>http\<close>, \<^verbatim>\<open>https\<close>, \<^verbatim>\<open>mailto\<close> and \<^verbatim>\<open>tel\<close>, or
  when it has none and does not start with a colon: no disguise by case, controls, tabs or newlines lets another through.
\<close>

theorem safe_url_iff:
  "safe_url v \<longleftrightarrow>
     (case url_scheme (url_input v) of
        Some s \<Rightarrow> s \<in> {''http'', ''https'', ''mailto'', ''tel''}
      | None \<Rightarrow> (case url_input v of c # _ \<Rightarrow> c \<noteq> CHR '':'' | [] \<Rightarrow> True))"
proof (cases "url_input v")
  case Nil
  then show ?thesis by (simp add: safe_url_def url_input_def url_scheme_def)
next
  case (Cons c s)
  show ?thesis
  proof (cases "is_ascii_alphabetic c")
    case True
    then have "safe_url v = safe_url_scan [c] s" "scheme_char c"
      using Cons alphabetic_scheme_char [OF True] by (auto simp: safe_url_def url_input_def Let_def scheme_char_def byte_simps)
    then show ?thesis
      using Cons True safe_url_scan_scheme [of "[c]" s] by (auto simp: url_scheme_def)
  next
    case False
    then show ?thesis
      using Cons by (auto simp: safe_url_def url_input_def url_scheme_def Let_def to_ascii_lowercase_def)
  qed
qed

end
