(* ===== verification/Plan.thy ===== *)
theory Plan
  imports Manifest
begin

text \<open>
  Job planning (\<^verbatim>\<open>crates/brust-core/src/pipeline.rs\<close>, \<^verbatim>\<open>plan.rs\<close>, \<^verbatim>\<open>use_ids\<close> of
  \<^verbatim>\<open>render.rs\<close>): the index built from the manifest at boot, the jobs of one request in template order, their
  cache keys, and the slots of inlined children. Ordinals, rows and indices do not overflow their \<^verbatim>\<open>u32\<close>; durations
  are seconds.
\<close>

section \<open>Templates\<close>

datatype ('n, 'x) job_inputs =
    PropsInputs "('n, 'x) props_map"
  | AllInputs
  | ProjectInputs projection

record ('n, 'x) job_tpl =
  jt_id :: string
  jt_kind :: job_kind
  jt_inputs :: "('n, 'x) job_inputs"
  jt_has_props :: bool
  jt_per_instance :: "path option"
  jt_cache_key :: "path option"
  jt_ttl :: "nat option"
  jt_tags :: "string list"
  jt_outputs :: "string list"
  jt_target :: "string option"

record ('n, 'x) child_tpl =
  ct_child :: nat
  ct_rows :: "'n rows option"
  ct_props :: "('n, 'x) props_map"
  ct_when :: "'n guard option"
  ct_slot :: string
  ct_use_id_instance :: string
  ct_call_prefixes :: "string list"

record ('n, 'x) comp_tpl =
  cp_id :: string
  cp_jobs :: "('n, 'x) job_tpl list"
  cp_call_prefixes :: "string list"
  cp_children :: "('n, 'x) child_tpl list"
  cp_use_id_slots :: nat
  cp_deep_jobs :: bool
  cp_deep_stores :: bool

record ('n, 'x) plan_index =
  px_comps :: "('n, 'x) comp_tpl list"
  px_by_id :: "(string \<times> nat) list"

datatype plan_error =
    JobTplError string string input_error
  | UnknownChild string string
  | ChildPathError input_error
  | WhenError string string input_error
  | UnknownChainComponent string
  | InputsError input_error

definition option_parse :: "string option \<Rightarrow> input_error + path option" where
  "option_parse s = (case s of None \<Rightarrow> Ok None | Some p \<Rightarrow> bind_result (path_parse p) (\<lambda>p. Ok (Some p)))"

definition job_tpl_new :: "('n, 'x) expressions \<Rightarrow> job_record \<Rightarrow> input_error + ('n, 'x) job_tpl" where
  "job_tpl_new ex j =
     bind_result
       (case jr_props j of
          Some m \<Rightarrow> bind_result (props_map_new ex m) (\<lambda>pm. Ok (PropsInputs pm))
        | None \<Rightarrow>
            if ALL_PROPS \<in> set (jr_inputs j) then Ok AllInputs
            else bind_result (projection_new (jr_inputs j)) (\<lambda>pr. Ok (ProjectInputs pr))) (\<lambda>inputs.
     bind_result (option_parse (jr_per_instance j)) (\<lambda>per_instance.
     bind_result (option_parse (jc_key (jr_cache j))) (\<lambda>cache_key.
     Ok \<lparr>jt_id = jr_id j, jt_kind = jr_kind j, jt_inputs = inputs, jt_has_props = jr_props j \<noteq> None,
         jt_per_instance = per_instance, jt_cache_key = cache_key, jt_ttl = jc_ttl_seconds (jr_cache j),
         jt_tags = jc_tags (jr_cache j), jt_outputs = jr_outputs j, jt_target = jr_target j\<rparr>)))"

definition ordinal_next :: "string \<Rightarrow> nat btree \<Rightarrow> nat" where
  "ordinal_next cid ords = (case map_of ords cid of Some n \<Rightarrow> n | None \<Rightarrow> 0) + 1"

definition instance_name :: "string \<Rightarrow> nat \<Rightarrow> string" where
  "instance_name child k = child @ ''_'' @ decimal k"

definition child_tpl_new ::
  "('n, 'x) expressions \<Rightarrow> 'n manifest \<Rightarrow> (string \<times> nat) list \<Rightarrow> string \<Rightarrow> nat \<Rightarrow> 'n child_record \<Rightarrow>
   plan_error + ('n, 'x) child_tpl" where
  "child_tpl_new ex m by_id cid k ch =
     (case map_of by_id (ch_id ch) of
        None \<Rightarrow> Err (UnknownChild cid (ch_id ch))
      | Some child \<Rightarrow>
          bind_result (case ch_instances ch of
               StaticInstance \<Rightarrow> Ok None
             | PerRow list \<Rightarrow> (case path_parse list of Inr p \<Rightarrow> Ok (Some (RowsPath p)) | Inl e \<Rightarrow> Err (ChildPathError e))
             | PerRowLiteral \<Rightarrow> Ok (Some (RowsLiteral (from_json (case ch_rows ch of Some v \<Rightarrow> v | None \<Rightarrow> VNull))))) (\<lambda>rows.
          bind_result (case props_map_child ex (ch_props ch) (ch_literals ch) (ch_exprs ch) rows of
               Inr pm \<Rightarrow> Ok pm | Inl e \<Rightarrow> Err (ChildPathError e)) (\<lambda>props.
          bind_result (case ch_when ch of
               None \<Rightarrow> Ok None
             | Some g \<Rightarrow> (case guard_new g of Inr g \<Rightarrow> Ok (Some g) | Inl e \<Rightarrow> Err (WhenError cid (ch_id ch) e))) (\<lambda>w.
          Ok \<lparr>ct_child = child, ct_rows = rows, ct_props = props, ct_when = w,
              ct_slot = ''__'' @ instance_name (ch_id ch) k,
              ct_use_id_instance = cid @ ''.'' @ instance_name (ch_id ch) k,
              ct_call_prefixes = map (\<lambda>j. cid @ ''/'' @ instance_name (ch_id ch) k @ ''/'' @ jr_id j)
                (case map_of (mf_components m) (ch_id ch) of Some c \<Rightarrow> cr_jobs c | None \<Rightarrow> [])\<rparr>))))"

fun children_tpl ::
  "('n, 'x) expressions \<Rightarrow> 'n manifest \<Rightarrow> (string \<times> nat) list \<Rightarrow> string \<Rightarrow> nat btree \<Rightarrow> 'n child_record list \<Rightarrow>
   plan_error + ('n, 'x) child_tpl list" where
  "children_tpl ex m by_id cid ords [] = Ok []"
| "children_tpl ex m by_id cid ords (ch # chs) =
     (let k = ordinal_next (ch_id ch) ords
      in bind_result (child_tpl_new ex m by_id cid k ch) (\<lambda>t.
         bind_result (children_tpl ex m by_id cid (bm_insert (ch_id ch) k ords) chs) (\<lambda>ts. Ok (t # ts))))"

definition comp_tpl_new ::
  "('n, 'x) expressions \<Rightarrow> 'n manifest \<Rightarrow> (string \<times> nat) list \<Rightarrow> string \<times> 'n component_record \<Rightarrow>
   plan_error + ('n, 'x) comp_tpl" where
  "comp_tpl_new ex m by_id ic =
     (let (cid, c) = ic
      in bind_result (map_result (\<lambda>j. case job_tpl_new ex j of Inr t \<Rightarrow> Ok t | Inl e \<Rightarrow> Err (JobTplError cid (jr_id j) e))
           (cr_jobs c)) (\<lambda>jobs.
         bind_result (children_tpl ex m by_id cid [] (cr_children c)) (\<lambda>children.
         Ok \<lparr>cp_id = cid, cp_jobs = jobs, cp_call_prefixes = map (\<lambda>j. cid @ ''/'' @ jr_id j) (cr_jobs c),
             cp_children = children, cp_use_id_slots = cr_use_id_slots c, cp_deep_jobs = False, cp_deep_stores = False\<rparr>)))"

text \<open>
  \<^verbatim>\<open>reads_store\<close>: a depth-first search that stops at the first component with stores. The calls still to be made
  (the \<^verbatim>\<open>any\<close> iterations of the frames on the stack) are the list.
\<close>

function reads_store :: "'n manifest \<Rightarrow> string list \<Rightarrow> string list \<Rightarrow> bool" where
  "reads_store m [] seen = False"
| "reads_store m (cid # ids) seen =
     (if cid \<in> set seen then reads_store m ids seen
      else case map_of (mf_components m) cid of
        None \<Rightarrow> reads_store m ids (cid # seen)
      | Some c \<Rightarrow>
          cr_stores c \<noteq> [] \<or>
          reads_store m (map ch_id (cr_children c) @ List.map_filter jr_target (cr_jobs c) @ ids) (cid # seen))"
  by pat_completeness auto
termination
proof (relation "inv_image (less_than <*lex*> less_than)
    (\<lambda>(m, ids, seen). (card (fst ` set (mf_components m) - set seen), length ids))", goal_cases)
  case (3 m cid ids seen)
  have "card (fst ` set (mf_components m) - set (cid # seen)) \<le> card (fst ` set (mf_components m) - set seen)"
    by (intro card_mono) auto
  then show ?case by auto
next
  case (4 m cid ids seen c)
  then have "cid \<in> fst ` set (mf_components m) - set seen"
    by (force dest: map_of_SomeD)
  then have "card (fst ` set (mf_components m) - set (cid # seen)) < card (fst ` set (mf_components m) - set seen)"
    by (intro psubset_card_mono) auto
  then show ?case by simp
qed auto

definition plan_index_new :: "('n, 'x) expressions \<Rightarrow> 'n manifest \<Rightarrow> plan_error + ('n, 'x) plan_index" where
  "plan_index_new ex m =
     (let ids = map fst (mf_components m); by_id = zip ids [0..<length ids]
      in bind_result (map_result (comp_tpl_new ex m by_id) (mf_components m)) (\<lambda>comps.
         let deep_jobs = (\<lambda>c. cp_jobs c \<noteq> [] \<or> list_ex (\<lambda>ch. cp_jobs (comps ! ct_child ch) \<noteq> []) (cp_children c))
         in Ok \<lparr>px_comps = map (\<lambda>c. c\<lparr>cp_deep_jobs := deep_jobs c, cp_deep_stores := reads_store m [cp_id c] []\<rparr>) comps,
                px_by_id = by_id\<rparr>))"

definition chain_has_stores :: "('n, 'x) plan_index \<Rightarrow> string list \<Rightarrow> bool" where
  "chain_has_stores idx chain \<longleftrightarrow>
     list_ex (\<lambda>cid. case map_of (px_by_id idx) cid of Some i \<Rightarrow> cp_deep_stores (px_comps idx ! i) | None \<Rightarrow> False) chain"

definition chain_has_jobs :: "('n, 'x) plan_index \<Rightarrow> string list \<Rightarrow> bool" where
  "chain_has_jobs idx chain \<longleftrightarrow>
     list_ex (\<lambda>cid. case map_of (px_by_id idx) cid of Some i \<Rightarrow> cp_deep_jobs (px_comps idx ! i) | None \<Rightarrow> False) chain"

definition comp_ix :: "('n, 'x) plan_index \<Rightarrow> string \<Rightarrow> plan_error + nat" where
  "comp_ix idx cid =
     (case map_of (px_by_id idx) cid of Some i \<Rightarrow> Ok i | None \<Rightarrow> Err (UnknownChainComponent cid))"

section \<open>Plans\<close>

text \<open>Where a job's value lands; where its template lives; what survives a worker call (\<^verbatim>\<open>plan.rs\<close>).\<close>

datatype dest =
    Chain string "nat option"
  | Child string string string "nat option"

record plan_src =
  ps_comp :: nat
  ps_job :: nat
  ps_via :: "(nat \<times> nat) option"

record 'n job_plan =
  pl_key :: string
  pl_call_prefix :: string
  pl_call_row :: "nat option"
  pl_component_id :: string
  pl_job_id :: string
  pl_kind :: job_kind
  pl_inputs :: "'n node"
  pl_ttl :: "nat option"
  pl_tags :: "string list"
  pl_user_key :: "string option"
  pl_dest :: dest
  pl_outputs :: "string list"
  pl_target :: "string option"
  pl_src :: plan_src

record plan_row =
  pr_src :: plan_src
  pr_row :: "nat option"
  pr_key :: string
  pr_user_key :: "string option"

definition to_row :: "'n job_plan \<Rightarrow> plan_row" where
  "to_row p = \<lparr>pr_src = pl_src p, pr_row = pl_call_row p, pr_key = pl_key p, pr_user_key = pl_user_key p\<rparr>"

definition instance_row :: "'n job_plan \<Rightarrow> nat option" where
  "instance_row p = (case pl_dest p of Chain _ row \<Rightarrow> row | Child _ _ _ _ \<Rightarrow> None)"

definition call_id :: "'n job_plan \<Rightarrow> string" where
  "call_id p = (case pl_call_row p of Some r \<Rightarrow> pl_call_prefix p @ ''/'' @ decimal r | None \<Rightarrow> pl_call_prefix p)"

definition rehydrate_row :: "('n, 'x) plan_index \<Rightarrow> plan_row \<Rightarrow> 'n job_plan" where
  "rehydrate_row idx r =
     (let comp = px_comps idx ! ps_comp (pr_src r); job = ps_job (pr_src r); jt = cp_jobs comp ! job;
          (call_prefix, dest) =
            (case ps_via (pr_src r) of
               None \<Rightarrow> (cp_call_prefixes comp ! job, Chain (cp_id comp) (pr_row r))
             | Some (parent, rec) \<Rightarrow>
                 let p = px_comps idx ! parent; ch = cp_children p ! rec
                 in (ct_call_prefixes ch ! job, Child (cp_id p) (cp_id comp) (ct_slot ch) (pr_row r)))
      in \<lparr>pl_key = pr_key r, pl_call_prefix = call_prefix, pl_call_row = pr_row r, pl_component_id = cp_id comp,
          pl_job_id = jt_id jt, pl_kind = jt_kind jt, pl_inputs = NNull, pl_ttl = jt_ttl jt, pl_tags = jt_tags jt,
          pl_user_key = pr_user_key r, pl_dest = dest, pl_outputs = jt_outputs jt, pl_target = jt_target jt,
          pl_src = pr_src r\<rparr>)"

definition rehydrate :: "('n, 'x) plan_index \<Rightarrow> plan_row list \<Rightarrow> 'n job_plan list" where
  "rehydrate idx rows = map (rehydrate_row idx) rows"

definition CHILDREN_KEY :: string where "CHILDREN_KEY = ''__children''"

definition OWN_KEY :: string where "OWN_KEY = ''__own''"

definition STORE_KEY :: string where "STORE_KEY = ''__store''"

definition PROPS_HIDDEN :: "string list" where
  "PROPS_HIDDEN = [CHILDREN_KEY, OWN_KEY, STORE_KEY]"

definition all_props :: "'n node \<Rightarrow> 'n node" where
  "all_props props =
     (case props of
        NMap m _ \<Rightarrow> node_map (filter (\<lambda>(k, _). k \<notin> set PROPS_HIDDEN) m)
      | v \<Rightarrow> v)"

text \<open>The libraries planning calls: floats, compiled expressions, the JSON printer and the hash.\<close>

record ('n, 'f, 'x) plan_env =
  pe_numbers :: "('n, 'f) numbers"
  pe_exprs :: "('n, 'x) expressions"
  pe_to_json :: "'n jval \<Rightarrow> string"
  pe_hash :: "string \<Rightarrow> string"

definition eval_inputs ::
  "('n, 'f, 'x) plan_env \<Rightarrow> ('n, 'x) job_tpl \<Rightarrow> 'n node \<Rightarrow> nat option \<Rightarrow> input_error + 'n node" where
  "eval_inputs env j props row =
     (case jt_inputs j of
        PropsInputs pm \<Rightarrow> props_eval (pe_exprs env) pm props row
      | AllInputs \<Rightarrow> Ok (all_props props)
      | ProjectInputs pr \<Rightarrow> projection_eval pr props None)"

definition user_key :: "('n jval \<Rightarrow> string) \<Rightarrow> 'n node \<Rightarrow> string option" where
  "user_key to_json v =
     (case v of NNull \<Rightarrow> None | NStr s \<Rightarrow> Some s | v \<Rightarrow> Some (canonical to_json v))"

definition plan_key ::
  "('n, 'f, 'x) plan_env \<Rightarrow> string \<Rightarrow> string \<Rightarrow> ('n, 'x) job_tpl \<Rightarrow> 'n node \<Rightarrow> 'n node \<Rightarrow> string \<times> string option" where
  "plan_key env cid key_job j props projected =
     (case Option.bind (jt_cache_key j) (\<lambda>expr. user_key (pe_to_json env) (path_get expr props None)) of
        Some u \<Rightarrow> (''k:'' @ cid @ ''/'' @ key_job @ ''/'' @ u, Some u)
      | None \<Rightarrow> (job_key (pe_hash env) (pe_to_json env) cid key_job projected, None))"

definition plan_one ::
  "('n, 'f, 'x) plan_env \<Rightarrow> string \<Rightarrow> string \<Rightarrow> ('n, 'x) job_tpl \<Rightarrow> 'n node \<Rightarrow> dest \<Rightarrow> nat option \<Rightarrow> plan_src \<Rightarrow>
   'n node option \<Rightarrow> input_error + 'n job_plan" where
  "plan_one env cid call_prefix j props dest row src snapshot =
     (let per_instance = (case dest of Chain _ row \<Rightarrow> row | Child _ _ _ _ \<Rightarrow> None)
      in bind_result (eval_inputs env j props per_instance) (\<lambda>projected.
         let projected = (case (jt_kind j, snapshot) of
                            (Ssr, Some st) \<Rightarrow> map_mut (bm_insert STORE_KEY st) projected
                          | _ \<Rightarrow> projected);
             (key, user) =
               (case per_instance of
                  Some r \<Rightarrow>
                    if \<not> jt_has_props j \<or> jt_cache_key j \<noteq> None
                    then plan_key env cid (jt_id j @ ''#'' @ decimal r) j props projected
                    else plan_key env cid (jt_id j) j props projected
                | None \<Rightarrow> plan_key env cid (jt_id j) j props projected)
         in Ok \<lparr>pl_key = key, pl_call_prefix = call_prefix, pl_call_row = row, pl_component_id = cid, pl_job_id = jt_id j,
                pl_kind = jt_kind j, pl_inputs = projected, pl_ttl = jt_ttl j, pl_tags = jt_tags j, pl_user_key = user,
                pl_dest = dest, pl_outputs = jt_outputs j, pl_target = jt_target j, pl_src = src\<rparr>))"

definition row_count :: "path \<Rightarrow> 'n node \<Rightarrow> nat" where
  "row_count list ctx = (case as_arr (path_get list ctx None) of Some a \<Rightarrow> length a | None \<Rightarrow> 0)"

definition plan_rows ::
  "('n, 'f, 'x) plan_env \<Rightarrow> string \<Rightarrow> string \<Rightarrow> ('n, 'x) job_tpl \<Rightarrow> 'n node \<Rightarrow> plan_src \<Rightarrow> 'n node option \<Rightarrow>
   input_error + 'n job_plan list" where
  "plan_rows env cid pfx j ctx src snapshot =
     map_result (\<lambda>row. plan_one env cid pfx j ctx (Chain cid row) row src snapshot)
       (case jt_per_instance j of None \<Rightarrow> [None] | Some list \<Rightarrow> map Some [0..<row_count list ctx])"

definition collect_own ::
  "('n, 'f, 'x) plan_env \<Rightarrow> nat \<Rightarrow> ('n, 'x) comp_tpl \<Rightarrow> 'n node \<Rightarrow> 'n node option \<Rightarrow> input_error + 'n job_plan list" where
  "collect_own env ci c ctx snapshot =
     bind_result (map_result (\<lambda>(ji, j, pfx).
         plan_rows env (cp_id c) pfx j ctx \<lparr>ps_comp = ci, ps_job = ji, ps_via = None\<rparr> snapshot)
       (enumerate 0 (zip (cp_jobs c) (cp_call_prefixes c)))) (\<lambda>pss. Ok (concat pss))"

definition collect_child_row ::
  "('n, 'f, 'x) plan_env \<Rightarrow> nat \<Rightarrow> ('n, 'x) comp_tpl \<Rightarrow> ('n, 'x) comp_tpl \<Rightarrow> nat \<Rightarrow> ('n, 'x) child_tpl \<Rightarrow> 'n node \<Rightarrow>
   'n node option \<Rightarrow> nat option \<Rightarrow> input_error + 'n job_plan list" where
  "collect_child_row env ci c child ri ch ctx snapshot row =
     (if (case ct_when ch of Some w \<Rightarrow> \<not> guard_holds (pe_numbers env) w ctx row | None \<Rightarrow> False) then Ok []
      else bind_result (props_eval (pe_exprs env) (ct_props ch) ctx row) (\<lambda>props.
        map_result (\<lambda>(ji, j, pfx).
            plan_one env (cp_id child) pfx j props (Child (cp_id c) (cp_id child) (ct_slot ch) row) row
              \<lparr>ps_comp = ct_child ch, ps_job = ji, ps_via = Some (ci, ri)\<rparr> snapshot)
          (enumerate 0 (zip (cp_jobs child) (ct_call_prefixes ch)))))"

definition collect_children ::
  "('n, 'f, 'x) plan_env \<Rightarrow> ('n, 'x) plan_index \<Rightarrow> nat \<Rightarrow> ('n, 'x) comp_tpl \<Rightarrow> 'n node \<Rightarrow> 'n node option \<Rightarrow>
   input_error + 'n job_plan list" where
  "collect_children env idx ci c ctx snapshot =
     bind_result (map_result (\<lambda>(ri, ch).
         let child = px_comps idx ! ct_child ch
         in if cp_jobs child = [] then Ok []
            else bind_result (map_result (collect_child_row env ci c child ri ch ctx snapshot)
              (case ct_rows ch of None \<Rightarrow> [None] | Some list \<Rightarrow> map Some [0..<rows_count list ctx])) (\<lambda>pss. Ok (concat pss)))
       (enumerate 0 (cp_children c))) (\<lambda>pss. Ok (concat pss))"

definition lift_input :: "input_error + 'a \<Rightarrow> plan_error + 'a" where
  "lift_input r = (case r of Inl e \<Rightarrow> Err (InputsError e) | Inr a \<Rightarrow> Ok a)"

definition collect_jobs ::
  "('n, 'f, 'x) plan_env \<Rightarrow> ('n, 'x) plan_index \<Rightarrow> string list \<Rightarrow> 'n node \<Rightarrow> plan_error + 'n job_plan list" where
  "collect_jobs env idx chain ctx =
     (let snapshot = node_get ctx STORE_KEY
      in bind_result (map_result (\<lambda>cid.
           bind_result (comp_ix idx cid) (\<lambda>ci.
           let c = px_comps idx ! ci
           in bind_result (lift_input (collect_own env ci c ctx snapshot)) (\<lambda>own.
              bind_result (lift_input (collect_children env idx ci c ctx snapshot)) (\<lambda>below. Ok (own @ below)))))
         chain) (\<lambda>pss. Ok (concat pss)))"

end
