(* ===== verification/PlanLaws.thy ===== *)
theory PlanLaws
  imports Plan "HOL-Library.Countable"
begin

text \<open>
  What planning guarantees: plans survive the worker call as rows, job keys separate jobs, and a manifest that passed the
  boot checks never fails to plan at request time.
\<close>

section \<open>Rows and back\<close>

lemma map_result_mem:
  assumes "map_result f xs = Inr ys" and "y \<in> set ys"
  obtains x where "x \<in> set xs" and "f x = Inr y"
proof -
  obtain i where "i < length ys" "ys ! i = y" using assms(2) by (auto simp: in_set_conv_nth)
  then show ?thesis
    using that [of "xs ! i"] map_result_nth [OF assms(1)] map_result_length [OF assms(1)] by simp
qed

text \<open>What a plan made for one template knows of it.\<close>

definition planned_from :: "('n, 'x) plan_index \<Rightarrow> 'n job_plan \<Rightarrow> bool" where
  "planned_from px p \<longleftrightarrow> rehydrate_row px (to_row p) = p\<lparr>pl_inputs := NNull\<rparr>"

lemma plan_one_fields:
  assumes "plan_one env cid pfx j props dest row src snapshot = Inr p"
  shows "pl_call_prefix p = pfx \<and> pl_call_row p = row \<and> pl_component_id p = cid \<and> pl_job_id p = jt_id j \<and>
    pl_kind p = jt_kind j \<and> pl_ttl p = jt_ttl j \<and> pl_tags p = jt_tags j \<and> pl_dest p = dest \<and>
    pl_outputs p = jt_outputs j \<and> pl_target p = jt_target j \<and> pl_src p = src"
  using assms unfolding plan_one_def Let_def bind_result_Inr_iff
  by (elim exE conjE, simp only: case_prod_beta sum.inject, hypsubst, simp)

lemma planned_from_own:
  assumes "plan_one env cid pfx j props (Chain cid row) row \<lparr>ps_comp = ci, ps_job = ji, ps_via = None\<rparr> snapshot = Inr p"
    and "cp_id (px_comps px ! ci) = cid" "cp_jobs (px_comps px ! ci) ! ji = j" "cp_call_prefixes (px_comps px ! ci) ! ji = pfx"
  shows "planned_from px p"
  using plan_one_fields [OF assms(1)] assms(2-4) by (simp add: planned_from_def rehydrate_row_def to_row_def Let_def)

lemma planned_from_child:
  assumes "plan_one env cid pfx j props (Child pid cid slot row) row \<lparr>ps_comp = k, ps_job = ji, ps_via = Some (ci, ri)\<rparr> snapshot = Inr p"
    and "cp_id (px_comps px ! k) = cid" "cp_jobs (px_comps px ! k) ! ji = j" "cp_id (px_comps px ! ci) = pid"
    and "ct_slot (cp_children (px_comps px ! ci) ! ri) = slot"
    and "ct_call_prefixes (cp_children (px_comps px ! ci) ! ri) ! ji = pfx"
  shows "planned_from px p"
  using plan_one_fields [OF assms(1)] assms(2-6) by (simp add: planned_from_def rehydrate_row_def to_row_def Let_def)

lemma mem_enumerate_zip:
  "(ji, j, pfx) \<in> set (enumerate 0 (zip js ps)) \<Longrightarrow> js ! ji = j \<and> ps ! ji = pfx \<and> ji < length js"
  by (auto simp: in_set_enumerate_eq)

lemma own_planned:
  assumes "collect_own env ci (px_comps px ! ci) ctx snapshot = Inr ps" and "p \<in> set ps"
  shows "planned_from px p"
proof -
  let ?c = "px_comps px ! ci"
  obtain pss where pss: "map_result (\<lambda>(ji, j, pfx).
         plan_rows env (cp_id ?c) pfx j ctx \<lparr>ps_comp = ci, ps_job = ji, ps_via = None\<rparr> snapshot)
       (enumerate 0 (zip (cp_jobs ?c) (cp_call_prefixes ?c))) = Inr pss" "ps = concat pss"
    using assms(1) by (auto simp: collect_own_def bind_result_Inr_iff)
  then obtain qs where qs: "qs \<in> set pss" "p \<in> set qs" using assms(2) by auto
  obtain x where x: "x \<in> set (enumerate 0 (zip (cp_jobs ?c) (cp_call_prefixes ?c)))"
      "(case x of (ji, j, pfx) \<Rightarrow> plan_rows env (cp_id ?c) pfx j ctx \<lparr>ps_comp = ci, ps_job = ji, ps_via = None\<rparr> snapshot) = Inr qs"
    by (rule map_result_mem [OF pss(1) qs(1)])
  obtain ji j pfx where xx: "x = (ji, j, pfx)" by (cases x) auto
  note facts = mem_enumerate_zip [OF x(1) [unfolded xx]]
  obtain row where "plan_one env (cp_id ?c) pfx j ctx (Chain (cp_id ?c) row) row \<lparr>ps_comp = ci, ps_job = ji, ps_via = None\<rparr> snapshot = Inr p"
    using x(2) qs(2) unfolding xx plan_rows_def by (auto elim: map_result_mem)
  then show ?thesis by (rule planned_from_own) (use facts in auto)
qed

lemma child_row_planned:
  assumes "collect_child_row env ci (px_comps px ! ci) (px_comps px ! ct_child ch) ri ch ctx snapshot row = Inr ps"
    and "p \<in> set ps" and "cp_children (px_comps px ! ci) ! ri = ch"
  shows "planned_from px p"
proof (cases "case ct_when ch of Some w \<Rightarrow> \<not> guard_holds (pe_numbers env) w ctx row | None \<Rightarrow> False")
  case True
  then show ?thesis using assms(1,2) unfolding collect_child_row_def by simp
next
  case False
  let ?c = "px_comps px ! ci" and ?child = "px_comps px ! ct_child ch"
  obtain props where "map_result (\<lambda>(ji, j, pfx).
            plan_one env (cp_id ?child) pfx j props (Child (cp_id ?c) (cp_id ?child) (ct_slot ch) row) row
              \<lparr>ps_comp = ct_child ch, ps_job = ji, ps_via = Some (ci, ri)\<rparr> snapshot)
          (enumerate 0 (zip (cp_jobs ?child) (ct_call_prefixes ch))) = Inr ps"
    using assms(1) False unfolding collect_child_row_def if_not_P [OF False] by (auto simp: bind_result_Inr_iff)
  then obtain x where x: "x \<in> set (enumerate 0 (zip (cp_jobs ?child) (ct_call_prefixes ch)))"
      "(case x of (ji, j, pfx) \<Rightarrow> plan_one env (cp_id ?child) pfx j props (Child (cp_id ?c) (cp_id ?child) (ct_slot ch) row) row
              \<lparr>ps_comp = ct_child ch, ps_job = ji, ps_via = Some (ci, ri)\<rparr> snapshot) = Inr p"
    using assms(2) by (rule map_result_mem)
  obtain ji j pfx where xx: "x = (ji, j, pfx)" by (cases x) auto
  note facts = mem_enumerate_zip [OF x(1) [unfolded xx]]
  show ?thesis
    by (rule planned_from_child [OF x(2) [unfolded xx prod.case]]) (use facts assms(3) in auto)
qed

lemma children_planned:
  assumes "collect_children env px ci (px_comps px ! ci) ctx snapshot = Inr ps" and "p \<in> set ps"
  shows "planned_from px p"
proof -
  let ?c = "px_comps px ! ci"
  obtain pss where pss: "map_result (\<lambda>(ri, ch).
         let child = px_comps px ! ct_child ch
         in if cp_jobs child = [] then Ok []
            else bind_result (map_result (collect_child_row env ci ?c child ri ch ctx snapshot)
              (case ct_rows ch of None \<Rightarrow> [None] | Some list \<Rightarrow> map Some [0..<rows_count list ctx])) (\<lambda>pss. Ok (concat pss)))
       (enumerate 0 (cp_children ?c)) = Inr pss" "ps = concat pss"
    using assms(1) by (auto simp: collect_children_def bind_result_Inr_iff)
  then obtain qs where qs: "qs \<in> set pss" "p \<in> set qs" using assms(2) by auto
  obtain ri ch where ch: "(ri, ch) \<in> set (enumerate 0 (cp_children ?c))"
    and q: "(let child = px_comps px ! ct_child ch
         in if cp_jobs child = [] then Ok []
            else bind_result (map_result (collect_child_row env ci ?c child ri ch ctx snapshot)
              (case ct_rows ch of None \<Rightarrow> [None] | Some list \<Rightarrow> map Some [0..<rows_count list ctx])) (\<lambda>pss. Ok (concat pss))) = Inr qs"
    using qs(1) by (rule map_result_mem [OF pss(1)]) (auto split: prod.splits)
  have at: "cp_children ?c ! ri = ch" using ch by (auto simp: in_set_enumerate_eq)
  obtain rss where rss: "map_result (collect_child_row env ci ?c (px_comps px ! ct_child ch) ri ch ctx snapshot)
      (case ct_rows ch of None \<Rightarrow> [None] | Some list \<Rightarrow> map Some [0..<rows_count list ctx]) = Inr rss" "p \<in> set (concat rss)"
    using q qs(2) by (auto simp: Let_def bind_result_Inr_iff split: if_splits)
  then obtain rs where rs: "rs \<in> set rss" "p \<in> set rs" by auto
  obtain row where "collect_child_row env ci ?c (px_comps px ! ct_child ch) ri ch ctx snapshot row = Inr rs"
    by (rule map_result_mem [OF rss(1) rs(1)])
  then have "collect_child_row env ci ?c (px_comps px ! ct_child ch) ri ch ctx snapshot row = Inr rs" "p \<in> set rs"
    using rs by auto
  then show ?thesis using at by (rule child_row_planned)
qed

lemma lift_input_Inr: "lift_input r = Inr a \<longleftrightarrow> r = Inr a"
  by (cases r) (auto simp: lift_input_def)

lemma collect_planned:
  assumes "collect_jobs env px chain ctx = Inr ps" and "p \<in> set ps"
  shows "planned_from px p"
proof -
  obtain pss where pss: "map_result (\<lambda>cid.
           bind_result (comp_ix px cid) (\<lambda>ci.
           let c = px_comps px ! ci
           in bind_result (lift_input (collect_own env ci c ctx (node_get ctx STORE_KEY))) (\<lambda>own.
              bind_result (lift_input (collect_children env px ci c ctx (node_get ctx STORE_KEY))) (\<lambda>below. Ok (own @ below)))))
         chain = Inr pss" "ps = concat pss"
    using assms(1) by (auto simp: collect_jobs_def bind_result_Inr_iff Let_def)
  then obtain qs where qs: "qs \<in> set pss" "p \<in> set qs" using assms(2) by auto
  obtain ci own below where "collect_own env ci (px_comps px ! ci) ctx (node_get ctx STORE_KEY) = Inr own"
      "collect_children env px ci (px_comps px ! ci) ctx (node_get ctx STORE_KEY) = Inr below" "qs = own @ below"
    using qs(1) by (rule map_result_mem [OF pss(1)]) (auto simp: bind_result_Inr_iff Let_def lift_input_Inr)
  then show ?thesis using qs(2) own_planned children_planned by auto
qed

text \<open>
  The plans of a request survive the worker call: written down as rows (template indices, row, keys) and read back
  from the index, each is the plan it was, except for the inputs, which are not needed afterwards.
\<close>

lemma rehydrate_rows:
  assumes "collect_jobs env px chain ctx = Inr plans"
  shows "rehydrate px (map to_row plans) = map (\<lambda>p. p\<lparr>pl_inputs := NNull\<rparr>) plans"
  using collect_planned [OF assms] by (simp add: rehydrate_def planned_from_def)




section \<open>A loaded manifest plans\<close>

lemma bind_result_ex: "(\<exists>b. bind_result r f = Inr b) \<longleftrightarrow> (\<exists>a b. r = Inr a \<and> f a = Inr b)"
  by (auto simp: bind_result_Inr_iff)

lemma map_result_ex: "(\<exists>ys. map_result f xs = Inr ys) \<longleftrightarrow> (\<forall>x\<in>set xs. \<exists>y. f x = Inr y)"
  by (induction xs) (auto simp: bind_result_Inr_iff)

lemma map_result_all:
  assumes "map_result f xs = Inr ys" and "\<And>x y. x \<in> set xs \<Longrightarrow> f x = Inr y \<Longrightarrow> P y"
  shows "\<forall>y\<in>set ys. P y"
  using assms by (auto elim: map_result_mem)

lemma try_each_ok: "try_each f xs = Inr () \<longleftrightarrow> (\<forall>x\<in>set xs. f x = Inr ())"
  using map_result_ex [of f xs] by (simp add: try_each_def bind_result_Inr_iff)

lemma require_ok: "require b e = Inr () \<longleftrightarrow> b"
  by simp

lemma check_path_ok: "check_path cid field p = Inr q \<longleftrightarrow> path_parse p = Inr q"
  by (simp add: check_path_def split: sum.splits)

text \<open>A binding that evaluates in every context: a path with \<open>[idx]\<close> only where there is a row.\<close>

definition bound_ready :: "bool \<Rightarrow> ('n, 'x) bound \<Rightarrow> bool" where
  "bound_ready per_row b \<longleftrightarrow> (case b of BPath p _ \<Rightarrow> has_idx p \<longrightarrow> per_row | _ \<Rightarrow> True)"

definition job_ready :: "bool \<Rightarrow> ('n, 'x) job_tpl \<Rightarrow> bool" where
  "job_ready per_row t \<longleftrightarrow>
     (case jt_inputs t of
        PropsInputs pm \<Rightarrow> \<forall>nb\<in>set (pm_props pm). bound_ready per_row (snd nb)
      | AllInputs \<Rightarrow> True
      | ProjectInputs pr \<Rightarrow> first_idx pr = None)"

lemma bound_eval_ready:
  assumes "bound_ready (idx \<noteq> None) (snd nb)" and "\<forall>e sc. \<exists>v. eval_expr ex e sc = Inr v"
  shows "\<exists>v. bound_eval ex pm ctx idx nb = Inr v"
proof -
  obtain name b where nb: "nb = (name, b)" by (cases nb)
  show ?thesis
  proof (cases b)
    case (BExpr e src)
    obtain v where "eval_expr ex e (props_scope pm ctx idx) = Inr v" using assms(2) by blast
    then show ?thesis by (simp add: nb BExpr bound_eval_def split: option.splits)
  qed (use assms(1) nb in \<open>auto simp: bound_eval_def bound_ready_def\<close>)
qed

lemma props_fold_ready:
  assumes "\<forall>nb\<in>set nbs. bound_ready (idx \<noteq> None) (snd nb)" and "\<forall>e sc. \<exists>v. eval_expr ex e sc = Inr v"
  shows "\<exists>v. props_fold ex pm ctx idx nbs out = Inr v"
  using assms(1)
proof (induction nbs arbitrary: out)
  case (Cons nb nbs)
  then show ?case using bound_eval_ready [OF _ assms(2), of idx nb pm ctx] by (auto simp: bind_result_Inr_iff)
qed simp

lemma props_eval_ready:
  assumes "\<forall>nb\<in>set (pm_props pm). bound_ready (idx \<noteq> None) (snd nb)" and "\<forall>e sc. \<exists>v. eval_expr ex e sc = Inr v"
  shows "\<exists>v. props_eval ex pm ctx idx = Inr v"
  using props_fold_ready [OF assms, of pm ctx "[]"] by (auto simp: props_eval_def)

lemma eval_inputs_ready:
  assumes "job_ready (row \<noteq> None) j" and "\<forall>e sc. \<exists>v. eval_expr (pe_exprs env) e sc = Inr v"
  shows "\<exists>v. eval_inputs env j props row = Inr v"
proof (cases "jt_inputs j")
  case (PropsInputs pm)
  then have "\<forall>nb\<in>set (pm_props pm). bound_ready (row \<noteq> None) (snd nb)" using assms(1) by (simp add: job_ready_def)
  then show ?thesis using props_eval_ready [OF _ assms(2)] by (simp add: eval_inputs_def PropsInputs)
next
  case (ProjectInputs pr)
  then show ?thesis using assms(1) by (simp add: eval_inputs_def job_ready_def projection_eval_def)
qed (simp add: eval_inputs_def)

lemma plan_one_ready:
  assumes "job_ready ((case dest of Chain _ r \<Rightarrow> r | Child _ _ _ _ \<Rightarrow> None) \<noteq> None) j"
    and "\<forall>e sc. \<exists>v. eval_expr (pe_exprs env) e sc = Inr v"
  shows "\<exists>p. plan_one env cid pfx j props dest row src snapshot = Inr p"
  using eval_inputs_ready [OF assms, of props] by (auto simp: plan_one_def Let_def case_prod_beta)

section \<open>What the boot checks establish\<close>

text \<open>The props of a job never name the row of a per-instance list.\<close>

definition row_free :: "job_record \<Rightarrow> bool" where
  "row_free j \<longleftrightarrow>
     (case jr_props j of
        None \<Rightarrow> True
      | Some ps \<Rightarrow> list_all (\<lambda>(_, src). case path_parse src of Inr p \<Rightarrow> \<not> has_idx p | Inl _ \<Rightarrow> True) ps)"

lemma check_job_facts:
  assumes "check_job cid j = Inr ()"
  shows "\<And>props n src. jr_props j = Some props \<Longrightarrow> (n, src) \<in> set props \<Longrightarrow>
      \<exists>p. path_parse src = Inr p \<and> (has_idx p \<longrightarrow> jr_per_instance j \<noteq> None)"
    and "\<And>i. i \<in> set (jr_inputs j) \<Longrightarrow> i \<noteq> ALL_PROPS \<Longrightarrow> \<exists>p. path_parse i = Inr p \<and> \<not> has_idx p"
    and "\<And>k. jc_key (jr_cache j) = Some k \<Longrightarrow> \<exists>p. path_parse k = Inr p"
    and "\<And>k. jr_per_instance j = Some k \<Longrightarrow> \<exists>p. path_parse k = Inr p"
proof -
  note parts = assms [unfolded check_job_def Let_def bind_result_Inr_iff try_each_ok]
  show "\<exists>p. path_parse src = Inr p \<and> (has_idx p \<longrightarrow> jr_per_instance j \<noteq> None)"
    if "jr_props j = Some props" "(n, src) \<in> set props" for props n src
    using parts that by (fastforce simp: try_each_ok bind_result_Inr_iff check_path_ok split: if_splits)
  show "\<exists>p. path_parse i = Inr p \<and> \<not> has_idx p" if "i \<in> set (jr_inputs j)" "i \<noteq> ALL_PROPS" for i
    using parts that by (fastforce simp: try_each_ok bind_result_Inr_iff check_path_ok split: if_splits)
  show "\<exists>p. path_parse k = Inr p" if "jc_key (jr_cache j) = Some k" for k
    using parts that by (auto simp: bind_result_Inr_iff check_path_ok)
  show "\<exists>p. path_parse k = Inr p" if "jr_per_instance j = Some k" for k
    using parts that by (auto simp: bind_result_Inr_iff check_path_ok)
qed


lemma props_map_new_ready:
  fixes ex :: "('n, 'x) expressions"
  assumes "\<And>n src. (n, src) \<in> set props \<Longrightarrow> \<exists>p. path_parse src = Inr p \<and> (has_idx p \<longrightarrow> per_row)"
  shows "\<exists>pm. props_map_new ex props = Inr pm \<and> (\<forall>nb\<in>set (pm_props pm). bound_ready per_row (snd nb))"
proof -
  let ?f = "\<lambda>(name, src). bind_result (path_parse src) (\<lambda>p. Ok (name, BPath p src :: ('n, 'x) bound))"
  have "\<exists>ps. map_result ?f props = Inr ps"
    unfolding map_result_ex using assms by (fastforce simp: bind_result_Inr_iff)
  then obtain ps where ps: "map_result ?f props = Inr ps" by blast
  have "\<forall>nb\<in>set ps. bound_ready per_row (snd nb)"
    by (rule map_result_all [OF ps]) (use assms in \<open>fastforce simp: bind_result_Inr_iff bound_ready_def\<close>)
  then show ?thesis using ps by (simp add: props_map_new_def props_map_child_def)
qed

lemma projection_new_ready:
  assumes "\<And>i. i \<in> set inputs \<Longrightarrow> \<exists>p. path_parse i = Inr p \<and> \<not> has_idx p"
  shows "\<exists>pr. projection_new inputs = Inr pr \<and> first_idx pr = None"
proof -
  have "\<exists>paths. map_result path_parse inputs = Inr paths"
    unfolding map_result_ex using assms by blast
  then obtain paths where paths: "map_result path_parse inputs = Inr paths" by blast
  have "\<forall>p\<in>set paths. \<not> has_idx p"
    by (rule map_result_all [OF paths]) (use assms in fastforce)
  then have "List.find (\<lambda>(p, _). has_idx p) (zip paths inputs) = None"
    by (auto simp: find_None_iff dest: set_zip_leftD)
  then show ?thesis by (simp add: projection_new_def paths)
qed

lemma option_parse_ready:
  assumes "\<And>k. s = Some k \<Longrightarrow> \<exists>p. path_parse k = Inr p"
  shows "\<exists>p. option_parse s = Inr p \<and> (p \<noteq> None \<longleftrightarrow> s \<noteq> None)"
  using assms by (fastforce simp: option_parse_def split: option.split)

lemma job_tpl_ready:
  assumes "check_job cid j = Inr ()"
  shows "\<exists>t. job_tpl_new ex j = Inr t \<and> job_ready (jt_per_instance t \<noteq> None) t \<and> (row_free j \<longrightarrow> job_ready False t)"
proof -
  note facts = check_job_facts [OF assms]
  obtain per where per: "option_parse (jr_per_instance j) = Inr per" "per \<noteq> None \<longleftrightarrow> jr_per_instance j \<noteq> None"
    using option_parse_ready [OF facts(4)] by blast
  obtain key where key: "option_parse (jc_key (jr_cache j)) = Inr key"
    using option_parse_ready [OF facts(3)] by blast
  show ?thesis
  proof (cases "jr_props j")
    case None
    show ?thesis
    proof (cases "ALL_PROPS \<in> set (jr_inputs j)")
      case True
      then show ?thesis by (simp add: job_tpl_new_def None per(1) key job_ready_def)
    next
      case False
      then obtain pr where "projection_new (jr_inputs j) = Inr pr" "first_idx pr = None"
        using projection_new_ready [of "jr_inputs j"] facts(2) by blast
      with False show ?thesis by (simp add: job_tpl_new_def None per(1) key job_ready_def)
    qed
  next
    case (Some props)
    let ?row = "jr_per_instance j \<noteq> None \<and> \<not> row_free j"
    have "\<exists>p. path_parse src = Inr p \<and> (has_idx p \<longrightarrow> ?row)" if "(n, src) \<in> set props" for n src
      using facts(1) [OF Some that] that Some by (fastforce simp: row_free_def list_all_iff)
    then obtain pm where pm: "props_map_new ex props = Inr pm" "\<forall>nb\<in>set (pm_props pm). bound_ready ?row (snd nb)"
      using props_map_new_ready [of props ?row ex] by blast
    then have "\<forall>nb\<in>set (pm_props pm). bound_ready (per \<noteq> None) (snd nb)"
      and "row_free j \<longrightarrow> (\<forall>nb\<in>set (pm_props pm). bound_ready False (snd nb))"
      using per(2) by (auto simp: bound_ready_def split: bound.splits)
    then show ?thesis by (simp add: job_tpl_new_def Some pm(1) per(1) key job_ready_def)
  qed
qed

text \<open>What planning needs of an inlined child and of a component.\<close>

definition child_ready :: "('n, 'x) comp_tpl list \<Rightarrow> ('n, 'x) child_tpl \<Rightarrow> bool" where
  "child_ready comps ch \<longleftrightarrow>
     (\<forall>nb\<in>set (pm_props (ct_props ch)). bound_ready (ct_rows ch \<noteq> None) (snd nb)) \<and>
     (\<forall>j\<in>set (cp_jobs (comps ! ct_child ch)). job_ready False j)"

definition comp_ready :: "('n, 'x) comp_tpl list \<Rightarrow> ('n, 'x) comp_tpl \<Rightarrow> bool" where
  "comp_ready comps c \<longleftrightarrow>
     (\<forall>j\<in>set (cp_jobs c). job_ready (jt_per_instance j \<noteq> None) j) \<and> (\<forall>ch\<in>set (cp_children c). child_ready comps ch)"

lemma enumerate_mem: "(i, x) \<in> set (enumerate 0 xs) \<Longrightarrow> x \<in> set xs"
  by (auto simp: in_set_enumerate_eq)

lemma collect_own_ready:
  assumes "\<forall>j\<in>set (cp_jobs c). job_ready (jt_per_instance j \<noteq> None) j"
    and "\<forall>e sc. \<exists>v. eval_expr (pe_exprs env) e sc = Inr v"
  shows "\<exists>ps. collect_own env ci c ctx snapshot = Inr ps"
proof -
  have "\<exists>ps. plan_rows env (cp_id c) pfx j ctx src snapshot = Inr ps" if "j \<in> set (cp_jobs c)" for j pfx src
    unfolding plan_rows_def map_result_ex
  proof (intro ballI plan_one_ready assms(2))
    fix row assume "row \<in> set (case jt_per_instance j of None \<Rightarrow> [None] | Some list \<Rightarrow> map Some [0..<row_count list ctx])"
    then have "row \<noteq> None \<longleftrightarrow> jt_per_instance j \<noteq> None" by (auto split: option.splits)
    then show "job_ready ((case Chain (cp_id c) row of Chain _ r \<Rightarrow> r | Child _ _ _ _ \<Rightarrow> None) \<noteq> None) j"
      using assms(1) that by simp
  qed
  then have "\<exists>pss. map_result (\<lambda>(ji, j, pfx). plan_rows env (cp_id c) pfx j ctx \<lparr>ps_comp = ci, ps_job = ji, ps_via = None\<rparr> snapshot)
       (enumerate 0 (zip (cp_jobs c) (cp_call_prefixes c))) = Inr pss"
    unfolding map_result_ex by (auto dest!: enumerate_mem set_zip_leftD)
  then show ?thesis by (auto simp: collect_own_def)
qed

lemma collect_child_row_ready:
  assumes "\<forall>nb\<in>set (pm_props (ct_props ch)). bound_ready (row \<noteq> None) (snd nb)"
    and "\<forall>j\<in>set (cp_jobs child). job_ready False j"
    and "\<forall>e sc. \<exists>v. eval_expr (pe_exprs env) e sc = Inr v"
  shows "\<exists>ps. collect_child_row env ci c child ri ch ctx snapshot row = Inr ps"
proof -
  obtain props where props: "props_eval (pe_exprs env) (ct_props ch) ctx row = Inr props"
    using props_eval_ready [OF assms(1,3)] by blast
  have "\<exists>ps. map_result (\<lambda>(ji, j, pfx).
            plan_one env (cp_id child) pfx j props (Child (cp_id c) (cp_id child) (ct_slot ch) row) row
              \<lparr>ps_comp = ct_child ch, ps_job = ji, ps_via = Some (ci, ri)\<rparr> snapshot)
          (enumerate 0 (zip (cp_jobs child) (ct_call_prefixes ch))) = Inr ps"
    unfolding map_result_ex
  proof (clarify, intro plan_one_ready assms(3))
    fix ji j pfx assume "(ji, j, pfx) \<in> set (enumerate 0 (zip (cp_jobs child) (ct_call_prefixes ch)))"
    then have "j \<in> set (cp_jobs child)" by (auto dest!: enumerate_mem set_zip_leftD)
    then show "job_ready ((case Child (cp_id c) (cp_id child) (ct_slot ch) row of Chain _ r \<Rightarrow> r | Child _ _ _ _ \<Rightarrow> None) \<noteq> None) j"
      using assms(2) by simp
  qed
  then show ?thesis by (simp add: collect_child_row_def props)
qed

lemma collect_children_ready:
  assumes "\<forall>ch\<in>set (cp_children c). child_ready (px_comps px) ch"
    and "\<forall>e sc. \<exists>v. eval_expr (pe_exprs env) e sc = Inr v"
  shows "\<exists>ps. collect_children env px ci c ctx snapshot = Inr ps"
proof -
  have one: "\<exists>ps. map_result (collect_child_row env ci c (px_comps px ! ct_child ch) ri ch ctx snapshot)
      (case ct_rows ch of None \<Rightarrow> [None] | Some list \<Rightarrow> map Some [0..<rows_count list ctx]) = Inr ps"
    if "ch \<in> set (cp_children c)" for ri ch
    unfolding map_result_ex
  proof (rule ballI, rule collect_child_row_ready [OF _ _ assms(2)])
    fix row assume "row \<in> set (case ct_rows ch of None \<Rightarrow> [None] | Some list \<Rightarrow> map Some [0..<rows_count list ctx])"
    then have "row \<noteq> None \<longleftrightarrow> ct_rows ch \<noteq> None" by (auto split: option.splits)
    then show "\<forall>nb\<in>set (pm_props (ct_props ch)). bound_ready (row \<noteq> None) (snd nb)"
      using assms(1) that by (simp add: child_ready_def)
    show "\<forall>j\<in>set (cp_jobs (px_comps px ! ct_child ch)). job_ready False j"
      using assms(1) that by (simp add: child_ready_def)
  qed
  have "\<exists>pss. map_result (\<lambda>(ri, ch).
         let child = px_comps px ! ct_child ch
         in if cp_jobs child = [] then Ok []
            else bind_result (map_result (collect_child_row env ci c child ri ch ctx snapshot)
              (case ct_rows ch of None \<Rightarrow> [None] | Some list \<Rightarrow> map Some [0..<rows_count list ctx])) (\<lambda>pss. Ok (concat pss)))
       (enumerate 0 (cp_children c)) = Inr pss"
    unfolding map_result_ex
  proof clarify
    fix ri ch assume "(ri, ch) \<in> set (enumerate 0 (cp_children c))"
    then obtain rss where "map_result (collect_child_row env ci c (px_comps px ! ct_child ch) ri ch ctx snapshot)
      (case ct_rows ch of None \<Rightarrow> [None] | Some list \<Rightarrow> map Some [0..<rows_count list ctx]) = Inr rss"
      using one enumerate_mem by metis
    then show "\<exists>y. (let child = px_comps px ! ct_child ch
         in if cp_jobs child = [] then Ok []
            else bind_result (map_result (collect_child_row env ci c child ri ch ctx snapshot)
              (case ct_rows ch of None \<Rightarrow> [None] | Some list \<Rightarrow> map Some [0..<rows_count list ctx])) (\<lambda>pss. Ok (concat pss))) = Inr y"
      by (simp add: Let_def)
  qed
  then show ?thesis by (auto simp: collect_children_def)
qed

lemma collect_ready:
  assumes "\<forall>c\<in>set (px_comps px). comp_ready (px_comps px) c"
    and "\<forall>cid\<in>set chain. \<exists>i < length (px_comps px). map_of (px_by_id px) cid = Some i"
    and "\<forall>e sc. \<exists>v. eval_expr (pe_exprs env) e sc = Inr v"
  shows "\<exists>ps. collect_jobs env px chain ctx = Inr ps"
proof -
  have "\<exists>ps. map_result (\<lambda>cid.
           bind_result (comp_ix px cid) (\<lambda>ci.
           let c = px_comps px ! ci
           in bind_result (lift_input (collect_own env ci c ctx (node_get ctx STORE_KEY))) (\<lambda>own.
              bind_result (lift_input (collect_children env px ci c ctx (node_get ctx STORE_KEY))) (\<lambda>below. Ok (own @ below)))))
         chain = Inr ps"
    unfolding map_result_ex
  proof
    fix cid assume "cid \<in> set chain"
    then obtain i where i: "i < length (px_comps px)" "map_of (px_by_id px) cid = Some i" using assms(2) by blast
    then have "comp_ready (px_comps px) (px_comps px ! i)" using assms(1) by simp
    then obtain own below where "collect_own env i (px_comps px ! i) ctx (node_get ctx STORE_KEY) = Inr own"
        "collect_children env px i (px_comps px ! i) ctx (node_get ctx STORE_KEY) = Inr below"
      using collect_own_ready collect_children_ready assms(3) unfolding comp_ready_def by metis
    then show "\<exists>y. bind_result (comp_ix px cid) (\<lambda>ci.
           let c = px_comps px ! ci
           in bind_result (lift_input (collect_own env ci c ctx (node_get ctx STORE_KEY))) (\<lambda>own.
              bind_result (lift_input (collect_children env px ci c ctx (node_get ctx STORE_KEY))) (\<lambda>below. Ok (own @ below)))) = Inr y"
      by (simp add: comp_ix_def i lift_input_def Let_def)
  qed
  then show ?thesis by (auto simp: collect_jobs_def Let_def)
qed


section \<open>The index of a loaded manifest\<close>

lemma check_child_facts:
  assumes "check_child ex cid ch = Inr ()"
  shows "\<And>list. ch_instances ch = PerRow list \<Longrightarrow> \<exists>p. path_parse list = Inr p"
    and "\<And>n src. (n, src) \<in> set (ch_props ch) \<Longrightarrow>
      \<exists>p. path_parse src = Inr p \<and> (has_idx p \<longrightarrow> ch_instances ch \<noteq> StaticInstance)"
    and "\<And>n src. (n, src) \<in> set (ch_exprs ch) \<Longrightarrow> \<exists>e. compile_expr ex src = Inr e"
proof -
  note parts = assms [unfolded check_child_def Let_def bind_result_Inr_iff try_each_ok]
  show "\<exists>p. path_parse list = Inr p" if "ch_instances ch = PerRow list" for list
    using parts that by (auto simp: bind_result_Inr_iff check_path_ok)
  show "\<exists>p. path_parse src = Inr p \<and> (has_idx p \<longrightarrow> ch_instances ch \<noteq> StaticInstance)"
    if "(n, src) \<in> set (ch_props ch)" for n src
    using parts that by (cases "ch_instances ch") (fastforce simp: try_each_ok bind_result_Inr_iff check_path_ok split: if_splits)+
  show "\<exists>e. compile_expr ex src = Inr e" if "(n, src) \<in> set (ch_exprs ch)" for n src
    using parts that by (fastforce simp: try_each_ok split: sum.splits)
qed

lemma props_map_child_ready:
  fixes ex :: "('n, 'x) expressions"
  assumes "\<And>n src. (n, src) \<in> set props \<Longrightarrow> \<exists>p. path_parse src = Inr p \<and> (has_idx p \<longrightarrow> per_row)"
    and "\<And>n src. (n, src) \<in> set exprs \<Longrightarrow> \<exists>e. compile_expr ex src = Inr e"
  shows "\<exists>pm. props_map_child ex props literals exprs rows = Inr pm \<and> (\<forall>nb\<in>set (pm_props pm). bound_ready per_row (snd nb))"
proof -
  let ?f = "\<lambda>(name, src). bind_result (path_parse src) (\<lambda>p. Ok (name, BPath p src :: ('n, 'x) bound))"
  let ?g = "\<lambda>(name, src). case compile_expr ex src of Inr e \<Rightarrow> Ok (name, BExpr e src :: ('n, 'x) bound) | Inl e \<Rightarrow> Err (BadExpr name src e)"
  have "\<exists>ps. map_result ?f props = Inr ps"
    unfolding map_result_ex using assms(1) by (fastforce simp: bind_result_Inr_iff)
  then obtain ps where ps: "map_result ?f props = Inr ps" by blast
  have "\<exists>es. map_result ?g exprs = Inr es"
    unfolding map_result_ex using assms(2) by fastforce
  then obtain es where es: "map_result ?g exprs = Inr es" by blast
  have "\<forall>nb\<in>set ps. bound_ready per_row (snd nb)"
    by (rule map_result_all [OF ps]) (use assms(1) in \<open>fastforce simp: bind_result_Inr_iff bound_ready_def\<close>)
  moreover have "\<forall>nb\<in>set es. bound_ready per_row (snd nb)"
    by (rule map_result_all [OF es]) (auto simp: bound_ready_def split: sum.splits)
  ultimately show ?thesis using ps es by (auto simp: props_map_child_def bound_ready_def)
qed

lemma child_tpl_ready:
  assumes "check_child ex cid ch = Inr ()" and "map_of by_id (ch_id ch) = Some i"
    and "\<And>g. ch_when ch = Some g \<Longrightarrow> \<exists>h. guard_new g = Inr h"
  shows "\<exists>t. child_tpl_new ex m by_id cid k ch = Inr t \<and> ct_child t = i \<and>
    (\<forall>nb\<in>set (pm_props (ct_props t)). bound_ready (ct_rows t \<noteq> None) (snd nb))"
proof -
  note facts = check_child_facts [OF assms(1)]
  obtain rows where rows: "(case ch_instances ch of
               StaticInstance \<Rightarrow> Ok None
             | PerRow list \<Rightarrow> (case path_parse list of Inr p \<Rightarrow> Ok (Some (RowsPath p)) | Inl e \<Rightarrow> Err (ChildPathError e))
             | PerRowLiteral \<Rightarrow> Ok (Some (RowsLiteral (from_json (case ch_rows ch of Some v \<Rightarrow> v | None \<Rightarrow> VNull))))) = Inr rows"
      "rows \<noteq> None \<longleftrightarrow> ch_instances ch \<noteq> StaticInstance"
    using facts(1) by (cases "ch_instances ch") fastforce+
  obtain pm where pm: "props_map_child ex (ch_props ch) (ch_literals ch) (ch_exprs ch) rows = Inr pm"
      "\<forall>nb\<in>set (pm_props pm). bound_ready (rows \<noteq> None) (snd nb)"
    using props_map_child_ready [of "ch_props ch" "rows \<noteq> None" "ch_exprs ch" ex "ch_literals ch" rows]
      facts(2,3) unfolding rows(2) by blast
  obtain w where "(case ch_when ch of
               None \<Rightarrow> Ok None
             | Some g \<Rightarrow> (case guard_new g of Inr g \<Rightarrow> Ok (Some g) | Inl e \<Rightarrow> Err (WhenError cid (ch_id ch) e))) = Inr w"
    using assms(3) by (cases "ch_when ch") auto
  then show ?thesis using pm by (simp add: child_tpl_new_def assms(2) rows(1))
qed

lemma children_tpl_ready:
  assumes "\<And>ch. ch \<in> set chs \<Longrightarrow> check_child ex cid ch = Inr ()"
    and "\<And>ch. ch \<in> set chs \<Longrightarrow> map_of by_id (ch_id ch) \<noteq> None"
    and "\<forall>ch\<in>set chs. \<forall>g. ch_when ch = Some g \<longrightarrow> (\<exists>h. guard_new g = Inr h)"
  shows "\<exists>ts. children_tpl ex m by_id cid ords chs = Inr ts \<and>
    (\<forall>t\<in>set ts. (\<exists>ch\<in>set chs. map_of by_id (ch_id ch) = Some (ct_child t)) \<and>
      (\<forall>nb\<in>set (pm_props (ct_props t)). bound_ready (ct_rows t \<noteq> None) (snd nb)))"
  using assms
proof (induction chs arbitrary: ords)
  case (Cons ch chs)
  let ?k = "ordinal_next (ch_id ch) ords"
  obtain i where i: "map_of by_id (ch_id ch) = Some i" using Cons.prems(2) [of ch] by auto
  obtain t where t: "child_tpl_new ex m by_id cid ?k ch = Inr t" "ct_child t = i"
      "\<forall>nb\<in>set (pm_props (ct_props t)). bound_ready (ct_rows t \<noteq> None) (snd nb)"
    using child_tpl_ready [OF Cons.prems(1) i, of m ?k] Cons.prems(3) by auto
  have "\<exists>ts. children_tpl ex m by_id cid (bm_insert (ch_id ch) ?k ords) chs = Inr ts \<and>
    (\<forall>t\<in>set ts. (\<exists>ch\<in>set chs. map_of by_id (ch_id ch) = Some (ct_child t)) \<and>
      (\<forall>nb\<in>set (pm_props (ct_props t)). bound_ready (ct_rows t \<noteq> None) (snd nb)))"
    by (rule Cons.IH) (use Cons.prems in auto)
  then show ?case using t i by (auto simp: Let_def)
qed simp

lemma comp_tpl_ready:
  assumes "check_paths ex cid c = Inr ()"
    and "\<And>ch. ch \<in> set (cr_children c) \<Longrightarrow> map_of by_id (ch_id ch) \<noteq> None"
    and "\<forall>ch\<in>set (cr_children c). \<forall>g. ch_when ch = Some g \<longrightarrow> (\<exists>h. guard_new g = Inr h)"
  shows "\<exists>t. comp_tpl_new ex m by_id (cid, c) = Inr t \<and>
    (\<forall>j\<in>set (cp_jobs t). job_ready (jt_per_instance j \<noteq> None) j) \<and>
    (list_all row_free (cr_jobs c) \<longrightarrow> (\<forall>j\<in>set (cp_jobs t). job_ready False j)) \<and>
    (\<forall>t\<in>set (cp_children t). (\<exists>ch\<in>set (cr_children c). map_of by_id (ch_id ch) = Some (ct_child t)) \<and>
      (\<forall>nb\<in>set (pm_props (ct_props t)). bound_ready (ct_rows t \<noteq> None) (snd nb)))"
proof -
  have jobs: "\<And>j. j \<in> set (cr_jobs c) \<Longrightarrow> check_job cid j = Inr ()"
    and children: "\<And>ch. ch \<in> set (cr_children c) \<Longrightarrow> check_child ex cid ch = Inr ()"
    using assms(1) by (auto simp: check_paths_def bind_result_Inr_iff try_each_ok)
  let ?f = "\<lambda>j. case job_tpl_new ex j of Inr t \<Rightarrow> Ok t | Inl e \<Rightarrow> Err (JobTplError cid (jr_id j) e)"
  have each: "\<exists>t. ?f j = Inr t \<and> job_ready (jt_per_instance t \<noteq> None) t \<and> (row_free j \<longrightarrow> job_ready False t)"
    if "j \<in> set (cr_jobs c)" for j
    using job_tpl_ready [OF jobs [OF that], of ex] by fastforce
  then have "\<exists>ts. map_result ?f (cr_jobs c) = Inr ts" unfolding map_result_ex by blast
  then obtain ts where ts: "map_result ?f (cr_jobs c) = Inr ts" by blast
  have "\<forall>t\<in>set ts. job_ready (jt_per_instance t \<noteq> None) t"
    by (rule map_result_all [OF ts]) (use each in fastforce)
  moreover have "\<forall>t\<in>set ts. list_all row_free (cr_jobs c) \<longrightarrow> job_ready False t"
    by (rule map_result_all [OF ts]) (use each in \<open>fastforce simp: list_all_iff\<close>)
  moreover obtain chs where "children_tpl ex m by_id cid [] (cr_children c) = Inr chs"
      "\<forall>t\<in>set chs. (\<exists>ch\<in>set (cr_children c). map_of by_id (ch_id ch) = Some (ct_child t)) \<and>
      (\<forall>nb\<in>set (pm_props (ct_props t)). bound_ready (ct_rows t \<noteq> None) (snd nb))"
    using children_tpl_ready [of "cr_children c" ex cid by_id, OF children assms(2,3)] by blast
  ultimately show ?thesis using ts by (simp add: comp_tpl_new_def)
qed


text \<open>
  Two things the boot checks leave out: whether the branch conditions of children parse, and whether a job of an inlined
  component has props that name a row (a job planned below a parent has no row of its own).
\<close>

definition guards_parse :: "'n manifest \<Rightarrow> bool" where
  "guards_parse m \<longleftrightarrow>
     list_all (\<lambda>(_, c). list_all (\<lambda>ch. case ch_when ch of Some g \<Rightarrow> \<not> isl (guard_new g) | None \<Rightarrow> True) (cr_children c))
       (mf_components m)"

definition child_jobs_row_free :: "'n manifest \<Rightarrow> bool" where
  "child_jobs_row_free m \<longleftrightarrow>
     list_all (\<lambda>(_, c). list_all (\<lambda>ch. list_all (\<lambda>(cid, child). cid = ch_id ch \<longrightarrow> list_all row_free (cr_jobs child))
       (mf_components m)) (cr_children c)) (mf_components m)"

lemma child_jobs_row_freeD:
  assumes "child_jobs_row_free m" and "(cid, c) \<in> set (mf_components m)" and "ch \<in> set (cr_children c)"
    and "(ch_id ch, child) \<in> set (mf_components m)"
  shows "list_all row_free (cr_jobs child)"
  using bspec [OF bspec [OF bspec [OF assms(1) [unfolded child_jobs_row_free_def list_all_iff] assms(2), simplified] assms(3)] assms(4), simplified]
  by (simp add: list_all_iff)

lemma map_of_zip_upt:
  "map_of (zip ids [0..<length ids]) x = Some i \<Longrightarrow> i < length ids \<and> ids ! i = x"
  by (drule map_of_SomeD) (auto simp: in_set_zip)

lemma map_of_zip_upt_mem:
  "x \<in> set ids \<Longrightarrow> \<exists>i < length ids. map_of (zip ids [0..<length ids]) x = Some i"
  using map_of_zip_is_Some [of ids "[0..<length ids]" x] map_of_zip_upt [of ids x] by fastforce

lemma walk_facts:
  assumes "walk ex file m = Inr loaded"
  shows "\<And>r cid. r \<in> set (mf_routes m) \<Longrightarrow> cid \<in> set (rr_chain r) \<Longrightarrow> map_of (mf_components m) cid \<noteq> None"
    and "\<And>cid c. (cid, c) \<in> set (mf_components m) \<Longrightarrow> check_paths ex cid c = Inr ()"
    and "\<And>cid c ch. (cid, c) \<in> set (mf_components m) \<Longrightarrow> ch \<in> set (cr_children c) \<Longrightarrow> map_of (mf_components m) (ch_id ch) \<noteq> None"
proof -
  obtain srcs where routes: "try_each (walk_route file m) (mf_routes m) = Inr ()"
    and comps: "map_result (walk_component ex file m) (mf_components m) = Inr srcs"
    using assms by (auto simp: walk_def bind_result_Inr_iff)
  have each: "\<exists>s. walk_component ex file m (cid, c) = Inr s" if "(cid, c) \<in> set (mf_components m)" for cid c
    using map_result_ex [of "walk_component ex file m" "mf_components m"] comps that by blast
  show "map_of (mf_components m) cid \<noteq> None" if r: "r \<in> set (mf_routes m)" "cid \<in> set (rr_chain r)" for r cid
  proof -
    have "walk_route file m r = Inr ()" using routes r(1) by (simp add: try_each_ok)
    then show ?thesis using r(2) by (auto simp: walk_route_def bind_result_Inr_iff try_each_ok split: if_splits)
  qed
  show "check_paths ex cid c = Inr ()" if "(cid, c) \<in> set (mf_components m)" for cid c
    using each [OF that] by (auto simp: walk_component_def bind_result_Inr_iff)
  show "map_of (mf_components m) (ch_id ch) \<noteq> None"
    if c: "(cid, c) \<in> set (mf_components m)" "ch \<in> set (cr_children c)" for cid c ch
    using each [OF c(1)] c(2) by (fastforce simp: walk_component_def bind_result_Inr_iff try_each_ok split: option.splits)
qed

lemma index_ready:
  assumes "walk ex file m = Inr loaded" and "guards_parse m" and "child_jobs_row_free m"
  shows "\<exists>px. plan_index_new ex m = Inr px \<and> (\<forall>c\<in>set (px_comps px). comp_ready (px_comps px) c) \<and>
    (\<forall>r\<in>set (mf_routes m). \<forall>cid\<in>set (rr_chain r). \<exists>i < length (px_comps px). map_of (px_by_id px) cid = Some i)"
proof -
  note facts = walk_facts [OF assms(1)]
  let ?ids = "map fst (mf_components m)"
  let ?by_id = "zip ?ids [0..<length ?ids]"
  have known: "\<exists>i < length (mf_components m). map_of ?by_id cid = Some i" if "map_of (mf_components m) cid \<noteq> None" for cid
    using map_of_zip_upt_mem [of cid ?ids] that by (simp add: map_of_eq_None_iff)
  have each: "\<exists>t. comp_tpl_new ex m ?by_id (cid, c) = Inr t \<and>
    (\<forall>j\<in>set (cp_jobs t). job_ready (jt_per_instance j \<noteq> None) j) \<and>
    (list_all row_free (cr_jobs c) \<longrightarrow> (\<forall>j\<in>set (cp_jobs t). job_ready False j)) \<and>
    (\<forall>t\<in>set (cp_children t). (\<exists>ch\<in>set (cr_children c). map_of ?by_id (ch_id ch) = Some (ct_child t)) \<and>
      (\<forall>nb\<in>set (pm_props (ct_props t)). bound_ready (ct_rows t \<noteq> None) (snd nb)))"
    if mem: "(cid, c) \<in> set (mf_components m)" for cid c
  proof (rule comp_tpl_ready [OF facts(2) [OF mem]])
    show "map_of ?by_id (ch_id ch) \<noteq> None" if "ch \<in> set (cr_children c)" for ch
      using known [OF facts(3) [OF mem that]] by (metis option.distinct(1))
    show "\<forall>ch\<in>set (cr_children c). \<forall>g. ch_when ch = Some g \<longrightarrow> (\<exists>h. guard_new g = Inr h)"
    proof (intro ballI allI impI)
      fix ch g assume "ch \<in> set (cr_children c)" "ch_when ch = Some g"
      then have "\<not> isl (guard_new g)" using assms(2) mem by (fastforce simp: guards_parse_def list_all_iff)
      then show "\<exists>h. guard_new g = Inr h" by (cases "guard_new g") auto
    qed
  qed
  then have "\<exists>comps. map_result (comp_tpl_new ex m ?by_id) (mf_components m) = Inr comps"
    unfolding map_result_ex by fastforce
  then obtain comps where comps: "map_result (comp_tpl_new ex m ?by_id) (mf_components m) = Inr comps" by blast
  have len: "length comps = length (mf_components m)" using map_result_length [OF comps] by simp
  obtain flag_jobs flag_stores where px: "plan_index_new ex m =
      Inr \<lparr>px_comps = map (\<lambda>c. c\<lparr>cp_deep_jobs := flag_jobs c, cp_deep_stores := flag_stores c\<rparr>) comps, px_by_id = ?by_id\<rparr>"
    by (rule that) (unfold plan_index_new_def Let_def comps bind_result_simps, rule refl)
  let ?out = "map (\<lambda>c. c\<lparr>cp_deep_jobs := flag_jobs c, cp_deep_stores := flag_stores c\<rparr>) comps"
  have ready: "comp_ready ?out (?out ! i)" if i: "i < length comps" for i
  proof -
    obtain cid c where ic: "mf_components m ! i = (cid, c)" by fastforce
    then have mem: "(cid, c) \<in> set (mf_components m)" using i len by (metis nth_mem)
    have "comp_tpl_new ex m ?by_id (cid, c) = Inr (comps ! i)" using map_result_nth [OF comps, of i] i len ic by simp
    with each [OF mem] have own: "\<forall>j\<in>set (cp_jobs (comps ! i)). job_ready (jt_per_instance j \<noteq> None) j"
      and below: "\<forall>t\<in>set (cp_children (comps ! i)). (\<exists>ch\<in>set (cr_children c). map_of ?by_id (ch_id ch) = Some (ct_child t)) \<and>
        (\<forall>nb\<in>set (pm_props (ct_props t)). bound_ready (ct_rows t \<noteq> None) (snd nb))" by simp_all
    have "\<forall>j\<in>set (cp_jobs (?out ! ct_child t)). job_ready False j" if t: "t \<in> set (cp_children (comps ! i))" for t
    proof -
      obtain ch where ch: "ch \<in> set (cr_children c)" "map_of ?by_id (ch_id ch) = Some (ct_child t)" using below t by blast
      then have k: "ct_child t < length comps" "fst (mf_components m ! ct_child t) = ch_id ch"
        using map_of_zip_upt [OF ch(2)] len by auto
      obtain cid' c' where ic': "mf_components m ! ct_child t = (cid', c')" by fastforce
      then have mem': "(ch_id ch, c') \<in> set (mf_components m)" using k len by (metis fst_conv nth_mem)
      then have "list_all row_free (cr_jobs c')"
        by (rule child_jobs_row_freeD [OF assms(3) mem ch(1)])
      moreover have "comp_tpl_new ex m ?by_id (ch_id ch, c') = Inr (comps ! ct_child t)"
        using map_result_nth [OF comps, of "ct_child t"] k len ic' by simp
      ultimately have "\<forall>j\<in>set (cp_jobs (comps ! ct_child t)). job_ready False j" using each [OF mem'] by auto
      then show ?thesis using k(1) by simp
    qed
    then show ?thesis using own below i by (auto simp: comp_ready_def child_ready_def)
  qed
  show ?thesis
    using px ready known facts(1) len by (fastforce simp: in_set_conv_nth)
qed

text \<open>
  C14: Planning of a loaded manifest does not fail at request time: when the boot checks passed, the branch conditions parse,
  no job of an inlined component names a row and template expressions evaluate, the index is built and the jobs of every
  route's chain are collected for every context.
\<close>

theorem loaded_manifest_plans:
  assumes "walk ex file m = Inr loaded" and "guards_parse m" and "child_jobs_row_free m"
    and "\<forall>e sc. \<exists>v. eval_expr ex e sc = Inr v" and "pe_exprs env = ex"
  shows "\<exists>px. plan_index_new ex m = Inr px \<and>
    (\<forall>r\<in>set (mf_routes m). \<forall>ctx. \<exists>plans. collect_jobs env px (rr_chain r) ctx = Inr plans)"
proof -
  obtain px where px: "plan_index_new ex m = Inr px" "\<forall>c\<in>set (px_comps px). comp_ready (px_comps px) c"
      "\<forall>r\<in>set (mf_routes m). \<forall>cid\<in>set (rr_chain r). \<exists>i < length (px_comps px). map_of (px_by_id px) cid = Some i"
    using index_ready [OF assms(1,2,3)] by blast
  have "\<exists>plans. collect_jobs env px (rr_chain r) ctx = Inr plans" if "r \<in> set (mf_routes m)" for r ctx
    by (rule collect_ready [OF px(2)]) (use px(3) that assms(4,5) in auto)
  then show ?thesis using px(1) by blast
qed


section \<open>A manifest\<close>

definition demo_ex :: "(nat, unit) expressions" where
  "demo_ex = \<lparr>compile_expr = \<lambda>_. Ok (), eval_expr = \<lambda>_ _. Ok None\<rparr>"

definition demo_env :: "(nat, nat, unit) plan_env" where
  "demo_env = \<lparr>pe_numbers = \<lparr>as_f64 = Some, f_zero = \<lambda>n. n = 0, f_nan = \<lambda>_. False, f_eq = (=)\<rparr>, pe_exprs = demo_ex,
     pe_to_json = \<lambda>_. ''{}'', pe_hash = \<lambda>s. s\<rparr>"

definition demo_job :: "string \<Rightarrow> string \<Rightarrow> job_record" where
  "demo_job name input = \<lparr>jr_id = name, jr_kind = Ssr, jr_inputs = [input], jr_per_instance = None,
     jr_cache = \<lparr>jc_key = Some input, jc_tags = [], jc_ttl_seconds = None\<rparr>, jr_outputs = [''out''], jr_target = None, jr_props = None\<rparr>"

definition demo_child :: "nat child_record" where
  "demo_child = \<lparr>ch_id = ''d'', ch_instances = StaticInstance, ch_props = [(''y'', ''x'')], ch_literals = [], ch_exprs = [],
     ch_rows = None, ch_when = None\<rparr>"

definition demo_component :: "job_record \<Rightarrow> nat child_record list \<Rightarrow> nat component_record" where
  "demo_component j children = \<lparr>cr_tier = ReactTier, cr_template = ''t'', cr_jobs = [j], cr_children = children, cr_client = None,
     cr_needs_worker = True, cr_use_id_slots = 0, cr_stores = [], cr_features = []\<rparr>"

definition demo_manifest :: "nat child_record \<Rightarrow> job_record \<Rightarrow> nat manifest" where
  "demo_manifest ch child_job =
     \<lparr>mf_version = 3,
      mf_routes = [\<lparr>rr_id = ''r'', rr_pattern = ''/'', rr_chain = [''c''], rr_loaders = [], rr_cache = None, rr_catch_all = False,
        rr_css = []\<rparr>],
      mf_components = [(''c'', demo_component (demo_job ''j'' ''x'') [ch]), (''d'', demo_component child_job [])],
      mf_assets = \<lparr>as_runtime = ''r.js'', as_react = None, as_features = [], as_nav = None, as_build = None\<rparr>,
      mf_jobs_module = ''jobs.js'', mf_actions_only = False, mf_base_path = '''', mf_trailing_slash = Strict\<rparr>"

definition demo_file :: file_fn where
  "demo_file cid rel used = Ok None"

lemma demo_parse: "path_parse ''x'' = Inr [Key ''x'']" "path_parse ''y'' = Inr [Key ''y'']"
  by code_simp+

lemma demo_ident: "is_ident ''out''"
  by code_simp

lemma demo_walk: "walk demo_ex demo_file (demo_manifest demo_child (demo_job ''k'' ''y'')) =
    Inr (demo_manifest demo_child (demo_job ''k'' ''y''), [])"
  by (simp add: walk_def try_each_def walk_route_def walk_component_def walk_assets_def check_paths_def check_job_def check_child_def
      child_binds_def check_path_def demo_manifest_def demo_component_def demo_job_def demo_child_def demo_file_def demo_parse
      has_idx_def ALL_PROPS_def MANIFEST_VERSION_def demo_ident input_root_def Let_def)


theorem loaded_manifest_plans_witness:
  "\<exists>px. plan_index_new demo_ex (demo_manifest demo_child (demo_job ''k'' ''y'')) = Inr px \<and>
    (\<exists>plans. collect_jobs demo_env px [''c''] (node_map []) = Inr plans)"
proof -
  let ?m = "demo_manifest demo_child (demo_job ''k'' ''y'')"
  have "guards_parse ?m" "child_jobs_row_free ?m"
    by (simp_all add: guards_parse_def child_jobs_row_free_def demo_manifest_def demo_component_def demo_child_def demo_job_def row_free_def)
  moreover have "\<forall>e sc. \<exists>v. eval_expr demo_ex e sc = Inr v" "pe_exprs demo_env = demo_ex"
    by (simp_all add: demo_ex_def demo_env_def)
  ultimately obtain px where px: "plan_index_new demo_ex ?m = Inr px"
      "\<forall>r\<in>set (mf_routes ?m). \<forall>ctx. \<exists>plans. collect_jobs demo_env px (rr_chain r) ctx = Inr plans"
    using loaded_manifest_plans [OF demo_walk] by blast
  then have "\<exists>plans. collect_jobs demo_env px [''c''] (node_map []) = Inr plans" by (simp add: demo_manifest_def)
  then show ?thesis using px(1) by blast
qed

text \<open>The index of the example, with the jobs of both components.\<close>

definition demo_index :: "(nat, unit) plan_index" where
  "demo_index =
     (case plan_index_new demo_ex (demo_manifest demo_child (demo_job ''k'' ''y'')) of
        Inr px \<Rightarrow> px | Inl _ \<Rightarrow> \<lparr>px_comps = [], px_by_id = []\<rparr>)"

definition demo_plans :: "nat job_plan list" where
  "demo_plans = (case collect_jobs demo_env demo_index [''c''] (node_map [(''x'', NStr ''1'')]) of Inr ps \<Rightarrow> ps | Inl _ \<Rightarrow> [])"

lemma demo_plans_two: "map pl_call_prefix demo_plans = [''c/j'', ''c/d_1/k'']"
  by code_simp

text \<open>
  The two gaps: a condition that does not parse passes the boot checks and the index fails; a job of an inlined component
  that names a row passes both and planning fails on every request.
\<close>

lemma unparsed_condition_loads:
  "\<exists>loaded. walk demo_ex demo_file (demo_manifest (demo_child\<lparr>ch_when := Some (RTruthy ''a..b'')\<rparr>) (demo_job ''k'' ''y'')) = Inr loaded"
  "isl (plan_index_new demo_ex (demo_manifest (demo_child\<lparr>ch_when := Some (RTruthy ''a..b'')\<rparr>) (demo_job ''k'' ''y'')))"
proof -
  show "\<exists>loaded. walk demo_ex demo_file (demo_manifest (demo_child\<lparr>ch_when := Some (RTruthy ''a..b'')\<rparr>) (demo_job ''k'' ''y'')) = Inr loaded"
    by (simp add: walk_def try_each_def walk_route_def walk_component_def walk_assets_def check_paths_def check_job_def check_child_def
      child_binds_def check_path_def demo_manifest_def demo_component_def demo_job_def demo_child_def demo_file_def demo_parse
      has_idx_def ALL_PROPS_def MANIFEST_VERSION_def demo_ident input_root_def Let_def)
  show "isl (plan_index_new demo_ex (demo_manifest (demo_child\<lparr>ch_when := Some (RTruthy ''a..b'')\<rparr>) (demo_job ''k'' ''y'')))"
    by code_simp
qed


definition demo_row_job :: job_record where
  "demo_row_job = (demo_job ''k'' ''y'')\<lparr>jr_per_instance := Some ''y'', jr_props := Some [(''z'', ''y[idx]'')]\<rparr>"

lemma demo_parse_row: "path_parse ''y[idx]'' = Inr [Key ''y'', Idx]"
  by code_simp

lemma row_job_below_loads:
  "\<exists>loaded. walk demo_ex demo_file (demo_manifest demo_child demo_row_job) = Inr loaded"
  by (simp add: walk_def try_each_def walk_route_def walk_component_def walk_assets_def check_paths_def check_job_def check_child_def
      child_binds_def check_path_def demo_manifest_def demo_component_def demo_job_def demo_row_job_def demo_child_def demo_file_def
      demo_parse demo_parse_row has_idx_def ALL_PROPS_def MANIFEST_VERSION_def demo_ident input_root_def Let_def)

lemma row_job_below_fails:
  "(case plan_index_new demo_ex (demo_manifest demo_child demo_row_job) of
      Inr px \<Rightarrow> collect_jobs demo_env px [''c''] (node_map [(''x'', NArr [NStr ''1''])]) = Inl (InputsError (ChildIdx ''z'' ''y[idx]''))
    | Inl _ \<Rightarrow> False)"
  by code_simp


section \<open>Job keys\<close>

text \<open>A hex digest does not look like a user key.\<close>

lemma slash_split:
  assumes "CHR ''/'' \<notin> set a" "CHR ''/'' \<notin> set b" "a @ ''/'' @ r = b @ ''/'' @ s"
  shows "a = b \<and> r = s"
  using assms
proof (induction a arbitrary: b)
  case Nil
  then show ?case by (cases b) auto
next
  case (Cons x a)
  then show ?case by (cases b) auto
qed


instance jval :: (countable) countable
  by countable_datatype

definition demo_key_env :: "(nat, nat, unit) plan_env" where
  "demo_key_env = demo_env\<lparr>pe_to_json := \<lambda>v. replicate (to_nat v) CHR ''x'', pe_hash := \<lambda>s. CHR ''0'' # s\<rparr>"

definition demo_keyed :: "(nat, unit) job_tpl" where
  "demo_keyed = \<lparr>jt_id = ''j'', jt_kind = Ssr, jt_inputs = AllInputs, jt_has_props = False, jt_per_instance = None,
     jt_cache_key = Some [Key ''x''], jt_ttl = None, jt_tags = [], jt_outputs = [], jt_target = None\<rparr>"


end
