(* ===== verification/Jobs.thy ===== *)
theory Jobs
  imports Plan CoreState
begin

text \<open>
  The jobs of a request after planning (\<^verbatim>\<open>crates/brust-core/src/pipeline.rs\<close>): the job-cache lookups, the
  batched request for the misses, the check and the storage of the results, the fan-out to every plan that shares a
  key, the slots of inlined children and the merge of the values into the context.
\<close>

section \<open>Lookups\<close>

record 'n job_lookup =
  lk_values :: "'n node option list"
  lk_owner :: "nat list"
  lk_misses :: "nat list"

fun lookup_values :: "nat \<Rightarrow> string list \<Rightarrow> 'n node local_jobs \<Rightarrow> 'n node option list \<times> 'n node local_jobs" where
  "lookup_values now [] cache = ([], cache)"
| "lookup_values now (k # ks) cache =
     (let (v, cache) = jobs_get k now cache; (vs, cache) = lookup_values now ks cache in (v # vs, cache))"

fun assign_owners :: "(string \<times> nat) list \<Rightarrow> (nat \<times> string) list \<Rightarrow> nat list \<Rightarrow> nat list \<Rightarrow> nat list \<times> nat list" where
  "assign_owners seen [] owner misses = (owner, misses)"
| "assign_owners seen ((i, k) # rest) owner misses =
     (case map_of seen k of
        Some own \<Rightarrow> assign_owners seen rest (owner[i := own]) misses
      | None \<Rightarrow> assign_owners ((k, i) # seen) rest owner (misses @ [i]))"

definition lookup_jobs ::
  "nat \<Rightarrow> 'n job_plan list \<Rightarrow> 'n node local_jobs \<Rightarrow> 'n job_lookup \<times> 'n node local_jobs" where
  "lookup_jobs now plans cache =
     (let (values, cache) = lookup_values now (map pl_key plans) cache;
          missing = map (\<lambda>i. (i, pl_key (plans ! i))) (filter (\<lambda>i. values ! i = None) [0..<length plans]);
          (owner, misses) = assign_owners [] missing [0..<length plans] []
      in (\<lparr>lk_values = values, lk_owner = owner, lk_misses = misses\<rparr>, cache))"

record 'n job_call =
  jc_id :: string
  jc_component_id :: string
  jc_kind :: job_kind
  jc_inputs :: "'n node"
  jc_target :: "string option"
  jc_row :: "nat option"

definition jobs_request :: "'n job_plan list \<Rightarrow> nat list \<Rightarrow> 'n job_call list" where
  "jobs_request plans misses =
     map (\<lambda>i. let p = plans ! i
              in \<lparr>jc_id = call_id p, jc_component_id = pl_component_id p, jc_kind = pl_kind p, jc_inputs = pl_inputs p,
                  jc_target = pl_target p, jc_row = instance_row p\<rparr>) misses"

section \<open>Results\<close>

record 'n job_result =
  js_id :: string
  js_value :: "'n node option"
  js_error :: "string option"

datatype job_result_error =
    Threw string "nat option" string
  | NoValue string "nat option"
  | MissingResult nat

fun take_results ::
  "(string \<Rightarrow> nat option) \<Rightarrow> 'n job_result list \<Rightarrow> 'n node option list \<Rightarrow> job_result_error + 'n node option list" where
  "take_results pos [] out = Ok out"
| "take_results pos (res # rest) out =
     (let k = pos (js_id res)
      in case js_error res of
           Some error \<Rightarrow> Err (Threw (js_id res) k error)
         | None \<Rightarrow>
             (case js_value res of
                None \<Rightarrow> Err (NoValue (js_id res) k)
              | Some v \<Rightarrow> take_results pos rest (case k of Some k \<Rightarrow> out[k := Some v] | None \<Rightarrow> out)))"

definition results_in_request_order ::
  "string list \<Rightarrow> 'n job_result list \<Rightarrow> job_result_error + 'n node list" where
  "results_in_request_order ids results =
     bind_result (take_results (map_of (rev (zip ids [0..<length ids]))) results (replicate (length ids) None)) (\<lambda>out.
       map_result (\<lambda>(k, v). case v of Some v \<Rightarrow> Ok v | None \<Rightarrow> Err (MissingResult k)) (enumerate 0 out))"

definition check_value :: "'n job_plan \<Rightarrow> 'n node \<Rightarrow> bool" where
  "check_value p v \<longleftrightarrow>
     pl_outputs p = [] \<or>
     (case pl_kind p of Precompute \<Rightarrow> as_map v \<noteq> None | Ssr \<Rightarrow> is_str v)"

definition note_missing_slots :: "'n job_plan \<Rightarrow> 'n node \<Rightarrow> (string \<times> string) set \<Rightarrow> (string \<times> string) set" where
  "note_missing_slots p v slots =
     (if pl_kind p \<noteq> Precompute then slots
      else case as_map v of
        None \<Rightarrow> slots
      | Some m \<Rightarrow> slots \<union> Pair (pl_component_id p) ` set (filter (\<lambda>n. map_of m n = None) (pl_outputs p)))"

text \<open>The check loop stops at the first misfit; slots noted before it stay noted.\<close>

fun check_results ::
  "('n job_plan \<times> 'n node) list \<Rightarrow> 'n node core \<Rightarrow> bool \<times> 'n node core" where
  "check_results [] s = (True, s)"
| "check_results ((p, v) # rest) s =
     (if \<not> check_value p v then (False, s)
      else check_results rest (s\<lparr>co_missing_slots := note_missing_slots p v (co_missing_slots s)\<rparr>))"

fun store_results ::
  "nat \<Rightarrow> nat \<Rightarrow> 'n job_plan list \<Rightarrow> ('n node \<times> nat) list \<Rightarrow> bool \<Rightarrow> 'n node option list \<Rightarrow> 'n node local_jobs \<Rightarrow>
   bool \<times> 'n node option list \<times> 'n node local_jobs" where
  "store_results since now plans [] rejected values cache = (rejected, values, cache)"
| "store_results since now plans ((v, i) # rest) rejected values cache =
     (let p = plans ! i;
          (landed, cache) = jobs_insert (pl_key p) v (map_option (\<lambda>t. t * 1000000000) (pl_ttl p)) (pl_tags p) (pl_user_key p) since now cache
      in store_results since now plans rest (rejected \<or> \<not> landed) (values[i := Some v]) cache)"

text \<open>The fan-out: \<^verbatim>\<open>for i in 0..plans.len()\<close> reads the values as updated so far.\<close>

fun fan_out :: "nat list \<Rightarrow> nat list \<Rightarrow> 'v option list \<Rightarrow> 'v option list" where
  "fan_out owner [] values = values"
| "fan_out owner (i # rest) values =
     fan_out owner rest (if values ! i = None then values[i := values ! (owner ! i)] else values)"

text \<open>
  \<open>None\<close> is the 500 the page answers; else whether an insert was rejected, and the values.
\<close>

definition apply_job_results ::
  "nat \<Rightarrow> nat \<Rightarrow> 'n job_plan list \<Rightarrow> 'n job_lookup \<Rightarrow> string list \<Rightarrow> 'n job_result list \<Rightarrow> 'n node core \<Rightarrow>
   (bool \<times> 'n job_lookup) option \<times> 'n node core" where
  "apply_job_results since now plans lk ids results s =
     (case results_in_request_order ids results of
        Inl _ \<Rightarrow> (None, s)
      | Inr fresh \<Rightarrow>
          let (fits, s) = check_results (zip (map (\<lambda>i. plans ! i) (lk_misses lk)) fresh) s
          in if \<not> fits then (None, s)
             else
               let (rejected, values, cache) =
                     store_results since now plans (zip fresh (lk_misses lk)) False (lk_values lk) (co_jobs s)
               in (Some (rejected, lk\<lparr>lk_values := fan_out (lk_owner lk) [0..<length plans] values\<rparr>),
                   s\<lparr>co_jobs := cache\<rparr>))"

section \<open>Slots and merge\<close>

text \<open>\<^verbatim>\<open>use_ids\<close>: the context keys and values of an instance.\<close>

definition use_ids :: "string \<Rightarrow> string \<Rightarrow> nat \<Rightarrow> (string \<times> string) list" where
  "use_ids route_id instance_id slots =
     map (\<lambda>n. (''_id'' @ decimal (n - 1), ''brust-'' @ route_id @ ''-'' @ instance_id @ ''-'' @ decimal n)) [1..<slots + 1]"

text \<open>A write through \<^verbatim>\<open>entry_or\<close>: the entry is created when absent, then \<open>f\<close> is applied to it.\<close>

definition with_entry :: "string \<Rightarrow> 'n node \<Rightarrow> ('n node \<Rightarrow> 'n node) \<Rightarrow> 'n map_inner \<Rightarrow> 'n map_inner" where
  "with_entry key fresh f m = bm_insert key (f (case map_of m key of Some n \<Rightarrow> n | None \<Rightarrow> fresh)) m"

definition as_object :: "'n node \<Rightarrow> 'n node" where
  "as_object n = (if is_map n then n else node_map [])"

definition component_map :: "string \<Rightarrow> string \<Rightarrow> ('n map_inner \<Rightarrow> 'n map_inner) \<Rightarrow> 'n map_inner \<Rightarrow> 'n map_inner" where
  "component_map root cid f ctx =
     with_entry root (node_map [])
       (\<lambda>all. map_mut (with_entry cid (node_map []) (\<lambda>own. map_mut f (as_object own))) (as_object all)) ctx"

definition parent_slots :: "string \<Rightarrow> ('n map_inner \<Rightarrow> 'n map_inner) \<Rightarrow> 'n map_inner \<Rightarrow> 'n map_inner" where
  "parent_slots parent f ctx = component_map CHILDREN_KEY parent f ctx"

definition pad :: "'a \<Rightarrow> nat \<Rightarrow> 'a list \<Rightarrow> 'a list" where
  "pad x n a = a @ replicate (n - length a) x"

definition child_cell ::
  "string \<Rightarrow> string \<Rightarrow> nat option \<Rightarrow> ('n map_inner \<Rightarrow> 'n map_inner) \<Rightarrow> 'n map_inner \<Rightarrow> 'n map_inner" where
  "child_cell parent slot row f ctx =
     parent_slots parent (with_entry slot (if row = None then node_map [] else NArr [])
       (\<lambda>s. case row of
              None \<Rightarrow> map_mut f s
            | Some r \<Rightarrow>
                (case s of
                   NArr a \<Rightarrow> let a = pad (node_map []) (r + 1) a in NArr (a[r := map_mut f (a ! r)])
                 | _ \<Rightarrow> s))) ctx"

definition use_id_cell :: "string \<Rightarrow> string \<Rightarrow> nat \<Rightarrow> 'n node" where
  "use_id_cell route_id instance_id slots =
     node_map (fold (\<lambda>(k, v) m. bm_insert k (NStr v) m) (use_ids route_id instance_id slots) [])"

definition child_seed ::
  "('n, 'x) plan_index \<Rightarrow> string \<Rightarrow> 'n node \<Rightarrow> ('n, 'x) child_tpl \<Rightarrow> 'n node" where
  "child_seed px route_id ctx ch =
     (let slots = cp_use_id_slots (px_comps px ! ct_child ch)
      in case ct_rows ch of
           None \<Rightarrow> use_id_cell route_id (ct_use_id_instance ch) slots
         | Some list \<Rightarrow>
             NArr (map (\<lambda>r. use_id_cell route_id (ct_use_id_instance ch @ ''-'' @ decimal r) slots)
               [0..<rows_count list ctx]))"

definition child_seeds ::
  "('n, 'x) plan_index \<Rightarrow> string \<Rightarrow> string list \<Rightarrow> 'n node \<Rightarrow> plan_error + (string \<times> string \<times> 'n node) list" where
  "child_seeds px route_id chain ctx =
     bind_result (map_result (\<lambda>cid. bind_result (comp_ix px cid) (\<lambda>ci.
         let c = px_comps px ! ci
         in Ok (map (\<lambda>ch. (cp_id c, ct_slot ch, child_seed px route_id ctx ch)) (cp_children c)))) chain)
       (\<lambda>seeds. Ok (concat seeds))"

definition seed_child_slots ::
  "('n, 'x) plan_index \<Rightarrow> string \<Rightarrow> string list \<Rightarrow> 'n node \<Rightarrow> plan_error + 'n node" where
  "seed_child_slots px route_id chain ctx =
     bind_result (child_seeds px route_id chain ctx) (\<lambda>seeds.
       Ok (map_mut (fold (\<lambda>(parent, key, cell). parent_slots parent (bm_insert key cell)) seeds) ctx))"

definition set_row :: "string \<Rightarrow> nat \<Rightarrow> 'n node \<Rightarrow> 'n map_inner \<Rightarrow> 'n map_inner" where
  "set_row name r v obj =
     with_entry name (NArr []) (\<lambda>slot.
       let a = pad NNull (r + 1) (case slot of NArr a \<Rightarrow> a | _ \<Rightarrow> []) in NArr (a[r := v])) obj"

definition merge_output :: "'n job_plan \<Rightarrow> 'n node \<Rightarrow> nat \<times> string \<Rightarrow> 'n map_inner \<Rightarrow> 'n map_inner" where
  "merge_output p value oi obj =
     (let (i, name) = oi;
          v = (case pl_kind p of
                 Precompute \<Rightarrow> Some (case node_get value name of Some v \<Rightarrow> v | None \<Rightarrow> NNull)
               | Ssr \<Rightarrow> if i = 0 then Some value else None)
      in case v of
           None \<Rightarrow> obj
         | Some v \<Rightarrow> (case instance_row p of None \<Rightarrow> bm_insert name v obj | Some r \<Rightarrow> set_row name r v obj))"

definition spread :: "'n node \<Rightarrow> 'n map_inner \<Rightarrow> 'n map_inner" where
  "spread value obj = (case as_map value of Some m \<Rightarrow> fold (\<lambda>(k, v). bm_insert k v) m obj | None \<Rightarrow> obj)"

definition merge_legacy :: "'n job_plan \<Rightarrow> 'n node \<Rightarrow> 'n map_inner \<Rightarrow> 'n map_inner" where
  "merge_legacy p value ctx =
     (case pl_dest p of
        Chain component _ \<Rightarrow>
          component_map OWN_KEY component
            (case pl_kind p of Precompute \<Rightarrow> spread value | Ssr \<Rightarrow> bm_insert (''_ssr_'' @ component) value) ctx
      | Child parent component slot row \<Rightarrow>
          let ctx = (if pl_kind p = Ssr \<and> row = None
                     then parent_slots parent (bm_insert (''_ssr_'' @ component) value) ctx else ctx)
          in child_cell parent slot row
               (case pl_kind p of Precompute \<Rightarrow> spread value | Ssr \<Rightarrow> bm_insert (''_ssr_'' @ component) value) ctx)"

definition merge_result :: "'n job_plan \<Rightarrow> 'n node \<Rightarrow> 'n map_inner \<Rightarrow> 'n map_inner" where
  "merge_result p value ctx =
     (if pl_outputs p = [] then merge_legacy p value ctx
      else
        let write = fold (merge_output p value) (enumerate 0 (pl_outputs p))
        in case pl_dest p of
             Chain component _ \<Rightarrow> component_map OWN_KEY component write ctx
           | Child parent _ slot row \<Rightarrow> child_cell parent slot row write ctx)"

definition merge_values :: "'n job_plan list \<Rightarrow> 'n node option list \<Rightarrow> 'n node \<Rightarrow> 'n node" where
  "merge_values plans values ctx =
     map_mut (\<lambda>m. fold (\<lambda>(p, v) m. case v of Some v \<Rightarrow> merge_result p v m | None \<Rightarrow> m) (zip plans values) m) ctx"

section \<open>Which value a plan gets\<close>

lemma lookup_values_length: "lookup_values now ks c = (vs, c') \<Longrightarrow> length vs = length ks"
  by (induction ks arbitrary: c vs) (auto simp: Let_def split: prod.splits)

text \<open>
  The owners: every missing plan is owned by a miss with its key, the others by themselves; no two misses
  share a key.
\<close>

definition owners_ok :: "(nat \<Rightarrow> string) \<Rightarrow> (string \<times> nat) list \<Rightarrow> nat list \<Rightarrow> bool" where
  "owners_ok key seen misses \<longleftrightarrow>
     distinct (map key misses) \<and> fst ` set seen = key ` set misses \<and>
     (\<forall>(k, i)\<in>set seen. i \<in> set misses \<and> key i = k)"

lemma assign_owners_spec:
  assumes "assign_owners seen rest owner misses = (ow, ms)"
    and "owners_ok key seen misses" and "\<And>i k. (i, k) \<in> set rest \<Longrightarrow> key i = k"
    and "distinct (map fst rest)" and "\<And>i. i \<in> fst ` set rest \<Longrightarrow> i < length owner \<and> owner ! i = i"
  shows "length ow = length owner \<and> (\<forall>j. j \<notin> fst ` set rest \<longrightarrow> ow ! j = owner ! j) \<and>
    (\<forall>i \<in> fst ` set rest. ow ! i \<in> set ms \<and> key (ow ! i) = key i) \<and>
    distinct (map key ms) \<and> set misses \<subseteq> set ms \<and> set ms \<subseteq> set misses \<union> fst ` set rest"
  using assms
proof (induction seen rest owner misses rule: assign_owners.induct)
  case (1 seen owner misses)
  then show ?case by (auto simp: owners_ok_def)
next
  case (2 seen i k rest owner misses)
  have k: "key i = k" using "2.prems"(3) [of i k] by simp
  have i: "i < length owner" "owner ! i = i" "i \<notin> fst ` set rest"
    using "2.prems"(4,5) by auto
  show ?case
  proof (cases "map_of seen k")
    case None
    then have new: "k \<notin> key ` set misses"
      using "2.prems"(2) by (metis map_of_eq_None_iff owners_ok_def)
    have "owners_ok key ((k, i) # seen) (misses @ [i])"
      using "2.prems"(2) new k by (auto simp: owners_ok_def)
    moreover have "assign_owners ((k, i) # seen) rest owner (misses @ [i]) = (ow, ms)"
      using "2.prems"(1) None by simp
    ultimately have IH: "length ow = length owner \<and> (\<forall>j. j \<notin> fst ` set rest \<longrightarrow> ow ! j = owner ! j) \<and>
        (\<forall>i \<in> fst ` set rest. ow ! i \<in> set ms \<and> key (ow ! i) = key i) \<and>
        distinct (map key ms) \<and> set (misses @ [i]) \<subseteq> set ms \<and> set ms \<subseteq> set (misses @ [i]) \<union> fst ` set rest"
      using "2.prems"(3-5) None by (intro "2.IH"(1)) auto
    then show ?thesis using i k by auto
  next
    case (Some own)
    then have own: "own \<in> set misses" "key own = k"
      using "2.prems"(2) by (auto simp: owners_ok_def dest!: map_of_SomeD)
    have "assign_owners seen rest (owner[i := own]) misses = (ow, ms)"
      using "2.prems"(1) Some by simp
    then have IH: "length ow = length (owner[i := own]) \<and> (\<forall>j. j \<notin> fst ` set rest \<longrightarrow> ow ! j = owner[i := own] ! j) \<and>
        (\<forall>i \<in> fst ` set rest. ow ! i \<in> set ms \<and> key (ow ! i) = key i) \<and>
        distinct (map key ms) \<and> set misses \<subseteq> set ms \<and> set ms \<subseteq> set misses \<union> fst ` set rest"
      using "2.prems"(2-5) Some i by (intro "2.IH"(2)) (auto simp: nth_list_update)
    then show ?thesis using i k own by auto
  qed
qed

lemma lookup_jobs_spec:
  assumes "lookup_jobs now plans cache = (lk, cache')"
  defines "key \<equiv> \<lambda>i. pl_key (plans ! i)"
  shows "length (lk_values lk) = length plans" and "length (lk_owner lk) = length plans"
    and "distinct (map key (lk_misses lk))"
    and "set (lk_misses lk) \<subseteq> {i. i < length plans \<and> lk_values lk ! i = None}"
    and "\<And>i. i < length plans \<Longrightarrow> lk_values lk ! i = None \<Longrightarrow>
           lk_owner lk ! i \<in> set (lk_misses lk) \<and> key (lk_owner lk ! i) = key i"
proof -
  obtain vs where vs: "lookup_values now (map pl_key plans) cache = (vs, cache')"
    using assms(1) by (auto simp: lookup_jobs_def Let_def split: prod.splits)
  let ?missing = "map (\<lambda>i. (i, pl_key (plans ! i))) (filter (\<lambda>i. vs ! i = None) [0..<length plans])"
  obtain ow ms where ow: "assign_owners [] ?missing [0..<length plans] [] = (ow, ms)" by fastforce
  have lk: "lk_values lk = vs" "lk_owner lk = ow" "lk_misses lk = ms"
    using assms(1) vs ow by (auto simp: lookup_jobs_def)
  have "length ow = length [0..<length plans] \<and> (\<forall>j. j \<notin> fst ` set ?missing \<longrightarrow> ow ! j = [0..<length plans] ! j) \<and>
      (\<forall>i \<in> fst ` set ?missing. ow ! i \<in> set ms \<and> key (ow ! i) = key i) \<and>
      distinct (map key ms) \<and> set [] \<subseteq> set ms \<and> set ms \<subseteq> set [] \<union> fst ` set ?missing"
    by (rule assign_owners_spec [OF ow]) (auto simp: owners_ok_def key_def o_def)
  then show "length (lk_values lk) = length plans" and "length (lk_owner lk) = length plans"
    and "distinct (map key (lk_misses lk))"
    and "set (lk_misses lk) \<subseteq> {i. i < length plans \<and> lk_values lk ! i = None}"
    and "\<And>i. i < length plans \<Longrightarrow> lk_values lk ! i = None \<Longrightarrow>
           lk_owner lk ! i \<in> set (lk_misses lk) \<and> key (lk_owner lk ! i) = key i"
    using lookup_values_length [OF vs] by (auto simp: lk image_iff)
qed

lemma take_results_Cons:
  "take_results pos (res # rest) out = Inr out' \<longleftrightarrow>
     js_error res = None \<and> (\<exists>v. js_value res = Some v \<and>
       take_results pos rest (case pos (js_id res) of Some k \<Rightarrow> out[k := Some v] | None \<Rightarrow> out) = Inr out')"
  by (cases "js_error res"; cases "js_value res") (simp_all add: Let_def)

declare take_results.simps(2) [simp del]
declare take_results_Cons [simp]

lemma take_results_clean:
  "take_results pos results out = Inr out' \<Longrightarrow> \<forall>res\<in>set results. js_error res = None \<and> js_value res \<noteq> None"
  by (induction results arbitrary: out) auto

lemma take_results_length: "take_results pos results out = Inr out' \<Longrightarrow> length out' = length out"
proof (induction results arbitrary: out)
  case (Cons res rest)
  then obtain v where "take_results pos rest (case pos (js_id res) of Some k \<Rightarrow> out[k := Some v] | None \<Rightarrow> out) = Inr out'"
    by auto
  from Cons.IH [OF this] show ?case by (simp split: option.splits)
qed simp

lemma take_results_sound:
  "take_results pos results out = Inr out' \<Longrightarrow> k < length out \<Longrightarrow> out' ! k = Some v \<Longrightarrow>
   out ! k = Some v \<or> (\<exists>res\<in>set results. pos (js_id res) = Some k \<and> js_value res = Some v)"
proof (induction results arbitrary: out)
  case (Cons res rest)
  then obtain w where w: "js_value res = Some w"
      "take_results pos rest (case pos (js_id res) of Some k \<Rightarrow> out[k := Some w] | None \<Rightarrow> out) = Inr out'"
    by auto
  show ?case
  proof (cases "pos (js_id res) = Some k")
    case True
    then show ?thesis using Cons.IH [OF w(2)] Cons.prems(2,3) w(1) by auto
  next
    case False
    then have "(case pos (js_id res) of Some k \<Rightarrow> out[k := Some w] | None \<Rightarrow> out) ! k = out ! k"
      by (auto split: option.splits)
    then show ?thesis using Cons.IH [OF w(2)] Cons.prems(2,3) by (auto split: option.splits)
  qed
qed simp

lemma results_in_order:
  assumes "results_in_request_order ids results = Inr fresh"
  shows "length fresh = length ids" and "\<forall>res\<in>set results. js_error res = None \<and> js_value res \<noteq> None"
    and "\<And>k. k < length ids \<Longrightarrow> \<exists>res\<in>set results. js_id res = ids ! k \<and> js_value res = Some (fresh ! k)"
proof -
  let ?pos = "map_of (rev (zip ids [0..<length ids]))"
  obtain out where out: "take_results ?pos results (replicate (length ids) None) = Inr out"
    and fresh: "map_result (\<lambda>(k, v). case v of Some v \<Rightarrow> Ok v | None \<Rightarrow> Err (MissingResult k)) (enumerate 0 out) = Inr fresh"
    using assms by (auto simp: results_in_request_order_def bind_result_Inr_iff)
  have len: "length out = length ids" using take_results_length [OF out] by simp
  show "length fresh = length ids" using map_result_length [OF fresh] len by simp
  show "\<forall>res\<in>set results. js_error res = None \<and> js_value res \<noteq> None" using out by (rule take_results_clean)
  fix k assume k: "k < length ids"
  then have "out ! k = Some (fresh ! k)"
    using map_result_nth [OF fresh, of k] len by (simp add: nth_enumerate_eq split: option.splits)
  then obtain res where "res \<in> set results" "?pos (js_id res) = Some k" "js_value res = Some (fresh ! k)"
    using take_results_sound [OF out, of k "fresh ! k"] k by auto
  moreover have "js_id res = ids ! k"
    using map_of_SomeD [OF calculation(2)] by (auto simp: set_zip)
  ultimately show "\<exists>res\<in>set results. js_id res = ids ! k \<and> js_value res = Some (fresh ! k)" by blast
qed

lemma check_results_fit: "check_results pvs s = (True, s') \<Longrightarrow> (p, v) \<in> set pvs \<Longrightarrow> check_value p v"
  by (induction pvs s rule: check_results.induct) (auto split: if_splits)

lemma check_results_frame: "co_jobs (snd (check_results pvs s)) = co_jobs s"
  by (induction pvs s rule: check_results.induct) auto

lemma store_results_values:
  assumes "store_results since now plans vis rejected vals cache = (r, vals', cache')"
    and "distinct (map snd vis)" and "\<And>i. i \<in> snd ` set vis \<Longrightarrow> i < length vals"
  shows "length vals' = length vals \<and> (\<forall>i. i \<notin> snd ` set vis \<longrightarrow> vals' ! i = vals ! i) \<and>
    (\<forall>(v, i)\<in>set vis. vals' ! i = Some v)"
  using assms
proof (induction vis arbitrary: rejected vals cache)
  case (Cons vi vis)
  obtain v i where vi: "vi = (v, i)" by fastforce
  obtain b c where "store_results since now plans vis b (vals[i := Some v]) c = (r, vals', cache')"
    using Cons.prems(1) vi by (auto simp: Let_def split: prod.splits)
  from Cons.IH [OF this] show ?case using Cons.prems(2,3) vi by (force simp: nth_list_update)
qed simp

lemma fan_out_values:
  assumes "distinct js" and "\<And>i. i \<in> set js \<Longrightarrow> i < length vs" and "\<And>i. i \<in> set js \<Longrightarrow> vs ! i = None \<Longrightarrow> vs ! (owner ! i) \<noteq> None"
  shows "length (fan_out owner js vs) = length vs \<and>
    (\<forall>i. fan_out owner js vs ! i = (if i \<in> set js \<and> vs ! i = None then vs ! (owner ! i) else vs ! i))"
  using assms
proof (induction owner js vs rule: fan_out.induct)
  case (2 owner i rest vs)
  let ?vs = "if vs ! i = None then vs[i := vs ! (owner ! i)] else vs"
  have keep: "?vs ! j = vs ! j" if "j \<noteq> i \<or> vs ! j \<noteq> None" for j using that by auto
  have "length (fan_out owner rest ?vs) = length ?vs \<and>
    (\<forall>j. fan_out owner rest ?vs ! j = (if j \<in> set rest \<and> ?vs ! j = None then ?vs ! (owner ! j) else ?vs ! j))"
  proof (rule "2.IH")
    fix j assume j: "j \<in> set rest" "?vs ! j = None"
    then have "j \<noteq> i" using "2.prems"(1) by auto
    then have "vs ! j = None" using j(2) keep [of j] by simp
    then have "vs ! (owner ! j) \<noteq> None" using "2.prems"(3) [of j] j by simp
    then show "?vs ! (owner ! j) \<noteq> None" using keep [of "owner ! j"] by simp
  qed (use "2.prems"(1,2) in auto)
  moreover have own: "?vs ! (owner ! j) = vs ! (owner ! j)" if "j \<in> set (i # rest)" "vs ! j = None" for j
    using "2.prems"(3) [of j] that keep [of "owner ! j"] by simp
  moreover have i: "i < length vs" "i \<notin> set rest" using "2.prems"(1,2) by auto
  moreover have "?vs ! i = (if vs ! i = None then vs ! (owner ! i) else vs ! i)" using i(1) by simp
  ultimately have "fan_out owner rest ?vs ! j = (if j \<in> set (i # rest) \<and> vs ! j = None then vs ! (owner ! j) else vs ! j)" for j
    using keep [of j] by (cases "j = i") (auto simp del: nth_list_update)
  moreover have "length (fan_out owner rest ?vs) = length vs"
    using \<open>length (fan_out owner rest ?vs) = length ?vs \<and> _\<close> by simp
  ultimately show ?case by simp
qed simp

text \<open>
  C16: After a successful batch every plan has a value. A plan the cache had keeps the cached one; any other gets the value
  the worker returned under the call id of a plan with the same job key, of the shape its outputs need. So no plan is left
  empty, none gets another key's value, and one error in the batch fails it.
\<close>

theorem job_values_by_key:
  assumes "lookup_jobs now plans cache = (lk, cache')"
    and "apply_job_results since now' plans lk (map jc_id (jobs_request plans (lk_misses lk))) results s =
      (Some (rejected, lk'), s')"
    and "i < length plans"
  shows "\<exists>v. lk_values lk' ! i = Some v \<and>
    (lk_values lk ! i = Some v \<or>
     lk_values lk ! i = None \<and>
     (\<exists>j res. j < length plans \<and> pl_key (plans ! j) = pl_key (plans ! i) \<and> check_value (plans ! j) v \<and>
        res \<in> set results \<and> js_id res = call_id (plans ! j) \<and> js_value res = Some v \<and> js_error res = None))"
proof -
  note spec = lookup_jobs_spec [OF assms(1)]
  let ?ids = "map jc_id (jobs_request plans (lk_misses lk))"
  have ids: "?ids = map (\<lambda>i. call_id (plans ! i)) (lk_misses lk)" by (simp add: jobs_request_def Let_def)
  obtain fresh where fresh: "results_in_request_order ?ids results = Inr fresh"
    using assms(2) by (auto simp: apply_job_results_def split: sum.splits)
  note order = results_in_order [OF fresh]
  have len: "length fresh = length (lk_misses lk)" using order(1) ids by simp
  obtain sc where check: "check_results (zip (map (\<lambda>i. plans ! i) (lk_misses lk)) fresh) s = (True, sc)"
    using assms(2) fresh by (auto simp: apply_job_results_def Let_def split: prod.splits if_splits)
  obtain r vals c where store: "store_results since now' plans (zip fresh (lk_misses lk)) False (lk_values lk) (co_jobs sc) = (r, vals, c)"
    by (metis prod.exhaust)
  have lk': "lk_values lk' = fan_out (lk_owner lk) [0..<length plans] vals"
    using assms(2) fresh check store by (auto simp: apply_job_results_def)
  have "distinct (lk_misses lk)" using spec(3) by (simp add: distinct_map)
  moreover have snd: "map snd (zip fresh (lk_misses lk)) = lk_misses lk" using len by simp
  ultimately have vals: "length vals = length (lk_values lk)" "\<And>i. i \<notin> set (lk_misses lk) \<Longrightarrow> vals ! i = lk_values lk ! i"
      "\<And>v i. (v, i) \<in> set (zip fresh (lk_misses lk)) \<Longrightarrow> vals ! i = Some v"
    using store_results_values [OF store] spec(1,4) snd by (auto simp: subset_iff simp flip: set_map)
  have miss: "\<exists>v res. vals ! j = Some v \<and> check_value (plans ! j) v \<and> res \<in> set results \<and>
      js_id res = call_id (plans ! j) \<and> js_value res = Some v \<and> js_error res = None" if "j \<in> set (lk_misses lk)" for j
  proof -
    obtain k where k: "k < length (lk_misses lk)" "lk_misses lk ! k = j" using \<open>j \<in> _\<close> by (auto simp: in_set_conv_nth)
    obtain res where res: "res \<in> set results" "js_id res = ?ids ! k" "js_value res = Some (fresh ! k)"
      using order(3) [of k] k(1) ids by auto
    have "(fresh ! k, j) \<in> set (zip fresh (lk_misses lk))" "(plans ! j, fresh ! k) \<in> set (zip (map (\<lambda>i. plans ! i) (lk_misses lk)) fresh)"
      using k len by (force simp: set_zip)+
    then show ?thesis
      using vals(3) check_results_fit [OF check] res order(2) k ids by force
  qed
  have own: "vals ! (lk_owner lk ! n) \<noteq> None" if "n \<in> set [0..<length plans]" "vals ! n = None" for n
  proof -
    have "n < length plans" "n \<notin> set (lk_misses lk)" using that miss by force+
    then have "lk_owner lk ! n \<in> set (lk_misses lk)" using spec(5) [of n] vals(2) that(2) by simp
    then show ?thesis using miss by force
  qed
  have fan: "fan_out (lk_owner lk) [0..<length plans] vals ! i = (if vals ! i = None then vals ! (lk_owner lk ! i) else vals ! i)"
    using fan_out_values [of "[0..<length plans]" vals "lk_owner lk"] own vals(1) spec(1) assms(3) by simp
  consider (cached) v where "lk_values lk ! i = Some v" | (missing) "lk_values lk ! i = None" by (cases "lk_values lk ! i") auto
  then show ?thesis
  proof cases
    case cached
    then have "i \<notin> set (lk_misses lk)" using spec(4) by force
    then have "vals ! i = Some v" using vals(2) cached by simp
    then show ?thesis using fan lk' cached by simp
  next
    case missing
    define j where "j = (if vals ! i = None then lk_owner lk ! i else i)"
    have j: "j \<in> set (lk_misses lk)" "pl_key (plans ! j) = pl_key (plans ! i)"
      using spec(5) [OF assms(3) missing] vals(2) [of i] missing by (cases "i \<in> set (lk_misses lk)"; simp add: j_def)+
    then have "j < length plans" using spec(4) by force
    moreover have "lk_values lk' ! i = vals ! j" using fan lk' by (simp add: j_def)
    moreover obtain v res where "vals ! j = Some v" "check_value (plans ! j) v" "res \<in> set results"
        "js_id res = call_id (plans ! j)" "js_value res = Some v" "js_error res = None"
      using miss [OF j(1)] by blast
    ultimately show ?thesis using j(2) missing by auto
  qed
qed

definition demo_node_core :: "nat node core" where
  "demo_node_core =
     \<lparr>co_clock = 0, co_l1 = l1_with_limits 4 100 (\<lambda>_. 0) (\<lambda>_. 0), co_jobs = jobs_with_limits 4 (\<lambda>_. 0),
      co_loader_calls = counter_new, co_job_calls = 0, co_worker_calls = counter_new, co_timed_out_calls = 0,
      co_missing_slots = {}, co_cors_resolved = None, co_action_prefix_tag = None, co_powered_by = None,
      co_l2 = None, co_l2_counters = l2_counters_new, co_l2_floor = floor_new\<rparr>"

definition demo_plan :: "nat job_plan" where
  "demo_plan =
     \<lparr>pl_key = ''key'', pl_call_prefix = ''c/j'', pl_call_row = None, pl_component_id = ''c'', pl_job_id = ''j'', pl_kind = Ssr,
      pl_inputs = NNull, pl_ttl = None, pl_tags = [''t''], pl_user_key = None, pl_dest = Chain ''c'' None,
      pl_outputs = [''_ssr_c''], pl_target = None, pl_src = \<lparr>ps_comp = 0, ps_job = 0, ps_via = None\<rparr>\<rparr>"

theorem job_values_by_key_witness:
  "\<exists>lk lk' s' v. apply_job_results 0 0 [demo_plan, demo_plan\<lparr>pl_call_prefix := ''d/j''\<rparr>] lk [''c/j'']
      [\<lparr>js_id = ''c/j'', js_value = Some (NStr ''html''), js_error = None\<rparr>] demo_node_core = (Some (False, lk'), s') \<and>
     lk_misses lk = [0] \<and> lk_values lk' ! 1 = Some v"
proof -
  let ?plans = "[demo_plan, demo_plan\<lparr>pl_call_prefix := ''d/j''\<rparr>]"
  let ?results = "[\<lparr>js_id = ''c/j'', js_value = Some (NStr ''html''), js_error = None\<rparr>] :: nat job_result list"
  let ?lk = "\<lparr>lk_values = [None, None], lk_owner = [0, 0], lk_misses = [0]\<rparr> :: nat job_lookup"
  let ?cache = "jobs_with_limits 4 (\<lambda>_. 0) :: nat node local_jobs"
  have l: "lookup_jobs 0 ?plans ?cache = (?lk, snd (lookup_jobs 0 ?plans ?cache))"
    by (simp add: lookup_jobs_def demo_plan_def jobs_get_def jobs_with_limits_def store_new_def get_def)
  have ids: "map jc_id (jobs_request ?plans (lk_misses ?lk)) = [''c/j'']"
    by (simp add: jobs_request_def call_id_def demo_plan_def)
  have fresh: "results_in_request_order [''c/j''] ?results = Inr [NStr ''html'']"
    by (simp add: results_in_request_order_def take_results.simps(2))
  obtain b c where ins: "jobs_insert ''key'' (NStr ''html'') None [''t''] None 0 0 ?cache = (b, c)" by fastforce
  then have "b" by (simp add: jobs_insert_def jobs_invalidated_since_def jobs_with_limits_def inval_slots_def
      jobs_slot_def slot_of_hash_def INVAL_SLOTS_def split: if_splits)
  then have a: "apply_job_results 0 0 ?plans ?lk (map jc_id (jobs_request ?plans (lk_misses ?lk))) ?results demo_node_core =
      (Some (False, ?lk\<lparr>lk_values := [Some (NStr ''html''), Some (NStr ''html'')]\<rparr>), demo_node_core\<lparr>co_jobs := c\<rparr>)"
    unfolding ids using ins fresh
    by (simp add: apply_job_results_def check_value_def note_missing_slots_def demo_plan_def) (simp add: demo_node_core_def)
  from job_values_by_key [OF l a, of 1] obtain v where
    "lk_values (?lk\<lparr>lk_values := [Some (NStr ''html''), Some (NStr ''html'')]\<rparr>) ! 1 = Some v" by auto
  then show ?thesis
    using a [unfolded ids]
    by (intro exI [of _ ?lk] exI [of _ "?lk\<lparr>lk_values := [Some (NStr ''html''), Some (NStr ''html'')]\<rparr>"] exI [of _ "demo_node_core\<lparr>co_jobs := c\<rparr>"]
        exI [of _ v]) simp
qed

end
