(* ===== verification/PageParts.thy ===== *)
theory PageParts
  imports Jobs PlanLaws Dispatch
begin

text \<open>
  The decisions of the page path (\<^verbatim>\<open>crates/brust-core/src/pipeline.rs\<close>, \<^verbatim>\<open>compress.rs\<close>): which page
  cache key a request has, what of the loader's answer reaches the context and the response, the redirect target, and
  the response of a cached or fresh document. The header maps of responses are lists of pairs behind the interface of
  \<open>Headers\<close>; request headers are the pairs \<^verbatim>\<open>HeaderMap::iter\<close> yields, names in lower case.
\<close>

section \<open>The page cache key\<close>

datatype cache_outcome = OutHit | OutHitL2 | OutMiss | OutBypass | OutNone

definition outcome_text :: "cache_outcome \<Rightarrow> string" where
  "outcome_text oc =
     (case oc of OutHit \<Rightarrow> ''HIT'' | OutHitL2 \<Rightarrow> ''HIT-L2'' | OutMiss \<Rightarrow> ''MISS'' | OutBypass \<Rightarrow> ''BYPASS'' | OutNone \<Rightarrow> ''-'')"

definition last_wins_step :: "string \<times> string \<Rightarrow> (string \<times> string) list \<Rightarrow> (string \<times> string) list" where
  "last_wins_step kv out =
     (if fst kv \<in> fst ` set out then map (\<lambda>(n, v). if n = fst kv then (n, snd kv) else (n, v)) out else out @ [kv])"

definition last_wins :: "(string \<times> string) list \<Rightarrow> (string \<times> string) list" where
  "last_wins pairs = fold last_wins_step pairs []"

fun ci_collision :: "(string \<times> string) list \<Rightarrow> bool" where
  "ci_collision [] = False"
| "ci_collision ((a, _) # rest) \<longleftrightarrow> list_ex (\<lambda>(b, _). eq_ignore_ascii_case a b) rest \<or> ci_collision rest"

definition query_of :: "string \<Rightarrow> string" where
  "query_of full = (case split_once_char (CHR ''?'') full of Some (_, q) \<Rightarrow> q | None \<Rightarrow> [])"

definition key_header_pairs :: "header_list \<Rightarrow> (string \<times> string) list" where
  "key_header_pairs headers =
     map (\<lambda>(n, v). (n, from_utf8_or_default v)) (filter (\<lambda>(n, _). n \<noteq> []) headers)"

definition key_cookie_pairs :: "header_list \<Rightarrow> (string \<times> string) list" where
  "key_cookie_pairs headers =
     concat (map (\<lambda>(n, v). if n = ''cookie'' then cookie_pairs v else []) (key_header_pairs headers))"

definition key_ctx ::
  "bool \<Rightarrow> string \<Rightarrow> header_list \<Rightarrow> (string \<times> string) list \<Rightarrow> (string \<times> string) list \<Rightarrow> eval_ctx" where
  "key_ctx https full headers search_pairs params =
     (let header_pairs = last_wins (key_header_pairs headers)
      in \<lparr>ec_headers = header_pairs, ec_cookies = last_wins (key_cookie_pairs headers), ec_query = search_pairs,
          ec_params = params, ec_method = ''GET'',
          ec_host = (case map_of header_pairs ''host'' of Some v \<Rightarrow> v | None \<Rightarrow> []),
          ec_scheme = (if https then ''https'' else ''http''), ec_path = path_of full\<rparr>)"

definition l1_decision ::
  "'r route_table \<Rightarrow> bool \<Rightarrow> nat \<Rightarrow> route_record \<Rightarrow> string \<Rightarrow> header_list \<Rightarrow> (string \<times> string) list \<Rightarrow>
   cache_key option \<times> cache_outcome \<times> (string \<times> string) list option" where
  "l1_decision routes https route_id route full headers params =
     (if rr_cache route = None then (None, OutNone, None)
      else
        let query = query_of full;
            search = (if query = [] then None else Some (decode_search query));
            pairs = (case search of Some s \<Rightarrow> s | None \<Rightarrow> [])
        in if \<not> distinct (map fst pairs) then (None, OutBypass, search)
           else (case compiled_cache_for routes route_id of
               None \<Rightarrow> (Some (build_cache_key ''GET'' full []), OutMiss, search)
             | Some cc \<Rightarrow>
                 if cc_prefix cc = None \<and> cc_bypass cc = None
                 then (Some (build_cache_key ''GET'' full []), OutMiss, search)
                 else if ci_collision (last_wins (key_header_pairs headers)) \<or>
                         ci_collision (last_wins (key_cookie_pairs headers)) \<or> ci_collision pairs
                 then (None, OutBypass, search)
                 else
                   let ctx = key_ctx https full headers pairs params;
                       bypass_hit = (case cc_bypass cc of
                                       None \<Rightarrow> False
                                     | Some None \<Rightarrow> True
                                     | Some (Some e) \<Rightarrow> eval e ctx \<noteq> [])
                   in if bypass_hit then (None, OutBypass, search)
                      else (Some (build_cache_key ''GET'' full (case cc_prefix cc of Some e \<Rightarrow> eval e ctx | None \<Rightarrow> [])),
                            OutMiss, search)))"

section \<open>What the loader's answer may set\<close>

definition REFUSED_HEADERS :: "string list" where
  "REFUSED_HEADERS = [''content-type'', ''content-length'', ''transfer-encoding'', ''connection'', ''location'']"

definition http_error_content_type :: "'m http_api \<Rightarrow> string option \<Rightarrow> string" where
  "http_error_content_type h asked =
     (case asked of
        Some ct \<Rightarrow> if value_from_str h ct \<noteq> None \<and> trim ct \<noteq> [] then ct else ''text/plain; charset=utf-8''
      | None \<Rightarrow> ''text/plain; charset=utf-8'')"

definition refused_header :: "'m http_api \<Rightarrow> string \<times> string \<Rightarrow> bool" where
  "refused_header h kv \<longleftrightarrow>
     list_ex (eq_ignore_ascii_case (fst kv)) REFUSED_HEADERS \<or>
     name_from_bytes h (fst kv) = None \<or> value_from_str h (snd kv) = None"

definition header_tokens :: "string \<Rightarrow> string list" where
  "header_tokens v = map (\<lambda>t. trim (hd (split_char (CHR ''='') t))) (split_char (CHR '','') v)"

definition keeps_private :: "string \<times> string \<Rightarrow> bool" where
  "keeps_private kv \<longleftrightarrow>
     (let (k, v) = kv
      in eq_ignore_ascii_case k ''set-cookie'' \<or>
         eq_ignore_ascii_case k ''vary'' \<and>
           list_ex (\<lambda>t. t \<noteq> [] \<and> \<not> eq_ignore_ascii_case t ''accept-encoding'') (header_tokens v) \<or>
         eq_ignore_ascii_case k ''cache-control'' \<and>
           list_ex (\<lambda>t. eq_ignore_ascii_case t ''no-store'' \<or> eq_ignore_ascii_case t ''private'') (header_tokens v))"

fun loader_headers :: "'m http_api \<Rightarrow> (string \<times> string) list \<Rightarrow> (string \<times> string) list \<Rightarrow> bool \<times> (string \<times> string) list" where
  "loader_headers h [] extra = (True, extra)"
| "loader_headers h (kv # rest) extra =
     (if refused_header h kv then loader_headers h rest extra
      else let (cacheable, extra) = loader_headers h rest (extra @ [kv]) in (cacheable \<and> \<not> keeps_private kv, extra))"

text \<open>Control characters of a UTF-8 text: U+0000 to U+001F, U+007F, and U+0080 to U+009F (\<^verbatim>\<open>C2 80\<close> to \<^verbatim>\<open>C2 9F\<close>).\<close>

fun has_control :: "string \<Rightarrow> bool" where
  "has_control [] = False"
| "has_control (c # s) \<longleftrightarrow>
     byte c < 32 \<or> byte c = 127 \<or>
     byte c = 0xC2 \<and> (case s of d # _ \<Rightarrow> 0x80 \<le> byte d \<and> byte d \<le> 0x9F | [] \<Rightarrow> False) \<or> has_control s"

definition location_header :: "'m http_api \<Rightarrow> string \<Rightarrow> string option" where
  "location_header h location =
     (if has_control location then None
      else let out = concat (map (\<lambda>c. if byte c < 128 then [c] else pct_encode_byte c) location)
           in if value_from_str h out = None then None else Some out)"

text \<open>\<^verbatim>\<open>rsplit_once\<close>\<close>

definition rsplit_once_char :: "char \<Rightarrow> string \<Rightarrow> (string \<times> string) option" where
  "rsplit_once_char c s = map_option (\<lambda>(b, a). (rev a, rev b)) (split_once_char c (rev s))"

definition is_instance_dict :: "string \<Rightarrow> bool" where
  "is_instance_dict k \<longleftrightarrow>
     (case strip_prefix ''__'' k of
        None \<Rightarrow> False
      | Some rest \<Rightarrow>
          (case rsplit_once_char (CHR ''_'') rest of
             None \<Rightarrow> False
           | Some (name, ordinal) \<Rightarrow>
               (case rsplit_once_char (CHR ''_'') name of
                  None \<Rightarrow> False
                | Some (_, hash) \<Rightarrow>
                    ordinal \<noteq> [] \<and> list_all is_ascii_digit ordinal \<and> length hash = 8 \<and>
                    list_all (\<lambda>b. is_ascii_digit b \<or> b \<in> set ''abcdef'') hash)))"

definition PROPS_KEY :: string where
  "PROPS_KEY = ''_props''"

definition numbered :: "string \<Rightarrow> string \<Rightarrow> bool" where
  "numbered p k \<longleftrightarrow> (case strip_prefix p k of Some d \<Rightarrow> d \<noteq> [] \<and> list_all is_ascii_digit d | None \<Rightarrow> False)"

definition is_server_slot :: "string \<Rightarrow> bool" where
  "is_server_slot k \<longleftrightarrow>
     k \<in> {''__outlet'', CHILDREN_KEY, OWN_KEY, PROPS_KEY, STORE_KEY} \<or> starts_with k ''_ssr_'' \<or>
     numbered ''_s'' k \<or> numbered ''_id'' k \<or> starts_with k ''_fj_'' \<or> is_instance_dict k"

definition merge_loader_data :: "'n node \<Rightarrow> 'n map_inner \<Rightarrow> 'n map_inner" where
  "merge_loader_data data ctx =
     (case as_map data of
        None \<Rightarrow> ctx
      | Some m \<Rightarrow> fold (\<lambda>(k, v) ctx. if is_server_slot k then ctx else bm_insert k v ctx) m ctx)"

definition merge_loader_response :: "'n node \<Rightarrow> 'n node option \<Rightarrow> 'n map_inner \<Rightarrow> 'n map_inner" where
  "merge_loader_response data snap ctx =
     (let ctx = merge_loader_data data ctx
      in case snap of
           Some (NMap m hint) \<Rightarrow> if m \<noteq> [] then bm_insert STORE_KEY (NMap m hint) ctx else ctx
         | _ \<Rightarrow> ctx)"


section \<open>Compression\<close>

text \<open>
  \<^verbatim>\<open>str::parse::<f32>\<close>, as far as the sign of the result: whether the text is a float greater than zero. A decimal
  \<open>m \<times> 10 ^ e\<close> rounds to zero up to half the least subnormal, \<open>2 ^ -150\<close>.
\<close>

definition f32_exponent :: "string \<Rightarrow> (bool \<times> nat) option" where
  "f32_exponent s =
     (case s of
        [] \<Rightarrow> Some (False, 0)
      | c # r \<Rightarrow>
          if c \<in> set ''eE'' then
            (let (neg, d) = (case r of x # y \<Rightarrow> if x = CHR ''-'' then (True, y) else if x = CHR ''+'' then (False, y) else (False, r) | [] \<Rightarrow> (False, []))
             in if d \<noteq> [] \<and> list_all is_ascii_digit d then Some (neg, digits_value d) else None)
          else None)"

definition f32_number_positive :: "string \<Rightarrow> bool" where
  "f32_number_positive s =
     (let whole = takeWhile is_ascii_digit s; r = dropWhile is_ascii_digit s;
          (frac, r) = (case r of c # r' \<Rightarrow> if c = CHR ''.'' then (takeWhile is_ascii_digit r', dropWhile is_ascii_digit r') else ([], r) | [] \<Rightarrow> ([], []));
          m = digits_value (whole @ frac)
      in (whole @ frac) \<noteq> [] \<and>
         (case f32_exponent r of
            None \<Rightarrow> False
          | Some (neg, e) \<Rightarrow>
              if neg then 10 ^ (e + length frac) < m * 2 ^ 150
              else if length frac \<le> e then 0 < m
              else 10 ^ (length frac - e) < m * 2 ^ 150))"

definition f32_positive :: "string \<Rightarrow> bool" where
  "f32_positive s =
     (let s = (case s of c # r \<Rightarrow> if c = CHR ''+'' then r else s | [] \<Rightarrow> [])
      in eq_ignore_ascii_case s ''inf'' \<or> eq_ignore_ascii_case s ''infinity'' \<or> f32_number_positive s)"

definition q_param :: "string \<Rightarrow> string option" where
  "q_param p = (case strip_prefix ''q='' p of Some v \<Rightarrow> Some v | None \<Rightarrow> strip_prefix ''Q='' p)"

definition accepts_token :: "string \<Rightarrow> bool" where
  "accepts_token tok =
     (let parts = map trim (split_char (CHR '';'') tok)
      in eq_ignore_ascii_case (hd parts) ''gzip'' \<and>
         (case List.map_filter q_param (tl parts) of [] \<Rightarrow> True | qs \<Rightarrow> f32_positive (trim (last qs))))"

definition accepts_gzip :: "string option \<Rightarrow> bool" where
  "accepts_gzip accept_encoding =
     (case accept_encoding of None \<Rightarrow> False | Some ae \<Rightarrow> list_ex accepts_token (split_char (CHR '','') ae))"

definition is_compressible :: "string \<Rightarrow> bool" where
  "is_compressible content_type =
     (let ct = trim (hd (split_char (CHR '';'') content_type))
      in starts_with ct ''text/'' \<or>
         ct \<in> {''application/javascript'', ''application/json'', ''application/xml'', ''image/svg+xml''})"

section \<open>Page responses\<close>

definition HTML :: string where
  "HTML = ''text/html; charset=utf-8''"

definition PAGE_GZIP_MIN :: nat where
  "PAGE_GZIP_MIN = 16 * 1024"

definition next_hint :: "nat \<Rightarrow> nat" where
  "next_hint len = len + len div 16 + 1024"

definition OFFER_STOP :: nat where
  "OFFER_STOP = 64"

definition note_planned_outcome :: "bool \<Rightarrow> nat \<Rightarrow> nat" where
  "note_planned_outcome all_hit streak =
     (if all_hit then (if streak < OFFER_STOP then streak + 1 else streak) else 0)"

text \<open>
  \<open>gz\<close> is \<^verbatim>\<open>compress::gzip\<close> at the page level: \<open>None\<close> when the output is no smaller. The bytes, whether they are
  gzip, and the body with its gzip cell as it is afterwards.
\<close>

definition cached_body :: "(string \<Rightarrow> string option) \<Rightarrow> rendered_body \<Rightarrow> bool \<Rightarrow> (string \<times> bool) \<times> rendered_body" where
  "cached_body gz body accepts =
     (if accepts \<and> PAGE_GZIP_MIN \<le> length (rb_html body)
      then let cell = (case rb_gzip body of Some g \<Rightarrow> g | None \<Rightarrow> gz (rb_html body));
               body = body\<lparr>rb_gzip := Some cell\<rparr>
           in (case cell of Some g \<Rightarrow> ((g, True), body) | None \<Rightarrow> ((rb_html body, False), body))
      else ((rb_html body, False), body))"

definition needs_first_gzip :: "rendered_body \<Rightarrow> bool" where
  "needs_first_gzip b \<longleftrightarrow> PAGE_GZIP_MIN \<le> length (rb_html b) \<and> rb_gzip b = None"

definition page_response ::
  "header_list http_api \<Rightarrow> nat \<Rightarrow> header_list \<Rightarrow> nat \<Rightarrow> string \<Rightarrow> bool \<Rightarrow> string option \<Rightarrow> header_list response" where
  "page_response h status hm html_len bytes gzipped cache_hdr =
     (let hm = (case cache_hdr of Some v \<Rightarrow> hm_append h ''x-brust-cache'' v hm | None \<Rightarrow> hm);
          hm = (if gzipped then hm_append h ''content-encoding'' ''gzip'' hm else hm);
          hm = (if PAGE_GZIP_MIN \<le> html_len then hm_append h ''vary'' ''Accept-Encoding'' hm else hm)
      in resp_with h status hm bytes)"

definition body_response ::
  "header_list http_api \<Rightarrow> (string \<Rightarrow> string option) \<Rightarrow> rendered_body \<Rightarrow> bool \<Rightarrow> string \<Rightarrow> header_list response \<times> rendered_body" where
  "body_response h gz b accepts hdr =
     (let ((bytes, encoded), b') = cached_body gz b accepts
      in (page_response h (rb_status b) (rb_headers b) (length (rb_html b)) bytes encoded (Some hdr), b'))"

definition hit_response where
  "hit_response h gz b accepts = body_response h gz b accepts ''HIT''"

definition l2_hit_response where
  "l2_hit_response h gz b accepts = body_response h gz b accepts ''HIT-L2''"

text \<open>
  The page cache holds shared bodies: a first gzip fills the cell of the body in the store.
\<close>

definition fill_gzip :: "cache_key \<Rightarrow> rendered_body \<Rightarrow> local_l1 \<Rightarrow> local_l1" where
  "fill_gzip k b c =
     c\<lparr>l1_store := (l1_store c)\<lparr>entries :=
       map (\<lambda>(k', s). if k' = k then (k', s\<lparr>slot_value := (slot_value s)\<lparr>rb_gzip := rb_gzip b\<rparr>\<rparr>) else (k', s)) (entries (l1_store c))\<rparr>\<rparr>"

definition l1_probe ::
  "header_list http_api \<Rightarrow> (string \<Rightarrow> string option) \<Rightarrow> bool \<Rightarrow> cache_key \<Rightarrow> nat \<Rightarrow> local_l1 \<Rightarrow>
   header_list response option \<times> local_l1" where
  "l1_probe h gz accepts k now c =
     (case l1_get_with (\<lambda>b. hit_response h gz b accepts) k now c of
        (Some (r, b), c) \<Rightarrow> (Some r, fill_gzip k b c)
      | (None, c) \<Rightarrow> (None, c))"

section \<open>The planned loader call\<close>

text \<open>What the worker answers to a loader call (\<^verbatim>\<open>protocol.rs\<close>), and the plan left in the slot (\<^verbatim>\<open>plan.rs\<close>).\<close>

datatype 'n verdict =
    VNotFound "'n node" "'n node option" header_list
  | VRedirect string nat header_list
  | VHttpError nat string "string option" header_list

datatype 'n loader_response =
    LOk bool "'n node" header_list "'n node option"
  | LPlanned "'n job_result list"
  | LVerdict "'n verdict"
  | LError string

record 'n plan_seed =
  sd_route :: nat
  sd_base :: "'n map_inner"

record 'n planned_call =
  pc_ctx :: "'n node"
  pc_headers :: header_list
  pc_rows :: "plan_row list"
  pc_lookup :: "'n job_lookup"
  pc_call_ids :: "string list"

text \<open>
  \<open>read\<close> parses the worker's bytes and \<open>print\<close> gives the JSON of a request (\<^verbatim>\<open>serde_json\<close>); the lookup reads the job cache.
\<close>

definition plan_response ::
  "('n, 'f, 'x) plan_env \<Rightarrow> ('n, 'x) plan_index \<Rightarrow> (string \<Rightarrow> 'n loader_response option) \<Rightarrow>
   ('n job_call list \<Rightarrow> string option) \<Rightarrow> route_record \<Rightarrow> 'n map_inner \<Rightarrow> string \<Rightarrow> nat \<Rightarrow> 'n node local_jobs \<Rightarrow>
   ('n planned_call \<times> string) option \<times> 'n node local_jobs" where
  "plan_response env px read print route base bytes now cache =
     (case read bytes of
        Some (LOk True data headers snap) \<Rightarrow>
          let ctx = node_map (merge_loader_response data snap base)
          in (case collect_jobs env px (rr_chain route) ctx of
                Inl _ \<Rightarrow> (None, cache)
              | Inr plans \<Rightarrow>
                  let (lookup, cache) = lookup_jobs now plans cache;
                      req = jobs_request plans (lk_misses lookup)
                  in if lk_misses lookup = []
                     then (Some (\<lparr>pc_ctx = ctx, pc_headers = headers, pc_rows = map to_row plans, pc_lookup = lookup,
                                  pc_call_ids = []\<rparr>, []), cache)
                     else (case print req of
                             None \<Rightarrow> (None, cache)
                           | Some json \<Rightarrow>
                               (Some (\<lparr>pc_ctx = ctx, pc_headers = headers, pc_rows = map to_row plans, pc_lookup = lookup,
                                       pc_call_ids = map jc_id req\<rparr>, json), cache)))
      | _ \<Rightarrow> (None, cache))"


section \<open>The key sees what the loader sees\<close>

lemma map_of_rekey: "map_of (map (\<lambda>(n, v). if n = k then (n, w) else (n, v)) out) n =
    (if n = k \<and> map_of out k \<noteq> None then Some w else map_of out n)"
  by (induction out) auto

lemma map_of_last_wins_step: "map_of (last_wins_step kv out) = (map_of out)(fst kv \<mapsto> snd kv)"
proof
  fix n
  have "fst kv \<notin> fst ` set out \<Longrightarrow> map_of out (fst kv) = None" by (simp add: map_of_eq_None_iff)
  moreover have "fst kv \<in> fst ` set out \<Longrightarrow> map_of out (fst kv) \<noteq> None" by (simp add: map_of_eq_None_iff)
  ultimately show "map_of (last_wins_step kv out) n = ((map_of out)(fst kv \<mapsto> snd kv)) n"
    by (cases kv) (auto simp: last_wins_step_def map_of_rekey map_add_def split: option.splits)
qed

lemma distinct_last_wins_step: "distinct (map fst out) \<Longrightarrow> distinct (map fst (last_wins_step kv out))"
proof -
  have "map fst (map (\<lambda>(n, v). if n = fst kv then (n, snd kv) else (n, v)) out) = map fst out"
    by (induction out) auto
  then show "distinct (map fst out) \<Longrightarrow> distinct (map fst (last_wins_step kv out))"
    by (simp add: last_wins_step_def del: map_map map_eq_conv)
qed

lemma last_wins_fold:
  "distinct (map fst out) \<Longrightarrow> distinct (map fst (fold last_wins_step pairs out)) \<and>
    map_of (fold last_wins_step pairs out) n = (map_of out ++ map_of (rev pairs)) n"
proof (induction pairs arbitrary: out)
  case (Cons kv pairs)
  have "(map_of out ++ map_of (rev (kv # pairs))) n = (map_of (last_wins_step kv out) ++ map_of (rev pairs)) n"
    by (cases kv) (auto simp: map_of_last_wins_step map_add_def split: option.splits)
  then show ?case
    using Cons.IH [OF distinct_last_wins_step [OF Cons.prems, of kv]] by simp
qed simp

lemma last_wins_distinct: "distinct (map fst (last_wins pairs))"
  using last_wins_fold [of "[]" pairs undefined] by (simp add: last_wins_def)

text \<open>\<open>map_of (rev pairs)\<close> is the object \<^verbatim>\<open>JSON.parse\<close> makes of the pairs: the last value of a name.\<close>

lemma last_wins_map: "map_of (last_wins pairs) n = map_of (rev pairs) n"
  using last_wins_fold [of "[]" pairs n] by (simp add: last_wins_def)

lemma ci_unique:
  assumes "\<not> ci_collision pairs" and "distinct (map fst pairs)" and "(a, v) \<in> set pairs" and "(b, w) \<in> set pairs"
    and "eq_ignore_ascii_case a b"
  shows "a = b \<and> v = w"
  using assms
proof (induction pairs)
  case (Cons p pairs)
  obtain c u where p: "p = (c, u)" by fastforce
  have sym: "eq_ignore_ascii_case b a" using Cons.prems(5) by (simp add: eq_ignore_ascii_case_def)
  have no: "\<not> eq_ignore_ascii_case c n" if "(n, x) \<in> set pairs" for n x
    using Cons.prems(1) that by (auto simp: p list_ex_iff)
  show ?case
  proof (cases "(a, v) \<in> set pairs \<and> (b, w) \<in> set pairs")
    case True
    then show ?thesis using Cons by (simp add: p)
  next
    case False
    then show ?thesis using Cons.prems(2-5) sym no by (auto simp: p)
  qed
qed simp

lemma lookup_unique:
  assumes "\<not> ci_collision pairs" and "distinct (map fst pairs)"
  shows "map_of pairs n = Some v \<Longrightarrow> lookup pairs n = v"
    and "lookup pairs n \<noteq> [] \<Longrightarrow> \<exists>m. eq_ignore_ascii_case m n \<and> map_of pairs m = Some (lookup pairs n)"
proof -
  have found: "\<exists>k. (k, lookup pairs n) \<in> set pairs \<and> eq_ignore_ascii_case k n"
    if some: "find (\<lambda>(k, _). eq_ignore_ascii_case k n) pairs \<noteq> None"
  proof -
    obtain k u where f: "find (\<lambda>(k, _). eq_ignore_ascii_case k n) pairs = Some (k, u)" using some by auto
    then have "(k, u) \<in> set pairs \<and> eq_ignore_ascii_case k n" by (auto simp: find_Some_iff) (metis nth_mem)
    then show ?thesis using f by (auto simp: lookup_def)
  qed
  show "lookup pairs n = v" if n: "map_of pairs n = Some v"
  proof -
    have mem: "(n, v) \<in> set pairs" using n by (rule map_of_SomeD)
    then have "find (\<lambda>(k, _). eq_ignore_ascii_case k n) pairs \<noteq> None"
      by (auto simp: find_None_iff eq_ignore_ascii_case_def)
    then obtain k where "(k, lookup pairs n) \<in> set pairs" "eq_ignore_ascii_case k n" using found by blast
    then show ?thesis using ci_unique [OF assms _ mem] by blast
  qed
  show "\<exists>m. eq_ignore_ascii_case m n \<and> map_of pairs m = Some (lookup pairs n)" if ne: "lookup pairs n \<noteq> []"
  proof -
    have "find (\<lambda>(k, _). eq_ignore_ascii_case k n) pairs \<noteq> None" using ne by (auto simp: lookup_def split: option.splits)
    then show ?thesis using found assms(2) by (auto simp: map_of_eq_Some_iff)
  qed
qed


text \<open>
  \<open>pairs\<close> gives a key expression, for every name \<open>P\<close> admits, the member the loader's object has: what the object holds
  under the exact name, and nothing the object does not hold under some spelling of the name.
\<close>

definition sees :: "(string \<Rightarrow> bool) \<Rightarrow> (string \<times> string) list \<Rightarrow> (string \<times> string) list \<Rightarrow> bool" where
  "sees P pairs obj \<longleftrightarrow>
     (\<forall>n. P n \<longrightarrow> (\<forall>v. map_of (rev obj) n = Some v \<longrightarrow> lookup pairs n = v) \<and>
        (lookup pairs n \<noteq> [] \<longrightarrow> (\<exists>m. eq_ignore_ascii_case m n \<and> map_of (rev obj) m = Some (lookup pairs n))))"

lemma sees_last_wins: "\<not> ci_collision (last_wins pairs) \<Longrightarrow> sees P (last_wins pairs) pairs"
  using lookup_unique [OF _ last_wins_distinct, of pairs] by (simp add: sees_def last_wins_map)

lemma map_of_rev_filter: "Q n \<Longrightarrow> map_of (rev (filter (\<lambda>(n, _). Q n) pairs)) n = map_of (rev pairs) n"
  by (induction pairs) (auto simp: map_add_def split: option.splits)

lemma cookie_pairs_of_envelope:
  assumes "REQUEST_TOKEN_HEADER \<noteq> ''cookie''"
  shows "concat (map (\<lambda>(name, value). if name = ''cookie'' then cookie_pairs value else [])
      (map (\<lambda>(name, value). (name, from_utf8_or_default value))
        (filter (\<lambda>(name, _). \<not> (name = [] \<or> name = REQUEST_TOKEN_HEADER)) headers))) = key_cookie_pairs headers"
  using assms by (induction headers) (auto simp: key_cookie_pairs_def key_header_pairs_def)

lemma request_envelope_headers:
  "re_headers (build_request_envelope meth full q headers search) =
     filter (\<lambda>(n, _). n \<noteq> REQUEST_TOKEN_HEADER) (key_header_pairs headers)"
  by (induction headers) (auto simp: build_request_envelope_def key_header_pairs_def Let_def)

lemma envelope_cookies: "re_cookies (build_request_envelope meth full q headers search) = key_cookie_pairs headers"
  using cookie_pairs_of_envelope [of headers] by (simp add: build_request_envelope_def Let_def REQUEST_TOKEN_HEADER_def)

lemma sees_filtered:
  assumes "sees P pairs obj" and "\<And>n m. P n \<Longrightarrow> eq_ignore_ascii_case m n \<Longrightarrow> Q m"
  shows "sees P pairs (filter (\<lambda>(n, _). Q n) obj)"
  unfolding sees_def
proof (intro allI impI conjI)
  fix n assume n: "P n"
  have self: "eq_ignore_ascii_case n n" by (simp add: eq_ignore_ascii_case_def)
  show "lookup pairs n = v" if "map_of (rev (filter (\<lambda>(n, _). Q n) obj)) n = Some v" for v
    using assms(1) n that map_of_rev_filter [of Q n obj, OF assms(2) [OF n self]] by (auto simp: sees_def)
  show "\<exists>m. eq_ignore_ascii_case m n \<and> map_of (rev (filter (\<lambda>(n, _). Q n) obj)) m = Some (lookup pairs n)"
    if ne: "lookup pairs n \<noteq> []"
  proof -
    obtain m where m: "eq_ignore_ascii_case m n" "map_of (rev obj) m = Some (lookup pairs n)"
      using assms(1) n ne unfolding sees_def by blast
    then show ?thesis using map_of_rev_filter [of Q m obj, OF assms(2) [OF n m(1)]] by metis
  qed
qed

lemma map_of_rev_distinct: "distinct (map fst pairs) \<Longrightarrow> map_of (rev pairs) = map_of pairs"
  using map_of_inject_set [of "rev pairs" pairs] by (simp add: rev_map [symmetric])

lemma sees_distinct:
  assumes "\<not> ci_collision pairs" and "distinct (map fst pairs)"
  shows "sees P pairs pairs"
  using lookup_unique [OF assms] by (simp add: sees_def map_of_rev_distinct [OF assms(2)])

lemma decode_search_empty: "decode_search [] = []"
  by (simp add: decode_search_def)

text \<open>The decision on a route with a key or bypass expression that yields a key.\<close>

lemma l1_decision_key:
  assumes "l1_decision routes https rid route full headers params = (Some k, oc, search)"
    and "compiled_cache_for routes rid = Some cc" and "cc_prefix cc \<noteq> None \<or> cc_bypass cc \<noteq> None"
  shows "oc = OutMiss \<and> search = (if query_of full = [] then None else Some (decode_search (query_of full))) \<and>
    distinct (map fst (decode_search (query_of full))) \<and> \<not> ci_collision (decode_search (query_of full)) \<and>
    \<not> ci_collision (last_wins (key_header_pairs headers)) \<and> \<not> ci_collision (last_wins (key_cookie_pairs headers)) \<and>
    (case cc_bypass cc of None \<Rightarrow> True | Some None \<Rightarrow> False
     | Some (Some e) \<Rightarrow> eval e (key_ctx https full headers (decode_search (query_of full)) params) = []) \<and>
    k = build_cache_key ''GET'' full
      (case cc_prefix cc of Some e \<Rightarrow> eval e (key_ctx https full headers (decode_search (query_of full)) params) | None \<Rightarrow> [])"
  using assms
  by (auto simp: l1_decision_def Let_def decode_search_empty split: if_splits option.splits)

text \<open>
  C12: A page is cached under what the loader sees. When the decision on a route with a key expression yields a key, the
  prefix of the key is the expression evaluated in a context whose headers, cookies and query give, under every name,
  exactly the member of the object the loader parses from the request (the last value of a repeated name, and nothing
  the object lacks under every spelling), whose parameters are the loader's, and in which the bypass expression is empty.
\<close>

theorem l1_key_sees_loader:
  assumes "l1_decision routes https rid route full headers (rm_params m) = (Some k, oc, search)"
    and "compiled_cache_for routes rid = Some cc" and "cc_prefix cc = Some e"
    and "env = into_envelope m ''GET'' full headers search"
  shows "\<exists>ctx. key_prefix k = eval e ctx \<and>
    sees (\<lambda>n. \<not> eq_ignore_ascii_case n REQUEST_TOKEN_HEADER) (ec_headers ctx) (re_headers (ro_req env)) \<and>
    sees (\<lambda>_. True) (ec_cookies ctx) (re_cookies (ro_req env)) \<and>
    sees (\<lambda>_. True) (ec_query ctx) (re_search (ro_req env)) \<and> ec_params ctx = ro_params env \<and>
    (case cc_bypass cc of None \<Rightarrow> True | Some None \<Rightarrow> False | Some (Some b) \<Rightarrow> eval b ctx = [])"
proof -
  let ?ctx = "key_ctx https full headers (decode_search (query_of full)) (rm_params m)"
  note facts = l1_decision_key [OF assms(1,2)]
  have "sees (\<lambda>n. \<not> eq_ignore_ascii_case n REQUEST_TOKEN_HEADER) (ec_headers ?ctx) (re_headers (ro_req env))"
  proof -
    have c: "\<not> ci_collision (last_wins (key_header_pairs headers))" using facts assms(3) by simp
    show ?thesis
      unfolding assms(4) into_envelope_def route_envelope.select_convs Let_def request_envelope_headers key_ctx_def eval_ctx.select_convs
      by (rule sees_filtered [OF sees_last_wins [OF c]]) (auto simp: eq_ignore_ascii_case_def)
  qed
  moreover have "sees (\<lambda>_. True) (ec_cookies ?ctx) (re_cookies (ro_req env))"
    using facts assms(3) sees_last_wins [of "key_cookie_pairs headers"]
    by (simp add: key_ctx_def Let_def assms(4) into_envelope_def envelope_cookies)
  moreover have "re_search (ro_req env) = decode_search (query_of full)"
    using facts assms(3) by (auto simp: assms(4) into_envelope_def build_request_envelope_def Let_def query_of_def decode_search_empty)
  then have "sees (\<lambda>_. True) (ec_query ?ctx) (re_search (ro_req env))"
    using facts assms(3) sees_distinct [of "decode_search (query_of full)"] by (simp add: key_ctx_def Let_def)
  moreover have "key_prefix k = eval e ?ctx" "ec_params ?ctx = ro_params env"
    using facts assms(3) by (simp_all add: build_cache_key_def key_ctx_def Let_def assms(4) into_envelope_def case_prod_beta)
  moreover have "case cc_bypass cc of None \<Rightarrow> True | Some None \<Rightarrow> False | Some (Some b) \<Rightarrow> eval b ?ctx = []"
    using facts assms(3) by (simp split: option.splits)
  ultimately show ?thesis by blast
qed


section \<open>Redirect targets\<close>

definition encode_location :: "string \<Rightarrow> string" where
  "encode_location s = concat (map (\<lambda>c. if byte c < 128 then [c] else pct_encode_byte c) s)"

lemma encode_location_simps [simp]:
  "encode_location [] = []"
  "encode_location (c # s) = (if byte c < 128 then c # encode_location s else pct_encode_byte c @ encode_location s)"
  by (simp_all add: encode_location_def)

lemma encode_location_head: "encode_location (c # s) \<noteq> []" "hd (encode_location (c # s)) = (if byte c < 128 then c else CHR ''%'')"
  by (simp_all add: pct_encode_byte_def)

lemma percent_not_hex: "\<not> is_ascii_hexdigit (CHR ''%'')"
  by code_simp

lemma escape_at_location:
  assumes "escape_at (c # s) = None"
  shows "escape_at (c # encode_location s) = None"
proof (cases "c = CHR ''%''")
  case c: True
  show ?thesis
  proof (cases s)
    case Nil
    then show ?thesis by (simp add: escape_at_def)
  next
    case s: (Cons h t)
    show ?thesis
    proof (cases "byte h < 128 \<and> is_ascii_hexdigit h")
      case False
      then have "\<not> is_ascii_hexdigit (hd (encode_location s))" using percent_not_hex by (auto simp: s pct_encode_byte_def)
      then show ?thesis by (cases "encode_location s") (auto simp: escape_at_def split: list.splits)
    next
      case h: True
      show ?thesis
      proof (cases t)
        case Nil
        then show ?thesis using h by (simp add: s escape_at_def)
      next
        case t: (Cons l r)
        then have "\<not> is_ascii_hexdigit l" using assms h c by (auto simp: s escape_at_def split: if_splits)
        then show ?thesis using h percent_not_hex by (auto simp: s t escape_at_def pct_encode_byte_def)
      qed
    qed
  qed
qed simp

lemma decode_encode_location: "percent_decode_path_loop (encode_location s) = percent_decode_path_loop s"
proof (induction s rule: escape_induct)
  case (Escape h l r)
  have "byte h < 128" "byte l < 128" using Escape(1,2) by (simp_all add: byte_simps, linarith+)
  then show ?case using Escape by (simp add: byte_simps)
next
  case (Plain c r)
  then show ?case using escape_at_location [OF Plain(1)]
    by (cases "byte c < 128") (simp_all add: pct_encode_byte_def)
qed simp

lemma has_control_ascii: "\<not> has_control s \<Longrightarrow> c \<in> set s \<Longrightarrow> 32 \<le> byte c \<and> byte c \<noteq> 127"
  by (induction s rule: has_control.induct) auto

lemma encode_location_visible: "\<not> has_control s \<Longrightarrow> c \<in> set (encode_location s) \<Longrightarrow> 32 \<le> byte c \<and> byte c < 127"
proof -
  assume s: "\<not> has_control s" and "c \<in> set (encode_location s)"
  then obtain d where d: "d \<in> set s" "c \<in> set (if byte d < 128 then [d] else pct_encode_byte d)"
    by (auto simp: encode_location_def)
  have hex: "33 \<le> byte (HEX n) \<and> byte (HEX n) < 127" if "n < 16" for n
    using that by (simp add: HEX_unfold)
  show "32 \<le> byte c \<and> byte c < 127"
  proof (cases "byte d < 128")
    case True
    then show ?thesis using d has_control_ascii [OF s d(1)] by auto
  next
    case False
    then have "c = CHR ''%'' \<or> c = HEX (byte d div 16) \<or> c = HEX (byte d mod 16)" using d by (auto simp: pct_encode_byte_def)
    then show ?thesis using hex [of "byte d div 16"] hex [of "byte d mod 16"] by auto
  qed
qed

text \<open>
  A redirect of a loader goes where it says or nowhere: its target becomes a header value exactly when it holds no
  control character, the value is printable ASCII (so it can neither end the header nor carry another), and it
  percent-decodes to what the target decodes to.
\<close>

theorem location_header_safe:
  assumes "http_headers h"
  shows "case location_header h s of
      None \<Rightarrow> has_control s
    | Some v \<Rightarrow> \<not> has_control s \<and> list_all (\<lambda>c. 32 \<le> byte c \<and> byte c < 127) v \<and>
        percent_decode_path_loop v = percent_decode_path_loop s"
proof (cases "has_control s")
  case False
  have vis: "list_all (\<lambda>c. 32 \<le> byte c \<and> byte c < 127) (encode_location s)"
    using encode_location_visible [OF False] by (auto simp: list_all_iff)
  then have "list_all header_visible (encode_location s)" by (auto simp: list_all_iff header_visible_def)
  then have "value_from_str h (encode_location s) = Some (encode_location s)"
    by (simp add: http_headers.value_from_str_iff [OF assms])
  then show ?thesis
    using False vis by (simp add: location_header_def encode_location_def [symmetric] decode_encode_location Let_def)
qed (simp add: location_header_def)

theorem location_header_safe_witness:
  "location_header list_http ''/a'' = Some ''/a'' \<and> location_header list_http [CHR ''/'', CHR 0x0A] = None"
  using location_header_safe [OF list_headers.http_headers_axioms, of "[CHR ''/'', CHR 0x0A]"]
  by (auto simp: location_header_def list_http_def header_visible_def split: option.splits)

section \<open>What the loader's data may write\<close>

lemma merge_fold:
  "map_of (fold (\<lambda>(k, v) ctx. if is_server_slot k then ctx else bm_insert k v ctx) m ctx) n =
     (if is_server_slot n then map_of ctx n else (map_of ctx ++ map_of (rev m)) n)"
proof (induction m arbitrary: ctx)
  case (Cons kv m)
  obtain k v where kv: "kv = (k, v)" by fastforce
  show ?case
    by (simp add: kv Cons.IH) (auto simp: map_add_def split: option.splits)
qed simp



section \<open>A planned loader call is the declined one\<close>

abbreviation stripped :: "'n job_plan \<Rightarrow> 'n job_plan" where
  "stripped p \<equiv> p\<lparr>pl_inputs := NNull\<rparr>"

lemma check_stripped [simp]:
  "check_value (stripped p) v = check_value p v" "note_missing_slots (stripped p) v slots = note_missing_slots p v slots"
  by (simp_all add: check_value_def note_missing_slots_def cong: option.case_cong job_kind.case_cong)

lemma check_results_stripped: "check_results (map (\<lambda>(p, v). (stripped p, v)) pvs) s = check_results pvs s"
  by (induction pvs s rule: check_results.induct) simp_all

lemma store_results_stripped:
  "\<forall>i\<in>snd ` set vis. i < length plans \<Longrightarrow>
   store_results since now (map stripped plans) vis rejected vals cache = store_results since now plans vis rejected vals cache"
  by (induction since now plans vis rejected vals cache rule: store_results.induct) (simp_all add: Let_def split: prod.split)

lemma apply_job_results_stripped:
  assumes "set (lk_misses lk) \<subseteq> {i. i < length plans}"
  shows "apply_job_results since now (map stripped plans) lk ids results s = apply_job_results since now plans lk ids results s"
proof -
  have "map (\<lambda>i. map stripped plans ! i) (lk_misses lk) = map stripped (map (\<lambda>i. plans ! i) (lk_misses lk))"
    using assms by auto
  then have z: "zip (map (\<lambda>i. map stripped plans ! i) (lk_misses lk)) fresh =
      map (\<lambda>(p, v). (stripped p, v)) (zip (map (\<lambda>i. plans ! i) (lk_misses lk)) fresh)" for fresh
    by (simp add: zip_map1 del: map_map)
  have c: "check_results (zip (map (\<lambda>i. map stripped plans ! i) (lk_misses lk)) fresh) s =
      check_results (zip (map (\<lambda>i. plans ! i) (lk_misses lk)) fresh) s" for fresh s
    unfolding z by (rule check_results_stripped)
  have "store_results since now (map stripped plans) (zip fresh (lk_misses lk)) False vals cache =
      store_results since now plans (zip fresh (lk_misses lk)) False vals cache" for fresh vals cache
    by (rule store_results_stripped) (use assms in \<open>auto dest: set_zip_rightD\<close>)
  then show ?thesis by (simp only: apply_job_results_def c length_map)
qed

lemma instance_row_stripped [simp]: "instance_row (stripped p) = instance_row p"
  by (simp add: instance_row_def)

lemma merge_result_stripped [simp]: "merge_result (stripped p) v m = merge_result p v m"
proof -
  have "merge_output (stripped p) v = merge_output p v"
    by (simp add: fun_eq_iff merge_output_def cong: option.case_cong)
  then show ?thesis by (simp add: merge_result_def merge_legacy_def cong: dest.case_cong)
qed

lemma merge_values_stripped: "merge_values (map stripped plans) vals ctx = merge_values plans vals ctx"
proof -
  have "fold (\<lambda>(p, v) m. case v of Some v \<Rightarrow> merge_result p v m | None \<Rightarrow> m) (zip (map stripped plans) vals) m =
      fold (\<lambda>(p, v) m. case v of Some v \<Rightarrow> merge_result p v m | None \<Rightarrow> m) (zip plans vals) m" for m
    by (induction plans vals arbitrary: m rule: list_induct2') (simp_all split: option.split)
  then show ?thesis by (simp add: merge_values_def)
qed

text \<open>
  C13: Planning inside the loader call is planning after it. When the plan of a call is taken, the context, the plans and
  the lookup are what the page would have made of the same answer itself; the rows kept across the call stand for the
  plans in everything that follows: the ids of the calls, the check and storage of the results, and the values merged.
\<close>

theorem planned_call_equals_declined:
  assumes "plan_response env px read print route base bytes now cache = (Some (pc, json), cache')"
  shows "\<exists>data headers snap plans.
    read bytes = Some (LOk True data headers snap) \<and> pc_headers pc = headers \<and>
    pc_ctx pc = node_map (merge_loader_response data snap base) \<and>
    collect_jobs env px (rr_chain route) (pc_ctx pc) = Inr plans \<and>
    lookup_jobs now plans cache = (pc_lookup pc, cache') \<and>
    pc_call_ids pc = map jc_id (jobs_request plans (lk_misses (pc_lookup pc))) \<and>
    apply_job_results since now' (rehydrate px (pc_rows pc)) (pc_lookup pc) ids results s =
      apply_job_results since now' plans (pc_lookup pc) ids results s \<and>
    merge_values (rehydrate px (pc_rows pc)) vals ctx = merge_values plans vals ctx"
proof -
  obtain data headers snap where r: "read bytes = Some (LOk True data headers snap)"
    using assms by (auto simp: plan_response_def split: option.splits loader_response.splits bool.splits)
  let ?ctx = "node_map (merge_loader_response data snap base)"
  obtain plans where p: "collect_jobs env px (rr_chain route) ?ctx = Inr plans"
    using assms r by (auto simp: plan_response_def Let_def split: sum.splits)
  obtain lookup cache'' where l: "lookup_jobs now plans cache = (lookup, cache'')" by fastforce
  have pc: "pc = \<lparr>pc_ctx = ?ctx, pc_headers = headers, pc_rows = map to_row plans, pc_lookup = lookup,
      pc_call_ids = map jc_id (jobs_request plans (lk_misses lookup))\<rparr> \<and> cache'' = cache'"
    using assms r p l by (auto simp: plan_response_def Let_def jobs_request_def split: if_splits option.splits)
  have "set (lk_misses lookup) \<subseteq> {i. i < length plans}" using lookup_jobs_spec(4) [OF l] by auto
  then show ?thesis
    using r p l pc rehydrate_rows [OF p]
    by (intro exI [of _ data] exI [of _ headers] exI [of _ snap] exI [of _ plans])
      (simp add: apply_job_results_stripped merge_values_stripped)
qed


definition demo_record :: route_record where
  "demo_record = \<lparr>rr_id = ''r'', rr_pattern = ''/'', rr_chain = [''c''], rr_loaders = [''l''],
     rr_cache = Some \<lparr>rch_ttl_seconds = 60, rch_prefix = Some ''cookie(\"lang\")'', rch_bypass = None, rch_tags = [''t'']\<rparr>,
     rr_catch_all = False, rr_css = []\<rparr>"

definition demo_read :: "string \<Rightarrow> nat loader_response option" where
  "demo_read bytes = Some (LOk True (node_map [(''x'', NStr ''1'')]) [] None)"

lemma demo_merged: "merge_loader_response (node_map [(''x'', NStr ''1'')]) None [] = [(''x'', NStr ''1'')]"
  by (simp add: merge_loader_response_def merge_loader_data_def node_map_def is_server_slot_def CHILDREN_KEY_def OWN_KEY_def
      PROPS_KEY_def STORE_KEY_def starts_with_def numbered_def is_instance_dict_def)

lemma demo_collected: "collect_jobs demo_env demo_index [''c''] (node_map [(''x'', NStr ''1'')]) = Inr demo_plans"
proof -
  have "demo_plans \<noteq> []" using demo_plans_two by auto
  then show ?thesis by (auto simp: demo_plans_def split: sum.splits)
qed

theorem planned_call_equals_declined_witness:
  "\<exists>ctx plans. collect_jobs demo_env demo_index [''c''] ctx = Inr plans \<and>
     ctx = node_map (merge_loader_response (node_map [(''x'', NStr ''1'')]) None [])"
proof -
  obtain lookup cache' where l: "lookup_jobs 0 demo_plans (jobs_with_limits 4 (\<lambda>_. 0)) = (lookup, cache')" by fastforce
  then obtain pc json where p: "plan_response demo_env demo_index demo_read (\<lambda>_. Some ''{}'') demo_record [] [] 0
      (jobs_with_limits 4 (\<lambda>_. 0)) = (Some (pc, json), cache')"
    using demo_collected
    by (cases "lk_misses lookup = []") (auto simp: plan_response_def demo_read_def demo_record_def demo_merged Let_def)
  from planned_call_equals_declined [OF p, of 0 0 "[]" "[]" undefined "[]" NNull]
  show ?thesis by (auto simp: demo_read_def demo_record_def)
qed

definition demo_table :: "unit route_table" where
  "demo_table = \<lparr>tb_router = (), tb_cache_configs = [rr_cache demo_record],
     tb_compiled_caches = [\<lparr>cc_prefix = Some (Cookie ''lang''), cc_bypass = None\<rparr>], tb_not_found_table = []\<rparr>"

lemma demo_decision:
  "l1_decision demo_table False 0 demo_record ''/'' [(''cookie'', ''lang=en;lang=th'')] [] =
     (Some \<lparr>key_prefix = ''th'', key_method = ''GET'', key_path = ''/'', key_query = []\<rparr>, OutMiss, None)"
proof -
  have "cookie_pairs ''lang=en;lang=th'' = [(''lang'', ''en''), (''lang'', ''th'')]"
    by (simp add: cookie_pairs_def trim_plain all_ascii_def ascii_ws_def)
  moreover have "normalize_request_path ''/'' = ''/''" by code_simp
  moreover have "from_utf8_or_default ''lang=en;lang=th'' = ''lang=en;lang=th''" by code_simp
  ultimately show ?thesis
    by (simp add: l1_decision_def demo_record_def query_of_def compiled_cache_for_def demo_table_def key_header_pairs_def
        key_cookie_pairs_def key_ctx_def last_wins_def last_wins_step_def build_cache_key_def sort_query_def lookup_def
        eq_ignore_ascii_case_def)
qed

theorem l1_key_sees_loader_witness:
  "\<exists>ctx. ''th'' = eval (Cookie ''lang'') ctx \<and> ec_params ctx = [] \<and>
     sees (\<lambda>_. True) (ec_cookies ctx)
       (re_cookies (ro_req (into_envelope \<lparr>rm_route_id = 0, rm_not_found = False, rm_params = []\<rparr> ''GET'' ''/''
          [(''cookie'', ''lang=en;lang=th'')] None)))"
  using l1_key_sees_loader [where m = "\<lparr>rm_route_id = 0, rm_not_found = False, rm_params = []\<rparr>",
      unfolded route_match.select_convs, OF demo_decision, of "\<lparr>cc_prefix = Some (Cookie ''lang''), cc_bypass = None\<rparr>" "Cookie ''lang''",
      OF _ _ refl]
  by (auto simp: demo_table_def compiled_cache_for_def into_envelope_def)

end
