(* ===== verification/Page.thy ===== *)
theory Page
  imports PageParts
begin

text \<open>
  The page path (\<^verbatim>\<open>page\<close>, \<^verbatim>\<open>l2_read\<close>, \<^verbatim>\<open>l2_write_back\<close>, \<^verbatim>\<open>render_document\<close> of
  \<^verbatim>\<open>crates/brust-core/src/pipeline.rs\<close>), in stages cut at its awaits: the match and the page cache, the shared
  cache, the loader call, the jobs call, the render and the store. During an await other requests and invalidations run on
  the same core: what they do to the state is the argument \<open>ho_during\<close>. The answers of the worker and of the adapter, the
  clocks and the thread are fields of the host; the template engine is the argument \<open>si_render\<close>. The development trace
  is not modelled. Durations are nanoseconds.
\<close>

section \<open>State and host\<close>

text \<open>The core with the per-route counters of the page path and the writes handed to the adapter.\<close>

record 'n pages =
  pg_core :: "'n node core"
  pg_offer :: "nat list"
  pg_hints :: "nat list"
  pg_l2_sets :: "(string \<times> l2_page \<times> l2_set_meta) list"

record page_meta =
  pm_route :: "nat option"
  pm_cache :: cache_outcome
  pm_bun_calls :: nat

record 'n loader_request =
  lr_route_id :: string
  lr_params :: "string btree"
  lr_path :: string
  lr_req :: request_envelope
  lr_plan :: bool

record l2_probe =
  lp_key :: string
  lp_path :: string
  lp_tags :: "string list"

text \<open>The awaits, and the points where the page reads the host's clock.\<close>

datatype await_point = AwaitL2 | AwaitLoader | AwaitJobs

datatype clock_point = AtProbe | AtL2Insert | AtLookup | AtJobInsert | AtPageInsert

record 'n page_host =
  ho_plan_offer :: bool
  ho_l2_get :: "l2_probe \<Rightarrow> l2_lookup"
  ho_loader :: "'n loader_request \<Rightarrow> 'n plan_seed option \<Rightarrow> (call_error, 'n loader_response \<times> 'n planned_call option) result"
  ho_jobs :: "'n job_call list \<Rightarrow> (call_error, 'n job_result list) result"
  ho_wall_ms :: nat
  ho_now :: "clock_point \<Rightarrow> nat"
  ho_thread :: nat
  ho_during :: "await_point \<Rightarrow> 'n pages \<Rightarrow> 'n pages"

record ('r, 'n, 'f, 'x) site =
  si_http :: "header_list http_api"
  si_router :: "'r matchit"
  si_percent_decode :: "string \<Rightarrow> string"
  si_routes :: "'r route_table"
  si_records :: "route_record list"
  si_https :: bool
  si_plans :: "('n, 'x) plan_index"
  si_env :: "('n, 'f, 'x) plan_env"
  si_json_string :: "string \<Rightarrow> string"
  si_gzip :: "string \<Rightarrow> string option"
  si_render :: "route_record \<Rightarrow> 'n node \<Rightarrow> string + string"

abbreviation on_core :: "('n node core \<Rightarrow> 'n node core) \<Rightarrow> 'n pages \<Rightarrow> 'n pages" where
  "on_core f st \<equiv> st\<lparr>pg_core := f (pg_core st)\<rparr>"

text \<open>One request: its path, headers, the accepted encodings, the matched route.\<close>

record page_req =
  rq_path_query :: string
  rq_pairs :: header_list
  rq_gzip :: bool
  rq_ri :: nat
  rq_route :: route_record
  rq_match :: route_match

definition seconds :: "nat \<Rightarrow> nat" where
  "seconds n = n * 1000000000"

section \<open>The shared cache\<close>

definition l2_bump :: "string \<Rightarrow> 'n pages \<Rightarrow> 'n pages" where
  "l2_bump name = on_core (\<lambda>c. c\<lparr>co_l2_counters := snd (bump name (co_l2_counters c))\<rparr>)"

definition body_of_l2 :: "header_list http_api \<Rightarrow> l2_page \<Rightarrow> rendered_body" where
  "body_of_l2 h p =
     (let r = page_from_l2 h p
      in \<lparr>rb_status = resp_status r, rb_headers = resp_headers r, rb_html = resp_body r, rb_gzip = None\<rparr>)"

text \<open>\<^verbatim>\<open>L2Read\<close>: a served response, or under which key and stamp to write the render back.\<close>

datatype l2_read_result = Served "header_list response" | WriteBack "(string \<times> nat option) option"

definition l2_read ::
  "('r, 'n, 'f, 'x) site \<Rightarrow> 'n page_host \<Rightarrow> l2_config \<Rightarrow> cache_key \<Rightarrow> route_cache \<Rightarrow> page_req \<Rightarrow> nat \<Rightarrow> 'n pages \<Rightarrow>
   l2_read_result \<times> 'n pages" where
  "l2_read si ho l2 k c rq since st =
     (let key = l2_key_of (pe_hash (si_env si)) l2 k;
          path = path_of (rq_path_query rq);
          answer = ho_l2_get ho \<lparr>lp_key = key, lp_path = path, lp_tags = rch_tags c\<rparr>;
          st = ho_during ho AwaitL2 st
      in case answer of
           L2Hit p stamp entry_stamp stored_at_ms \<Rightarrow>
             if rejects (si_json_string si) (co_l2_floor (pg_core st)) entry_stamp (key_prefix k) path (rch_tags c)
             then (WriteBack (Some (key, stamp)), l2_bump ''rejected_floor'' st)
             else (case remaining_ttl (seconds (rch_ttl_seconds c)) stored_at_ms (ho_wall_ms ho) of
                     None \<Rightarrow> (WriteBack (Some (key, stamp)), l2_bump ''misses'' st)
                   | Some ttl \<Rightarrow>
                       let st = l2_bump ''hits'' st;
                           b = body_of_l2 (si_http si) p;
                           (resp, b') = l2_hit_response (si_http si) (si_gzip si) b (rq_gzip rq);
                           st = on_core (\<lambda>co. co\<lparr>co_l1 :=
                                  snd (l1_insert k b' ttl (rch_tags c) since (ho_now ho AtL2Insert) (co_l1 co))\<rparr>) st
                       in (Served resp, st))
         | L2Miss stamp \<Rightarrow> (WriteBack (Some (key, stamp)), l2_bump ''misses'' st)
         | L2Floor stamp \<Rightarrow> (WriteBack (Some (key, stamp)), l2_bump ''rejected_floor'' st)
         | L2Timeout \<Rightarrow> (WriteBack None, l2_bump ''timeouts'' st)
         | L2Failed _ \<Rightarrow> (WriteBack None, l2_bump ''errors'' st)
         | L2Off \<Rightarrow> (WriteBack None, st))"

definition pairs_of :: "header_list http_api \<Rightarrow> header_list \<Rightarrow> (string \<times> string) list" where
  "pairs_of h hm = List.map_filter (\<lambda>(k, v). map_option (Pair k) (value_to_str h v)) hm"

definition l2_write_back ::
  "('r, 'n, 'f, 'x) site \<Rightarrow> string \<times> nat option \<Rightarrow> rendered_body \<Rightarrow> route_cache \<Rightarrow> string \<Rightarrow> string \<Rightarrow> 'n pages \<Rightarrow> 'n pages" where
  "l2_write_back si w b c full pfx st =
     (case co_l2 (pg_core st) of
        None \<Rightarrow> st
      | Some l2 \<Rightarrow>
          if l2_max_body_bytes l2 < length (rb_html b) then l2_bump ''set_oversize'' st
          else
            let page = \<lparr>l2p_status = rb_status b, l2p_headers = pairs_of (si_http si) (rb_headers b), l2p_body = rb_html b\<rparr>;
                meta = \<lparr>sm_ttl_ms = min (rch_ttl_seconds c * 1000) (u64_mod - 1), sm_tags = rch_tags c, sm_method = ''GET'',
                        sm_path = path_of full, sm_prefix = pfx, sm_stamp = snd w\<rparr>
            in st\<lparr>pg_l2_sets := pg_l2_sets st @ [(fst w, page, meta)]\<rparr>)"

section \<open>The loader call\<close>

record 'n loaded =
  ld_ctx :: "'n map_inner"
  ld_status :: nat
  ld_cacheable :: bool
  ld_extra :: header_list
  ld_planned :: "('n planned_call \<times> 'n job_result list) option"

definition base_ctx :: "page_req \<Rightarrow> (string \<times> string) list \<Rightarrow> 'n map_inner" where
  "base_ctx rq params =
     bm_insert ''path'' (NStr (path_of (rq_path_query rq)))
       (bm_insert ''params'' (node_map (fold (\<lambda>(k, v). bm_insert k (NStr v)) params [])) [])"

definition uncounted :: "(call_error, 'a) result \<Rightarrow> bool" where
  "uncounted r \<longleftrightarrow> (case r of Inl e \<Rightarrow> e = NoWorkers \<or> e = CallTimeout | Inr _ \<Rightarrow> False)"

definition call_failed :: "header_list http_api \<Rightarrow> call_error \<Rightarrow> 'n pages \<Rightarrow> header_list response \<times> 'n pages" where
  "call_failed h e st =
     (if e = NoWorkers \<or> e = CallTimeout then (error_503 h (call_error_text e), st)
      else if e = Deadline
      then (error_504 h ''call deadline exceeded'', on_core (\<lambda>c. c\<lparr>co_timed_out_calls := u64_add (co_timed_out_calls c) 1\<rparr>) st)
      else (error_500 h, st))"

definition count_job_call :: "'n pages \<Rightarrow> 'n pages" where
  "count_job_call = on_core (\<lambda>c. c\<lparr>co_job_calls := u64_add (co_job_calls c) 1\<rparr>)"

text \<open>What an answer makes of the request: a response of its own, or what the render goes on with.\<close>

definition loader_answer ::
  "header_list http_api \<Rightarrow> nat \<Rightarrow> 'n map_inner \<Rightarrow> 'n loader_response \<Rightarrow> 'n planned_call option \<Rightarrow> 'n pages \<Rightarrow>
   (header_list response + 'n loaded) \<times> 'n pages" where
  "loader_answer h status base r cell st =
     (case r of
        LPlanned results \<Rightarrow>
          (case cell of
             None \<Rightarrow> (Inl (error_500 h), st)
           | Some pc \<Rightarrow> (Inr \<lparr>ld_ctx = base, ld_status = status, ld_cacheable = True, ld_extra = [], ld_planned = Some (pc, results)\<rparr>, st))
      | LOk ok data headers snap \<Rightarrow>
          if ok then
            (let (cacheable, extra) = loader_headers h headers []
             in (Inr \<lparr>ld_ctx = merge_loader_response data snap base, ld_status = status, ld_cacheable = cacheable,
                      ld_extra = extra, ld_planned = None\<rparr>, st))
          else (Inl (error_500 h), st)
      | LVerdict (VNotFound data snap headers) \<Rightarrow>
          (Inr \<lparr>ld_ctx = merge_loader_response data snap base, ld_status = 404, ld_cacheable = False,
                ld_extra = snd (loader_headers h headers []), ld_planned = None\<rparr>, st)
      | LVerdict (VRedirect location rstatus headers) \<Rightarrow>
          (case location_header h location of
             None \<Rightarrow> (Inl (error_500 h), st)
           | Some target \<Rightarrow>
               let rstatus = (if 300 \<le> rstatus \<and> rstatus \<le> 308 then rstatus else 302)
               in (Inl (resp h rstatus ''text/plain'' (snd (loader_headers h headers [(''Location'', target)])) []), st))
      | LVerdict (VHttpError estatus body content_type headers) \<Rightarrow>
          if \<not> (400 \<le> estatus \<and> estatus \<le> 599) then (Inl (error_500 h), st)
          else (Inl (resp h estatus (http_error_content_type h content_type) (snd (loader_headers h headers [])) body), st)
      | LError _ \<Rightarrow> (Inl (error_500 h), if cell \<noteq> None then count_job_call st else st))"

definition count_loader_call :: "nat \<Rightarrow> 'n pages \<Rightarrow> 'n pages" where
  "count_loader_call thread =
     on_core (\<lambda>c. c\<lparr>co_loader_calls := counter_incr thread (co_loader_calls c),
                  co_worker_calls := counter_incr thread (co_worker_calls c)\<rparr>)"

definition loader_reply ::
  "('r, 'n, 'f, 'x) site \<Rightarrow> 'n page_host \<Rightarrow> nat \<Rightarrow> 'n map_inner \<Rightarrow>
   (call_error, 'n loader_response \<times> 'n planned_call option) result \<Rightarrow> 'n pages \<Rightarrow>
   (header_list response + 'n loaded) \<times> nat \<times> 'n pages" where
  "loader_reply si ho status base r st =
     (let st = (if uncounted r then st else count_loader_call (ho_thread ho) st);
          calls = (if uncounted r then 0 else 1)
      in case r of
           Inr (v, cell) \<Rightarrow> let (res, st) = loader_answer (si_http si) status base v cell st in (res, calls, st)
         | Inl e \<Rightarrow> let (resp, st) = call_failed (si_http si) e st in (Inl resp, calls, st))"

definition loader_stage ::
  "('r, 'n, 'f, 'x) site \<Rightarrow> 'n page_host \<Rightarrow> page_req \<Rightarrow> (string \<times> string) list option \<Rightarrow> 'n pages \<Rightarrow>
   (header_list response + 'n loaded) \<times> nat \<times> 'n pages" where
  "loader_stage si ho rq search st =
     (let env = into_envelope (rq_match rq) ''GET'' (rq_path_query rq) (rq_pairs rq) search;
          params = fold (\<lambda>(k, v). bm_insert k v) (ro_params env) [];
          base = base_ctx rq params;
          route = rq_route rq;
          status = (if rm_not_found (rq_match rq) then 404 else 200)
      in if rr_loaders route = [] \<and> \<not> chain_has_stores (si_plans si) (rr_chain route)
         then (Inr \<lparr>ld_ctx = base, ld_status = status, ld_cacheable = True, ld_extra = [], ld_planned = None\<rparr>, 0, st)
         else
           let offer = (ho_plan_offer ho \<and> chain_has_jobs (si_plans si) (rr_chain route) \<and> pg_offer st ! rq_ri rq < OFFER_STOP);
               req = \<lparr>lr_route_id = rr_id route, lr_params = params, lr_path = path_of (rq_path_query rq), lr_req = ro_req env,
                      lr_plan = offer\<rparr>;
               seed = (if offer then Some \<lparr>sd_route = rq_ri rq, sd_base = base\<rparr> else None);
               r = ho_loader ho req seed
           in loader_reply si ho status base r (ho_during ho AwaitLoader st))"

section \<open>The jobs\<close>

text \<open>What the render starts from: the context with every job value at hand.\<close>

record 'n planned =
  pn_ctx :: "'n node"
  pn_plans :: "'n job_plan list"
  pn_values :: "'n node option list"
  pn_cacheable :: bool
  pn_extra :: header_list

definition with_results ::
  "('r, 'n, 'f, 'x) site \<Rightarrow> 'n page_host \<Rightarrow> nat \<Rightarrow> 'n node \<Rightarrow> 'n job_plan list \<Rightarrow> 'n job_lookup \<Rightarrow> string list \<Rightarrow>
   'n job_result list \<Rightarrow> bool \<Rightarrow> header_list \<Rightarrow> 'n pages \<Rightarrow> (header_list response + 'n planned) \<times> 'n pages" where
  "with_results si ho since ctx plans lk ids results cacheable extra st =
     (let (r, co) = apply_job_results since (ho_now ho AtJobInsert) plans lk ids results (pg_core st);
          st = st\<lparr>pg_core := co\<rparr>
      in case r of
           None \<Rightarrow> (Inl (error_500 (si_http si)), st)
         | Some (rejected, lk) \<Rightarrow>
             (Inr \<lparr>pn_ctx = ctx, pn_plans = plans, pn_values = lk_values lk, pn_cacheable = cacheable \<and> \<not> rejected,
                   pn_extra = extra\<rparr>, st))"

text \<open>A planned loader call: its headers, its plans, the results that came with it.\<close>

definition planned_jobs ::
  "('r, 'n, 'f, 'x) site \<Rightarrow> 'n page_host \<Rightarrow> page_req \<Rightarrow> nat \<Rightarrow> 'n loaded \<Rightarrow> 'n planned_call \<Rightarrow> 'n job_result list \<Rightarrow>
   'n pages \<Rightarrow> (header_list response + 'n planned) \<times> 'n pages" where
  "planned_jobs si ho rq since ld pc results st =
     (let (ok, extra) = loader_headers (si_http si) (pc_headers pc) (ld_extra ld);
          cacheable = (ld_cacheable ld \<and> ok);
          plans = rehydrate (si_plans si) (pc_rows pc);
          lk = pc_lookup pc; ri = rq_ri rq;
          st = st\<lparr>pg_offer := (pg_offer st)[ri := note_planned_outcome (lk_misses lk = []) (pg_offer st ! ri)]\<rparr>
      in if lk_misses lk = []
         then (Inr \<lparr>pn_ctx = pc_ctx pc, pn_plans = plans, pn_values = lk_values lk, pn_cacheable = cacheable,
                    pn_extra = extra\<rparr>, st)
         else with_results si ho since (pc_ctx pc) plans lk (pc_call_ids pc) results cacheable extra (count_job_call st))"

text \<open>The answer of the jobs call.\<close>

definition jobs_reply ::
  "('r, 'n, 'f, 'x) site \<Rightarrow> 'n page_host \<Rightarrow> nat \<Rightarrow> 'n node \<Rightarrow> 'n job_plan list \<Rightarrow> 'n job_lookup \<Rightarrow> string list \<Rightarrow> 'n loaded \<Rightarrow>
   (call_error, 'n job_result list) result \<Rightarrow> 'n pages \<Rightarrow> (header_list response + 'n planned) \<times> nat \<times> 'n pages" where
  "jobs_reply si ho since ctx plans lk ids ld r st =
     (let st = (if uncounted r then st
                else on_core (\<lambda>c. c\<lparr>co_worker_calls := counter_incr (ho_thread ho) (co_worker_calls c)\<rparr>) (count_job_call st));
          calls = (if uncounted r then 0 else 1)
      in case r of
           Inl e \<Rightarrow> let (resp, st) = call_failed (si_http si) e st in (Inl resp, calls, st)
         | Inr results \<Rightarrow>
             let (r, st) = with_results si ho since ctx plans lk ids results (ld_cacheable ld) (ld_extra ld) st
             in (r, calls, st))"

definition jobs_stage ::
  "('r, 'n, 'f, 'x) site \<Rightarrow> 'n page_host \<Rightarrow> page_req \<Rightarrow> nat \<Rightarrow> 'n loaded \<Rightarrow> 'n pages \<Rightarrow>
   (header_list response + 'n planned) \<times> nat \<times> 'n pages" where
  "jobs_stage si ho rq since ld st =
     (case ld_planned ld of
        Some (pc, results) \<Rightarrow> let (r, st) = planned_jobs si ho rq since ld pc results st in (r, 0, st)
      | None \<Rightarrow>
          let ctx = node_map (ld_ctx ld)
          in (case collect_jobs (si_env si) (si_plans si) (rr_chain (rq_route rq)) ctx of
                Inl _ \<Rightarrow> (Inl (error_500 (si_http si)), 0, st)
              | Inr plans \<Rightarrow>
                  let (lk, jobs) = lookup_jobs (ho_now ho AtLookup) plans (co_jobs (pg_core st));
                      st = on_core (\<lambda>c. c\<lparr>co_jobs := jobs\<rparr>) st
                  in if lk_misses lk = []
                     then (Inr \<lparr>pn_ctx = ctx, pn_plans = plans, pn_values = lk_values lk,
                                pn_cacheable = ld_cacheable ld, pn_extra = ld_extra ld\<rparr>, 0, st)
                     else
                       let st = st\<lparr>pg_offer := (pg_offer st)[rq_ri rq := 0]\<rparr>;
                           req = jobs_request plans (lk_misses lk)
                       in jobs_reply si ho since ctx plans lk (map jc_id req) ld (ho_jobs ho req) (ho_during ho AwaitJobs st)))"

section \<open>The render and the store\<close>

text \<open>\<^verbatim>\<open>render_document\<close> keeps the size of the document as the next render's buffer hint.\<close>

definition render_document ::
  "('r, 'n, 'f, 'x) site \<Rightarrow> page_req \<Rightarrow> 'n node \<Rightarrow> 'n pages \<Rightarrow> (string + string) \<times> 'n pages" where
  "render_document si rq ctx st =
     (case si_render si (rq_route rq) ctx of
        Inl e \<Rightarrow> (Inl e, st)
      | Inr html \<Rightarrow> (Inr html, st\<lparr>pg_hints := (pg_hints st)[rq_ri rq := next_hint (length html)]\<rparr>))"

definition store_page ::
  "('r, 'n, 'f, 'x) site \<Rightarrow> 'n page_host \<Rightarrow> page_req \<Rightarrow> nat \<Rightarrow> cache_key \<Rightarrow> rendered_body \<Rightarrow> route_cache \<Rightarrow>
   (string \<times> nat option) option \<Rightarrow> 'n pages \<Rightarrow> 'n pages" where
  "store_page si ho rq since k body c w st =
     (let (landed, l1) = l1_insert k body (seconds (rch_ttl_seconds c)) (rch_tags c) since (ho_now ho AtPageInsert) (co_l1 (pg_core st));
          st = on_core (\<lambda>co. co\<lparr>co_l1 := l1\<rparr>) st
      in case w of
           Some w \<Rightarrow> if landed then l2_write_back si w body c (rq_path_query rq) (key_prefix k) st else st
         | None \<Rightarrow> st)"

definition storable :: "cache_key option \<Rightarrow> nat \<Rightarrow> bool \<Rightarrow> route_record \<Rightarrow> bool" where
  "storable key status cacheable route \<longleftrightarrow> key \<noteq> None \<and> status = 200 \<and> cacheable \<and> rr_cache route \<noteq> None"

definition finish_stage ::
  "('r, 'n, 'f, 'x) site \<Rightarrow> 'n page_host \<Rightarrow> page_req \<Rightarrow> nat \<Rightarrow> cache_key option \<Rightarrow> cache_outcome \<Rightarrow>
   (string \<times> nat option) option \<Rightarrow> nat \<Rightarrow> 'n planned \<Rightarrow> 'n pages \<Rightarrow> header_list response \<times> 'n pages" where
  "finish_stage si ho rq since key oc w status pn st =
     (let h = si_http si; route = rq_route rq
      in case seed_child_slots (si_plans si) (rr_id route) (rr_chain route) (pn_ctx pn) of
           Inl _ \<Rightarrow> (error_500 h, st)
         | Inr ctx \<Rightarrow>
             let ctx = merge_values (pn_plans pn) (pn_values pn) ctx;
                 hdr = (case oc of OutMiss \<Rightarrow> Some ''MISS'' | OutBypass \<Rightarrow> Some ''BYPASS'' | _ \<Rightarrow> None);
                 (rendered, st) = render_document si rq ctx st
             in (case rendered of
                   Inl _ \<Rightarrow> (error_500 h, st)
                 | Inr html \<Rightarrow>
                     let keep = storable key status (pn_cacheable pn) route;
                         hm = header_map h HTML (pn_extra pn);
                         body = \<lparr>rb_status = status, rb_headers = (if keep then hm else hm_new h), rb_html = html, rb_gzip = None\<rparr>;
                         ((bytes, encoded), body) = cached_body (si_gzip si) body (rq_gzip rq);
                         resp = page_response h status hm (length html) bytes encoded hdr
                     in (resp, case (keep, key, rr_cache route) of
                           (True, Some k, Some c) \<Rightarrow> store_page si ho rq since k body c w st
                         | _ \<Rightarrow> st)))"

section \<open>A page request\<close>

definition accept_encoding :: "header_list http_api \<Rightarrow> header_list \<Rightarrow> string option" where
  "accept_encoding h headers = map_option trim (Option.bind (map_of headers ''accept-encoding'') (value_to_str h))"

text \<open>The read-through of a cacheable route.\<close>

definition l2_stage ::
  "('r, 'n, 'f, 'x) site \<Rightarrow> 'n page_host \<Rightarrow> page_req \<Rightarrow> cache_key option \<Rightarrow> nat \<Rightarrow> 'n pages \<Rightarrow> l2_read_result \<times> 'n pages" where
  "l2_stage si ho rq key since st =
     (case (co_l2 (pg_core st), key, rr_cache (rq_route rq)) of
        (Some l2, Some k, Some c) \<Rightarrow> l2_read si ho l2 k c rq since st
      | _ \<Rightarrow> (WriteBack None, st))"

text \<open>After the page cache missed: everything under one read stamp.\<close>

definition page_miss ::
  "('r, 'n, 'f, 'x) site \<Rightarrow> 'n page_host \<Rightarrow> page_req \<Rightarrow> cache_key option \<Rightarrow> cache_outcome \<Rightarrow>
   (string \<times> string) list option \<Rightarrow> 'n pages \<Rightarrow> header_list response \<times> cache_outcome \<times> nat \<times> 'n pages" where
  "page_miss si ho rq key oc search st =
     (let since = clock_stamp (co_clock (pg_core st));
          (l2, st) = l2_stage si ho rq key since st
      in case l2 of
           Served r \<Rightarrow> (r, OutHitL2, 0, st)
         | WriteBack w \<Rightarrow>
             let (lo, n1, st) = loader_stage si ho rq search st
             in (case lo of
                   Inl r \<Rightarrow> (r, oc, n1, st)
                 | Inr ld \<Rightarrow>
                     let (jo, n2, st) = jobs_stage si ho rq since ld st
                     in (case jo of
                           Inl r \<Rightarrow> (r, oc, n1 + n2, st)
                         | Inr pn \<Rightarrow>
                             let (r, st) = finish_stage si ho rq since key oc w (ld_status ld) pn st
                             in (r, oc, n1 + n2, st))))"

definition page ::
  "('r, 'n, 'f, 'x) site \<Rightarrow> 'n page_host \<Rightarrow> string \<Rightarrow> header_list \<Rightarrow> 'n pages \<Rightarrow>
   (header_list response \<times> page_meta) \<times> 'n pages" where
  "page si ho full headers st =
     (case match_route (si_router si) (si_percent_decode si) (si_routes si) full of
        None \<Rightarrow> ((error_404 (si_http si), \<lparr>pm_route = None, pm_cache = OutNone, pm_bun_calls = 0\<rparr>), st)
      | Some rm \<Rightarrow>
          let ri = route_index (rm_route_id rm); route = si_records si ! ri;
              rq = \<lparr>rq_path_query = full, rq_pairs = headers, rq_gzip = accepts_gzip (accept_encoding (si_http si) headers),
                    rq_ri = ri, rq_route = route, rq_match = rm\<rparr>;
              (key, oc, search) = l1_decision (si_routes si) (si_https si) (rm_route_id rm) route full headers (rm_params rm);
              (hit, l1) = (case key of
                             Some k \<Rightarrow> l1_probe (si_http si) (si_gzip si) (rq_gzip rq) k (ho_now ho AtProbe) (co_l1 (pg_core st))
                           | None \<Rightarrow> (None, co_l1 (pg_core st)));
              st = on_core (\<lambda>c. c\<lparr>co_l1 := l1\<rparr>) st
          in (case hit of
                Some r \<Rightarrow> ((r, \<lparr>pm_route = Some ri, pm_cache = OutHit, pm_bun_calls = 0\<rparr>), st)
              | None \<Rightarrow>
                  let (r, oc, calls, st) = page_miss si ho rq key oc search st
                  in ((r, \<lparr>pm_route = Some ri, pm_cache = oc, pm_bun_calls = calls\<rparr>), st)))"


section \<open>A page as a user of the core\<close>

text \<open>The caches and the clock after \<open>ops\<close>; everything else of the core may differ.\<close>

definition reach :: "(string \<Rightarrow> string) \<Rightarrow> 'n core \<Rightarrow> 'n core_op list \<Rightarrow> 'n core \<Rightarrow> bool" where
  "reach js c ops d \<longleftrightarrow> same_caches d (core_run js ops c)"

lemma same_caches_trans: "same_caches a b \<Longrightarrow> same_caches b c \<Longrightarrow> same_caches a c"
  by (simp add: same_caches_def)

lemma same_caches_sym: "same_caches a b \<Longrightarrow> same_caches b a"
  by (simp add: same_caches_def)

lemma core_run_same: "same_caches c d \<Longrightarrow> same_caches (core_run js ops c) (core_run js ops d)"
  using core_run_calls [of js ops c] core_run_calls [of js ops d] fold_on_cache_same [of c d "all_calls ops"]
  by (meson same_caches_sym same_caches_trans)

lemma reach_frame [simp]: "same_caches d c \<Longrightarrow> reach js c [] d"
  by (simp add: reach_def core_run_def)

lemma reach_trans: "reach js c xs d \<Longrightarrow> reach js d ys e \<Longrightarrow> reach js c (xs @ ys) e"
  unfolding reach_def using core_run_same [of d "core_run js xs c" js ys] by (simp add: core_run_def) (metis same_caches_trans)

lemma reach_cons: "reach js c [x] d \<Longrightarrow> reach js d ys e \<Longrightarrow> reach js c (x # ys) e"
  using reach_trans [of js c "[x]" d ys e] by simp

lemma reach_same: "reach js c xs d \<Longrightarrow> same_caches e d \<Longrightarrow> reach js c xs e"
  unfolding reach_def by (metis same_caches_trans)

text \<open>The calls a page makes itself, all under its read stamp; \<open>P\<close> says what it may insert into the page cache.\<close>

fun own :: "(cache_key \<Rightarrow> rendered_body \<Rightarrow> nat \<Rightarrow> string list \<Rightarrow> bool) \<Rightarrow> nat \<Rightarrow> 'n core_op \<Rightarrow> bool" where
  "own P since (PageInsert k b ttl tags s _) \<longleftrightarrow> s = since \<and> P k b ttl tags"
| "own P since (JobInsert _ _ _ _ _ s _) \<longleftrightarrow> s = since"
| "own P since (JobGet _ _) \<longleftrightarrow> True"
| "own P since _ \<longleftrightarrow> False"

lemma reach_page_insert:
  "reach js c [PageInsert k b ttl tags since now] (c\<lparr>co_l1 := snd (l1_insert k b ttl tags since now (co_l1 c))\<rparr>)"
  by (simp add: reach_def same_caches_def core_run_def on_l1_def Let_def case_prod_beta)

lemma reach_lookup:
  "reach js c (map (\<lambda>k. JobGet k now) ks) (c\<lparr>co_jobs := snd (lookup_values now ks (co_jobs c))\<rparr>)"
proof (induction ks arbitrary: c)
  case (Cons k ks)
  let ?d = "c\<lparr>co_jobs := snd (jobs_get k now (co_jobs c))\<rparr>"
  have "reach js c [JobGet k now] ?d"
    by (simp add: reach_def same_caches_def core_run_def on_jobs_def Let_def case_prod_beta)
  from reach_trans [OF this Cons.IH [of ?d]] show ?case by (simp add: Let_def case_prod_beta)
qed (simp add: same_caches_def)

lemma reach_store_results:
  "\<exists>ops. list_all (own P since) ops \<and>
    reach js c ops (c\<lparr>co_jobs := snd (snd (store_results since now plans vis rejected vals (co_jobs c)))\<rparr>)"
proof (induction vis arbitrary: rejected vals c)
  case Nil
  have "same_caches (c\<lparr>co_jobs := co_jobs c\<rparr>) c" by (simp add: same_caches_def)
  then show ?case by (intro exI [of _ "[]"]) (simp del: core.update_convs core.surjective)
next
  case (Cons vi vis)
  obtain v i where vi: "vi = (v, i)" by fastforce
  let ?p = "plans ! i"
  let ?op = "JobInsert (pl_key ?p) v (map_option (\<lambda>t. t * 1000000000) (pl_ttl ?p)) (pl_tags ?p) (pl_user_key ?p) since now"
  obtain landed cache where ins: "jobs_insert (pl_key ?p) v (map_option (\<lambda>t. t * 1000000000) (pl_ttl ?p)) (pl_tags ?p) (pl_user_key ?p)
      since now (co_jobs c) = (landed, cache)" by fastforce
  have one: "reach js c [?op] (c\<lparr>co_jobs := cache\<rparr>)"
    by (simp add: reach_def same_caches_def core_run_def on_jobs_def Let_def case_prod_beta ins)
  obtain ops where ops: "list_all (own P since) ops" "reach js (c\<lparr>co_jobs := cache\<rparr>) ops
      (c\<lparr>co_jobs := snd (snd (store_results since now plans vis (rejected \<or> \<not> landed) (vals[i := Some v]) cache))\<rparr>)"
    using Cons.IH [of "c\<lparr>co_jobs := cache\<rparr>" "rejected \<or> \<not> landed" "vals[i := Some v]"] by auto
  show ?case
    using reach_cons [OF one ops(2)] ops(1) by (intro exI [of _ "?op # ops"]) (simp add: vi ins Let_def)
qed

lemma check_results_same: "same_caches (snd (check_results pvs s)) s"
  by (induction pvs s rule: check_results.induct) (auto simp: same_caches_def)

lemma reach_apply_results:
  assumes "apply_job_results since now plans lk ids results c = (r, d)"
  shows "\<exists>ops. list_all (own P since) ops \<and> reach js c ops d"
proof (cases "results_in_request_order ids results")
  case (Inl e)
  then have "d = c" using assms by (simp add: apply_job_results_def)
  then show ?thesis by (intro exI [of _ "[]"]) (simp add: same_caches_def)
next
  case (Inr fresh)
  obtain fits c1 where ch: "check_results (zip (map (\<lambda>i. plans ! i) (lk_misses lk)) fresh) c = (fits, c1)" by fastforce
  have same: "same_caches c1 c" using check_results_same ch by (metis snd_conv)
  show ?thesis
  proof (cases fits)
    case False
    then have "d = c1" using assms Inr ch by (simp add: apply_job_results_def)
    then show ?thesis using same by (intro exI [of _ "[]"]) simp
  next
    case True
    have d: "d = c1\<lparr>co_jobs := snd (snd (store_results since now plans (zip fresh (lk_misses lk)) False (lk_values lk) (co_jobs c1)))\<rparr>"
      using assms Inr ch True by (auto simp: apply_job_results_def Let_def split: prod.splits)
    obtain ops where "list_all (own P since) ops" "reach js c1 ops d"
      using reach_store_results unfolding d by blast
    moreover have "reach js c [] c1" using same by simp
    ultimately show ?thesis using reach_trans [of js c "[]" c1 ops d] by (intro exI [of _ ops]) simp
  qed
qed


text \<open>While a page waits, other requests and invalidations run the core operations \<open>oth\<close>.\<close>

definition runs_meanwhile :: "(string \<Rightarrow> string) \<Rightarrow> 'n page_host \<Rightarrow> (await_point \<Rightarrow> 'n node core_op list) \<Rightarrow> bool" where
  "runs_meanwhile js ho oth \<longleftrightarrow> (\<forall>p st. reach js (pg_core st) (oth p) (pg_core (ho_during ho p st)))"

lemma reach_to_same: "same_caches e d \<Longrightarrow> reach js c xs d \<Longrightarrow> reach js c xs e"
  by (rule reach_same)

lemma bump_same [simp]: "same_caches (pg_core (l2_bump name st)) (pg_core st)"
  by (simp add: l2_bump_def same_caches_def)

lemma count_same [simp]: "same_caches (pg_core (count_job_call st)) (pg_core st)"
  by (simp add: count_job_call_def same_caches_def)

lemma call_failed_same: "same_caches (pg_core (snd (call_failed h e st))) (pg_core st)"
  by (simp add: call_failed_def same_caches_def)

lemma loader_answer_same: "same_caches (pg_core (snd (loader_answer h status base r cell st))) (pg_core st)"
  by (auto simp: loader_answer_def same_caches_def count_job_call_def Let_def case_prod_beta
      split: loader_response.split verdict.split option.split)

text \<open>
  What a page may put into the page cache: only under its own key, with its route's tags, for at most its route's time,
  and without a \<^verbatim>\<open>Set-Cookie\<close>.
\<close>

definition page_own ::
  "header_list http_api \<Rightarrow> cache_key option \<Rightarrow> route_record \<Rightarrow> cache_key \<Rightarrow> rendered_body \<Rightarrow> nat \<Rightarrow> string list \<Rightarrow> bool" where
  "page_own h key route k b ttl tags \<longleftrightarrow>
     key = Some k \<and> (\<exists>c. rr_cache route = Some c \<and> tags = rch_tags c \<and> ttl \<le> seconds (rch_ttl_seconds c)) \<and>
     hm_get_all h (rb_headers b) ''set-cookie'' = []"

lemma remaining_ttl_le: "remaining_ttl ttl stored_at now = Some t \<Longrightarrow> t \<le> ttl"
  by (auto simp: remaining_ttl_def Let_def split: option.splits if_splits)

lemma l2_no_cookie:
  assumes "http_headers h"
  shows "hm_get_all h (resp_headers (page_from_l2 h p)) ''set-cookie'' = []"
proof -
  have "hm_get_all h (fold (page_header_step h) xs m) ''set-cookie'' = hm_get_all h m ''set-cookie''" for xs m
    by (induction xs arbitrary: m)
      (auto simp: page_header_step_def http_headers.get_all_append [OF assms] PER_REQUEST_def split: prod.splits option.splits)
  then show ?thesis by (simp add: page_from_l2_def http_headers.get_all_new [OF assms])
qed

lemma cached_body_headers [simp]: "rb_headers (snd (cached_body gz b accepts)) = rb_headers b"
  by (auto simp: cached_body_def Let_def split: option.splits)

lemma hit_body_headers [simp]: "rb_headers (snd (l2_hit_response h gz b accepts)) = rb_headers b"
proof -
  obtain x y b' where c: "cached_body gz b accepts = ((x, y), b')" by (metis prod.exhaust)
  then have "rb_headers b' = rb_headers b" using cached_body_headers [of gz b accepts] by simp
  then show ?thesis by (simp add: l2_hit_response_def body_response_def c)
qed

lemma l2_read_reach:
  assumes "runs_meanwhile js ho oth" and "http_headers (si_http si)" and "rr_cache (rq_route rq) = Some c"
    and "l2_read si ho l2 k c rq since st = (r, st')"
  shows "\<exists>os. length os \<le> 1 \<and> list_all (own (page_own (si_http si) (Some k) (rq_route rq)) since) os \<and>
    reach js (pg_core st) (oth AwaitL2 @ os) (pg_core st')"
proof -
  let ?d = "ho_during ho AwaitL2 st" and ?P = "page_own (si_http si) (Some k) (rq_route rq)"
  have d: "reach js (pg_core st) (oth AwaitL2) (pg_core ?d)" using assms(1) by (simp add: runs_meanwhile_def)
  have bumped: "reach js (pg_core st) (oth AwaitL2) (pg_core (l2_bump name ?d))" for name
    using reach_same [OF d] by simp
  let ?i = "\<lambda>b ttl. on_core (\<lambda>co. co\<lparr>co_l1 := snd (l1_insert k b ttl (rch_tags c) since (ho_now ho AtL2Insert) (co_l1 co))\<rparr>)
      (l2_bump ''hits'' ?d)"
  let ?b = "\<lambda>p. snd (l2_hit_response (si_http si) (si_gzip si) (body_of_l2 (si_http si) p) (rq_gzip rq))"
  have "(\<exists>name. st' = l2_bump name ?d) \<or> st' = ?d \<or>
      (\<exists>p t ttl. remaining_ttl (seconds (rch_ttl_seconds c)) t (ho_wall_ms ho) = Some ttl \<and> st' = ?i (?b p) ttl)"
    using assms(4) by (auto simp: l2_read_def Let_def case_prod_beta split: l2_lookup.splits if_splits option.splits)
  then consider name where "st' = l2_bump name ?d" | "st' = ?d"
    | p t ttl where "remaining_ttl (seconds (rch_ttl_seconds c)) t (ho_wall_ms ho) = Some ttl" "st' = ?i (?b p) ttl" by blast
  then show ?thesis
  proof cases
    case 1
    then show ?thesis using bumped by (intro exI [of _ "[]"]) simp
  next
    case 2
    then show ?thesis using d by (intro exI [of _ "[]"]) simp
  next
    case 3
    let ?op = "PageInsert k (?b p) ttl (rch_tags c) since (ho_now ho AtL2Insert)"
    have "reach js (pg_core st) (oth AwaitL2 @ [?op]) (pg_core st')"
      using reach_trans [OF bumped [of "''hits''"] reach_page_insert [of js "pg_core (l2_bump ''hits'' ?d)" k "?b p" ttl "rch_tags c" since
            "ho_now ho AtL2Insert"]] 3(2) by simp
    moreover have "?P k (?b p) ttl (rch_tags c)"
      using remaining_ttl_le [OF 3(1)] assms(3) l2_no_cookie [OF assms(2)] by (simp add: page_own_def body_of_l2_def Let_def)
    ultimately show ?thesis by (intro exI [of _ "[?op]"]) simp
  qed
qed

definition calls_loader :: "('r, 'n, 'f, 'x) site \<Rightarrow> page_req \<Rightarrow> bool" where
  "calls_loader si rq \<longleftrightarrow> rr_loaders (rq_route rq) \<noteq> [] \<or> chain_has_stores (si_plans si) (rr_chain (rq_route rq))"

lemma loader_reply_same: "same_caches (pg_core (snd (snd (loader_reply si ho status base r st)))) (pg_core st)"
proof -
  have c: "same_caches (pg_core (if uncounted r then st else count_loader_call (ho_thread ho) st)) (pg_core st)"
    by (simp add: count_loader_call_def same_caches_def)
  show ?thesis
    using same_caches_trans [OF call_failed_same c] same_caches_trans [OF loader_answer_same c]
    by (auto simp: loader_reply_def Let_def case_prod_beta split: sum.split)
qed

lemma loader_stage_reach:
  assumes "runs_meanwhile js ho oth" and "loader_stage si ho rq search st = (r, n, st')"
  shows "reach js (pg_core st) (if calls_loader si rq then oth AwaitLoader else []) (pg_core st')"
proof (cases "calls_loader si rq")
  case False
  then have "st' = st" using assms(2) by (auto simp: loader_stage_def calls_loader_def Let_def)
  then show ?thesis using False by (simp add: same_caches_def)
next
  case True
  let ?d = "ho_during ho AwaitLoader st"
  have d: "reach js (pg_core st) (oth AwaitLoader) (pg_core ?d)" using assms(1) by (simp add: runs_meanwhile_def)
  obtain status base reply where "(r, n, st') = loader_reply si ho status base reply ?d"
    using assms(2) [symmetric] True unfolding loader_stage_def calls_loader_def Let_def by (auto split: if_splits)
  then have "same_caches (pg_core st') (pg_core ?d)" using loader_reply_same by (metis snd_conv)
  then show ?thesis using d True by (simp add: reach_same)
qed


lemma with_results_reach:
  assumes "with_results si ho since ctx plans lk ids results cacheable extra st = (r, st')"
  shows "\<exists>os. list_all (own P since) os \<and> reach js (pg_core st) os (pg_core st')"
proof -
  obtain x co where a: "apply_job_results since (ho_now ho AtJobInsert) plans lk ids results (pg_core st) = (x, co)" by fastforce
  then have "pg_core st' = co" using assms by (auto simp: with_results_def Let_def split: option.splits prod.splits)
  then show ?thesis using reach_apply_results [OF a] by simp
qed

lemma planned_jobs_reach:
  assumes "planned_jobs si ho rq since ld pc results st = (r, st')"
  shows "\<exists>os. list_all (own P since) os \<and> reach js (pg_core st) os (pg_core st')"
proof (cases "lk_misses (pc_lookup pc) = []")
  case True
  then have "pg_core st' = pg_core st" using assms by (auto simp: planned_jobs_def Let_def split: prod.splits)
  then show ?thesis by (intro exI [of _ "[]"]) (simp add: same_caches_def)
next
  case False
  let ?st = "count_job_call (st\<lparr>pg_offer := (pg_offer st)[rq_ri rq := note_planned_outcome (lk_misses (pc_lookup pc) = []) (pg_offer st ! rq_ri rq)]\<rparr>)"
  obtain cacheable extra where
    "with_results si ho since (pc_ctx pc) (rehydrate (si_plans si) (pc_rows pc)) (pc_lookup pc) (pc_call_ids pc) results cacheable extra ?st = (r, st')"
    using assms False by (auto simp: planned_jobs_def Let_def split: prod.splits)
  then obtain os where os: "list_all (own P since) os" "reach js (pg_core ?st) os (pg_core st')"
    using with_results_reach by blast
  have "reach js (pg_core st) [] (pg_core ?st)" by (simp add: count_job_call_def same_caches_def)
  from reach_trans [OF this os(2)] show ?thesis using os(1) by auto
qed

lemma jobs_reply_reach:
  assumes "jobs_reply si ho since ctx plans lk ids ld reply st = (r, n, st')"
  shows "\<exists>os. list_all (own P since) os \<and> reach js (pg_core st) os (pg_core st')"
proof -
  let ?st = "if uncounted reply then st
      else on_core (\<lambda>c. c\<lparr>co_worker_calls := counter_incr (ho_thread ho) (co_worker_calls c)\<rparr>) (count_job_call st)"
  have same: "same_caches (pg_core ?st) (pg_core st)" by (simp add: count_job_call_def same_caches_def)
  show ?thesis
  proof (cases reply)
    case (Inl e)
    have "st' = snd (call_failed (si_http si) e ?st)" using assms by (simp add: jobs_reply_def Inl Let_def case_prod_beta)
    then have "same_caches (pg_core st') (pg_core st)" using same_caches_trans [OF call_failed_same same] by simp
    then show ?thesis by (intro exI [of _ "[]"]) simp
  next
    case (Inr results)
    obtain x where "with_results si ho since ctx plans lk ids results (ld_cacheable ld) (ld_extra ld) ?st = (x, st')"
      using assms by (auto simp: jobs_reply_def Inr Let_def split: prod.splits)
    then obtain os where os: "list_all (own P since) os" "reach js (pg_core ?st) os (pg_core st')"
      using with_results_reach by blast
    from reach_trans [OF reach_frame [OF same] os(2)] show ?thesis using os(1) by auto
  qed
qed

lemma jobs_stage_reach:
  assumes "runs_meanwhile js ho oth" and "jobs_stage si ho rq since ld st = (r, n, st')"
  shows "\<exists>b o1 o2. list_all (own P since) (o1 @ o2) \<and>
    reach js (pg_core st) (o1 @ (if b then oth AwaitJobs else []) @ o2) (pg_core st')"
proof (cases "ld_planned ld")
  case (Some pr)
  obtain pc results where pr: "pr = (pc, results)" by fastforce
  obtain x where "planned_jobs si ho rq since ld pc results st = (x, st')"
    using assms(2) by (auto simp: jobs_stage_def Some pr split: prod.splits)
  from planned_jobs_reach [OF this, where js = js and P = P] obtain os where "list_all (own P since) os" "reach js (pg_core st) os (pg_core st')"
    by blast
  then show ?thesis by (intro exI [of _ False] exI [of _ os] exI [of _ "[]"]) simp
next
  case None
  let ?ctx = "node_map (ld_ctx ld)"
  show ?thesis
  proof (cases "collect_jobs (si_env si) (si_plans si) (rr_chain (rq_route rq)) ?ctx")
    case (Inl e)
    then have "st' = st" using assms(2) by (simp add: jobs_stage_def None)
    then show ?thesis by (intro exI [of _ False] exI [of _ "[]"]) (simp add: same_caches_def)
  next
    case (Inr plans)
    obtain lk jobs where lk: "lookup_jobs (ho_now ho AtLookup) plans (co_jobs (pg_core st)) = (lk, jobs)" by fastforce
    let ?gets = "map (\<lambda>k. JobGet k (ho_now ho AtLookup)) (map pl_key plans)"
    let ?st = "on_core (\<lambda>c. c\<lparr>co_jobs := jobs\<rparr>) st"
    have "jobs = snd (lookup_values (ho_now ho AtLookup) (map pl_key plans) (co_jobs (pg_core st)))"
      using lk by (auto simp: lookup_jobs_def Let_def split: prod.splits)
    then have gets: "reach js (pg_core st) ?gets (pg_core ?st)"
      using reach_lookup [of js "pg_core st" "ho_now ho AtLookup" "map pl_key plans"] by simp
    have own_gets: "list_all (own P since) ?gets" by (simp add: list_all_iff)
    show ?thesis
    proof (cases "lk_misses lk = []")
      case True
      then have "st' = ?st" using assms(2) by (auto simp: jobs_stage_def None Inr lk)
      then show ?thesis using gets own_gets by (intro exI [of _ False] exI [of _ ?gets] exI [of _ "[]"]) simp
    next
      case False
      let ?w = "ho_during ho AwaitJobs (?st\<lparr>pg_offer := (pg_offer st)[rq_ri rq := 0]\<rparr>)"
      have "jobs_reply si ho since ?ctx plans lk (map jc_id (jobs_request plans (lk_misses lk))) ld
          (ho_jobs ho (jobs_request plans (lk_misses lk))) ?w = (r, n, st')"
        using assms(2) False by (simp add: jobs_stage_def None Inr lk Let_def)
      from jobs_reply_reach [OF this, where js = js and P = P] obtain os where os: "list_all (own P since) os" "reach js (pg_core ?w) os (pg_core st')"
        by blast
      have "reach js (pg_core (?st\<lparr>pg_offer := (pg_offer st)[rq_ri rq := 0]\<rparr>)) (oth AwaitJobs) (pg_core ?w)"
        by (rule assms(1) [unfolded runs_meanwhile_def, THEN spec, THEN spec])
      from reach_trans [OF this os(2)] have "reach js (pg_core ?st) (oth AwaitJobs @ os) (pg_core st')" by simp
      from reach_trans [OF gets this] show ?thesis using own_gets os(1)
        by (intro exI [of _ True] exI [of _ ?gets] exI [of _ os]) simp
    qed
  qed
qed


text \<open>As long as a response may be stored, no header of the loader forbids it.\<close>

definition public :: "bool \<Rightarrow> header_list \<Rightarrow> bool" where
  "public cacheable extra \<longleftrightarrow> (cacheable \<longrightarrow> list_all (\<lambda>kv. \<not> keeps_private kv) extra)"

lemma loader_headers_public:
  "loader_headers h hs extra = (ok, extra') \<Longrightarrow> public c extra \<Longrightarrow> public (c \<and> ok) extra'"
proof (induction hs arbitrary: extra ok extra' c)
  case (Cons kv hs)
  show ?case
  proof (cases "refused_header h kv")
    case False
    obtain ok1 where ok1: "loader_headers h hs (extra @ [kv]) = (ok1, extra')" "ok = (ok1 \<and> \<not> keeps_private kv)"
      using Cons.prems(1) False by (auto split: prod.splits)
    show ?thesis
    proof (cases "keeps_private kv")
      case True
      then show ?thesis using ok1 by (simp add: public_def)
    next
      case fine: False
      have "public (c \<and> ok1) extra'"
        by (rule Cons.IH [OF ok1(1)]) (use Cons.prems(2) fine in \<open>simp add: public_def\<close>)
      then show ?thesis using ok1 fine by simp
    qed
  qed (use Cons in simp)
qed simp

lemma loader_answer_public:
  "loader_answer h status base r cell st = (Inr ld, st') \<Longrightarrow> public (ld_cacheable ld) (ld_extra ld)"
  using loader_headers_public [where extra = "[]" and c = True and h = h]
  by (auto simp: loader_answer_def public_def Let_def split: loader_response.splits verdict.splits option.splits if_splits prod.splits)

lemma loader_stage_public:
  assumes "loader_stage si ho rq search st = (Inr ld, n, st')"
  shows "public (ld_cacheable ld) (ld_extra ld)"
proof (cases "calls_loader si rq")
  case False
  then show ?thesis using assms by (auto simp: loader_stage_def calls_loader_def Let_def public_def)
next
  case True
  then obtain status base reply w where "loader_reply si ho status base reply w = (Inr ld, n, st')"
    using assms unfolding loader_stage_def calls_loader_def Let_def by (auto split: if_splits)
  then show ?thesis
    by (auto simp: loader_reply_def Let_def split: sum.splits prod.splits dest: loader_answer_public)
qed

lemma with_results_public:
  "with_results si ho since ctx plans lk ids results cacheable extra st = (Inr pn, st') \<Longrightarrow> public cacheable extra \<Longrightarrow>
   public (pn_cacheable pn) (pn_extra pn)"
  by (auto simp: with_results_def Let_def public_def split: prod.splits option.splits)

lemma jobs_stage_public:
  assumes "jobs_stage si ho rq since ld st = (Inr pn, n, st')" and "public (ld_cacheable ld) (ld_extra ld)"
  shows "public (pn_cacheable pn) (pn_extra pn)"
proof (cases "ld_planned ld")
  case (Some pr)
  obtain pc results where pr: "pr = (pc, results)" by fastforce
  have p: "planned_jobs si ho rq since ld pc results st = (Inr pn, st')"
    using assms(1) by (auto simp: jobs_stage_def Some pr split: prod.splits)
  obtain ok extra where lh: "loader_headers (si_http si) (pc_headers pc) (ld_extra ld) = (ok, extra)" by fastforce
  have pub: "public (ld_cacheable ld \<and> ok) extra" by (rule loader_headers_public [OF lh assms(2)])
  show ?thesis
    using p pub with_results_public by (fastforce simp: planned_jobs_def lh Let_def split: if_splits)
next
  case None
  show ?thesis
    using assms with_results_public
    by (fastforce simp: jobs_stage_def None jobs_reply_def Let_def split: sum.splits prod.splits if_splits)
qed

lemma public_no_cookie:
  assumes "http_headers h" and "public True extra"
  shows "hm_get_all h (header_map h HTML extra) ''set-cookie'' = []"
proof -
  have "contributes h ''set-cookie'' kv = []" if "kv \<in> set extra" for kv
  proof (rule ccontr)
    assume "contributes h ''set-cookie'' kv \<noteq> []"
    then have "''set-cookie'' = to_ascii_lowercase (fst kv)" using http_headers.contributes_name [OF assms(1)] by blast
    moreover have "to_ascii_lowercase ''set-cookie'' = ''set-cookie''" by code_simp
    ultimately have "eq_ignore_ascii_case (fst kv) ''set-cookie''" by (simp add: eq_ignore_ascii_case_def)
    then have "keeps_private kv" by (simp add: keeps_private_def case_prod_beta Let_def)
    then show False using assms(2) that by (auto simp: public_def list_all_iff)
  qed
  then show ?thesis by (simp add: http_headers.get_all_header_map [OF assms(1)])
qed

lemma render_same: "render_document si rq ctx st = (r, st') \<Longrightarrow> pg_core st' = pg_core st"
  by (auto simp: render_document_def split: sum.splits)

lemma write_back_same: "same_caches (pg_core (l2_write_back si w b c full pfx st)) (pg_core st)"
  by (auto simp: l2_write_back_def Let_def same_caches_def l2_bump_def split: option.splits)

lemma store_page_reach:
  "reach js (pg_core st) [PageInsert k body (seconds (rch_ttl_seconds c)) (rch_tags c) since (ho_now ho AtPageInsert)]
     (pg_core (store_page si ho rq since k body c w st))"
proof -
  let ?ins = "l1_insert k body (seconds (rch_ttl_seconds c)) (rch_tags c) since (ho_now ho AtPageInsert) (co_l1 (pg_core st))"
  have "same_caches (pg_core (store_page si ho rq since k body c w st)) ((pg_core st)\<lparr>co_l1 := snd ?ins\<rparr>)"
  proof -
    let ?st = "on_core (\<lambda>co. co\<lparr>co_l1 := snd ?ins\<rparr>) st"
    have "store_page si ho rq since k body c w st = ?st \<or>
        (\<exists>x. store_page si ho rq since k body c w st = l2_write_back si x body c (rq_path_query rq) (key_prefix k) ?st)"
      by (auto simp: store_page_def Let_def case_prod_beta split: option.split)
    moreover have "same_caches (pg_core (l2_write_back si x body c (rq_path_query rq) (key_prefix k) ?st)) ((pg_core st)\<lparr>co_l1 := snd ?ins\<rparr>)" for x
      using write_back_same [of si x body c "rq_path_query rq" "key_prefix k" ?st] by simp
    moreover have "same_caches (pg_core ?st) ((pg_core st)\<lparr>co_l1 := snd ?ins\<rparr>)" by (simp add: same_caches_def)
    ultimately show ?thesis by (elim disjE exE) (simp_all only:)
  qed
  then show ?thesis using reach_same [OF reach_page_insert] by blast
qed


lemma finish_stage_reach:
  assumes "http_headers (si_http si)" and "public (pn_cacheable pn) (pn_extra pn)"
    and "finish_stage si ho rq since key oc w status pn st = (r, st')"
  shows "\<exists>os. length os \<le> 1 \<and> list_all (own (page_own (si_http si) key (rq_route rq)) since) os \<and> reach js (pg_core st) os (pg_core st')"
proof -
  let ?P = "page_own (si_http si) key (rq_route rq)"
  show ?thesis
  proof (cases "seed_child_slots (si_plans si) (rr_id (rq_route rq)) (rr_chain (rq_route rq)) (pn_ctx pn)")
    case (Inl e)
    then have "pg_core st' = pg_core st" using assms(3) by (simp add: finish_stage_def)
    then show ?thesis by (intro exI [of _ "[]"]) (simp add: same_caches_def)
  next
    case (Inr ctx)
    obtain rendered st1 where rd: "render_document si rq (merge_values (pn_plans pn) (pn_values pn) ctx) st = (rendered, st1)" by fastforce
    have same: "pg_core st1 = pg_core st" using render_same [OF rd] .
    show ?thesis
    proof (cases rendered)
      case (Inl e)
      then have "pg_core st' = pg_core st" using assms(3) same rd \<open>_ = Inr ctx\<close> by (simp add: finish_stage_def)
      then show ?thesis by (intro exI [of _ "[]"]) (simp add: same_caches_def)
    next
      case html: (Inr html)
      let ?keep = "storable key status (pn_cacheable pn) (rq_route rq)" and ?hm = "header_map (si_http si) HTML (pn_extra pn)"
      let ?body = "\<lparr>rb_status = status, rb_headers = (if ?keep then ?hm else hm_new (si_http si)), rb_html = html, rb_gzip = None\<rparr>"
      obtain x y b where cb: "cached_body (si_gzip si) ?body (rq_gzip rq) = ((x, y), b)" by (metis prod.exhaust)
      have st': "st' = (case (?keep, key, rr_cache (rq_route rq)) of
          (True, Some k, Some c) \<Rightarrow> store_page si ho rq since k b c w st1 | _ \<Rightarrow> st1)"
        using assms(3) rd html cb \<open>_ = Inr ctx\<close> by (simp add: finish_stage_def Let_def)
      show ?thesis
      proof (cases ?keep)
        case False
        then have "pg_core st' = pg_core st" using st' same by simp
        then show ?thesis by (intro exI [of _ "[]"]) (simp add: same_caches_def)
      next
        case True
        then obtain k c where kc: "key = Some k" "rr_cache (rq_route rq) = Some c" "pn_cacheable pn"
          by (auto simp: storable_def)
        let ?op = "PageInsert k b (seconds (rch_ttl_seconds c)) (rch_tags c) since (ho_now ho AtPageInsert)"
        have "b = snd (cached_body (si_gzip si) ?body (rq_gzip rq))" by (simp add: cb)
        then have "rb_headers b = ?hm" using True by (simp only: cached_body_headers) simp
        then have "?P k b (seconds (rch_ttl_seconds c)) (rch_tags c)"
          using kc public_no_cookie [OF assms(1)] assms(2) by (simp add: page_own_def)
        moreover have "reach js (pg_core st) [?op] (pg_core st')"
          using store_page_reach [of js st1 k b c since ho si rq w] True kc same by (simp add: st')
        ultimately show ?thesis by (intro exI [of _ "[?op]"]) simp
      qed
    qed
  qed
qed

text \<open>Which of its awaits a page passes: the adapter, the loader, the jobs.\<close>

definition reads_l2 :: "page_req \<Rightarrow> cache_key option \<Rightarrow> 'n pages \<Rightarrow> bool" where
  "reads_l2 rq key st \<longleftrightarrow> co_l2 (pg_core st) \<noteq> None \<and> key \<noteq> None \<and> rr_cache (rq_route rq) \<noteq> None"

definition page_ops ::
  "(await_point \<Rightarrow> 'n core_op list) \<Rightarrow> bool \<Rightarrow> bool \<Rightarrow> bool \<Rightarrow>
   'n core_op list \<Rightarrow> 'n core_op list \<Rightarrow> 'n core_op list \<Rightarrow> 'n core_op list \<Rightarrow> 'n core_op list" where
  "page_ops oth l2 loader jobs o1 o2 o3 o4 =
     (if l2 then oth AwaitL2 else []) @ o1 @ (if loader then oth AwaitLoader else []) @ o2 @
     (if jobs then oth AwaitJobs else []) @ o3 @ o4"

abbreviation no_page :: "cache_key \<Rightarrow> rendered_body \<Rightarrow> nat \<Rightarrow> string list \<Rightarrow> bool" where
  "no_page \<equiv> \<lambda>_ _ _ _. False"

text \<open>
  A page's own calls: at most one insertion from the adapter (\<open>o1\<close>) and one of what it rendered (\<open>o4\<close>), and between
  them only calls on the job cache (\<open>o2\<close>, \<open>o3\<close>).
\<close>

definition page_calls ::
  "(cache_key \<Rightarrow> rendered_body \<Rightarrow> nat \<Rightarrow> string list \<Rightarrow> bool) \<Rightarrow> nat \<Rightarrow>
   'n core_op list \<Rightarrow> 'n core_op list \<Rightarrow> 'n core_op list \<Rightarrow> 'n core_op list \<Rightarrow> bool" where
  "page_calls P since o1 o2 o3 o4 \<longleftrightarrow>
     length o1 \<le> 1 \<and> length o4 \<le> 1 \<and> list_all (own P since) (o1 @ o4) \<and> list_all (own no_page since) (o2 @ o3)"

lemma page_miss_reach:
  assumes "runs_meanwhile js ho oth" and "http_headers (si_http si)" and "oc \<noteq> OutHitL2"
    and "page_miss si ho rq key oc search st = (r, oc', n, st')"
  shows "\<exists>jobs o1 o2 o3 o4.
    page_calls (page_own (si_http si) key (rq_route rq)) (co_clock (pg_core st)) o1 o2 o3 o4 \<and>
    reach js (pg_core st) (page_ops oth (reads_l2 rq key st) (oc' \<noteq> OutHitL2 \<and> calls_loader si rq) jobs o1 o2 o3 o4) (pg_core st')"
proof -
  let ?since = "co_clock (pg_core st)" and ?P = "page_own (si_http si) key (rq_route rq)"
  obtain l2 st1 where l2: "l2_stage si ho rq key ?since st = (l2, st1)" by fastforce
  have "\<exists>os. length os \<le> 1 \<and> list_all (own ?P ?since) os \<and> reach js (pg_core st) ((if reads_l2 rq key st then oth AwaitL2 else []) @ os) (pg_core st1) \<and>
      (reads_l2 rq key st \<or> l2 = WriteBack None)"
  proof (cases "reads_l2 rq key st")
    case True
    then obtain cfg k c where "co_l2 (pg_core st) = Some cfg" "key = Some k" "rr_cache (rq_route rq) = Some c"
      by (auto simp: reads_l2_def)
    then show ?thesis
      using l2_read_reach [OF assms(1,2), of rq c cfg k ?since st l2 st1] l2 True by (auto simp: l2_stage_def)
  next
    case False
    then have "(l2, st1) = (WriteBack None, st)" using l2 [symmetric] by (auto simp: l2_stage_def reads_l2_def split: option.splits)
    then show ?thesis using False by (intro exI [of _ "[]"]) (simp add: same_caches_def)
  qed
  then obtain o1 where o1: "length o1 \<le> 1" "list_all (own ?P ?since) o1"
    "reach js (pg_core st) ((if reads_l2 rq key st then oth AwaitL2 else []) @ o1) (pg_core st1)" by blast
  note miss = assms(4) [unfolded page_miss_def Let_def clock_stamp_def l2 prod.case]
  show ?thesis
  proof (cases l2)
    case (Served x)
    then have "st' = st1" "oc' = OutHitL2" using miss by simp_all
    then show ?thesis using o1
      by (intro exI [of _ False] exI [of _ o1] exI [of _ "[]"] exI [of _ "[]"] exI [of _ "[]"]) (simp add: page_ops_def page_calls_def)
  next
    case (WriteBack w)
    obtain lo n1 st2 where lo: "loader_stage si ho rq search st1 = (lo, n1, st2)" by (metis prod.exhaust)
    have l: "reach js (pg_core st) (((if reads_l2 rq key st then oth AwaitL2 else []) @ o1) @ (if calls_loader si rq then oth AwaitLoader else [])) (pg_core st2)"
      by (rule reach_trans [OF o1(3) loader_stage_reach [OF assms(1) lo]])
    show ?thesis
    proof (cases lo)
      case (Inl x)
      then have "st' = st2" "oc' = oc" using miss by (simp_all add: WriteBack lo)
      then show ?thesis using o1(1,2) l assms(3)
        by (intro exI [of _ False] exI [of _ o1] exI [of _ "[]"] exI [of _ "[]"] exI [of _ "[]"]) (simp add: page_ops_def page_calls_def)
    next
      case (Inr ld)
      obtain jo n2 st3 where jo: "jobs_stage si ho rq ?since ld st2 = (jo, n2, st3)" by (metis prod.exhaust)
      obtain b o2 o3 where o: "list_all (own no_page ?since) (o2 @ o3)"
        "reach js (pg_core st2) (o2 @ (if b then oth AwaitJobs else []) @ o3) (pg_core st3)"
        using jobs_stage_reach [OF assms(1) jo] by blast
      note j = reach_trans [OF l o(2)]
      have oc: "oc' = oc" using miss by (auto simp: WriteBack lo Inr jo split: sum.splits prod.splits)
      show ?thesis
      proof (cases jo)
        case (Inl x)
        then have "st' = st3" using miss by (simp add: WriteBack lo Inr jo)
        then show ?thesis using o1(1,2) o(1) j assms(3) oc
          by (intro exI [of _ b] exI [of _ o1] exI [of _ o2] exI [of _ o3] exI [of _ "[]"]) (simp add: page_ops_def page_calls_def)
      next
        case pn: (Inr pn)
        have "finish_stage si ho rq ?since key oc w (ld_status ld) pn st3 = (r, st')"
          using miss by (auto simp: WriteBack lo Inr jo pn split: prod.splits)
        from finish_stage_reach [OF assms(2) _ this, of js] obtain os where
          os: "length os \<le> 1" "list_all (own ?P ?since) os" "reach js (pg_core st3) os (pg_core st')"
          using jobs_stage_public [OF jo [unfolded pn]] loader_stage_public [OF lo [unfolded Inr]] by blast
        show ?thesis using o1(1,2) o(1) os(1,2) reach_trans [OF j os(3)] assms(3) oc
          by (intro exI [of _ b] exI [of _ o1] exI [of _ o2] exI [of _ o3] exI [of _ os]) (simp add: page_ops_def page_calls_def)
      qed
    qed
  qed
qed

section \<open>Properties\<close>

lemma own_calls [simp]: "l1_views (Inr (JGet k now) # ys) = l1_views ys"
  "l1_views (Inr (JInsert k v ttl tags u since now) # ys) = l1_views ys" "l1_views (all_calls []) = []"
  by (simp_all add: l1_views_def all_calls_def)

lemma own_views: "list_all (own P since) os \<Longrightarrow> length (l1_views (all_calls os)) \<le> length os"
proof (induction os)
  case (Cons x os)
  then show ?case by (cases x) auto
qed simp

lemma own_no_page_views: "list_all (own no_page since) os \<Longrightarrow> l1_views (all_calls os) = []"
proof (induction os)
  case (Cons x os)
  then show ?case by (cases x) auto
qed simp

definition others :: "(await_point \<Rightarrow> 'n core_op list) \<Rightarrow> nat" where
  "others oth = length (oth AwaitL2) + length (oth AwaitLoader) + length (oth AwaitJobs)"

lemma page_ops_views:
  assumes "page_calls P since o1 o2 o3 o4"
  shows "length (l1_views (all_calls (page_ops oth l2 loader jobs o1 o2 o3 o4))) \<le> 4 * others oth + 2"
proof -
  have "length (l1_views (all_calls o1)) \<le> 1" "length (l1_views (all_calls o4)) \<le> 1"
    "l1_views (all_calls o2) = []" "l1_views (all_calls o3) = []"
    using assms own_views [of P since o1] own_views [of P since o4] own_no_page_views [of since o2] own_no_page_views [of since o3]
    by (auto simp: page_calls_def)
  then show ?thesis
    using length_run_views(1) [of "oth AwaitL2"] length_run_views(1) [of "oth AwaitLoader"] length_run_views(1) [of "oth AwaitJobs"]
    by (simp add: page_ops_def others_def)
qed

lemma own_insert: "list_all (own P since) os \<Longrightarrow> PageInsert k b ttl tags s now \<in> set os \<Longrightarrow> s = since \<and> P k b ttl tags"
  by (auto simp: list_all_iff dest!: bspec)

lemma page_ops_insert:
  assumes "PageInsert k b ttl tags s now \<in> set (page_ops oth l2 loader jobs o1 o2 o3 o4)" and "page_calls P since o1 o2 o3 o4"
  shows "s = since \<and> P k b ttl tags \<or> (\<exists>p. PageInsert k b ttl tags s now \<in> set (oth p))"
  using assms own_insert [of P since _ k b ttl tags s now] own_insert [of no_page since _ k b ttl tags s now]
  by (auto simp: page_ops_def page_calls_def split: if_splits)

text \<open>An invalidation among the operations: whatever it concerns can only be there afterwards through another request.\<close>

lemma overtaken:
  assumes good: "core_good n c" and len: "n + 4 * others oth + 2 < u64_mod"
    and calls: "page_calls P (co_clock c) o1 o2 o3 o4"
    and reach: "reach js c (page_ops oth l2 loader jobs o1 o2 o3 o4) d"
    and inval: "inval = Invalidate a now \<or> inval = Replay a sq now" and conc: "page_concerned a k tags"
    and among: "page_ops oth l2 loader jobs o1 o2 o3 o4 = pre @ inval # post"
    and found: "stored (l1_store (co_l1 d)) k = Some (body, tags, u)"
  shows "\<exists>p ttl since now'. PageInsert k body ttl tags since now' \<in> set (oth p) \<and> co_clock c < since"
proof -
  let ?c = "core_run js pre c" and ?n = "n + length (l1_views (all_calls pre))"
  have views: "?n + length (l1_views (all_calls (inval # post))) < u64_mod"
    using page_ops_views [OF calls, of oth l2 loader jobs] len unfolding among by simp
  have l1: "l1_good n (co_clock c, co_l1 c)" using good by (simp add: core_good_def)
  then have "co_clock c \<le> n" by simp
  then have clock: "co_clock c \<le> co_clock ?c"
    using l1_run_clock [of "co_clock c" "l1_views (all_calls pre)" "co_l1 c"] views core_run_l1 [of js pre c] by (metis fst_conv add_lessD1 add_le_mono1 order_le_less_trans)
  have good': "l1_good ?n (co_clock ?c, co_l1 ?c)"
    using l1.good_run [OF l1, of "l1_views (all_calls pre)"] views by (simp add: core_run_l1 l1_run_run del: l1_good.simps)
  have "co_l1 d = co_l1 (core_run js (inval # post) ?c)"
    using reach unfolding reach_def same_caches_def among by (simp add: core_run_append)
  with found have "stored (l1_store (co_l1 (core_run js (inval # post) ?c))) k = Some (body, tags, u)" by simp
  from l1_page_purged(1) [OF good' views inval conc this] obtain ttl since now' where
    ins: "PageInsert k body ttl tags since now' \<in> set post" "co_clock ?c < since" by blast
  have "PageInsert k body ttl tags since now' \<in> set (page_ops oth l2 loader jobs o1 o2 o3 o4)" using ins(1) by (simp add: among)
  from page_ops_insert [OF this calls] show ?thesis using ins(2) clock by fastforce
qed

text \<open>
  C11: A page that an invalidation overtakes is not stored. A page request that missed the page cache waits for the L2 adapter,
  its loader and its jobs while other requests and invalidations run; whatever they do, what it does itself to the page
  cache is at most one insertion of an adapter hit and one of the page it rendered, both under the clock read before the
  first wait, with its own key, the route's tags, at most the route's lifetime and no \<^verbatim>\<open>Set-Cookie\<close> header. When one of the
  invalidations that ran meanwhile concerns an entry, that entry is in the cache afterwards only if another request
  inserted it later, under a newer stamp.
\<close>

theorem overtaken_page_not_stored:
  assumes "runs_meanwhile js ho oth" and "http_headers (si_http si)"
    and "core_good n (pg_core st)" and "n + 4 * others oth + 2 < u64_mod"
    and "page_miss si ho rq key oc search st = (r, oc', m, st')" and "oc \<noteq> OutHitL2"
  shows "\<exists>jobs o1 o2 o3 o4. 
    page_calls (page_own (si_http si) key (rq_route rq)) (co_clock (pg_core st)) o1 o2 o3 o4 \<and>
    reach js (pg_core st) (page_ops oth (reads_l2 rq key st) (oc' \<noteq> OutHitL2 \<and> calls_loader si rq) jobs o1 o2 o3 o4) (pg_core st') \<and>
    (\<forall>pre inval post a sq now k body tags u.
       page_ops oth (reads_l2 rq key st) (oc' \<noteq> OutHitL2 \<and> calls_loader si rq) jobs o1 o2 o3 o4 = pre @ inval # post \<longrightarrow>
       inval = Invalidate a now \<or> inval = Replay a sq now \<longrightarrow> page_concerned a k tags \<longrightarrow>
       stored (l1_store (co_l1 (pg_core st'))) k = Some (body, tags, u) \<longrightarrow>
       (\<exists>p ttl since now'. PageInsert k body ttl tags since now' \<in> set (oth p) \<and> co_clock (pg_core st) < since))"
proof -
  obtain jobs o1 o2 o3 o4 where calls: "page_calls (page_own (si_http si) key (rq_route rq)) (co_clock (pg_core st)) o1 o2 o3 o4"
    and reach: "reach js (pg_core st)
      (page_ops oth (reads_l2 rq key st) (oc' \<noteq> OutHitL2 \<and> calls_loader si rq) jobs o1 o2 o3 o4) (pg_core st')"
    using page_miss_reach [OF assms(1,2,6,5)] by blast
  show ?thesis
    by (intro exI [of _ jobs] exI [of _ o1] exI [of _ o2] exI [of _ o3] exI [of _ o4] conjI allI impI)
      (rule calls, rule reach, rule overtaken [OF assms(3,4) calls reach], assumption+)
qed

definition demo_while :: "await_point \<Rightarrow> nat node core_op list" where
  "demo_while p = (case p of AwaitLoader \<Rightarrow> [Invalidate (tag_args ''t'') 1] | _ \<Rightarrow> [])"

definition demo_host :: "nat page_host" where
  "demo_host =
     \<lparr>ho_plan_offer = True, ho_l2_get = (\<lambda>_. L2Off), ho_loader = (\<lambda>_ _. Ok (LOk True (node_map [(''x'', NStr ''1'')]) [] None, None)),
      ho_jobs = (\<lambda>_. Ok []), ho_wall_ms = 0, ho_now = (\<lambda>_. 0), ho_thread = 0,
      ho_during = (\<lambda>p. on_core (core_run (\<lambda>s. s) (demo_while p)))\<rparr>"

definition demo_site :: "(unit, nat, nat, unit) site" where
  "demo_site =
     \<lparr>si_http = list_http, si_router = \<lparr>mt_new = (), mt_insert = (\<lambda>_ _ _. Ok ()), mt_at = (\<lambda>_ _. None)\<rparr>, si_percent_decode = (\<lambda>s. s),
      si_routes = demo_table, si_records = [demo_record\<lparr>rr_chain := []\<rparr>], si_https = False, si_plans = demo_index, si_env = demo_env,
      si_json_string = (\<lambda>s. s), si_gzip = (\<lambda>_. None), si_render = (\<lambda>_ _. Ok ''<p>'')\<rparr>"

definition demo_req :: page_req where
  "demo_req = \<lparr>rq_path_query = ''/'', rq_pairs = [], rq_gzip = False, rq_ri = 0, rq_route = demo_record\<lparr>rr_chain := []\<rparr>,
     rq_match = \<lparr>rm_route_id = 0, rm_not_found = False, rm_params = []\<rparr>\<rparr>"

definition demo_pages :: "nat pages" where
  "demo_pages = \<lparr>pg_core = demo_node_core, pg_offer = [0], pg_hints = [0], pg_l2_sets = []\<rparr>"

lemma page_miss_no_l2:
  assumes "co_l2 (pg_core st) = None" and "page_miss si ho rq key oc search st = (r, oc', m, st')"
  shows "oc' = oc"
  using assms by (auto simp: page_miss_def l2_stage_def Let_def split: sum.splits prod.splits)

theorem overtaken_page_not_stored_witness:
  "\<exists>r m st'. page_miss demo_site demo_host demo_req (Some demo_key) OutMiss None demo_pages = (r, OutMiss, m, st') \<and>
     (\<forall>body u. stored (l1_store (co_l1 (pg_core st'))) demo_key \<noteq> Some (body, [''t''], u))"
proof -
  obtain r oc' m st' where pm: "page_miss demo_site demo_host demo_req (Some demo_key) OutMiss None demo_pages = (r, oc', m, st')"
    by (metis prod.exhaust)
  have no_l2: "co_l2 (pg_core demo_pages) = None" by (simp add: demo_pages_def demo_node_core_def)
  have oc: "oc' = OutMiss" by (rule page_miss_no_l2 [OF no_l2 pm])
  have meanwhile: "runs_meanwhile (\<lambda>s. s) demo_host demo_while"
    by (simp add: runs_meanwhile_def reach_def demo_host_def same_caches_def)
  have "fresh_core 4 100 4 (\<lambda>_. 0) (\<lambda>_. 0) (pg_core demo_pages)" by (simp add: fresh_core_def demo_pages_def demo_node_core_def)
  then have good: "core_good 0 (pg_core demo_pages)" by (rule fresh_core_good) (simp add: usize_mod_def)
  have len: "0 + 4 * others demo_while + 2 < u64_mod" by (simp add: others_def demo_while_def u64_mod_def)
  have http: "http_headers (si_http demo_site)" by (simp add: demo_site_def list_headers.http_headers_axioms)
  have loads: "calls_loader demo_site demo_req" by (simp add: calls_loader_def demo_req_def demo_record_def)
  have quiet: "\<not> reads_l2 demo_req (Some demo_key) demo_pages" using no_l2 by (simp add: reads_l2_def)
  have flags: "reads_l2 demo_req (Some demo_key) demo_pages = False" "(oc' \<noteq> OutHitL2 \<and> calls_loader demo_site demo_req) = True"
    using quiet oc loads by simp_all
  obtain jobs o1 o2 o3 o4 where among: "\<forall>pre inval post a sq now k body tags u.
       page_ops demo_while False True jobs o1 o2 o3 o4 = pre @ inval # post \<longrightarrow>
       inval = Invalidate a now \<or> inval = Replay a sq now \<longrightarrow> page_concerned a k tags \<longrightarrow>
       stored (l1_store (co_l1 (pg_core st'))) k = Some (body, tags, u) \<longrightarrow>
       (\<exists>p ttl since now'. PageInsert k body ttl tags since now' \<in> set (demo_while p) \<and> co_clock (pg_core demo_pages) < since)"
    using overtaken_page_not_stored [OF meanwhile http good len pm, unfolded flags] by blast
  have ops: "page_ops demo_while False True jobs o1 o2 o3 o4 = o1 @ Invalidate (tag_args ''t'') 1 # (o2 @ o3 @ o4)"
    by (simp add: page_ops_def demo_while_def)
  have "stored (l1_store (co_l1 (pg_core st'))) demo_key \<noteq> Some (body, [''t''], u)" for body u
  proof
    assume "stored (l1_store (co_l1 (pg_core st'))) demo_key = Some (body, [''t''], u)"
    from among [rule_format, OF ops _ _ this, where a = "tag_args ''t''" and now = 1 and sq = None] obtain p ttl since now' where
      "PageInsert demo_key body ttl [''t''] since now' \<in> set (demo_while p)"
      by (auto simp: page_concerned_def tag_args_def)
    then show False by (cases p) (simp_all add: demo_while_def)
  qed
  then show ?thesis using pm oc by blast
qed

text \<open>
  The floor keeps normalised paths and \<open>l2_read\<close> asks it with the path as it was sent: below the floor of its own path, a
  request in another spelling of it (here lower-case percent digits) is not refused, though it has the same key.
\<close>

lemma raw_path_below_floor:
  defines "a \<equiv> \<lparr>ia_key = None, ia_tags = [], ia_path = Some ''/%c3%a9'', ia_method = None, ia_prefix = None\<rparr>"
  shows "normalize_request_path ''/%c3%a9'' = ''/%C3%A9''"
    and "rejects js (raise js a 5 floor_new) (Some 1) px ''/%C3%A9'' []"
    and "\<not> rejects js (raise js a 5 floor_new) (Some 1) px ''/%c3%a9'' []"
proof -
  show n: "normalize_request_path ''/%c3%a9'' = ''/%C3%A9''" by code_simp
  have r: "raised_names js a = [path_name ''GET'' ''/%C3%A9'']" by (simp add: raised_names_def a_def n)
  have px: "ia_prefix a = None" by (simp add: a_def)
  show "rejects js (raise js a 5 floor_new) (Some 1) px ''/%C3%A9'' []"
    and "\<not> rejects js (raise js a 5 floor_new) (Some 1) px ''/%c3%a9'' []"
    by (simp_all add: rejects_def raise_def r px raise_name_def floor_new_def below_def path_name_def Let_def FLOOR_NAMES_def)
qed

end
