(* ===== verification/Markup.thy ===== *)
theory Markup
  imports Html "HOL-Library.Sublist"
begin

text \<open>
  Scanning of rendered markup (\<^verbatim>\<open>crates/brust-core/src/render.rs\<close>): tag ends, attributes, comments, the doctype, the
  hoist of titles, metas and links into the head, and the generator tag. Positions are byte offsets. A text is sliced
  only at ASCII bytes, with one exception that is a panic in the source and \<open>None\<close> here.
\<close>

section \<open>Scanning\<close>

text \<open>\<^verbatim>\<open>str::find\<close>, \<^verbatim>\<open>str::rfind\<close> with a text, a slice.\<close>

definition find_str :: "string \<Rightarrow> string \<Rightarrow> nat option" where
  "find_str s n = List.find (\<lambda>k. starts_with (drop k s) n) [0..<Suc (length s)]"

definition rfind_str :: "string \<Rightarrow> string \<Rightarrow> nat option" where
  "rfind_str s n = List.find (\<lambda>k. starts_with (drop k s) n) (rev [0..<Suc (length s)])"

definition slice :: "string \<Rightarrow> nat \<Rightarrow> nat \<Rightarrow> string" where
  "slice s a b = take (b - a) (drop a s)"

definition insert_str :: "string \<Rightarrow> nat \<Rightarrow> string \<Rightarrow> string" where
  "insert_str s at t = take at s @ t @ drop at s"

fun tag_end_scan :: "char option \<Rightarrow> nat \<Rightarrow> string \<Rightarrow> nat option" where
  "tag_end_scan q k [] = None"
| "tag_end_scan None k (c # s) =
     (if c = CHR 0x22 \<or> c = CHR 0x27 then tag_end_scan (Some c) (k + 1) s
      else if c = CHR ''>'' then Some (k + 1) else tag_end_scan None (k + 1) s)"
| "tag_end_scan (Some q) k (c # s) = tag_end_scan (if q = c then None else Some q) (k + 1) s"

definition tag_end :: "string \<Rightarrow> nat \<Rightarrow> nat option" where
  "tag_end html from = tag_end_scan None from (drop from html)"

definition find_ci :: "string \<Rightarrow> string \<Rightarrow> nat \<Rightarrow> nat option" where
  "find_ci html needle from =
     (if length html < length needle then None
      else List.find (\<lambda>k. eq_ignore_ascii_case (slice html k (k + length needle)) needle)
             [from..<Suc (length html - length needle)])"

definition name_byte :: "char \<Rightarrow> bool" where
  "name_byte c \<longleftrightarrow> is_ascii_alphanumeric c \<or> c = CHR ''-''"

text \<open>The attributes of an opening tag: the first whose name \<open>want\<close> accepts, with its value.\<close>

definition key_byte :: "char \<Rightarrow> bool" where
  "key_byte c \<longleftrightarrow> c \<noteq> CHR ''='' \<and> c \<noteq> CHR ''>'' \<and> c \<noteq> CHR ''/'' \<and> \<not> is_ascii_whitespace c"

definition attr_value_at :: "string \<Rightarrow> string \<times> string" where
  "attr_value_at r =
     (case dropWhile is_ascii_whitespace r of
        c # r4 \<Rightarrow>
          if c \<noteq> CHR ''='' then ([], c # r4)
          else (case dropWhile is_ascii_whitespace r4 of
                  q # r6 \<Rightarrow>
                    if q = CHR 0x22 \<or> q = CHR 0x27
                    then (takeWhile (\<lambda>c. c \<noteq> q) r6, drop 1 (dropWhile (\<lambda>c. c \<noteq> q) r6))
                    else (takeWhile (\<lambda>c. \<not> is_ascii_whitespace c \<and> c \<noteq> CHR ''>'') (q # r6),
                          dropWhile (\<lambda>c. \<not> is_ascii_whitespace c \<and> c \<noteq> CHR ''>'') (q # r6))
                | [] \<Rightarrow> ([], []))
      | [] \<Rightarrow> ([], []))"

lemma dropWhile_tail_le: "dropWhile P xs = y # ys \<Longrightarrow> Suc (length ys) \<le> length xs"
  using length_dropWhile_le [of P xs] by simp

lemma attr_value_at_shorter: "length (snd (attr_value_at r)) \<le> length r"
proof (cases "dropWhile is_ascii_whitespace r")
  case (Cons c r4)
  note r4 = dropWhile_tail_le [OF Cons]
  show ?thesis
  proof (cases "dropWhile is_ascii_whitespace r4")
    case (Cons q r6)
    have "length (drop 1 (dropWhile (\<lambda>c. c \<noteq> q) r6)) \<le> length r6"
      "length (dropWhile (\<lambda>c. \<not> is_ascii_whitespace c \<and> c \<noteq> CHR ''>'') (q # r6)) \<le> Suc (length r6)"
      using length_dropWhile_le [of "\<lambda>c. c \<noteq> q" r6]
        length_dropWhile_le [of "\<lambda>c. \<not> is_ascii_whitespace c \<and> c \<noteq> CHR ''>''" "q # r6"] by (auto simp del: dropWhile.simps)
    then show ?thesis
      using r4 dropWhile_tail_le [OF Cons] \<open>dropWhile is_ascii_whitespace r = _\<close> Cons
      by (simp add: attr_value_at_def del: dropWhile.simps)
  qed (use r4 \<open>dropWhile is_ascii_whitespace r = _\<close> in \<open>simp add: attr_value_at_def del: dropWhile_eq_Nil_conv\<close>)
qed (simp add: attr_value_at_def del: dropWhile_eq_Nil_conv)

function find_attr_from :: "(string \<Rightarrow> bool) \<Rightarrow> string \<Rightarrow> (string \<times> string) option" where
  "find_attr_from want r =
     (case dropWhile (\<lambda>c. is_ascii_whitespace c \<or> c = CHR ''/'') r of
        [] \<Rightarrow> None
      | c # r1 \<Rightarrow>
          if c = CHR ''>'' then None
          else if c = CHR ''='' then find_attr_from want r1
          else let key = takeWhile key_byte (c # r1); (val, rest) = attr_value_at (dropWhile key_byte (c # r1))
               in if want key then Some (key, val) else find_attr_from want rest)"
  by pat_completeness auto

termination
proof (relation "measure (\<lambda>(want, r). length r)")
  fix want :: "string \<Rightarrow> bool" and r c r1
  assume d: "dropWhile (\<lambda>c. is_ascii_whitespace c \<or> c = CHR ''/'') r = c # r1"
  then have le: "Suc (length r1) \<le> length r" using length_dropWhile_le [of "\<lambda>c. is_ascii_whitespace c \<or> c = CHR ''/''" r] by simp
  show "((want, r1), (want, r)) \<in> measure (\<lambda>(want, r). length r)" using le by simp
  fix key pr val rest
  assume c: "c \<noteq> CHR ''>''" "c \<noteq> CHR ''=''" and pr: "pr = attr_value_at (dropWhile key_byte (c # r1))" "(val, rest) = pr"
  have "\<not> (is_ascii_whitespace c \<or> c = CHR ''/'')" using d hd_dropWhile [of "\<lambda>c. is_ascii_whitespace c \<or> c = CHR ''/''" r] by simp
  then have "key_byte c" using c by (simp add: key_byte_def)
  then have "length (dropWhile key_byte (c # r1)) \<le> length r1" by (simp add: length_dropWhile_le)
  moreover have "rest = snd (attr_value_at (dropWhile key_byte (c # r1)))" using pr by (metis snd_conv)
  ultimately have "length rest \<le> length r1" using attr_value_at_shorter le_trans by metis
  then show "((want, rest), (want, r)) \<in> measure (\<lambda>(want, r). length r)" using le by simp
qed simp

declare find_attr_from.simps [simp del]

definition find_attr_key :: "string \<Rightarrow> (string \<Rightarrow> bool) \<Rightarrow> (string \<times> string) option" where
  "find_attr_key tag want =
     (case dropWhile (\<lambda>c. \<not> is_ascii_whitespace c) tag of [] \<Rightarrow> None | r \<Rightarrow> find_attr_from want r)"

definition find_attr :: "string \<Rightarrow> (string \<Rightarrow> bool) \<Rightarrow> string option" where
  "find_attr tag want = map_option snd (find_attr_key tag want)"

definition attr_value :: "string \<Rightarrow> string \<Rightarrow> string option" where
  "attr_value tag name = find_attr tag (\<lambda>k. eq_ignore_ascii_case k name)"

definition has_attr :: "string \<Rightarrow> string \<Rightarrow> bool" where
  "has_attr tag name \<longleftrightarrow> attr_value tag name \<noteq> None"

section \<open>The doctype\<close>

text \<open>What follows leading white space and comments; \<open>None\<close> when a comment does not end.\<close>

function after_comments :: "string \<Rightarrow> string option" where
  "after_comments s =
     (let r = dropWhile is_ascii_whitespace s
      in if starts_with r ''<!--''
         then (case find_str (drop 4 r) ''-->'' of Some e \<Rightarrow> after_comments (drop (e + 3) (drop 4 r)) | None \<Rightarrow> None)
         else Some r)"
  by pat_completeness auto
termination
proof (relation "measure length")
  fix s r :: string and e
  assume "r = dropWhile is_ascii_whitespace s" and "starts_with r ''<!--''"
  then have "length r \<le> length s" "4 \<le> length r" by (auto simp: starts_with_iff length_dropWhile_le)
  then show "(drop (e + 3) (drop 4 r), s) \<in> measure length" by simp
qed simp

declare after_comments.simps [simp del]

definition html_tag :: "string \<Rightarrow> bool" where
  "html_tag r \<longleftrightarrow> 5 < length r \<and> eq_ignore_ascii_case (take 5 r) ''<html'' \<and>
     (r ! 5 = CHR ''>'' \<or> r ! 5 = CHR ''/'' \<or> is_ascii_whitespace (r ! 5))"

definition ensure_doctype :: "string \<Rightarrow> string" where
  "ensure_doctype html =
     (case after_comments html of
        None \<Rightarrow> html
      | Some r \<Rightarrow> if html_tag r then ''<!doctype html>'' @ html else html)"

section \<open>The hoist\<close>

text \<open>
  \<open>hs_skip\<close>: the open elements whose content stays, innermost last, each with the depth of its own name. A turn stops
  the scan at an unfinished tag; it panics where a name is cut inside a character.
\<close>

record hoist_state =
  hs_at :: nat
  hs_copied :: nat
  hs_kept :: string
  hs_hoisted :: string
  hs_skip :: "(string \<times> nat) list"

datatype 'a turn = Continue 'a | Stop | Panic

definition VOID :: "string list" where
  "VOID = [''area'', ''base'', ''br'', ''col'', ''embed'', ''hr'', ''img'', ''input'', ''link'', ''meta'', ''source'', ''track'', ''wbr'']"

definition OPAQUE :: "string list" where
  "OPAQUE = [''svg'', ''math'', ''template'', ''script'', ''style'', ''textarea'', ''brust-island'', ''noscript'']"

text \<open>A slice up to byte \<open>n\<close> is a character boundary: not before a continuation byte.\<close>

definition char_boundary :: "string \<Rightarrow> nat \<Rightarrow> bool" where
  "char_boundary s n \<longleftrightarrow> length s \<le> n \<or> \<not> utf8_cont (s ! n)"

definition bound_attr :: "string \<Rightarrow> bool option" where
  "bound_attr tag =
     (case find_attr_key tag (\<lambda>k. 2 < length k \<and> (\<not> char_boundary k 2 \<or> eq_ignore_ascii_case (take 2 k) ''x-'')) of
        None \<Rightarrow> Some False
      | Some (k, _) \<Rightarrow> if char_boundary k 2 then Some True else None)"

definition inert_link :: "string \<Rightarrow> bool" where
  "inert_link tag \<longleftrightarrow>
     (case attr_value tag ''rel'' of
        Some r \<Rightarrow> r \<noteq> [] \<and> \<not> contains_str (to_ascii_lowercase r) ''stylesheet''
      | None \<Rightarrow> False) \<and>
     (case attr_value tag ''href'' of Some h \<Rightarrow> h \<noteq> [] | None \<Rightarrow> False)"

definition hoistable :: "string \<Rightarrow> string \<Rightarrow> bool option" where
  "hoistable name tag =
     (if has_attr tag ''itemprop'' then Some False
      else map_option (\<lambda>b. \<not> b \<and> (name \<noteq> ''link'' \<or> inert_link tag)) (bound_attr tag))"

definition name_end :: "string \<Rightarrow> nat \<Rightarrow> nat" where
  "name_end html at = at + length (takeWhile name_byte (drop at html))"

definition hoist_element :: "string \<Rightarrow> string \<Rightarrow> nat \<Rightarrow> hoist_state \<Rightarrow> hoist_state turn" where
  "hoist_element html name e st =
     (let i = hs_at st;
          stop = (if name = ''title''
                  then (case Option.bind (find_ci html ''</title'' e) (tag_end html) of Some s \<Rightarrow> s | None \<Rightarrow> e)
                  else e)
      in case hoistable name (slice html i e) of
           None \<Rightarrow> Panic
         | Some True \<Rightarrow>
             Continue (st\<lparr>hs_at := stop, hs_copied := stop, hs_kept := hs_kept st @ slice html (hs_copied st) i,
                          hs_hoisted := hs_hoisted st @ slice html i stop\<rparr>)
         | Some False \<Rightarrow> Continue (st\<lparr>hs_at := stop\<rparr>))"

definition raw_text :: "string \<Rightarrow> bool" where
  "raw_text name \<longleftrightarrow> name \<in> {''script'', ''style'', ''textarea''}"

definition dynamic_tag :: "string \<Rightarrow> string \<Rightarrow> bool" where
  "dynamic_tag name tag \<longleftrightarrow>
     name = ''brust-if'' \<or> name = ''brust-row'' \<or>
     find_attr tag (\<lambda>k. eq_ignore_ascii_case k ''x-if'' \<or> eq_ignore_ascii_case k ''x-for'') \<noteq> None"

text \<open>A tag that is not the name of the innermost open element, or opens and closes it at once.\<close>

definition hoist_other :: "string \<Rightarrow> bool \<Rightarrow> string \<Rightarrow> nat \<Rightarrow> hoist_state \<Rightarrow> hoist_state turn" where
  "hoist_other html closing name e st =
     (let i = hs_at st; tag = slice html i e; self_closing = ends_with tag ''/>''; void = name \<in> set VOID;
          dynamic = (\<not> closing \<and> \<not> void \<and> \<not> self_closing \<and> dynamic_tag name tag)
      in if \<not> closing \<and> raw_text name \<and> \<not> self_closing then
           (let at = (case find_ci html (''</'' @ name) e of Some k \<Rightarrow> k | None \<Rightarrow> length html)
            in Continue (st\<lparr>hs_at := (case tag_end html at of Some k \<Rightarrow> k | None \<Rightarrow> length html)\<rparr>))
         else if \<not> closing \<and> \<not> self_closing \<and> (dynamic \<or> name \<in> set OPAQUE)
           then Continue (st\<lparr>hs_at := e, hs_skip := hs_skip st @ [(name, 1)]\<rparr>)
         else if closing \<or> hs_skip st \<noteq> [] \<or> name \<notin> {''title'', ''meta'', ''link''}
           then Continue (st\<lparr>hs_at := e\<rparr>)
         else hoist_element html name e st)"

definition hoist_tag :: "string \<Rightarrow> hoist_state \<Rightarrow> hoist_state turn" where
  "hoist_tag html st =
     (let i = hs_at st; closing = (i + 1 < length html \<and> html ! (i + 1) = CHR ''/'');
          name_at = i + 1 + (if closing then 1 else 0); ne = name_end html name_at;
          name = to_ascii_lowercase (slice html name_at ne)
      in case tag_end html ne of
           None \<Rightarrow> Stop
         | Some e \<Rightarrow>
             let self_closing = ends_with (slice html i e) ''/>''
             in if hs_skip st \<noteq> [] \<and> fst (last (hs_skip st)) = name \<and> closing
                then let depth = snd (last (hs_skip st)) - 1
                     in Continue (st\<lparr>hs_at := e, hs_skip := butlast (hs_skip st) @ (if depth = 0 then [] else [(name, depth)])\<rparr>)
                else if hs_skip st \<noteq> [] \<and> fst (last (hs_skip st)) = name \<and> name \<notin> set VOID \<and> \<not> self_closing
                then Continue (st\<lparr>hs_at := e, hs_skip := butlast (hs_skip st) @ [(name, snd (last (hs_skip st)) + 1)]\<rparr>)
                else hoist_other html closing name e st)"

definition hoist_turn :: "string \<Rightarrow> hoist_state \<Rightarrow> hoist_state turn" where
  "hoist_turn html st =
     (let i = hs_at st
      in if html ! i \<noteq> CHR ''<'' then Continue (st\<lparr>hs_at := i + 1\<rparr>)
         else if starts_with (drop i html) ''<!--''
         then Continue (st\<lparr>hs_at := (case find_str (drop (i + 4) html) ''-->'' of Some e \<Rightarrow> i + 4 + e + 3 | None \<Rightarrow> length html)\<rparr>)
         else hoist_tag html st)"

lemma tag_end_scan_bounds: "tag_end_scan q k s = Some e \<Longrightarrow> k < e \<and> e \<le> k + length s"
  by (induction q k s rule: tag_end_scan.induct) (fastforce split: if_splits)+

lemma tag_end_bounds: "tag_end html from = Some e \<Longrightarrow> from < e \<and> e \<le> max from (length html)"
  using tag_end_scan_bounds [of None "from" "drop from html" e] by (cases "from \<le> length html") (auto simp: tag_end_def)

lemma find_in_list: "List.find P xs = Some x \<Longrightarrow> x \<in> set xs \<and> P x"
  by (induction xs) (auto split: if_splits)

lemma find_ci_bounds: "find_ci html needle from = Some k \<Longrightarrow> from \<le> k \<and> k + length needle \<le> length html"
  using find_in_list by (fastforce simp: find_ci_def split: if_splits)

lemma name_end_ge: "at \<le> name_end html at"
  by (simp add: name_end_def)

text \<open>Every turn moves the scan on.\<close>

lemma hoist_element_advances:
  assumes "hoist_element html name e st = Continue st'" and "hs_at st < e" and "e \<le> length html"
  shows "hs_at st < hs_at st' \<and> hs_at st' \<le> length html"
proof -
  let ?stop = "if name = ''title'' then (case Option.bind (find_ci html ''</title'' e) (tag_end html) of Some s \<Rightarrow> s | None \<Rightarrow> e) else e"
  have "e \<le> ?stop \<and> ?stop \<le> length html"
    using find_ci_bounds tag_end_bounds assms(3) by (fastforce split: option.splits bind_splits)
  moreover have "hs_at st' = ?stop"
    using assms(1) by (auto simp: hoist_element_def Let_def split: option.splits bool.splits)
  ultimately show ?thesis using assms(2) by simp
qed

lemma hoist_other_advances:
  assumes "hoist_other html closing name e st = Continue st'" and "hs_at st < e" and "e \<le> length html"
  shows "hs_at st < hs_at st' \<and> hs_at st' \<le> length html"
proof -
  let ?at = "case find_ci html (''</'' @ name) e of Some k \<Rightarrow> k | None \<Rightarrow> length html"
  have at: "e \<le> ?at \<and> ?at \<le> length html" using find_ci_bounds assms(3) by (fastforce split: option.splits)
  have "e \<le> (case tag_end html ?at of Some k \<Rightarrow> k | None \<Rightarrow> length html) \<and>
      (case tag_end html ?at of Some k \<Rightarrow> k | None \<Rightarrow> length html) \<le> length html"
    using tag_end_bounds [of html ?at] at assms(3) by (fastforce split: option.split)
  then show ?thesis
    using assms hoist_element_advances [of html name e st st'] by (auto simp: hoist_other_def Let_def split: if_splits)
qed

lemma hoist_turn_advances:
  assumes "hoist_turn html st = Continue st'" and "hs_at st < length html"
  shows "hs_at st < hs_at st'"
proof (cases "html ! hs_at st = CHR ''<'' \<and> \<not> starts_with (drop (hs_at st) html) ''<!--''")
  case True
  let ?i = "hs_at st" and ?c = "hs_at st + 1 < length html \<and> html ! (hs_at st + 1) = CHR ''/''"
  let ?n = "name_end html (?i + 1 + (if ?c then 1 else 0))"
  have tag: "hoist_tag html st = Continue st'" using assms(1) True by (simp add: hoist_turn_def)
  then obtain e where e: "tag_end html ?n = Some e" by (auto simp: hoist_tag_def Let_def split: option.splits)
  have n: "?i < ?n" using name_end_ge [of "?i + 1 + (if ?c then 1 else 0)" html] by linarith
  moreover have "?n \<le> length html"
    using assms(2) length_takeWhile_le [of name_byte "drop (?i + 1 + (if ?c then 1 else 0)) html"] by (auto simp: name_end_def)
  ultimately have "?i < e" "e \<le> length html" using tag_end_bounds [OF e] by auto
  then show ?thesis
    using tag e hoist_other_advances [of html ?c _ e st st'] by (auto simp: hoist_tag_def Let_def split: if_splits)
next
  case False
  then show ?thesis using assms by (auto simp: hoist_turn_def Let_def split: if_splits option.splits)
qed

function hoist_loop :: "string \<Rightarrow> hoist_state \<Rightarrow> hoist_state option" where
  "hoist_loop html st =
     (if length html \<le> hs_at st then Some st
      else (case hoist_turn html st of
              Continue st' \<Rightarrow> hoist_loop html st'
            | Stop \<Rightarrow> Some st
            | Panic \<Rightarrow> None))"
  by pat_completeness auto
termination
  by (relation "measure (\<lambda>(html, st). length html - hs_at st)")
    (auto dest!: hoist_turn_advances simp: not_le intro: diff_less_mono2)

declare hoist_loop.simps [simp del]

definition hoist_head :: "string \<Rightarrow> string option" where
  "hoist_head html =
     (case find_ci html ''</head>'' 0 of
        None \<Rightarrow> Some html
      | Some head_end \<Rightarrow>
          let from = head_end + 7; tail = drop from html
          in if \<not> (contains_str tail ''<title'' \<or> contains_str tail ''<meta'' \<or> contains_str tail ''<link'') then Some html
             else (case hoist_loop html \<lparr>hs_at = from, hs_copied = from, hs_kept = [], hs_hoisted = [], hs_skip = []\<rparr> of
                     None \<Rightarrow> None
                   | Some st \<Rightarrow>
                       if hs_hoisted st = [] then Some html
                       else let kept = hs_kept st @ drop (hs_copied st) html
                            in Some (insert_str (take from html @ kept) head_end (hs_hoisted st))))"

section \<open>The generator tag\<close>

definition generator_byte :: "char \<Rightarrow> string" where
  "generator_byte c =
     (if c = CHR ''&'' then ''&amp;''
      else if c = CHR 0x22 then ''&quot;''
      else if c = CHR ''<'' then ''&lt;''
      else if c = CHR ''>'' then ''&gt;''
      else [c])"

definition generator_meta_tag :: "string \<Rightarrow> string" where
  "generator_meta_tag generator =
     ''<meta name='' @ [CHR 0x22] @ ''generator'' @ [CHR 0x22] @ '' content='' @ [CHR 0x22] @
     concat (map generator_byte generator) @ [CHR 0x22] @ ''>''"

text \<open>The suffix of the document that starts with the root \<^verbatim>\<open>html\<close> tag.\<close>

function html_suffix :: "string \<Rightarrow> string option" where
  "html_suffix s =
     (let r = dropWhile is_ascii_whitespace s
      in if starts_with r ''<!--''
         then (case find_str (drop 4 r) ''-->'' of Some e \<Rightarrow> html_suffix (drop (e + 3) (drop 4 r)) | None \<Rightarrow> None)
         else if 9 \<le> length r \<and> eq_ignore_ascii_case (take 9 r) ''<!doctype''
         then (case tag_end r 9 of Some e \<Rightarrow> html_suffix (drop e r) | None \<Rightarrow> None)
         else if html_tag r then Some r else None)"
  by pat_completeness auto
termination
proof (relation "measure length")
  fix s r :: string and e
  assume r: "r = dropWhile is_ascii_whitespace s"
  then have le: "length r \<le> length s" by (simp add: length_dropWhile_le)
  show "(drop (e + 3) (drop 4 r), s) \<in> measure length" if "starts_with r ''<!--''"
    using that le by (auto simp: starts_with_iff)
  show "(drop e r, s) \<in> measure length" if "9 \<le> length r \<and> eq_ignore_ascii_case (take 9 r) ''<!doctype''" "tag_end r 9 = Some e"
    using that le tag_end_bounds [OF that(2)] by auto
qed simp

declare html_suffix.simps [simp del]

definition html_start :: "string \<Rightarrow> nat option" where
  "html_start html = map_option (\<lambda>r. length html - length r) (html_suffix html)"

function generator_scan :: "string \<Rightarrow> bool" where
  "generator_scan s =
     (case dropWhile (\<lambda>c. c \<noteq> CHR ''<'') s of
        [] \<Rightarrow> False
      | c # cs \<Rightarrow>
          let r = c # cs
          in if starts_with r ''<!--''
             then generator_scan (case find_str (drop 4 r) ''-->'' of Some e \<Rightarrow> drop (e + 3) (drop 4 r) | None \<Rightarrow> [])
             else
               let ne = name_end r 1; name = to_ascii_lowercase (slice r 1 ne)
               in (case tag_end r ne of
                     None \<Rightarrow> False
                   | Some e \<Rightarrow>
                       if name = ''meta'' \<and>
                          (case attr_value (take e r) ''name'' of
                             Some v \<Rightarrow> eq_ignore_ascii_case (trim v) ''generator'' | None \<Rightarrow> False)
                       then True
                       else if name \<in> {''script'', ''style'', ''textarea'', ''title''} \<and> \<not> ends_with (take e r) ''/>''
                       then generator_scan (case Option.bind (find_ci r (''</'' @ name) e) (tag_end r) of Some k \<Rightarrow> drop k r | None \<Rightarrow> [])
                       else generator_scan (drop e r)))"
  by pat_completeness auto
termination
proof (relation "measure length")
  fix s cs r :: string and c
  assume d: "dropWhile (\<lambda>c. c \<noteq> CHR ''<'') s = c # cs" and r: "r = c # cs"
  have le: "0 < length r" "length r \<le> length s" using dropWhile_tail_le [OF d] by (simp_all add: r)
  have less: "length r - (7 + n) < length s" "0 < n \<Longrightarrow> length r - n < length s" "0 < length s" for n using le by linarith+
  show "(case find_str (drop 4 r) ''-->'' of Some e \<Rightarrow> drop (e + 3) (drop 4 r) | None \<Rightarrow> [], s) \<in> measure length"
    using less by (auto split: option.split)
  fix ne name e
  assume ne: "ne = name_end r 1" and e: "tag_end r ne = Some e"
  have "0 < e" using tag_end_bounds [OF e] by simp
  then show "(drop e r, s) \<in> measure length" using less(2) by simp
  have "Option.bind (find_ci r (''</'' @ name) e) (tag_end r) = Some k \<Longrightarrow> 0 < k" for k
    using tag_end_bounds by (fastforce split: bind_splits)
  then show "(case Option.bind (find_ci r (''</'' @ name) e) (tag_end r) of Some k \<Rightarrow> drop k r | None \<Rightarrow> [], s) \<in> measure length"
    using less(2,3) by (fastforce split: option.split)
qed simp

declare generator_scan.simps [simp del]

definition has_generator_meta :: "string \<Rightarrow> bool" where
  "has_generator_meta = generator_scan"

definition inject_generator :: "string \<Rightarrow> string \<Rightarrow> string" where
  "inject_generator html tag =
     (case find_ci html ''</head>'' 0 of
        Some h \<Rightarrow> if has_generator_meta (take h html) then html else insert_str html h tag
      | None \<Rightarrow>
          (case Option.bind (html_start html) (\<lambda>open. tag_end html (open + 5)) of
             None \<Rightarrow> html
           | Some e \<Rightarrow> if has_generator_meta (drop e html) then html else insert_str html e tag))"

section \<open>Properties\<close>

lemma after_comments_html:
  assumes "html_suffix s \<noteq> None"
  shows "\<exists>r. after_comments s = Some r \<and> (eq_ignore_ascii_case (take 9 r) ''<!doctype'' \<or> html_tag r)"
  using assms
proof (induction s rule: html_suffix.induct)
  case (1 s)
  let ?r = "dropWhile is_ascii_whitespace s"
  show ?case
  proof (cases "starts_with ?r ''<!--''")
    case True
    then obtain e where e: "find_str (drop 4 ?r) ''-->'' = Some e" using 1(3) by (subst (asm) html_suffix.simps) (auto simp: Let_def split: option.splits)
    moreover have "html_suffix (drop (e + 3) (drop 4 ?r)) \<noteq> None"
      using 1(3) e True by (subst (asm) html_suffix.simps) (simp add: Let_def)
    ultimately show ?thesis using 1(1) [OF refl True e] True by (subst after_comments.simps) simp
  next
    case False
    then have "eq_ignore_ascii_case (take 9 ?r) ''<!doctype'' \<or> html_tag ?r"
      using 1(3) by (subst (asm) html_suffix.simps) (auto simp: Let_def split: if_splits)
    then show ?thesis using False by (subst after_comments.simps) simp
  qed
qed

lemma doctype_not_html: "eq_ignore_ascii_case (take 9 r) ''<!doctype'' \<Longrightarrow> \<not> html_tag r"
proof
  assume d: "eq_ignore_ascii_case (take 9 r) ''<!doctype''" and h: "html_tag r"
  then obtain a b r' where r: "r = a # b # r'" by (cases r; cases "tl r") (auto simp: html_tag_def)
  have "ascii_lower b = CHR ''!''" using d r by (simp add: eq_ignore_ascii_case_def to_ascii_lowercase_def ascii_lower_def byte_simps)
  moreover have "ascii_lower b = CHR ''h''" using h r by (simp add: html_tag_def eq_ignore_ascii_case_def to_ascii_lowercase_def ascii_lower_def byte_simps)
  ultimately show False by simp
qed

text \<open>
  No full document is rendered in quirks mode. When the first element of a document, after white space, comments and
  doctypes, is the root tag, then after \<^verbatim>\<open>ensure_doctype\<close> a doctype precedes it (only white space and comments come
  before); the document is otherwise unchanged, and ensuring again adds nothing.
\<close>

theorem ensure_doctype_first:
  assumes "html_start html \<noteq> None"
  shows "(\<exists>r. after_comments (ensure_doctype html) = Some r \<and> eq_ignore_ascii_case (take 9 r) ''<!doctype'') \<and>
    (ensure_doctype html = html \<or> ensure_doctype html = ''<!doctype html>'' @ html) \<and>
    ensure_doctype (ensure_doctype html) = ensure_doctype html"
proof -
  have "html_suffix html \<noteq> None" using assms by (simp add: html_start_def)
  then obtain r where r: "after_comments html = Some r" "eq_ignore_ascii_case (take 9 r) ''<!doctype'' \<or> html_tag r"
    using after_comments_html by blast
  have new: "after_comments (''<!doctype html>'' @ html) = Some (''<!doctype html>'' @ html)"
    by (subst after_comments.simps) (simp add: starts_with_def is_ascii_whitespace_def)
  have "eq_ignore_ascii_case (take 9 (''<!doctype html>'' @ html)) ''<!doctype''" by simp
  then show ?thesis using r new doctype_not_html by (auto simp: ensure_doctype_def)
qed

theorem ensure_doctype_first_witness:
  "\<exists>r. after_comments (ensure_doctype ''<!-- a --> <HTML lang=en>'') = Some r \<and> eq_ignore_ascii_case (take 9 r) ''<!doctype''"
proof -
  have "html_start ''<!-- a --> <HTML lang=en>'' \<noteq> None" by code_simp
  from ensure_doctype_first [OF this] show ?thesis by blast
qed

text \<open>What the hoist takes: an element whose first tag is a hoistable title, meta or link.\<close>

definition hoisted_element :: "string \<Rightarrow> bool" where
  "hoisted_element s \<longleftrightarrow>
     (\<exists>name e. name \<in> {''title'', ''meta'', ''link''} \<and> s \<noteq> [] \<and> hd s = CHR ''<'' \<and>
        to_ascii_lowercase (take (length name) (tl s)) = name \<and> e \<le> length s \<and> hoistable name (take e s) = Some True)"

definition hoist_inv :: "string \<Rightarrow> nat \<Rightarrow> hoist_state \<Rightarrow> bool" where
  "hoist_inv html start st \<longleftrightarrow>
     start \<le> hs_copied st \<and> hs_copied st \<le> hs_at st \<and> hs_copied st \<le> length html \<and>
     (\<exists>ps. slice html start (hs_copied st) = concat (map (\<lambda>(k, s). k @ s) ps) \<and> hs_kept st = concat (map fst ps) \<and>
        hs_hoisted st = concat (map snd ps) \<and> (\<forall>(k, s)\<in>set ps. hoisted_element s))"

lemma length_slice: "length (slice s a b) = min (b - a) (length s - a)"
  by (simp add: slice_def min.commute)

lemma slice_append: "a \<le> b \<Longrightarrow> b \<le> c \<Longrightarrow> slice s a b @ slice s b c = slice s a c"
  using take_add [of "b - a" "c - b" "drop a s"] by (simp add: slice_def)

lemma hoist_inv_moved:
  "hoist_inv html start st \<Longrightarrow> hs_at st \<le> a \<Longrightarrow> hoist_inv html start (st\<lparr>hs_at := a\<rparr>) \<and> hoist_inv html start (st\<lparr>hs_at := a, hs_skip := k\<rparr>)"
  by (simp add: hoist_inv_def)

lemma hoist_element_inv:
  assumes "hoist_element html name e st = Continue st'" and inv: "hoist_inv html start st"
    and i: "hs_at st < e" "e \<le> length html" "html ! hs_at st = CHR ''<''"
    and name: "name \<in> {''title'', ''meta'', ''link''}" "to_ascii_lowercase (slice html (hs_at st + 1) ne) = name" "ne < e"
  shows "hoist_inv html start st'"
proof -
  let ?i = "hs_at st"
  define stop where "stop = (if name = ''title'' then (case Option.bind (find_ci html ''</title'' e) (tag_end html) of Some s \<Rightarrow> s | None \<Rightarrow> e) else e)"
  have stop: "e \<le> stop \<and> stop \<le> length html"
    unfolding stop_def using find_ci_bounds tag_end_bounds i(2) by (fastforce split: option.splits bind_splits)
  consider (moved) "st' = st\<lparr>hs_at := stop\<rparr>"
    | (taken) "hoistable name (slice html ?i e) = Some True"
      "st' = st\<lparr>hs_at := stop, hs_copied := stop, hs_kept := hs_kept st @ slice html (hs_copied st) ?i,
         hs_hoisted := hs_hoisted st @ slice html ?i stop\<rparr>"
    using assms(1) by (auto simp: hoist_element_def Let_def stop_def split: option.splits bool.splits)
  then show ?thesis
  proof cases
    case moved
    then show ?thesis using hoist_inv_moved [OF inv, of stop] stop i(1) by simp
  next
    case taken
    obtain ps where ps: "slice html start (hs_copied st) = concat (map (\<lambda>(k, s). k @ s) ps)" "hs_kept st = concat (map fst ps)"
      "hs_hoisted st = concat (map snd ps)" "\<forall>(k, s)\<in>set ps. hoisted_element s" and le: "start \<le> hs_copied st" "hs_copied st \<le> ?i"
      using inv by (auto simp: hoist_inv_def)
    have first: "slice html ?i stop = CHR ''<'' # slice html (?i + 1) stop"
      using i stop by (simp add: slice_def Cons_nth_drop_Suc [symmetric] Suc_diff_Suc take_Cons')
    have "length name = length (slice html (?i + 1) ne)" using name(2) by (metis length_to_ascii_lowercase)
    then have len: "length name = ne - (?i + 1)" using name(3) i(2) by (simp add: length_slice)
    then have "?i + 1 \<le> ne" using name(1) by (cases "ne \<le> ?i + 1") auto
    then have tl: "take (length name) (slice html (?i + 1) stop) = slice html (?i + 1) ne"
      using name(3) stop by (auto simp: slice_def len min_def)
    have "take (e - ?i) (slice html ?i stop) = slice html ?i e" "length (slice html ?i stop) = stop - ?i"
      using stop i by (auto simp: slice_def min_def)
    then have "hoisted_element (slice html ?i stop)"
      unfolding hoisted_element_def using name(1,2) taken(1) stop tl
      by (intro exI [of _ name] exI [of _ "e - ?i"] conjI) (simp_all add: first diff_le_mono)
    moreover have "slice html start stop = slice html start (hs_copied st) @ slice html (hs_copied st) ?i @ slice html ?i stop"
      using le i stop by (simp add: slice_append)
    ultimately show ?thesis
      unfolding hoist_inv_def using taken(2) ps le stop i
      by (intro conjI exI [of _ "ps @ [(slice html (hs_copied st) ?i, slice html ?i stop)]"]) auto
  qed
qed

lemma hoist_other_inv:
  assumes "hoist_other html closing name e st = Continue st'" and inv: "hoist_inv html start st"
    and i: "hs_at st < e" "e \<le> length html" "html ! hs_at st = CHR ''<''"
    and name: "\<not> closing \<Longrightarrow> to_ascii_lowercase (slice html (hs_at st + 1) ne) = name" "ne < e"
  shows "hoist_inv html start st'"
proof -
  have moved: "hs_at st < hs_at st'" using hoist_other_advances [OF assms(1) i(1,2)] by simp
  then consider "st' = st\<lparr>hs_at := hs_at st'\<rparr>" | k where "st' = st\<lparr>hs_at := hs_at st', hs_skip := k\<rparr>"
    | "\<not> closing" "name \<in> {''title'', ''meta'', ''link''}" "hoist_element html name e st = Continue st'"
    using assms(1) by (auto simp: hoist_other_def Let_def split: if_splits)
  then show ?thesis
  proof cases
    case 1
    then show ?thesis using hoist_inv_moved [OF inv, of "hs_at st'"] moved by (metis less_imp_le)
  next
    case (2 k)
    then show ?thesis using hoist_inv_moved [OF inv, of "hs_at st'" k] moved by (metis less_imp_le)
  next
    case 3
    show ?thesis by (rule hoist_element_inv [OF 3(3) inv i 3(2) name(1) [OF 3(1)] name(2)])
  qed
qed

lemma hoist_turn_inv:
  assumes turn: "hoist_turn html st = Continue st'" and inv: "hoist_inv html start st" and len: "hs_at st < length html"
  shows "hoist_inv html start st'"
proof -
  have adv: "hs_at st < hs_at st'" by (rule hoist_turn_advances [OF turn len])
  let ?i = "hs_at st"
  define closing where "closing = (?i + 1 < length html \<and> html ! (?i + 1) = CHR ''/'')"
  define ne where "ne = name_end html (?i + 1 + (if closing then 1 else 0))"
  define name where "name = to_ascii_lowercase (slice html (?i + 1 + (if closing then 1 else 0)) ne)"
  consider (moved) "st' = st\<lparr>hs_at := hs_at st'\<rparr>" | (tag) "html ! ?i = CHR ''<''" "hoist_tag html st = Continue st'"
    using turn by (auto simp: hoist_turn_def Let_def split: if_splits)
  then show ?thesis
  proof cases
    case moved
    then show ?thesis using hoist_inv_moved [OF inv, of "hs_at st'"] adv by (metis less_imp_le)
  next
    case tag
    then obtain e where e: "tag_end html ne = Some e"
      by (auto simp: hoist_tag_def Let_def ne_def closing_def split: option.splits)
    have "?i < ne" using name_end_ge [of "?i + 1 + (if closing then 1 else 0)" html] unfolding ne_def by linarith
    moreover have "ne \<le> length html"
      using len length_takeWhile_le [of name_byte "drop (?i + 1 + (if closing then 1 else 0)) html"] by (auto simp: name_end_def ne_def closing_def)
    ultimately have bounds: "?i < e" "e \<le> length html" "ne < e" using tag_end_bounds [OF e] by auto
    consider k where "st' = st\<lparr>hs_at := e, hs_skip := k\<rparr>" | "hoist_other html closing name e st = Continue st'"
      using tag(2) e unfolding hoist_tag_def Let_def closing_def [symmetric] ne_def [symmetric] name_def [symmetric]
      by (auto split: if_splits)
    then show ?thesis
    proof cases
      case (1 k)
      then show ?thesis using hoist_inv_moved [OF inv, of e k] bounds by simp
    next
      case 2
      show ?thesis
        by (rule hoist_other_inv [OF 2 inv bounds(1,2) tag(1) _ bounds(3)]) (simp add: name_def)
    qed
  qed
qed

lemma hoist_loop_inv:
  assumes "hoist_loop html st = Some st'" and "hoist_inv html start st"
  shows "hoist_inv html start st'"
  using assms
proof (induction html st rule: hoist_loop.induct)
  case (1 html st)
  show ?case
  proof (cases "length html \<le> hs_at st")
    case True
    then show ?thesis using 1(2,3) by (subst (asm) hoist_loop.simps) simp
  next
    case False
    show ?thesis
    proof (cases "hoist_turn html st")
      case (Continue st1)
      then have "hoist_loop html st1 = Some st'" using 1(2) False by (subst (asm) hoist_loop.simps) simp
      moreover have "hoist_inv html start st1" using hoist_turn_inv [OF Continue 1(3)] False by simp
      ultimately show ?thesis using 1(1) [OF False Continue] by blast
    next
      case Stop
      then show ?thesis using 1(2,3) False by (subst (asm) hoist_loop.simps) simp
    next
      case Panic
      then show ?thesis using 1(2) False by (subst (asm) hoist_loop.simps) simp
    qed
  qed
qed

text \<open>Every attribute of every tag has a name in ASCII: then no name is cut inside a character.\<close>

definition ascii_names :: "string \<Rightarrow> bool" where
  "ascii_names html \<longleftrightarrow>
     (\<forall>i e. i < length html \<and> html ! i = CHR ''<'' \<longrightarrow> find_attr_key (slice html i e) (\<lambda>k. \<not> all_ascii k) = None)"

lemma find_attr_from_none:
  "find_attr_from want r = Some (k, v) \<Longrightarrow> find_attr_from other r = None \<Longrightarrow> want k \<and> \<not> other k"
proof (induction want r rule: find_attr_from.induct)
  case (1 want r)
  show ?case
  proof (cases "dropWhile (\<lambda>c. is_ascii_whitespace c \<or> c = CHR ''/'') r")
    case Nil
    then show ?thesis using 1(3) by (subst (asm) find_attr_from.simps) (simp del: dropWhile_eq_Nil_conv)
  next
    case (Cons c r1)
    obtain val u where vu: "attr_value_at (dropWhile key_byte (c # r1)) = (val, u)" by fastforce
    note step = find_attr_from.simps [of _ r, unfolded Cons list.case Let_def vu prod.case]
    have c: "c \<noteq> CHR ''>''" using 1(3) unfolding step by auto
    show ?thesis
    proof (cases "c = CHR ''=''")
      case True
      then show ?thesis using 1(1) [OF Cons c True] 1(3,4) c unfolding step by simp
    next
      case False
      then show ?thesis
        using 1(2) [OF Cons c False refl vu [symmetric] refl] 1(3,4) c unfolding step by (auto split: if_splits)
    qed
  qed
qed

lemma find_attr_from_want: "find_attr_from want r = Some (k, v) \<Longrightarrow> want k"
proof -
  assume f: "find_attr_from want r = Some (k, v)"
  have "find_attr_from (\<lambda>_. False) r = None"
    by (induction "\<lambda>_::string. False" r rule: find_attr_from.induct) (subst find_attr_from.simps, auto split: list.split prod.split)
  then show ?thesis using find_attr_from_none [OF f] by blast
qed

lemma find_attr_key_none:
  assumes "find_attr_key tag want = Some (k, v)" and "find_attr_key tag other = None"
  shows "want k \<and> \<not> other k"
proof (cases "dropWhile (\<lambda>c. \<not> is_ascii_whitespace c) tag")
  case Nil
  then show ?thesis using assms(1) by (simp add: find_attr_key_def del: dropWhile_eq_Nil_conv)
next
  case (Cons c r)
  show ?thesis by (rule find_attr_from_none) (use assms Cons in \<open>simp_all add: find_attr_key_def\<close>)
qed

lemma ascii_boundary: "all_ascii k \<Longrightarrow> char_boundary k n"
  by (auto simp: char_boundary_def all_ascii_def list_all_length utf8_cont_def not_le)

lemma bound_attr_total:
  assumes "find_attr_key tag (\<lambda>k. \<not> all_ascii k) = None"
  shows "bound_attr tag \<noteq> None"
proof -
  have "char_boundary k 2" if "find_attr_key tag want = Some (k, v)" for want k v
    using find_attr_key_none [OF that assms] ascii_boundary by simp
  then show ?thesis by (auto simp: bound_attr_def split: option.split)
qed

lemma hoist_turn_total:
  assumes "ascii_names html" and "hs_at st < length html"
  shows "hoist_turn html st \<noteq> Panic"
proof
  assume "hoist_turn html st = Panic"
  then have lt: "html ! hs_at st = CHR ''<''" and tag: "hoist_tag html st = Panic"
    by (auto simp: hoist_turn_def Let_def split: if_splits)
  from tag obtain closing name e where "hoist_other html closing name e st = Panic"
    by (auto simp: hoist_tag_def Let_def split: option.splits if_splits)
  then have "hoist_element html name e st = Panic" by (auto simp: hoist_other_def Let_def split: if_splits)
  then have "hoistable name (slice html (hs_at st) e) = None"
    by (auto simp: hoist_element_def Let_def split: option.splits bool.splits)
  moreover have "bound_attr (slice html (hs_at st) e) \<noteq> None"
    by (rule bound_attr_total) (use assms lt in \<open>simp add: ascii_names_def\<close>)
  ultimately show False by (auto simp: hoistable_def split: if_splits)
qed

lemma hoist_loop_total: "ascii_names html \<Longrightarrow> hoist_loop html st \<noteq> None"
proof (induction html st rule: hoist_loop.induct)
  case (1 html st)
  then show ?case
    using hoist_turn_total [OF 1(2), of st] by (subst hoist_loop.simps) (auto simp: not_le split: turn.split)
qed


lemma dropWhile_suffix: "dropWhile P xs = y # ys \<Longrightarrow> suffix ys xs \<and> suffix (y # ys) xs"
  by (metis suffix_ConsD suffix_dropWhile)

lemma attr_value_at_suffix: "suffix (snd (attr_value_at r)) r"
proof (cases "dropWhile is_ascii_whitespace r")
  case (Cons c r4)
  note r4 = dropWhile_suffix [OF Cons]
  show ?thesis
  proof (cases "dropWhile is_ascii_whitespace r4")
    case (Cons q r6)
    have "suffix (drop 1 (dropWhile (\<lambda>c. c \<noteq> q) r6)) r"
      "suffix (dropWhile (\<lambda>c. \<not> is_ascii_whitespace c \<and> c \<noteq> CHR ''>'') (q # r6)) r"
      using dropWhile_suffix [OF Cons] r4 suffix_drop suffix_dropWhile suffix_order.trans by meson+
    then show ?thesis
      using r4 \<open>dropWhile is_ascii_whitespace r = _\<close> Cons
      by (simp add: attr_value_at_def del: dropWhile.simps)
  qed (use r4 \<open>dropWhile is_ascii_whitespace r = _\<close> in \<open>simp add: attr_value_at_def del: dropWhile_eq_Nil_conv\<close>)
qed (simp add: attr_value_at_def del: dropWhile_eq_Nil_conv)

lemma find_attr_from_subset: "find_attr_from want r = Some (k, v) \<Longrightarrow> set k \<subseteq> set r"
proof (induction want r rule: find_attr_from.induct)
  case (1 want r)
  show ?case
  proof (cases "dropWhile (\<lambda>c. is_ascii_whitespace c \<or> c = CHR ''/'') r")
    case Nil
    then show ?thesis using 1(3) by (subst (asm) find_attr_from.simps) (simp del: dropWhile_eq_Nil_conv)
  next
    case (Cons c r1)
    obtain val u where vu: "attr_value_at (dropWhile key_byte (c # r1)) = (val, u)" by fastforce
    note step = find_attr_from.simps [of _ r, unfolded Cons list.case Let_def vu prod.case]
    have sub: "set (c # r1) \<subseteq> set r" unfolding Cons [symmetric] using set_dropWhileD by fast
    have u: "set u \<subseteq> set (c # r1)"
      using set_mono_suffix [OF attr_value_at_suffix [of "dropWhile key_byte (c # r1)"]] set_mono_suffix [OF suffix_dropWhile [of key_byte "c # r1"]]
      unfolding vu snd_conv by (rule subset_trans)
    have c: "c \<noteq> CHR ''>''" using 1(3) unfolding step by auto
    show ?thesis
    proof (cases "c = CHR ''=''")
      case True
      then show ?thesis using 1(1) [OF Cons c True] 1(3) c sub unfolding step by auto
    next
      case False
      have "set (takeWhile key_byte (c # r1)) \<subseteq> set (c # r1)" using set_takeWhileD by fast
      then show ?thesis
        using 1(2) [OF Cons c False refl vu [symmetric] refl] 1(3) c False sub u unfolding step
        by (auto split: if_splits simp del: takeWhile.simps)
    qed
  qed
qed

lemma all_ascii_names: "all_ascii html \<Longrightarrow> ascii_names html"
proof -
  assume a: "all_ascii html"
  have "find_attr_key (slice html i e) (\<lambda>k. \<not> all_ascii k) = None" for i e
  proof (rule ccontr)
    assume "find_attr_key (slice html i e) (\<lambda>k. \<not> all_ascii k) \<noteq> None"
    then obtain k v r where f: "find_attr_from (\<lambda>k. \<not> all_ascii k) r = Some (k, v)"
      and r: "r = dropWhile (\<lambda>c. \<not> is_ascii_whitespace c) (slice html i e)"
      by (auto simp: find_attr_key_def simp del: dropWhile_eq_Nil_conv split: list.splits)
    have "\<not> all_ascii k" using find_attr_from_want [OF f] .
    moreover have "set k \<subseteq> set html"
      using find_attr_from_subset [OF f] set_dropWhileD [of _ "\<lambda>c. \<not> is_ascii_whitespace c" "slice html i e"]
        set_take_subset [of "e - i" "drop i html"] set_drop_subset [of i html] unfolding r slice_def by blast
    ultimately show False using a by (auto simp: all_ascii_def list_all_iff)
  qed
  then show ?thesis by (simp add: ascii_names_def)
qed

lemma moved_mset:
  assumes "drop (h + 7) s = concat (map (\<lambda>(k, s). k @ s) ps) @ rest"
  shows "mset (take h s @ concat (map snd ps) @ slice s h (h + 7) @ concat (map fst ps) @ rest) = mset s"
proof -
  have pieces: "mset (concat (map (\<lambda>(k, s). k @ s) ps)) = mset (concat (map fst ps)) + mset (concat (map snd ps))"
    by (induction ps) auto
  have "s = take h s @ slice s h (h + 7) @ drop (h + 7) s"
    using append_take_drop_id [of h s] append_take_drop_id [of 7 "drop h s"] by (simp add: slice_def add.commute)
  then have "mset s = mset (take h s) + mset (slice s h (h + 7)) + mset (drop (h + 7) s)" by (metis mset_append union_assoc)
  then show ?thesis using pieces by (simp add: assms)
qed


text \<open>
  The exception: a title, meta or link of the body with an attribute whose name begins with a character of three bytes
  makes the test for bound attributes cut the name inside that character.
\<close>

lemma hoist_panics: "hoist_head (''<head></head><meta '' @ [CHR 0xE0, CHR 0xB8, CHR 0x81] @ ''=a>'') = None"
  by code_simp

lemma decode_generator_byte: "decode_entities (generator_byte b @ r) = b # decode_entities r"
proof (cases "b = CHR 0x27")
  case True
  then show ?thesis by (simp add: generator_byte_def)
next
  case False
  then have "generator_byte b = escape_byte b" by (simp add: generator_byte_def escape_byte_def)
  then show ?thesis by (simp add: decode_escape_byte)
qed

lemma decode_generator: "decode_entities (concat (map generator_byte g)) = g"
  by (induction g) (simp_all add: decode_generator_byte)

lemma generator_plain: "c \<in> set (concat (map generator_byte g)) \<Longrightarrow> c \<noteq> CHR 0x22 \<and> c \<noteq> CHR ''<'' \<and> c \<noteq> CHR ''>''"
  by (auto simp: generator_byte_def split: if_splits)

lemma until_byte: "c \<notin> set xs \<Longrightarrow> takeWhile (\<lambda>x. x \<noteq> c) (xs @ c # r) = xs" "c \<notin> set xs \<Longrightarrow> dropWhile (\<lambda>x. x \<noteq> c) (xs @ c # r) = c # r"
  by (induction xs) auto

lemma find_attr_quoted:
  assumes "key \<noteq> []" and "list_all key_byte key" and "CHR 0x22 \<notin> set val"
  shows "find_attr_from want (CHR '' '' # key @ CHR ''='' # CHR 0x22 # val @ CHR 0x22 # rest) =
    (if want key then Some (key, val) else find_attr_from want rest)"
proof -
  obtain c key' where key: "key = c # key'" using assms(1) by (cases key) auto
  have c: "key_byte c" using assms(2) key by simp
  have d: "dropWhile (\<lambda>c. is_ascii_whitespace c \<or> c = CHR ''/'') (CHR '' '' # key @ CHR ''='' # CHR 0x22 # val @ CHR 0x22 # rest) =
      c # key' @ CHR ''='' # CHR 0x22 # val @ CHR 0x22 # rest"
    using c by (simp add: key key_byte_def is_ascii_whitespace_def)
  have k: "takeWhile key_byte (c # key' @ CHR ''='' # r) = key" "dropWhile key_byte (c # key' @ CHR ''='' # r) = CHR ''='' # r" for r
    using assms(2) takeWhile_append2 [of key key_byte "CHR ''='' # r"] dropWhile_append2 [of key key_byte "CHR ''='' # r"]
    by (simp_all add: key list_all_iff key_byte_def)
  note v = until_byte [OF assms(3)]
  have a: "attr_value_at (CHR ''='' # CHR 0x22 # val @ CHR 0x22 # rest) = (val, rest)"
    by (simp add: attr_value_at_def is_ascii_whitespace_def v)
  show ?thesis
    using c by (subst find_attr_from.simps) (simp add: d k a Let_def key_byte_def del: takeWhile.simps dropWhile.simps)
qed

text \<open>
  The generator tag says what it was given, whatever that is: it is one tag that ends with its last byte, a browser
  reads its name as \<^verbatim>\<open>generator\<close> and its content as the text itself.
\<close>

theorem generator_meta_tag_reads:
  "tag_end (generator_meta_tag g) 5 = Some (length (generator_meta_tag g)) \<and>
   attr_value (generator_meta_tag g) ''name'' = Some ''generator'' \<and>
   map_option decode_entities (attr_value (generator_meta_tag g) ''content'') = Some g"
proof -
  let ?e = "concat (map generator_byte g)"
  have quote: "tag_end_scan (Some (CHR 0x22)) k (s @ CHR 0x22 # r) = tag_end_scan None (k + length s + 1) r"
    if "CHR 0x22 \<notin> set s" for k s r
    using that by (induction s arbitrary: k) auto
  have no: "CHR 0x22 \<notin> set ?e" using generator_plain by blast
  have tag: "generator_meta_tag g = ''<meta'' @ CHR '' '' # ''name'' @ CHR ''='' # CHR 0x22 # ''generator'' @ CHR 0x22 #
      CHR '' '' # ''content'' @ CHR ''='' # CHR 0x22 # ?e @ CHR 0x22 # ''>''"
    by (simp add: generator_meta_tag_def)
  have names: "list_all key_byte ''name''" "list_all key_byte ''content''" by code_simp+
  have from_tag: "find_attr (generator_meta_tag g) want =
      (if want ''name'' then Some ''generator'' else if want ''content'' then Some ?e else map_option snd (find_attr_from want ''>''))" for want
    unfolding find_attr_def find_attr_key_def tag
    using find_attr_quoted [OF _ names(1), of "''generator''" want] find_attr_quoted [OF _ names(2) no, of want]
    by (simp add: is_ascii_whitespace_def)
  have "tag_end (generator_meta_tag g) 5 = Some (length (generator_meta_tag g))"
    using quote [OF no] by (simp add: tag_end_def generator_meta_tag_def)
  moreover have "attr_value (generator_meta_tag g) ''name'' = Some ''generator''"
    by (simp add: attr_value_def from_tag)
  moreover have "attr_value (generator_meta_tag g) ''content'' = Some ?e"
    by (simp add: attr_value_def from_tag eq_ignore_ascii_case_def to_ascii_lowercase_def)
  ultimately show ?thesis by (simp add: decode_generator)
qed

end
