(* ===== verification/Document.thy ===== *)
theory Document
  imports Page Markup
begin

text \<open>
  The document a page renders to (\<^verbatim>\<open>crates/brust-core/src/render.rs\<close>, \<^verbatim>\<open>render_document\<close> and
  \<^verbatim>\<open>render_chain_root_into\<close> of \<^verbatim>\<open>pipeline.rs\<close>): what a component's template sees, the chain rendered leaf first
  with its level markers, the stylesheet links, the scripts before the end of the body, the store snapshots and the
  preload links. The template engine is an argument, \<open>template id\<close> the compiled template if there is one, a function
  of the scope; \<open>blake3\<close> is the hexadecimal digest and \<open>num\<close> the text of a JSON number.
\<close>

section \<open>What a component sees\<close>

text \<open>A value of the engine: a node of the context, a view of it with keys hidden, markup that is not escaped again.\<close>

datatype 'n tvalue = TNode "'n node" | TView "'n node" "string list" | TSafe string

fun get_attr :: "'n tvalue \<Rightarrow> string \<Rightarrow> 'n tvalue option" where
  "get_attr (TNode n) key = map_option TNode (node_get n key)"
| "get_attr (TView n hidden) key = (if key \<in> set hidden then None else map_option TNode (node_get n key))"
| "get_attr (TSafe s) key = None"

record 'n overlay =
  ov_pairs :: "(string \<times> 'n tvalue) list"
  ov_maps :: "'n tvalue list"
  ov_props :: "'n tvalue option"

record 'n level_scope =
  sc_outlet :: "string option"
  sc_overlay :: "'n overlay"
  sc_base :: "'n tvalue"

fun first_some :: "('a \<Rightarrow> 'b option) \<Rightarrow> 'a list \<Rightarrow> 'b option" where
  "first_some f [] = None"
| "first_some f (x # xs) = (case f x of Some y \<Rightarrow> Some y | None \<Rightarrow> first_some f xs)"

definition scope_get :: "'n level_scope \<Rightarrow> string \<Rightarrow> 'n tvalue option" where
  "scope_get sc key =
     (case (if key = ''__outlet'' then map_option TSafe (sc_outlet sc) else None) of
        Some v \<Rightarrow> Some v
      | None \<Rightarrow>
          case (if key = PROPS_KEY then ov_props (sc_overlay sc) else None) of
            Some v \<Rightarrow> Some v
          | None \<Rightarrow>
              case first_some (\<lambda>m. get_attr m key) (rev (ov_maps (sc_overlay sc))) of
                Some v \<Rightarrow> Some v
              | None \<Rightarrow>
                  case map_of (rev (ov_pairs (sc_overlay sc))) key of
                    Some v \<Rightarrow> Some v
                  | None \<Rightarrow> get_attr (sc_base sc) key)"

section \<open>Level markers\<close>

definition ascii_graphic :: "char \<Rightarrow> bool" where
  "ascii_graphic c \<longleftrightarrow> 33 \<le> byte c \<and> byte c \<le> 126"

definition marker_safe :: "string \<Rightarrow> bool" where
  "marker_safe s \<longleftrightarrow>
     s \<noteq> [] \<and>
     list_all (\<lambda>b. ascii_graphic b \<and> b \<noteq> CHR ''<'' \<and> b \<noteq> CHR ''>'' \<and> b \<noteq> CHR 0x22 \<and> b \<noteq> CHR 0x27 \<and>
                   b \<noteq> CHR ''&'' \<and> b \<noteq> CHR 0x60) s \<and>
     \<not> contains_str s ''--'' \<and> \<not> ends_with s ''-''"

text \<open>The first \<^verbatim>\<open>head\<close> element, its end tag included.\<close>

function head_start :: "string \<Rightarrow> nat \<Rightarrow> nat option" where
  "head_start html from =
     (case find_ci html ''<head'' from of
        None \<Rightarrow> None
      | Some i \<Rightarrow>
          if i + 5 < length html \<and> (html ! (i + 5) = CHR ''>'' \<or> html ! (i + 5) = CHR ''/'' \<or> is_ascii_whitespace (html ! (i + 5)))
          then Some i
          else head_start html (i + 5))"
  by pat_completeness auto
termination
  by (relation "measure (\<lambda>(html, from). Suc (length html) - from)") (auto dest: find_ci_bounds)

declare head_start.simps [simp del]

definition head_range :: "string \<Rightarrow> (nat \<times> nat) option" where
  "head_range html =
     Option.bind (head_start html 0) (\<lambda>a. map_option (\<lambda>e. (a, e + 7)) (find_ci html ''</head>'' a))"

lemma find_str_Some:
  "find_str s n = Some k \<longleftrightarrow>
     k \<le> length s \<and> starts_with (drop k s) n \<and> (\<forall>j<k. \<not> starts_with (drop j s) n)"
  by (auto simp: find_str_def find_Some_iff nth_append intro!: exI [of _ k]; fastforce simp: less_Suc_eq_le)

lemma find_str_bounds: "find_str s n = Some k \<Longrightarrow> n \<noteq> [] \<Longrightarrow> k + length n \<le> length s \<and> s \<noteq> []"
  by (cases s) (auto simp: find_str_Some starts_with_iff dest!: arg_cong [where f = length])

text \<open>\<^verbatim>\<open>str::match_indices\<close>: the matches that do not overlap, from the left.\<close>

function match_indices :: "string \<Rightarrow> nat \<Rightarrow> string \<Rightarrow> nat list" where
  "match_indices c at s =
     (if c = [] then []
      else case find_str s c of
             None \<Rightarrow> []
           | Some i \<Rightarrow> (at + i) # match_indices c (at + i + length c) (drop (i + length c) s))"
  by pat_completeness auto
termination
  by (relation "measure (\<lambda>(c, at, s). length s)") (auto dest: find_str_bounds)

declare match_indices.simps [simp del]

text \<open>The kept segments between the cuts, which are sorted first.\<close>

fun kept_segments :: "string \<Rightarrow> nat \<Rightarrow> (nat \<times> nat) list \<Rightarrow> string list" where
  "kept_segments html at [] = [drop at html]"
| "kept_segments html at ((a, b) # cuts) =
     (if b \<le> at then kept_segments html at cuts
      else slice html at (max a at) # kept_segments html b cuts)"

definition level_segments :: "string \<Rightarrow> string option \<Rightarrow> bool \<Rightarrow> string list" where
  "level_segments html child root =
     (let cut = (case child of None \<Rightarrow> [] | Some c \<Rightarrow> map (\<lambda>i. (i, i + length c)) (match_indices c 0 html));
          cut = cut @ (case (root, head_range html) of (True, Some r) \<Rightarrow> [r] | _ \<Rightarrow> [])
      in kept_segments html 0 (sort_key fst (sort_key snd cut)))"

definition u64_le_bytes :: "nat \<Rightarrow> string" where
  "u64_le_bytes n = map (\<lambda>i. char_of (n div 256 ^ i mod 256)) [0..<8]"

definition framed :: "string list \<Rightarrow> string" where
  "framed segments = concat (map (\<lambda>s. u64_le_bytes (length s) @ s) segments)"

definition level_preimage :: "string \<Rightarrow> string option \<Rightarrow> bool \<Rightarrow> string" where
  "level_preimage html child root = framed (level_segments html child root)"

definition level_hash :: "(string \<Rightarrow> string) \<Rightarrow> string \<Rightarrow> string option \<Rightarrow> bool \<Rightarrow> string" where
  "level_hash blake3 html child root = take 16 (blake3 (level_preimage html child root))"

definition open_marker :: "string \<Rightarrow> string \<Rightarrow> string" where
  "open_marker level hash = ''<!--brust-l:'' @ level @ '':'' @ hash @ ''-->''"

definition close_marker :: "string \<Rightarrow> string" where
  "close_marker level = ''<!--/brust-l:'' @ level @ ''-->''"

section \<open>The chain\<close>

datatype render_error = UnknownTemplate string | RenderFailed string string

type_synonym 'n engine = "string \<Rightarrow> ('n level_scope \<Rightarrow> string + string) option"

text \<open>One level of the chain, then its parents; the state is the child's markup, the document and the root's mark.\<close>

fun render_levels ::
  "'n engine \<Rightarrow> (string \<Rightarrow> string) \<Rightarrow> 'n tvalue \<Rightarrow> (string \<Rightarrow> 'n overlay) \<Rightarrow> nat \<Rightarrow> (nat \<times> string) list \<Rightarrow>
   string option \<times> string \<times> string option \<Rightarrow> render_error + string option \<times> string \<times> string option" where
  "render_levels template blake3 base overlay marked [] st = Ok st"
| "render_levels template blake3 base overlay marked ((pos, level) # rest) (outlet, out, root) =
     (case template level of
        None \<Rightarrow> Err (UnknownTemplate level)
      | Some t \<Rightarrow>
          case t \<lparr>sc_outlet = outlet, sc_overlay = overlay level, sc_base = base\<rparr> of
            Inl msg \<Rightarrow> Err (RenderFailed level msg)
          | Inr s \<Rightarrow>
              if pos = 0
              then render_levels template blake3 base overlay marked rest
                     (None, s,
                      if pos < marked then Some (level @ '':'' @ level_hash blake3 s outlet True) else root)
              else render_levels template blake3 base overlay marked rest
                     (Some (if pos < marked
                            then open_marker level (level_hash blake3 s outlet False) @ s @ close_marker level
                            else s),
                      out, root))"

definition render_chain_marked ::
  "'n engine \<Rightarrow> (string \<Rightarrow> string) \<Rightarrow> string list \<Rightarrow> 'n tvalue \<Rightarrow> (string \<Rightarrow> 'n overlay) \<Rightarrow> (string \<Rightarrow> bool) \<Rightarrow>
   render_error + string \<times> string option" where
  "render_chain_marked template blake3 chain base overlay unmarked =
     (let marked = length (takeWhile (\<lambda>i. marker_safe i \<and> \<not> unmarked i) chain)
      in bind_result
           (render_levels template blake3 base overlay marked (rev (zip [0..<length chain] chain)) (None, [], None))
           (\<lambda>(_, out, root). Ok (out, root)))"

definition props_view :: "'n node \<Rightarrow> 'n tvalue" where
  "props_view ctx = (case ctx of NMap m hint \<Rightarrow> TView ctx PROPS_HIDDEN | _ \<Rightarrow> TNode ctx)"

definition chain_overlay :: "'n manifest \<Rightarrow> string \<Rightarrow> 'n node \<Rightarrow> string \<Rightarrow> 'n overlay" where
  "chain_overlay m route_id ctx level =
     \<lparr>ov_pairs = map (\<lambda>(k, v). (k, TNode (NStr v)))
        (use_ids route_id level (case map_of (mf_components m) level of Some c \<Rightarrow> cr_use_id_slots c | None \<Rightarrow> 0)),
      ov_maps = List.map_filter
        (\<lambda>all. case Option.bind all (\<lambda>a. node_get a level) of Some (NMap e h) \<Rightarrow> Some (TNode (NMap e h)) | _ \<Rightarrow> None)
        [node_get ctx CHILDREN_KEY, node_get ctx OWN_KEY],
      ov_props = Some (props_view ctx)\<rparr>"

definition is_island :: "'n manifest \<Rightarrow> string \<Rightarrow> bool" where
  "is_island m level = (case map_of (mf_components m) level of Some c \<Rightarrow> cr_tier c = ReactTier | None \<Rightarrow> False)"

definition render_chain_root ::
  "'n engine \<Rightarrow> (string \<Rightarrow> string) \<Rightarrow> 'n manifest \<Rightarrow> string \<Rightarrow> string list \<Rightarrow> 'n node \<Rightarrow>
   render_error + string \<times> string option" where
  "render_chain_root template blake3 m route_id chain ctx =
     render_chain_marked template blake3 chain (TNode ctx) (chain_overlay m route_id ctx) (is_island m)"

section \<open>Stylesheet links\<close>

definition css_link :: "string \<Rightarrow> string \<Rightarrow> string" where
  "css_link base p =
     ''<link rel='' @ [CHR 0x22] @ ''stylesheet'' @ [CHR 0x22] @ '' href='' @ [CHR 0x22] @ base @ ''/_brust/'' @ p @
     [CHR 0x22] @ '' data-brust-css>''"

text \<open>One past the end of the tag that starts at \<open>i\<close>.\<close>

definition tag_close :: "string \<Rightarrow> nat \<Rightarrow> nat" where
  "tag_close html i = (case find_str (drop i html) ''>'' of Some e \<Rightarrow> i + e + 1 | None \<Rightarrow> length html)"

definition head_open :: "string \<Rightarrow> nat option" where
  "head_open html =
     (case (find_str html ''<head>'', find_str html ''<head '') of
        (Some a, Some b) \<Rightarrow> Some (min a b)
      | (Some a, None) \<Rightarrow> Some a
      | (None, b) \<Rightarrow> b)"

definition css_insert_at :: "string \<Rightarrow> nat" where
  "css_insert_at html =
     (case head_open html of
        None \<Rightarrow>
          let lead = length html - length (trim_start html)
          in if eq_ignore_ascii_case (take 9 (drop lead html)) ''<!doctype'' then tag_close html lead else 0
      | Some h \<Rightarrow>
          let after = tag_close html h;
              rest = drop after html;
              k = after + (length rest - length (trim_start rest))
          in if eq_ignore_ascii_case (take 5 (drop k html)) ''<meta''
             then let end_at = tag_close html k
                  in if contains_str (to_ascii_lowercase (slice html k end_at)) ''charset'' then end_at else after
             else after)"

definition inject_css :: "string \<Rightarrow> string list \<Rightarrow> string \<Rightarrow> string" where
  "inject_css html css base =
     (if css = [] then html else insert_str html (css_insert_at html) (concat (map (css_link base) css)))"

section \<open>Store snapshots\<close>

text \<open>\<open>script_json\<close>: the five characters that could end or break a script, the last two as their UTF-8 bytes.\<close>

fun script_json :: "string \<Rightarrow> string" where
  "script_json [] = []"
| "script_json (c # s) =
     (if c = CHR ''<'' then CHR 0x5C # ''u003c'' @ script_json s
      else if c = CHR ''>'' then CHR 0x5C # ''u003e'' @ script_json s
      else if c = CHR ''&'' then CHR 0x5C # ''u0026'' @ script_json s
      else if c = CHR 0xE2 \<and> take 2 s = [CHR 0x80, CHR 0xA8] then CHR 0x5C # ''u2028'' @ script_json (drop 2 s)
      else if c = CHR 0xE2 \<and> take 2 s = [CHR 0x80, CHR 0xA9] then CHR 0x5C # ''u2029'' @ script_json (drop 2 s)
      else c # script_json s)"

definition store_byte :: "char \<Rightarrow> bool" where
  "store_byte c \<longleftrightarrow> is_ascii_alphanumeric c \<or> c = CHR ''_'' \<or> c = CHR ''.'' \<or> c = CHR '':'' \<or> c = CHR ''-''"

definition store_script :: "('n \<Rightarrow> string) \<Rightarrow> string \<times> 'n node \<Rightarrow> string" where
  "store_script num = (\<lambda>(name, state).
     let clean = filter store_byte name
     in if clean = [] then []
        else ''<script type='' @ [CHR 0x22] @ ''application/json'' @ [CHR 0x22] @ '' data-brust-store='' @ [CHR 0x22] @
             clean @ [CHR 0x22] @ ''>'' @ script_json (json_text num (serialize state)) @ ''</script>'')"

definition store_scripts :: "('n \<Rightarrow> string) \<Rightarrow> 'n node \<Rightarrow> string" where
  "store_scripts num store = (case store of NMap m hint \<Rightarrow> concat (map (store_script num) m) | _ \<Rightarrow> [])"

section \<open>Scripts and preload links\<close>

text \<open>What the components of the page ask for: \<open>visit\<close> reads one of them.\<close>

record page_assets =
  pa_chunks :: "string list"
  pa_react :: "string list"
  pa_features :: "string list"
  pa_dynamic :: bool

definition add_new :: "string \<Rightarrow> string list \<Rightarrow> string list" where
  "add_new x xs = (if x \<in> set xs then xs else xs @ [x])"

definition visit :: "'n manifest \<Rightarrow> string \<Rightarrow> page_assets \<Rightarrow> page_assets" where
  "visit m level st =
     (case map_of (mf_components m) level of
        None \<Rightarrow> st
      | Some c \<Rightarrow>
          let st = st\<lparr>pa_dynamic := pa_dynamic st \<or> cr_tier c \<noteq> StaticTier, pa_features := pa_features st @ cr_features c\<rparr>
          in case cr_client c of
               None \<Rightarrow> st
             | Some cl \<Rightarrow>
                 if cr_tier c = ReactTier then st\<lparr>pa_react := add_new cl (pa_react st)\<rparr>
                 else st\<lparr>pa_chunks := add_new cl (pa_chunks st)\<rparr>)"

definition job_targets :: "'n component_record \<Rightarrow> string list" where
  "job_targets c = List.map_filter jr_target (cr_jobs c)"

text \<open>The visits of the asset injection, and the components of a page as its trace names them.\<close>

definition visited :: "'n manifest \<Rightarrow> string list \<Rightarrow> string list" where
  "visited m chain =
     concat (map (\<lambda>i. i #
       (case map_of (mf_components m) i of
          None \<Rightarrow> []
        | Some c \<Rightarrow>
            job_targets c @
            concat (map (\<lambda>ch. ch_id ch #
              (case map_of (mf_components m) (ch_id ch) of None \<Rightarrow> [] | Some cc \<Rightarrow> job_targets cc)) (cr_children c)))) chain)"

definition page_components :: "string list \<Rightarrow> 'n manifest \<Rightarrow> string list" where
  "page_components chain m =
     fold (\<lambda>i out.
       let out = add_new i out
       in case map_of (mf_components m) i of
            None \<Rightarrow> out
          | Some c \<Rightarrow> fold add_new (map ch_id (cr_children c)) (fold add_new (job_targets c) out))
     chain []"

definition page_assets_of :: "'n manifest \<Rightarrow> string list \<Rightarrow> page_assets" where
  "page_assets_of m chain =
     fold (visit m) (visited m chain) \<lparr>pa_chunks = [], pa_react = [], pa_features = [], pa_dynamic = False\<rparr>"

definition script_tag :: "string \<Rightarrow> string \<Rightarrow> string" where
  "script_tag base p =
     ''<script type='' @ [CHR 0x22] @ ''module'' @ [CHR 0x22] @ '' src='' @ [CHR 0x22] @ base @ ''/_brust/'' @ p @
     [CHR 0x22] @ ''></script>''"

definition nav_tag :: "'n manifest \<Rightarrow> string option \<Rightarrow> string \<Rightarrow> string" where
  "nav_tag m root nav =
     ''<script type='' @ [CHR 0x22] @ ''module'' @ [CHR 0x22] @ '' src='' @ [CHR 0x22] @ mf_base_path m @ ''/_brust/'' @ nav @
     [CHR 0x22] @ '' data-brust-nav data-brust-build='' @ [CHR 0x22] @
     (case as_build (mf_assets m) of Some b \<Rightarrow> b | None \<Rightarrow> []) @ [CHR 0x22] @
     (if mf_base_path m = [] then []
      else '' data-brust-base='' @ [CHR 0x22] @ mf_base_path m @ [CHR 0x22]) @
     (case root of None \<Rightarrow> [] | Some r \<Rightarrow> '' data-brust-root='' @ [CHR 0x22] @ r @ [CHR 0x22]) @
     ''></script>''"

definition PRELOAD_ONLY :: "string list" where
  "PRELOAD_ONLY = [''store'']"

definition css_start :: string where
  "css_start = ''<link rel='' @ [CHR 0x22] @ ''stylesheet'' @ [CHR 0x22] @ '' href='' @ [CHR 0x22]"

lemma tag_close_bounds: "i < length html \<Longrightarrow> i < tag_close html i \<and> tag_close html i \<le> length html"
  using find_str_bounds [of "drop i html" "''>''"] by (auto simp: tag_close_def split: option.splits)

text \<open>Past the stylesheet links that \<^verbatim>\<open>inject_css_into\<close> wrote, told by their marker.\<close>

function past_css :: "string \<Rightarrow> nat \<Rightarrow> nat" where
  "past_css html at =
     (if starts_with (drop at html) css_start \<and> ends_with (slice html at (tag_close html at)) '' data-brust-css>''
      then past_css html (tag_close html at)
      else at)"
  by pat_completeness auto

termination
proof (relation "measure (\<lambda>(html, at). length html - at)", goal_cases)
  case (2 html at)
  then have "at < length html"
    by (auto simp: css_start_def starts_with_iff dest!: arg_cong [where f = length])
  then show ?case using tag_close_bounds by (simp add: diff_less_mono2)
qed simp

declare past_css.simps [simp del]

definition preload_insert_at :: "string \<Rightarrow> nat option" where
  "preload_insert_at html =
     (if \<not> contains_str html ''<head>'' \<and> \<not> contains_str html ''<head '' then None
      else Some (past_css html (css_insert_at html)))"

definition preload_link :: "string \<Rightarrow> string \<Rightarrow> string" where
  "preload_link base f =
     ''<link rel='' @ [CHR 0x22] @ ''modulepreload'' @ [CHR 0x22] @ '' href='' @ [CHR 0x22] @ base @ ''/_brust/'' @ f @
     [CHR 0x22] @ ''>''"

text \<open>The scripts of a page with a runtime: the prefix script, the snapshots, the runtime, its features, the chunks.\<close>

definition needed_features :: "'n manifest \<Rightarrow> page_assets \<Rightarrow> (string \<times> string) list" where
  "needed_features m pa = filter (\<lambda>(name, _). name \<in> set (pa_features pa)) (as_features (mf_assets m))"

definition page_scripts :: "('n \<Rightarrow> string) \<Rightarrow> 'n manifest \<Rightarrow> page_assets \<Rightarrow> 'n node option \<Rightarrow> string option \<Rightarrow> string" where
  "page_scripts num m pa store prefix_tag =
     (let tag = script_tag (mf_base_path m)
      in (case prefix_tag of None \<Rightarrow> [] | Some t \<Rightarrow> t) @
         (case store of None \<Rightarrow> [] | Some st \<Rightarrow> store_scripts num st) @
         tag (as_runtime (mf_assets m)) @
         concat (map (\<lambda>(name, file). if name \<in> set PRELOAD_ONLY then [] else tag file) (needed_features m pa)) @
         concat (map tag (pa_chunks pa)) @
         (if pa_react pa = [] then []
          else (case as_react (mf_assets m) of None \<Rightarrow> [] | Some r \<Rightarrow> tag r) @ concat (map tag (pa_react pa))))"

definition body_end :: "string \<Rightarrow> nat" where
  "body_end html = (case rfind_str html ''</body>'' of Some i \<Rightarrow> i | None \<Rightarrow> length html)"

definition nav_tags :: "'n manifest \<Rightarrow> string option \<Rightarrow> string \<Rightarrow> string" where
  "nav_tags m root html =
     (case as_nav (mf_assets m) of
        Some nav \<Rightarrow> if rfind_str html ''</body>'' \<noteq> None then nav_tag m root nav else []
      | None \<Rightarrow> [])"

definition preload_links :: "'n manifest \<Rightarrow> page_assets \<Rightarrow> string" where
  "preload_links m pa =
     concat (map (preload_link (mf_base_path m)) (as_runtime (mf_assets m) # map snd (needed_features m pa)))"

definition inject_document_assets ::
  "('n \<Rightarrow> string) \<Rightarrow> string \<Rightarrow> string list \<Rightarrow> 'n manifest \<Rightarrow> 'n node option \<Rightarrow> string option \<Rightarrow> string option \<Rightarrow> string" where
  "inject_document_assets num html chain m store prefix_tag root =
     (let pa = page_assets_of m chain;
          tags = nav_tags m root html
      in if \<not> pa_dynamic pa then (if tags = [] then html else insert_str html (body_end html) tags)
         else let html = insert_str html (body_end html) (tags @ page_scripts num m pa store prefix_tag)
              in case preload_insert_at html of
                   None \<Rightarrow> html
                 | Some at \<Rightarrow> insert_str html at (preload_links m pa))"

section \<open>The document\<close>

text \<open>
  \<^verbatim>\<open>render_document\<close> without its buffer hint (that is in \<open>Page\<close>); \<open>None\<close> where the hoist panics.
\<close>

definition assemble ::
  "('n \<Rightarrow> string) \<Rightarrow> 'n manifest \<Rightarrow> string option \<Rightarrow> string option \<Rightarrow> route_record \<Rightarrow> 'n node \<Rightarrow>
   string \<times> string option \<Rightarrow> string option" where
  "assemble num m generator prefix_tag route ctx = (\<lambda>(out, root).
     map_option
       (\<lambda>out.
          let out = (case generator of None \<Rightarrow> out | Some tag \<Rightarrow> inject_generator out tag);
              out = inject_css out (rr_css route) (mf_base_path m)
          in inject_document_assets num out (rr_chain route) m (node_get ctx STORE_KEY) prefix_tag root)
       (hoist_head (ensure_doctype out)))"

definition page_document ::
  "'n engine \<Rightarrow> (string \<Rightarrow> string) \<Rightarrow> ('n \<Rightarrow> string) \<Rightarrow> 'n manifest \<Rightarrow> string option \<Rightarrow> string option \<Rightarrow>
   route_record \<Rightarrow> 'n node \<Rightarrow> render_error + string option" where
  "page_document template blake3 num m generator prefix_tag route ctx =
     bind_result (render_chain_root template blake3 m (rr_id route) (rr_chain route) ctx)
       (\<lambda>r. Ok (assemble num m generator prefix_tag route ctx r))"

section \<open>Snapshots cannot end their script\<close>

text \<open>How a JSON reader sees the five escapes: \<open>script_read\<close> puts the characters back.\<close>

function script_read :: "string \<Rightarrow> string" where
  "script_read [] = []"
| "script_read (c # s) =
     (if c \<noteq> CHR 0x5C then c # script_read s
      else if take 5 s = ''u003c'' then CHR ''<'' # script_read (drop 5 s)
      else if take 5 s = ''u003e'' then CHR ''>'' # script_read (drop 5 s)
      else if take 5 s = ''u0026'' then CHR ''&'' # script_read (drop 5 s)
      else if take 5 s = ''u2028'' then [CHR 0xE2, CHR 0x80, CHR 0xA8] @ script_read (drop 5 s)
      else if take 5 s = ''u2029'' then [CHR 0xE2, CHR 0x80, CHR 0xA9] @ script_read (drop 5 s)
      else c # take 1 s @ script_read (drop 1 s))"
  by pat_completeness auto
termination by (relation "measure length") auto

declare script_read.simps [simp del]

text \<open>The escapes a serialised value holds.\<close>

fun json_escapes :: "string \<Rightarrow> bool" where
  "json_escapes [] \<longleftrightarrow> True"
| "json_escapes [c] \<longleftrightarrow> c \<noteq> CHR 0x5C"
| "json_escapes (c # d # s) \<longleftrightarrow>
     (if c = CHR 0x5C
      then d \<in> {CHR 0x22, CHR 0x5C, CHR ''b'', CHR ''t'', CHR ''n'', CHR ''f'', CHR ''r'', CHR ''u''} \<and>
           (d = CHR ''u'' \<longrightarrow> take 2 s = ''00'' \<and> take 1 (drop 2 s) \<in> {''0'', ''1''}) \<and> json_escapes s
      else json_escapes (d # s))"

lemma json_escapes_Cons: "c \<noteq> CHR 0x5C \<Longrightarrow> json_escapes (c # s) = json_escapes s"
  by (cases s) auto

definition escapes_closed :: "string \<Rightarrow> bool" where
  "escapes_closed a \<longleftrightarrow> (\<forall>r. json_escapes (a @ r) = json_escapes r)"

lemma escapes_closed_append: "escapes_closed a \<Longrightarrow> escapes_closed b \<Longrightarrow> escapes_closed (a @ b)"
  by (simp add: escapes_closed_def)

lemma escapes_closed_plain: "CHR 0x5C \<notin> set a \<Longrightarrow> escapes_closed a"
proof (induction a)
  case (Cons c a)
  then show ?case using json_escapes_Cons by (auto simp: escapes_closed_def)
qed (simp add: escapes_closed_def)

lemma escapes_closed_Cons: "c \<noteq> CHR 0x5C \<Longrightarrow> escapes_closed (c # a) = escapes_closed a"
  by (simp add: escapes_closed_def json_escapes_Cons)

lemma escapes_closed_concat: "(\<And>a. a \<in> set as \<Longrightarrow> escapes_closed a) \<Longrightarrow> escapes_closed (concat as)"
  by (induction as) (auto simp: escapes_closed_append escapes_closed_plain)

lemma escapes_closed_join: "(\<And>a. a \<in> set as \<Longrightarrow> escapes_closed a) \<Longrightarrow> escapes_closed (join_with '','' as)"
proof (induction as)
  case (Cons a as)
  then show ?case
    by (cases as) (auto simp: join_with_Cons escapes_closed_Cons intro!: escapes_closed_append)
qed (simp add: escapes_closed_plain)

lemma hex_lower_nibble: "n < 16 \<Longrightarrow> hex_lower n \<noteq> CHR 0x5C"
  by (simp add: hex_lower_def less_Suc_eq numeral_eq_Suc) auto

lemma escapes_closed_byte: "escapes_closed (json_byte b)"
proof (cases "byte b \<le> 31")
  case True
  then have "byte b div 16 = 0 \<or> byte b div 16 = 1" by auto
  then have "hex_lower (byte b div 16) \<in> {CHR ''0'', CHR ''1''}" by (auto simp: hex_lower_def)
  then show ?thesis
    using hex_lower_nibble [of "byte b mod 16"] by (auto simp: json_byte_def escapes_closed_def json_escapes_Cons)
qed (auto simp: json_byte_def escapes_closed_def json_escapes_Cons)

lemma escapes_closed_string: "escapes_closed (json_string s)"
proof -
  have "escapes_closed (concat (map json_byte s))" by (rule escapes_closed_concat) (auto simp: escapes_closed_byte)
  then show ?thesis
    using escapes_closed_append [OF _ escapes_closed_plain [of "[CHR 0x22]"]] by (simp add: json_string_def escapes_closed_Cons)
qed

lemma escapes_closed_json: "(\<And>n. CHR 0x5C \<notin> set (num n)) \<Longrightarrow> escapes_closed (json_text num v)"
proof (induction num v rule: json_text.induct)
  case (5 num a)
  then have "escapes_closed (join_with '','' (map (json_text num) a))"
    by (intro escapes_closed_join) auto
  then show ?case using escapes_closed_append escapes_closed_plain [of "'']''"] by (simp add: escapes_closed_Cons)
next
  case (6 num es)
  have "escapes_closed (json_string k @ '':'' @ json_text num v)" if "(k, v) \<in> set es" for k v
    using 6(1) [OF that refl] 6(2) escapes_closed_append [OF escapes_closed_string] by (simp add: escapes_closed_Cons)
  then have "escapes_closed (join_with '','' (map (\<lambda>(k, v). json_string k @ '':'' @ json_text num v) es))"
    by (intro escapes_closed_join) auto
  then show ?case using escapes_closed_append escapes_closed_plain [of "''}''"] by (simp add: escapes_closed_Cons)
qed (auto simp: escapes_closed_string intro: escapes_closed_plain)

lemma json_escapes_text: "(\<And>n. CHR 0x5C \<notin> set (num n)) \<Longrightarrow> json_escapes (json_text num v)"
  using escapes_closed_json [of num v] by (simp add: escapes_closed_def) (metis append_Nil2 json_escapes.simps(1))

lemma script_json_plain:
  "c \<notin> {CHR ''<'', CHR ''>'', CHR ''&'', CHR 0xE2} \<Longrightarrow> script_json (c # s) = c # script_json s"
  by simp

lemma script_read_escape:
  "d \<noteq> CHR ''u'' \<Longrightarrow> script_read (CHR 0x5C # d # s) = CHR 0x5C # d # script_read s"
  "x = CHR ''0'' \<or> x = CHR ''1'' \<Longrightarrow>
   script_read (CHR 0x5C # CHR ''u'' # CHR ''0'' # CHR ''0'' # x # s) =
     CHR 0x5C # CHR ''u'' # CHR ''0'' # CHR ''0'' # x # script_read s"
  by (auto simp: script_read.simps)

lemma script_read_json: "json_escapes t \<Longrightarrow> script_read (script_json t) = t"
proof (induction t rule: length_induct)
  case (1 t)
  then have IH: "json_escapes s \<Longrightarrow> length s < length t \<Longrightarrow> script_read (script_json s) = s" for s by blast
  show ?case
  proof (cases t)
    case (Cons c s)
    show ?thesis
    proof (cases "c = CHR 0x5C")
      case True
      then obtain d r where s: "s = d # r" using 1(2) Cons by (cases s) auto
      have d: "d \<in> {CHR 0x22, CHR 0x5C, CHR ''b'', CHR ''t'', CHR ''n'', CHR ''f'', CHR ''r'', CHR ''u''}" and r: "json_escapes r"
        and u: "d = CHR ''u'' \<longrightarrow> take 2 r = ''00'' \<and> take 1 (drop 2 r) \<in> {''0'', ''1''}"
        using 1(2) Cons True s by auto
      have out: "script_json t = CHR 0x5C # d # script_json r" using Cons True s d script_json_plain [of "CHR 0x5C" s] script_json_plain [of d r] by auto
      show ?thesis
      proof (cases "d = CHR ''u''")
        case True
        then have "take 2 r = ''00''" "take 1 (drop 2 r) \<in> {''0'', ''1''}" using u by auto
        then obtain x r' where r': "r = CHR ''0'' # CHR ''0'' # x # r'" "x = CHR ''0'' \<or> x = CHR ''1''"
          by (cases r; cases "tl r"; cases "tl (tl r)") auto
        then have "json_escapes r'" using r by (auto simp: json_escapes_Cons)
        then have "script_read (script_json r') = r'" using IH Cons s r' by simp
        then show ?thesis using out Cons s \<open>c = _\<close> True r' script_read_escape(2) by (auto simp: script_json_plain)
      next
        case False
        then show ?thesis using out IH [OF r] Cons s \<open>c = _\<close> script_read_escape(1) by simp
      qed
    next
      case False
      have s: "json_escapes s" using 1(2) Cons False json_escapes_Cons by simp
      show ?thesis
      proof (cases "c = CHR 0xE2 \<and> (take 2 s = [CHR 0x80, CHR 0xA8] \<or> take 2 s = [CHR 0x80, CHR 0xA9])")
        case True
        then obtain x r where "s = CHR 0x80 # x # r" "x = CHR 0xA8 \<or> x = CHR 0xA9" by (cases s; cases "tl s") auto
        moreover from this have "json_escapes r" using s by (auto simp: json_escapes_Cons)
        ultimately show ?thesis using IH [of r] Cons True by (auto simp: script_read.simps)
      next
        case plain: False
        show ?thesis using IH [OF s] Cons False plain by (auto simp: script_read.simps)
      qed
    qed
  qed (simp add: script_read.simps)
qed

lemma script_json_chars: "list_all (\<lambda>c. c \<noteq> CHR ''<'' \<and> c \<noteq> CHR ''>'' \<and> c \<noteq> CHR ''&'') (script_json t)"
  by (induction t rule: script_json.induct) auto

lemma script_json_Cons_neq: "script_json s = c # r \<Longrightarrow> c \<noteq> CHR 0x5C \<Longrightarrow> \<exists>s'. s = c # s' \<and> r = script_json s'"
  by (cases s) (auto split: if_splits)

lemma script_json_separators:
  "x = CHR 0xA8 \<or> x = CHR 0xA9 \<Longrightarrow> \<not> contains_str (script_json t) [CHR 0xE2, CHR 0x80, x]"
proof (induction t rule: script_json.induct)
  case (2 c s)
  have "take 2 s = [CHR 0x80, x]" if a: "starts_with (script_json s) [CHR 0x80, x]"
  proof -
    obtain r where r: "script_json s = CHR 0x80 # x # r" using a by (auto simp: starts_with_iff)
    then obtain s' where s': "s = CHR 0x80 # s'" "x # r = script_json s'" using script_json_Cons_neq [OF r] by auto
    then obtain s'' where "s' = x # s''" using script_json_Cons_neq [OF s'(2) [symmetric]] 2(7) by auto
    then show ?thesis using s' by simp
  qed
  moreover have "starts_with (c # r) [CHR 0xE2, CHR 0x80, x] \<longleftrightarrow> c = CHR 0xE2 \<and> starts_with r [CHR 0x80, x]" for c r
    by (simp add: starts_with_def)
  ultimately show ?case using 2 by auto
qed simp

text \<open>
  C6: A store snapshot cannot leave its script. The tag of a store carries only the name's safe characters; the text
  up to the end tag holds no angle bracket, no ampersand and no line separator, and a JSON reader reads in it the value
  as it was serialised. A store whose name has no safe character has no tag.
\<close>

theorem store_script_safe:
  assumes "\<And>n. CHR 0x5C \<notin> set (num n)"
  shows "if list_all (\<lambda>c. \<not> store_byte c) name then store_script num (name, state) = []
    else \<exists>content.
      store_script num (name, state) =
        ''<script type='' @ [CHR 0x22] @ ''application/json'' @ [CHR 0x22] @ '' data-brust-store='' @ [CHR 0x22] @
        filter store_byte name @ [CHR 0x22] @ ''>'' @ content @ ''</script>'' \<and>
      list_all (\<lambda>c. c \<noteq> CHR ''<'' \<and> c \<noteq> CHR ''>'' \<and> c \<noteq> CHR ''&'') content \<and>
      \<not> contains_str content [CHR 0xE2, CHR 0x80, CHR 0xA8] \<and>
      \<not> contains_str content [CHR 0xE2, CHR 0x80, CHR 0xA9] \<and>
      script_read content = json_text num (serialize state)"
proof -
  let ?c = "script_json (json_text num (serialize state))"
  have "list_all (\<lambda>c. \<not> store_byte c) name \<longleftrightarrow> filter store_byte name = []"
    by (simp add: filter_empty_conv list_all_iff)
  moreover have "script_read ?c = json_text num (serialize state)"
    using script_read_json [OF json_escapes_text] assms by blast
  ultimately show ?thesis
    using script_json_chars script_json_separators by (auto simp: store_script_def Let_def intro!: exI [of _ ?c])
qed

theorem store_script_safe_witness:
  "\<exists>content. store_script (\<lambda>_ :: nat. ''7'') (''ca rt'', NMap [(''</script>'', NNum 1)] None) =
    ''<script type='' @ [CHR 0x22] @ ''application/json'' @ [CHR 0x22] @ '' data-brust-store='' @ [CHR 0x22] @
    ''cart'' @ [CHR 0x22] @ ''>'' @ content @ ''</script>'' \<and>
    script_read content = ''{'' @ json_string ''</script>'' @ '':7}''"
proof -
  let ?num = "\<lambda>_ :: nat. ''7''" and ?st = "NMap [(''</script>'', NNum 1)] None"
  have name: "filter store_byte ''ca rt'' = ''cart''" "\<not> list_all (\<lambda>c. \<not> store_byte c) ''ca rt''"
    by (simp_all add: store_byte_def is_ascii_alphanumeric_def is_ascii_digit_def is_ascii_lowercase_def is_ascii_uppercase_def)
  have json: "json_text ?num (serialize ?st) = ''{'' @ json_string ''</script>'' @ '':7}''" by simp
  have "\<And>n :: nat. CHR 0x5C \<notin> set (?num n)" by simp
  from store_script_safe [of ?num "''ca rt''" ?st, OF this, unfolded if_not_P [OF name(2)] name(1) json]
  show ?thesis by blast
qed

section \<open>Marked levels\<close>

lemma u64_digits:
  "(\<forall>i<k. n div 256 ^ i mod 256 = m div 256 ^ i mod 256) \<Longrightarrow> n mod 256 ^ k = m mod (256 :: nat) ^ k"
proof (induction k)
  case (Suc k)
  have "x mod 256 ^ Suc k = 256 ^ k * (x div 256 ^ k mod 256) + x mod 256 ^ k" for x :: nat
    using mod_mult2_eq [of x "256 ^ k" 256] by (simp add: mult.commute)
  then show ?case using Suc by simp
qed simp

lemma length_u64_le_bytes [simp]: "length (u64_le_bytes n) = 8"
  by (simp add: u64_le_bytes_def)

lemma u64_le_bytes_inject:
  assumes "u64_le_bytes n = u64_le_bytes m" "n < u64_mod" "m < u64_mod"
  shows "n = m"
proof -
  have "n div 256 ^ i mod 256 = m div 256 ^ i mod 256" if "i < 8" for i
  proof -
    have "u64_le_bytes n ! i = u64_le_bytes m ! i" using assms(1) by simp
    then have "byte (char_of (n div 256 ^ i mod 256)) = byte (char_of (m div 256 ^ i mod 256))"
      using that by (simp add: u64_le_bytes_def)
    then show ?thesis by simp
  qed
  then have "n mod 256 ^ 8 = m mod 256 ^ 8" by (intro u64_digits) auto
  then show ?thesis using assms(2,3) by (simp add: u64_mod_def)
qed

lemma framed_Cons: "framed (s # ss) = u64_le_bytes (length s) @ s @ framed ss"
  by (simp add: framed_def)

lemma framed_inject:
  assumes "framed ss = framed ts"
    and "\<forall>s \<in> set ss \<union> set ts. length s < u64_mod"
  shows "ss = ts"
  using assms
proof (induction ss arbitrary: ts)
  case Nil
  from arg_cong [OF Nil(1), of length] show ?case by (cases ts) (simp_all add: framed_def)
next
  case (Cons s ss)
  from arg_cong [OF Cons(2), of length] obtain t ts' where ts: "ts = t # ts'"
    by (cases ts) (simp_all add: framed_def)
  have "u64_le_bytes (length s) = u64_le_bytes (length t)"
    using Cons(2) ts by (simp add: framed_Cons)
  then have "length s = length t" using u64_le_bytes_inject Cons(3) ts by auto
  then have "s = t" "framed ss = framed ts'"
    using Cons(2) ts by (auto simp: framed_Cons)
  then show ?case using Cons(1) [of ts'] Cons(3) ts by auto
qed

text \<open>
  What a chain renders to when every template prints its outlet once, between the halves of its own markup: the levels
  nest, each with a hash of its own markup.
\<close>

definition shell_hash :: "(string \<Rightarrow> string) \<Rightarrow> string \<times> string \<Rightarrow> bool \<Rightarrow> string" where
  "shell_hash blake3 halves leaf = take 16 (blake3 (framed (if leaf then [fst halves @ snd halves] else [fst halves, snd halves])))"

fun nested_levels :: "(string \<Rightarrow> string) \<Rightarrow> (string \<Rightarrow> string \<times> string) \<Rightarrow> string list \<Rightarrow> string" where
  "nested_levels blake3 halves [] = []"
| "nested_levels blake3 halves (l # ls) =
     open_marker l (shell_hash blake3 (halves l) (ls = [])) @ fst (halves l) @ nested_levels blake3 halves ls @ snd (halves l) @
     close_marker l"

definition prints_outlet :: "'n engine \<Rightarrow> (string \<Rightarrow> string \<times> string) \<Rightarrow> string \<Rightarrow> bool" where
  "prints_outlet template halves level \<longleftrightarrow>
     template level = Some (\<lambda>sc. Inr (fst (halves level) @ (case sc_outlet sc of Some s \<Rightarrow> s | None \<Rightarrow> []) @ snd (halves level)))"

lemma first_marker:
  assumes "m \<notin> set ms" "\<not> contains_str p (m # ms)" "j < length p"
  shows "\<not> starts_with (drop j (p @ (m # ms) @ x)) (m # ms)"
proof
  assume "starts_with (drop j (p @ (m # ms) @ x)) (m # ms)"
  then obtain y where y: "drop j p @ (m # ms) @ x = (m # ms) @ y" using assms(3) by (auto simp: starts_with_iff)
  let ?d = "length p - j"
  show False
  proof (cases "length (m # ms) \<le> ?d")
    case True
    then have "drop j p = (m # ms) @ drop (length (m # ms)) (drop j p)"
      using arg_cong [OF y, of "take (length (m # ms))"] append_take_drop_id [of "length (m # ms)" "drop j p"] by simp
    then have "p = take j p @ (m # ms) @ drop (length (m # ms)) (drop j p)" using append_take_drop_id [of j p] by metis
    then show False using assms(2) contains_str_iff by metis
  next
    case False
    then have d: "0 < ?d" "?d < length (m # ms)" using assms(3) by auto
    have "(drop j p @ (m # ms) @ x) ! ?d = m" by (simp add: nth_append)
    moreover have "((m # ms) @ y) ! ?d = ms ! (?d - 1)" using d nth_append_left [of ?d "m # ms" y] by simp
    moreover have "ms ! (?d - 1) \<in> set ms" using d by simp
    ultimately show False using y assms(1) by metis
  qed
qed

lemma find_str_None: "find_str s n = None \<longleftrightarrow> \<not> contains_str s n"
proof -
  have "contains_str s n \<longleftrightarrow> (\<exists>k \<le> length s. starts_with (drop k s) n)"
  proof
    assume "contains_str s n"
    then obtain a b where "s = a @ n @ b" using contains_str_iff by metis
    then show "\<exists>k \<le> length s. starts_with (drop k s) n" by (intro exI [of _ "length a"]) (simp add: starts_with_iff)
  next
    assume "\<exists>k \<le> length s. starts_with (drop k s) n"
    then obtain k b where "drop k s = n @ b" by (auto simp: starts_with_iff)
    then have "s = take k s @ n @ b" using append_take_drop_id [of k s] by simp
    then show "contains_str s n" using contains_str_iff by metis
  qed
  then show ?thesis by (auto simp: find_str_def find_None_iff less_Suc_eq_le simp del: upt_Suc)
qed

definition MARKER :: string where
  "MARKER = ''<!--brust-l:''"

lemma MARKER_Cons: "\<exists>ms. MARKER = CHR ''<'' # ms \<and> CHR ''<'' \<notin> set ms"
  by (simp add: MARKER_def)

lemma child_segments:
  assumes "\<not> contains_str p MARKER" "\<not> contains_str q MARKER" "c = MARKER @ x"
  shows "level_segments (p @ c @ q) (Some c) False = [p, q]"
proof -
  obtain ms where ms: "MARKER = CHR ''<'' # ms" "CHR ''<'' \<notin> set ms" using MARKER_Cons by blast
  have c: "c \<noteq> []" unfolding assms(3) ms(1) by simp
  have "\<not> starts_with (drop j (p @ c @ q)) c" if "j < length p" for j
  proof
    assume "starts_with (drop j (p @ c @ q)) c"
    then have "starts_with (drop j (p @ MARKER @ x @ q)) MARKER" using assms(3) by (auto simp: starts_with_iff)
    then show False using first_marker [OF ms(2) assms(1) [unfolded ms(1)] that, of "x @ q"] ms(1) by simp
  qed
  then have "find_str (p @ c @ q) c = Some (length p)" by (auto simp: find_str_Some)
  moreover have "find_str q c = None"
    using assms(2,3) by (auto simp: find_str_None contains_str_iff)
  ultimately have "match_indices c 0 (p @ c @ q) = [length p]" using c by (simp add: match_indices.simps)
  then show ?thesis using c by (simp add: level_segments_def slice_def)
qed

lemma render_levels_append:
  "render_levels template blake3 base overlay marked (xs @ ys) st =
     bind_result (render_levels template blake3 base overlay marked xs st) (render_levels template blake3 base overlay marked ys)"
  by (induction template blake3 base overlay marked xs st rule: render_levels.induct)
    (auto split: option.splits sum.splits)

lemma marker_head: "\<exists>x. open_marker l h @ r = MARKER @ x"
  by (simp add: open_marker_def MARKER_def)

lemma nested_levels_head: "ls \<noteq> [] \<Longrightarrow> \<exists>x. nested_levels blake3 halves ls = MARKER @ x"
  using marker_head by (cases ls) simp_all

lemma nested_hash:
  assumes "\<not> contains_str (fst (halves l)) MARKER" "\<not> contains_str (snd (halves l)) MARKER"
  shows "level_hash blake3 (fst (halves l) @ nested_levels blake3 halves ls @ snd (halves l))
     (if ls = [] then None else Some (nested_levels blake3 halves ls)) False = shell_hash blake3 (halves l) (ls = [])"
proof (cases "ls = []")
  case True
  then show ?thesis by (simp add: level_hash_def level_preimage_def shell_hash_def level_segments_def)
next
  case False
  then obtain x where "nested_levels blake3 halves ls = MARKER @ x" using nested_levels_head by blast
  from child_segments [OF assms this] show ?thesis using False
    by (simp add: level_hash_def level_preimage_def shell_hash_def)
qed

lemma zip_upt_Cons: "rev (zip [k..<k + length (l # ls)] (l # ls)) = rev (zip [Suc k..<Suc k + length ls] ls) @ [(k, l)]"
  by (simp add: upt_rec)

lemma render_levels_nest:
  assumes "\<forall>l \<in> set ls. prints_outlet template halves l \<and> \<not> contains_str (fst (halves l)) MARKER \<and>
      \<not> contains_str (snd (halves l)) MARKER"
    and "0 < k" "k + length ls \<le> marked"
  shows "render_levels template blake3 base overlay marked (rev (zip [k..<k + length ls] ls)) (None, out, root) =
    Ok (if ls = [] then None else Some (nested_levels blake3 halves ls), out, root)"
  using assms
proof (induction ls arbitrary: k)
  case (Cons l ls)
  have IH: "render_levels template blake3 base overlay marked (rev (zip [Suc k..<Suc k + length ls] ls)) (None, out, root) =
    Ok (if ls = [] then None else Some (nested_levels blake3 halves ls), out, root)"
    using Cons(1) [of "Suc k"] Cons(2-4) by simp
  have t: "prints_outlet template halves l" "\<not> contains_str (fst (halves l)) MARKER" "\<not> contains_str (snd (halves l)) MARKER"
    using Cons(2) by auto
  show ?case unfolding zip_upt_Cons render_levels_append IH
    using t(1) nested_hash [of halves l blake3 ls] t(2,3) Cons(3,4) by (auto simp: prints_outlet_def)
qed simp


definition two_halves :: "string \<Rightarrow> string \<times> string" where
  "two_halves l = (if l = ''page'' then (''<p>'', ''</p>'') else (''<main>'', ''</main>''))"

definition two_level_engine :: "nat engine" where
  "two_level_engine l =
     Some (\<lambda>sc. Inr (fst (two_halves l) @ (case sc_outlet sc of Some s \<Rightarrow> s | None \<Rightarrow> []) @ snd (two_halves l)))"


section \<open>Where the links and scripts go\<close>

lemma starts_with_take: "starts_with s p \<longleftrightarrow> take (length p) s = p"
  by (auto simp: starts_with_iff) (metis append_take_drop_id)

lemma window: "j + l \<le> m \<Longrightarrow> m \<le> length s \<Longrightarrow> take l (drop j (take m s @ y)) = take l (drop j s)"
  by (cases "m = length s") (auto simp: drop_take min_absorb1 min_absorb2)

lemma find_str_window:
  assumes "find_str s n = Some k" "k + length n \<le> m" "m \<le> length s"
  shows "find_str (take m s @ y) n = Some k"
proof -
  have "take (length n) (drop j (take m s @ y)) = take (length n) (drop j s)" if "j \<le> k" for j
    by (rule window) (use that assms(2,3) in auto)
  then show ?thesis using assms by (auto simp: find_str_Some starts_with_take)
qed

definition head_at :: "string \<Rightarrow> nat \<Rightarrow> bool" where
  "head_at s k \<longleftrightarrow> take 6 (drop k s) = ''<head>'' \<or> take 6 (drop k s) = ''<head ''"

lemma head_open_Some: "head_open s = Some h \<longleftrightarrow> head_at s h \<and> (\<forall>j<h. \<not> head_at s j)"
proof -
  have none: "find_str s n = None \<Longrightarrow> length n = 6 \<Longrightarrow> take 6 (drop j s) \<noteq> n" for n j
    by (metis append_take_drop_id contains_str_iff find_str_None)
  have some: "find_str s n = Some k \<Longrightarrow> length n = 6 \<Longrightarrow> take 6 (drop k s) = n \<and> (\<forall>j<k. take 6 (drop j s) \<noteq> n)" for n k
    by (auto simp: find_str_Some starts_with_take)
  have least: "head_at s h \<Longrightarrow> head_at s k \<Longrightarrow> \<forall>j<h. \<not> head_at s j \<Longrightarrow> \<forall>j<k. \<not> head_at s j \<Longrightarrow> h = k" for h k
    by (metis linorder_neqE_nat)
  consider a b where "find_str s ''<head>'' = Some a" "find_str s ''<head '' = Some b"
    | a where "find_str s ''<head>'' = Some a" "find_str s ''<head '' = None"
    | b where "find_str s ''<head>'' = None" "find_str s ''<head '' = Some b"
    | "find_str s ''<head>'' = None" "find_str s ''<head '' = None" by fastforce
  then show ?thesis
  proof cases
    case (1 a b)
    have "head_at s (min a b) \<and> (\<forall>j<min a b. \<not> head_at s j)" using some [OF 1(1)] some [OF 1(2)] by (auto simp: head_at_def min_def)
    then show ?thesis using 1 least [of h "min a b"] by (auto simp: head_open_def)
  next
    case (2 a)
    have "head_at s a \<and> (\<forall>j<a. \<not> head_at s j)" using some [OF 2(1)] none [OF 2(2)] by (auto simp: head_at_def)
    then show ?thesis using 2 least [of h a] by (auto simp: head_open_def)
  next
    case (3 b)
    have "head_at s b \<and> (\<forall>j<b. \<not> head_at s j)" using none [OF 3(1)] some [OF 3(2)] by (auto simp: head_at_def)
    then show ?thesis using 3 least [of h b] by (auto simp: head_open_def)
  next
    case 4
    then show ?thesis using none [OF 4(1), of h] none [OF 4(2), of h] by (auto simp: head_open_def head_at_def)
  qed
qed

lemma head_contains: "head_open s = Some h \<Longrightarrow> contains_str s ''<head>'' \<or> contains_str s ''<head ''"
  using find_str_None [of s "''<head>''"] find_str_None [of s "''<head ''"]
  by (cases "find_str s ''<head>''"; cases "find_str s ''<head ''") (simp_all add: head_open_def)

lemma head_open_window:
  assumes "head_open s = Some h" "h + 6 \<le> m" "m \<le> length s"
  shows "head_open (take m s @ y) = Some h"
proof -
  have "head_at (take m s @ y) j = head_at s j" if "j \<le> h" for j
    unfolding head_at_def by (subst (1 2) window) (use that assms(2,3) in auto)
  then show ?thesis using assms(1) by (simp add: head_open_Some)
qed

lemma tag_close_window:
  assumes "tag_close s i < length s" "tag_close s i \<le> m" "m \<le> length s"
  shows "tag_close (take m s @ y) i = tag_close s i"
proof -
  obtain e where e: "find_str (drop i s) ''>'' = Some e" "tag_close s i = i + e + 1"
    using assms(1) by (auto simp: tag_close_def split: option.splits)
  have "find_str (take (m - i) (drop i s) @ y) ''>'' = Some e"
    using e assms by (intro find_str_window) auto
  moreover have "drop i (take m s @ y) = take (m - i) (drop i s) @ y" using e(2) assms(2,3) by (simp add: drop_take)
  ultimately show ?thesis using e(2) by (simp add: tag_close_def)
qed

lemma tag_close_ge:
  assumes "to_ascii_lowercase (take 5 (drop i s)) = z" "length z = 5" "CHR ''>'' \<notin> set z" "tag_close s i < length s"
  shows "i + 6 \<le> tag_close s i"
proof -
  obtain e where e: "find_str (drop i s) ''>'' = Some e" "tag_close s i = i + e + 1"
    using assms(4) by (auto simp: tag_close_def split: option.splits)
  have "5 \<le> e"
  proof (rule ccontr)
    assume "\<not> 5 \<le> e"
    moreover obtain y where y: "drop e (drop i s) = CHR ''>'' # y" using e(1) by (auto simp: find_str_Some starts_with_iff)
    moreover have "drop i s ! e = CHR ''>''" using nth_via_drop [OF y] .
    moreover have "e < length (drop i s)" using y by (metis drop_all linorder_not_le list.distinct(1))
    ultimately have "to_ascii_lowercase (take 5 (drop i s)) ! e = CHR ''>''" "e < 5"
      by (simp_all add: to_ascii_lowercase_def ascii_lower_def is_ascii_uppercase_def)
    then show False using assms(1-3) by (metis nth_mem)
  qed
  then show ?thesis using e(2) by simp
qed

lemma strip_prefix_lt: "c \<notin> set e \<Longrightarrow> strip_prefix e (w @ c # r) = map_option (\<lambda>v. v @ c # r) (strip_prefix e w)"
  by (induction e w rule: strip_prefix.induct) auto

lemma first_prefix_lt:
  "\<forall>e \<in> set es. c \<notin> set e \<Longrightarrow> first_prefix es (w @ c # r) = map_option (\<lambda>v. v @ c # r) (first_prefix es w)"
  by (induction es) (auto simp: strip_prefix_lt split: option.splits)

lemma trim_by_lt:
  "\<forall>e \<in> set es. c \<notin> set e \<Longrightarrow> trim_by es (w @ c # r) = trim_by es w @ c # r"
proof (induction es w rule: trim_by.induct)
  case (1 es w)
  then show ?case
    by (cases "first_prefix es w") (auto simp: trim_by.simps [of es] first_prefix_lt)
qed

lemma trim_start_lt: "trim_start (w @ CHR ''<'' # r) = trim_start w @ CHR ''<'' # r"
proof -
  have "list_all (\<lambda>e. CHR ''<'' \<notin> set e) ws_encodings" by code_simp
  then show ?thesis unfolding trim_start_def by (intro trim_by_lt) (simp add: list_all_iff)
qed

lemma trim_start_Nil: "trim_start [] = []"
  by code_simp

lemma trim_start_space:
  assumes "trim_start s = CHR ''<'' # r"
  obtains w where "s = w @ CHR ''<'' # r" "\<And>x. trim_start (w @ CHR ''<'' # x) = CHR ''<'' # x"
proof -
  obtain w where w: "s = w @ CHR ''<'' # r" using trim_by_suffix [of s ws_encodings] assms by (auto simp: trim_start_def)
  then have "trim_start w = []" using assms trim_start_lt [of w r] by simp
  then show thesis using that [OF w] trim_start_lt by simp
qed

lemma ascii_lower_lt: "ascii_lower a = CHR ''<'' \<Longrightarrow> a = CHR ''<''"
  using byte_ascii_lower [of a] by (auto simp: is_ascii_uppercase_def simp flip: byte_inject split: if_splits)

lemma lower_meta: "eq_ignore_ascii_case (take 5 r) ''<meta'' \<Longrightarrow> \<exists>x. r = CHR ''<'' # x"
proof (cases r)
  case (Cons a x)
  assume "eq_ignore_ascii_case (take 5 r) ''<meta''"
  moreover have "to_ascii_lowercase ''<meta'' = ''<meta''" by code_simp
  ultimately have "ascii_lower a = CHR ''<''" using Cons by (simp add: eq_ignore_ascii_case_def to_ascii_lowercase_def)
  then show ?thesis using Cons ascii_lower_lt by blast
qed (simp add: eq_ignore_ascii_case_def to_ascii_lowercase_def)

lemma drop_trim: "drop (length x - length (trim_start x)) x = trim_start x"
  using trim_by_suffix [of x ws_encodings] unfolding trim_start_def
  by (metis add_diff_cancel_right' append_eq_conv_conj length_append)

lemma css_point:
  assumes "head_open s = Some h" "css_insert_at s = at" "at < length s"
  shows "css_insert_at (take at s @ ''<link'' @ x) = at \<and> head_open (take at s @ ''<link'' @ x) = Some h"
proof -
  let ?s = "take at s @ ''<link'' @ x"
  define after where "after = tag_close s h"
  define k where "k = after + (length (drop after s) - length (trim_start (drop after s)))"
  let ?meta = "eq_ignore_ascii_case (take 5 (drop k s)) ''<meta'' \<and>
     contains_str (to_ascii_lowercase (slice s k (tag_close s k))) ''charset''"
  have at: "at = (if ?meta then tag_close s k else after)"
    using assms(1,2) unfolding css_insert_at_def Let_def after_def k_def by (auto split: if_splits)
  have "after \<le> k" by (simp add: k_def)
  moreover have "tag_close s k < length s \<Longrightarrow> k < tag_close s k" by (auto simp: tag_close_def split: option.splits)
  ultimately have after_at: "after \<le> at" using at assms(3) by (auto split: if_splits)
  then have close: "tag_close s h < length s" using assms(3) by (simp add: after_def)
  have "take 6 (drop h s) = ''<head>'' \<or> take 6 (drop h s) = ''<head ''"
    using assms(1) by (simp add: head_open_Some head_at_def)
  moreover have "take 5 z = ''<head''" if "z = ''<head>'' \<or> z = ''<head ''" for z :: string using that by auto
  ultimately have "take 5 (take 6 (drop h s)) = ''<head''" by blast
  then have "to_ascii_lowercase (take 5 (drop h s)) = ''<head''" by (simp add: to_ascii_lowercase_def ascii_lower_def byte_simps)
  from tag_close_ge [OF this _ _ close] have h: "h + 6 \<le> after" by (simp add: after_def)
  have open': "head_open ?s = Some h" using head_open_window [OF assms(1), of at] h after_at assms(3) by simp
  have after': "tag_close ?s h = after" using tag_close_window [OF close, of at] after_at assms(3) by (simp add: after_def)
  show ?thesis
  proof (cases ?meta)
    case True
    then have at_k: "at = tag_close s k" using at by simp
    obtain r where r: "drop k s = CHR ''<'' # r" using True lower_meta by blast
    have "drop k s = drop (length (drop after s) - length (trim_start (drop after s))) (drop after s)"
      by (simp add: k_def add.commute)
    also have "\<dots> = trim_start (drop after s)"
      by (rule drop_trim)
    finally have "trim_start (drop after s) = CHR ''<'' # r" using r by simp
    then obtain w where w: "drop after s = w @ CHR ''<'' # r" "\<And>x. trim_start (w @ CHR ''<'' # x) = CHR ''<'' # x"
      using trim_start_space by blast
    have kw: "k = after + length w" using w by (simp add: k_def)
    have meta: "to_ascii_lowercase (take 5 (drop k s)) = ''<meta''"
      using True by (simp add: eq_ignore_ascii_case_def to_ascii_lowercase_def ascii_lower_def byte_simps)
    then have k6: "k + 6 \<le> at" using tag_close_ge [of k s "''<meta''"] at_k assms(3) by simp
    have "drop after ?s = take (at - after) (drop after s) @ ''<link'' @ x" using after_at assms(3) by (simp add: drop_take)
    also have "take (at - after) (drop after s) = w @ CHR ''<'' # take (at - after - Suc (length w)) r"
      using w k6 kw by (simp add: take_Cons')
    finally have d': "drop after ?s = w @ CHR ''<'' # (take (at - after - Suc (length w)) r @ ''<link'' @ x)" by simp
    have k': "after + (length (drop after ?s) - length (trim_start (drop after ?s))) = k" unfolding d' w(2) using kw by simp
    have t5: "take 5 (drop k ?s) = take 5 (drop k s)" by (rule window) (use k6 assms(3) in auto)
    have tc: "tag_close ?s k = at" using tag_close_window [of s k at] at_k assms(3) by simp
    have "slice ?s k at = slice s k at" unfolding slice_def by (rule window) (use k6 assms(3) in auto)
    then have sl: "contains_str (to_ascii_lowercase (slice ?s k at)) ''charset''" using True at_k by simp
    have "css_insert_at ?s = at"
      unfolding css_insert_at_def open' option.case Let_def after' k' t5 tc using True sl by (simp only: if_True)
    then show ?thesis using open' by blast
  next
    case False
    have "at = after" by (rule at [unfolded if_not_P [OF False]])
    then have "drop after ?s = ''<link'' @ x" using assms(3) by simp
    moreover have "trim_start (''<link'' @ x) = ''<link'' @ x" using trim_start_lt [of "[]"] trim_start_Nil by simp
    moreover have "\<not> eq_ignore_ascii_case ''<link'' ''<meta''" by code_simp
    ultimately show ?thesis using open' after' \<open>at = after\<close> by (simp add: css_insert_at_def Let_def)
  qed
qed

lemma find_char: "c \<notin> set a \<Longrightarrow> find_str (a @ [c] @ r) [c] = Some (length a)"
proof -
  assume c: "c \<notin> set a"
  have "\<not> starts_with (drop j (a @ [c] @ r)) [c]" if "j < length a" for j
  proof
    assume "starts_with (drop j (a @ [c] @ r)) [c]"
    then obtain x where "drop j (a @ [c] @ r) = c # x" by (auto simp: starts_with_iff)
    then have "a ! j = c" using that nth_via_drop [of j "a @ [c] @ r"] by (simp add: nth_append)
    then show False using c that nth_mem by blast
  qed
  moreover have "starts_with (c # r) [c]" by (simp add: starts_with_def)
  ultimately show ?thesis by (auto simp: find_str_Some)
qed

lemma past_css_links:
  assumes "CHR ''>'' \<notin> set base" "\<forall>p \<in> set css. CHR ''>'' \<notin> set p" "\<not> starts_with y css_start"
  shows "past_css (pre @ concat (map (css_link base) css) @ y) (length pre) = length (pre @ concat (map (css_link base) css))"
  using assms(2)
proof (induction css arbitrary: pre)
  case Nil
  then show ?case using assms(3) by (subst past_css.simps) simp
next
  case (Cons p css)
  let ?mark = "'' data-brust-css>''"
  let ?inner = "css_start @ base @ ''/_brust/'' @ p @ [CHR 0x22] @ '' data-brust-css''"
  let ?rest = "concat (map (css_link base) css) @ y"
  let ?s = "pre @ css_link base p @ ?rest"
  have link: "css_link base p = ?inner @ ''>''" by (simp add: css_link_def css_start_def)
  have "CHR ''>'' \<notin> set ?inner" using assms(1) Cons(2) by (simp add: css_start_def)
  then have "find_str (css_link base p @ ?rest) ''>'' = Some (length ?inner)"
    using find_char [of "CHR ''>''" ?inner ?rest] unfolding link by simp
  then have close: "tag_close ?s (length pre) = length (pre @ css_link base p)"
    by (simp add: tag_close_def) (simp add: link)
  have "starts_with (drop (length pre) ?s) css_start" by (simp add: css_link_def css_start_def starts_with_iff)
  moreover have "slice ?s (length pre) (length (pre @ css_link base p)) = css_link base p" by (simp add: slice_def)
  then have "ends_with (slice ?s (length pre) (tag_close ?s (length pre))) ?mark"
    unfolding close by (auto simp: ends_with_iff css_link_def)
  ultimately have "past_css ?s (length pre) = past_css ?s (length (pre @ css_link base p))"
    by (subst past_css.simps) (simp add: close)
  then show ?case using Cons(1) [of "pre @ css_link base p"] Cons(2) by simp
qed

lemma rfind_str_Some:
  "rfind_str s n = Some k \<longleftrightarrow> k \<le> length s \<and> starts_with (drop k s) n \<and> (\<forall>j. k < j \<and> j \<le> length s \<longrightarrow> \<not> starts_with (drop j s) n)"
proof -
  have nth: "rev [0..<Suc (length s)] ! i = length s - i" if "i < Suc (length s)" for i
    using that by (simp add: rev_nth del: upt_Suc)
  let ?P = "\<lambda>k. starts_with (drop k s) n"
  have "rfind_str s n = Some k \<longleftrightarrow>
      (\<exists>i<Suc (length s). ?P (length s - i) \<and> k = length s - i \<and> (\<forall>j<i. \<not> ?P (length s - j)))"
    unfolding rfind_str_def find_Some_iff using nth by (auto simp del: upt_Suc rev.simps)
  also have "\<dots> \<longleftrightarrow> k \<le> length s \<and> ?P k \<and> (\<forall>j. k < j \<and> j \<le> length s \<longrightarrow> \<not> ?P j)"
  proof
    assume "\<exists>i<Suc (length s). ?P (length s - i) \<and> k = length s - i \<and> (\<forall>j<i. \<not> ?P (length s - j))"
    then obtain i where i: "i < Suc (length s)" "?P (length s - i)" "k = length s - i" "\<forall>j<i. \<not> ?P (length s - j)" by blast
    have "\<not> ?P j" if "k < j \<and> j \<le> length s" for j
    proof -
      have "length s - j < i" using i(1,3) that by arith
      from i(4) [rule_format, OF this] show ?thesis using that by simp
    qed
    then show "k \<le> length s \<and> ?P k \<and> (\<forall>j. k < j \<and> j \<le> length s \<longrightarrow> \<not> ?P j)" using i(2,3) by auto
  next
    assume "k \<le> length s \<and> ?P k \<and> (\<forall>j. k < j \<and> j \<le> length s \<longrightarrow> \<not> ?P j)"
    then show "\<exists>i<Suc (length s). ?P (length s - i) \<and> k = length s - i \<and> (\<forall>j<i. \<not> ?P (length s - j))"
      by (intro exI [of _ "length s - k"]) auto
  qed
  finally show ?thesis .
qed

lemma drop_insert: "at \<le> length s \<Longrightarrow> at + length t \<le> j \<Longrightarrow> drop j (insert_str s at t) = drop (j - length t) s"
  by (simp add: insert_str_def drop_append add.commute)

lemma rfind_insert:
  assumes "rfind_str s n = Some i" "at \<le> i"
  shows "rfind_str (insert_str s at t) n = Some (i + length t)"
proof -
  have i: "i \<le> length s" "starts_with (drop i s) n" "\<forall>j. i < j \<and> j \<le> length s \<longrightarrow> \<not> starts_with (drop j s) n"
    using assms(1) by (auto simp: rfind_str_Some)
  have "drop j (insert_str s at t) = drop (j - length t) s" if "i + length t \<le> j" for j
    using that assms(2) i(1) by (intro drop_insert) auto
  moreover have "length (insert_str s at t) = length s + length t" using assms(2) i(1) by (simp add: insert_str_def)
  moreover have "\<not> starts_with (drop (j - length t) s) n" if "i + length t < j" "j \<le> length s + length t" for j
  proof -
    have "i < j - length t \<and> j - length t \<le> length s" using that by arith
    then show ?thesis using i(3) by blast
  qed
  ultimately show ?thesis using i(1,2) by (auto simp: rfind_str_Some)
qed

lemma css_starts_link: "css \<noteq> [] \<Longrightarrow> \<exists>x. concat (map (css_link base) css) = ''<link'' @ x"
  by (cases css) (auto simp: css_link_def)

lemma not_css_start:
  assumes "\<not> starts_with (a @ b) css_start" "starts_with t ''<script''"
  shows "\<not> starts_with (a @ t @ c) css_start"
proof
  assume s: "starts_with (a @ t @ c) css_start"
  obtain u where u: "t = ''<script'' @ u" using assms(2) by (auto simp: starts_with_iff)
  show False
  proof (cases "length css_start \<le> length a")
    case True
    then show False using s assms(1) by (simp add: starts_with_take)
  next
    case False
    have "css_start ! length a = CHR ''<''"
    proof -
      have "(a @ t @ c) ! length a = CHR ''<''" by (simp add: u nth_append)
      moreover obtain y where "a @ t @ c = css_start @ y" using s by (auto simp: starts_with_iff)
      ultimately show ?thesis using False by (metis linorder_not_le nth_append)
    qed
    then have "a = []" using False by (cases a) (auto simp: css_start_def nth_Cons' split: if_splits)
    then show False using s by (simp add: u css_start_def starts_with_def)
  qed
qed

lemma store_scripts_start: "store_scripts num st = [] \<or> starts_with (store_scripts num st) ''<script''"
proof (cases st)
  case (NMap m hint)
  have "concat (map (store_script num) m) = [] \<or> starts_with (concat (map (store_script num) m)) ''<script''"
  proof (induction m)
    case (Cons e m)
    have "store_script num e = [] \<or> (\<exists>x. store_script num e = ''<script'' @ x)"
      by (cases e) (auto simp: store_script_def Let_def)
    then show ?case using Cons by (auto simp: starts_with_def)
  qed simp
  then show ?thesis using NMap by (simp add: store_scripts_def)
qed (simp_all add: store_scripts_def)

lemma starts_with_appendI: "starts_with a p \<Longrightarrow> starts_with (a @ b) p"
  by (auto simp: starts_with_iff)

lemma page_scripts_start:
  assumes "pred_option (\<lambda>t. starts_with t ''<script'') prefix_tag"
  shows "starts_with (page_scripts num m pa store prefix_tag) ''<script''"
proof -
  let ?tag = "script_tag (mf_base_path m)"
  have tag: "starts_with (?tag p @ x) ''<script''" for p x by (simp add: script_tag_def starts_with_def)
  have stores: "starts_with ((case store of None \<Rightarrow> [] | Some st \<Rightarrow> store_scripts num st) @ ?tag p @ x) ''<script''" for p x
  proof (cases store)
    case (Some st)
    then show ?thesis using tag store_scripts_start [of num st] starts_with_appendI by fastforce
  qed (simp add: tag)
  show ?thesis
    using assms stores by (auto simp: page_scripts_def Let_def split: option.splits intro: starts_with_appendI)
qed

lemma nav_tags_start: "starts_with x ''<script'' \<Longrightarrow> starts_with (nav_tags m root html @ x) ''<script''"
  by (auto simp: nav_tags_def nav_tag_def starts_with_def split: option.splits)


definition styled_component :: "nat component_record" where
  "styled_component = \<lparr>cr_tier = NativeTier, cr_template = ''p.html'', cr_jobs = [], cr_children = [],
     cr_client = Some ''client/p.js'', cr_needs_worker = False, cr_use_id_slots = 0, cr_stores = [], cr_features = [''spa'']\<rparr>"

definition styled_manifest :: "nat manifest" where
  "styled_manifest = \<lparr>mf_version = 3, mf_routes = [], mf_components = [(''page'', styled_component)],
     mf_assets = \<lparr>as_runtime = ''rt.js'', as_react = None, as_features = [(''spa'', ''spa.js'')], as_nav = None, as_build = None\<rparr>,
     mf_jobs_module = ''jobs.js'', mf_actions_only = False, mf_base_path = [], mf_trailing_slash = Strict\<rparr>"


end
