(* ===== verification/CExpr.thy ===== *)
theory CExpr
  imports Html
begin

text \<open>
  Expressions of the compiler's intermediate form and their JavaScript text
  (\<^verbatim>\<open>crates/brust-compiler/src/ir/expr.rs\<close>). A double of the machine is a value of \<open>'f\<close>, whose arithmetic is the record
  \<open>f64\<close>, a parameter; the markup a JSX expression holds is \<open>'j\<close>, which no function here looks into.
\<close>

section \<open>Doubles\<close>

text \<open>\<open>f_dec m e\<close> is the literal \<^verbatim>\<open>m * 10^e\<close>, \<open>f_whole\<close> is \<^verbatim>\<open>fract() == 0.0\<close>, \<open>f_trunc\<close> is \<^verbatim>\<open>as i64\<close>.\<close>

record 'f f64 =
  f_dec :: "int \<Rightarrow> int \<Rightarrow> 'f"
  f_of_nat :: "nat \<Rightarrow> 'f"
  f_nan :: 'f
  f_inf :: 'f
  f_add :: "'f \<Rightarrow> 'f \<Rightarrow> 'f"
  f_sub :: "'f \<Rightarrow> 'f \<Rightarrow> 'f"
  f_mul :: "'f \<Rightarrow> 'f \<Rightarrow> 'f"
  f_div :: "'f \<Rightarrow> 'f \<Rightarrow> 'f"
  f_rem :: "'f \<Rightarrow> 'f \<Rightarrow> 'f"
  f_neg :: "'f \<Rightarrow> 'f"
  f_abs :: "'f \<Rightarrow> 'f"
  f_eq :: "'f \<Rightarrow> 'f \<Rightarrow> bool"
  f_lt :: "'f \<Rightarrow> 'f \<Rightarrow> bool"
  f_le :: "'f \<Rightarrow> 'f \<Rightarrow> bool"
  f_whole :: "'f \<Rightarrow> bool"
  f_trunc :: "'f \<Rightarrow> int"
  f_display :: "'f \<Rightarrow> string"

definition is_nan :: "'f f64 \<Rightarrow> 'f \<Rightarrow> bool" where
  "is_nan fs n \<longleftrightarrow> \<not> f_eq fs n n"

definition is_infinite :: "'f f64 \<Rightarrow> 'f \<Rightarrow> bool" where
  "is_infinite fs n \<longleftrightarrow> f_eq fs (f_abs fs n) (f_inf fs)"

definition int_text :: "int \<Rightarrow> string" where
  "int_text i = (if i < 0 then CHR ''-'' # decimal (nat (- i)) else decimal (nat i))"

section \<open>Expressions\<close>

datatype ident_kind =
    KProp
  | KLocal
  | KState
  | KSetter
  | KImport string string
  | KGlobal
  | KLoopBinding
  | KStore string "string option"
  | KUnknown

datatype 'f literal = LStr string | LNum 'f | LBool bool | LNull | LUndefined

datatype bin_op =
    OpAdd | OpSub | OpMul | OpDiv | OpRem | OpEq | OpNe | OpStrictEq | OpStrictNe
  | OpLt | OpLe | OpGt | OpGe | OpAnd | OpOr | OpNullish

datatype un_op = UnNot | UnNeg | UnPos | UnTypeof

datatype ('f, 'j) raw_expr = Raw (raw_loc: nat) (raw_kind: "('f, 'j) raw_kind")
and ('f, 'j) raw_kind =
    RLit "'f literal"
  | RIdent string ident_kind
  | RMember "('f, 'j) raw_expr" string bool
  | RIndex "('f, 'j) raw_expr" "('f, 'j) raw_expr"
  | RCall "('f, 'j) raw_expr" "('f, 'j) raw_expr list"
  | RBinary bin_op "('f, 'j) raw_expr" "('f, 'j) raw_expr"
  | RUnary un_op "('f, 'j) raw_expr"
  | RCond "('f, 'j) raw_expr" "('f, 'j) raw_expr" "('f, 'j) raw_expr"
  | RTemplate string "(('f, 'j) raw_expr \<times> string) list"
  | RArray "('f, 'j) raw_expr list"
  | RObject "(string \<times> ('f, 'j) raw_expr) list"
  | RArrow "string list" "('f, 'j) arrow_body" "(string \<times> ident_kind) list"
  | RJsx 'j
  | ROpaque string string "(string \<times> ident_kind) list"
and ('f, 'j) arrow_body = BodyExpr "('f, 'j) raw_expr" | BodyBlock string bool

section \<open>Printing\<close>

datatype js_ctx = ServerCtx | ClientCtx

type_synonym js_names = "string \<Rightarrow> ident_kind \<Rightarrow> string option"

definition P_SEQ :: nat where "P_SEQ = 1"
definition P_ASSIGN :: nat where "P_ASSIGN = 2"
definition P_COND :: nat where "P_COND = 3"
definition P_UNARY :: nat where "P_UNARY = 15"
definition P_CALL :: nat where "P_CALL = 18"
definition P_PRIMARY :: nat where "P_PRIMARY = 20"

fun bin_prec :: "bin_op \<Rightarrow> nat" where
  "bin_prec OpNullish = 4"
| "bin_prec OpOr = 4"
| "bin_prec OpAnd = 5"
| "bin_prec OpEq = 9"
| "bin_prec OpNe = 9"
| "bin_prec OpStrictEq = 9"
| "bin_prec OpStrictNe = 9"
| "bin_prec OpLt = 10"
| "bin_prec OpLe = 10"
| "bin_prec OpGt = 10"
| "bin_prec OpGe = 10"
| "bin_prec OpAdd = 12"
| "bin_prec OpSub = 12"
| "bin_prec OpMul = 13"
| "bin_prec OpDiv = 13"
| "bin_prec OpRem = 13"

fun bin_str :: "bin_op \<Rightarrow> string" where
  "bin_str OpAdd = ''+''"
| "bin_str OpSub = ''-''"
| "bin_str OpMul = ''*''"
| "bin_str OpDiv = ''/''"
| "bin_str OpRem = ''%''"
| "bin_str OpEq = ''==''"
| "bin_str OpNe = ''!=''"
| "bin_str OpStrictEq = ''===''"
| "bin_str OpStrictNe = ''!==''"
| "bin_str OpLt = ''<''"
| "bin_str OpLe = ''<=''"
| "bin_str OpGt = ''>''"
| "bin_str OpGe = ''>=''"
| "bin_str OpAnd = ''&&''"
| "bin_str OpOr = ''||''"
| "bin_str OpNullish = ''??''"

definition prec_of :: "'f f64 \<Rightarrow> ('f, 'j) raw_expr \<Rightarrow> nat" where
  "prec_of fs e =
     (case raw_kind e of
        RLit (LNum n) \<Rightarrow> if f_lt fs n (f_dec fs 0 0) then P_UNARY else P_PRIMARY
      | RMember _ _ _ \<Rightarrow> P_CALL
      | RIndex _ _ \<Rightarrow> P_CALL
      | RCall _ _ \<Rightarrow> P_CALL
      | RUnary _ _ \<Rightarrow> P_UNARY
      | RBinary p _ _ \<Rightarrow> bin_prec p
      | RCond _ _ _ \<Rightarrow> P_COND
      | RArrow _ _ _ \<Rightarrow> P_ASSIGN
      | ROpaque _ _ _ \<Rightarrow> P_SEQ
      | _ \<Rightarrow> P_PRIMARY)"

text \<open>A string of the emitted module: \<^verbatim>\<open>serde_json::to_string\<close> of it.\<close>

definition quoted :: "string \<Rightarrow> string" where
  "quoted s = json_string s"

definition js_number :: "'f f64 \<Rightarrow> 'f \<Rightarrow> string" where
  "js_number fs n =
     (if is_nan fs n then ''NaN''
      else if is_infinite fs n then (if f_lt fs (f_dec fs 0 0) n then ''Infinity'' else ''-Infinity'')
      else if f_whole fs n \<and> f_lt fs (f_abs fs n) (f_dec fs 1 15) then int_text (f_trunc fs n)
      else f_display fs n)"

definition is_js_ident :: "string \<Rightarrow> bool" where
  "is_js_ident s \<longleftrightarrow>
     (case s of
        [] \<Rightarrow> False
      | c # cs \<Rightarrow>
          (is_ascii_lowercase c \<or> is_ascii_uppercase c \<or> c = CHR ''_'' \<or> c = CHR ''$'') \<and>
          list_all (\<lambda>c. is_ascii_alphanumeric c \<or> c = CHR ''_'' \<or> c = CHR ''$'') cs)"

fun template_chunk :: "string \<Rightarrow> string" where
  "template_chunk [] = []"
| "template_chunk (c # s) =
     (if c = CHR 0x5C then [CHR 0x5C, CHR 0x5C] @ template_chunk s
      else if c = CHR 0x60 then [CHR 0x5C, CHR 0x60] @ template_chunk s
      else if c = CHR ''$'' \<and> take 1 s = ''{'' then [CHR 0x5C, CHR ''$''] @ template_chunk s
      else c # template_chunk s)"

definition key_access :: "string \<Rightarrow> string" where
  "key_access k = (if is_js_ident k then CHR ''.'' # k else ''['' @ quoted k @ '']'')"

definition print_ident :: "js_ctx \<Rightarrow> js_names \<Rightarrow> string \<Rightarrow> ident_kind \<Rightarrow> string" where
  "print_ident ctx names name kind =
     (case names name kind of
        Some s \<Rightarrow> s
      | None \<Rightarrow>
          (case (kind, ctx) of
             (KProp, ServerCtx) \<Rightarrow> if name = ''*'' then ''props'' else name
           | (KProp, ClientCtx) \<Rightarrow> if name = ''*'' then ''props()'' else ''props()'' @ key_access name
           | (KState, ClientCtx) \<Rightarrow> name @ ''()''
           | (KStore handle key, ClientCtx) \<Rightarrow>
               handle @ (case key of Some k \<Rightarrow> key_access k | None \<Rightarrow> ''.snapshot'') @ ''()''
           | _ \<Rightarrow> name))"

definition mixes :: "bin_op \<Rightarrow> bool" where
  "mixes p \<longleftrightarrow> p = OpAnd \<or> p = OpOr \<or> p = OpNullish"

definition parens :: "bool \<Rightarrow> string \<Rightarrow> string" where
  "parens b s = (if b then ''('' @ s @ '')'' else s)"

text \<open>Whether an operand of \<open>p\<close> needs parentheses; \<open>\<^verbatim>\<open>??\<close>\<close> does not mix with the other two.\<close>

definition side_parens :: "'f f64 \<Rightarrow> bin_op \<Rightarrow> ('f, 'j) raw_expr \<Rightarrow> nat \<Rightarrow> bool" where
  "side_parens fs p side required \<longleftrightarrow>
     (case raw_kind side of
        RBinary inner _ _ \<Rightarrow> mixes p \<and> mixes inner \<and> ((p = OpNullish) \<noteq> (inner = OpNullish))
      | _ \<Rightarrow> False) \<or> prec_of fs side < required"

definition un_str :: "un_op \<Rightarrow> string" where
  "un_str p = (case p of UnNot \<Rightarrow> ''!'' | UnNeg \<Rightarrow> ''-'' | UnPos \<Rightarrow> ''+'' | UnTypeof \<Rightarrow> ''typeof '')"

definition nested_sign :: "'f f64 \<Rightarrow> ('f, 'j) raw_expr \<Rightarrow> bool" where
  "nested_sign fs e \<longleftrightarrow>
     (case raw_kind e of
        RUnary _ _ \<Rightarrow> True
      | RLit (LNum n) \<Rightarrow> f_lt fs n (f_dec fs 0 0)
      | _ \<Rightarrow> False)"

definition is_number_literal :: "('f, 'j) raw_expr \<Rightarrow> bool" where
  "is_number_literal e \<longleftrightarrow> (case raw_kind e of RLit (LNum _) \<Rightarrow> True | _ \<Rightarrow> False)"

definition is_object :: "('f, 'j) raw_expr \<Rightarrow> bool" where
  "is_object e \<longleftrightarrow> (case raw_kind e of RObject _ \<Rightarrow> True | _ \<Rightarrow> False)"

definition print_literal :: "'f f64 \<Rightarrow> 'f literal \<Rightarrow> string" where
  "print_literal fs l =
     (case l of
        LStr s \<Rightarrow> quoted s
      | LNum n \<Rightarrow> js_number fs n
      | LBool b \<Rightarrow> if b then ''true'' else ''false''
      | LNull \<Rightarrow> ''null''
      | LUndefined \<Rightarrow> ''undefined'')"

fun print_js :: "'f f64 \<Rightarrow> js_ctx \<Rightarrow> js_names \<Rightarrow> ('f, 'j) raw_expr \<Rightarrow> string"
  and print_kind :: "'f f64 \<Rightarrow> js_ctx \<Rightarrow> js_names \<Rightarrow> ('f, 'j) raw_kind \<Rightarrow> string" where
  "print_js fs ctx names (Raw loc kind) = print_kind fs ctx names kind"
| "print_kind fs ctx names (RLit l) = print_literal fs l"
| "print_kind fs ctx names (RIdent name kind) = print_ident ctx names name kind"
| "print_kind fs ctx names (RMember target name optional) =
     parens (is_number_literal target \<or> prec_of fs target < P_CALL) (print_js fs ctx names target) @
     (if optional then ''?.'' else ''.'') @ name"
| "print_kind fs ctx names (RIndex target index) =
     parens (prec_of fs target < P_CALL) (print_js fs ctx names target) @ ''['' @ print_js fs ctx names index @ '']''"
| "print_kind fs ctx names (RCall callee args) =
     parens (prec_of fs callee < P_CALL) (print_js fs ctx names callee) @ ''('' @
     join_with '', '' (map (\<lambda>a. parens (prec_of fs a < P_ASSIGN) (print_js fs ctx names a)) args) @ '')''"
| "print_kind fs ctx names (RBinary p left right) =
     parens (side_parens fs p left (bin_prec p)) (print_js fs ctx names left) @ '' '' @ bin_str p @ '' '' @
     parens (side_parens fs p right (bin_prec p + 1)) (print_js fs ctx names right)"
| "print_kind fs ctx names (RUnary p v) =
     un_str p @ parens (nested_sign fs v \<or> prec_of fs v < P_UNARY) (print_js fs ctx names v)"
| "print_kind fs ctx names (RCond test yes no) =
     parens (prec_of fs test < P_COND + 1) (print_js fs ctx names test) @ '' ? '' @
     parens (prec_of fs yes < P_ASSIGN) (print_js fs ctx names yes) @ '' : '' @
     parens (prec_of fs no < P_ASSIGN) (print_js fs ctx names no)"
| "print_kind fs ctx names (RTemplate head parts) =
     [CHR 0x60] @ template_chunk head @
     concat (map (\<lambda>(p, tail). ''${'' @ print_js fs ctx names p @ ''}'' @ template_chunk tail) parts) @ [CHR 0x60]"
| "print_kind fs ctx names (RArray items) =
     ''['' @ join_with '', '' (map (\<lambda>a. parens (prec_of fs a < P_ASSIGN) (print_js fs ctx names a)) items) @ '']''"
| "print_kind fs ctx names (RObject props) =
     (if props = [] then ''{}''
      else ''{ '' @
        join_with '', '' (map (\<lambda>(k, v). (if is_js_ident k then k else quoted k) @ '': '' @
          parens (prec_of fs v < P_ASSIGN) (print_js fs ctx names v)) props) @ '' }'')"
| "print_kind fs ctx names (RArrow params (BodyExpr b) captures) =
     ''('' @ join_with '', '' params @ '') => '' @
     parens (is_object b \<or> prec_of fs b < P_ASSIGN) (print_js fs ctx names b)"
| "print_kind fs ctx names (RArrow params (BodyBlock source captures_only) captures) = source"
| "print_kind fs ctx names (RJsx j) = ''undefined /* jsx */''"
| "print_kind fs ctx names (ROpaque source why captures) = source"

definition to_js :: "'f f64 \<Rightarrow> ('f, 'j) raw_expr \<Rightarrow> string" where
  "to_js fs e = print_js fs ServerCtx (\<lambda>_ _. None) e"

end
