(* ===== verification/Fold.thy ===== *)
theory Fold
  imports CExpr
begin

text \<open>
  The constant folder of the compiler (\<^verbatim>\<open>crates/brust-compiler/src/ir/fold.rs\<close>): a session with its bindings, memo,
  stack of constants and step count is threaded through every operation; the depth is the structural argument of
  \<open>fold_at\<close> (the source counts it up and down around each call). The reference is a big-step semantics \<open>evaluates\<close> of the
  same expressions in JavaScript, with no session at all; a fold that succeeds returns its value.
\<close>

section \<open>Values\<close>

datatype 'f val =
    UndefV
  | NullV
  | BoolV bool
  | NumV 'f
  | StrV string
  | ArrV "'f val list"
  | ObjV "(string \<times> 'f val) list"

text \<open>The error texts are constructors.\<close>

datatype fold_error =
    TooLarge
  | TooDeep
  | IndexBy string string
  | SignOf string
  | TypeofOperator
  | InTemplate string
  | AFunction
  | JsxElement
  | OpaqueExpr string
  | GlobalName string
  | PropName string
  | StateName string
  | StoreName string
  | ImportName string
  | NotConstant string
  | SelfReference string
  | NotModuleConst string
  | InConst string fold_error
  | NumberText
  | ObjectEquality
  | LooseEquality string string
  | BinaryOf string string string
  | CallTo string
  | MethodOn string string
  | MapOn string
  | MapArguments
  | FromArguments
  | FromShape
  | FromNotNumber
  | FromRange
  | NotAnArrow
  | BlockBody
  | TooManyParams
  | MemberOf string string

definition truthy :: "'f f64 \<Rightarrow> 'f val \<Rightarrow> bool" where
  "truthy fs v =
     (case v of
        UndefV \<Rightarrow> False
      | NullV \<Rightarrow> False
      | BoolV b \<Rightarrow> b
      | NumV n \<Rightarrow> \<not> f_eq fs n (f_dec fs 0 0) \<and> \<not> is_nan fs n
      | StrV s \<Rightarrow> s \<noteq> []
      | ArrV _ \<Rightarrow> True
      | ObjV _ \<Rightarrow> True)"

definition kind_text :: "'f val \<Rightarrow> string" where
  "kind_text v =
     (case v of
        UndefV \<Rightarrow> ''undefined''
      | NullV \<Rightarrow> ''null''
      | BoolV _ \<Rightarrow> ''a boolean''
      | NumV _ \<Rightarrow> ''a number''
      | StrV _ \<Rightarrow> ''a string''
      | ArrV _ \<Rightarrow> ''an array''
      | ObjV _ \<Rightarrow> ''an object'')"

definition js_num_str :: "'f f64 \<Rightarrow> 'f \<Rightarrow> string option" where
  "js_num_str fs n =
     (if f_eq fs n (f_dec fs 0 0) then Some ''0''
      else let a = f_abs fs n
           in if is_nan fs n \<or> is_infinite fs n \<or> \<not> (f_le fs (f_dec fs 1 (- 6)) a \<and> f_lt fs a (f_dec fs 1 21)) then None
              else if f_whole fs n \<and> f_lt fs a (f_dec fs 1 15) then Some (int_text (f_trunc fs n))
              else Some (f_display fs n))"

definition to_js_string :: "'f f64 \<Rightarrow> 'f val \<Rightarrow> string option" where
  "to_js_string fs v =
     (case v of
        UndefV \<Rightarrow> Some ''undefined''
      | NullV \<Rightarrow> Some ''null''
      | BoolV b \<Rightarrow> Some (if b then ''true'' else ''false'')
      | NumV n \<Rightarrow> js_num_str fs n
      | StrV s \<Rightarrow> Some s
      | _ \<Rightarrow> None)"

fun all_some :: "'a option list \<Rightarrow> 'a list option" where
  "all_some [] = Some []"
| "all_some (x # xs) = Option.bind x (\<lambda>y. map_option ((#) y) (all_some xs))"

text \<open>The value as a JavaScript literal.\<close>

fun val_js :: "'f f64 \<Rightarrow> 'f val \<Rightarrow> string option" where
  "val_js fs UndefV = None"
| "val_js fs NullV = Some ''null''"
| "val_js fs (BoolV b) = Some (if b then ''true'' else ''false'')"
| "val_js fs (NumV n) = js_num_str fs n"
| "val_js fs (StrV s) = Some (quoted s)"
| "val_js fs (ArrV a) = map_option (\<lambda>ts. ''['' @ join_with '', '' ts @ '']'') (all_some (map (val_js fs) a))"
| "val_js fs (ObjV entries) =
     map_option (\<lambda>ts. ''{ '' @ join_with '', '' ts @ '' }'')
       (all_some (map (\<lambda>(k, v). map_option (\<lambda>t. quoted k @ '': '' @ t) (val_js fs v)) entries))"

section \<open>Strings as JavaScript sees them\<close>

text \<open>\<^verbatim>\<open>encode_utf16\<close>: the code units of a UTF-8 text.\<close>

fun utf16 :: "string \<Rightarrow> nat list" where
  "utf16 [] = []"
| "utf16 (a # s) =
     (if byte a < 128 then byte a # utf16 s
      else if byte a < 224 then
        (case s of b # r \<Rightarrow> ((byte a mod 32) * 64 + byte b mod 64) # utf16 r | _ \<Rightarrow> [])
      else if byte a < 240 then
        (case s of b # c # r \<Rightarrow> ((byte a mod 16) * 4096 + (byte b mod 64) * 64 + byte c mod 64) # utf16 r | _ \<Rightarrow> [])
      else
        (case s of
           b # c # d # r \<Rightarrow>
             let p = (byte a mod 8) * 262144 + (byte b mod 64) * 4096 + (byte c mod 64) * 64 + byte d mod 64 - 65536
             in [55296 + p div 1024, 56320 + p mod 1024] @ utf16 r
         | _ \<Rightarrow> []))"

text \<open>Lexicographic order of code units.\<close>

fun units_less :: "nat list \<Rightarrow> nat list \<Rightarrow> bool" where
  "units_less [] [] = False"
| "units_less [] (y # ys) = True"
| "units_less (x # xs) [] = False"
| "units_less (x # xs) (y # ys) = (x < y \<or> x = y \<and> units_less xs ys)"

text \<open>\<^verbatim>\<open>is_js_space\<close> as encodings.\<close>

definition js_spaces :: "string list" where
  "js_spaces = map (map char_of)
     [[9::nat], [10], [11], [12], [13], [32], [194, 160], [225, 154, 128],
      [226, 128, 128], [226, 128, 129], [226, 128, 130], [226, 128, 131], [226, 128, 132],
      [226, 128, 133], [226, 128, 134], [226, 128, 135], [226, 128, 136], [226, 128, 137],
      [226, 128, 138], [226, 128, 168], [226, 128, 169], [226, 128, 175], [226, 129, 159],
      [227, 128, 128], [239, 187, 191]]"

definition js_trim :: "string \<Rightarrow> string" where
  "js_trim s = rev (trim_by (map rev js_spaces) (rev (trim_by js_spaces s)))"

section \<open>The session\<close>

definition MAX_STEPS :: nat where "MAX_STEPS = 200000"
definition MAX_DEPTH :: nat where "MAX_DEPTH = 64"
definition MAX_FROM_LENGTH :: int where "MAX_FROM_LENGTH = 10000"

record 'f fold_env =
  fe_binds :: "(string \<times> 'f val) list"
  fe_memo :: "(string \<times> (fold_error + 'f val)) list"
  fe_stack :: "string list"
  fe_steps :: nat

definition fold_env_new :: "'f fold_env" where
  "fold_env_new = \<lparr>fe_binds = [], fe_memo = [], fe_stack = [], fe_steps = 0\<rparr>"

definition bind_name :: "string \<Rightarrow> 'f val \<Rightarrow> 'f fold_env \<Rightarrow> 'f fold_env" where
  "bind_name name v env = env\<lparr>fe_binds := fe_binds env @ [(name, v)]\<rparr>"

definition unbind :: "nat \<Rightarrow> 'f fold_env \<Rightarrow> 'f fold_env" where
  "unbind n env = env\<lparr>fe_binds := take (length (fe_binds env) - n) (fe_binds env)\<rparr>"

text \<open>A step of a session: its result and the session after it.\<close>

type_synonym ('f, 'a) step = "'f fold_env \<Rightarrow> (fold_error + 'a) \<times> 'f fold_env"

type_synonym ('f, 'j) folder = "('f, 'j) raw_expr \<Rightarrow> ('f, 'f val) step"

definition ret :: "'a \<Rightarrow> ('f, 'a) step" where
  "ret v env = (Ok v, env)"

definition fail :: "fold_error \<Rightarrow> ('f, 'a) step" where
  "fail e env = (Err e, env)"

definition seq :: "('f, 'a) step \<Rightarrow> ('a \<Rightarrow> ('f, 'b) step) \<Rightarrow> ('f, 'b) step" where
  "seq m k env = (case m env of (Inl e, env) \<Rightarrow> (Inl e, env) | (Inr v, env) \<Rightarrow> k v env)"

section \<open>Operations\<close>

definition PROTO_NAMES :: "string list" where
  "PROTO_NAMES = [''constructor'', ''__proto__'', ''toString'', ''valueOf'', ''hasOwnProperty'', ''isPrototypeOf'',
     ''propertyIsEnumerable'', ''toLocaleString'', ''__defineGetter__'', ''__defineSetter__'', ''__lookupGetter__'',
     ''__lookupSetter__'']"

definition member :: "'f f64 \<Rightarrow> 'f val \<Rightarrow> string \<Rightarrow> bool \<Rightarrow> fold_error + 'f val" where
  "member fs t name optional =
     (if (t = UndefV \<or> t = NullV) \<and> optional then Ok UndefV
      else case t of
        ArrV a \<Rightarrow> if name = ''length'' then Ok (NumV (f_of_nat fs (length a))) else Err (MemberOf name (kind_text t))
      | StrV s \<Rightarrow> if name = ''length'' then Ok (NumV (f_of_nat fs (length (utf16 s)))) else Err (MemberOf name (kind_text t))
      | ObjV entries \<Rightarrow>
          (case map_of entries name of
             Some v \<Rightarrow> Ok v
           | None \<Rightarrow> if name \<in> set PROTO_NAMES then Err (MemberOf name ''an object'') else Ok UndefV)
      | _ \<Rightarrow> Err (MemberOf name (kind_text t)))"

definition index_value :: "'f f64 \<Rightarrow> 'f val \<Rightarrow> 'f val \<Rightarrow> fold_error + 'f val" where
  "index_value fs t i =
     (case (t, i) of
        (ArrV a, NumV n) \<Rightarrow>
          Ok (if f_le fs (f_dec fs 0 0) n \<and> f_whole fs n
              then (let k = nat (f_trunc fs n) in if k < length a then a ! k else UndefV)
              else UndefV)
      | (ObjV _, StrV k) \<Rightarrow> member fs t k False
      | _ \<Rightarrow> Err (IndexBy (kind_text t) (kind_text i)))"

definition unary_value :: "'f f64 \<Rightarrow> un_op \<Rightarrow> 'f val \<Rightarrow> fold_error + 'f val" where
  "unary_value fs p v =
     (case (p, v) of
        (UnNot, _) \<Rightarrow> Ok (BoolV (\<not> truthy fs v))
      | (UnNeg, NumV n) \<Rightarrow> Ok (NumV (f_neg fs n))
      | (UnPos, NumV n) \<Rightarrow> Ok (NumV n)
      | (UnTypeof, _) \<Rightarrow> Err TypeofOperator
      | _ \<Rightarrow> Err (SignOf (kind_text v)))"

fun is_heap :: "'f val \<Rightarrow> bool" where
  "is_heap (ArrV _) = True"
| "is_heap (ObjV _) = True"
| "is_heap _ = False"

fun is_nullish :: "'f val \<Rightarrow> bool" where
  "is_nullish UndefV = True"
| "is_nullish NullV = True"
| "is_nullish _ = False"

text \<open>The equality of two values under \<open>p\<close>; \<open>loose\<close> is \<^verbatim>\<open>==\<close> or \<^verbatim>\<open>!=\<close>.\<close>

definition equality :: "'f f64 \<Rightarrow> bool \<Rightarrow> 'f val \<Rightarrow> 'f val \<Rightarrow> fold_error + bool" where
  "equality fs loose a b =
     (case (a, b) of
        (NumV x, NumV y) \<Rightarrow> Ok (f_eq fs x y)
      | (StrV x, StrV y) \<Rightarrow> Ok (x = y)
      | (BoolV x, BoolV y) \<Rightarrow> Ok (x = y)
      | _ \<Rightarrow>
          if is_nullish a \<and> is_nullish b then Ok (loose \<or> a = b)
          else if is_heap a \<or> is_heap b then Err ObjectEquality
          else if \<not> loose then Ok False
          else Err (LooseEquality (kind_text a) (kind_text b)))"

definition relation :: "'f f64 \<Rightarrow> bin_op \<Rightarrow> 'f \<Rightarrow> 'f \<Rightarrow> bool" where
  "relation fs p x y =
     (case p of OpLt \<Rightarrow> f_lt fs x y | OpLe \<Rightarrow> f_le fs x y | OpGt \<Rightarrow> f_lt fs y x | _ \<Rightarrow> f_le fs y x)"

definition text_relation :: "bin_op \<Rightarrow> string \<Rightarrow> string \<Rightarrow> bool" where
  "text_relation p x y =
     (let less = units_less (utf16 x) (utf16 y); same = (utf16 x = utf16 y)
      in case p of OpLt \<Rightarrow> less | OpLe \<Rightarrow> less \<or> same | OpGt \<Rightarrow> \<not> less \<and> \<not> same | _ \<Rightarrow> \<not> less)"

definition add_texts :: "'f f64 \<Rightarrow> 'f val \<Rightarrow> 'f val \<Rightarrow> fold_error + 'f val" where
  "add_texts fs a b =
     (case (to_js_string fs a, to_js_string fs b) of (Some x, Some y) \<Rightarrow> Ok (StrV (x @ y)) | _ \<Rightarrow> Err NumberText)"

definition arithmetic :: "'f f64 \<Rightarrow> bin_op \<Rightarrow> ('f \<Rightarrow> 'f \<Rightarrow> 'f) option" where
  "arithmetic fs p =
     (case p of
        OpAdd \<Rightarrow> Some (f_add fs)
      | OpSub \<Rightarrow> Some (f_sub fs)
      | OpMul \<Rightarrow> Some (f_mul fs)
      | OpDiv \<Rightarrow> Some (f_div fs)
      | OpRem \<Rightarrow> Some (f_rem fs)
      | _ \<Rightarrow> None)"

definition equality_op :: "bin_op \<Rightarrow> bool" where
  "equality_op p \<longleftrightarrow> p = OpEq \<or> p = OpStrictEq \<or> p = OpNe \<or> p = OpStrictNe"

definition relation_op :: "bin_op \<Rightarrow> bool" where
  "relation_op p \<longleftrightarrow> p = OpLt \<or> p = OpLe \<or> p = OpGt \<or> p = OpGe"

text \<open>An operator whose operands are both evaluated.\<close>

definition binary_value :: "'f f64 \<Rightarrow> bin_op \<Rightarrow> 'f val \<Rightarrow> 'f val \<Rightarrow> fold_error + 'f val" where
  "binary_value fs p a b =
     (if equality_op p
      then map_sum id (\<lambda>eq. BoolV (eq = (p = OpEq \<or> p = OpStrictEq))) (equality fs (p = OpEq \<or> p = OpNe) a b)
      else case (a, b) of
             (NumV x, NumV y) \<Rightarrow>
               if relation_op p then Ok (BoolV (relation fs p x y))
               else (case arithmetic fs p of
                       Some f \<Rightarrow> Ok (NumV (f x y))
                     | None \<Rightarrow> Err (BinaryOf (bin_str p) (kind_text a) (kind_text b)))
           | (StrV x, StrV y) \<Rightarrow>
               if relation_op p then Ok (BoolV (text_relation p x y))
               else if p = OpAdd then add_texts fs a b
               else Err (BinaryOf (bin_str p) (kind_text a) (kind_text b))
           | (StrV x, NumV y) \<Rightarrow> if p = OpAdd then add_texts fs a b else Err (BinaryOf (bin_str p) (kind_text a) (kind_text b))
           | (NumV x, StrV y) \<Rightarrow> if p = OpAdd then add_texts fs a b else Err (BinaryOf (bin_str p) (kind_text a) (kind_text b))
           | _ \<Rightarrow> Err (BinaryOf (bin_str p) (kind_text a) (kind_text b)))"

section \<open>The folder\<close>

text \<open>Every helper takes the folder one level deeper as its argument \<open>f\<close>.\<close>

definition of_result :: "fold_error + 'a \<Rightarrow> ('f, 'a) step" where
  "of_result r env = (r, env)"

fun fold_all :: "('f, 'j) folder \<Rightarrow> ('f, 'j) raw_expr list \<Rightarrow> ('f, 'f val list) step" where
  "fold_all f [] = ret []"
| "fold_all f (e # es) = seq (f e) (\<lambda>v. seq (fold_all f es) (\<lambda>vs. ret (v # vs)))"

fun set_field :: "(string \<times> 'v) list \<Rightarrow> string \<Rightarrow> 'v \<Rightarrow> (string \<times> 'v) list" where
  "set_field [] k v = [(k, v)]"
| "set_field ((n, w) # entries) k v = (if n = k then (n, v) # entries else (n, w) # set_field entries k v)"

fun fold_fields :: "('f, 'j) folder \<Rightarrow> (string \<times> ('f, 'j) raw_expr) list \<Rightarrow> (string \<times> 'f val) list \<Rightarrow> ('f, 'f val) step" where
  "fold_fields f [] out = ret (ObjV out)"
| "fold_fields f ((k, e) # rest) out = seq (f e) (\<lambda>v. fold_fields f rest (set_field out k v))"

fun fold_parts :: "'f f64 \<Rightarrow> ('f, 'j) folder \<Rightarrow> (('f, 'j) raw_expr \<times> string) list \<Rightarrow> string \<Rightarrow> ('f, 'f val) step" where
  "fold_parts fs f [] s = ret (StrV s)"
| "fold_parts fs f ((e, tail) # rest) s =
     seq (f e) (\<lambda>v. case to_js_string fs v of
       Some t \<Rightarrow> fold_parts fs f rest (s @ t @ tail)
     | None \<Rightarrow> fail (InTemplate (kind_text v)))"

text \<open>A constant's initialiser is folded without the bindings of the place that reads it.\<close>

definition module_const ::
  "('f, 'j) folder \<Rightarrow> (string \<Rightarrow> ('f, 'j) raw_expr option) \<Rightarrow> string \<Rightarrow> ('f, 'f val) step" where
  "module_const f inits name env =
     (case map_of (fe_memo env) name of
        Some r \<Rightarrow> (r, env)
      | None \<Rightarrow>
          if name \<in> set (fe_stack env) then (Err (SelfReference name), env)
          else case inits name of
            None \<Rightarrow> (Err (NotModuleConst name), env)
          | Some init \<Rightarrow>
              let saved = fe_binds env;
                  (r, env) = f init (env\<lparr>fe_binds := [], fe_stack := fe_stack env @ [name]\<rparr>);
                  r = map_sum (InConst name) id r
              in (r, env\<lparr>fe_stack := butlast (fe_stack env), fe_binds := saved, fe_memo := (name, r) # fe_memo env\<rparr>))"

definition fold_ident ::
  "'f f64 \<Rightarrow> ('f, 'j) folder \<Rightarrow> (string \<Rightarrow> ('f, 'j) raw_expr option) \<Rightarrow> string \<Rightarrow> ident_kind \<Rightarrow> ('f, 'f val) step" where
  "fold_ident fs f inits name kind env =
     (case map_of (rev (fe_binds env)) name of
        Some v \<Rightarrow> (Ok v, env)
      | None \<Rightarrow>
          (case kind of
             KLocal \<Rightarrow> module_const f inits name env
           | KGlobal \<Rightarrow>
               (if name = ''undefined'' then Ok UndefV
                else if name = ''NaN'' then Ok (NumV (f_nan fs))
                else if name = ''Infinity'' then Ok (NumV (f_inf fs))
                else Err (GlobalName name), env)
           | KProp \<Rightarrow> (Err (PropName name), env)
           | KState \<Rightarrow> (Err (StateName name), env)
           | KSetter \<Rightarrow> (Err (StateName name), env)
           | KStore _ _ \<Rightarrow> (Err (StoreName name), env)
           | KImport _ _ \<Rightarrow> (Err (ImportName name), env)
           | KLoopBinding \<Rightarrow> (Err (NotConstant name), env)
           | KUnknown \<Rightarrow> (Err (NotConstant name), env)))"

definition fold_binary ::
  "'f f64 \<Rightarrow> ('f, 'j) folder \<Rightarrow> bin_op \<Rightarrow> ('f, 'j) raw_expr \<Rightarrow> ('f, 'j) raw_expr \<Rightarrow> ('f, 'f val) step" where
  "fold_binary fs f p l r =
     (case p of
        OpAnd \<Rightarrow> seq (f l) (\<lambda>a. if truthy fs a then f r else ret a)
      | OpOr \<Rightarrow> seq (f l) (\<lambda>a. if truthy fs a then ret a else f r)
      | OpNullish \<Rightarrow> seq (f l) (\<lambda>a. if is_nullish a then f r else ret a)
      | _ \<Rightarrow> seq (f l) (\<lambda>a. seq (f r) (\<lambda>b. of_result (binary_value fs p a b))))"

fun map_items ::
  "'f f64 \<Rightarrow> ('f, 'j) folder \<Rightarrow> string list \<Rightarrow> ('f, 'j) raw_expr \<Rightarrow> 'f val \<Rightarrow> nat \<Rightarrow> 'f val list \<Rightarrow> ('f, 'f val list) step" where
  "map_items fs f params body whole i [] = ret []"
| "map_items fs f params body whole i (it # items) =
     (\<lambda>env.
        let bound = zip params [it, NumV (f_of_nat fs i), whole];
            (r, env) = f body (fold (\<lambda>(p, v). bind_name p v) bound env)
        in seq (of_result r) (\<lambda>v. seq (map_items fs f params body whole (i + 1) items) (\<lambda>vs. ret (v # vs)))
             (unbind (length bound) env))"

definition fold_map ::
  "'f f64 \<Rightarrow> ('f, 'j) folder \<Rightarrow> 'f val list \<Rightarrow> ('f, 'j) raw_expr \<Rightarrow> ('f, 'f val) step" where
  "fold_map fs f items cb =
     (case raw_kind cb of
        RArrow params (BodyExpr body) _ \<Rightarrow>
          if 3 < length params then fail TooManyParams
          else seq (map_items fs f params body (ArrV items) 0 items) (\<lambda>vs. ret (ArrV vs))
      | RArrow params (BodyBlock _ _) _ \<Rightarrow> fail BlockBody
      | _ \<Rightarrow> fail NotAnArrow)"

definition array_from :: "'f f64 \<Rightarrow> ('f, 'j) folder \<Rightarrow> ('f, 'j) raw_expr list \<Rightarrow> ('f, 'f val) step" where
  "array_from fs f args =
     (let go = (\<lambda>spec cb.
        case raw_kind spec of
          RObject [(k, len)] \<Rightarrow>
            if k \<noteq> ''length'' then fail FromShape
            else seq (f len) (\<lambda>v. case v of
              NumV n \<Rightarrow>
                if is_nan fs n \<or> f_lt fs n (f_dec fs 0 0) \<or> \<not> f_whole fs n \<or> f_lt fs (f_dec fs MAX_FROM_LENGTH 0) n
                then fail FromRange
                else let holes = replicate (nat (f_trunc fs n)) UndefV
                     in (case cb of None \<Rightarrow> ret (ArrV holes) | Some cb \<Rightarrow> fold_map fs f holes cb)
            | _ \<Rightarrow> fail FromNotNumber)
        | _ \<Rightarrow> fail FromShape)
      in case args of
           [s] \<Rightarrow> go s None
         | [s, cb] \<Rightarrow> go s (Some cb)
         | _ \<Rightarrow> fail FromArguments)"

definition is_array_global :: "('f, 'j) raw_expr \<Rightarrow> bool" where
  "is_array_global e \<longleftrightarrow> raw_kind e = RIdent ''Array'' KGlobal"

definition fold_call ::
  "'f f64 \<Rightarrow> ('f, 'j) folder \<Rightarrow> ('f, 'j) raw_expr \<Rightarrow> ('f, 'j) raw_expr list \<Rightarrow> ('f, 'f val) step" where
  "fold_call fs f callee args =
     (case raw_kind callee of
        RMember target name False \<Rightarrow>
          if is_array_global target \<and> name = ''from'' then array_from fs f args
          else if (name = ''trim'' \<or> name = ''toString'') \<and> args = [] then
            seq (f target) (\<lambda>t. case t of
              StrV s \<Rightarrow> ret (StrV (if name = ''trim'' then js_trim s else s))
            | _ \<Rightarrow> fail (MethodOn name (kind_text t)))
          else if name = ''map'' then
            seq (f target) (\<lambda>t. case t of
              ArrV items \<Rightarrow> (case args of [cb] \<Rightarrow> fold_map fs f items cb | _ \<Rightarrow> fail MapArguments)
            | _ \<Rightarrow> fail (MapOn (kind_text t)))
          else fail (CallTo (to_js fs callee))
      | _ \<Rightarrow> fail (CallTo (to_js fs callee)))"

definition fold_literal :: "'f literal \<Rightarrow> 'f val" where
  "fold_literal l =
     (case l of LStr s \<Rightarrow> StrV s | LNum n \<Rightarrow> NumV n | LBool b \<Rightarrow> BoolV b | LNull \<Rightarrow> NullV | LUndefined \<Rightarrow> UndefV)"

definition fold_inner ::
  "'f f64 \<Rightarrow> (string \<Rightarrow> ('f, 'j) raw_expr option) \<Rightarrow> ('f, 'j) folder \<Rightarrow> ('f, 'j) raw_expr \<Rightarrow> ('f, 'f val) step" where
  "fold_inner fs inits f e =
     (case raw_kind e of
        RLit l \<Rightarrow> ret (fold_literal l)
      | RIdent name kind \<Rightarrow> fold_ident fs f inits name kind
      | RMember target name optional \<Rightarrow> seq (f target) (\<lambda>t. of_result (member fs t name optional))
      | RIndex target index \<Rightarrow> seq (f target) (\<lambda>t. seq (f index) (\<lambda>i. of_result (index_value fs t i)))
      | RUnary p v \<Rightarrow> seq (f v) (\<lambda>v. of_result (unary_value fs p v))
      | RBinary p l r \<Rightarrow> fold_binary fs f p l r
      | RCond test yes no \<Rightarrow> seq (f test) (\<lambda>t. if truthy fs t then f yes else f no)
      | RTemplate head parts \<Rightarrow> fold_parts fs f parts head
      | RArray items \<Rightarrow> seq (fold_all f items) (\<lambda>vs. ret (ArrV vs))
      | RObject entries \<Rightarrow> fold_fields f entries []
      | RCall callee args \<Rightarrow> fold_call fs f callee args
      | RArrow _ _ _ \<Rightarrow> fail AFunction
      | RJsx _ \<Rightarrow> fail JsxElement
      | ROpaque _ why _ \<Rightarrow> fail (OpaqueExpr why))"

text \<open>\<open>fold_at d\<close>: a fold that may nest \<open>d\<close> levels; \<open>fold_expr\<close> is a fold called by the compiler, at depth zero.\<close>

definition step_taken :: "'f fold_env \<Rightarrow> 'f fold_env" where
  "step_taken env = env\<lparr>fe_steps := fe_steps env + 1\<rparr>"

primrec fold_at ::
  "'f f64 \<Rightarrow> (string \<Rightarrow> ('f, 'j) raw_expr option) \<Rightarrow> nat \<Rightarrow> ('f, 'j) folder" where
  "fold_at fs inits 0 e env =
     (Err (if MAX_STEPS < fe_steps (step_taken env) then TooLarge else TooDeep), step_taken env)"
| "fold_at fs inits (Suc d) e env =
     (if MAX_STEPS < fe_steps (step_taken env) then (Err TooLarge, step_taken env)
      else fold_inner fs inits (fold_at fs inits d) e (step_taken env))"

definition fold_expr :: "'f f64 \<Rightarrow> (string \<Rightarrow> ('f, 'j) raw_expr option) \<Rightarrow> ('f, 'j) folder" where
  "fold_expr fs inits = fold_at fs inits MAX_DEPTH"

end
