(* ===== verification/FoldLaws.thy ===== *)
theory FoldLaws
  imports Fold
begin

text \<open>
  What the constant folder means (\<open>Fold\<close>): a big-step semantics of the expressions in JavaScript, after ECMA-262, in which
  there is no memo, no budget and no order of folds; its determinism; and the laws of a session.
\<close>

section \<open>The operators of JavaScript\<close>

text \<open>\<^verbatim>\<open>IsStrictlyEqual\<close> and \<^verbatim>\<open>IsLooselyEqual\<close> on values that are no objects; \<open>None\<close> where operands are coerced.\<close>

fun es_strict_equal :: "'f f64 \<Rightarrow> 'f val \<Rightarrow> 'f val \<Rightarrow> bool" where
  "es_strict_equal fs (NumV x) (NumV y) = f_eq fs x y"
| "es_strict_equal fs (StrV x) (StrV y) = (x = y)"
| "es_strict_equal fs (BoolV x) (BoolV y) = (x = y)"
| "es_strict_equal fs UndefV UndefV = True"
| "es_strict_equal fs NullV NullV = True"
| "es_strict_equal fs _ _ = False"

definition same_type :: "'f val \<Rightarrow> 'f val \<Rightarrow> bool" where
  "same_type a b \<longleftrightarrow> kind_text a = kind_text b"

definition es_loose_equal :: "'f f64 \<Rightarrow> 'f val \<Rightarrow> 'f val \<Rightarrow> bool option" where
  "es_loose_equal fs a b =
     (if same_type a b then Some (es_strict_equal fs a b)
      else if is_nullish a \<and> is_nullish b then Some True
      else None)"

text \<open>\<^verbatim>\<open>IsLessThan\<close>; of two strings by the first code unit that differs, a proper prefix first.\<close>

definition es_text_less :: "nat list \<Rightarrow> nat list \<Rightarrow> bool" where
  "es_text_less xs ys \<longleftrightarrow>
     (\<exists>k. take k xs = take k ys \<and> k \<le> length xs \<and> k < length ys \<and> (k = length xs \<or> xs ! k < ys ! k))"

text \<open>The truth of \<^verbatim>\<open>a < b\<close>, and of \<^verbatim>\<open>a <= b\<close>; of numbers they are the comparisons of IEEE 754.\<close>

fun es_less :: "'f f64 \<Rightarrow> 'f val \<Rightarrow> 'f val \<Rightarrow> bool option" where
  "es_less fs (NumV x) (NumV y) = Some (f_lt fs x y)"
| "es_less fs (StrV x) (StrV y) = Some (es_text_less (utf16 x) (utf16 y))"
| "es_less fs _ _ = None"

fun es_less_equal :: "'f f64 \<Rightarrow> 'f val \<Rightarrow> 'f val \<Rightarrow> bool option" where
  "es_less_equal fs (NumV x) (NumV y) = Some (f_le fs x y)"
| "es_less_equal fs (StrV x) (StrV y) = Some (\<not> es_text_less (utf16 y) (utf16 x))"
| "es_less_equal fs _ _ = None"

fun is_text :: "'f val \<Rightarrow> bool" where
  "is_text (StrV _) = True"
| "is_text _ = False"

fun es_numbers :: "('f \<Rightarrow> 'f \<Rightarrow> 'f) \<Rightarrow> 'f val \<Rightarrow> 'f val \<Rightarrow> 'f val option" where
  "es_numbers f (NumV x) (NumV y) = Some (NumV (f x y))"
| "es_numbers f _ _ = None"

definition es_add :: "'f f64 \<Rightarrow> 'f val \<Rightarrow> 'f val \<Rightarrow> 'f val option" where
  "es_add fs a b =
     (if is_text a \<or> is_text b
      then (case (to_js_string fs a, to_js_string fs b) of (Some x, Some y) \<Rightarrow> Some (StrV (x @ y)) | _ \<Rightarrow> None)
      else es_numbers (f_add fs) a b)"

fun es_binary :: "'f f64 \<Rightarrow> bin_op \<Rightarrow> 'f val \<Rightarrow> 'f val \<Rightarrow> 'f val option" where
  "es_binary fs OpAdd a b = es_add fs a b"
| "es_binary fs OpSub a b = es_numbers (f_sub fs) a b"
| "es_binary fs OpMul a b = es_numbers (f_mul fs) a b"
| "es_binary fs OpDiv a b = es_numbers (f_div fs) a b"
| "es_binary fs OpRem a b = es_numbers (f_rem fs) a b"
| "es_binary fs OpLt a b = map_option BoolV (es_less fs a b)"
| "es_binary fs OpGt a b = map_option BoolV (es_less fs b a)"
| "es_binary fs OpLe a b = map_option BoolV (es_less_equal fs a b)"
| "es_binary fs OpGe a b = map_option BoolV (es_less_equal fs b a)"
| "es_binary fs OpStrictEq a b = (if is_heap a \<or> is_heap b then None else Some (BoolV (es_strict_equal fs a b)))"
| "es_binary fs OpStrictNe a b = (if is_heap a \<or> is_heap b then None else Some (BoolV (\<not> es_strict_equal fs a b)))"
| "es_binary fs OpEq a b = (if is_heap a \<or> is_heap b then None else map_option BoolV (es_loose_equal fs a b))"
| "es_binary fs OpNe a b =
     (if is_heap a \<or> is_heap b then None else map_option (\<lambda>r. BoolV (\<not> r)) (es_loose_equal fs a b))"
| "es_binary fs _ a b = None"

fun es_unary :: "'f f64 \<Rightarrow> un_op \<Rightarrow> 'f val \<Rightarrow> 'f val option" where
  "es_unary fs UnNot v = Some (BoolV (\<not> truthy fs v))"
| "es_unary fs UnNeg (NumV n) = Some (NumV (f_neg fs n))"
| "es_unary fs UnPos (NumV n) = Some (NumV n)"
| "es_unary fs _ _ = None"

text \<open>A property read: own members first, then \<open>None\<close> for what \<^verbatim>\<open>Object.prototype\<close> has.\<close>

fun es_get :: "'f f64 \<Rightarrow> 'f val \<Rightarrow> string \<Rightarrow> 'f val option" where
  "es_get fs (ArrV a) name = (if name = ''length'' then Some (NumV (f_of_nat fs (length a))) else None)"
| "es_get fs (StrV s) name = (if name = ''length'' then Some (NumV (f_of_nat fs (length (utf16 s)))) else None)"
| "es_get fs (ObjV entries) name =
     (case map_of entries name of
        Some v \<Rightarrow> Some v
      | None \<Rightarrow> if name \<in> set PROTO_NAMES then None else Some UndefV)"
| "es_get fs _ name = None"

fun es_index :: "'f f64 \<Rightarrow> 'f val \<Rightarrow> 'f val \<Rightarrow> 'f val option" where
  "es_index fs (ArrV a) (NumV n) =
     Some (if f_le fs (f_dec fs 0 0) n \<and> f_whole fs n \<and> nat (f_trunc fs n) < length a
           then a ! nat (f_trunc fs n) else UndefV)"
| "es_index fs (ObjV entries) (StrV k) = es_get fs (ObjV entries) k"
| "es_index fs _ _ = None"

section \<open>Evaluation\<close>

definition strict_op :: "bin_op \<Rightarrow> bool" where
  "strict_op p \<longleftrightarrow> p \<noteq> OpAnd \<and> p \<noteq> OpOr \<and> p \<noteq> OpNullish"

definition from_length :: "'f f64 \<Rightarrow> 'f \<Rightarrow> nat \<Rightarrow> bool" where
  "from_length fs n k \<longleftrightarrow>
     \<not> is_nan fs n \<and> \<not> f_lt fs n (f_dec fs 0 0) \<and> f_whole fs n \<and> \<not> f_lt fs (f_dec fs MAX_FROM_LENGTH 0) n \<and>
     k = nat (f_trunc fs n)"

text \<open>
  \<open>evaluates fs inits B e v\<close>: under the bindings \<open>B\<close>, the innermost last, \<open>e\<close> has the value \<open>v\<close>. \<open>inits\<close> are the
  initialisers of the module's constants.
\<close>

inductive evaluates ::
  "'f f64 \<Rightarrow> (string \<Rightarrow> ('f, 'j) raw_expr option) \<Rightarrow> (string \<times> 'f val) list \<Rightarrow> ('f, 'j) raw_expr \<Rightarrow> 'f val \<Rightarrow> bool"
  for fs :: "'f f64" and inits :: "string \<Rightarrow> ('f, 'j) raw_expr option" where
  ev_lit: "evaluates fs inits B (Raw loc (RLit l)) (fold_literal l)"
| ev_bound: "map_of (rev B) name = Some v \<Longrightarrow> evaluates fs inits B (Raw loc (RIdent name kind)) v"
| ev_const: "map_of (rev B) name = None \<Longrightarrow> inits name = Some init \<Longrightarrow> evaluates fs inits [] init v \<Longrightarrow>
    evaluates fs inits B (Raw loc (RIdent name KLocal)) v"
| ev_undefined: "map_of (rev B) ''undefined'' = None \<Longrightarrow>
    evaluates fs inits B (Raw loc (RIdent ''undefined'' KGlobal)) UndefV"
| ev_nan: "map_of (rev B) ''NaN'' = None \<Longrightarrow> evaluates fs inits B (Raw loc (RIdent ''NaN'' KGlobal)) (NumV (f_nan fs))"
| ev_infinity: "map_of (rev B) ''Infinity'' = None \<Longrightarrow>
    evaluates fs inits B (Raw loc (RIdent ''Infinity'' KGlobal)) (NumV (f_inf fs))"
| ev_member: "evaluates fs inits B t tv \<Longrightarrow> es_get fs tv name = Some v \<Longrightarrow>
    evaluates fs inits B (Raw loc (RMember t name optional)) v"
| ev_optional: "evaluates fs inits B t tv \<Longrightarrow> is_nullish tv \<Longrightarrow>
    evaluates fs inits B (Raw loc (RMember t name True)) UndefV"
| ev_index: "evaluates fs inits B t tv \<Longrightarrow> evaluates fs inits B i iv \<Longrightarrow> es_index fs tv iv = Some v \<Longrightarrow>
    evaluates fs inits B (Raw loc (RIndex t i)) v"
| ev_unary: "evaluates fs inits B e a \<Longrightarrow> es_unary fs p a = Some v \<Longrightarrow> evaluates fs inits B (Raw loc (RUnary p e)) v"
| ev_binary: "strict_op p \<Longrightarrow> evaluates fs inits B l a \<Longrightarrow> evaluates fs inits B r b \<Longrightarrow> es_binary fs p a b = Some v \<Longrightarrow>
    evaluates fs inits B (Raw loc (RBinary p l r)) v"
| ev_and_left: "evaluates fs inits B l a \<Longrightarrow> \<not> truthy fs a \<Longrightarrow> evaluates fs inits B (Raw loc (RBinary OpAnd l r)) a"
| ev_and_right: "evaluates fs inits B l a \<Longrightarrow> truthy fs a \<Longrightarrow> evaluates fs inits B r v \<Longrightarrow>
    evaluates fs inits B (Raw loc (RBinary OpAnd l r)) v"
| ev_or_left: "evaluates fs inits B l a \<Longrightarrow> truthy fs a \<Longrightarrow> evaluates fs inits B (Raw loc (RBinary OpOr l r)) a"
| ev_or_right: "evaluates fs inits B l a \<Longrightarrow> \<not> truthy fs a \<Longrightarrow> evaluates fs inits B r v \<Longrightarrow>
    evaluates fs inits B (Raw loc (RBinary OpOr l r)) v"
| ev_nullish_left: "evaluates fs inits B l a \<Longrightarrow> \<not> is_nullish a \<Longrightarrow> evaluates fs inits B (Raw loc (RBinary OpNullish l r)) a"
| ev_nullish_right: "evaluates fs inits B l a \<Longrightarrow> is_nullish a \<Longrightarrow> evaluates fs inits B r v \<Longrightarrow>
    evaluates fs inits B (Raw loc (RBinary OpNullish l r)) v"
| ev_cond_yes: "evaluates fs inits B test t \<Longrightarrow> truthy fs t \<Longrightarrow> evaluates fs inits B yes v \<Longrightarrow>
    evaluates fs inits B (Raw loc (RCond test yes no)) v"
| ev_cond_no: "evaluates fs inits B test t \<Longrightarrow> \<not> truthy fs t \<Longrightarrow> evaluates fs inits B no v \<Longrightarrow>
    evaluates fs inits B (Raw loc (RCond test yes no)) v"
| ev_template: "list_all2 (\<lambda>p t. \<exists>v. evaluates fs inits B (fst p) v \<and> to_js_string fs v = Some t) parts ts \<Longrightarrow>
    evaluates fs inits B (Raw loc (RTemplate head parts)) (StrV (head @ concat (map2 (\<lambda>p t. t @ snd p) parts ts)))"
| ev_array: "list_all2 (\<lambda>e v. evaluates fs inits B e v) es vs \<Longrightarrow> evaluates fs inits B (Raw loc (RArray es)) (ArrV vs)"
| ev_object: "list_all2 (\<lambda>p v. evaluates fs inits B (snd p) v) ps vs \<Longrightarrow>
    evaluates fs inits B (Raw loc (RObject ps)) (ObjV (foldl (\<lambda>obj (k, v). set_field obj k v) [] (zip (map fst ps) vs)))"
| ev_trim: "evaluates fs inits B t (StrV s) \<Longrightarrow>
    evaluates fs inits B (Raw loc (RCall (Raw cl (RMember t ''trim'' False)) [])) (StrV (js_trim s))"
| ev_to_string: "evaluates fs inits B t (StrV s) \<Longrightarrow>
    evaluates fs inits B (Raw loc (RCall (Raw cl (RMember t ''toString'' False)) [])) (StrV s)"
| ev_map: "evaluates fs inits B t (ArrV items) \<Longrightarrow> length out = length items \<Longrightarrow>
    \<forall>i<length items. evaluates fs inits (B @ zip params [items ! i, NumV (f_of_nat fs i), ArrV items]) body (out ! i) \<Longrightarrow>
    evaluates fs inits B (Raw loc (RCall (Raw cl (RMember t ''map'' False)) [Raw ll (RArrow params (BodyExpr body) cs)])) (ArrV out)"
| ev_from: "is_array_global t \<Longrightarrow> evaluates fs inits B len (NumV n) \<Longrightarrow> from_length fs n k \<Longrightarrow>
    evaluates fs inits B (Raw loc (RCall (Raw cl (RMember t ''from'' False)) [Raw ol (RObject [(''length'', len)])]))
      (ArrV (replicate k UndefV))"
| ev_from_map: "is_array_global t \<Longrightarrow> evaluates fs inits B len (NumV n) \<Longrightarrow> from_length fs n k \<Longrightarrow> length out = k \<Longrightarrow>
    \<forall>i<k. evaluates fs inits (B @ zip params [UndefV, NumV (f_of_nat fs i), ArrV (replicate k UndefV)]) body (out ! i) \<Longrightarrow>
    evaluates fs inits B
      (Raw loc (RCall (Raw cl (RMember t ''from'' False)) [Raw ol (RObject [(''length'', len)]), Raw ll (RArrow params (BodyExpr body) cs)]))
      (ArrV out)"

section \<open>The operators of the folder are those of JavaScript\<close>

lemma units_less_es: "units_less xs ys \<longleftrightarrow> es_text_less xs ys"
proof (induction xs ys rule: units_less.induct)
  case (4 x xs y ys)
  have "es_text_less (x # xs) (y # ys) \<longleftrightarrow> x < y \<or> x = y \<and> es_text_less xs ys"
  proof
    assume "es_text_less (x # xs) (y # ys)"
    then obtain k where k: "take k (x # xs) = take k (y # ys)" "k \<le> Suc (length xs)" "k < Suc (length ys)"
        "k = Suc (length xs) \<or> (x # xs) ! k < (y # ys) ! k" by (auto simp: es_text_less_def)
    then show "x < y \<or> x = y \<and> es_text_less xs ys" by (cases k) (auto simp: es_text_less_def)
  next
    assume "x < y \<or> x = y \<and> es_text_less xs ys"
    then show "es_text_less (x # xs) (y # ys)"
    proof
      assume "x < y"
      then show ?thesis unfolding es_text_less_def by (intro exI [of _ 0]) auto
    next
      assume a: "x = y \<and> es_text_less xs ys"
      then obtain k where "take k xs = take k ys" "k \<le> length xs" "k < length ys" "k = length xs \<or> xs ! k < ys ! k"
        by (auto simp: es_text_less_def)
      then show ?thesis using a unfolding es_text_less_def by (intro exI [of _ "Suc k"]) auto
    qed
  qed
  then show ?case using 4 by simp
qed (auto simp: es_text_less_def)

lemma units_less_linear: "\<not> units_less xs ys \<and> xs \<noteq> ys \<longleftrightarrow> units_less ys xs"
  by (induction xs ys rule: units_less.induct) auto

lemma equality_es:
  assumes "equality fs loose a b = Inr r"
  shows "\<not> is_heap a \<and> \<not> is_heap b \<and> (if loose then es_loose_equal fs a b = Some r else es_strict_equal fs a b = r)"
  using assms
  by (cases a; cases b) (auto simp: equality_def es_loose_equal_def same_type_def kind_text_def split: if_splits)

lemma text_relation_es:
  "text_relation OpLt s t = es_text_less (utf16 s) (utf16 t)"
  "text_relation OpLe s t = (\<not> es_text_less (utf16 t) (utf16 s))"
  "text_relation OpGt s t = es_text_less (utf16 t) (utf16 s)"
  "text_relation OpGe s t = (\<not> es_text_less (utf16 s) (utf16 t))"
  using units_less_linear [of "utf16 s" "utf16 t"] unfolding text_relation_def Let_def units_less_es [symmetric] by auto

lemma relation_es:
  assumes "relation_op p"
  shows "es_binary fs p (NumV x) (NumV y) = Some (BoolV (relation fs p x y))"
    and "es_binary fs p (StrV s) (StrV t) = Some (BoolV (text_relation p s t))"
  using assms by (auto simp: relation_op_def relation_def text_relation_es)

lemma equality_op_es:
  assumes "equality_op p"
  shows "binary_value fs p a b = Inr v \<Longrightarrow> es_binary fs p a b = Some v"
  using assms equality_es [of fs "p = OpEq \<or> p = OpNe" a b]
  by (cases "equality fs (p = OpEq \<or> p = OpNe) a b") (auto simp: binary_value_def equality_op_def)

lemma arithmetic_es:
  assumes "arithmetic fs p = Some f" "\<not> equality_op p" "\<not> relation_op p" "binary_value fs p a b = Inr v"
  shows "if p = OpAdd then es_add fs a b = Some v else es_numbers f a b = Some v"
  using assms(4) unfolding binary_value_def if_not_P [OF assms(2)]
  using assms(1)
  by (cases a; cases b) (auto simp: assms(3) add_texts_def es_add_def arithmetic_def [of fs OpAdd] split: if_splits option.splits)

lemma binary_value_es:
  assumes "strict_op p" "binary_value fs p a b = Inr v"
  shows "es_binary fs p a b = Some v"
proof (cases "equality_op p")
  case False
  show ?thesis
  proof (cases "relation_op p")
    case True
    then show ?thesis using assms(2) False relation_es [OF True, where fs = fs]
      by (cases a; cases b) (auto simp: binary_value_def relation_op_def split: if_splits)
  next
    case rel: False
    then obtain f where f: "arithmetic fs p = Some f"
      using False assms(1) by (cases p) (auto simp: relation_op_def equality_op_def strict_op_def arithmetic_def)
    from arithmetic_es [OF f False rel assms(2)] show ?thesis
      using f rel False assms(1) by (cases p) (auto simp: arithmetic_def)
  qed
qed (rule equality_op_es [OF _ assms(2)])

lemma member_es: "member fs t name optional = Inr v \<Longrightarrow> es_get fs t name = Some v \<or> optional \<and> is_nullish t \<and> v = UndefV"
  by (cases t) (auto simp: member_def split: if_splits option.splits)

lemma index_es: "index_value fs t i = Inr v \<Longrightarrow> es_index fs t i = Some v"
  by (cases t; cases i) (auto simp: index_value_def member_def Let_def split: if_splits option.splits)

lemma unary_es: "unary_value fs p a = Inr v \<Longrightarrow> es_unary fs p a = Some v"
  by (cases p; cases a) (auto simp: unary_value_def)

section \<open>Laws of a session\<close>

definition memo_ok ::
  "'f f64 \<Rightarrow> (string \<Rightarrow> ('f, 'j) raw_expr option) \<Rightarrow> 'f fold_env \<Rightarrow> bool" where
  "memo_ok fs inits env \<longleftrightarrow>
     (\<forall>name v. (name, Inr v) \<in> set (fe_memo env) \<longrightarrow> (\<exists>init. inits name = Some init \<and> evaluates fs inits [] init v))"

text \<open>
  \<open>keeps fs inits B m Q\<close>: run under the bindings \<open>B\<close>, the step \<open>m\<close> restores bindings and stack, keeps the memo right,
  stays within the budget except for the one step that reports it spent, and its value, if any, satisfies \<open>Q\<close>.
\<close>

definition keeps ::
  "'f f64 \<Rightarrow> (string \<Rightarrow> ('f, 'j) raw_expr option) \<Rightarrow> (string \<times> 'f val) list \<Rightarrow> ('f, 'a) step \<Rightarrow> ('a \<Rightarrow> bool) \<Rightarrow> bool" where
  "keeps fs inits B m Q \<longleftrightarrow>
     (\<forall>env r env'. memo_ok fs inits env \<and> fe_binds env = B \<and> fe_steps env \<le> MAX_STEPS \<and> m env = (r, env') \<longrightarrow>
        memo_ok fs inits env' \<and> fe_binds env' = B \<and> fe_stack env' = fe_stack env \<and>
        fe_steps env \<le> fe_steps env' \<and> fe_steps env' \<le> MAX_STEPS + 1 \<and>
        (\<forall>v. r = Inr v \<longrightarrow> Q v \<and> fe_steps env' \<le> MAX_STEPS))"

lemma keepsI:
  assumes "\<And>env r env'. memo_ok fs inits env \<Longrightarrow> fe_binds env = B \<Longrightarrow> fe_steps env \<le> MAX_STEPS \<Longrightarrow> m env = (r, env') \<Longrightarrow>
    memo_ok fs inits env' \<and> fe_binds env' = B \<and> fe_stack env' = fe_stack env \<and>
    fe_steps env \<le> fe_steps env' \<and> fe_steps env' \<le> MAX_STEPS + 1 \<and> (\<forall>v. r = Inr v \<longrightarrow> Q v \<and> fe_steps env' \<le> MAX_STEPS)"
  shows "keeps fs inits B m Q"
  using assms by (auto simp: keeps_def)

lemma keepsD:
  assumes "keeps fs inits B m Q" "memo_ok fs inits env" "fe_binds env = B" "fe_steps env \<le> MAX_STEPS" "m env = (r, env')"
  shows "memo_ok fs inits env'" "fe_binds env' = B" "fe_stack env' = fe_stack env" "fe_steps env \<le> fe_steps env'"
    "fe_steps env' \<le> MAX_STEPS + 1" "r = Inr v \<Longrightarrow> Q v" "r = Inr v \<Longrightarrow> fe_steps env' \<le> MAX_STEPS"
  using assms unfolding keeps_def by blast+

lemma keeps_ret: "Q v \<Longrightarrow> keeps fs inits B (ret v) Q"
  by (auto simp: keeps_def ret_def)

lemma keeps_fail: "keeps fs inits B (fail e) Q"
  by (auto simp: keeps_def fail_def)

lemma keeps_of_result: "(\<And>v. r = Inr v \<Longrightarrow> Q v) \<Longrightarrow> keeps fs inits B (of_result r) Q"
  by (auto simp: keeps_def of_result_def)

lemma keeps_seq:
  assumes "keeps fs inits B m Q" "\<And>v. Q v \<Longrightarrow> keeps fs inits B (k v) R"
  shows "keeps fs inits B (seq m k) R"
proof (rule keepsI)
  fix env r env'
  assume env: "memo_ok fs inits env" "fe_binds env = B" "fe_steps env \<le> MAX_STEPS" "seq m k env = (r, env')"
  obtain r1 env1 where m: "m env = (r1, env1)" by force
  note one = keepsD [OF assms(1) env(1-3) m]
  show "memo_ok fs inits env' \<and> fe_binds env' = B \<and> fe_stack env' = fe_stack env \<and>
    fe_steps env \<le> fe_steps env' \<and> fe_steps env' \<le> MAX_STEPS + 1 \<and> (\<forall>v. r = Inr v \<longrightarrow> R v \<and> fe_steps env' \<le> MAX_STEPS)"
  proof (cases r1)
    case (Inl e)
    then have "r = Inl e" "env' = env1" using env(4) m by (auto simp: seq_def)
    then show ?thesis using one by simp
  next
    case (Inr v)
    then have "k v env1 = (r, env')" using env(4) m by (simp add: seq_def)
    from keepsD [OF assms(2) [OF one(6) [OF Inr]] one(1,2) one(7) [OF Inr] this] show ?thesis
      using one(3,4) by auto
  qed
qed

lemma keeps_weaken: "keeps fs inits B m Q \<Longrightarrow> (\<And>v. Q v \<Longrightarrow> R v) \<Longrightarrow> keeps fs inits B m R"
  unfolding keeps_def by blast

lemma keeps_cong: "(\<And>env. fe_binds env = B \<Longrightarrow> m env = m' env) \<Longrightarrow> keeps fs inits B m' Q \<Longrightarrow> keeps fs inits B m Q"
  unfolding keeps_def by metis

lemma keeps_if: "(c \<Longrightarrow> keeps fs inits B m Q) \<Longrightarrow> (\<not> c \<Longrightarrow> keeps fs inits B m' Q) \<Longrightarrow> keeps fs inits B (if c then m else m') Q"
  by simp

lemmas keeps_intros = keeps_ret keeps_fail keeps_of_result keeps_seq

text \<open>A folder that does so for every expression.\<close>

definition sound_folder :: "'f f64 \<Rightarrow> (string \<Rightarrow> ('f, 'j) raw_expr option) \<Rightarrow> ('f, 'j) folder \<Rightarrow> bool" where
  "sound_folder fs inits f \<longleftrightarrow> (\<forall>B e. keeps fs inits B (f e) (evaluates fs inits B e))"

lemma sound_folderD: "sound_folder fs inits f \<Longrightarrow> keeps fs inits B (f e) (evaluates fs inits B e)"
  by (simp add: sound_folder_def)

lemma fold_all_keeps:
  assumes "sound_folder fs inits f"
  shows "keeps fs inits B (fold_all f es) (list_all2 (evaluates fs inits B) es)"
proof (induction es)
  case (Cons e es)
  then show ?case using sound_folderD [OF assms, of B e] by (auto intro!: keeps_intros)
qed (auto intro: keeps_ret)

lemma fold_fields_keeps:
  assumes "sound_folder fs inits f"
  shows "keeps fs inits B (fold_fields f ps out)
    (\<lambda>v. \<exists>vs. list_all2 (\<lambda>p v. evaluates fs inits B (snd p) v) ps vs \<and>
       v = ObjV (foldl (\<lambda>obj (k, v). set_field obj k v) out (zip (map fst ps) vs)))"
proof (induction ps arbitrary: out)
  case (Cons p ps)
  obtain k e where p: "p = (k, e)" by force
  show ?case unfolding p fold_fields.simps
  proof (rule keeps_seq [OF sound_folderD [OF assms]])
    fix v assume v: "evaluates fs inits B e v"
    show "keeps fs inits B (fold_fields f ps (set_field out k v))
      (\<lambda>w. \<exists>vs. list_all2 (\<lambda>p v. evaluates fs inits B (snd p) v) ((k, e) # ps) vs \<and>
         w = ObjV (foldl (\<lambda>obj (k, v). set_field obj k v) out (zip (map fst ((k, e) # ps)) vs)))"
    proof (rule keeps_weaken [OF Cons])
      fix w
      assume "\<exists>vs. list_all2 (\<lambda>p v. evaluates fs inits B (snd p) v) ps vs \<and>
        w = ObjV (foldl (\<lambda>obj (k, v). set_field obj k v) (set_field out k v) (zip (map fst ps) vs))"
      then obtain vs where "list_all2 (\<lambda>p v. evaluates fs inits B (snd p) v) ps vs"
        "w = ObjV (foldl (\<lambda>obj (k, v). set_field obj k v) (set_field out k v) (zip (map fst ps) vs))" by blast
      then show "\<exists>vs. list_all2 (\<lambda>p v. evaluates fs inits B (snd p) v) ((k, e) # ps) vs \<and>
         w = ObjV (foldl (\<lambda>obj (k, v). set_field obj k v) out (zip (map fst ((k, e) # ps)) vs))"
        using v by (intro exI [of _ "v # vs"]) simp
    qed
  qed
qed (auto intro: keeps_ret)

lemma fold_parts_keeps:
  assumes "sound_folder fs inits f"
  shows "keeps fs inits B (fold_parts fs f ps s)
    (\<lambda>v. \<exists>ts. list_all2 (\<lambda>p t. \<exists>v. evaluates fs inits B (fst p) v \<and> to_js_string fs v = Some t) ps ts \<and>
       v = StrV (s @ concat (map2 (\<lambda>p t. t @ snd p) ps ts)))"
proof (induction ps arbitrary: s)
  case (Cons p ps)
  obtain e tail where p: "p = (e, tail)" by force
  show ?case unfolding p fold_parts.simps
  proof (rule keeps_seq [OF sound_folderD [OF assms]])
    fix v assume v: "evaluates fs inits B e v"
    show "keeps fs inits B (case to_js_string fs v of Some t \<Rightarrow> fold_parts fs f ps (s @ t @ tail) | None \<Rightarrow> fail (InTemplate (kind_text v)))
      (\<lambda>w. \<exists>ts. list_all2 (\<lambda>p t. \<exists>v. evaluates fs inits B (fst p) v \<and> to_js_string fs v = Some t) ((e, tail) # ps) ts \<and>
         w = StrV (s @ concat (map2 (\<lambda>p t. t @ snd p) ((e, tail) # ps) ts)))"
    proof (cases "to_js_string fs v")
      case None
      then show ?thesis by (simp add: keeps_fail)
    next
      case (Some t)
      show ?thesis unfolding Some option.case
      proof (rule keeps_weaken [OF Cons])
        fix w
        assume "\<exists>ts. list_all2 (\<lambda>p t. \<exists>v. evaluates fs inits B (fst p) v \<and> to_js_string fs v = Some t) ps ts \<and>
          w = StrV ((s @ t @ tail) @ concat (map2 (\<lambda>p t. t @ snd p) ps ts))"
        then obtain ts where "list_all2 (\<lambda>p t. \<exists>v. evaluates fs inits B (fst p) v \<and> to_js_string fs v = Some t) ps ts"
          "w = StrV ((s @ t @ tail) @ concat (map2 (\<lambda>p t. t @ snd p) ps ts))" by blast
        then show "\<exists>ts. list_all2 (\<lambda>p t. \<exists>v. evaluates fs inits B (fst p) v \<and> to_js_string fs v = Some t) ((e, tail) # ps) ts \<and>
          w = StrV (s @ concat (map2 (\<lambda>p t. t @ snd p) ((e, tail) # ps) ts))"
          using v Some by (intro exI [of _ "t # ts"]) auto
      qed
    qed
  qed
qed (auto intro: keeps_ret)

lemma module_const_keeps:
  assumes "sound_folder fs inits f"
  shows "keeps fs inits B (module_const f inits name) (\<lambda>v. \<exists>init. inits name = Some init \<and> evaluates fs inits [] init v)"
proof (rule keepsI)
  fix env r env'
  assume env: "memo_ok fs inits env" "fe_binds env = B" "fe_steps env \<le> MAX_STEPS" "module_const f inits name env = (r, env')"
  let ?goal = "memo_ok fs inits env' \<and> fe_binds env' = B \<and> fe_stack env' = fe_stack env \<and>
    fe_steps env \<le> fe_steps env' \<and> fe_steps env' \<le> MAX_STEPS + 1 \<and>
    (\<forall>v. r = Inr v \<longrightarrow> (\<exists>init. inits name = Some init \<and> evaluates fs inits [] init v) \<and> fe_steps env' \<le> MAX_STEPS)"
  show ?goal
  proof (cases "map_of (fe_memo env) name")
    case (Some m)
    then have "r = m" "env' = env" using env(4) by (auto simp: module_const_def)
    then show ?thesis using env(1-3) map_of_SomeD [OF Some] unfolding memo_ok_def by auto
  next
    case None
    show ?thesis
    proof (cases "name \<in> set (fe_stack env) \<or> inits name = None")
      case True
      then have "env' = env" "\<exists>e. r = Inl e" using env(4) None by (auto simp: module_const_def split: if_splits)
      then show ?thesis using env(1-3) by auto
    next
      case False
      then obtain init where init: "inits name = Some init" by auto
      obtain r1 env1 where one: "f init (env\<lparr>fe_binds := [], fe_stack := fe_stack env @ [name]\<rparr>) = (r1, env1)" by force
      have r: "r = map_sum (InConst name) id r1"
        and env': "env' = env1\<lparr>fe_stack := butlast (fe_stack env1), fe_binds := fe_binds env, fe_memo := (name, r) # fe_memo env1\<rparr>"
        using env(4) None False init one by (auto simp: module_const_def Let_def)
      have "memo_ok fs inits (env\<lparr>fe_binds := [], fe_stack := fe_stack env @ [name]\<rparr>)" using env(1) by (simp add: memo_ok_def)
      note law = keepsD [OF sound_folderD [OF assms, of "[]" init] this _ _ one]
      have "evaluates fs inits [] init v" if "r = Inr v" for v
        using law(6) env(3) that r by (cases r1) auto
      moreover have "memo_ok fs inits env1" using law(1) env(3) by simp
      ultimately have "memo_ok fs inits env'" using init unfolding env' by (auto simp: memo_ok_def)
      moreover have "\<exists>w. r1 = Inr w" if "r = Inr v" for v using that r by (cases r1) auto
      ultimately show ?thesis using law(3,4,5,7) env(2,3) init \<open>\<And>v. r = Inr v \<Longrightarrow> evaluates fs inits [] init v\<close>
        unfolding env' by auto
    qed
  qed
qed

lemma fold_ident_keeps:
  assumes "sound_folder fs inits f"
  shows "keeps fs inits B (fold_ident fs f inits name kind) (evaluates fs inits B (Raw loc (RIdent name kind)))"
proof (cases "map_of (rev B) name")
  case (Some v)
  show ?thesis
  proof (rule keeps_cong)
    show "fold_ident fs f inits name kind env = of_result (Inr v) env" if "fe_binds env = B" for env :: "'a fold_env"
      using that Some by (simp add: fold_ident_def of_result_def)
  qed (auto intro!: keeps_of_result ev_bound Some)
next
  case None
  show ?thesis
  proof (cases "kind = KLocal")
    case True
    have "keeps fs inits B (module_const f inits name) (evaluates fs inits B (Raw loc (RIdent name kind)))"
      by (rule keeps_weaken [OF module_const_keeps [OF assms]]) (use True None ev_const in blast)
    then show ?thesis by (rule keeps_cong [rotated]) (simp add: fold_ident_def None True)
  next
    case False
    let ?r = "if kind = KGlobal \<and> name = ''undefined'' then Inr UndefV else if kind = KGlobal \<and> name = ''NaN'' then Inr (NumV (f_nan fs))
      else if kind = KGlobal \<and> name = ''Infinity'' then Inr (NumV (f_inf fs)) else fst (fold_ident fs f inits name kind
        \<lparr>fe_binds = B, fe_memo = [], fe_stack = [], fe_steps = 0\<rparr>)"
    show ?thesis
    proof (rule keeps_cong)
      show "fold_ident fs f inits name kind env = of_result ?r env" if "fe_binds env = B" for env :: "'a fold_env"
        using that None False by (cases kind) (auto simp: fold_ident_def of_result_def)
      show "keeps fs inits B (of_result ?r) (evaluates fs inits B (Raw loc (RIdent name kind)))"
        using None ev_undefined [of B] ev_nan [of B] ev_infinity [of B] False
        by (intro keeps_of_result; cases kind) (auto simp: fold_ident_def split: if_splits)
    qed
  qed
qed

lemma short_keeps:
  assumes "sound_folder fs inits f"
    and "\<And>a v. evaluates fs inits B l a \<Longrightarrow> c a \<Longrightarrow> evaluates fs inits B r v \<Longrightarrow> Q v"
    and "\<And>a. evaluates fs inits B l a \<Longrightarrow> \<not> c a \<Longrightarrow> Q a"
  shows "keeps fs inits B (seq (f l) (\<lambda>a. if c a then f r else ret a)) Q"
proof (rule keeps_seq [OF sound_folderD [OF assms(1)]], rule keeps_if)
  fix a assume a: "evaluates fs inits B l a"
  show "keeps fs inits B (f r) Q" if "c a" by (rule keeps_weaken [OF sound_folderD [OF assms(1)]]) (rule assms(2) [OF a that])
  show "keeps fs inits B (ret a) Q" if "\<not> c a" by (rule keeps_ret) (rule assms(3) [OF a that])
qed

lemma fold_binary_keeps:
  assumes "sound_folder fs inits f"
  shows "keeps fs inits B (fold_binary fs f p l r) (evaluates fs inits B (Raw loc (RBinary p l r)))"
proof (cases "strict_op p")
  case True
  have "keeps fs inits B (seq (f l) (\<lambda>a. seq (f r) (\<lambda>b. of_result (binary_value fs p a b))))
      (evaluates fs inits B (Raw loc (RBinary p l r)))"
    by (intro keeps_seq [OF sound_folderD [OF assms(1)]] keeps_of_result)
      (blast intro: ev_binary True binary_value_es [OF True])
  moreover have "fold_binary fs f p l r = seq (f l) (\<lambda>a. seq (f r) (\<lambda>b. of_result (binary_value fs p a b)))"
    using True by (cases p) (auto simp: fold_binary_def strict_op_def)
  ultimately show ?thesis by simp
next
  case False
  then consider "p = OpAnd" | "p = OpOr" | "p = OpNullish" by (auto simp: strict_op_def)
  then show ?thesis
  proof cases
    case 1
    then show ?thesis using short_keeps [OF assms(1), of B l "truthy fs" r "evaluates fs inits B (Raw loc (RBinary p l r))"]
      by (auto simp: fold_binary_def intro: ev_and_left ev_and_right)
  next
    case 2
    have "fold_binary fs f p l r = seq (f l) (\<lambda>a. if \<not> truthy fs a then f r else ret a)"
      using 2 by (simp add: fold_binary_def if_distrib if_not_P cong: if_cong) (metis (no_types))
    then show ?thesis
      using 2 short_keeps [OF assms(1), of B l "\<lambda>a. \<not> truthy fs a" r "evaluates fs inits B (Raw loc (RBinary p l r))"]
      by (auto intro: ev_or_left ev_or_right)
  next
    case 3
    then show ?thesis using short_keeps [OF assms(1), of B l is_nullish r "evaluates fs inits B (Raw loc (RBinary p l r))"]
      by (auto simp: fold_binary_def intro: ev_nullish_left ev_nullish_right)
  qed
qed

lemma bind_all: "fold (\<lambda>(p, v). bind_name p v) bound env = env\<lparr>fe_binds := fe_binds env @ bound\<rparr>"
  by (induction bound arbitrary: env) (auto simp: bind_name_def)

lemma map_items_keeps:
  assumes "sound_folder fs inits f"
  shows "keeps fs inits B (map_items fs f params body whole i items)
    (\<lambda>out. length out = length items \<and> (\<forall>j<length items.
       evaluates fs inits (B @ zip params [items ! j, NumV (f_of_nat fs (i + j)), whole]) body (out ! j)))"
proof (induction items arbitrary: i)
  case (Cons it items)
  let ?bound = "zip params [it, NumV (f_of_nat fs i), whole]"
  let ?one = "\<lambda>env. let (r, env) = f body (fold (\<lambda>(p, v). bind_name p v) ?bound env) in (r, unbind (length ?bound) env)"
  have one: "keeps fs inits B ?one (evaluates fs inits (B @ ?bound) body)"
  proof (rule keepsI)
    fix env r env'
    assume env: "memo_ok fs inits env" "fe_binds env = B" "fe_steps env \<le> MAX_STEPS" "?one env = (r, env')"
    obtain env1 where m: "f body (env\<lparr>fe_binds := B @ ?bound\<rparr>) = (r, env1)" "env' = unbind (length ?bound) env1"
      using env(2,4) by (auto simp: bind_all Let_def split: prod.splits)
    have "memo_ok fs inits (env\<lparr>fe_binds := B @ ?bound\<rparr>)" using env(1) by (simp add: memo_ok_def)
    note law = keepsD [OF sound_folderD [OF assms, of "B @ ?bound" body] this _ _ m(1)]
    show "memo_ok fs inits env' \<and> fe_binds env' = B \<and> fe_stack env' = fe_stack env \<and>
      fe_steps env \<le> fe_steps env' \<and> fe_steps env' \<le> MAX_STEPS + 1 \<and>
      (\<forall>v. r = Inr v \<longrightarrow> evaluates fs inits (B @ ?bound) body v \<and> fe_steps env' \<le> MAX_STEPS)"
      using law env(3) unfolding m(2) unbind_def by (simp add: memo_ok_def)
  qed
  have split: "map_items fs f params body whole i (it # items) =
      seq ?one (\<lambda>v. seq (map_items fs f params body whole (i + 1) items) (\<lambda>vs. ret (v # vs)))"
    by (rule ext) (auto simp: seq_def of_result_def Let_def split: prod.splits sum.splits)
  show ?case unfolding split
  proof (rule keeps_seq [OF one], rule keeps_seq [OF Cons [of "i + 1"]], rule keeps_ret)
    fix v vs
    assume v: "evaluates fs inits (B @ ?bound) body v"
      and vs: "length vs = length items \<and> (\<forall>j<length items.
        evaluates fs inits (B @ zip params [items ! j, NumV (f_of_nat fs (i + 1 + j)), whole]) body (vs ! j))"
    have "evaluates fs inits (B @ zip params [(it # items) ! j, NumV (f_of_nat fs (i + j)), whole]) body ((v # vs) ! j)"
      if "j < length (it # items)" for j
      using that v vs by (cases j) auto
    then show "length (v # vs) = length (it # items) \<and> (\<forall>j<length (it # items).
        evaluates fs inits (B @ zip params [(it # items) ! j, NumV (f_of_nat fs (i + j)), whole]) body ((v # vs) ! j))"
      using vs by simp
  qed
qed (auto intro: keeps_ret)

definition maps_to ::
  "'f f64 \<Rightarrow> (string \<Rightarrow> ('f, 'j) raw_expr option) \<Rightarrow> (string \<times> 'f val) list \<Rightarrow> 'f val list \<Rightarrow> ('f, 'j) raw_expr \<Rightarrow> 'f val \<Rightarrow> bool" where
  "maps_to fs inits B items cb v \<longleftrightarrow>
     (\<exists>ll params body cs out. cb = Raw ll (RArrow params (BodyExpr body) cs) \<and> v = ArrV out \<and> length out = length items \<and>
        (\<forall>i<length items. evaluates fs inits (B @ zip params [items ! i, NumV (f_of_nat fs i), ArrV items]) body (out ! i)))"

lemma fold_map_keeps:
  assumes "sound_folder fs inits f"
  shows "keeps fs inits B (fold_map fs f items cb) (maps_to fs inits B items cb)"
proof -
  obtain ll k where cb: "cb = Raw ll k" by (cases cb)
  have "keeps fs inits B (seq (map_items fs f params body (ArrV items) 0 items) (\<lambda>vs. ret (ArrV vs))) (maps_to fs inits B items cb)"
    if "k = RArrow params (BodyExpr body) cs" for params body cs
  proof (rule keeps_seq [OF map_items_keeps [OF assms]], rule keeps_ret)
    fix out
    assume "length out = length items \<and> (\<forall>j<length items.
      evaluates fs inits (B @ zip params [items ! j, NumV (f_of_nat fs (0 + j)), ArrV items]) body (out ! j))"
    then show "maps_to fs inits B items cb (ArrV out)" unfolding maps_to_def cb that by auto
  qed
  then show ?thesis unfolding fold_map_def cb raw_expr.sel
    by (auto split: raw_kind.splits arrow_body.splits intro: keeps_fail)
qed

text \<open>\<open>Array.from\<close>, split by what it is called with.\<close>

definition made_from ::
  "'f f64 \<Rightarrow> (string \<Rightarrow> ('f, 'j) raw_expr option) \<Rightarrow> (string \<times> 'f val) list \<Rightarrow> ('f, 'j) raw_expr list \<Rightarrow> 'f val \<Rightarrow> bool" where
  "made_from fs inits B args v \<longleftrightarrow>
     (\<exists>ol len n k. evaluates fs inits B len (NumV n) \<and> from_length fs n k \<and>
        (args = [Raw ol (RObject [(''length'', len)])] \<and> v = ArrV (replicate k UndefV) \<or>
         (\<exists>cb. args = [Raw ol (RObject [(''length'', len)]), cb] \<and> maps_to fs inits B (replicate k UndefV) cb v)))"

definition from_spec ::
  "'f f64 \<Rightarrow> ('f, 'j) folder \<Rightarrow> ('f, 'j) raw_expr \<Rightarrow> ('f, 'j) raw_expr option \<Rightarrow> ('f, 'f val) step" where
  "from_spec fs f spec cb =
     (case raw_kind spec of
        RObject [(k, len)] \<Rightarrow>
          if k \<noteq> ''length'' then fail FromShape
          else seq (f len) (\<lambda>v. case v of
            NumV n \<Rightarrow>
              if is_nan fs n \<or> f_lt fs n (f_dec fs 0 0) \<or> \<not> f_whole fs n \<or> f_lt fs (f_dec fs MAX_FROM_LENGTH 0) n
              then fail FromRange
              else let holes = replicate (nat (f_trunc fs n)) UndefV
                   in (case cb of None \<Rightarrow> ret (ArrV holes) | Some cb \<Rightarrow> fold_map fs f holes cb)
          | _ \<Rightarrow> fail FromNotNumber)
      | _ \<Rightarrow> fail FromShape)"

lemma array_from_spec:
  "array_from fs f args =
     (case args of [s] \<Rightarrow> from_spec fs f s None | [s, cb] \<Rightarrow> from_spec fs f s (Some cb) | _ \<Rightarrow> fail FromArguments)"
  unfolding array_from_def from_spec_def Let_def by (rule refl)

lemma from_spec_keeps:
  assumes "sound_folder fs inits f"
  shows "keeps fs inits B (from_spec fs f spec cb)
    (made_from fs inits B (case cb of None \<Rightarrow> [spec] | Some cb \<Rightarrow> [spec, cb]))"
proof -
  obtain ol k where spec: "spec = Raw ol k" by (cases spec)
  show ?thesis
  proof (cases "\<exists>len. k = RObject [(''length'', len)]")
    case True
    then obtain len where k: "k = RObject [(''length'', len)]" by blast
    have "keeps fs inits B
        (if is_nan fs n \<or> f_lt fs n (f_dec fs 0 0) \<or> \<not> f_whole fs n \<or> f_lt fs (f_dec fs MAX_FROM_LENGTH 0) n
         then fail FromRange
         else case cb of None \<Rightarrow> ret (ArrV (replicate (nat (f_trunc fs n)) UndefV))
              | Some cb \<Rightarrow> fold_map fs f (replicate (nat (f_trunc fs n)) UndefV) cb)
        (made_from fs inits B (case cb of None \<Rightarrow> [spec] | Some cb \<Rightarrow> [spec, cb]))"
      if n: "evaluates fs inits B len (NumV n)" for n
    proof (rule keeps_if [OF keeps_fail])
      assume "\<not> (is_nan fs n \<or> f_lt fs n (f_dec fs 0 0) \<or> \<not> f_whole fs n \<or> f_lt fs (f_dec fs MAX_FROM_LENGTH 0) n)"
      then have len: "from_length fs n (nat (f_trunc fs n))" by (simp add: from_length_def)
      show "keeps fs inits B
         (case cb of None \<Rightarrow> ret (ArrV (replicate (nat (f_trunc fs n)) UndefV))
          | Some cb \<Rightarrow> fold_map fs f (replicate (nat (f_trunc fs n)) UndefV) cb)
         (made_from fs inits B (case cb of None \<Rightarrow> [spec] | Some cb \<Rightarrow> [spec, cb]))"
      proof (cases cb)
        case None
        then show ?thesis using n len by (auto simp: made_from_def spec k intro!: keeps_ret)
      next
        case (Some c)
        show ?thesis unfolding Some option.case
          by (rule keeps_weaken [OF fold_map_keeps [OF assms]]) (use n len in \<open>auto simp: made_from_def spec k\<close>)
      qed
    qed
    then have step: "keeps fs inits B (case v of
          NumV n \<Rightarrow>
            if is_nan fs n \<or> f_lt fs n (f_dec fs 0 0) \<or> \<not> f_whole fs n \<or> f_lt fs (f_dec fs MAX_FROM_LENGTH 0) n
            then fail FromRange
            else case cb of None \<Rightarrow> ret (ArrV (replicate (nat (f_trunc fs n)) UndefV))
                 | Some cb \<Rightarrow> fold_map fs f (replicate (nat (f_trunc fs n)) UndefV) cb
        | _ \<Rightarrow> fail FromNotNumber)
        (made_from fs inits B (case cb of None \<Rightarrow> [spec] | Some cb \<Rightarrow> [spec, cb]))"
      if "evaluates fs inits B len v" for v
      using that by (cases v) (simp_all add: keeps_fail)
    show ?thesis unfolding from_spec_def Let_def unfolding spec k raw_expr.sel raw_kind.case list.case prod.case
      by (rule keeps_if [OF keeps_fail], rule keeps_seq [OF sound_folderD [OF assms]],
        rule step [unfolded spec k])
  next
    case False
    then have "from_spec fs f spec cb = fail FromShape"
      unfolding from_spec_def spec by (auto split: raw_kind.splits list.splits)
    then show ?thesis by (simp add: keeps_fail)
  qed
qed

lemma array_from_keeps:
  assumes "sound_folder fs inits f"
  shows "keeps fs inits B (array_from fs f args) (made_from fs inits B args)"
proof -
  consider s where "args = [s]" | s cb where "args = [s, cb]"
    | "args = []" | s cb x xs where "args = s # cb # x # xs" by (cases args; cases "tl args"; cases "tl (tl args)") auto
  then show ?thesis
  proof cases
    case (1 s)
    then show ?thesis using from_spec_keeps [OF assms, of B s None] by (simp add: array_from_spec)
  next
    case (2 s cb)
    then show ?thesis using from_spec_keeps [OF assms, of B s "Some cb"] by (simp add: array_from_spec)
  qed (simp_all add: array_from_spec keeps_fail)
qed

lemma made_from_evaluates:
  assumes "made_from fs inits B args v" "is_array_global t"
  shows "evaluates fs inits B (Raw loc (RCall (Raw cl (RMember t ''from'' False)) args)) v"
  using assms unfolding made_from_def maps_to_def by (auto intro: ev_from ev_from_map)

lemma fold_call_keeps:
  assumes "sound_folder fs inits f"
  shows "keeps fs inits B (fold_call fs f callee args) (evaluates fs inits B (Raw loc (RCall callee args)))"
proof -
  obtain cl k where callee: "callee = Raw cl k" by (cases callee)
  show ?thesis
  proof (cases "\<exists>t name. k = RMember t name False")
    case False
    then have "fold_call fs f callee args = fail (CallTo (to_js fs callee))"
      unfolding fold_call_def callee by (auto split: raw_kind.splits bool.splits)
    then show ?thesis by (simp add: keeps_fail)
  next
    case True
    then obtain t name where k: "k = RMember t name False" by blast
    let ?Q = "evaluates fs inits B (Raw loc (RCall callee args))"
    let ?text = "\<lambda>v. case v of StrV s \<Rightarrow> ret (StrV (if name = ''trim'' then js_trim s else s)) | _ \<Rightarrow> fail (MethodOn name (kind_text v))"
    let ?list = "\<lambda>v. case v of ArrV items \<Rightarrow> (case args of [cb] \<Rightarrow> fold_map fs f items cb | _ \<Rightarrow> fail MapArguments)
      | _ \<Rightarrow> fail (MapOn (kind_text v))"
    have "keeps fs inits B (array_from fs f args) ?Q" if "is_array_global t" "name = ''from''"
      by (rule keeps_weaken [OF array_from_keeps [OF assms]]) (use made_from_evaluates that in \<open>auto simp: callee k\<close>)
    moreover have in_text: "keeps fs inits B (?text v) ?Q"
      if "evaluates fs inits B t v" "name = ''trim'' \<or> name = ''toString''" "args = []" for v
      using that by (cases v) (auto simp: callee k intro: keeps_fail intro!: keeps_ret ev_trim ev_to_string)
    have "keeps fs inits B (seq (f t) ?text) ?Q" if "name = ''trim'' \<or> name = ''toString''" "args = []"
      by (rule keeps_seq [OF sound_folderD [OF assms]], rule in_text [OF _ that])
    moreover have in_list: "keeps fs inits B (?list v) ?Q" if v: "evaluates fs inits B t v" "name = ''map''" for v
    proof (cases "\<exists>items cb. v = ArrV items \<and> args = [cb]")
      case True
      then obtain items cb where e: "v = ArrV items" "args = [cb]" by blast
      show ?thesis unfolding e val.case list.case
        by (rule keeps_weaken [OF fold_map_keeps [OF assms]])
          (use v e in \<open>auto simp: callee k maps_to_def intro: ev_map\<close>)
    next
      case False
      then show ?thesis by (cases v) (auto intro: keeps_fail split: list.splits)
    qed
    have "keeps fs inits B (seq (f t) ?list) ?Q" if "name = ''map''"
      by (rule keeps_seq [OF sound_folderD [OF assms]], rule in_list [OF _ that])
    ultimately show ?thesis unfolding fold_call_def callee k raw_expr.sel raw_kind.case bool.case
      by (intro keeps_if) (auto simp: callee k intro: keeps_fail)
  qed
qed

lemma fold_inner_keeps:
  assumes "sound_folder fs inits f"
  shows "keeps fs inits B (fold_inner fs inits f e) (evaluates fs inits B e)"
proof -
  note sub = sound_folderD [OF assms(1)]
  obtain loc k where e: "e = Raw loc k" by (cases e)
  show ?thesis
  proof (cases k)
    case (RMember t name optional)
    then show ?thesis unfolding e fold_inner_def raw_expr.sel RMember raw_kind.case
      by (intro keeps_seq [OF sub] keeps_of_result) (auto dest!: member_es intro: ev_member ev_optional)
  next
    case (RIndex t i)
    then show ?thesis unfolding e fold_inner_def raw_expr.sel RIndex raw_kind.case
      by (intro keeps_seq [OF sub] keeps_of_result) (auto dest!: index_es intro: ev_index)
  next
    case (RUnary p v)
    then show ?thesis unfolding e fold_inner_def raw_expr.sel RUnary raw_kind.case
      by (intro keeps_seq [OF sub] keeps_of_result) (auto dest!: unary_es intro: ev_unary)
  next
    case (RCond test yes no)
    show ?thesis unfolding e fold_inner_def raw_expr.sel RCond raw_kind.case
    proof (rule keeps_seq [OF sub], rule keeps_if)
      fix t assume t: "evaluates fs inits B test t"
      show "keeps fs inits B (f yes) (evaluates fs inits B (Raw loc (RCond test yes no)))" if "truthy fs t"
        by (rule keeps_weaken [OF sub]) (rule ev_cond_yes [OF t that])
      show "keeps fs inits B (f no) (evaluates fs inits B (Raw loc (RCond test yes no)))" if "\<not> truthy fs t"
        by (rule keeps_weaken [OF sub]) (rule ev_cond_no [OF t that])
    qed
  next
    case (RTemplate head parts)
    show ?thesis unfolding e fold_inner_def raw_expr.sel RTemplate raw_kind.case
      by (rule keeps_weaken [OF fold_parts_keeps [OF assms(1)]]) (auto intro: ev_template)
  next
    case (RArray items)
    show ?thesis unfolding e fold_inner_def raw_expr.sel RArray raw_kind.case
      by (rule keeps_seq [OF fold_all_keeps [OF assms(1)] keeps_ret]) (rule ev_array)
  next
    case (RObject entries)
    show ?thesis unfolding e fold_inner_def raw_expr.sel RObject raw_kind.case
      by (rule keeps_weaken [OF fold_fields_keeps [OF assms(1)]]) (auto intro: ev_object)
  next
    case (RLit l)
    show ?thesis unfolding e fold_inner_def raw_expr.sel RLit raw_kind.case by (rule keeps_ret) (rule ev_lit)
  qed (simp_all add: e fold_inner_def keeps_fail fold_ident_keeps [OF assms(1)] fold_binary_keeps [OF assms] fold_call_keeps [OF assms(1)])
qed

lemma fold_at_sound: "sound_folder fs inits (fold_at fs inits d)"
proof (induction d)
  case 0
  show ?case unfolding sound_folder_def keeps_def by (auto simp: step_taken_def memo_ok_def)
next
  case (Suc d)
  then have IH: "sound_folder fs inits (fold_at fs inits d)" .
  show ?case unfolding sound_folder_def
  proof (intro allI keepsI)
    fix B e env r env'
    assume env: "memo_ok fs inits env" "fe_binds env = B" "fe_steps env \<le> MAX_STEPS" "fold_at fs inits (Suc d) e env = (r, env')"
    have env1: "memo_ok fs inits (step_taken env)" "fe_binds (step_taken env) = B" "fe_stack (step_taken env) = fe_stack env"
        "fe_steps (step_taken env) = fe_steps env + 1"
      using env(1,2) by (auto simp: step_taken_def memo_ok_def)
    show "memo_ok fs inits env' \<and> fe_binds env' = B \<and> fe_stack env' = fe_stack env \<and>
      fe_steps env \<le> fe_steps env' \<and> fe_steps env' \<le> MAX_STEPS + 1 \<and>
      (\<forall>v. r = Inr v \<longrightarrow> evaluates fs inits B e v \<and> fe_steps env' \<le> MAX_STEPS)"
    proof (cases "MAX_STEPS < fe_steps (step_taken env)")
      case True
      then have "r = Inl TooLarge" "env' = step_taken env" using env(4) by auto
      then show ?thesis using env1 env(3) by simp
    next
      case False
      then have inner: "fold_inner fs inits (fold_at fs inits d) e (step_taken env) = (r, env')" using env(4) by simp
      have "fe_steps (step_taken env) \<le> MAX_STEPS" using False by simp
      from keepsD [OF fold_inner_keeps [OF IH, of B e] env1(1,2) this inner] env1(3,4) show ?thesis by auto
    qed
  qed
qed

section \<open>Evaluation is deterministic\<close>

inductive_cases ev_litE: "evaluates fs inits B (Raw loc (RLit l)) v"
inductive_cases ev_identE: "evaluates fs inits B (Raw loc (RIdent name kind)) v"
inductive_cases ev_memberE: "evaluates fs inits B (Raw loc (RMember t name optional)) v"
inductive_cases ev_indexE: "evaluates fs inits B (Raw loc (RIndex t i)) v"
inductive_cases ev_unaryE: "evaluates fs inits B (Raw loc (RUnary p e)) v"
inductive_cases ev_binaryE: "evaluates fs inits B (Raw loc (RBinary p l r)) v"
inductive_cases ev_condE: "evaluates fs inits B (Raw loc (RCond test yes no)) v"
inductive_cases ev_templateE: "evaluates fs inits B (Raw loc (RTemplate head parts)) v"
inductive_cases ev_arrayE: "evaluates fs inits B (Raw loc (RArray es)) v"
inductive_cases ev_objectE: "evaluates fs inits B (Raw loc (RObject ps)) v"
inductive_cases ev_callE: "evaluates fs inits B (Raw loc (RCall callee args)) v"

lemma list_all2_det:
  assumes "list_all2 (\<lambda>x y. P x y \<and> (\<forall>z. P x z \<longrightarrow> z = y)) xs ys" "list_all2 P xs zs"
  shows "zs = ys"
  using assms by (induction xs ys arbitrary: zs rule: list_all2_induct) (auto simp: list_all2_Cons1)

lemma es_get_nullish: "is_nullish v \<Longrightarrow> es_get fs v name = None"
  by (cases v) auto

lemma from_length_det: "from_length fs n k \<Longrightarrow> from_length fs n k' \<Longrightarrow> k' = k"
  by (simp add: from_length_def)

lemma strict_op_not: "\<not> strict_op OpAnd" "\<not> strict_op OpOr" "\<not> strict_op OpNullish"
  by (simp_all add: strict_op_def)

lemma evaluates_branches:
  "evaluates fs inits B (Raw loc (RBinary OpAnd l r)) v \<longleftrightarrow>
     (\<exists>a. evaluates fs inits B l a \<and> (if truthy fs a then evaluates fs inits B r v else v = a))"
  "evaluates fs inits B (Raw loc (RBinary OpOr l r)) v \<longleftrightarrow>
     (\<exists>a. evaluates fs inits B l a \<and> (if truthy fs a then v = a else evaluates fs inits B r v))"
  "evaluates fs inits B (Raw loc (RBinary OpNullish l r)) v \<longleftrightarrow>
     (\<exists>a. evaluates fs inits B l a \<and> (if is_nullish a then evaluates fs inits B r v else v = a))"
  "evaluates fs inits B (Raw loc (RCond test yes no)) v \<longleftrightarrow>
     (\<exists>a. evaluates fs inits B test a \<and> (if truthy fs a then evaluates fs inits B yes v else evaluates fs inits B no v))"
  by (auto elim!: ev_binaryE ev_condE simp: strict_op_not
      intro: ev_and_left ev_and_right ev_or_left ev_or_right ev_nullish_left ev_nullish_right ev_cond_yes ev_cond_no)

lemma evaluates_det: "evaluates fs inits B e v \<Longrightarrow> evaluates fs inits B e w \<Longrightarrow> w = v"
proof (induction arbitrary: w rule: evaluates.induct)
  case (ev_lit B loc l)
  then show ?case by (auto elim: ev_litE)
next
  case (ev_bound B name v loc kind)
  from ev_bound(2,1) show ?case by (auto elim: ev_identE)
next
  case (ev_const B name init v loc)
  from ev_const(5,1,2,4) show ?case by (auto elim!: ev_identE)
next
  case (ev_undefined B loc)
  from ev_undefined(2,1) show ?case by (auto elim: ev_identE)
next
  case (ev_nan B loc)
  from ev_nan(2,1) show ?case by (auto elim: ev_identE)
next
  case (ev_infinity B loc)
  from ev_infinity(2,1) show ?case by (auto elim: ev_identE)
next
  case (ev_member B t tv name v loc optional)
  from ev_member(4,2,3) show ?case by (auto elim!: ev_memberE simp: es_get_nullish)
next
  case (ev_optional B t tv loc name)
  from ev_optional(4,2,3) show ?case by (auto elim!: ev_memberE simp: es_get_nullish)
next
  case (ev_index B t tv i iv v loc)
  from ev_index(6) show ?case by (rule ev_indexE) (use ev_index(3,4,5) in \<open>metis option.inject\<close>)
next
  case (ev_unary B e a p v loc)
  from ev_unary(4) show ?case by (rule ev_unaryE) (use ev_unary(2,3) in \<open>metis option.inject\<close>)
next
  case (ev_binary p B l a r b v loc)
  from ev_binary(7,1,4,5,6) show ?case by (auto elim!: ev_binaryE simp: strict_op_not)
next
  case (ev_and_left B l a loc r)
  from ev_and_left(4) [unfolded evaluates_branches] ev_and_left(2,3) show ?case by metis
next
  case (ev_and_right B l a r v loc)
  from ev_and_right(6) [unfolded evaluates_branches] ev_and_right(2,4,5) show ?case by metis
next
  case (ev_or_left B l a loc r)
  from ev_or_left(4) [unfolded evaluates_branches] ev_or_left(2,3) show ?case by metis
next
  case (ev_or_right B l a r v loc)
  from ev_or_right(6) [unfolded evaluates_branches] ev_or_right(2,4,5) show ?case by metis
next
  case (ev_nullish_left B l a loc r)
  from ev_nullish_left(4) [unfolded evaluates_branches] ev_nullish_left(2,3) show ?case by metis
next
  case (ev_nullish_right B l a r v loc)
  from ev_nullish_right(6) [unfolded evaluates_branches] ev_nullish_right(2,4,5) show ?case by metis
next
  case (ev_cond_yes B test t yes v loc no)
  from ev_cond_yes(6) [unfolded evaluates_branches] ev_cond_yes(2,4,5) show ?case by metis
next
  case (ev_cond_no B test t no v loc yes)
  from ev_cond_no(6) [unfolded evaluates_branches] ev_cond_no(2,4,5) show ?case by metis
next
  case (ev_template B parts ts loc head)
  from ev_template(2) obtain us where us: "w = StrV (head @ concat (map2 (\<lambda>p t. t @ snd p) parts us))"
    "list_all2 (\<lambda>p t. \<exists>v. evaluates fs inits B (fst p) v \<and> to_js_string fs v = Some t) parts us"
    by (auto elim: ev_templateE)
  have "list_all2 (\<lambda>p t. (\<exists>v. evaluates fs inits B (fst p) v \<and> to_js_string fs v = Some t) \<and>
      (\<forall>u. (\<exists>v. evaluates fs inits B (fst p) v \<and> to_js_string fs v = Some u) \<longrightarrow> u = t)) parts ts"
    using ev_template(1) by (rule list_all2_mono) (metis option.inject)
  from list_all2_det [OF this us(2)] us(1) show ?case by simp
next
  case (ev_array B es vs loc)
  from ev_array(2) obtain us where us: "w = ArrV us" "list_all2 (\<lambda>e v. evaluates fs inits B e v) es us"
    by (auto elim: ev_arrayE)
  have "list_all2 (\<lambda>e v. evaluates fs inits B e v \<and> (\<forall>u. evaluates fs inits B e u \<longrightarrow> u = v)) es vs"
    using ev_array(1) by (rule list_all2_mono) blast
  from list_all2_det [OF this us(2)] us(1) show ?case by simp
next
  case (ev_object B ps vs loc)
  from ev_object(2) obtain us where us: "w = ObjV (foldl (\<lambda>obj (k, v). set_field obj k v) [] (zip (map fst ps) us))"
      "list_all2 (\<lambda>p v. evaluates fs inits B (snd p) v) ps us"
    by (auto elim: ev_objectE)
  have "list_all2 (\<lambda>p v. evaluates fs inits B (snd p) v \<and> (\<forall>u. evaluates fs inits B (snd p) u \<longrightarrow> u = v)) ps vs"
    using ev_object(1) by (rule list_all2_mono) blast
  from list_all2_det [OF this us(2)] us(1) show ?case by simp
next
  case (ev_trim B t s loc cl)
  from ev_trim(3,2) show ?case by (auto elim!: ev_callE)
next
  case (ev_to_string B t s loc cl)
  from ev_to_string(3,2) show ?case by (auto elim!: ev_callE)
next
  case (ev_map B t items out params body loc cl ll cs)
  from ev_map(5) show ?case
  proof (rule ev_callE, goal_cases)
    case (3 t' items' out' params' body' cl' ll' cs')
    then have "items' = items" using ev_map(3) by auto
    then have "\<forall>i<length items. out' ! i = out ! i" using 3 ev_map(4) by auto
    then have "out' = out" using 3 ev_map(2) \<open>items' = items\<close> by (intro nth_equalityI) auto
    then show ?case using 3 by simp
  qed auto
next
  case (ev_from t B len n k loc cl ol)
  from ev_from(5) show ?case
  proof (rule ev_callE, goal_cases)
    case (4 t' len' n' k' cl' ol')
    then show ?case using ev_from(4) from_length_det [OF ev_from(3)] by auto
  qed auto
next
  case (ev_from_map t B len n k out params body loc cl ol ll cs)
  from ev_from_map(7) show ?case
  proof (rule ev_callE, goal_cases)
    case (5 t' len' n' out' params' body' cl' ol' ll' cs')
    then have "length out' = k" using ev_from_map(5) from_length_det [OF ev_from_map(3)] by auto
    moreover from this have "\<forall>i<k. out' ! i = out ! i" using 5 ev_from_map(6) by auto
    ultimately have "out' = out" using ev_from_map(4) by (intro nth_equalityI) auto
    then show ?case using 5 by simp
  qed auto
qed

section \<open>Sessions\<close>

text \<open>The folds the compiler makes in one session, one after the other.\<close>

fun fold_run ::
  "'f f64 \<Rightarrow> (string \<Rightarrow> ('f, 'j) raw_expr option) \<Rightarrow> ('f, 'j) raw_expr list \<Rightarrow> 'f fold_env \<Rightarrow>
   (fold_error + 'f val) list \<times> 'f fold_env" where
  "fold_run fs inits [] env = ([], env)"
| "fold_run fs inits (e # es) env =
     (let (r, env) = fold_expr fs inits e env; (rs, env) = fold_run fs inits es env in (r # rs, env))"

definition session_ok :: "'f f64 \<Rightarrow> (string \<Rightarrow> ('f, 'j) raw_expr option) \<Rightarrow> 'f fold_env \<Rightarrow> bool" where
  "session_ok fs inits env \<longleftrightarrow> memo_ok fs inits env \<and> fe_binds env = [] \<and> fe_stack env = []"

lemma fold_expr_session:
  assumes "session_ok fs inits env" "fold_expr fs inits e env = (r, env')"
  shows "session_ok fs inits env'" "fe_steps env' \<le> max (fe_steps env) MAX_STEPS + 1"
    "r = Inr v \<Longrightarrow> evaluates fs inits [] e v"
proof -
  have "session_ok fs inits env' \<and> fe_steps env' \<le> max (fe_steps env) MAX_STEPS + 1 \<and> (\<forall>v. r = Inr v \<longrightarrow> evaluates fs inits [] e v)"
  proof (cases "fe_steps env \<le> MAX_STEPS")
    case True
    have "keeps fs inits [] (fold_expr fs inits e) (evaluates fs inits [] e)"
      using fold_at_sound unfolding fold_expr_def by (rule sound_folderD)
    from keepsD [OF this _ _ True assms(2)] assms(1) show ?thesis by (simp add: session_ok_def)
  next
    case False
    have "fold_at fs inits d e env = (Inl TooLarge, step_taken env)" for d
      using False by (cases d) (auto simp: step_taken_def)
    then have "r = Inl TooLarge" "env' = step_taken env" using assms(2) by (auto simp: fold_expr_def)
    then show ?thesis using assms(1) by (auto simp: session_ok_def memo_ok_def step_taken_def)
  qed
  then show "session_ok fs inits env'" "fe_steps env' \<le> max (fe_steps env) MAX_STEPS + 1" "r = Inr v \<Longrightarrow> evaluates fs inits [] e v"
    by auto
qed

definition evaluates_only ::
  "'f f64 \<Rightarrow> (string \<Rightarrow> ('f, 'j) raw_expr option) \<Rightarrow> ('f, 'j) raw_expr \<Rightarrow> fold_error + 'f val \<Rightarrow> bool" where
  "evaluates_only fs inits e r \<longleftrightarrow> (case r of Inl _ \<Rightarrow> True | Inr v \<Rightarrow> \<forall>w. evaluates fs inits [] e w = (w = v))"

lemma fold_run_laws:
  assumes "session_ok fs inits env"
  shows "session_ok fs inits (snd (fold_run fs inits es env)) \<and>
    fe_steps (snd (fold_run fs inits es env)) \<le> max (fe_steps env) MAX_STEPS + length es \<and>
    list_all2 (evaluates_only fs inits) es (fst (fold_run fs inits es env))"
  using assms
proof (induction es arbitrary: env)
  case (Cons e es)
  obtain r env1 where one: "fold_expr fs inits e env = (r, env1)" by force
  note law = fold_expr_session [OF Cons(2) one]
  have "evaluates_only fs inits e r"
    using law(3) evaluates_det by (cases r) (auto simp: evaluates_only_def)
  then show ?case using Cons(1) [OF law(1)] law(2) one by (auto simp: Let_def split: prod.splits)
qed auto

lemma session_new: "session_ok fs inits fold_env_new"
  by (simp add: session_ok_def fold_env_new_def memo_ok_def)


text \<open>
  C8: Folding always ends, also when constants refer to themselves or the expression is huge: a session evaluates at most
  its budget of nodes and one more per fold asked for, at most \<open>MAX_DEPTH\<close> deep, and leaves no binding and no open
  constant behind.
\<close>

theorem fold_session_bounded:
  "fe_steps (snd (fold_run fs inits es fold_env_new)) \<le> MAX_STEPS + length es \<and>
   fe_binds (snd (fold_run fs inits es fold_env_new)) = [] \<and> fe_stack (snd (fold_run fs inits es fold_env_new)) = []"
  using fold_run_laws [OF session_new, of fs inits es] by (simp add: session_ok_def fold_env_new_def)

section \<open>Examples\<close>

text \<open>Integers as doubles, for evaluating the folder.\<close>

definition int_f64 :: "int f64" where
  "int_f64 = \<lparr>f_dec = (\<lambda>m e. if 0 \<le> e then m * 10 ^ nat e else 0), f_of_nat = int, f_nan = 0, f_inf = 10 ^ 30,
     f_add = (+), f_sub = (-), f_mul = (*), f_div = (div), f_rem = (mod), f_neg = uminus, f_abs = abs,
     f_eq = (=), f_lt = (<), f_le = (\<le>), f_whole = (\<lambda>_. True), f_trunc = id, f_display = int_text\<rparr>"

abbreviation lit :: "int \<Rightarrow> (int, unit) raw_expr" where
  "lit n \<equiv> Raw 0 (RLit (LNum n))"

abbreviation local_name :: "string \<Rightarrow> (int, unit) raw_expr" where
  "local_name n \<equiv> Raw 0 (RIdent n KLocal)"

text \<open>\<^verbatim>\<open>const sizes = [2, 3]; sizes.map((x, i) => x * 10 + i)\<close>; \<^verbatim>\<open>const a = b, b = a\<close>; a constant met too deep first.\<close>

lemma fold_at_pos:
  "0 < d \<Longrightarrow> fold_at fs inits d e env =
     (if MAX_STEPS < fe_steps env + 1 then (Err TooLarge, step_taken env)
      else fold_inner fs inits (fold_at fs inits (d - 1)) e (step_taken env))"
  by (cases d) (auto simp: step_taken_def)

lemma int_f64_ops [simp]: "f_add int_f64 = (+)" "f_mul int_f64 = (*)" "f_neg int_f64 = uminus" "f_of_nat int_f64 = int"
  by (simp_all add: int_f64_def)

lemmas run_defs = fold_expr_def MAX_DEPTH_def MAX_STEPS_def fold_at_pos step_taken_def fold_inner_def fold_ident_def
  module_const_def seq_def ret_def fail_def of_result_def fold_env_new_def fold_literal_def Let_def

lemma fold_demo_map:
  "fst (fold_expr int_f64 (map_of [(''sizes'', Raw 0 (RArray [lit 2, lit 3]))])
      (Raw 0 (RCall (Raw 0 (RMember (local_name ''sizes'') ''map'' False))
        [Raw 0 (RArrow [''x'', ''i''] (BodyExpr (Raw 0 (RBinary OpAdd
          (Raw 0 (RBinary OpMul (Raw 0 (RIdent ''x'' KUnknown)) (lit 10))) (Raw 0 (RIdent ''i'' KUnknown))))) [])]))
      fold_env_new) = Ok (ArrV [NumV 20, NumV 31])"
  by (simp add: run_defs fold_call_def is_array_global_def fold_map_def bind_name_def unbind_def fold_binary_def
      binary_value_def equality_op_def relation_op_def arithmetic_def)

lemma fold_demo_cycle:
  "fst (fold_expr int_f64 (map_of [(''a'', local_name ''b''), (''b'', local_name ''a'')]) (local_name ''a'') fold_env_new) =
     Err (InConst ''a'' (InConst ''b'' (SelfReference ''a'')))"
  by (simp add: run_defs)

text \<open>
  The memo keeps a failure for good, also one that only the depth of the first read caused: \<^verbatim>\<open>k\<close>, which folds in a session
  of its own, does not fold after a read of it 63 levels deep.
\<close>

fun negated :: "nat \<Rightarrow> (int, unit) raw_expr \<Rightarrow> (int, unit) raw_expr" where
  "negated 0 e = e"
| "negated (Suc n) e = Raw 0 (RUnary UnNeg (negated n e))"

lemma fold_negated:
  assumes "fe_steps env + n \<le> MAX_STEPS" "fold_at int_f64 inits d e (env\<lparr>fe_steps := fe_steps env + n\<rparr>) = (Inl x, env')"
  shows "fold_at int_f64 inits (n + d) (negated n e) env = (Inl x, env')"
  using assms
proof (induction n arbitrary: env)
  case (Suc n)
  have "fold_at int_f64 inits (n + d) (negated n e) (step_taken env) = (Inl x, env')"
    using Suc(2,3) by (intro Suc(1)) (simp_all add: step_taken_def)
  then show ?case using Suc(2) by (simp add: fold_inner_def seq_def step_taken_def)
qed simp

lemma fold_memo_keeps_failure:
  "fst (fold_run int_f64 (map_of [(''k'', lit 7)]) [local_name ''k''] fold_env_new) = [Ok (NumV 7)]"
  "fst (fold_run int_f64 (map_of [(''k'', lit 7)]) [negated 63 (local_name ''k''), local_name ''k''] fold_env_new) =
     [Err (InConst ''k'' TooDeep), Err (InConst ''k'' TooDeep)]"
proof -
  let ?inits = "map_of [(''k'', lit 7)]"
  show "fst (fold_run int_f64 ?inits [local_name ''k''] fold_env_new) = [Ok (NumV 7)]" by (simp add: run_defs)
  have deep: "fold_at int_f64 ?inits 1 (local_name ''k'') (fold_env_new\<lparr>fe_steps := 63\<rparr>) =
      (Inl (InConst ''k'' TooDeep),
       \<lparr>fe_binds = [], fe_memo = [(''k'', Inl (InConst ''k'' TooDeep))], fe_stack = [], fe_steps = 65\<rparr>)"
    by (simp add: run_defs)
  have "fold_at int_f64 ?inits (63 + 1) (negated 63 (local_name ''k'')) fold_env_new =
      (Inl (InConst ''k'' TooDeep),
       \<lparr>fe_binds = [], fe_memo = [(''k'', Inl (InConst ''k'' TooDeep))], fe_stack = [], fe_steps = 65\<rparr>)"
    by (rule fold_negated) (use deep in \<open>simp_all add: fold_env_new_def MAX_STEPS_def\<close>)
  then have "fold_expr int_f64 ?inits (negated 63 (local_name ''k'')) fold_env_new =
      (Inl (InConst ''k'' TooDeep),
       \<lparr>fe_binds = [], fe_memo = [(''k'', Inl (InConst ''k'' TooDeep))], fe_stack = [], fe_steps = 65\<rparr>)"
    by (simp add: fold_expr_def MAX_DEPTH_def)
  then show "fst (fold_run int_f64 ?inits [negated 63 (local_name ''k''), local_name ''k''] fold_env_new) =
     [Err (InConst ''k'' TooDeep), Err (InConst ''k'' TooDeep)]"
    by (simp del: negated.simps) (simp add: run_defs)
qed

end
