(* ===== verification/GeneratedNames.thy ===== *)
theory GeneratedNames
  imports Node
begin

text \<open>
  The names of generated code (\<^verbatim>\<open>crates/brust-compiler/src/lower/names.rs\<close>, \<^verbatim>\<open>job_names\<close> of \<^verbatim>\<open>lower/server.rs\<close>): the
  words a component's code spells, the allocator of fresh names and families of numbered names, and the names of a
  job. The set of taken names is a list without a promise on its order. The serialised intermediate form is a JSON
  value; \<open>wide\<close> says which characters outside ASCII are alphanumeric.
\<close>

section \<open>Taken names\<close>

definition SKIP :: "string list" where
  "SKIP = [''props_member'', ''js'', ''client_js'', ''source'', ''local'', ''props_whole'', ''props_rest'', ''Str'', ''Text'', ''diagnostics'']"

text \<open>The characters of a text, each as its bytes.\<close>

fun characters :: "string \<Rightarrow> string list" where
  "characters [] = []"
| "characters (c # s) =
     (if byte c < 192 then [c] # characters s
      else if byte c < 224 then (c # take 1 s) # characters (drop 1 s)
      else if byte c < 240 then (c # take 2 s) # characters (drop 2 s)
      else (c # take 3 s) # characters (drop 3 s))"

definition ident_char :: "(string \<Rightarrow> bool) \<Rightarrow> string \<Rightarrow> bool" where
  "ident_char wide c =
     (case c of
        [b] \<Rightarrow> is_ascii_alphanumeric b \<or> b = CHR ''_'' \<or> b = CHR ''$'' \<or> 128 \<le> byte b \<and> wide c
      | _ \<Rightarrow> wide c)"

text \<open>\<^verbatim>\<open>str::split\<close> at every character that is none of an identifier; the empty words are dropped.\<close>

fun words_from :: "(string \<Rightarrow> bool) \<Rightarrow> string \<Rightarrow> string list \<Rightarrow> string list" where
  "words_from wide w [] = (if w = [] then [] else [w])"
| "words_from wide w (c # cs) =
     (if ident_char wide c then words_from wide (w @ c) cs
      else (if w = [] then [] else [w]) @ words_from wide [] cs)"

definition tokens :: "(string \<Rightarrow> bool) \<Rightarrow> string \<Rightarrow> string list" where
  "tokens wide s = words_from wide [] (characters s)"

definition is_prop_capture :: "'n jval list \<Rightarrow> bool" where
  "is_prop_capture items = (case items of [VStr _, VStr k] \<Rightarrow> k = ''Prop'' | _ \<Rightarrow> False)"

definition is_prop_read :: "(string \<times> 'n jval) list \<Rightarrow> bool" where
  "is_prop_read entries = (case map_of entries ''kind'' of Some (VStr k) \<Rightarrow> k = ''Prop'' | _ \<Rightarrow> False)"

fun collect_names :: "(string \<Rightarrow> bool) \<Rightarrow> 'n jval \<Rightarrow> string list" where
  "collect_names wide (VStr s) = tokens wide s"
| "collect_names wide (VArr items) =
     (if is_prop_capture items then [] else concat (map (collect_names wide) items))"
| "collect_names wide (VObj entries) =
     (if is_prop_read entries then []
      else concat (map (\<lambda>(k, v). if k \<in> set SKIP then [] else collect_names wide v) entries))"
| "collect_names wide _ = []"

text \<open>
  \<^verbatim>\<open>taken\<close>: the serialised component, whose property declarations count by their defaults only, and the further values
  that are collected after it (the snapshot, the module's scope and declarations).
\<close>

definition taken_names :: "(string \<Rightarrow> bool) \<Rightarrow> 'n jval \<Rightarrow> 'n jval list \<Rightarrow> string list" where
  "taken_names wide ir further =
     (case ir of
        VObj entries \<Rightarrow>
          (case map_of entries ''props'' of
             Some (VArr ps) \<Rightarrow>
               concat (map (\<lambda>p. case p of
                   VObj es \<Rightarrow> (case map_of es ''default'' of Some d \<Rightarrow> collect_names wide d | None \<Rightarrow> [])
                 | _ \<Rightarrow> []) ps)
           | _ \<Rightarrow> []) @
          collect_names wide (VObj (filter (\<lambda>(k, _). k \<noteq> ''props'') entries))
      | _ \<Rightarrow> []) @
     concat (map (collect_names wide) further)"

section \<open>The allocator\<close>

definition numbered_name :: "string \<Rightarrow> nat \<Rightarrow> string" where
  "numbered_name base n = (if n = 0 then base else base @ decimal n)"

lemma numbered_name_inject: "numbered_name base n = numbered_name base m \<longleftrightarrow> n = m"
  by (auto simp: numbered_name_def)

lemma card_above:
  assumes "P n" "finite {k. P k}"
  shows "card {k. n + 1 \<le> k \<and> P k} < card {k. n \<le> k \<and> P (k :: nat)}"
proof (rule psubset_card_mono)
  show "finite {k. n \<le> k \<and> P k}" by (rule finite_subset [OF _ assms(2)]) auto
  have "n \<in> {k. n \<le> k \<and> P k}" "n \<notin> {k. n + 1 \<le> k \<and> P k}" using assms(1) by auto
  then have "{k. n + 1 \<le> k \<and> P k} \<noteq> {k. n \<le> k \<and> P k}" by metis
  moreover have "{k. n + 1 \<le> k \<and> P k} \<subseteq> {k. n \<le> k \<and> P k}" by auto
  ultimately show "{k. n + 1 \<le> k \<and> P k} \<subset> {k. n \<le> k \<and> P k}" by blast
qed

lemma finite_numbered: "finite {n. numbered_name base n \<in> set names}"
proof -
  have "inj_on (numbered_name base) {n. numbered_name base n \<in> set names}"
    by (auto simp: inj_on_def numbered_name_inject)
  moreover have "finite (numbered_name base ` {n. numbered_name base n \<in> set names})"
    by (rule finite_subset [of _ "set names"]) auto
  ultimately show ?thesis by (rule finite_imageD [rotated])
qed

function first_free :: "string list \<Rightarrow> string \<Rightarrow> nat \<Rightarrow> string" where
  "first_free names base n =
     (if numbered_name base n \<in> set names then first_free names base (n + 1) else numbered_name base n)"
  by pat_completeness auto
termination
proof (relation "measure (\<lambda>(names, base, n). card {k. n \<le> k \<and> numbered_name base k \<in> set names})", goal_cases)
  case (2 names base n)
  then show ?case using card_above [of "\<lambda>k. numbered_name base k \<in> set names" n] finite_numbered [of base names] by simp
qed simp

declare first_free.simps [simp del]

definition fresh :: "string \<Rightarrow> string list \<Rightarrow> string \<times> string list" where
  "fresh base names = (let name = first_free names base 0 in (name, name # names))"

definition reserve :: "string \<Rightarrow> string list \<Rightarrow> string list" where
  "reserve name names = name # names"

definition continues :: "string \<Rightarrow> string \<Rightarrow> bool" where
  "continues p t = (case strip_prefix p t of Some rest \<Rightarrow> list_all is_ascii_digit rest | None \<Rightarrow> False)"

definition family_clashes :: "string \<Rightarrow> string list \<Rightarrow> bool" where
  "family_clashes p names = list_ex (continues p) names"

lemma continues_iff: "continues p t \<longleftrightarrow> (\<exists>ds. t = p @ ds \<and> list_all is_ascii_digit ds)"
proof -
  have "strip_prefix p (p @ ds) = Some ds" for ds by (simp add: strip_prefix_Some)
  then show ?thesis by (cases "strip_prefix p t") (auto simp: continues_def dest: strip_prefix_Some [THEN iffD1])
qed

lemma decimal_length: "n < 10 ^ length (decimal n)"
proof (induction n rule: decimal.induct)
  case (1 n)
  show ?case
  proof (cases "n < 10")
    case False
    then have "n div 10 < 10 ^ length (decimal (n div 10))" using 1 by simp
    then show ?thesis using False by (subst decimal.simps) simp
  qed (subst decimal.simps, simp)
qed

lemma finite_clashes: "finite {n. family_clashes (numbered_name base n) names}"
proof (rule finite_subset)
  let ?m = "\<Sum>t \<leftarrow> names. length t"
  show "{n. family_clashes (numbered_name base n) names} \<subseteq> {..10 ^ ?m}"
  proof
    fix n assume "n \<in> {n. family_clashes (numbered_name base n) names}"
    then obtain t ds where t: "t \<in> set names" "t = numbered_name base n @ ds"
      by (auto simp: family_clashes_def list_ex_iff continues_iff)
    have "length (decimal n) \<le> length t \<or> n = 0" using t(2) by (auto simp: numbered_name_def)
    moreover have "length t \<le> ?m" using t(1) by (simp add: member_le_sum_list)
    ultimately have "n = 0 \<or> length (decimal n) \<le> ?m" by auto
    then show "n \<in> {..10 ^ ?m}"
    proof
      assume "length (decimal n) \<le> ?m"
      then have "(10 :: nat) ^ length (decimal n) \<le> 10 ^ ?m" by (intro power_increasing) auto
      then have "n < 10 ^ ?m" using decimal_length [of n] by (rule less_le_trans [rotated])
      then show ?thesis by (simp only: atMost_iff)
    qed simp
  qed
qed simp

function first_family :: "string list \<Rightarrow> string \<Rightarrow> nat \<Rightarrow> string" where
  "first_family names base n =
     (if family_clashes (numbered_name base n) names then first_family names base (n + 1) else numbered_name base n)"
  by pat_completeness auto
termination
proof (relation "measure (\<lambda>(names, base, n). card {k. n \<le> k \<and> family_clashes (numbered_name base k) names})", goal_cases)
  case (2 names base n)
  then show ?case using card_above [of "\<lambda>k. family_clashes (numbered_name base k) names" n] finite_clashes [of base names] by simp
qed simp

declare first_family.simps [simp del]

definition fresh_family :: "string \<Rightarrow> string list \<Rightarrow> string \<times> string list" where
  "fresh_family base names = (let name = first_family names base 0 in (name, name # names))"

section \<open>The names of a job\<close>

text \<open>
  \<open>bound\<close> are the names the job's code reads or declares; \<open>locals\<close> the local name of a destructured prop by its key, \<open>*\<close>
  for the whole props; \<open>props\<close> the keys the job reads, in order.
\<close>

record job_name_set =
  jn_param :: string
  jn_own :: string
  jn_f :: string
  jn_fj :: string
  jn_locals :: "(string \<times> string) list"

fun prop_locals :: "string list \<Rightarrow> (string \<times> string) list \<Rightarrow> string list \<Rightarrow> (string \<times> string) list \<times> string list" where
  "prop_locals [] locals names = (locals, names)"
| "prop_locals (p # ps) locals names =
     (if p = ''*'' \<or> map_of locals p \<noteq> None then prop_locals ps locals names
      else let (l, names) = fresh p names in prop_locals ps (locals @ [(p, l)]) names)"

definition job_names :: "string list \<Rightarrow> (string \<times> string) list \<Rightarrow> string list \<Rightarrow> job_name_set" where
  "job_names bound locals ps =
     (let whole = map_of locals ''*'';
          names = fold (\<lambda>(k, l) names. if k \<noteq> ''*'' \<and> Some l \<noteq> whole then reserve l names else names) locals bound;
          (param, names) = fresh ''props'' names;
          names = (case whole of Some w \<Rightarrow> reserve w names | None \<Rightarrow> names);
          (own, names) = fresh ''__own'' names;
          (fj, names) = fresh_family ''__fj'' names;
          (fv, names) = fresh_family ''__f'' names;
          (ls, names) = prop_locals ps locals names
      in \<lparr>jn_param = param, jn_own = own, jn_f = fv, jn_fj = fj, jn_locals = ls\<rparr>)"

section \<open>Properties\<close>

lemma first_free_spec:
  "\<exists>m \<ge> n. first_free names base n = numbered_name base m \<and> numbered_name base m \<notin> set names \<and>
     (\<forall>k. n \<le> k \<and> k < m \<longrightarrow> numbered_name base k \<in> set names)"
proof (induction names base n rule: first_free.induct)
  case (1 names base n)
  show ?case
  proof (cases "numbered_name base n \<in> set names")
    case True
    with 1 obtain m where "n + 1 \<le> m" "first_free names base (n + 1) = numbered_name base m" "numbered_name base m \<notin> set names"
      "\<forall>k. n + 1 \<le> k \<and> k < m \<longrightarrow> numbered_name base k \<in> set names" by blast
    moreover from this have "\<forall>k. n \<le> k \<and> k < m \<longrightarrow> numbered_name base k \<in> set names"
      using True by (metis Suc_eq_plus1 le_eq_less_or_eq less_eq_Suc_le)
    ultimately show ?thesis using True by (subst first_free.simps) (auto intro!: exI [of _ m])
  next
    case False
    then show ?thesis by (subst first_free.simps) auto
  qed
qed

lemma first_family_spec:
  "\<exists>m \<ge> n. first_family names base n = numbered_name base m \<and> \<not> family_clashes (numbered_name base m) names \<and>
     (\<forall>k. n \<le> k \<and> k < m \<longrightarrow> family_clashes (numbered_name base k) names)"
proof (induction names base n rule: first_family.induct)
  case (1 names base n)
  show ?case
  proof (cases "family_clashes (numbered_name base n) names")
    case True
    with 1 obtain m where "n + 1 \<le> m" "first_family names base (n + 1) = numbered_name base m"
      "\<not> family_clashes (numbered_name base m) names"
      "\<forall>k. n + 1 \<le> k \<and> k < m \<longrightarrow> family_clashes (numbered_name base k) names" by blast
    moreover from this have "\<forall>k. n \<le> k \<and> k < m \<longrightarrow> family_clashes (numbered_name base k) names"
      using True by (metis Suc_eq_plus1 le_eq_less_or_eq less_eq_Suc_le)
    ultimately show ?thesis using True by (subst first_family.simps) (auto intro!: exI [of _ m])
  next
    case False
    then show ?thesis by (subst first_family.simps) auto
  qed
qed

lemma fresh_spec:
  assumes "fresh base names = (name, names')"
  shows "name \<notin> set names" "set names' = {name} \<union> set names" "\<exists>m. name = numbered_name base m"
  using assms first_free_spec [of 0 names base] by (auto simp: fresh_def Let_def)

lemma fresh_family_spec:
  assumes "fresh_family base names = (name, names')"
  shows "t \<in> set names \<Longrightarrow> \<not> continues name t" "set names' = {name} \<union> set names" "\<exists>m. name = numbered_name base m"
  using assms first_family_spec [of 0 names base] by (auto simp: fresh_family_def Let_def family_clashes_def list_ex_iff)

lemma continues_decimal: "continues p (p @ decimal i)"
  by (auto simp: continues_iff decimal_digits)

lemma fresh_simple: "base \<notin> set names \<Longrightarrow> fresh base names = (base, base # names)"
  by (simp add: fresh_def first_free.simps numbered_name_def)

lemma prop_locals_spec:
  assumes "prop_locals ps locals names = (ls, names')"
  shows "\<exists>new. ls = locals @ new \<and> distinct (map snd new) \<and> set (map snd new) \<inter> set names = {} \<and>
    set names' = set names \<union> set (map snd new) \<and> (\<forall>e \<in> set new. fst e \<in> set ps \<and> (\<exists>m. snd e = numbered_name (fst e) m))"
  using assms
proof (induction ps locals names rule: prop_locals.induct)
  case (2 p ps locals names)
  show ?case
  proof (cases "p = ''*'' \<or> map_of locals p \<noteq> None")
    case True
    then obtain new where "ls = locals @ new \<and> distinct (map snd new) \<and> set (map snd new) \<inter> set names = {} \<and>
      set names' = set names \<union> set (map snd new) \<and> (\<forall>e \<in> set new. fst e \<in> set ps \<and> (\<exists>m. snd e = numbered_name (fst e) m))"
      using 2(1,3) by auto
    then show ?thesis by auto
  next
    case False
    obtain l names1 where l: "fresh p names = (l, names1)" by force
    obtain new where new: "ls = (locals @ [(p, l)]) @ new" "distinct (map snd new)" "set (map snd new) \<inter> set names1 = {}"
      "set names' = set names1 \<union> set (map snd new)" "\<forall>e \<in> set new. fst e \<in> set ps \<and> (\<exists>m. snd e = numbered_name (fst e) m)"
      using 2(2) [OF False l [symmetric] refl] 2(3) False l by auto
    show ?thesis
      using new fresh_spec [OF l] by (intro exI [of _ "(p, l) # new"]) auto
  qed
qed simp

definition family_members :: "string \<Rightarrow> string set" where
  "family_members p = {p @ decimal i |i. True}"

definition new_locals :: "(string \<times> string) list \<Rightarrow> job_name_set \<Rightarrow> string list" where
  "new_locals locals r = map snd (drop (length locals) (jn_locals r))"

lemma family_disjoint:
  assumes "\<And>t. t \<in> set names \<Longrightarrow> \<not> continues p t"
  shows "family_members p \<inter> set names = {}"
  using assms continues_decimal by (auto simp: family_members_def)

lemma not_family_name:
  assumes "\<not> starts_with p ''__f''" shows "''__f'' @ y \<noteq> numbered_name p n"
proof
  assume eq0: "''__f'' @ y = numbered_name p n"
  obtain ds where ds: "numbered_name p n = p @ ds" "list_all is_ascii_digit ds"
    using decimal_digits [of n] by (cases "n = 0") (auto simp: numbered_name_def)
  have eq: "''__f'' @ y = p @ ds" using eq0 ds(1) by simp
  show False
  proof (cases "length p < 3")
    case False
    then have "take 3 p = ''__f''" using arg_cong [OF eq, of "take 3"] by simp
    then have "p = ''__f'' @ drop 3 p" using append_take_drop_id [of 3 p] by metis
    then show False using assms starts_with_iff by metis
  next
    case True
    have "ds ! (2 - length p) = CHR ''f''" using arg_cong [OF eq, of "\<lambda>z. z ! 2"] True by (simp add: nth_append)
    moreover have "2 - length p < length ds" using arg_cong [OF eq, of length] True by simp
    ultimately have "CHR ''f'' \<in> set ds" by (metis nth_mem)
    then show False using ds(2) by (auto simp: list_all_iff is_ascii_digit_def)
  qed
qed

lemma family_form: "t \<in> family_members (numbered_name base m) \<Longrightarrow> \<exists>ds. t = base @ ds \<and> ds \<noteq> [] \<and> list_all is_ascii_digit ds"
  using decimal_digits by (auto simp: family_members_def numbered_name_def split: if_splits)

lemma family_f_fj: "family_members (numbered_name ''__f'' m) \<inter> family_members (numbered_name ''__fj'' k) = {}"
proof -
  have False if "t \<in> family_members (numbered_name ''__f'' m)" "t \<in> family_members (numbered_name ''__fj'' k)" for t
  proof -
    note mem = that
    obtain ds where ds: "t = ''__f'' @ ds" "list_all is_ascii_digit ds" using family_form [OF mem(1)] by metis
    obtain es where "t = ''__fj'' @ es" using family_form [OF mem(2)] by metis
    then have "ds = CHR ''j'' # es" using ds(1) by simp
    then show False using ds(2) by (simp add: is_ascii_digit_def)
  qed
  then show ?thesis by blast
qed

lemma family_free_of_locals:
  assumes "\<forall>e \<in> set new. fst e \<in> set ps \<and> (\<exists>m. snd e = numbered_name (fst e) m)" "list_all (\<lambda>p. \<not> starts_with p ''__f'') ps"
    "\<exists>y. base = ''__f'' @ y"
  shows "family_members (numbered_name base k) \<inter> set (map snd new) = {}"
proof -
  have False if "t \<in> family_members (numbered_name base k)" "e \<in> set new" "t = snd e" for t e
  proof -
    note mem = that
    obtain ds y where "t = ''__f'' @ y @ ds" using family_form [OF mem(1)] assms(3) by auto
    moreover obtain m where "snd e = numbered_name (fst e) m" "\<not> starts_with (fst e) ''__f''"
      using assms(1,2) mem(2) by (auto simp: list_all_iff)
    ultimately show False using not_family_name mem(3) by metis
  qed
  then show ?thesis by auto
qed

text \<open>A name handed out after a family was reserved can still be one of its numbered names, whatever the prefix of the key.\<close>

lemma fresh_family_simple: "\<not> family_clashes base names \<Longrightarrow> fresh_family base names = (base, base # names)"
  by (simp add: fresh_family_def first_family.simps numbered_name_def)

lemma job_names_clash:
  "new_locals [] (job_names [] [] [''__f0'']) = [''__f0''] \<and> ''__f0'' \<in> family_members (jn_f (job_names [] [] [''__f0'']))"
proof -
  have zero: "decimal 0 = ''0''" by (subst decimal.simps) code_simp
  have j: "job_names [] [] [''__f0''] =
    \<lparr>jn_param = ''props'', jn_own = ''__own'', jn_f = ''__f'', jn_fj = ''__fj'', jn_locals = [(''__f0'', ''__f0'')]\<rparr>"
    by (simp add: job_names_def Let_def fresh_simple fresh_family_simple family_clashes_def continues_def is_ascii_digit_def)
  have "''__f0'' = ''__f'' @ decimal 0" by (simp add: zero)
  then have "''__f0'' \<in> family_members ''__f''" unfolding family_members_def by blast
  then show ?thesis by (simp add: j new_locals_def)
qed

lemma job_names_steps:
  "\<exists>names param n1 n2 own n3 fj n4 fv n5 n6.
     set bound \<subseteq> set names \<and> fresh ''props'' names = (param, n1) \<and> set n1 \<subseteq> set n2 \<and> fresh ''__own'' n2 = (own, n3) \<and>
     fresh_family ''__fj'' n3 = (fj, n4) \<and> fresh_family ''__f'' n4 = (fv, n5) \<and>
     prop_locals ps locals n5 = (jn_locals (job_names bound locals ps), n6) \<and> jn_param (job_names bound locals ps) = param \<and>
     jn_own (job_names bound locals ps) = own \<and> jn_fj (job_names bound locals ps) = fj \<and> jn_f (job_names bound locals ps) = fv"
proof -
  let ?whole = "map_of locals ''*''"
  let ?names = "fold (\<lambda>(k, l) names. if k \<noteq> ''*'' \<and> Some l \<noteq> ?whole then reserve l names else names) locals bound"
  have names: "set bound \<subseteq> set (fold (\<lambda>(k, l) names. if k \<noteq> ''*'' \<and> Some l \<noteq> w then reserve l names else names) ls bound)" for w ls
    by (induction ls arbitrary: bound) (force simp: reserve_def)+
  obtain param n1 where s1: "fresh ''props'' ?names = (param, n1)" by force
  let ?n2 = "case ?whole of Some w \<Rightarrow> reserve w n1 | None \<Rightarrow> n1"
  have n2: "set n1 \<subseteq> set ?n2" by (auto simp: reserve_def split: option.split)
  obtain own n3 where s2: "fresh ''__own'' ?n2 = (own, n3)" by force
  obtain fj n4 where s3: "fresh_family ''__fj'' n3 = (fj, n4)" by force
  obtain fv n5 where s4: "fresh_family ''__f'' n4 = (fv, n5)" by force
  obtain ls n6 where s5: "prop_locals ps locals n5 = (ls, n6)" by force
  have "job_names bound locals ps = \<lparr>jn_param = param, jn_own = own, jn_f = fv, jn_fj = fj, jn_locals = ls\<rparr>"
    by (simp add: job_names_def Let_def s1 s2 s3 s4 s5 cong: if_cong)
  then have r: "jn_param (job_names bound locals ps) = param" "jn_own (job_names bound locals ps) = own"
    "jn_fj (job_names bound locals ps) = fj" "jn_f (job_names bound locals ps) = fv" "jn_locals (job_names bound locals ps) = ls"
    by simp_all
  have "prop_locals ps locals n5 = (jn_locals (job_names bound locals ps), n6)" using s5 r(5) by simp
  then show ?thesis using names [of ?whole locals] s1 n2 s2 s3 s4 r(1-4) by blast
qed



end
