(* ===== verification/Pool.thy ===== *)
theory Pool
  imports Prelude "HOL-Library.Product_Lexorder"
begin

text \<open>
  The worker pool of the native server (\<^verbatim>\<open>crates/brust-server/src/pool.rs\<close>): workers with their slots, the claim of a
  slot and its release, the deadlines the sweeper watches. Every worker ever registered stays in \<open>wp_workers\<close> (its
  reference count keeps it alive while a claim holds it) and is named by its place there; \<open>wp_entries\<close> are the places in
  the pool. One operation here is one atomic access of the code, or one section under a lock; \<open>Claims\<close> interleaves them.
\<close>

section \<open>Workers and slots\<close>

text \<open>
  The chunk sender of a slot is the number of the call that installed it, a parked waker the number of the call it wakes;
  \<open>'p\<close> is the type of plan cells, \<open>'b\<close> of heap replies. Times are in nanoseconds since \<^verbatim>\<open>EPOCH\<close>, deadlines in
  milliseconds.
\<close>

record ('p, 'b) slot_state =
  sl_idle :: bool
  sl_render :: "nat option"
  sl_plan :: "'p option"
  sl_jobs_since :: "nat option"
  sl_deadline :: nat
  sl_waker :: "nat option"
  sl_reply :: "'b option"

record ('p, 'b) worker_entry =
  we_id :: nat
  we_in_flight :: nat
  we_slots :: "('p, 'b) slot_state list"

record ('p, 'b, 'n) worker_pool =
  wp_workers :: "('p, 'b) worker_entry list"
  wp_entries :: "nat list"
  wp_next_id :: nat
  wp_notify :: 'n

definition slot_new :: "('p, 'b) slot_state" where
  "slot_new = \<lparr>sl_idle = True, sl_render = None, sl_plan = None, sl_jobs_since = None, sl_deadline = 0, sl_waker = None,
     sl_reply = None\<rparr>"

definition pool_new :: "'n \<Rightarrow> ('p, 'b, 'n) worker_pool" where
  "pool_new notify = \<lparr>wp_workers = [], wp_entries = [], wp_next_id = 0, wp_notify = notify\<rparr>"

section \<open>The registry\<close>

text \<open>\<^verbatim>\<open>register\<close> takes a number first and enters the pool later, under the lock.\<close>

definition fetch_id :: "('p, 'b, 'n) worker_pool \<Rightarrow> nat \<times> ('p, 'b, 'n) worker_pool" where
  "fetch_id p = (wp_next_id p, p\<lparr>wp_next_id := (wp_next_id p + 1) mod 2 ^ 32\<rparr>)"

definition push_entry :: "nat \<Rightarrow> nat \<Rightarrow> ('p, 'b, 'n) worker_pool \<Rightarrow> ('p, 'b, 'n) worker_pool" where
  "push_entry i k p =
     p\<lparr>wp_workers := wp_workers p @ [\<lparr>we_id = i, we_in_flight = 0, we_slots = replicate (max k 1) slot_new\<rparr>],
       wp_entries := wp_entries p @ [length (wp_workers p)]\<rparr>"

definition worker_at :: "('p, 'b, 'n) worker_pool \<Rightarrow> nat \<Rightarrow> ('p, 'b) worker_entry" where
  "worker_at p e = wp_workers p ! e"

definition slot_at :: "('p, 'b, 'n) worker_pool \<Rightarrow> nat \<times> nat \<Rightarrow> ('p, 'b) slot_state" where
  "slot_at p x = we_slots (worker_at p (fst x)) ! snd x"

definition slot_total :: "('p, 'b, 'n) worker_pool \<Rightarrow> nat" where
  "slot_total p = (\<Sum>e \<leftarrow> wp_entries p. length (we_slots (worker_at p e)))"

definition registered_count :: "('p, 'b, 'n) worker_pool \<Rightarrow> nat" where
  "registered_count p = length (wp_entries p)"

definition entry_of :: "('p, 'b, 'n) worker_pool \<Rightarrow> nat \<Rightarrow> nat option" where
  "entry_of p i = find (\<lambda>e. we_id (worker_at p e) = i) (wp_entries p)"

definition remove_entry :: "nat \<Rightarrow> ('p, 'b, 'n) worker_pool \<Rightarrow> ('p, 'b, 'n) worker_pool" where
  "remove_entry i p = p\<lparr>wp_entries := filter (\<lambda>e. we_id (worker_at p e) \<noteq> i) (wp_entries p)\<rparr>"

definition clear_pool :: "('p, 'b, 'n) worker_pool \<Rightarrow> ('p, 'b, 'n) worker_pool" where
  "clear_pool p = p\<lparr>wp_entries := []\<rparr>"

text \<open>\<^verbatim>\<open>min_by_key\<close> returns the first of the minimal elements.\<close>

fun first_least :: "('a \<Rightarrow> nat) \<Rightarrow> 'a list \<Rightarrow> 'a option" where
  "first_least f [] = None"
| "first_least f (x # xs) = (case first_least f xs of None \<Rightarrow> Some x | Some y \<Rightarrow> if f x \<le> f y then Some x else Some y)"

definition pick_least_busy :: "('p, 'b, 'n) worker_pool \<Rightarrow> nat option" where
  "pick_least_busy p = first_least (\<lambda>e. we_in_flight (worker_at p e)) (wp_entries p)"

section \<open>Claims\<close>

text \<open>The slots of the pool in the order of a claim.\<close>

definition worker_slots :: "('p, 'b, 'n) worker_pool \<Rightarrow> nat \<Rightarrow> (nat \<times> nat) list" where
  "worker_slots p e = map (Pair e) [0..<length (we_slots (worker_at p e))]"

definition pool_slots :: "('p, 'b, 'n) worker_pool \<Rightarrow> (nat \<times> nat) list" where
  "pool_slots p = concat (map (worker_slots p) (wp_entries p))"

definition set_worker ::
  "nat \<Rightarrow> (('p, 'b) worker_entry \<Rightarrow> ('p, 'b) worker_entry) \<Rightarrow> ('p, 'b, 'n) worker_pool \<Rightarrow> ('p, 'b, 'n) worker_pool" where
  "set_worker e f p = p\<lparr>wp_workers := (wp_workers p)[e := f (worker_at p e)]\<rparr>"

definition set_slot ::
  "nat \<times> nat \<Rightarrow> (('p, 'b) slot_state \<Rightarrow> ('p, 'b) slot_state) \<Rightarrow> ('p, 'b, 'n) worker_pool \<Rightarrow> ('p, 'b, 'n) worker_pool" where
  "set_slot x f p = set_worker (fst x) (\<lambda>w. w\<lparr>we_slots := (we_slots w)[snd x := f (we_slots w ! snd x)]\<rparr>) p"

text \<open>The compare-and-exchange of the idle flag, then what a won claim still writes.\<close>

definition cas_idle :: "nat \<times> nat \<Rightarrow> ('p, 'b, 'n) worker_pool \<Rightarrow> ('p, 'b, 'n) worker_pool option" where
  "cas_idle x p = (if sl_idle (slot_at p x) then Some (set_slot x (sl_idle_update (\<lambda>_. False)) p) else None)"

definition claim_won :: "bool \<Rightarrow> nat \<Rightarrow> nat \<times> nat \<Rightarrow> ('p, 'b, 'n) worker_pool \<Rightarrow> ('p, 'b, 'n) worker_pool" where
  "claim_won lockfree t x p =
     (let p = set_worker (fst x) (we_in_flight_update (\<lambda>n. n + 1)) p
      in if lockfree then p else set_slot x (sl_render_update (\<lambda>_. Some t)) p)"

text \<open>The writes of a release in their order; the notification follows the last.\<close>

definition release_steps :: "bool \<Rightarrow> nat \<times> nat \<Rightarrow> (('p, 'b, 'n) worker_pool \<Rightarrow> ('p, 'b, 'n) worker_pool) list" where
  "release_steps lockfree x =
     [set_slot x (sl_plan_update (\<lambda>_. None)),
      set_slot x (sl_jobs_since_update (\<lambda>_. None)),
      set_slot x (sl_reply_update (\<lambda>_. None)),
      set_slot x (sl_deadline_update (\<lambda>_. 0)),
      set_slot x (sl_waker_update (\<lambda>_. None)),
      (if lockfree then id else set_slot x (sl_render_update (\<lambda>_. None))),
      set_worker (fst x) (we_in_flight_update (\<lambda>n. n - 1)),
      set_slot x (sl_idle_update (\<lambda>_. True))]"

text \<open>What a worker reaches of a slot: only while it is claimed.\<close>

definition claimed_slot :: "('p, 'b, 'n) worker_pool \<Rightarrow> nat \<times> nat \<Rightarrow> bool" where
  "claimed_slot p x \<longleftrightarrow> snd x < length (we_slots (worker_at p (fst x))) \<and> \<not> sl_idle (slot_at p x)"

definition stamp_jobs_phase :: "nat \<Rightarrow> nat \<times> nat \<Rightarrow> ('p, 'b, 'n) worker_pool \<Rightarrow> ('p, 'b, 'n) worker_pool" where
  "stamp_jobs_phase now x p = (if claimed_slot p x then set_slot x (sl_jobs_since_update (\<lambda>_. Some now)) p else p)"

section \<open>Deadlines\<close>

text \<open>\<^verbatim>\<open>as_micros().div_ceil(1000).max(1)\<close>\<close>

definition epoch_ms_ceil :: "nat \<Rightarrow> nat" where
  "epoch_ms_ceil at_ns = max ((at_ns div 1000 + 999) div 1000) 1"

definition SWEEP_TICK :: nat where
  "SWEEP_TICK = 10000000"

definition arm_deadline :: "nat \<times> nat \<Rightarrow> nat \<Rightarrow> ('p, 'b, 'n) worker_pool \<Rightarrow> ('p, 'b, 'n) worker_pool" where
  "arm_deadline x at_ns = set_slot x (sl_deadline_update (\<lambda>_. epoch_ms_ceil at_ns))"

definition park_deadline_waker :: "nat \<times> nat \<Rightarrow> nat \<Rightarrow> ('p, 'b, 'n) worker_pool \<Rightarrow> ('p, 'b, 'n) worker_pool" where
  "park_deadline_waker x t = set_slot x (sl_waker_update (\<lambda>_. Some t))"

definition is_expired :: "nat \<Rightarrow> ('p, 'b) slot_state \<Rightarrow> bool" where
  "is_expired now s \<longleftrightarrow> sl_deadline s \<noteq> 0 \<and> sl_deadline s \<le> now div 1000000"

text \<open>The section under the lock of the waker of a slot; the test before it only avoids the lock.\<close>

definition sweep_slot :: "nat \<Rightarrow> nat \<times> nat \<Rightarrow> ('p, 'b, 'n) worker_pool \<Rightarrow> nat option \<times> ('p, 'b, 'n) worker_pool" where
  "sweep_slot now x p =
     (if is_expired now (slot_at p x) then (sl_waker (slot_at p x), set_slot x (sl_waker_update (\<lambda>_. None)) p) else (None, p))"

text \<open>One sweep over the workers that are alive: the wakers it takes, in order.\<close>

fun sweep_slots :: "nat \<Rightarrow> (nat \<times> nat) list \<Rightarrow> ('p, 'b, 'n) worker_pool \<Rightarrow> nat list \<times> ('p, 'b, 'n) worker_pool" where
  "sweep_slots now [] p = ([], p)"
| "sweep_slots now (x # xs) p =
     (case sweep_slot now x p of (w, p) \<Rightarrow> case sweep_slots now xs p of (due, p) \<Rightarrow>
        (case w of None \<Rightarrow> (due, p) | Some t \<Rightarrow> (t # due, p)))"

definition collect_expired ::
  "nat \<Rightarrow> (nat \<Rightarrow> bool) \<Rightarrow> ('p, 'b, 'n) worker_pool \<Rightarrow> nat list \<times> ('p, 'b, 'n) worker_pool" where
  "collect_expired now alive p = sweep_slots now (concat (map (worker_slots p) (filter alive [0..<length (wp_workers p)]))) p"

section \<open>Properties\<close>

declare split_paired_All [simp del] split_paired_Ex [simp del]

text \<open>The places of the pool are in order of registration.\<close>

definition has_slot :: "('p, 'b, 'n) worker_pool \<Rightarrow> nat \<times> nat \<Rightarrow> bool" where
  "has_slot p x \<longleftrightarrow> fst x < length (wp_workers p) \<and> snd x < length (we_slots (worker_at p (fst x)))"

definition pool_ok :: "('p, 'b, 'n) worker_pool \<Rightarrow> bool" where
  "pool_ok p \<longleftrightarrow> sorted_wrt (<) (wp_entries p) \<and> (\<forall>e \<in> set (wp_entries p). e < length (wp_workers p))"

definition in_flight :: "('p, 'b, 'n) worker_pool \<Rightarrow> nat \<Rightarrow> nat" where
  "in_flight p e = we_in_flight (worker_at p e)"

lemma set_worker_simps [simp]:
  "wp_entries (set_worker e f p) = wp_entries p"
  "wp_notify (set_worker e f p) = wp_notify p"
  "wp_next_id (set_worker e f p) = wp_next_id p"
  "length (wp_workers (set_worker e f p)) = length (wp_workers p)"
  by (simp_all add: set_worker_def)

lemma worker_at_set_worker: "worker_at (set_worker e f p) d = (if d = e \<and> e < length (wp_workers p) then f (worker_at p e) else worker_at p d)"
  by (cases "e < length (wp_workers p)") (auto simp: set_worker_def worker_at_def list_update_beyond)

lemma set_slot_simps [simp]:
  "wp_entries (set_slot x f p) = wp_entries p"
  "wp_notify (set_slot x f p) = wp_notify p"
  "wp_next_id (set_slot x f p) = wp_next_id p"
  "length (wp_workers (set_slot x f p)) = length (wp_workers p)"
  "in_flight (set_slot x f p) e = in_flight p e"
  "length (we_slots (worker_at (set_slot x f p) e)) = length (we_slots (worker_at p e))"
  "we_id (worker_at (set_slot x f p) e) = we_id (worker_at p e)"
  "has_slot (set_slot x f p) y = has_slot p y"
  by (auto simp: set_slot_def in_flight_def worker_at_set_worker has_slot_def)

lemma slot_at_set_slot: "has_slot p x \<Longrightarrow> slot_at (set_slot x f p) y = (if y = x then f (slot_at p x) else slot_at p y)"
  by (cases x; cases y) (auto simp: slot_at_def set_slot_def worker_at_set_worker has_slot_def)

lemma slot_at_set_slot_same [simp]: "has_slot p x \<Longrightarrow> slot_at (set_slot x f p) x = f (slot_at p x)"
  by (simp add: slot_at_set_slot)

lemma slot_at_set_slot_other [simp]: "y \<noteq> x \<Longrightarrow> slot_at (set_slot x f p) y = slot_at p y"
  by (cases x; cases y) (auto simp: slot_at_def set_slot_def worker_at_set_worker)

lemma in_flight_update_simps [simp]:
  "slot_at (set_worker e (we_in_flight_update f) p) x = slot_at p x"
  "has_slot (set_worker e (we_in_flight_update f) p) x = has_slot p x"
  "length (we_slots (worker_at (set_worker e (we_in_flight_update f) p) d)) = length (we_slots (worker_at p d))"
  "we_id (worker_at (set_worker e (we_in_flight_update f) p) d) = we_id (worker_at p d)"
  by (auto simp: slot_at_def has_slot_def worker_at_set_worker)

lemma in_flight_set_worker:
  "e < length (wp_workers p) \<Longrightarrow> in_flight (set_worker e (we_in_flight_update f) p) d = (if d = e then f (in_flight p e) else in_flight p d)"
  by (auto simp: in_flight_def worker_at_set_worker)

lemma worker_slots_cong: "(\<And>e. worker_slots q e = worker_slots p e) \<Longrightarrow> wp_entries q = wp_entries p \<Longrightarrow> pool_slots q = pool_slots p"
  by (simp add: pool_slots_def cong: map_cong)

lemma renotify_like [simp]:
  "slot_at (p\<lparr>wp_notify := n\<rparr>) x = slot_at p x"
  "has_slot (p\<lparr>wp_notify := n\<rparr>) x = has_slot p x"
  "in_flight (p\<lparr>wp_notify := n\<rparr>) e = in_flight p e"
  "worker_at (p\<lparr>wp_notify := n\<rparr>) e = worker_at p e"
  "pool_slots (p\<lparr>wp_notify := n\<rparr>) = pool_slots p"
  "pool_ok (p\<lparr>wp_notify := n\<rparr>) = pool_ok p"
  by (auto simp: slot_at_def has_slot_def in_flight_def worker_at_def worker_slots_def pool_ok_def intro!: worker_slots_cong)

lemma entries_update_simps [simp]:
  "slot_at (p\<lparr>wp_entries := es\<rparr>) x = slot_at p x"
  "has_slot (p\<lparr>wp_entries := es\<rparr>) x = has_slot p x"
  "in_flight (p\<lparr>wp_entries := es\<rparr>) e = in_flight p e"
  "worker_at (p\<lparr>wp_entries := es\<rparr>) e = worker_at p e"
  by (auto simp: slot_at_def has_slot_def in_flight_def worker_at_def)

lemma fetch_id_simps [simp]:
  "slot_at (snd (fetch_id p)) x = slot_at p x"
  "has_slot (snd (fetch_id p)) x = has_slot p x"
  "in_flight (snd (fetch_id p)) e = in_flight p e"
  "worker_at (snd (fetch_id p)) e = worker_at p e"
  "wp_entries (snd (fetch_id p)) = wp_entries p"
  "wp_workers (snd (fetch_id p)) = wp_workers p"
  "wp_notify (snd (fetch_id p)) = wp_notify p"
  by (auto simp: slot_at_def has_slot_def in_flight_def worker_at_def fetch_id_def)

lemma push_entry_simps [simp]:
  "wp_notify (push_entry i k p) = wp_notify p"
  "length (wp_workers (push_entry i k p)) = length (wp_workers p) + 1"
  "wp_entries (push_entry i k p) = wp_entries p @ [length (wp_workers p)]"
  "e < length (wp_workers p) \<Longrightarrow> worker_at (push_entry i k p) e = worker_at p e"
  "e < length (wp_workers p) \<Longrightarrow> in_flight (push_entry i k p) e = in_flight p e"
  "in_flight (push_entry i k p) (length (wp_workers p)) = 0"
  by (auto simp: push_entry_def worker_at_def in_flight_def nth_append)

lemma has_slot_push: "has_slot (push_entry i k p) x \<longleftrightarrow> has_slot p x \<or> fst x = length (wp_workers p) \<and> snd x < max k 1"
  by (auto simp: has_slot_def push_entry_def worker_at_def nth_append)

lemma slot_at_push: "has_slot p x \<Longrightarrow> slot_at (push_entry i k p) x = slot_at p x"
  "has_slot (push_entry i k p) x \<Longrightarrow> \<not> has_slot p x \<Longrightarrow> slot_at (push_entry i k p) x = slot_new"
  by (auto simp: has_slot_def slot_at_def push_entry_def worker_at_def nth_append)

lemma pool_slots_set [simp]:
  "pool_slots (set_slot x f p) = pool_slots p"
  "pool_slots (set_worker e (we_in_flight_update g) p) = pool_slots p"
  by (auto simp: worker_slots_def intro!: worker_slots_cong)

lemma mem_pool_slots: "x \<in> set (pool_slots p) \<longleftrightarrow> fst x \<in> set (wp_entries p) \<and> snd x < length (we_slots (worker_at p (fst x)))"
  by (cases x) (force simp: pool_slots_def worker_slots_def)

lemma pool_slots_valid: "pool_ok p \<Longrightarrow> x \<in> set (pool_slots p) \<Longrightarrow> has_slot p x"
  by (auto simp: mem_pool_slots pool_ok_def has_slot_def)

lemma pool_slots_sorted: "pool_ok p \<Longrightarrow> sorted_wrt (<) (pool_slots p)"
proof -
  have "sorted_wrt (<) es \<Longrightarrow> sorted_wrt (<) (concat (map (worker_slots p) es))" for es
    by (induction es) (auto simp: sorted_wrt_append worker_slots_def sorted_wrt_map)
  then show "pool_ok p \<Longrightarrow> sorted_wrt (<) (pool_slots p)" by (simp add: pool_ok_def pool_slots_def)
qed

lemma pool_ok_set [simp]:
  "pool_ok (set_slot x f p) = pool_ok p"
  "pool_ok (set_worker e g p) = pool_ok p"
  by (auto simp: pool_ok_def)

lemma pool_ok_ops:
  "pool_ok p \<Longrightarrow> pool_ok (push_entry i k p)"
  "pool_ok p \<Longrightarrow> pool_ok (remove_entry i p)"
  "pool_ok (clear_pool p)"
  "pool_ok p \<Longrightarrow> pool_ok (snd (fetch_id p))"
  "pool_ok (pool_new n)"
  by (auto simp: pool_ok_def sorted_wrt_append remove_entry_def clear_pool_def sorted_wrt_filter pool_new_def less_Suc_eq)

text \<open>An operation that keeps the slots and their idle flags.\<close>

definition same_shape :: "('p, 'b, 'n) worker_pool \<Rightarrow> ('p, 'b, 'n) worker_pool \<Rightarrow> bool" where
  "same_shape p q \<longleftrightarrow> length (wp_workers q) = length (wp_workers p) \<and> (\<forall>x. has_slot q x = has_slot p x) \<and>
     (\<forall>x. has_slot p x \<longrightarrow> sl_idle (slot_at q x) = sl_idle (slot_at p x)) \<and> (pool_ok p \<longrightarrow> pool_ok q)"

lemma same_shape_refl [simp, intro]: "same_shape p p"
  by (simp add: same_shape_def)

lemma same_shape_trans: "same_shape p q \<Longrightarrow> same_shape q r \<Longrightarrow> same_shape p r"
  by (simp add: same_shape_def)

lemma same_shape_set_slot [simp, intro]:
  assumes "\<And>s. sl_idle (f s) = sl_idle s"
  shows "same_shape p (set_slot x f p)"
proof -
  have "sl_idle (slot_at (set_slot x f p) y) = sl_idle (slot_at p y)" if "has_slot p y" for y
    using that assms by (cases "y = x") simp_all
  then show ?thesis by (simp add: same_shape_def)
qed

lemma same_shape_ops [simp, intro]:
  "same_shape p (set_worker e (we_in_flight_update g) p)"
  "same_shape p (p\<lparr>wp_notify := n\<rparr>)"
  "same_shape p (remove_entry i p)"
  "same_shape p (clear_pool p)"
  "same_shape p (snd (fetch_id p))"
  by (auto simp: same_shape_def remove_entry_def clear_pool_def pool_ok_def sorted_wrt_filter)

text \<open>A sweep takes wakers and changes nothing else.\<close>

definition same_but_wakers :: "('p, 'b, 'n) worker_pool \<Rightarrow> ('p, 'b, 'n) worker_pool \<Rightarrow> bool" where
  "same_but_wakers p q \<longleftrightarrow> same_shape p q \<and> wp_entries q = wp_entries p \<and> wp_notify q = wp_notify p \<and>
     (\<forall>e. in_flight q e = in_flight p e \<and> we_id (worker_at q e) = we_id (worker_at p e)) \<and>
     (\<forall>x. has_slot p x \<longrightarrow> (\<exists>w \<in> {None, sl_waker (slot_at p x)}. slot_at q x = slot_at p x\<lparr>sl_waker := w\<rparr>))"

lemma sweep_slot_keeps: "has_slot p x \<Longrightarrow> same_but_wakers p (snd (sweep_slot now x p))"
  using same_shape_set_slot [of "sl_waker_update (\<lambda>_. None)" p x]
  by (auto simp: same_but_wakers_def sweep_slot_def slot_at_set_slot)

lemma same_but_wakers_refl: "same_but_wakers p p"
proof -
  have "slot_at p x = slot_at p x\<lparr>sl_waker := sl_waker (slot_at p x)\<rparr>" for x by simp
  then show ?thesis by (auto simp: same_but_wakers_def)
qed

lemma same_but_wakers_trans:
  assumes "same_but_wakers p q" "same_but_wakers q r"
  shows "same_but_wakers p r"
proof -
  have "\<exists>w \<in> {None, sl_waker (slot_at p x)}. slot_at r x = slot_at p x\<lparr>sl_waker := w\<rparr>" if x: "has_slot p x" for x
  proof -
    have "has_slot q x" using assms(1) x by (simp add: same_but_wakers_def same_shape_def)
    then obtain v w where "v \<in> {None, sl_waker (slot_at p x)}" "slot_at q x = slot_at p x\<lparr>sl_waker := v\<rparr>"
      "w \<in> {None, sl_waker (slot_at q x)}" "slot_at r x = slot_at q x\<lparr>sl_waker := w\<rparr>"
      using assms x unfolding same_but_wakers_def by meson
    then show ?thesis by (intro bexI [of _ w]) auto
  qed
  then show ?thesis using assms same_shape_trans [of p q r] by (simp add: same_but_wakers_def)
qed

lemma sweep_slots_keeps: "(\<forall>x \<in> set xs. has_slot p x) \<Longrightarrow> same_but_wakers p (snd (sweep_slots now xs p))"
proof (induction xs arbitrary: p)
  case (Cons x xs)
  have "same_but_wakers p (snd (sweep_slot now x p))" using Cons.prems by (simp add: sweep_slot_keeps)
  moreover from this have "\<forall>y \<in> set xs. has_slot (snd (sweep_slot now x p)) y"
    using Cons.prems by (simp add: same_but_wakers_def same_shape_def)
  from Cons.IH [OF this] have "same_but_wakers (snd (sweep_slot now x p)) (snd (sweep_slots now xs (snd (sweep_slot now x p))))" .
  ultimately show ?case using same_but_wakers_trans by (fastforce simp: case_prod_beta split: option.split)
qed (simp add: same_but_wakers_refl)

lemma collect_expired_keeps: "same_but_wakers p (snd (collect_expired now alive p))"
  unfolding collect_expired_def by (rule sweep_slots_keeps) (auto simp: worker_slots_def has_slot_def)

text \<open>What a sweep takes: the waker of every expired slot of a live worker, in order, each once.\<close>

definition due_wakers :: "nat \<Rightarrow> (nat \<times> nat) list \<Rightarrow> ('p, 'b, 'n) worker_pool \<Rightarrow> nat list" where
  "due_wakers now xs p =
     List.map_filter (\<lambda>x. if is_expired now (slot_at p x) then sl_waker (slot_at p x) else None) xs"

lemma sweep_slots_due:
  "distinct xs \<Longrightarrow> (\<forall>x \<in> set xs. has_slot p x) \<Longrightarrow> fst (sweep_slots now xs p) = due_wakers now xs p"
proof (induction xs arbitrary: p)
  case (Cons x xs)
  let ?q = "snd (sweep_slot now x p)"
  have other: "slot_at ?q y = slot_at p y" if "y \<in> set xs" for y
    using that Cons.prems(1) by (cases "y = x") (simp_all add: sweep_slot_def)
  have "has_slot ?q y = has_slot p y" for y by (simp add: sweep_slot_def)
  then have "fst (sweep_slots now xs ?q) = due_wakers now xs ?q" using Cons by simp
  also have "due_wakers now xs ?q = due_wakers now xs p"
    using other unfolding due_wakers_def map_filter_def by (intro map_cong filter_cong refl arg_cong [of _ _ "map _"]) auto
  finally show ?case
    by (auto simp: case_prod_beta due_wakers_def map_filter_def sweep_slot_def split: option.splits)
qed (simp add: due_wakers_def map_filter_def)

text \<open>A deadline is reached at most a microsecond early, and never later than the next millisecond.\<close>

lemma epoch_ms_bounds: "at_ns < epoch_ms_ceil at_ns * 1000000 + 1000" "epoch_ms_ceil at_ns * 1000000 < at_ns + 1000000 \<or> at_ns < 1000"
proof -
  have "at_ns < (at_ns div 1000 + 1) * 1000" by simp
  moreover have "at_ns div 1000 < ((at_ns div 1000 + 999) div 1000) * 1000 + 1" by simp
  ultimately show "at_ns < epoch_ms_ceil at_ns * 1000000 + 1000" unfolding epoch_ms_ceil_def by linarith
  show "epoch_ms_ceil at_ns * 1000000 < at_ns + 1000000 \<or> at_ns < 1000"
    unfolding epoch_ms_ceil_def by (simp add: max_def) linarith
qed

end
