(* ===== verification/Claims.thy ===== *)
theory Claims
  imports Pool Actions
begin

text \<open>
  Calls of the native server to its workers (\<^verbatim>\<open>claim_or_wait\<close>, \<^verbatim>\<open>call_worker_decoded\<close> and \<^verbatim>\<open>RenderClaim::drop\<close> of
  \<^verbatim>\<open>crates/brust-server/src/dispatch.rs\<close> and \<^verbatim>\<open>pool.rs\<close>) as a step relation: any number of calls run interleaved with the
  workers, with the sweeper and with the registration and removal of workers. A step is one atomic access or one
  section under a lock, in a sequentially consistent memory. The notification of tokio is a parameter with its
  documented laws. Values a call or its worker puts somewhere carry the number of the call; the code does not see it.
\<close>

section \<open>The notification\<close>

text \<open>
  \<open>nt_waiting\<close> are the registered waits that were not notified, \<open>nt_notified\<close> those that were and have not returned;
  a registered wait in neither set took a stored permit.
\<close>

record 'n notify =
  nt_new :: 'n
  nt_enable :: "nat \<Rightarrow> 'n \<Rightarrow> 'n"
  nt_notify_one :: "'n \<Rightarrow> 'n"
  nt_finish :: "nat \<Rightarrow> 'n \<Rightarrow> 'n"
  nt_drop :: "nat \<Rightarrow> 'n \<Rightarrow> 'n"
  nt_waiting :: "'n \<Rightarrow> nat set"
  nt_notified :: "'n \<Rightarrow> nat set"

text \<open>One wait of \<open>n\<close> is notified in \<open>n'\<close>, if there is one.\<close>

definition notifies_one :: "'n notify \<Rightarrow> 'n \<Rightarrow> 'n \<Rightarrow> bool" where
  "notifies_one nt n n' \<longleftrightarrow>
     (if nt_waiting nt n = {} then nt_waiting nt n' = {} \<and> nt_notified nt n' = nt_notified nt n
      else \<exists>t \<in> nt_waiting nt n. nt_waiting nt n' = nt_waiting nt n - {t} \<and> nt_notified nt n' = insert t (nt_notified nt n))"

text \<open>
  A wait is registered by \<open>enable\<close>, unless a permit is stored. A wait that returned is forgotten; one that is dropped while
  notified passes its notification on.
\<close>

definition notify_laws :: "'n notify \<Rightarrow> bool" where
  "notify_laws nt \<longleftrightarrow>
     nt_waiting nt (nt_new nt) = {} \<and> nt_notified nt (nt_new nt) = {} \<and>
     (\<forall>t n. nt_notified nt (nt_enable nt t n) = nt_notified nt n \<and>
       nt_waiting nt (nt_enable nt t n) \<in> {nt_waiting nt n, insert t (nt_waiting nt n)}) \<and>
     (\<forall>n. notifies_one nt n (nt_notify_one nt n)) \<and>
     (\<forall>t n. nt_waiting nt (nt_finish nt t n) = nt_waiting nt n - {t} \<and> nt_notified nt (nt_finish nt t n) = nt_notified nt n - {t}) \<and>
     (\<forall>t n. if t \<in> nt_notified nt n then notifies_one nt (nt_finish nt t n) (nt_drop nt t n)
       else nt_waiting nt (nt_drop nt t n) = nt_waiting nt n - {t} \<and> nt_notified nt (nt_drop nt t n) = nt_notified nt n)"

section \<open>A call\<close>

datatype dispatch_error = EnqueueFailed string | PromiseRejected string

text \<open>
  How a call ends: without a claim; with the bytes of its reply, the heap reply and the plan it took; with an error; or
  given up by its caller before it had a claim.
\<close>

datatype 'p call_end =
    NoClaim call_error
  | Replied "nat \<times> string" "(nat \<times> string) option" "(nat \<times> 'p) option"
  | Failed call_error
  | GivenUp

text \<open>
  Where a call is. \<open>Trying r xs\<close>: inside a claim, the slots \<open>xs\<close> still to test; \<open>r\<close> says it is registered with the
  notification. \<open>Waiting n\<close>: in the select, after a claim over the first \<open>n\<close> workers. \<open>Dropping x k e\<close>: the first \<open>k\<close> writes
  of the release are done.
\<close>

datatype 'p call_state =
    Fresh
  | Trying bool "(nat \<times> nat) list"
  | Won bool "nat \<times> nat"
  | Got bool "nat \<times> nat"
  | Looping
  | Enabled
  | Waiting nat
  | Leaving "'p call_end"
  | Claimed "nat \<times> nat"
  | Ready "nat \<times> nat"
  | Armed "nat \<times> nat"
  | Calling "nat \<times> nat"
  | Settled "nat \<times> nat" "dispatch_error + nat"
  | Decoded "nat \<times> nat" "nat \<times> string" "(nat \<times> string) option"
  | Dropping "nat \<times> nat" nat "'p call_end"
  | Notifying "'p call_end"
  | Ended "'p call_end"

text \<open>
  \<open>sy_region\<close> is the part of the shared buffer a slot owns, \<open>sy_gone\<close> the calls whose caller has left (deadline or
  disconnect): they go on by themselves. \<open>sy_starting\<close> are workers that have a number and are not in the pool yet.
\<close>

record ('p, 'n) system =
  sy_pool :: "(nat \<times> 'p, nat \<times> string, 'n) worker_pool"
  sy_region :: "nat \<times> nat \<Rightarrow> nat \<times> string"
  sy_calls :: "nat \<Rightarrow> 'p call_state"
  sy_gone :: "nat set"
  sy_starting :: "(nat \<times> nat) list"

definition system_new :: "'n notify \<Rightarrow> (nat \<times> nat \<Rightarrow> nat \<times> string) \<Rightarrow> ('p, 'n) system" where
  "system_new nt region =
     \<lparr>sy_pool = pool_new (nt_new nt), sy_region = region, sy_calls = (\<lambda>_. Fresh), sy_gone = {}, sy_starting = []\<rparr>"

text \<open>Call \<open>t\<close> moves on to \<open>c\<close>, the pool becomes \<open>p\<close>.\<close>

definition moves ::
  "nat \<Rightarrow> 'p call_state \<Rightarrow> (nat \<times> 'p, nat \<times> string, 'n) worker_pool \<Rightarrow> ('p, 'n) system \<Rightarrow> ('p, 'n) system" where
  "moves t c p st = st\<lparr>sy_calls := (sy_calls st)(t := c), sy_pool := p\<rparr>"

definition renotify :: "('n \<Rightarrow> 'n) \<Rightarrow> ('p, 'b, 'n) worker_pool \<Rightarrow> ('p, 'b, 'n) worker_pool" where
  "renotify f p = p\<lparr>wp_notify := f (wp_notify p)\<rparr>"

text \<open>No claim holds the lock of the pool.\<close>

definition reads_lock :: "'p call_state \<Rightarrow> bool" where
  "reads_lock c \<longleftrightarrow> (case c of Trying _ _ \<Rightarrow> True | Won _ _ \<Rightarrow> True | _ \<Rightarrow> False)"

definition unlocked :: "('p, 'n) system \<Rightarrow> bool" where
  "unlocked st \<longleftrightarrow> (\<forall>t. \<not> reads_lock (sy_calls st t))"

section \<open>Steps\<close>

text \<open>
  \<open>lockfree t\<close> says which claim call \<open>t\<close> makes, \<open>cap x\<close> is the capacity of a region. What the decoder of a call makes of the
  bytes is open: it may take the heap reply, fail (\<open>parsed\<close> is false) or panic (\<open>undecoded\<close>). The order of the rules is that of the
  code; the last ones are the caller beside its call, the worker, the sweeper and the registry.
\<close>

inductive sys_step ::
  "'n notify \<Rightarrow> (nat \<Rightarrow> bool) \<Rightarrow> (nat \<times> nat \<Rightarrow> nat) \<Rightarrow> ('p, 'n) system \<Rightarrow> ('p, 'n) system \<Rightarrow> bool"
  for nt :: "'n notify" and lockfree :: "nat \<Rightarrow> bool" and cap :: "nat \<times> nat \<Rightarrow> nat" where
  try_first: "sy_calls st t = Fresh \<Longrightarrow>
    sys_step nt lockfree cap st
      (moves t (if wp_entries (sy_pool st) = [] then Ended (NoClaim NoWorkers) else Trying False (pool_slots (sy_pool st)))
        (sy_pool st) st)"
| test_won: "sy_calls st t = Trying r (x # xs) \<Longrightarrow> cas_idle x (sy_pool st) = Some p \<Longrightarrow>
    sys_step nt lockfree cap st (moves t (Won r x) p st)"
| test_busy: "sy_calls st t = Trying r (x # xs) \<Longrightarrow> cas_idle x (sy_pool st) = None \<Longrightarrow>
    sys_step nt lockfree cap st (moves t (Trying r xs) (sy_pool st) st)"
| all_busy: "sy_calls st t = Trying r [] \<Longrightarrow>
    sys_step nt lockfree cap st
      (moves t (if r then Waiting (length (wp_workers (sy_pool st))) else Looping) (sy_pool st) st)"
| claim: "sy_calls st t = Won r x \<Longrightarrow>
    sys_step nt lockfree cap st (moves t (Got r x) (claim_won (lockfree t) t x (sy_pool st)) st)"
| claimed: "sy_calls st t = Got r x \<Longrightarrow>
    sys_step nt lockfree cap st
      (moves t (Claimed x) (if r then renotify (nt_drop nt t) (sy_pool st) else sy_pool st) st)"
| enable: "sy_calls st t = Looping \<Longrightarrow>
    sys_step nt lockfree cap st (moves t Enabled (renotify (nt_enable nt t) (sy_pool st)) st)"
| try_again: "sy_calls st t = Enabled \<Longrightarrow>
    sys_step nt lockfree cap st
      (moves t (if wp_entries (sy_pool st) = [] then Leaving (NoClaim NoWorkers) else Trying True (pool_slots (sy_pool st)))
        (sy_pool st) st)"
| woken: "sy_calls st t = Waiting n \<Longrightarrow> t \<notin> nt_waiting nt (wp_notify (sy_pool st)) \<Longrightarrow>
    sys_step nt lockfree cap st (moves t Looping (renotify (nt_finish nt t) (sy_pool st)) st)"
| timed_out: "sy_calls st t = Waiting n \<Longrightarrow>
    sys_step nt lockfree cap st (moves t (Leaving (NoClaim CallTimeout)) (sy_pool st) st)"
| given_up: "sy_calls st t = Waiting n \<Longrightarrow>
    sys_step nt lockfree cap st (moves t (Leaving GivenUp) (sy_pool st) st)"
| leave: "sy_calls st t = Leaving e \<Longrightarrow>
    sys_step nt lockfree cap st (moves t (Ended e) (renotify (nt_drop nt t) (sy_pool st)) st)"
| put_plan: "sy_calls st t = Claimed x \<Longrightarrow>
    sys_step nt lockfree cap st (moves t (Ready x) (set_slot x (sl_plan_update (\<lambda>_. Some (t, seed))) (sy_pool st)) st)"
| no_plan: "sy_calls st t = Claimed x \<Longrightarrow> sys_step nt lockfree cap st (moves t (Ready x) (sy_pool st) st)"
| unserialised: "sy_calls st t = Ready x \<Longrightarrow>
    sys_step nt lockfree cap st (moves t (Dropping x 0 (Failed (BadResponse m))) (sy_pool st) st)"
| arm: "sy_calls st t = Ready x \<Longrightarrow>
    sys_step nt lockfree cap st (moves t (Armed x) (arm_deadline x at_ns (sy_pool st)) st)"
| start: "sy_calls st t = Armed x \<Longrightarrow> sys_step nt lockfree cap st (moves t (Calling x) (sy_pool st) st)"
| settle: "sy_calls st t = Calling x \<Longrightarrow> fst (sy_region st x) = t \<Longrightarrow>
    sys_step nt lockfree cap st (moves t (Settled x (Inr n)) (sy_pool st) st)"
| settle_error: "sy_calls st t = Calling x \<Longrightarrow>
    sys_step nt lockfree cap st (moves t (Settled x (Inl d)) (sy_pool st) st)"
| enqueue_failed: "sy_calls st t = Settled x (Inl (EnqueueFailed m)) \<Longrightarrow> unlocked st \<Longrightarrow>
    sys_step nt lockfree cap st
      (moves t (Dropping x 0 (Failed (Enqueue m))) (remove_entry (we_id (worker_at (sy_pool st) (fst x))) (sy_pool st)) st)"
| rejected: "sy_calls st t = Settled x (Inl (PromiseRejected m)) \<Longrightarrow>
    sys_step nt lockfree cap st (moves t (Dropping x 0 (Failed (Rejected m))) (sy_pool st) st)"
| bad_length: "sy_calls st t = Settled x (Inr n) \<Longrightarrow> n = 0 \<or> cap x < n \<Longrightarrow>
    sys_step nt lockfree cap st (moves t (Dropping x 0 (Failed (BadResponse m))) (sy_pool st) st)"
| decode: "sy_calls st t = Settled x (Inr n) \<Longrightarrow> 0 < n \<Longrightarrow> n \<le> cap x \<Longrightarrow>
    sys_step nt lockfree cap st
      (moves t (Decoded x (map_prod id (take n) (sy_region st x)) None) (sy_pool st) st)"
| decode_heap: "sy_calls st t = Settled x (Inr n) \<Longrightarrow> 0 < n \<Longrightarrow> n \<le> cap x \<Longrightarrow>
    sys_step nt lockfree cap st
      (moves t (Decoded x (map_prod id (take n) (sy_region st x)) (sl_reply (slot_at (sy_pool st) x)))
        (set_slot x (sl_reply_update (\<lambda>_. None)) (sy_pool st)) st)"
| undecoded: "sy_calls st t = Settled x r \<Longrightarrow>
    sys_step nt lockfree cap st (moves t (Dropping x 0 (Failed (BadResponse m))) (sy_pool st) st)"
| take_plan: "sy_calls st t = Decoded x b h \<Longrightarrow>
    sys_step nt lockfree cap st
      (moves t (Dropping x 0 (if parsed then Replied b h (sl_plan (slot_at (sy_pool st) x)) else Failed (BadResponse m)))
        (set_slot x (sl_plan_update (\<lambda>_. None)) (sy_pool st)) st)"
| release: "sy_calls st t = Dropping x k e \<Longrightarrow> k < 7 \<Longrightarrow>
    sys_step nt lockfree cap st
      (moves t (Dropping x (k + 1) e) ((release_steps (lockfree t) x ! k) (sy_pool st)) st)"
| released: "sy_calls st t = Dropping x 7 e \<Longrightarrow>
    sys_step nt lockfree cap st (moves t (Notifying e) ((release_steps (lockfree t) x ! 7) (sy_pool st)) st)"
| notify: "sy_calls st t = Notifying e \<Longrightarrow>
    sys_step nt lockfree cap st (moves t (Ended e) (renotify (nt_notify_one nt) (sy_pool st)) st)"
| park: "sy_calls st t = Calling x \<Longrightarrow> t \<notin> sy_gone st \<Longrightarrow>
    sys_step nt lockfree cap st (st\<lparr>sy_pool := park_deadline_waker x t (sy_pool st)\<rparr>)"
| rearm: "sy_calls st t = Calling x \<Longrightarrow> t \<notin> sy_gone st \<Longrightarrow>
    sys_step nt lockfree cap st (st\<lparr>sy_pool := arm_deadline x at_ns (sy_pool st)\<rparr>)"
| gone: "sy_calls st t = Calling x \<Longrightarrow> sys_step nt lockfree cap st (st\<lparr>sy_gone := insert t (sy_gone st)\<rparr>)"
| worker_writes: "sy_calls st t = Calling x \<Longrightarrow>
    sys_step nt lockfree cap st (st\<lparr>sy_region := (sy_region st)(x := (t, bytes))\<rparr>)"
| worker_plans: "sy_calls st t = Calling x \<Longrightarrow> claimed_slot (sy_pool st) x \<Longrightarrow>
    sys_step nt lockfree cap st
      (st\<lparr>sy_pool := set_slot x (sl_plan_update (\<lambda>_. map_option (Pair t) v)) (sy_pool st)\<rparr>)"
| worker_stamps: "sy_calls st t = Calling x \<Longrightarrow>
    sys_step nt lockfree cap st (st\<lparr>sy_pool := stamp_jobs_phase now x (sy_pool st)\<rparr>)"
| worker_replies: "sy_calls st t = Calling x \<Longrightarrow> claimed_slot (sy_pool st) x \<Longrightarrow>
    sys_step nt lockfree cap st
      (st\<lparr>sy_pool := set_slot x (sl_reply_update (\<lambda>_. Some (t, bytes))) (sy_pool st)\<rparr>)"
| sweep: "has_slot (sy_pool st) x \<Longrightarrow>
    sys_step nt lockfree cap st (st\<lparr>sy_pool := snd (sweep_slot now x (sy_pool st))\<rparr>)"
| registering: "sys_step nt lockfree cap st
    (st\<lparr>sy_starting := sy_starting st @ [(fst (fetch_id (sy_pool st)), k)], sy_pool := snd (fetch_id (sy_pool st))\<rparr>)"
| registered: "sy_starting st = before @ (i, k) # after \<Longrightarrow> unlocked st \<Longrightarrow>
    sys_step nt lockfree cap st (st\<lparr>sy_starting := before @ after, sy_pool := push_entry i k (sy_pool st)\<rparr>)"
| removed: "unlocked st \<Longrightarrow> sys_step nt lockfree cap st (st\<lparr>sy_pool := remove_entry i (sy_pool st)\<rparr>)"
| cleared: "unlocked st \<Longrightarrow> sys_step nt lockfree cap st (st\<lparr>sy_pool := clear_pool (sy_pool st)\<rparr>)"

definition reachable_from ::
  "'n notify \<Rightarrow> (nat \<Rightarrow> bool) \<Rightarrow> (nat \<times> nat \<Rightarrow> nat) \<Rightarrow> (nat \<times> nat \<Rightarrow> nat \<times> string) \<Rightarrow> ('p, 'n) system \<Rightarrow> bool" where
  "reachable_from nt lockfree cap region st \<longleftrightarrow> (sys_step nt lockfree cap)\<^sup>*\<^sup>* (system_new nt region) st"

end
