(* ===== verification/ClaimLaws.thy ===== *)
theory ClaimLaws
  imports Claims
begin

text \<open>
  Invariants of the calls of \<open>Claims\<close>, one step rule at a time: who owns a slot, what a slot carries, what the workers
  count and who will look at a free slot; and what they give for every run.
\<close>

section \<open>Ownership\<close>

declare split_paired_All [simp del] split_paired_Ex [simp del]

text \<open>The slot a call owns, and the slot whose worker counts it as in flight.\<close>

fun holder :: "'p call_state \<Rightarrow> (nat \<times> nat) option" where
  "holder (Won r x) = Some x"
| "holder (Got r x) = Some x"
| "holder (Claimed x) = Some x"
| "holder (Ready x) = Some x"
| "holder (Armed x) = Some x"
| "holder (Calling x) = Some x"
| "holder (Settled x r) = Some x"
| "holder (Decoded x b h) = Some x"
| "holder (Dropping x k e) = Some x"
| "holder _ = None"

text \<open>What the state of a call says of the pool alone.\<close>

fun call_fits :: "('p, 'b, 'n) worker_pool \<Rightarrow> 'q call_state \<Rightarrow> bool" where
  "call_fits p (Trying r xs) \<longleftrightarrow> (\<forall>x \<in> set xs. has_slot p x)"
| "call_fits p (Dropping x k e) \<longleftrightarrow> k \<le> 7"
| "call_fits p _ \<longleftrightarrow> True"

definition own_ok :: "('p, 'n) system \<Rightarrow> bool" where
  "own_ok st \<longleftrightarrow> pool_ok (sy_pool st) \<and>
     (\<forall>t x. holder (sy_calls st t) = Some x \<longrightarrow> has_slot (sy_pool st) x \<and> \<not> sl_idle (slot_at (sy_pool st) x)) \<and>
     (\<forall>t u x. holder (sy_calls st t) = Some x \<and> holder (sy_calls st u) = Some x \<longrightarrow> t = u) \<and>
     (\<forall>x. has_slot (sy_pool st) x \<and> \<not> sl_idle (slot_at (sy_pool st) x) \<longrightarrow> (\<exists>t. holder (sy_calls st t) = Some x)) \<and>
     (\<forall>t. call_fits (sy_pool st) (sy_calls st t))"

lemma own_ok_facts:
  assumes "own_ok st"
  shows "pool_ok (sy_pool st)"
    and "holder (sy_calls st t) = Some x \<Longrightarrow> has_slot (sy_pool st) x"
    and "holder (sy_calls st t) = Some x \<Longrightarrow> \<not> sl_idle (slot_at (sy_pool st) x)"
    and "holder (sy_calls st t) = Some x \<Longrightarrow> holder (sy_calls st u) = Some x \<Longrightarrow> u = t"
    and "has_slot (sy_pool st) x \<Longrightarrow> \<not> sl_idle (slot_at (sy_pool st) x) \<Longrightarrow> \<exists>t. holder (sy_calls st t) = Some x"
    and "call_fits (sy_pool st) (sy_calls st t)"
  using assms by (auto simp: own_ok_def)

lemma moves_simps [simp]:
  "sy_calls (moves t c p st) = (sy_calls st)(t := c)"
  "sy_pool (moves t c p st) = p"
  "sy_region (moves t c p st) = sy_region st"
  "sy_gone (moves t c p st) = sy_gone st"
  "sy_starting (moves t c p st) = sy_starting st"
  by (simp_all add: moves_def)

lemma stays: "st\<lparr>sy_pool := p\<rparr> = moves t (sy_calls st t) p st"
  by (simp add: moves_def)

lemma call_fits_shape: "same_shape p q \<Longrightarrow> call_fits q c = call_fits p c"
  by (cases c) (auto simp: same_shape_def)

lemma own_moves:
  assumes "own_ok st" "holder c = holder (sy_calls st t)" "same_shape (sy_pool st) p" "call_fits (sy_pool st) c"
  shows "own_ok (moves t c p st)"
proof -
  have h: "holder (((sy_calls st)(t := c)) u) = holder (sy_calls st u)" for u using assms(2) by simp
  have fits: "call_fits p (((sy_calls st)(t := c)) u)" for u
    using assms(4) own_ok_facts(6) [OF assms(1)] by (simp add: call_fits_shape [OF assms(3)])
  show ?thesis using assms(1,3) unfolding own_ok_def moves_simps h same_shape_def using fits by auto
qed

lemma same_shape_renotify [simp, intro]: "same_shape p (renotify f p)"
  by (simp add: renotify_def)

lemma same_shape_claim_won [simp, intro]: "same_shape p (claim_won l t x p)"
  unfolding claim_won_def Let_def
  by (auto intro: same_shape_trans [OF same_shape_ops(1) same_shape_set_slot])

lemma same_shape_writes [simp, intro]:
  "same_shape p (arm_deadline x a p)" "same_shape p (park_deadline_waker x t p)" "same_shape p (stamp_jobs_phase now x p)"
  "same_shape p (snd (sweep_slot now x p))"
  by (auto simp: arm_deadline_def park_deadline_waker_def stamp_jobs_phase_def sweep_slot_def)

lemma same_shape_release: "k < 7 \<Longrightarrow> same_shape p ((release_steps l x ! k) p)"
proof -
  assume "k < 7"
  then have "k \<in> {0, 1, 2, 3, 4, 5, 6}" by auto
  then show ?thesis by (auto simp: release_steps_def)
qed

lemma own_won:
  assumes "own_ok st" "sy_calls st t = Trying r (x # xs)" "cas_idle x (sy_pool st) = Some p"
  shows "own_ok (moves t (Won r x) p st)"
proof -
  have x: "has_slot (sy_pool st) x" using own_ok_facts(6) [OF assms(1), of t] assms(2) by simp
  have p: "sl_idle (slot_at (sy_pool st) x)" "p = set_slot x (sl_idle_update (\<lambda>_. False)) (sy_pool st)"
    using assms(3) by (auto simp: cas_idle_def split: if_splits)
  have free: "holder (sy_calls st u) \<noteq> Some x" for u using own_ok_facts(3) [OF assms(1)] p(1) by blast
  have idle: "sl_idle (slot_at p y) \<longleftrightarrow> y \<noteq> x \<and> sl_idle (slot_at (sy_pool st) y)" for y
    using x by (simp add: p(2) slot_at_set_slot)
  have shape: "has_slot p y = has_slot (sy_pool st) y" "pool_ok p = pool_ok (sy_pool st)" for y by (simp_all add: p(2))
  have fits: "call_fits p c = call_fits (sy_pool st) c" for c :: "'a call_state" by (cases c) (simp_all add: shape)
  show ?thesis unfolding own_ok_def moves_simps idle shape fits
  proof (intro conjI allI impI)
    fix u y assume h: "holder (((sy_calls st)(t := Won r x)) u) = Some y"
    show "has_slot (sy_pool st) y" using h x own_ok_facts(2) [OF assms(1)] by (auto split: if_splits)
    show "\<not> (y \<noteq> x \<and> sl_idle (slot_at (sy_pool st) y))" using h own_ok_facts(3) [OF assms(1)] by (auto split: if_splits)
  next
    fix u v y assume "holder (((sy_calls st)(t := Won r x)) u) = Some y \<and> holder (((sy_calls st)(t := Won r x)) v) = Some y"
    then show "u = v" using free own_ok_facts(4) [OF assms(1)] by (auto split: if_splits)
  next
    fix y assume y: "has_slot (sy_pool st) y \<and> \<not> (y \<noteq> x \<and> sl_idle (slot_at (sy_pool st) y))"
    show "\<exists>u. holder (((sy_calls st)(t := Won r x)) u) = Some y"
    proof (cases "y = x")
      case False
      then obtain u where "holder (sy_calls st u) = Some y" using y own_ok_facts(5) [OF assms(1)] by blast
      then show ?thesis using assms(2) by (intro exI [of _ u]) auto
    qed (auto intro!: exI [of _ t])
  qed (use assms(1) own_ok_facts in \<open>auto split: if_splits\<close>)
qed

lemma own_released:
  assumes "own_ok st" "sy_calls st t = Dropping x 7 e"
  shows "own_ok (moves t (Notifying e) ((release_steps l x ! 7) (sy_pool st)) st)"
proof -
  let ?p = "(release_steps l x ! 7) (sy_pool st)"
  have h: "holder (sy_calls st t) = Some x" using assms(2) by simp
  note x = own_ok_facts(2) [OF assms(1) h]
  have p: "?p = set_slot x (sl_idle_update (\<lambda>_. True)) (sy_pool st)" by (simp add: release_steps_def)
  have idle: "sl_idle (slot_at ?p y) \<longleftrightarrow> y = x \<or> sl_idle (slot_at (sy_pool st) y)" for y
    using x by (simp add: p slot_at_set_slot)
  have shape: "has_slot ?p y = has_slot (sy_pool st) y" "pool_ok ?p = pool_ok (sy_pool st)" for y by (simp_all add: p)
  have fits: "call_fits ?p c = call_fits (sy_pool st) c" for c :: "'a call_state" by (cases c) (simp_all add: shape)
  have others: "u = t \<or> holder (sy_calls st u) \<noteq> Some x" for u using own_ok_facts(4) [OF assms(1) h] by blast
  show ?thesis unfolding own_ok_def moves_simps idle shape fits
  proof (intro conjI allI impI)
    fix u y assume k: "holder (((sy_calls st)(t := Notifying e)) u) = Some y"
    show "has_slot (sy_pool st) y" using k own_ok_facts(2) [OF assms(1)] by (auto split: if_splits)
    show "\<not> (y = x \<or> sl_idle (slot_at (sy_pool st) y))" using k others [of u] own_ok_facts(3) [OF assms(1)] by (auto split: if_splits)
  next
    fix u v y assume "holder (((sy_calls st)(t := Notifying e)) u) = Some y \<and> holder (((sy_calls st)(t := Notifying e)) v) = Some y"
    then show "u = v" using own_ok_facts(4) [OF assms(1)] by (auto split: if_splits)
  next
    fix y assume y: "has_slot (sy_pool st) y \<and> \<not> (y = x \<or> sl_idle (slot_at (sy_pool st) y))"
    then obtain u where "holder (sy_calls st u) = Some y" using own_ok_facts(5) [OF assms(1)] by blast
    then show "\<exists>u. holder (((sy_calls st)(t := Notifying e)) u) = Some y" using y h by (intro exI [of _ u]) auto
  qed (use assms(1) own_ok_facts in \<open>auto split: if_splits\<close>)
qed

lemma own_registered:
  assumes "own_ok st"
  shows "own_ok (st\<lparr>sy_starting := s, sy_pool := push_entry i k (sy_pool st)\<rparr>)"
proof -
  let ?p = "push_entry i k (sy_pool st)"
  have fits: "call_fits (sy_pool st) c \<Longrightarrow> call_fits ?p c" for c :: "'a call_state" by (cases c) (auto simp: has_slot_push)
  have new: "has_slot (sy_pool st) x \<and> slot_at ?p x = slot_at (sy_pool st) x" if "has_slot ?p x" "\<not> sl_idle (slot_at ?p x)" for x
    using that slot_at_push(2) [OF that(1)] slot_at_push(1) [of "sy_pool st" x i k]
    by (cases "has_slot (sy_pool st) x") (auto simp: slot_new_def)
  show ?thesis unfolding own_ok_def
  proof (intro conjI allI impI)
    fix t x assume "holder (sy_calls (st\<lparr>sy_starting := s, sy_pool := ?p\<rparr>) t) = Some x"
    then have "has_slot (sy_pool st) x" "\<not> sl_idle (slot_at (sy_pool st) x)" using own_ok_facts(2,3) [OF assms] by simp_all
    then show "has_slot (sy_pool (st\<lparr>sy_starting := s, sy_pool := ?p\<rparr>)) x"
      "\<not> sl_idle (slot_at (sy_pool (st\<lparr>sy_starting := s, sy_pool := ?p\<rparr>)) x)" by (simp_all add: has_slot_push slot_at_push(1))
  next
    fix x assume "has_slot (sy_pool (st\<lparr>sy_starting := s, sy_pool := ?p\<rparr>)) x \<and>
      \<not> sl_idle (slot_at (sy_pool (st\<lparr>sy_starting := s, sy_pool := ?p\<rparr>)) x)"
    then show "\<exists>t. holder (sy_calls (st\<lparr>sy_starting := s, sy_pool := ?p\<rparr>) t) = Some x"
      using new [of x] own_ok_facts(5) [OF assms, of x] by simp
  next
    fix t u x assume "holder (sy_calls (st\<lparr>sy_starting := s, sy_pool := ?p\<rparr>) t) = Some x \<and>
      holder (sy_calls (st\<lparr>sy_starting := s, sy_pool := ?p\<rparr>) u) = Some x"
    then show "t = u" using own_ok_facts(4) [OF assms, of u x t] by simp
  qed (use own_ok_facts(1,6) [OF assms] fits in \<open>simp_all add: pool_ok_ops\<close>)
qed

lemma own_new: "own_ok (system_new nt region)"
  by (auto simp: own_ok_def system_new_def pool_ok_def pool_new_def has_slot_def)

lemma own_step:
  assumes "sys_step nt lockfree cap st st'" "own_ok st"
  shows "own_ok st'"
  using assms(1)
proof cases
  case (test_won t r x xs p)
  then show ?thesis using own_won [OF assms(2)] by simp
next
  case (released t x e)
  then show ?thesis using own_released [OF assms(2)] by simp
next
  case (registered before i k after)
  then show ?thesis using own_registered [OF assms(2)] by simp
next
  case (release t x k e)
  then show ?thesis using own_moves [OF assms(2) _ same_shape_release] by simp
next
  case (test_busy t r x xs)
  then show ?thesis using own_ok_facts(6) [OF assms(2), of t] by (auto intro!: own_moves [OF assms(2)])
next
  case (try_first t)
  then show ?thesis using pool_slots_valid [OF own_ok_facts(1) [OF assms(2)]] by (auto intro!: own_moves [OF assms(2)])
next
  case (try_again t)
  then show ?thesis using pool_slots_valid [OF own_ok_facts(1) [OF assms(2)]] by (auto intro!: own_moves [OF assms(2)])
next
  case (gone t x)
  then show ?thesis using assms(2) by (simp add: own_ok_def)
next
  case (worker_writes t x bytes)
  then show ?thesis using assms(2) by (simp add: own_ok_def)
next
  case (registering k)
  have "own_ok (moves 0 (sy_calls st 0) (snd (fetch_id (sy_pool st))) st)"
    by (rule own_moves [OF assms(2)]) (use own_ok_facts(6) [OF assms(2)] in auto)
  then show ?thesis unfolding registering by (simp add: own_ok_def)
qed (use own_ok_facts(6) [OF assms(2)] in \<open>(auto simp: stays [of _ _ 0] intro!: own_moves [OF assms(2)])\<close>)+

section \<open>What a slot carries\<close>

definition clean :: "('p, 'b) slot_state \<Rightarrow> bool" where
  "clean s \<longleftrightarrow> sl_render s = None \<and> sl_plan s = None \<and> sl_jobs_since s = None \<and> sl_deadline s = 0 \<and> sl_waker s = None \<and>
     sl_reply s = None"

text \<open>The first \<open>k\<close> writes of a release are done.\<close>

definition cleared :: "nat \<Rightarrow> ('p, 'b) slot_state \<Rightarrow> bool" where
  "cleared k s \<longleftrightarrow> (0 < k \<longrightarrow> sl_plan s = None) \<and> (1 < k \<longrightarrow> sl_jobs_since s = None) \<and> (2 < k \<longrightarrow> sl_reply s = None) \<and>
     (3 < k \<longrightarrow> sl_deadline s = 0) \<and> (4 < k \<longrightarrow> sl_waker s = None) \<and> (5 < k \<longrightarrow> sl_render s = None)"

text \<open>Everything in a slot is of call \<open>t\<close>.\<close>

definition holds_only :: "bool \<Rightarrow> nat \<Rightarrow> (nat \<times> 'p, nat \<times> string) slot_state \<Rightarrow> bool" where
  "holds_only lockfree t s \<longleftrightarrow> (\<forall>v \<in> set_option (sl_plan s). fst v = t) \<and> (\<forall>v \<in> set_option (sl_reply s). fst v = t) \<and>
     sl_waker s \<in> {None, Some t} \<and> sl_render s \<in> {None, if lockfree then None else Some t}"

fun own_end :: "nat \<Rightarrow> 'p call_end \<Rightarrow> bool" where
  "own_end t (Replied b h v) \<longleftrightarrow> fst b = t \<and> (\<forall>x \<in> set_option h. fst x = t) \<and> (\<forall>x \<in> set_option v. fst x = t)"
| "own_end t _ \<longleftrightarrow> True"

fun own_values :: "nat \<Rightarrow> (nat \<times> nat \<Rightarrow> nat \<times> string) \<Rightarrow> 'p call_state \<Rightarrow> bool" where
  "own_values t region (Settled x r) \<longleftrightarrow> (case r of Inr n \<Rightarrow> fst (region x) = t | Inl d \<Rightarrow> True)"
| "own_values t region (Decoded x b h) \<longleftrightarrow> fst b = t \<and> (\<forall>v \<in> set_option h. fst v = t)"
| "own_values t region (Dropping x k e) \<longleftrightarrow> own_end t e"
| "own_values t region (Notifying e) \<longleftrightarrow> own_end t e"
| "own_values t region (Leaving e) \<longleftrightarrow> own_end t e"
| "own_values t region (Ended e) \<longleftrightarrow> own_end t e"
| "own_values t region _ \<longleftrightarrow> True"

text \<open>What the slot of a call looks like in each state of the call.\<close>

fun slot_fits :: "bool \<Rightarrow> nat \<Rightarrow> 'p call_state \<Rightarrow> (nat \<times> 'p, nat \<times> string) slot_state \<Rightarrow> bool" where
  "slot_fits l t (Won r x) s \<longleftrightarrow> clean s"
| "slot_fits l t (Dropping x k e) s \<longleftrightarrow> holds_only l t s \<and> cleared k s"
| "slot_fits l t _ s \<longleftrightarrow> holds_only l t s"

definition content_ok :: "(nat \<Rightarrow> bool) \<Rightarrow> ('p, 'n) system \<Rightarrow> bool" where
  "content_ok lockfree st \<longleftrightarrow>
     (\<forall>x. has_slot (sy_pool st) x \<and> sl_idle (slot_at (sy_pool st) x) \<longrightarrow> clean (slot_at (sy_pool st) x)) \<and>
     (\<forall>t x. holder (sy_calls st t) = Some x \<longrightarrow> slot_fits (lockfree t) t (sy_calls st t) (slot_at (sy_pool st) x)) \<and>
     (\<forall>t. own_values t (sy_region st) (sy_calls st t))"

lemma content_facts:
  assumes "content_ok lockfree st"
  shows "has_slot (sy_pool st) x \<Longrightarrow> sl_idle (slot_at (sy_pool st) x) \<Longrightarrow> clean (slot_at (sy_pool st) x)"
    and "holder (sy_calls st t) = Some x \<Longrightarrow> slot_fits (lockfree t) t (sy_calls st t) (slot_at (sy_pool st) x)"
    and "own_values t (sy_region st) (sy_calls st t)"
  using assms by (auto simp: content_ok_def)

text \<open>A step that moves the call that owns \<open>x\<close> and touches at most that slot.\<close>

lemma content_slot:
  assumes "own_ok st" "content_ok lockfree st" "holder (sy_calls st t) = Some x" "holder c = Some x"
    and "has_slot p = has_slot (sy_pool st)" "\<And>y. y \<noteq> x \<Longrightarrow> slot_at p y = slot_at (sy_pool st) y" "\<not> sl_idle (slot_at p x)"
    and "slot_fits (lockfree t) t c (slot_at p x)" "own_values t (sy_region st) c"
  shows "content_ok lockfree (moves t c p st)"
  unfolding content_ok_def moves_simps
proof (intro conjI allI impI)
  fix y assume y: "has_slot p y \<and> sl_idle (slot_at p y)"
  then have "y \<noteq> x" using assms(7) by blast
  then show "clean (slot_at p y)" using y assms(5,6) content_facts(1) [OF assms(2)] by simp
next
  fix u y assume h: "holder (((sy_calls st)(t := c)) u) = Some y"
  show "slot_fits (lockfree u) u (((sy_calls st)(t := c)) u) (slot_at p y)"
  proof (cases "u = t")
    case True
    then show ?thesis using h assms(4,8) by simp
  next
    case False
    then have k: "holder (sy_calls st u) = Some y" using h by simp
    then have "y \<noteq> x" using False own_ok_facts(4) [OF assms(1,3)] by blast
    then show ?thesis using False k assms(6) content_facts(2) [OF assms(2) k] by simp
  qed
next
  fix u show "own_values u (sy_region st) (((sy_calls st)(t := c)) u)" using assms(9) content_facts(3) [OF assms(2)] by simp
qed

text \<open>A step of a call that owns nothing and touches no slot.\<close>

lemma content_outside:
  assumes "content_ok lockfree st" "holder c = None"
    and "has_slot p = has_slot (sy_pool st)" "\<And>y. slot_at p y = slot_at (sy_pool st) y" "own_values t (sy_region st) c"
  shows "content_ok lockfree (moves t c p st)"
  using assms unfolding content_ok_def moves_simps by auto

text \<open>A step of the registry or the sweeper.\<close>

lemma fits_without_waker:
  "slot_fits l t c s \<Longrightarrow> slot_fits l t c (s\<lparr>sl_waker := None\<rparr>)"
  by (cases c) (auto simp: clean_def cleared_def holds_only_def)

lemma content_pool:
  assumes "content_ok lockfree st" "own_ok st"
    and "\<And>y. has_slot p y = has_slot (sy_pool st) y"
    and "\<And>y. has_slot (sy_pool st) y \<Longrightarrow> \<exists>w \<in> {None, sl_waker (slot_at (sy_pool st) y)}. slot_at p y = slot_at (sy_pool st) y\<lparr>sl_waker := w\<rparr>"
  shows "content_ok lockfree (st\<lparr>sy_pool := p\<rparr>)"
proof -
  have same: "slot_at p y = slot_at (sy_pool st) y \<or> slot_at p y = slot_at (sy_pool st) y\<lparr>sl_waker := None\<rparr>"
    if "has_slot (sy_pool st) y" for y using assms(4) [OF that] by auto
  have "clean (slot_at p y)" if "has_slot p y" "sl_idle (slot_at p y)" for y
    using same [of y] that assms(3) content_facts(1) [OF assms(1), of y] by (auto simp: clean_def)
  moreover have "slot_fits (lockfree t) t (sy_calls st t) (slot_at p y)" if "holder (sy_calls st t) = Some y" for t y
    using same [OF own_ok_facts(2) [OF assms(2) that]] content_facts(2) [OF assms(1) that] fits_without_waker by metis
  ultimately show ?thesis using content_facts(3) [OF assms(1)] by (simp add: content_ok_def)
qed

lemma content_registered:
  assumes "own_ok st" "content_ok lockfree st"
  shows "content_ok lockfree (st\<lparr>sy_starting := s, sy_pool := push_entry i k (sy_pool st)\<rparr>)"
proof -
  have "clean (slot_at (push_entry i k (sy_pool st)) x)"
    if "has_slot (push_entry i k (sy_pool st)) x" "sl_idle (slot_at (push_entry i k (sy_pool st)) x)" for x
    using that slot_at_push(2) [OF that(1)] slot_at_push(1) [of "sy_pool st" x i k] content_facts(1) [OF assms(2), of x]
    by (cases "has_slot (sy_pool st) x") (auto simp: clean_def slot_new_def)
  then show ?thesis
    using content_facts(2,3) [OF assms(2)] own_ok_facts(2) [OF assms(1)] by (simp add: content_ok_def slot_at_push(1))
qed

lemma content_won:
  assumes "own_ok st" "content_ok lockfree st" "sy_calls st t = Trying r (x # xs)" "cas_idle x (sy_pool st) = Some p"
  shows "content_ok lockfree (moves t (Won r x) p st)"
proof -
  have x: "has_slot (sy_pool st) x" using own_ok_facts(6) [OF assms(1), of t] assms(3) by simp
  have p: "sl_idle (slot_at (sy_pool st) x)" "p = set_slot x (sl_idle_update (\<lambda>_. False)) (sy_pool st)"
    using assms(4) by (auto simp: cas_idle_def split: if_splits)
  have c: "clean (slot_at p x)" using content_facts(1) [OF assms(2) x p(1)] x by (simp add: p(2) clean_def)
  show ?thesis unfolding content_ok_def moves_simps
  proof (intro conjI allI impI)
    fix y assume "has_slot p y \<and> sl_idle (slot_at p y)"
    then show "clean (slot_at p y)" using c x content_facts(1) [OF assms(2), of y] by (cases "y = x") (simp_all add: p(2))
  next
    fix u y assume h: "holder (((sy_calls st)(t := Won r x)) u) = Some y"
    show "slot_fits (lockfree u) u (((sy_calls st)(t := Won r x)) u) (slot_at p y)"
    proof (cases "u = t")
      case False
      then have k: "holder (sy_calls st u) = Some y" using h by simp
      then have "y \<noteq> x" using own_ok_facts(3) [OF assms(1) k] p(1) by blast
      then show ?thesis using False content_facts(2) [OF assms(2) k] by (simp add: p(2))
    qed (use h c in simp)
  next
    fix u show "own_values u (sy_region st) (((sy_calls st)(t := Won r x)) u)" using content_facts(3) [OF assms(2)] by simp
  qed
qed

lemma content_released:
  assumes "own_ok st" "content_ok lockfree st" "sy_calls st t = Dropping x 7 e"
  shows "content_ok lockfree (moves t (Notifying e) ((release_steps l x ! 7) (sy_pool st)) st)"
proof -
  let ?p = "(release_steps l x ! 7) (sy_pool st)"
  have h: "holder (sy_calls st t) = Some x" using assms(3) by simp
  note x = own_ok_facts(2) [OF assms(1) h]
  have p: "?p = set_slot x (sl_idle_update (\<lambda>_. True)) (sy_pool st)" by (simp add: release_steps_def)
  have c: "clean (slot_at ?p x)" using content_facts(2) [OF assms(2) h] assms(3) x by (simp add: p cleared_def clean_def)
  show ?thesis unfolding content_ok_def moves_simps
  proof (intro conjI allI impI)
    fix y assume "has_slot ?p y \<and> sl_idle (slot_at ?p y)"
    then show "clean (slot_at ?p y)" using c x content_facts(1) [OF assms(2), of y] by (cases "y = x") (simp_all add: p)
  next
    fix u y assume k: "holder (((sy_calls st)(t := Notifying e)) u) = Some y"
    then have u: "u \<noteq> t" "holder (sy_calls st u) = Some y" by (auto split: if_splits)
    then have "y \<noteq> x" using own_ok_facts(4) [OF assms(1) h] by blast
    then show "slot_fits (lockfree u) u (((sy_calls st)(t := Notifying e)) u) (slot_at ?p y)"
      using u content_facts(2) [OF assms(2) u(2)] by (simp add: p)
  next
    fix u show "own_values u (sy_region st) (((sy_calls st)(t := Notifying e)) u)"
      using content_facts(3) [OF assms(2), of t] content_facts(3) [OF assms(2), of u] assms(3) by simp
  qed
qed

lemma content_release:
  assumes "own_ok st" "content_ok lockfree st" "sy_calls st t = Dropping x k e" "k < 7"
  shows "content_ok lockfree (moves t (Dropping x (k + 1) e) ((release_steps (lockfree t) x ! k) (sy_pool st)) st)"
proof (rule content_slot [OF assms(1,2), where x = x])
  let ?p = "(release_steps (lockfree t) x ! k) (sy_pool st)"
  show h: "holder (sy_calls st t) = Some x" using assms(3) by simp
  note x = own_ok_facts(2) [OF assms(1) h] own_ok_facts(3) [OF assms(1) h]
  have f: "holds_only (lockfree t) t (slot_at (sy_pool st) x)" "cleared k (slot_at (sy_pool st) x)"
    using content_facts(2) [OF assms(2) h] assms(3) by simp_all
  have k: "k \<in> {0, 1, 2, 3, 4, 5, 6}" using assms(4) by auto
  show "has_slot ?p = has_slot (sy_pool st)" using k by (auto simp: release_steps_def)
  show "\<And>y. y \<noteq> x \<Longrightarrow> slot_at ?p y = slot_at (sy_pool st) y" using k by (auto simp: release_steps_def)
  show "\<not> sl_idle (slot_at ?p x)" using k x by (auto simp: release_steps_def)
  show "slot_fits (lockfree t) t (Dropping x (k + 1) e) (slot_at ?p x)"
    using k by (elim insertE emptyE; simp only:) (use f x(1) in \<open>auto simp: release_steps_def cleared_def holds_only_def\<close>)
  show "own_values t (sy_region st) (Dropping x (k + 1) e)" using content_facts(3) [OF assms(2), of t] assms(3) by simp
qed simp

lemma content_writes:
  assumes "own_ok st" "content_ok lockfree st" "sy_calls st t = Calling x"
  shows "content_ok lockfree (st\<lparr>sy_region := (sy_region st)(x := (t, bytes))\<rparr>)"
proof -
  have h: "holder (sy_calls st t) = Some x" using assms(3) by simp
  have "own_values u ((sy_region st)(x := (t, bytes))) (sy_calls st u)" for u
  proof (cases "\<exists>y n. sy_calls st u = Settled y (Inr n)")
    case True
    then obtain y n where s: "sy_calls st u = Settled y (Inr n)" by blast
    then have "y \<noteq> x" using own_ok_facts(4) [OF assms(1) h, of u] assms(3) by auto
    then show ?thesis using s content_facts(3) [OF assms(2), of u] by simp
  next
    case False
    then show ?thesis using content_facts(3) [OF assms(2), of u] by (cases "sy_calls st u") (auto split: sum.splits)
  qed
  then show ?thesis using assms(2) by (simp add: content_ok_def)
qed

lemma content_set:
  assumes "own_ok st" "content_ok lockfree st" "holder (sy_calls st t) = Some x" "holder c = Some x" "\<And>s. sl_idle (f s) = sl_idle s"
    and "slot_fits (lockfree t) t c (f (slot_at (sy_pool st) x))" "own_values t (sy_region st) c"
  shows "content_ok lockfree (moves t c (set_slot x f (sy_pool st)) st)"
  by (rule content_slot [OF assms(1-4)])
    (use assms(5-7) own_ok_facts(2,3) [OF assms(1,3)] in \<open>auto simp: fun_eq_iff\<close>)

lemma content_keep:
  assumes "own_ok st" "content_ok lockfree st" "holder (sy_calls st t) = Some x" "holder c = Some x"
    and "has_slot p = has_slot (sy_pool st)" "\<And>y. slot_at p y = slot_at (sy_pool st) y"
    and "slot_fits (lockfree t) t c (slot_at (sy_pool st) x)" "own_values t (sy_region st) c"
  shows "content_ok lockfree (moves t c p st)"
  by (rule content_slot [OF assms(1-4)]) (use assms(5-8) own_ok_facts(3) [OF assms(1,3)] in auto)

lemma owned:
  assumes "content_ok lockfree st" "holder (sy_calls st t) = Some x"
  shows "holds_only (lockfree t) t (slot_at (sy_pool st) x)"
  using content_facts(2) [OF assms] assms(2) by (cases "sy_calls st t") (auto simp: clean_def holds_only_def)

lemma own_end_of:
  assumes "content_ok lockfree st"
  shows "own_values t (sy_region st) (sy_calls st t)"
  using content_facts(3) [OF assms] .

lemma content_step:
  assumes "sys_step nt lockfree cap st st'" "own_ok st" "content_ok lockfree st"
  shows "content_ok lockfree st'"
  using assms(1)
proof cases
  case (test_won t r x xs p)
  then show ?thesis using content_won [OF assms(2,3)] by simp
next
  case (released t x e)
  then show ?thesis using content_released [OF assms(2,3)] by simp
next
  case (release t x k e)
  then show ?thesis using content_release [OF assms(2,3)] by simp
next
  case (registered before i k after)
  then show ?thesis using content_registered [OF assms(2,3)] by simp
next
  case (worker_writes t x bytes)
  then show ?thesis using content_writes [OF assms(2,3)] by simp
next
  case (claim t r x)
  have h: "holder (sy_calls st t) = Some x" using claim by simp
  have f: "clean (slot_at (sy_pool st) x)" using content_facts(2) [OF assms(3) h] claim by simp
  note x = own_ok_facts(2,3) [OF assms(2) h]
  show ?thesis unfolding claim
    by (rule content_slot [OF assms(2,3) h])
      (use f x in \<open>auto simp: claim_won_def Let_def holds_only_def clean_def fun_eq_iff\<close>)
next
  case (claimed t r x)
  have h: "holder (sy_calls st t) = Some x" using claimed by simp
  show ?thesis unfolding claimed
    by (rule content_keep [OF assms(2,3) h]) (use owned [OF assms(3) h] in \<open>auto simp: renotify_def fun_eq_iff\<close>)
next
  case (put_plan t x seed)
  have h: "holder (sy_calls st t) = Some x" using put_plan by simp
  show ?thesis unfolding put_plan
    by (rule content_set [OF assms(2,3) h]) (use owned [OF assms(3) h] in \<open>auto simp: holds_only_def\<close>)
next
  case (no_plan t x)
  have h: "holder (sy_calls st t) = Some x" using no_plan by simp
  show ?thesis unfolding no_plan by (rule content_keep [OF assms(2,3) h]) (use owned [OF assms(3) h] in auto)
next
  case (unserialised t x m)
  have h: "holder (sy_calls st t) = Some x" using unserialised by simp
  show ?thesis unfolding unserialised
    by (rule content_keep [OF assms(2,3) h]) (use owned [OF assms(3) h] in \<open>auto simp: cleared_def\<close>)
next
  case (arm t x at_ns)
  have h: "holder (sy_calls st t) = Some x" using arm by simp
  show ?thesis unfolding arm arm_deadline_def
    by (rule content_set [OF assms(2,3) h]) (use owned [OF assms(3) h] in \<open>auto simp: holds_only_def\<close>)
next
  case (start t x)
  have h: "holder (sy_calls st t) = Some x" using start by simp
  show ?thesis unfolding start by (rule content_keep [OF assms(2,3) h]) (use owned [OF assms(3) h] in auto)
next
  case (settle t x n)
  have h: "holder (sy_calls st t) = Some x" using settle by simp
  show ?thesis unfolding settle
    by (rule content_keep [OF assms(2,3) h]) (use owned [OF assms(3) h] settle(3) in auto)
next
  case (settle_error t x d)
  have h: "holder (sy_calls st t) = Some x" using settle_error by simp
  show ?thesis unfolding settle_error by (rule content_keep [OF assms(2,3) h]) (use owned [OF assms(3) h] in auto)
next
  case (enqueue_failed t x m)
  have h: "holder (sy_calls st t) = Some x" using enqueue_failed by simp
  show ?thesis unfolding enqueue_failed remove_entry_def
    by (rule content_keep [OF assms(2,3) h]) (use owned [OF assms(3) h] in \<open>auto simp: cleared_def fun_eq_iff\<close>)
next
  case (rejected t x m)
  have h: "holder (sy_calls st t) = Some x" using rejected by simp
  show ?thesis unfolding rejected
    by (rule content_keep [OF assms(2,3) h]) (use owned [OF assms(3) h] in \<open>auto simp: cleared_def\<close>)
next
  case (bad_length t x n m)
  have h: "holder (sy_calls st t) = Some x" using bad_length by simp
  show ?thesis unfolding bad_length
    by (rule content_keep [OF assms(2,3) h]) (use owned [OF assms(3) h] in \<open>auto simp: cleared_def\<close>)
next
  case (decode t x n)
  have h: "holder (sy_calls st t) = Some x" using decode by simp
  have "fst (sy_region st x) = t" using own_end_of [OF assms(3), of t] decode by simp
  then show ?thesis unfolding decode
    by (intro content_keep [OF assms(2,3) h]) (use owned [OF assms(3) h] in auto)
next
  case (decode_heap t x n)
  have h: "holder (sy_calls st t) = Some x" using decode_heap by simp
  have "fst (sy_region st x) = t" using own_end_of [OF assms(3), of t] decode_heap by simp
  then show ?thesis unfolding decode_heap
    by (intro content_set [OF assms(2,3) h]) (use owned [OF assms(3) h] in \<open>auto simp: holds_only_def\<close>)
next
  case (undecoded t x r m)
  have h: "holder (sy_calls st t) = Some x" using undecoded by simp
  show ?thesis unfolding undecoded
    by (rule content_keep [OF assms(2,3) h]) (use owned [OF assms(3) h] in \<open>auto simp: cleared_def\<close>)
next
  case (take_plan t x b hp parsed m)
  have h: "holder (sy_calls st t) = Some x" using take_plan by simp
  have "fst b = t \<and> (\<forall>v \<in> set_option hp. fst v = t)" using own_end_of [OF assms(3), of t] take_plan by simp
  then show ?thesis unfolding take_plan
    by (intro content_set [OF assms(2,3) h]) (use owned [OF assms(3) h] in \<open>auto simp: holds_only_def cleared_def\<close>)
next
  case (park t x)
  have h: "holder (sy_calls st t) = Some x" using park by simp
  show ?thesis unfolding park stays [of _ st t] park_deadline_waker_def
    by (rule content_set [OF assms(2,3) h]) (use owned [OF assms(3) h] park in \<open>auto simp: holds_only_def\<close>)
next
  case (rearm t x at_ns)
  have h: "holder (sy_calls st t) = Some x" using rearm by simp
  show ?thesis unfolding rearm stays [of _ st t] arm_deadline_def
    by (rule content_set [OF assms(2,3) h]) (use owned [OF assms(3) h] rearm in \<open>auto simp: holds_only_def\<close>)
next
  case (worker_plans t x v)
  have h: "holder (sy_calls st t) = Some x" using worker_plans by simp
  show ?thesis unfolding worker_plans stays [of _ st t]
    by (rule content_set [OF assms(2,3) h]) (use owned [OF assms(3) h] worker_plans in \<open>auto simp: holds_only_def\<close>)
next
  case (worker_stamps t x now)
  have h: "holder (sy_calls st t) = Some x" using worker_stamps by simp
  have "claimed_slot (sy_pool st) x" using own_ok_facts(2,3) [OF assms(2) h] by (simp add: claimed_slot_def has_slot_def)
  then show ?thesis unfolding worker_stamps stays [of _ st t] stamp_jobs_phase_def
    by (simp, intro content_set [OF assms(2,3) h]) (use owned [OF assms(3) h] worker_stamps own_end_of [OF assms(3), of t] in \<open>auto simp: holds_only_def\<close>)
next
  case (worker_replies t x bytes)
  have h: "holder (sy_calls st t) = Some x" using worker_replies by simp
  show ?thesis unfolding worker_replies stays [of _ st t]
    by (rule content_set [OF assms(2,3) h]) (use owned [OF assms(3) h] worker_replies in \<open>auto simp: holds_only_def\<close>)
next
  case (gone t x)
  then show ?thesis using assms(3) by (simp add: content_ok_def)
next
  case (sweep x now)
  show ?thesis unfolding sweep(1)
    using sweep_slot_keeps [OF sweep(2), of now]
    by (intro content_pool [OF assms(3,2)]) (auto simp: same_but_wakers_def same_shape_def)
next
  case (registering k)
  have "content_ok lockfree (st\<lparr>sy_pool := snd (fetch_id (sy_pool st))\<rparr>)" by (rule content_pool [OF assms(3,2)]) auto
  then show ?thesis unfolding registering by (simp add: content_ok_def)
next
  case (removed i)
  show ?thesis unfolding removed remove_entry_def by (rule content_pool [OF assms(3,2)]) auto
next
  case cleared
  show ?thesis unfolding cleared clear_pool_def by (rule content_pool [OF assms(3,2)]) auto
next
  case (notify t e)
  then show ?thesis using own_end_of [OF assms(3), of t]
    by (auto simp: renotify_def fun_eq_iff intro!: content_outside [OF assms(3)])
next
  case (leave t e)
  then show ?thesis using own_end_of [OF assms(3), of t]
    by (auto simp: renotify_def fun_eq_iff intro!: content_outside [OF assms(3)])
qed (auto simp: renotify_def fun_eq_iff intro!: content_outside [OF assms(3)])


section \<open>Counts\<close>

text \<open>The worker that counts a call as in flight.\<close>

fun counted :: "'p call_state \<Rightarrow> nat option" where
  "counted (Won r x) = None"
| "counted (Dropping x k e) = (if k \<le> 6 then Some (fst x) else None)"
| "counted c = map_option fst (holder c)"

definition count_ok :: "('p, 'n) system \<Rightarrow> bool" where
  "count_ok st \<longleftrightarrow> finite {t. sy_calls st t \<noteq> Fresh} \<and>
     (\<forall>e < length (wp_workers (sy_pool st)). in_flight (sy_pool st) e = card {t. counted (sy_calls st t) = Some e})"

lemma card_moves:
  assumes "finite {u. P (f u)}"
  shows "card {u. P ((f(t := c)) u)} + (if P (f t) then 1 else 0) = card {u. P (f u)} + (if P c then 1 else 0)"
proof -
  define A where "A = {u. P (f u)} - {t}"
  have A: "finite A" "t \<notin> A" using assms by (auto simp: A_def)
  have "{u. P ((f(t := c)) u)} = (if P c then insert t A else A)" "{u. P (f u)} = (if P (f t) then insert t A else A)"
    by (auto simp: A_def)
  then have "card {u. P ((f(t := c)) u)} = card A + (if P c then 1 else 0)" "card {u. P (f u)} = card A + (if P (f t) then 1 else 0)"
    using A by simp_all
  then show ?thesis by simp
qed

lemma finite_calls:
  assumes "count_ok st" "\<not> P Fresh" shows "finite {u. P (sy_calls st u)}"
  by (rule finite_subset [of _ "{t. sy_calls st t \<noteq> Fresh}"]) (use assms in \<open>auto simp: count_ok_def\<close>)

lemma count_moves:
  assumes "count_ok st" "length (wp_workers p) = length (wp_workers (sy_pool st))"
    and "\<And>e. e < length (wp_workers p) \<Longrightarrow> in_flight p e + (if counted (sy_calls st t) = Some e then 1 else 0) =
      in_flight (sy_pool st) e + (if counted c = Some e then 1 else 0)"
  shows "count_ok (moves t c p st)"
proof -
  have "{u. ((sy_calls st)(t := c)) u \<noteq> Fresh} \<subseteq> insert t {u. sy_calls st u \<noteq> Fresh}" by auto
  then have "finite {u. ((sy_calls st)(t := c)) u \<noteq> Fresh}" by (rule finite_subset) (use assms(1) in \<open>simp add: count_ok_def\<close>)
  moreover have "in_flight p e = card {u. counted (((sy_calls st)(t := c)) u) = Some e}" if "e < length (wp_workers p)" for e
  proof -
    have "finite {u. counted (sy_calls st u) = Some e}" by (rule finite_calls [OF assms(1)]) simp
    note this [THEN card_moves [where P = "\<lambda>d. counted d = Some e"], of t c]
    moreover have "in_flight (sy_pool st) e = card {u. counted (sy_calls st u) = Some e}"
      using assms(1,2) that by (simp add: count_ok_def)
    ultimately show ?thesis using assms(3) [OF that] by linarith
  qed
  ultimately show ?thesis by (simp add: count_ok_def)
qed

lemma claim_won_simps [simp]:
  "length (wp_workers (claim_won l t x p)) = length (wp_workers p)"
  "pool_slots (claim_won l t x p) = pool_slots p"
  "wp_notify (claim_won l t x p) = wp_notify p"
  by (auto simp: claim_won_def Let_def)

lemma renotify_simps [simp]:
  "wp_workers (renotify f p) = wp_workers p" "wp_entries (renotify f p) = wp_entries p"
  "wp_notify (renotify f p) = f (wp_notify p)" "pool_slots (renotify f p) = pool_slots p"
  "slot_at (renotify f p) x = slot_at p x" "in_flight (renotify f p) e = in_flight p e"
  by (simp_all add: renotify_def)

lemma write_simps [simp]:
  "length (wp_workers (arm_deadline x a p)) = length (wp_workers p)" "in_flight (arm_deadline x a p) e = in_flight p e"
  "pool_slots (arm_deadline x a p) = pool_slots p" "wp_notify (arm_deadline x a p) = wp_notify p"
  "length (wp_workers (park_deadline_waker x t p)) = length (wp_workers p)" "in_flight (park_deadline_waker x t p) e = in_flight p e"
  "pool_slots (park_deadline_waker x t p) = pool_slots p" "wp_notify (park_deadline_waker x t p) = wp_notify p"
  "length (wp_workers (stamp_jobs_phase now x p)) = length (wp_workers p)" "in_flight (stamp_jobs_phase now x p) e = in_flight p e"
  "pool_slots (stamp_jobs_phase now x p) = pool_slots p" "wp_notify (stamp_jobs_phase now x p) = wp_notify p"
  "length (wp_workers (remove_entry i p)) = length (wp_workers p)" "in_flight (remove_entry i p) e = in_flight p e"
  "wp_notify (remove_entry i p) = wp_notify p"
  "length (wp_workers (clear_pool p)) = length (wp_workers p)" "in_flight (clear_pool p) e = in_flight p e"
  "wp_notify (clear_pool p) = wp_notify p"
  by (simp_all add: arm_deadline_def park_deadline_waker_def stamp_jobs_phase_def remove_entry_def clear_pool_def)

lemma pool_slots_clear [simp]: "pool_slots (clear_pool p) = []"
  by (simp add: pool_slots_def clear_pool_def)

lemma in_flight_claim_won:
  "fst x < length (wp_workers p) \<Longrightarrow> in_flight (claim_won l t x p) e = in_flight p e + (if e = fst x then 1 else 0)"
  by (auto simp: claim_won_def Let_def in_flight_set_worker)

lemma sweep_simps [simp]:
  "length (wp_workers (snd (sweep_slot now x p))) = length (wp_workers p)"
  "in_flight (snd (sweep_slot now x p)) e = in_flight p e"
  "wp_notify (snd (sweep_slot now x p)) = wp_notify p"
  "wp_entries (snd (sweep_slot now x p)) = wp_entries p"
  "pool_slots (snd (sweep_slot now x p)) = pool_slots p"
  by (simp_all add: sweep_slot_def)

lemma release_simps:
  assumes "k \<le> 7"
  shows "length (wp_workers ((release_steps l x ! k) p)) = length (wp_workers p)"
    and "pool_slots ((release_steps l x ! k) p) = pool_slots p"
    and "wp_notify ((release_steps l x ! k) p) = wp_notify p"
    and "fst x < length (wp_workers p) \<Longrightarrow>
      in_flight ((release_steps l x ! k) p) e = (if k = 6 \<and> e = fst x then in_flight p e - 1 else in_flight p e)"
proof -
  have "k \<in> {0, 1, 2, 3, 4, 5, 6, 7}" using assms by auto
  then show "length (wp_workers ((release_steps l x ! k) p)) = length (wp_workers p)"
    "pool_slots ((release_steps l x ! k) p) = pool_slots p" "wp_notify ((release_steps l x ! k) p) = wp_notify p"
    "fst x < length (wp_workers p) \<Longrightarrow>
      in_flight ((release_steps l x ! k) p) e = (if k = 6 \<and> e = fst x then in_flight p e - 1 else in_flight p e)"
    by (auto simp: release_steps_def in_flight_set_worker)
qed

lemma count_pool:
  assumes "count_ok st" "length (wp_workers p) = length (wp_workers (sy_pool st))" "\<And>e. in_flight p e = in_flight (sy_pool st) e"
  shows "count_ok (st\<lparr>sy_pool := p\<rparr>)"
  using assms by (simp add: count_ok_def)

lemma holder_worker: "own_ok st \<Longrightarrow> holder (sy_calls st t) = Some x \<Longrightarrow> fst x < length (wp_workers (sy_pool st))"
  using own_ok_facts(2) [of st t x] by (simp add: has_slot_def)

lemma counted_holder: "counted c = Some e \<Longrightarrow> \<exists>x. holder c = Some x \<and> fst x = e"
  by (cases c) (auto split: if_splits)

lemma count_registered:
  assumes "own_ok st" "count_ok st"
  shows "count_ok (st\<lparr>sy_starting := s, sy_pool := push_entry i k (sy_pool st)\<rparr>)"
proof -
  let ?n = "length (wp_workers (sy_pool st))"
  have "counted (sy_calls st t) \<noteq> Some ?n" for t
    using holder_worker [OF assms(1), of t] counted_holder [of "sy_calls st t"] by fastforce
  then have "{t. counted (sy_calls st t) = Some ?n} = {}" by blast
  then show ?thesis using assms(2) by (auto simp: count_ok_def less_Suc_eq)
qed

lemma count_step:
  assumes "sys_step nt lockfree cap st st'" "own_ok st" "count_ok st"
  shows "count_ok st'"
  using assms(1)
proof cases
  case (test_won t r x xs p)
  have "length (wp_workers p) = length (wp_workers (sy_pool st))" "in_flight p e = in_flight (sy_pool st) e" for e
    using test_won(3) by (auto simp: cas_idle_def split: if_splits)
  then show ?thesis using test_won by (auto intro!: count_moves [OF assms(3)])
next
  case (claim t r x)
  have "fst x < length (wp_workers (sy_pool st))" using holder_worker [OF assms(2), of t] claim by simp
  then show ?thesis using claim by (auto simp: in_flight_claim_won intro!: count_moves [OF assms(3)])
next
  case (release t x k e)
  have x: "fst x < length (wp_workers (sy_pool st))" using holder_worker [OF assms(2), of t] release by simp
  have "0 < in_flight (sy_pool st) (fst x)" if "k = 6"
  proof -
    have "t \<in> {u. counted (sy_calls st u) = Some (fst x)}" using release that by simp
    then have "0 < card {u. counted (sy_calls st u) = Some (fst x)}"
      using finite_calls [OF assms(3), of "\<lambda>d. counted d = Some (fst x)"] by (metis card_gt_0_iff counted_holder empty_iff holder.simps(10) option.discI)
    then show ?thesis using assms(3) x by (simp add: count_ok_def)
  qed
  then show ?thesis unfolding release
    using x release by (intro count_moves [OF assms(3)]) (auto simp: release_simps)
next
  case (released t x e)
  have "fst x < length (wp_workers (sy_pool st))" using holder_worker [OF assms(2), of t] released by simp
  then show ?thesis unfolding released using released by (intro count_moves [OF assms(3)]) (auto simp: release_simps)
next
  case (registered before i k after)
  then show ?thesis using count_registered [OF assms(2,3)] by simp
next
  case (registering k)
  then show ?thesis using assms(3) by (simp add: count_ok_def)
next
  case (gone t x)
  then show ?thesis using assms(3) by (simp add: count_ok_def)
next
  case (worker_writes t x bytes)
  then show ?thesis using assms(3) by (simp add: count_ok_def)
next
  case (sweep x now)
  then show ?thesis by (auto intro!: count_pool [OF assms(3)])
qed (auto intro!: count_moves [OF assms(3)] count_pool [OF assms(3)])

text \<open>A worker never counts more calls than it has slots.\<close>

lemma in_flight_bound:
  assumes "own_ok st" "count_ok st" "e < length (wp_workers (sy_pool st))"
  shows "in_flight (sy_pool st) e \<le> length (we_slots (worker_at (sy_pool st) e))"
proof -
  let ?A = "{t. counted (sy_calls st t) = Some e}"
  have held: "\<exists>s. holder (sy_calls st t) = Some (e, s) \<and> s < length (we_slots (worker_at (sy_pool st) e))" if a: "t \<in> ?A" for t
  proof -
    obtain x where x: "holder (sy_calls st t) = Some x" "fst x = e" using counted_holder [of "sy_calls st t" e] a by blast
    then show ?thesis using own_ok_facts(2) [OF assms(1) x(1)] by (cases x) (auto simp: has_slot_def)
  qed
  have "inj_on (\<lambda>t. snd (the (holder (sy_calls st t)))) ?A"
  proof (rule inj_onI)
    fix t u assume a: "t \<in> ?A" "u \<in> ?A" "snd (the (holder (sy_calls st t))) = snd (the (holder (sy_calls st u)))"
    obtain s where s: "holder (sy_calls st t) = Some (e, s)" using held [OF a(1)] by blast
    moreover have "holder (sy_calls st u) = Some (e, s)" using held [OF a(2)] s a(3) by auto
    ultimately show "t = u" using own_ok_facts(4) [OF assms(1)] by blast
  qed
  moreover have "(\<lambda>t. snd (the (holder (sy_calls st t)))) ` ?A \<subseteq> {..<length (we_slots (worker_at (sy_pool st) e))}"
    using held by fastforce
  ultimately have "card ?A \<le> card {..<length (we_slots (worker_at (sy_pool st) e))}" by (intro card_inj_on_le) auto
  then show ?thesis using assms(2,3) by (simp add: count_ok_def)
qed

section \<open>Wake-ups\<close>

text \<open>
  The free slots before \<open>k\<close>, and the calls that will look at them: one about to notify, one that starts a claim, and a
  registered claim that has not passed \<open>k\<close>. \<open>limit\<close> is how far a registered claim has looked.
\<close>

definition idle_below :: "('p, 'b, 'n) worker_pool \<Rightarrow> nat \<times> nat \<Rightarrow> (nat \<times> nat) set" where
  "idle_below p k = {x \<in> set (pool_slots p). sl_idle (slot_at p x) \<and> x < k}"

fun looks :: "nat \<times> nat \<Rightarrow> 'p call_state \<Rightarrow> bool" where
  "looks k (Notifying e) \<longleftrightarrow> True"
| "looks k Looping \<longleftrightarrow> True"
| "looks k Enabled \<longleftrightarrow> True"
| "looks k (Trying r xs) \<longleftrightarrow> r \<and> xs \<noteq> [] \<and> hd xs < k"
| "looks k _ \<longleftrightarrow> False"

fun limit :: "('p, 'b, 'n) worker_pool \<Rightarrow> 'q call_state \<Rightarrow> (nat \<times> nat) option" where
  "limit p (Trying r xs) = (if r then Some (if xs = [] then (length (wp_workers p), 0) else hd xs) else None)"
| "limit p (Waiting n) = Some (n, 0)"
| "limit p _ = None"

fun enrolled :: "'p call_state \<Rightarrow> bool" where
  "enrolled Enabled \<longleftrightarrow> True"
| "enrolled (Trying r xs) \<longleftrightarrow> r"
| "enrolled (Won r x) \<longleftrightarrow> r"
| "enrolled (Got r x) \<longleftrightarrow> r"
| "enrolled (Waiting n) \<longleftrightarrow> True"
| "enrolled (Leaving e) \<longleftrightarrow> True"
| "enrolled _ \<longleftrightarrow> False"

abbreviation waits :: "'n notify \<Rightarrow> ('p, 'n) system \<Rightarrow> nat set" where
  "waits nt st \<equiv> nt_waiting nt (wp_notify (sy_pool st))"

abbreviation told :: "'n notify \<Rightarrow> ('p, 'n) system \<Rightarrow> nat set" where
  "told nt st \<equiv> nt_notified nt (wp_notify (sy_pool st))"

definition lookers :: "('p, 'n) system \<Rightarrow> nat \<times> nat \<Rightarrow> nat set" where
  "lookers st k = {u. looks k (sy_calls st u)}"

fun scan_fits :: "('p, 'b, 'n) worker_pool \<Rightarrow> 'q call_state \<Rightarrow> bool" where
  "scan_fits p (Trying r xs) \<longleftrightarrow> (\<exists>ys. pool_slots p = ys @ xs)"
| "scan_fits p (Waiting n) \<longleftrightarrow> n \<le> length (wp_workers p)"
| "scan_fits p _ \<longleftrightarrow> True"

definition wake_shape :: "'n notify \<Rightarrow> ('p, 'n) system \<Rightarrow> bool" where
  "wake_shape nt st \<longleftrightarrow> waits nt st \<union> told nt st \<subseteq> {t. enrolled (sy_calls st t)} \<and> waits nt st \<inter> told nt st = {} \<and>
     (\<forall>t. scan_fits (sy_pool st) (sy_calls st t))"

text \<open>
  The invariant: as long as a call waits, the free slots it has looked at are no more than the calls that were told of
  one or will look.
\<close>

definition wake_bound :: "'n notify \<Rightarrow> ('p, 'n) system \<Rightarrow> bool" where
  "wake_bound nt st \<longleftrightarrow> (\<forall>t \<in> waits nt st. \<forall>l. limit (sy_pool st) (sy_calls st t) = Some l \<longrightarrow>
     (\<forall>k \<le> l. card (idle_below (sy_pool st) k) \<le> card (told nt st) + card (lookers st k)))"

lemma wake_boundD:
  "wake_bound nt st \<Longrightarrow> t \<in> waits nt st \<Longrightarrow> limit (sy_pool st) (sy_calls st t) = Some l \<Longrightarrow> k \<le> l \<Longrightarrow>
   card (idle_below (sy_pool st) k) \<le> card (told nt st) + card (lookers st k)"
  by (simp add: wake_bound_def)

lemma notifies_one_facts:
  assumes "notifies_one nt n n'"
  shows "nt_waiting nt n' \<subseteq> nt_waiting nt n"
    and "nt_notified nt n' \<subseteq> nt_notified nt n \<union> nt_waiting nt n"
    and "nt_waiting nt n \<inter> nt_notified nt n = {} \<Longrightarrow> nt_waiting nt n' \<inter> nt_notified nt n' = {}"
    and "nt_waiting nt n \<inter> nt_notified nt n = {} \<Longrightarrow> finite (nt_notified nt n) \<Longrightarrow> nt_waiting nt n' \<noteq> {} \<Longrightarrow>
      card (nt_notified nt n') = card (nt_notified nt n) + 1"
proof -
  show "nt_waiting nt n' \<subseteq> nt_waiting nt n" "nt_notified nt n' \<subseteq> nt_notified nt n \<union> nt_waiting nt n"
    using assms by (auto simp: notifies_one_def split: if_splits)
  show "nt_waiting nt n \<inter> nt_notified nt n = {} \<Longrightarrow> nt_waiting nt n' \<inter> nt_notified nt n' = {}"
    using assms by (auto simp: notifies_one_def split: if_splits)
  assume a: "nt_waiting nt n \<inter> nt_notified nt n = {}" "finite (nt_notified nt n)" "nt_waiting nt n' \<noteq> {}"
  then obtain t where "t \<in> nt_waiting nt n" "nt_notified nt n' = insert t (nt_notified nt n)"
    using assms by (auto simp: notifies_one_def split: if_splits)
  then show "card (nt_notified nt n') = card (nt_notified nt n) + 1" using a by (simp add: disjoint_iff)
qed

lemma laws:
  assumes "notify_laws nt"
  shows "nt_waiting nt (nt_new nt) = {}" "nt_notified nt (nt_new nt) = {}"
    and "nt_notified nt (nt_enable nt t n) = nt_notified nt n"
    and "nt_waiting nt (nt_enable nt t n) \<subseteq> insert t (nt_waiting nt n)"
    and "notifies_one nt n (nt_notify_one nt n)"
    and "nt_waiting nt (nt_finish nt t n) = nt_waiting nt n - {t}" "nt_notified nt (nt_finish nt t n) = nt_notified nt n - {t}"
    and "t \<in> nt_notified nt n \<Longrightarrow> notifies_one nt (nt_finish nt t n) (nt_drop nt t n)"
    and "t \<notin> nt_notified nt n \<Longrightarrow> nt_waiting nt (nt_drop nt t n) = nt_waiting nt n - {t} \<and> nt_notified nt (nt_drop nt t n) = nt_notified nt n"
proof -
  note a = assms [unfolded notify_laws_def]
  note r1 = conjunct2 [OF a]
  note r2 = conjunct2 [OF r1]
  note r3 = conjunct2 [OF r2]
  note r4 = conjunct2 [OF r3]
  note r5 = conjunct2 [OF r4]
  show "nt_waiting nt (nt_new nt) = {}" by (rule conjunct1 [OF a])
  show "nt_notified nt (nt_new nt) = {}" by (rule conjunct1 [OF r1])
  note enable = conjunct1 [OF r2, THEN spec, THEN spec, of t n]
  show "nt_notified nt (nt_enable nt t n) = nt_notified nt n" by (rule conjunct1 [OF enable])
  show "nt_waiting nt (nt_enable nt t n) \<subseteq> insert t (nt_waiting nt n)" using conjunct2 [OF enable] by blast
  show "notifies_one nt n (nt_notify_one nt n)" by (rule conjunct1 [OF r3, THEN spec])
  note finish = conjunct1 [OF r4, THEN spec, THEN spec, of t n]
  show "nt_waiting nt (nt_finish nt t n) = nt_waiting nt n - {t}" by (rule conjunct1 [OF finish])
  show "nt_notified nt (nt_finish nt t n) = nt_notified nt n - {t}" by (rule conjunct2 [OF finish])
  note drop = r5 [THEN spec, THEN spec, of t n]
  show "t \<in> nt_notified nt n \<Longrightarrow> notifies_one nt (nt_finish nt t n) (nt_drop nt t n)" using drop by (simp only: if_True)
  show "t \<notin> nt_notified nt n \<Longrightarrow> nt_waiting nt (nt_drop nt t n) = nt_waiting nt n - {t} \<and> nt_notified nt (nt_drop nt t n) = nt_notified nt n"
    using drop by (simp only: if_False)
qed

lemma drop_facts:
  assumes "notify_laws nt" "nt_waiting nt n \<inter> nt_notified nt n = {}"
  shows "nt_waiting nt (nt_drop nt t n) \<subseteq> nt_waiting nt n - {t}"
    and "nt_notified nt (nt_drop nt t n) \<subseteq> (nt_notified nt n \<union> nt_waiting nt n) - {t}"
    and "nt_waiting nt (nt_drop nt t n) \<inter> nt_notified nt (nt_drop nt t n) = {}"
    and "finite (nt_notified nt n) \<Longrightarrow> nt_waiting nt (nt_drop nt t n) \<noteq> {} \<Longrightarrow>
      card (nt_notified nt n) \<le> card (nt_notified nt (nt_drop nt t n))"
proof -
  let ?m = "nt_finish nt t n" and ?d = "nt_drop nt t n"
  note m = laws(6,7) [OF assms(1), of t n]
  have c: "nt_waiting nt ?d \<subseteq> nt_waiting nt n - {t} \<and> nt_notified nt ?d \<subseteq> (nt_notified nt n \<union> nt_waiting nt n) - {t} \<and>
    nt_waiting nt ?d \<inter> nt_notified nt ?d = {} \<and>
    (finite (nt_notified nt n) \<longrightarrow> nt_waiting nt ?d \<noteq> {} \<longrightarrow> card (nt_notified nt n) \<le> card (nt_notified nt ?d))"
  proof (cases "t \<in> nt_notified nt n")
    case True
    note one = notifies_one_facts [OF laws(8) [OF assms(1) True]]
    have disjoint: "nt_waiting nt ?m \<inter> nt_notified nt ?m = {}" using assms(2) m by blast
    have same: "card (nt_notified nt ?d) = card (nt_notified nt n)" if a: "finite (nt_notified nt n)" "nt_waiting nt ?d \<noteq> {}"
    proof -
      have "finite (nt_notified nt ?m)" using a(1) by (simp only: m(2) finite_Diff)
      from one(4) [OF disjoint this a(2)] show ?thesis using card_Suc_Diff1 [OF a(1) True] by (simp only: m(2) Suc_eq_plus1)
    qed
    show ?thesis
    proof (intro conjI impI)
      show "nt_waiting nt ?d \<subseteq> nt_waiting nt n - {t}" using one(1) m(1) by blast
      show "nt_notified nt ?d \<subseteq> (nt_notified nt n \<union> nt_waiting nt n) - {t}" using one(2) m by blast
      show "nt_waiting nt ?d \<inter> nt_notified nt ?d = {}" by (rule one(3) [OF disjoint])
    qed (simp add: same)
  next
    case False
    note d = laws(9) [OF assms(1) False]
    show ?thesis using assms(2) False by (simp only: d) blast
  qed
  show "nt_waiting nt ?d \<subseteq> nt_waiting nt n - {t}" by (rule conjunct1 [OF c])
  show "nt_notified nt ?d \<subseteq> (nt_notified nt n \<union> nt_waiting nt n) - {t}" by (rule c [THEN conjunct2, THEN conjunct1])
  show "nt_waiting nt ?d \<inter> nt_notified nt ?d = {}" by (rule c [THEN conjunct2, THEN conjunct2, THEN conjunct1])
  show "finite (nt_notified nt n) \<Longrightarrow> nt_waiting nt ?d \<noteq> {} \<Longrightarrow> card (nt_notified nt n) \<le> card (nt_notified nt ?d)"
    by (rule c [THEN conjunct2, THEN conjunct2, THEN conjunct2, rule_format])
qed

lemma shape_facts:
  assumes "wake_shape nt st"
  shows "t \<in> waits nt st \<Longrightarrow> enrolled (sy_calls st t)" "t \<in> told nt st \<Longrightarrow> enrolled (sy_calls st t)"
    and "waits nt st \<inter> told nt st = {}" "scan_fits (sy_pool st) (sy_calls st t)"
  using assms by (auto simp: wake_shape_def)

lemma finite_told: "wake_shape nt st \<Longrightarrow> count_ok st \<Longrightarrow> finite (told nt st)"
  using finite_calls [of st enrolled] by (auto simp: wake_shape_def intro: finite_subset)

lemma finite_lookers: "count_ok st \<Longrightarrow> finite (lookers st k)"
  unfolding lookers_def by (rule finite_calls) simp_all

lemma finite_idle_below: "finite (idle_below p k)"
  by (simp add: idle_below_def)

text \<open>A step that adds no free slot the waiting calls have looked at, and loses none that will look.\<close>

lemma bound_frame:
  assumes "wake_bound nt st" "\<And>u. limit p (((sy_calls st)(t := c)) u) \<in> {None, limit (sy_pool st) (sy_calls st u)}"
    and "\<And>u. u \<in> nt_waiting nt (wp_notify p) \<Longrightarrow> limit p (((sy_calls st)(t := c)) u) \<noteq> None \<Longrightarrow> u \<in> waits nt st"
    and "\<And>k. idle_below p k \<subseteq> idle_below (sy_pool st) k"
    and "\<And>k. nt_waiting nt (wp_notify p) \<noteq> {} \<Longrightarrow>
      card (told nt st) + card (lookers st k) \<le> card (nt_notified nt (wp_notify p)) + card (lookers (moves t c p st) k)"
  shows "wake_bound nt (moves t c p st)"
  unfolding wake_bound_def moves_simps
proof (intro ballI allI impI)
  fix u l k assume u: "u \<in> nt_waiting nt (wp_notify p)" "limit p (((sy_calls st)(t := c)) u) = Some l" "k \<le> l"
  have "limit p (((sy_calls st)(t := c)) u) \<noteq> None" using u(2) by (simp del: fun_upd_apply)
  then have "u \<in> waits nt st" by (rule assms(3) [OF u(1)])
  moreover have "limit (sy_pool st) (sy_calls st u) = Some l" using assms(2) [of u] u(2) by (simp del: fun_upd_apply)
  ultimately have "card (idle_below (sy_pool st) k) \<le> card (told nt st) + card (lookers st k)"
    using wake_boundD [OF assms(1)] u(3) by blast
  moreover have "card (idle_below p k) \<le> card (idle_below (sy_pool st) k)" using assms(4) finite_idle_below by (rule card_mono [rotated])
  ultimately show "card (idle_below p k) \<le> card (nt_notified nt (wp_notify p)) + card (lookers (moves t c p st) k)"
    using assms(5) [of k] u(1) by fastforce
qed

lemma lookers_moves:
  assumes "count_ok st"
  shows "card (lookers (moves t c p st) k) + (if looks k (sy_calls st t) then 1 else 0) = card (lookers st k) + (if looks k c then 1 else 0)"
  unfolding lookers_def moves_simps using finite_calls [OF assms, of "looks k"] by (intro card_moves) simp

lemma idle_below_mono:
  assumes "same_shape p q" "pool_ok p" "set (pool_slots q) \<subseteq> set (pool_slots p)"
  shows "idle_below q k \<subseteq> idle_below p k"
  using assms pool_slots_valid [OF assms(2)] by (auto simp: idle_below_def same_shape_def)

text \<open>The common case: neither the notification nor what a call looks at changes.\<close>

lemma bound_keep:
  fixes st :: "('p, 'n) system"
  assumes "wake_bound nt st" "own_ok st" "count_ok st" "same_shape (sy_pool st) p" "set (pool_slots p) \<subseteq> set (pool_slots (sy_pool st))"
    and "wp_notify p = wp_notify (sy_pool st)" "\<And>k. looks k (sy_calls st t) \<Longrightarrow> looks k c"
    and "limit p c \<in> {None, limit (sy_pool st) (sy_calls st t)}"
  shows "wake_bound nt (moves t c p st)"
proof (rule bound_frame [OF assms(1)])
  have n: "length (wp_workers p) = length (wp_workers (sy_pool st))" using assms(4) by (simp add: same_shape_def)
  then have "limit p d = limit (sy_pool st) d" for d :: "'p call_state" by (cases d) simp_all
  then show l: "limit p (((sy_calls st)(t := c)) u) \<in> {None, limit (sy_pool st) (sy_calls st u)}" for u using assms(8) by simp
  show "u \<in> waits nt st" if "u \<in> nt_waiting nt (wp_notify p)" for u using that assms(6) by simp
  show "idle_below p k \<subseteq> idle_below (sy_pool st) k" for k
    by (rule idle_below_mono [OF assms(4) own_ok_facts(1) [OF assms(2)] assms(5)])
  show "card (told nt st) + card (lookers st k) \<le> card (nt_notified nt (wp_notify p)) + card (lookers (moves t c p st) k)" for k
    using lookers_moves [OF assms(3), of t c p k] assms(6,7) by (auto split: if_splits)
qed

lemma wake_pool:
  fixes st :: "('p, 'n) system"
  assumes "wake_bound nt st" "wake_shape nt st" "own_ok st" "count_ok st" "same_shape (sy_pool st) p"
    and "set (pool_slots p) \<subseteq> set (pool_slots (sy_pool st))" "wp_notify p = wp_notify (sy_pool st)"
    and "unlocked st \<or> pool_slots p = pool_slots (sy_pool st)"
  shows "wake_bound nt (st\<lparr>sy_pool := p\<rparr>)" "wake_shape nt (st\<lparr>sy_pool := p\<rparr>)"
proof -
  have n: "length (wp_workers p) = length (wp_workers (sy_pool st))" using assms(5) by (simp add: same_shape_def)
  have l: "limit p d = limit (sy_pool st) d" for d :: "'p call_state" using n by (cases d) simp_all
  show "wake_bound nt (st\<lparr>sy_pool := p\<rparr>)"
    unfolding stays [of p st 0] by (rule bound_keep [OF assms(1,3,4,5,6,7)]) (simp_all add: l)
  have "scan_fits p (sy_calls st u)" for u
    using shape_facts(4) [OF assms(2), of u] assms(8) n
    by (cases "sy_calls st u") (auto simp: unlocked_def reads_lock_def dest: spec [of _ u])
  then show "wake_shape nt (st\<lparr>sy_pool := p\<rparr>)" using assms(2,7) by (simp add: wake_shape_def)
qed

definition wake_ok :: "'n notify \<Rightarrow> ('p, 'n) system \<Rightarrow> bool" where
  "wake_ok nt st \<longleftrightarrow> wake_bound nt st \<and> wake_shape nt st"

lemma shape_moves:
  fixes st :: "('p, 'n) system"
  assumes "wake_shape nt st" "length (wp_workers p) = length (wp_workers (sy_pool st))"
    and "unlocked st \<or> pool_slots p = pool_slots (sy_pool st)" "scan_fits p c"
    and "nt_waiting nt (wp_notify p) \<union> nt_notified nt (wp_notify p) \<subseteq> insert t (waits nt st \<union> told nt st)"
    and "t \<in> nt_waiting nt (wp_notify p) \<union> nt_notified nt (wp_notify p) \<Longrightarrow> enrolled c"
    and "nt_waiting nt (wp_notify p) \<inter> nt_notified nt (wp_notify p) = {}"
  shows "wake_shape nt (moves t c p st)"
proof -
  have "scan_fits p (((sy_calls st)(t := c)) u)" for u
  proof (cases "u = t")
    case False
    then show ?thesis using shape_facts(4) [OF assms(1), of u] assms(2,3)
      by (cases "sy_calls st u") (auto simp: unlocked_def reads_lock_def dest: spec [of _ u])
  qed (use assms(4) in simp)
  moreover have "enrolled (((sy_calls st)(t := c)) u)" if "u \<in> nt_waiting nt (wp_notify p) \<union> nt_notified nt (wp_notify p)" for u
    using that assms(5,6) shape_facts(1,2) [OF assms(1), of u] by (cases "u = t") auto
  ultimately show ?thesis using assms(7) unfolding wake_shape_def moves_simps by blast
qed

lemma wake_keep:
  fixes st :: "('p, 'n) system"
  assumes "wake_ok nt st" "own_ok st" "count_ok st" "same_shape (sy_pool st) p" "wp_notify p = wp_notify (sy_pool st)"
    and "pool_slots p = pool_slots (sy_pool st) \<or> unlocked st \<and> set (pool_slots p) \<subseteq> set (pool_slots (sy_pool st))"
    and "\<And>k. looks k (sy_calls st t) \<Longrightarrow> looks k c" "limit p c \<in> {None, limit (sy_pool st) (sy_calls st t)}"
    and "enrolled (sy_calls st t) \<Longrightarrow> enrolled c" "scan_fits p c"
  shows "wake_ok nt (moves t c p st)"
  unfolding wake_ok_def
proof
  note w = assms(1) [unfolded wake_ok_def]
  have "set (pool_slots p) \<subseteq> set (pool_slots (sy_pool st))" using assms(6) by auto
  then show "wake_bound nt (moves t c p st)" by (intro bound_keep [OF _ assms(2,3,4) _ assms(5,7,8)]) (use w in simp_all)
  have t: "t \<in> waits nt st \<union> told nt st \<Longrightarrow> enrolled c" using shape_facts(1,2) [of nt st t] w assms(9) by blast
  show "wake_shape nt (moves t c p st)"
    by (rule shape_moves)
      (use w t assms(4,5,6,10) shape_facts(3) [of nt st] in \<open>auto simp: same_shape_def\<close>)
qed

text \<open>A step that goes through the notification.\<close>

lemma wake_renotify:
  fixes st :: "('p, 'n) system"
  assumes "wake_ok nt st" "count_ok st" "limit (sy_pool st) c = None" "scan_fits (sy_pool st) c"
    and "nt_waiting nt (f (wp_notify (sy_pool st))) \<subseteq> insert t (waits nt st)"
    and "nt_notified nt (f (wp_notify (sy_pool st))) \<subseteq> waits nt st \<union> told nt st"
    and "t \<in> nt_waiting nt (f (wp_notify (sy_pool st))) \<union> nt_notified nt (f (wp_notify (sy_pool st))) \<Longrightarrow> enrolled c"
    and "nt_waiting nt (f (wp_notify (sy_pool st))) \<inter> nt_notified nt (f (wp_notify (sy_pool st))) = {}"
    and "\<And>k. nt_waiting nt (f (wp_notify (sy_pool st))) \<noteq> {} \<Longrightarrow>
      card (told nt st) + (if looks k (sy_calls st t) then 1 else 0) \<le>
      card (nt_notified nt (f (wp_notify (sy_pool st)))) + (if looks k c then 1 else 0)"
  shows "wake_ok nt (moves t c (renotify f (sy_pool st)) st)"
  unfolding wake_ok_def
proof
  note w = assms(1) [unfolded wake_ok_def]
  have l: "limit (renotify f (sy_pool st)) d = limit (sy_pool st) d" for d :: "'p call_state" by (cases d) simp_all
  show "wake_bound nt (moves t c (renotify f (sy_pool st)) st)"
  proof (rule bound_frame)
    show "wake_bound nt st" using w by simp
    show "limit (renotify f (sy_pool st)) (((sy_calls st)(t := c)) u) \<in> {None, limit (sy_pool st) (sy_calls st u)}" for u
      using assms(3) by (simp add: l)
    show "u \<in> waits nt st" if "u \<in> nt_waiting nt (wp_notify (renotify f (sy_pool st)))"
      "limit (renotify f (sy_pool st)) (((sy_calls st)(t := c)) u) \<noteq> None" for u
      using that assms(3,5) by (cases "u = t") (auto simp: l)
    show "idle_below (renotify f (sy_pool st)) k \<subseteq> idle_below (sy_pool st) k" for k by (simp add: idle_below_def)
    show "card (told nt st) + card (lookers st k) \<le>
      card (nt_notified nt (wp_notify (renotify f (sy_pool st)))) + card (lookers (moves t c (renotify f (sy_pool st)) st) k)"
      if "nt_waiting nt (wp_notify (renotify f (sy_pool st))) \<noteq> {}" for k
      using lookers_moves [OF assms(2), of t c "renotify f (sy_pool st)" k] assms(9) [of k] that by simp
  qed
  have "scan_fits (renotify f (sy_pool st)) c" using assms(4) by (cases c) simp_all
  then show "wake_shape nt (moves t c (renotify f (sy_pool st)) st)"
    by (intro shape_moves) (use w assms(5-8) in auto)
qed

text \<open>A claim that wins its slot.\<close>

lemma wake_won:
  fixes st :: "('p, 'n) system"
  assumes "wake_ok nt st" "own_ok st" "count_ok st" "sy_calls st t = Trying r (x # xs)" "cas_idle x (sy_pool st) = Some p"
  shows "wake_ok nt (moves t (Won r x) p st)"
proof -
  note w = assms(1) [unfolded wake_ok_def]
  have x: "has_slot (sy_pool st) x" using own_ok_facts(6) [OF assms(2), of t] assms(4) by simp
  have p: "sl_idle (slot_at (sy_pool st) x)" "p = set_slot x (sl_idle_update (\<lambda>_. False)) (sy_pool st)"
    using assms(5) by (auto simp: cas_idle_def split: if_splits)
  obtain ys where ys: "pool_slots (sy_pool st) = ys @ x # xs" using shape_facts(4) [of nt st t] w assms(4) by auto
  have l: "limit p d = limit (sy_pool st) d" for d :: "'p call_state" by (cases d) (simp_all add: p(2))
  have below: "idle_below p k = idle_below (sy_pool st) k - {x}" for k
    using x by (auto simp: idle_below_def p(2) slot_at_set_slot)
  have "wake_bound nt (moves t (Won r x) p st)" unfolding wake_bound_def moves_simps
  proof (intro ballI allI impI)
    fix u m k assume u: "u \<in> nt_waiting nt (wp_notify p)" "limit p (((sy_calls st)(t := Won r x)) u) = Some m" "k \<le> m"
    have ut: "u \<noteq> t" using u(2) by auto
    have old: "card (idle_below (sy_pool st) k) \<le> card (told nt st) + card (lookers st k)"
      by (rule wake_boundD [of nt st u m]) (use w u ut in \<open>simp_all add: p(2) l [unfolded p(2)]\<close>)
    note c = lookers_moves [OF assms(3), of t "Won r x" p k]
    show "card (idle_below p k) \<le> card (nt_notified nt (wp_notify p)) + card (lookers (moves t (Won r x) p st) k)"
    proof (cases "r \<and> x < k")
      case True
      then have "x \<in> idle_below (sy_pool st) k" using p(1) ys by (simp add: idle_below_def)
      then have "card (idle_below p k) + 1 = card (idle_below (sy_pool st) k)"
        by (simp only: below Suc_eq_plus1 [symmetric] card_Suc_Diff1 [OF finite_idle_below])
      then show ?thesis using old c True assms(4) by (simp add: p(2))
    next
      case False
      have "card (idle_below p k) \<le> card (idle_below (sy_pool st) k)" by (simp add: below card_mono finite_idle_below Diff_subset)
      then show ?thesis using old c False assms(4) by (auto simp: p(2))
    qed
  qed
  moreover have "wake_shape nt (moves t (Won r x) p st)"
    by (rule shape_moves)
      (use w shape_facts(1,2) [of nt st t] shape_facts(3) [of nt st] assms(4) in \<open>auto simp: p(2)\<close>)
  ultimately show ?thesis by (simp add: wake_ok_def)
qed

text \<open>A registered claim that passes a busy slot: what lies behind it is covered by the calls behind it.\<close>

lemma wake_busy:
  fixes st :: "('p, 'n) system"
  assumes "wake_ok nt st" "own_ok st" "count_ok st" "sy_calls st t = Trying True (x # xs)" "cas_idle x (sy_pool st) = None"
  shows "wake_ok nt (moves t (Trying True xs) (sy_pool st) st)"
proof -
  note w = assms(1) [unfolded wake_ok_def]
  let ?c = "Trying True xs :: 'p call_state" and ?p = "sy_pool st"
  have busy: "\<not> sl_idle (slot_at ?p x)" using assms(5) by (auto simp: cas_idle_def split: if_splits)
  obtain ys where ys: "pool_slots ?p = ys @ x # xs" using shape_facts(4) [of nt st t] w assms(4) by auto
  have sorted: "sorted_wrt (<) (ys @ x # xs)" using pool_slots_sorted [OF own_ok_facts(1) [OF assms(2)]] ys by simp
  have next_x: "x < hd xs" if "xs \<noteq> []" using sorted that by (cases xs) (auto simp: sorted_wrt_append)
  have "wake_bound nt (moves t ?c ?p st)" unfolding wake_bound_def moves_simps
  proof (intro ballI allI impI)
    fix u m k assume u: "u \<in> waits nt st" "limit ?p (((sy_calls st)(t := ?c)) u) = Some m" "k \<le> m"
    note c = lookers_moves [OF assms(3), of t ?c ?p k]
    show "card (idle_below ?p k) \<le> card (told nt st) + card (lookers (moves t ?c ?p st) k)"
    proof (cases "x < k \<and> (xs = [] \<or> k \<le> hd xs)")
      case True
      have "z \<le> x \<or> \<not> z < k" if "z \<in> set (pool_slots ?p)" for z
        using that True sorted unfolding ys by (cases xs) (auto simp: sorted_wrt_append)
      then have same: "idle_below ?p k = idle_below ?p x"
        using True busy by (auto simp: idle_below_def le_less)
      obtain l where l: "limit ?p (sy_calls st u) = Some l" "x \<le> l"
      proof (cases "u = t")
        case same: True
        then show ?thesis using that assms(4) by simp
      next
        case False
        have "x \<le> m" using True u(3) by auto
        then show ?thesis using that [of m] u(2) False by simp
      qed
      have "card (idle_below ?p x) \<le> card (told nt st) + card (lookers st x)"
        using wake_boundD [of nt st u] w u(1) l by blast
      moreover have "lookers st x \<subseteq> lookers (moves t ?c ?p st) k"
      proof
        fix v assume v: "v \<in> lookers st x"
        then have "v \<noteq> t" using assms(4) by (auto simp: lookers_def)
        then show "v \<in> lookers (moves t ?c ?p st) k" using v True by (cases "sy_calls st v") (auto simp: lookers_def)
      qed
      moreover have "finite (lookers (moves t ?c ?p st) k)"
        by (rule finite_subset [of _ "insert t (lookers st k)"]) (auto simp: lookers_def finite_lookers [OF assms(3), unfolded lookers_def])
      ultimately show ?thesis unfolding same using card_mono by (metis (no_types) add_left_mono le_trans)
    next
      case False
      have looks: "looks k ?c \<longleftrightarrow> looks k (sy_calls st t)" using False next_x assms(4) by auto
      obtain l where l: "limit ?p (sy_calls st u) = Some l" "k \<le> l"
      proof (cases "u = t")
        case True
        then have "k \<le> x" using u False by (auto split: if_splits simp: not_less)
        then show ?thesis using that True assms(4) by simp
      next
        case False
        then show ?thesis using that [of m] u by simp
      qed
      have "card (idle_below ?p k) \<le> card (told nt st) + card (lookers st k)"
        using wake_boundD [of nt st u] w u(1) l by blast
      then show ?thesis using c looks by auto
    qed
  qed
  moreover have "wake_shape nt (moves t ?c ?p st)"
    by (rule shape_moves)
      (use w shape_facts(3) [of nt st] ys in \<open>auto intro: exI [of _ "ys @ [x]"]\<close>)
  ultimately show ?thesis by (simp add: wake_ok_def)
qed

text \<open>A registered claim begins.\<close>

lemma wake_again:
  fixes st :: "('p, 'n) system"
  assumes "wake_ok nt st" "own_ok st" "count_ok st" "sy_calls st t = Enabled"
  shows "wake_ok nt (moves t (if wp_entries (sy_pool st) = [] then Leaving (NoClaim NoWorkers) else Trying True (pool_slots (sy_pool st))) (sy_pool st) st)"
proof -
  note w = assms(1) [unfolded wake_ok_def]
  let ?p = "sy_pool st"
  let ?c = "if wp_entries ?p = [] then Leaving (NoClaim NoWorkers) else Trying True (pool_slots ?p) :: 'p call_state"
  note sorted = pool_slots_sorted [OF own_ok_facts(1) [OF assms(2)]]
  have "wake_bound nt (moves t ?c ?p st)" unfolding wake_bound_def moves_simps
  proof (intro ballI allI impI)
    fix u m k assume u: "u \<in> waits nt st" "limit ?p (((sy_calls st)(t := ?c)) u) = Some m" "k \<le> m"
    note c = lookers_moves [OF assms(3), of t ?c ?p k]
    show "card (idle_below ?p k) \<le> card (told nt st) + card (lookers (moves t ?c ?p st) k)"
    proof (cases "pool_slots ?p = [] \<or> k \<le> hd (pool_slots ?p)")
      case True
      have "\<not> z < k" if "z \<in> set (pool_slots ?p)" for z
        using that True sorted by (cases "pool_slots ?p") auto
      then have "idle_below ?p k = {}" by (auto simp: idle_below_def)
      then show ?thesis by simp
    next
      case False
      then have entries: "wp_entries ?p \<noteq> []" by (auto simp: pool_slots_def)
      then have ut: "u \<noteq> t" using u False by auto
      have "card (idle_below ?p k) \<le> card (told nt st) + card (lookers st k)"
        by (rule wake_boundD [of nt st u m]) (use w u ut in simp_all)
      then show ?thesis using c False entries assms(4) by (simp add: not_le)
    qed
  qed
  moreover have "wake_shape nt (moves t ?c ?p st)"
    by (rule shape_moves) (use w shape_facts(3) [of nt st] in auto)
  ultimately show ?thesis by (simp add: wake_ok_def)
qed

text \<open>A slot becomes free: its call is about to notify.\<close>

lemma wake_released:
  fixes st :: "('p, 'n) system"
  assumes "wake_ok nt st" "own_ok st" "count_ok st" "sy_calls st t = Dropping x 7 e"
  shows "wake_ok nt (moves t (Notifying e) ((release_steps lf x ! 7) (sy_pool st)) st)"
proof -
  note w = assms(1) [unfolded wake_ok_def]
  let ?p = "(release_steps lf x ! 7) (sy_pool st)"
  have p: "?p = set_slot x (sl_idle_update (\<lambda>_. True)) (sy_pool st)" by (simp add: release_steps_def)
  have l: "limit ?p d = limit (sy_pool st) d" for d :: "'p call_state" by (cases d) (simp_all add: p)
  have x: "has_slot (sy_pool st) x" using own_ok_facts(2) [OF assms(2), of t] assms(4) by simp
  have below: "idle_below ?p k \<subseteq> insert x (idle_below (sy_pool st) k)" for k
    using x by (auto simp: idle_below_def p slot_at_set_slot)
  have "wake_bound nt (moves t (Notifying e) ?p st)" unfolding wake_bound_def moves_simps
  proof (intro ballI allI impI)
    fix u m k assume u: "u \<in> nt_waiting nt (wp_notify ?p)" "limit ?p (((sy_calls st)(t := Notifying e)) u) = Some m" "k \<le> m"
    have ut: "u \<noteq> t" using u(2) by auto
    have "card (idle_below (sy_pool st) k) \<le> card (told nt st) + card (lookers st k)"
      by (rule wake_boundD [of nt st u m]) (use w u ut in \<open>simp_all add: l\<close>, simp add: p)
    moreover have "card (idle_below ?p k) \<le> card (idle_below (sy_pool st) k) + 1"
    proof -
      have "card (idle_below ?p k) \<le> card (insert x (idle_below (sy_pool st) k))"
        by (rule card_mono [OF _ below]) (simp add: finite_idle_below)
      then show ?thesis by (simp add: card_insert_if finite_idle_below split: if_splits)
    qed
    ultimately show "card (idle_below ?p k) \<le> card (nt_notified nt (wp_notify ?p)) + card (lookers (moves t (Notifying e) ?p st) k)"
      using lookers_moves [OF assms(3), of t "Notifying e" ?p k] assms(4) by (simp add: p)
  qed
  moreover have "wake_shape nt (moves t (Notifying e) ?p st)"
    by (rule shape_moves)
      (use w shape_facts(1,2) [of nt st t] shape_facts(3) [of nt st] assms(4) in \<open>auto simp: p\<close>)
  ultimately show ?thesis by (simp add: wake_ok_def)
qed

text \<open>A worker enters the pool: its slots lie behind all that a waiting call has looked at.\<close>

lemma wake_registered:
  fixes st :: "('p, 'n) system"
  assumes "wake_ok nt st" "own_ok st" "unlocked st"
  shows "wake_ok nt (st\<lparr>sy_starting := s, sy_pool := push_entry i n (sy_pool st)\<rparr>)"
proof -
  note w = assms(1) [unfolded wake_ok_def]
  let ?p = "push_entry i n (sy_pool st)" and ?st = "st\<lparr>sy_starting := s, sy_pool := push_entry i n (sy_pool st)\<rparr>"
  let ?m = "length (wp_workers (sy_pool st))"
  have idle: "idle_below ?p k \<subseteq> idle_below (sy_pool st) k" if "k \<le> (?m, 0)" for k
  proof
    fix z assume z: "z \<in> idle_below ?p k"
    have "fst z \<noteq> ?m" using z that by (cases z; cases k) (auto simp: idle_below_def less_eq_prod_def less_prod_def)
    then have e: "fst z \<in> set (wp_entries (sy_pool st))" using z by (auto simp: idle_below_def mem_pool_slots)
    then have "fst z < ?m" using own_ok_facts(1) [OF assms(2)] by (simp add: pool_ok_def)
    then have mem: "z \<in> set (pool_slots (sy_pool st))" using z e by (auto simp: idle_below_def mem_pool_slots)
    then show "z \<in> idle_below (sy_pool st) k"
      using z slot_at_push(1) [OF pool_slots_valid [OF own_ok_facts(1) [OF assms(2)] mem]] by (simp add: idle_below_def)
  qed
  have lookers: "lookers ?st k = lookers st k" for k by (simp add: lookers_def)
  have "wake_bound nt ?st" unfolding wake_bound_def
  proof (intro ballI allI impI)
    fix u l k assume u: "u \<in> waits nt ?st" "limit (sy_pool ?st) (sy_calls ?st u) = Some l" "k \<le> l"
    obtain j where j: "sy_calls st u = Waiting j" "l = (j, 0)"
      using u(2) assms(3) by (cases "sy_calls st u") (auto simp: unlocked_def reads_lock_def dest: spec [of _ u])
    have "j \<le> ?m" using shape_facts(4) [of nt st u] w j by simp
    then have "k \<le> (?m, 0)" using u(3) j(2) by (auto intro: order_trans [OF _ _])
    then have "card (idle_below ?p k) \<le> card (idle_below (sy_pool st) k)" by (intro card_mono finite_idle_below idle)
    also have "\<dots> \<le> card (told nt st) + card (lookers st k)"
      by (rule wake_boundD [of nt st u l]) (use w u j in simp_all)
    finally show "card (idle_below (sy_pool ?st) k) \<le> card (told nt ?st) + card (lookers ?st k)" by (simp add: lookers)
  qed
  moreover have "scan_fits ?p (sy_calls st u)" for u
    using shape_facts(4) [of nt st u] w assms(3)
    by (cases "sy_calls st u") (auto simp: unlocked_def reads_lock_def dest: spec [of _ u])
  then have "wake_shape nt ?st" using w by (simp add: wake_shape_def)
  ultimately show ?thesis by (simp add: wake_ok_def)
qed

lemma pool_slots_fetch: "pool_slots (snd (fetch_id p)) = pool_slots p"
  by (rule worker_slots_cong) (simp_all add: worker_slots_def)

lemma remove_entry_slots: "set (pool_slots (remove_entry i p)) \<subseteq> set (pool_slots p)"
  by (auto simp: mem_pool_slots remove_entry_def)

lemma wake_pool_ok:
  assumes "wake_ok nt st" "own_ok st" "count_ok st" "same_shape (sy_pool st) p"
    and "set (pool_slots p) \<subseteq> set (pool_slots (sy_pool st))" "wp_notify p = wp_notify (sy_pool st)"
    and "unlocked st \<or> pool_slots p = pool_slots (sy_pool st)"
  shows "wake_ok nt (st\<lparr>sy_pool := p\<rparr>)"
  using assms wake_pool unfolding wake_ok_def by blast

lemma wake_drop:
  fixes st :: "('p, 'n) system"
  assumes "notify_laws nt" "wake_ok nt st" "count_ok st" "limit (sy_pool st) c = None" "scan_fits (sy_pool st) c"
    and "\<And>k. \<not> looks k (sy_calls st t)"
  shows "wake_ok nt (moves t c (renotify (nt_drop nt t) (sy_pool st)) st)"
proof -
  note w = assms(2) [unfolded wake_ok_def]
  have disjoint: "waits nt st \<inter> told nt st = {}" using shape_facts(3) w by blast
  note d = drop_facts [OF assms(1) disjoint, of t]
  show ?thesis
    by (rule wake_renotify [OF assms(2-5)])
      (use d assms(6) finite_told [of nt st] w assms(3) in \<open>auto simp: trans_le_add1\<close>)
qed

lemma wake_step:
  assumes "notify_laws nt" "sys_step nt lockfree cap st st'" "own_ok st" "count_ok st" "wake_ok nt st"
  shows "wake_ok nt st'"
  using assms(2)
proof cases
  case (test_won t r x xs p)
  then show ?thesis using wake_won [OF assms(5,3,4)] by simp
next
  case (test_busy t r x xs)
  have "\<exists>ys. pool_slots (sy_pool st) = ys @ x # xs"
    using shape_facts(4) [of nt st t] assms(5) test_busy by (simp add: wake_ok_def)
  then have fits: "\<exists>ys. pool_slots (sy_pool st) = ys @ xs" by (metis append.assoc append_Cons append_Nil)
  show ?thesis
  proof (cases r)
    case True
    then show ?thesis using wake_busy [OF assms(5,3,4)] test_busy by simp
  next
    case False
    then show ?thesis unfolding test_busy using test_busy fits by (intro wake_keep [OF assms(5,3,4)]) auto
  qed
next
  case (try_again t)
  then show ?thesis using wake_again [OF assms(5,3,4)] by simp
next
  case (released t x e)
  then show ?thesis using wake_released [OF assms(5,3,4)] by simp
next
  case (registered before i k after)
  then show ?thesis using wake_registered [OF assms(5,3)] by simp
next
  case (release t x k e)
  then show ?thesis unfolding release using release
    by (intro wake_keep [OF assms(5,3,4)]) (auto simp: release_simps same_shape_release)
next
  case (enqueue_failed t x m)
  then show ?thesis unfolding enqueue_failed using enqueue_failed remove_entry_slots
    by (intro wake_keep [OF assms(5,3,4)]) auto
next
  case (claimed t r x)
  show ?thesis
  proof (cases r)
    case True
    then show ?thesis unfolding claimed using claimed by (auto intro!: wake_drop [OF assms(1,5,4)])
  next
    case False
    then show ?thesis unfolding claimed using claimed by (auto intro!: wake_keep [OF assms(5,3,4)])
  qed
next
  case (leave t e)
  then show ?thesis unfolding leave using leave by (intro wake_drop [OF assms(1,5,4)]) auto
next
  case (enable t)
  have shape: "wake_shape nt st" using assms(5) by (simp add: wake_ok_def)
  have "t \<notin> told nt st" using shape_facts(2) [OF shape, of t] enable by auto
  then show ?thesis unfolding enable
    using enable laws(3) [OF assms(1), of t "wp_notify (sy_pool st)"] laws(4) [OF assms(1), of t "wp_notify (sy_pool st)"] shape_facts(3) [OF shape]
    by (intro wake_renotify [OF assms(5,4)]) auto
next
  case (woken t n)
  have shape: "wake_shape nt st" using assms(5) by (simp add: wake_ok_def)
  have "card (told nt st) \<le> card (told nt st - {t}) + 1"
    using card_Suc_Diff1 [OF finite_told [OF shape assms(4)], of t] by (cases "t \<in> told nt st") auto
  then show ?thesis unfolding woken
    using woken laws(6,7) [OF assms(1), of t "wp_notify (sy_pool st)"] shape_facts(3) [OF shape]
    by (intro wake_renotify [OF assms(5,4)]) auto
next
  case (notify t e)
  have shape: "wake_shape nt st" using assms(5) by (simp add: wake_ok_def)
  note one = notifies_one_facts [OF laws(5) [OF assms(1)], of "wp_notify (sy_pool st)"]
  have "t \<notin> waits nt st \<union> told nt st" using shape_facts(1,2) [OF shape, of t] notify by auto
  then show ?thesis unfolding notify
    using notify one(1,2) one(3) [OF shape_facts(3) [OF shape]] one(4) [OF shape_facts(3) [OF shape] finite_told [OF shape assms(4)]]
    by (intro wake_renotify [OF assms(5,4)]) auto
next
  case (registering k)
  have "wake_ok nt (st\<lparr>sy_pool := snd (fetch_id (sy_pool st))\<rparr>)"
    by (rule wake_pool_ok [OF assms(5,3,4)]) (simp_all add: pool_slots_fetch same_shape_ops)
  then show ?thesis unfolding registering by (simp add: wake_ok_def wake_bound_def wake_shape_def lookers_def)
next
  case (gone t x)
  then show ?thesis using assms(5) by (simp add: wake_ok_def wake_bound_def wake_shape_def lookers_def)
next
  case (worker_writes t x bytes)
  then show ?thesis using assms(5) by (simp add: wake_ok_def wake_bound_def wake_shape_def lookers_def)
next
  case (sweep x now)
  then show ?thesis by (auto intro!: wake_pool_ok [OF assms(5,3,4)])
next
  case (removed i)
  then show ?thesis using remove_entry_slots by (auto intro!: wake_pool_ok [OF assms(5,3,4)])
next
  case cleared
  then show ?thesis by (auto intro!: wake_pool_ok [OF assms(5,3,4)])
next
  case (try_first t)
  then show ?thesis unfolding try_first using try_first by (intro wake_keep [OF assms(5,3,4)]) auto
next
  case (all_busy t r)
  then show ?thesis unfolding all_busy using all_busy shape_facts(4) [of nt st t] assms(5) by (intro wake_keep [OF assms(5,3,4)]) auto
qed (auto intro!: wake_keep [OF assms(5,3,4)] wake_pool_ok [OF assms(5,3,4)])

section \<open>Properties of every run\<close>

definition run_ok :: "'n notify \<Rightarrow> (nat \<Rightarrow> bool) \<Rightarrow> ('p, 'n) system \<Rightarrow> bool" where
  "run_ok nt lockfree st \<longleftrightarrow> own_ok st \<and> content_ok lockfree st \<and> count_ok st"

lemma run_start: "run_ok nt lockfree (system_new nt region)"
  unfolding run_ok_def
proof (intro conjI own_new)
  show "content_ok lockfree (system_new nt region)" by (auto simp: content_ok_def system_new_def pool_new_def has_slot_def)
  show "count_ok (system_new nt region)" by (auto simp: count_ok_def system_new_def pool_new_def)
qed

lemma run_reachable: "reachable_from nt lockfree cap region st \<Longrightarrow> run_ok nt lockfree st"
  unfolding reachable_from_def
proof (induction rule: rtranclp_induct)
  case base
  show ?case by (rule run_start)
next
  case (step st st')
  then show ?case
    using own_step [OF step(2)] content_step [OF step(2)] count_step [OF step(2)] unfolding run_ok_def by blast
qed

lemma wake_reachable:
  assumes "notify_laws nt" "reachable_from nt lockfree cap region st" shows "wake_ok nt st"
proof -
  have "(sys_step nt lockfree cap)\<^sup>*\<^sup>* (system_new nt region) st \<Longrightarrow> run_ok nt lockfree st \<and> wake_ok nt st"
  proof (induction rule: rtranclp_induct)
    case base
    show ?case using run_start laws(1,2) [OF assms(1)]
      by (simp add: wake_ok_def wake_bound_def wake_shape_def system_new_def pool_new_def)
  next
    case (step st st')
    have "run_ok nt lockfree st'" using step run_reachable by (meson reachable_from_def rtranclp.rtrancl_into_rtrancl)
    then show ?case using wake_step [OF assms(1) step(2)] step(3) unfolding run_ok_def by blast
  qed
  then show ?thesis using assms(2) by (simp add: reachable_from_def)
qed

text \<open>
  C1: A slot of a worker is never held by two calls: in every state of every run it is free exactly when no call holds it,
  a free slot carries nothing of an earlier call, and no worker counts more calls than it has slots. A call holds its
  slot until its worker has settled it, also when its caller has left.
\<close>

theorem slot_exclusive:
  assumes "reachable_from nt lockfree cap region st" "has_slot (sy_pool st) x"
  shows "(sl_idle (slot_at (sy_pool st) x) = (\<forall>t. holder (sy_calls st t) \<noteq> Some x)) \<and>
    card {t. holder (sy_calls st t) = Some x} \<le> 1 \<and>
    (sl_idle (slot_at (sy_pool st) x) \<longrightarrow> clean (slot_at (sy_pool st) x)) \<and>
    in_flight (sy_pool st) (fst x) \<le> length (we_slots (worker_at (sy_pool st) (fst x)))"
proof -
  have r: "own_ok st" "content_ok lockfree st" "count_ok st" using run_reachable [OF assms(1)] by (simp_all add: run_ok_def)
  have "sl_idle (slot_at (sy_pool st) x) = (\<forall>t. holder (sy_calls st t) \<noteq> Some x)"
    using own_ok_facts(3,5) [OF r(1)] assms(2) by blast
  moreover have "card {t. holder (sy_calls st t) = Some x} \<le> 1"
  proof (cases "\<exists>u. holder (sy_calls st u) = Some x")
    case True
    then obtain u where "holder (sy_calls st u) = Some x" by blast
    then have "{t. holder (sy_calls st t) = Some x} \<subseteq> {u}" using own_ok_facts(4) [OF r(1)] by blast
    then have "card {t. holder (sy_calls st t) = Some x} \<le> card {u}" by (intro card_mono) simp_all
    then show ?thesis by simp
  qed simp
  moreover have "fst x < length (wp_workers (sy_pool st))" using assms(2) by (simp add: has_slot_def)
  ultimately show ?thesis using content_facts(1) [OF r(2) assms(2)] in_flight_bound [OF r(1,3)] by blast
qed

text \<open>
  C2: No call gets the bytes of another: the reply a call ends with, its heap reply and its plan were all written for this
  call, however calls, deadlines, disconnects and the workers interleave over the slots.
\<close>

theorem own_replies:
  assumes "reachable_from nt lockfree cap region st" "sy_calls st t = Ended (Replied b h v)"
  shows "fst b = t \<and> fst ` set_option h \<subseteq> {t} \<and> fst ` set_option v \<subseteq> {t}"
proof -
  have "content_ok lockfree st" using run_reachable [OF assms(1)] by (simp add: run_ok_def)
  from content_facts(3) [OF this, of t] show ?thesis using assms(2) by auto
qed

text \<open>
  C3: No wake-up is lost: when a call waits for a slot, no call was told of one and none is about to notify or to look, then
  every slot the waiting call has looked at is held by a call, whose release will notify.
\<close>

theorem no_lost_wakeup:
  assumes "notify_laws nt" "reachable_from nt lockfree cap region st"
    and "sy_calls st t = Waiting n" "t \<in> waits nt st" "told nt st = {}" "lookers st (n, 0) = {}"
    and "x \<in> set (pool_slots (sy_pool st))" "fst x < n"
  shows "\<exists>u. holder (sy_calls st u) = Some x"
proof -
  have r: "own_ok st" using run_reachable [OF assms(2)] by (simp add: run_ok_def)
  have "wake_bound nt st" using wake_reachable [OF assms(1,2)] by (simp add: wake_ok_def)
  from wake_boundD [OF this assms(4), of "(n, 0)" "(n, 0)"] have "card (idle_below (sy_pool st) (n, 0)) = 0"
    using assms(3,5,6) by simp
  then have "idle_below (sy_pool st) (n, 0) = {}" by (simp add: card_eq_0_iff finite_idle_below)
  moreover have "x < (n, 0)" using assms(8) by (cases x) (simp add: less_prod_def)
  ultimately have "\<not> sl_idle (slot_at (sy_pool st) x)" using assms(7) by (auto simp: idle_below_def)
  then show ?thesis using own_ok_facts(5) [OF r] pool_slots_valid [OF own_ok_facts(1) [OF r] assms(7)] by blast
qed

section \<open>Runs\<close>

text \<open>A notification that keeps its waits in order: the waits, the notified ones and the permit.\<close>

definition fifo_one :: "nat list \<times> nat set \<times> bool \<Rightarrow> nat list \<times> nat set \<times> bool" where
  "fifo_one n = (case n of (q, ns, permit) \<Rightarrow> case q of [] \<Rightarrow> (q, ns, True) | t # _ \<Rightarrow> (removeAll t q, insert t ns, permit))"

definition fifo_forget :: "nat \<Rightarrow> nat list \<times> nat set \<times> bool \<Rightarrow> nat list \<times> nat set \<times> bool" where
  "fifo_forget t n = (case n of (q, ns, permit) \<Rightarrow> (removeAll t q, ns - {t}, permit))"

definition fifo :: "(nat list \<times> nat set \<times> bool) notify" where
  "fifo = \<lparr>nt_new = ([], {}, False),
     nt_enable = (\<lambda>t (q, ns, permit). if permit then (q, ns, False) else (q @ [t], ns, False)),
     nt_notify_one = fifo_one, nt_finish = fifo_forget,
     nt_drop = (\<lambda>t n. if t \<in> fst (snd n) then fifo_one (fifo_forget t n) else fifo_forget t n),
     nt_waiting = (\<lambda>n. set (fst n)), nt_notified = (\<lambda>n. fst (snd n))\<rparr>"

lemma fifo_notifies: "notifies_one fifo n (fifo_one n)"
  by (auto simp: notifies_one_def fifo_def fifo_one_def split: prod.split list.split)

lemma fifo_laws: "notify_laws fifo"
proof -
  have "t \<notin> fst (snd n) \<Longrightarrow> fst (snd (fifo_forget t n)) = fst (snd n)" for t n by (auto simp: fifo_forget_def split: prod.split)
  then show ?thesis
    using fifo_notifies
    by (auto simp: notify_laws_def fifo_def fifo_forget_def split: prod.split)
qed

abbreviation runs :: "(unit, nat list \<times> nat set \<times> bool) system \<Rightarrow> bool" where
  "runs \<equiv> reachable_from fifo (\<lambda>_. True) (\<lambda>_. 1) (\<lambda>_. (0, []))"

lemma runs_step: "runs st \<Longrightarrow> sys_step fifo (\<lambda>_. True) (\<lambda>_. 1) st st' \<Longrightarrow> runs st'"
  unfolding reachable_from_def by (rule rtranclp.rtrancl_into_rtrancl)

text \<open>A system with workers of one slot each, given by their idle flags and the calls they count.\<close>

definition one_slot :: "nat \<times> bool \<times> nat \<Rightarrow> (nat \<times> unit, nat \<times> string) worker_entry" where
  "one_slot w = (case w of (i, idle, n) \<Rightarrow> \<lparr>we_id = i, we_in_flight = n, we_slots = [slot_new\<lparr>sl_idle := idle\<rparr>]\<rparr>)"

definition example ::
  "(nat \<times> bool \<times> nat) list \<Rightarrow> nat list \<times> nat set \<times> bool \<Rightarrow> (nat \<Rightarrow> unit call_state) \<Rightarrow> (nat \<times> nat) list \<Rightarrow>
   (unit, nat list \<times> nat set \<times> bool) system" where
  "example ws n calls starting =
     \<lparr>sy_pool = \<lparr>wp_workers = map one_slot ws, wp_entries = [0..<length ws], wp_next_id = length ws + length starting,
        wp_notify = n\<rparr>, sy_region = (\<lambda>_. (0, [])), sy_calls = calls, sy_gone = {}, sy_starting = starting\<rparr>"

lemma runs_register:
  assumes "runs (example ws n calls [])" "\<forall>t. \<not> reads_lock (calls t)" "length ws < 10"
  shows "runs (example (ws @ [(length ws, True, 0)]) n calls [])"
proof -
  have "runs (example ws n calls [(length ws, 1)])"
    using runs_step [OF assms(1) registering [of _ _ _ _ 1]] assms(3) by (simp add: example_def fetch_id_def)
  from runs_step [OF this registered [of _ "[]" "length ws" 1 "[]"]] assms(2) show ?thesis
    by (simp add: example_def push_entry_def unlocked_def one_slot_def slot_new_def)
qed

lemmas example_simps = example_def one_slot_def slot_new_def pool_slots_def worker_slots_def worker_at_def slot_at_def cas_idle_def
  set_slot_def set_worker_def moves_def renotify_def claim_won_def fifo_def fifo_forget_def fifo_one_def

abbreviation nobody :: "nat list \<times> nat set \<times> bool" where
  "nobody \<equiv> ([], {}, False)"

lemma run_one_worker: "runs (example [(0, True, 0)] nobody (\<lambda>_. Fresh) [])"
proof -
  have "example [] nobody (\<lambda>_. Fresh) [] = system_new fifo (\<lambda>_. (0, []))"
    by (simp add: example_def system_new_def pool_new_def fifo_def)
  then have "runs (example [] nobody (\<lambda>_. Fresh) [])" by (simp add: reachable_from_def)
  from runs_register [OF this] show ?thesis by (simp add: reads_lock_def)
qed

lemma run_claimed: "runs (example [(0, False, 1)] nobody ((\<lambda>_. Fresh)(0 := Claimed (0, 0))) [])"
proof -
  have "runs (example [(0, True, 0)] nobody ((\<lambda>_. Fresh)(0 := Trying False [(0, 0)])) [])"
    using runs_step [OF run_one_worker try_first [of _ 0]] by (simp add: example_simps)
  from runs_step [OF this test_won [of _ 0 False "(0, 0)" "[]"]]
  have "runs (example [(0, False, 0)] nobody ((\<lambda>_. Fresh)(0 := Won False (0, 0))) [])" by (simp add: example_simps)
  from runs_step [OF this claim [of _ 0 False "(0, 0)"]]
  have "runs (example [(0, False, 1)] nobody ((\<lambda>_. Fresh)(0 := Got False (0, 0))) [])" by (simp add: example_simps)
  from runs_step [OF this claimed [of _ 0 False "(0, 0)"]] show ?thesis by (simp add: example_simps)
qed

lemma run_waiting:
  "runs (example [(0, False, 1)] ([1], {}, False) ((\<lambda>_. Fresh)(0 := Claimed (0, 0), 1 := Waiting 1)) [])"
proof -
  have "runs (example [(0, False, 1)] nobody ((\<lambda>_. Fresh)(0 := Claimed (0, 0), 1 := Trying False [(0, 0)])) [])"
    using runs_step [OF run_claimed try_first [of _ 1]] by (simp add: example_simps)
  from runs_step [OF this test_busy [of _ 1 False "(0, 0)" "[]"]]
  have "runs (example [(0, False, 1)] nobody ((\<lambda>_. Fresh)(0 := Claimed (0, 0), 1 := Trying False [])) [])" by (simp add: example_simps)
  from runs_step [OF this all_busy [of _ 1 False]]
  have "runs (example [(0, False, 1)] nobody ((\<lambda>_. Fresh)(0 := Claimed (0, 0), 1 := Looping)) [])" by (simp add: example_simps)
  from runs_step [OF this enable [of _ 1]]
  have "runs (example [(0, False, 1)] ([1], {}, False) ((\<lambda>_. Fresh)(0 := Claimed (0, 0), 1 := Enabled)) [])" by (simp add: example_simps)
  from runs_step [OF this try_again [of _ 1]]
  have "runs (example [(0, False, 1)] ([1], {}, False) ((\<lambda>_. Fresh)(0 := Claimed (0, 0), 1 := Trying True [(0, 0)])) [])"
    by (simp add: example_simps)
  from runs_step [OF this test_busy [of _ 1 True "(0, 0)" "[]"]]
  have "runs (example [(0, False, 1)] ([1], {}, False) ((\<lambda>_. Fresh)(0 := Claimed (0, 0), 1 := Trying True [])) [])"
    by (simp add: example_simps)
  from runs_step [OF this all_busy [of _ 1 True]] show ?thesis by (simp add: example_simps)
qed


text \<open>A release runs to its end.\<close>

lemma runs_release:
  assumes "runs st" "sy_calls st t = Dropping x 0 e"
  shows "\<exists>st'. runs st' \<and> sy_calls st' t = Ended e"
proof -
  have "\<exists>st'. runs st' \<and> sy_calls st' t = Dropping x k e" if "k \<le> 7" for k
    using that
  proof (induction k)
    case 0
    then show ?case using assms by blast
  next
    case (Suc k)
    then obtain st' where "runs st'" "sy_calls st' t = Dropping x k e" by auto
    from runs_step [OF this(1) release [OF this(2)]] Suc.prems show ?case
      by (intro exI [of _ "moves t (Dropping x (k + 1) e) ((release_steps True x ! k) (sy_pool st')) st'"]) simp
  qed
  then obtain st' where d: "runs st'" "sy_calls st' t = Dropping x 7 e" by blast
  let ?st = "moves t (Notifying e) ((release_steps True x ! 7) (sy_pool st')) st'"
  have "runs ?st" using runs_step [OF d(1) released [OF d(2)]] by simp
  from runs_step [OF this notify [of _ t e]] show ?thesis
    by (intro exI [of _ "moves t (Ended e) (renotify (nt_notify_one fifo) (sy_pool ?st)) ?st"]) simp
qed

lemma run_replied: "\<exists>st. runs st \<and> sy_calls st 0 = Ended (Replied (0, ''k'') None (Some (0, ())))"
proof -
  let ?x = "(0 :: nat, 0 :: nat)"
  let ?s0 = "example [(0, False, 1)] nobody ((\<lambda>_. Fresh)(0 := Claimed ?x)) []"
  let ?s1 = "moves 0 (Ready ?x) (set_slot ?x (sl_plan_update (\<lambda>_. Some (0, ()))) (sy_pool ?s0)) ?s0"
  have plan: "has_slot (sy_pool ?s1) ?x" "sl_plan (slot_at (sy_pool ?s1) ?x) = Some (0, ())"
    by (simp_all add: has_slot_def example_simps)
  have r1: "runs ?s1" by (rule runs_step [OF run_claimed put_plan]) (simp add: example_def)
  let ?s2 = "moves 0 (Armed ?x) (arm_deadline ?x 5000000 (sy_pool ?s1)) ?s1"
  have r2: "runs ?s2" by (rule runs_step [OF r1 arm]) simp
  let ?s3 = "moves 0 (Calling ?x) (sy_pool ?s2) ?s2"
  have r3: "runs ?s3" by (rule runs_step [OF r2 start]) simp
  let ?s4 = "?s3\<lparr>sy_region := (sy_region ?s3)(?x := (0, ''k''))\<rparr>"
  have r4: "runs ?s4" by (rule runs_step [OF r3 worker_writes]) simp
  let ?s5 = "moves 0 (Settled ?x (Inr 1)) (sy_pool ?s4) ?s4"
  have r5: "runs ?s5" by (rule runs_step [OF r4 settle]) simp_all
  let ?s6 = "moves 0 (Decoded ?x (0, ''k'') None) (sy_pool ?s5) ?s5"
  have r6: "runs ?s6" using runs_step [OF r5 decode [of _ 0 ?x 1]] by simp
  let ?s7 = "moves 0 (Dropping ?x 0 (Replied (0, ''k'') None (Some (0, ()))))
    (set_slot ?x (sl_plan_update (\<lambda>_. None)) (sy_pool ?s6)) ?s6"
  have "sl_plan (slot_at (sy_pool ?s6) ?x) = Some (0, ())" using plan by (simp add: arm_deadline_def)
  then have "runs ?s7" using runs_step [OF r6 take_plan [of _ 0 ?x "(0, ''k'')" None _ _ _ True]] by simp
  from runs_release [OF this] show ?thesis by simp
qed

abbreviation claimed_state :: "(unit, nat list \<times> nat set \<times> bool) system" where
  "claimed_state \<equiv> example [(0, False, 1)] nobody ((\<lambda>_. Fresh)(0 := Claimed (0, 0))) []"

theorem slot_exclusive_witness:
  "(sl_idle (slot_at (sy_pool claimed_state) (0, 0)) = (\<forall>t. holder (sy_calls claimed_state t) \<noteq> Some (0, 0))) \<and>
    card {t. holder (sy_calls claimed_state t) = Some (0, 0)} \<le> 1 \<and> in_flight (sy_pool claimed_state) 0 \<le> 1"
proof -
  have "has_slot (sy_pool claimed_state) (0, 0)" by (simp add: has_slot_def example_simps)
  from slot_exclusive [OF run_claimed this] show ?thesis by (simp add: example_simps)
qed

theorem own_replies_witness:
  "\<exists>st b. runs st \<and> sy_calls st 0 = Ended (Replied b None (Some (0, ()))) \<and> fst b = 0"
  using run_replied own_replies by fastforce

text \<open>
  A worker that registers wakes nobody: call 1 goes on waiting beside a free slot, without a notification on the way.
\<close>

lemma register_wakes_nobody:
  "\<exists>st. runs st \<and> sy_calls st 1 = Waiting 1 \<and> 1 \<in> waits fifo st \<and> told fifo st = {} \<and> lookers st (2, 0) = {} \<and>
     (1, 0) \<in> set (pool_slots (sy_pool st)) \<and> sl_idle (slot_at (sy_pool st) (1, 0))"
proof -
  let ?st = "example [(0, False, 1), (1, True, 0)] ([1], {}, False) ((\<lambda>_. Fresh)(0 := Claimed (0, 0), 1 := Waiting 1)) []"
  have "runs ?st" using runs_register [OF run_waiting] by (simp add: reads_lock_def)
  moreover have "lookers ?st (2, 0) = {}" by (simp add: lookers_def example_def)
  ultimately show ?thesis by (intro exI [of _ ?st]) (simp add: example_simps)
qed

text \<open>The witness of the wait: one slot, held by call 0, call 1 waits.\<close>

theorem no_lost_wakeup_witness:
  "\<exists>u. holder (((\<lambda>_. Fresh)(0 :: nat := Claimed (0, 0), 1 := (Waiting 1 :: unit call_state))) u) = Some (0, 0)"
proof -
  let ?st = "example [(0, False, 1)] ([1], {}, False) ((\<lambda>_. Fresh)(0 := Claimed (0, 0), 1 := Waiting 1)) []"
  have "lookers ?st (1, 0) = {}" by (simp add: lookers_def example_def)
  then have "\<exists>u. holder (sy_calls ?st u) = Some (0, 0)"
    by (intro no_lost_wakeup [OF fifo_laws run_waiting, of 1 1]) (simp_all add: example_simps)
  then show ?thesis by (simp only: example_def system.simps)
qed

text \<open>A deadline can be armed up to a microsecond early.\<close>

lemma sweep_early: "is_expired 1000000 (slot_new\<lparr>sl_deadline := epoch_ms_ceil 1000999\<rparr>)"
  by (simp add: is_expired_def epoch_ms_ceil_def slot_new_def)

end
