(* ===== verification/Spec2Isabelle.thy ===== *)
theory Spec2Isabelle
  imports Url KeyExpr CacheKeys Actions StaticRules Epoch Dispatch Html Plan PlanLaws Page Document FoldLaws GeneratedNames ClaimLaws
begin

text \<open>
  A verification development of brust's core: the host-agnostic crate \<^verbatim>\<open>crates/brust-core\<close>, the request-scoped
  invalidation sync of \<^verbatim>\<open>crates/brust-wasm/src/epoch\<close>, the render tree of \<^verbatim>\<open>crates/brust-jinja\<close>, the worker pool of the
  native server (\<^verbatim>\<open>crates/brust-server\<close>) and what works on the compiler's intermediate form alone (\<^verbatim>\<open>crates/brust-compiler\<close>). Paths
  below are relative to \<^verbatim>\<open>src/crates\<close>.

  A request enters \<^verbatim>\<open>pipeline.rs\<close> (\<open>Dispatch\<close>): preflight, ping, stats, static files, actions, the
  trailing-slash policy, then the page path (\<open>Page\<close>). A page is matched (\<open>Routes\<close>), keyed
  (\<open>KeyExpr\<close>, \<open>CacheKeys\<close>, \<open>PageParts\<close>), looked up in the page cache (\<open>LocalCache\<close> over \<open>LruStore\<close>) and
  in the shared cache (\<open>L2\<close>); otherwise its loader and its jobs run in a worker (\<open>Plan\<close>, \<open>Jobs\<close>), the
  chain renders leaf first and the document is put together (\<open>Document\<close>, \<open>Markup\<close>), and the page is stored under the clock read before the first wait (\<open>Stamp\<close>). Invalidations
  (\<open>CoreState\<close>) and the pull broadcast of an isolate (\<open>Epoch\<close>) run between any two steps.

  The theories, in import order:
  \<^item> \<open>Prelude\<close>: errors as sums (\<open>Ok\<close>, \<open>Err\<close> abbreviate \<open>Inr\<close>, \<open>Inl\<close>), byte strings, ASCII, words as
    bounded numbers with their wrap-around, association lists. \<open>Utf8\<close>, \<open>Base64\<close>, \<open>Numbers\<close>: the parts of the Rust
    library the code leans on, with their round trips.
  \<^item> \<open>Url\<close> (\<^verbatim>\<open>routing/routes.rs\<close>, \<^verbatim>\<open>static_rules.rs\<close>): normalisation and percent decoding, byte by byte;
    normal forms, fast path, segments. \<open>Routes\<close>: the route table, its install and match over the interface \<open>matchit\<close> of
    the external router; alignment with the manifest.
  \<^item> \<open>KeyExpr\<close> (\<^verbatim>\<open>cache/key_expr.rs\<close>): parser, evaluator, read set; round trip with a printer, soundness of the reads.
    \<open>CacheKeys\<close>: page keys.
  \<^item> \<open>Stamp\<close>, \<open>LruStore\<close>, \<open>LocalCache\<close> (\<^verbatim>\<open>cache/stamp.rs\<close>, \<^verbatim>\<open>cache/local.rs\<close>): the store, its refinement of an
    abstract recency list, and both caches. Their freshness contract is the locale \<open>stamped_cache\<close>, interpreted for
    the page cache and for the job cache.
  \<^item> \<open>Headers\<close> (\<^verbatim>\<open>body.rs\<close>) over the locale \<open>http_headers\<close> of the external header map; \<open>Config\<close>, \<open>Cors\<close>,
    \<open>Actions\<close>, \<open>StaticRules\<close>: one file of the crate each.
  \<^item> \<open>L2\<close> (\<^verbatim>\<open>l2.rs\<close>): shared bodies and the invalidation floor. \<open>CoreState\<close> (\<^verbatim>\<open>core.rs\<close>): the state of a core and
    its operations as sequences of cache calls. \<open>Epoch\<close> (\<^verbatim>\<open>epoch/cursor.rs\<close>, \<^verbatim>\<open>epoch/sync.rs\<close>): the sync as a
    step relation with invariants of its reachable states.
  \<^item> \<open>Node\<close>, \<open>Html\<close> (\<^verbatim>\<open>brust-jinja\<close>): the render tree, its JSON with the key order of the source text, and its
    escapes.
  \<^item> \<open>Inputs\<close>, \<open>Manifest\<close>, \<open>Plan\<close>, \<open>PlanLaws\<close>, \<open>Jobs\<close>: paths and projections of job inputs, the manifest and its boot
    checks, the plan index, planning, the jobs call and what becomes of its results.
  \<^item> \<open>Dispatch\<close>, \<open>PageParts\<close>, \<open>Page\<close> (\<^verbatim>\<open>pipeline.rs\<close>): who answers a request; the cache decision, the loader's
    headers and data, the responses; the page path in stages cut at its awaits.
  \<^item> \<open>Markup\<close>, \<open>Document\<close> (\<^verbatim>\<open>render.rs\<close>): scanning of rendered markup, the doctype, the hoist into the head, the
    generator tag; the chain of levels with its markers, the stylesheet and preload links, the scripts and the store
    snapshots. \<open>page_document\<close> composes them; the page path takes it as its argument \<open>si_render\<close>.

  \<^item> \<open>CExpr\<close>, \<open>Fold\<close>, \<open>FoldLaws\<close> (\<^verbatim>\<open>brust-compiler/src/ir\<close>): the expressions of the compiler's intermediate form and
    their text, the constant folder as a session with memo, budget and depth, and a big-step semantics of JavaScript
    that every successful fold agrees with. \<open>GeneratedNames\<close> (\<^verbatim>\<open>lower/names.rs\<close>): the names of generated code.
  \<^item> \<open>Pool\<close>, \<open>Claims\<close>, \<open>ClaimLaws\<close> (\<^verbatim>\<open>brust-server/src/pool.rs\<close>, \<^verbatim>\<open>dispatch.rs\<close>): the registry of workers, their slots, the
    deadlines; the calls of the native server as a step relation over single atomic accesses, any number of calls, workers
    and removals interleaved, with the notification of tokio as the parameter \<open>notify\<close> under \<open>notify_laws\<close>. \<open>ClaimLaws\<close> has
    the invariants (who holds a slot, what it carries, what a worker counts, who will look at a free slot) and runs that
    show the steps at work.

  Conventions. A function of the code is the definition of its name; a longer one is cut into named stages that are
  composed as in the code. Strings are byte lists (a character of the source is its UTF-8 bytes), numbers of a machine
  width wrap by \<open>mod\<close> where the code can reach the bound (\<open>u64_add\<close>, \<open>usize_add\<close>) and durations are in nanoseconds.
  A hash map is an association list without a promise on its order, a B-tree map a sorted one. Locks, atomics and
  reference counts are not in the model of the core: one step runs at a time, as on the single-thread hosts, and at an await any
  other operations may run. The worker pool is the exception: there a step is one atomic access or one section under a
  lock, in a sequentially consistent memory. What is not in the repository is a parameter: the router, the header map, hashes, the JSON
  printer, compiled expressions, the arithmetic of doubles, the Unicode tables, the worker, the adapter, the clocks, gzip and the template engine. Their
  documented laws are the locales named above or hypotheses of the properties.

  Bounds: every loop is structural or has a measure. The depth of a fold is the code's own bound \<open>MAX_DEPTH\<close>, no fuel of
  the model. Properties over sequences of operations assume
  fewer of them than the clock can count (\<open>u64_mod\<close>), and no cache limit above half the address space.

  Not modelled: the template engine (an argument of \<open>page_document\<close>), the filters on engine values, gzip, the development trace, logs, the serde readers of the worker
  protocol, the rest of the native server (sockets, files, shutdown of its runtime, the concurrent caches over moka, whose contract is the one proved of the
  single-thread caches), the JavaScript glue of the Workers host, the bindings, and the compiler's analysis and lowering,
  which work on the syntax tree of a parser that is not in the repository; of the compiler, what works on its own
  intermediate form alone is modelled.
\<close>

end
